(* ===== verification/Prelude.thy ===== *)
theory Prelude
  imports Main "HOL-Library.Multiset"
begin

text \<open>
  Shared vocabulary of the development: the error taxonomy of \<open>src/src/core/status.h\<close>, the
  fixed-width integer checks the C++ code makes explicitly, and the generic facts about lists,
  counting and ceiling division that the component theories use.

  Error model. A C++ function of the engine ends in one of four ways, and the model keeps them
  apart: it returns (\<open>Inr\<close>), it returns a non-OK \<open>Status\<close> (\<open>Inl (Status c)\<close>), it aborts in a
  \<open>CHECK\<close> (\<open>Inl CheckFailed\<close>), or it would index a vector out of its bounds, which C++ leaves
  undefined (\<open>Inl OutOfBounds\<close>). The text of a \<open>Status\<close> message is not modelled: no code of the
  engine branches on it. Functions that change state on their error path return the pair of the
  new state and the result.

  Vectors are lists in index order: \<open>back()\<close> is \<open>last\<close>, \<open>push_back\<close> appends at the end and
  \<open>pop_back\<close> is \<open>butlast\<close>.
\<close>

section \<open>Status codes and failures\<close>

datatype StatusCode =
    kOk
  | kCancelledCode
  | kInvalidArgument
  | kNotFound
  | kAlreadyExists
  | kFailedPrecondition
  | kOutOfRange
  | kResourceExhausted
  | kOutOfMemory
  | kUnimplemented
  | kUnavailable
  | kInternal

datatype failure = Status StatusCode | CheckFailed | OutOfBounds

type_synonym 'a status_or = "failure + 'a"

abbreviation InvalidArgumentError :: "'a status_or" where
  "InvalidArgumentError \<equiv> Inl (Status kInvalidArgument)"

abbreviation ResourceExhaustedError :: "'a status_or" where
  "ResourceExhaustedError \<equiv> Inl (Status kResourceExhausted)"

abbreviation UnimplementedError :: "'a status_or" where
  "UnimplementedError \<equiv> Inl (Status kUnimplemented)"

abbreviation FailedPreconditionError :: "'a status_or" where
  "FailedPreconditionError \<equiv> Inl (Status kFailedPrecondition)"

abbreviation NotFoundError :: "'a status_or" where
  "NotFoundError \<equiv> Inl (Status kNotFound)"

text \<open>\<open>ASSIGN_OR_RETURN\<close> and \<open>RETURN_IF_ERROR\<close>: go on with the value, or return the error.\<close>

definition bind_ok :: "'a status_or \<Rightarrow> ('a \<Rightarrow> 'b status_or) \<Rightarrow> 'b status_or" where
  "bind_ok x f = (case x of Inl e \<Rightarrow> Inl e | Inr v \<Rightarrow> f v)"

lemma bind_ok_simps [simp]: "bind_ok (Inl e) f = Inl e" "bind_ok (Inr v) f = f v"
  by (simp_all add: bind_ok_def)

lemma bind_ok_cong [fundef_cong]:
  "x = y \<Longrightarrow> (\<And>v. y = Inr v \<Longrightarrow> f v = g v) \<Longrightarrow> bind_ok x f = bind_ok y g"
  by (cases y) (simp_all add: bind_ok_def)

lemma bind_okE: "bind_ok x f = Inr r \<Longrightarrow> (\<And>v. x = Inr v \<Longrightarrow> f v = Inr r \<Longrightarrow> P) \<Longrightarrow> P"
  by (cases x) auto

definition IsResourceExhausted :: "failure \<Rightarrow> bool" where
  "IsResourceExhausted f \<longleftrightarrow> f = Status kResourceExhausted"

section \<open>Fixed-width integers\<close>

definition INT64_MAX :: int where "INT64_MAX = 9223372036854775807"
definition INT64_MIN :: int where "INT64_MIN = - 9223372036854775808"
definition INT32_MAX :: int where "INT32_MAX = 2147483647"

definition in_int64 :: "int \<Rightarrow> bool" where
  "in_int64 x \<longleftrightarrow> INT64_MIN \<le> x \<and> x \<le> INT64_MAX"

text \<open>\<open>static_cast<std::int32_t>\<close>: two's complement wrap-around (C++20).\<close>

definition int32_cast :: "int \<Rightarrow> int" where
  "int32_cast x = (x + 2147483648) mod 4294967296 - 2147483648"

text \<open>\<open>__builtin_mul_overflow\<close> on \<open>int64\<close>: \<open>None\<close> when the exact product does not fit.\<close>

definition mul_overflow :: "int \<Rightarrow> int \<Rightarrow> int option" where
  "mul_overflow a b = (if in_int64 (a * b) then Some (a * b) else None)"

text \<open>The loop \<open>for (f : factors) if (__builtin_mul_overflow(acc, f, &acc)) return error\<close>.\<close>

fun mul_overflow_all :: "int \<Rightarrow> int list \<Rightarrow> int option" where
  "mul_overflow_all acc [] = Some acc"
| "mul_overflow_all acc (f # fs) =
     (case mul_overflow acc f of None \<Rightarrow> None | Some acc' \<Rightarrow> mul_overflow_all acc' fs)"

lemmas int_width_defs = in_int64_def INT64_MAX_def INT64_MIN_def INT32_MAX_def int32_cast_def

lemma int32_cast_id: "0 \<le> x \<Longrightarrow> x \<le> INT32_MAX \<Longrightarrow> int32_cast x = x"
  by (simp add: int_width_defs)

lemma int32_cast_neg:
  assumes "INT32_MAX < x" and "x \<le> 2 * INT32_MAX + 1"
  shows "int32_cast x < 0"
proof -
  have "(x + 2147483648) mod 4294967296 = (x + 2147483648 - 4294967296) mod 4294967296"
    by (simp only: minus_mod_self2)
  also have "\<dots> = x + 2147483648 - 4294967296"
    using assms by (intro mod_pos_pos_trivial) (simp_all add: INT32_MAX_def)
  finally show ?thesis using assms by (simp add: int32_cast_def INT32_MAX_def)
qed

lemma prod_list_ge_one: "\<forall>f\<in>set fs. 1 \<le> f \<Longrightarrow> (1::int) \<le> prod_list fs"
proof (induction fs)
  case (Cons f fs)
  then have "1 \<le> prod_list fs" and "1 \<le> f" by auto
  then have "1 * 1 \<le> f * prod_list fs" by (intro mult_mono) auto
  then show ?case by simp
qed simp

lemma mul_overflow_all_Some:
  assumes "mul_overflow_all acc fs = Some r"
  shows "r = acc * prod_list fs"
  using assms
proof (induction fs arbitrary: acc)
  case (Cons f fs)
  then have "mul_overflow_all (acc * f) fs = Some r"
    by (auto simp: mul_overflow_def split: option.splits if_splits)
  from Cons.IH [OF this] show ?case by (simp add: mult.assoc)
qed simp

text \<open>With positive factors no intermediate product exceeds the final one, so the guarded loop
  fails exactly when the final product does not fit.\<close>

lemma mul_overflow_all_eq:
  assumes "1 \<le> acc" and "\<forall>f\<in>set fs. 1 \<le> f"
    and "in_int64 acc"
  shows "mul_overflow_all acc fs =
    (if in_int64 (acc * prod_list fs) then Some (acc * prod_list fs) else None)"
  using assms
proof (induction fs arbitrary: acc)
  case Nil
  then show ?case by simp
next
  case (Cons f fs)
  have f: "1 \<le> f" and fs: "\<forall>f\<in>set fs. 1 \<le> f" using Cons.prems by auto
  have le: "1 \<le> acc * f"
    using mult_mono [of 1 acc 1 f] Cons.prems(1) f by simp
  have p: "1 \<le> prod_list fs" by (rule prod_list_ge_one [OF fs])
  have grow: "acc * f \<le> acc * f * prod_list fs"
    using mult_left_mono [OF p, of "acc * f"] le by simp
  show ?case
  proof (cases "in_int64 (acc * f)")
    case True
    then show ?thesis using Cons.IH [OF le fs True] by (simp add: mul_overflow_def mult.assoc)
  next
    case False
    then have "\<not> in_int64 (acc * f * prod_list fs)"
      using grow le by (auto simp: int_width_defs)
    with False show ?thesis by (simp add: mul_overflow_def mult.assoc)
  qed
qed

text \<open>C++ integer division truncates towards zero and \<open>%\<close> takes the sign of the dividend.\<close>

definition c_div :: "int \<Rightarrow> int \<Rightarrow> int" where
  "c_div a b = sgn a * sgn b * (\<bar>a\<bar> div \<bar>b\<bar>)"

definition c_mod :: "int \<Rightarrow> int \<Rightarrow> int" where
  "c_mod a b = a - b * c_div a b"

lemma c_div_nonneg [simp]: "0 \<le> a \<Longrightarrow> 0 < b \<Longrightarrow> c_div a b = a div b"
  by (cases "a = 0") (simp_all add: c_div_def)

lemma c_mod_nonneg [simp]: "0 \<le> a \<Longrightarrow> 0 < b \<Longrightarrow> c_mod a b = a mod b"
  by (simp add: c_mod_def minus_mult_div_eq_mod)

section \<open>Ceiling division\<close>

text \<open>The idiom \<open>(n + bs - 1) / bs\<close> on non-negative operands.\<close>

definition ceil_div :: "int \<Rightarrow> int \<Rightarrow> int" where
  "ceil_div n bs = (n + bs - 1) div bs"

lemma ceil_div_zero [simp]: "0 < bs \<Longrightarrow> ceil_div 0 bs = 0"
  by (simp add: ceil_div_def)

lemma ceil_div_mono: "0 < bs \<Longrightarrow> m \<le> n \<Longrightarrow> ceil_div m bs \<le> ceil_div n bs"
  unfolding ceil_div_def by (intro zdiv_mono1) auto

lemma ceil_div_nonneg: "0 < bs \<Longrightarrow> 0 \<le> n \<Longrightarrow> 0 \<le> ceil_div n bs"
  using ceil_div_mono [of bs 0 n] by simp

lemma int_div_less_iff:
  fixes a b k :: int
  assumes b: "0 < b"
  shows "a div b < k \<longleftrightarrow> a < k * b"
proof
  assume "a div b < k"
  then have "(a div b + 1) * b \<le> k * b" using b by (intro mult_right_mono) auto
  moreover have "a < (a div b + 1) * b"
  proof -
    have "a div b * b + a mod b < a div b * b + b"
      by (rule add_strict_left_mono) (rule pos_mod_bound [OF b])
    then show ?thesis by (simp only: div_mult_mod_eq) (simp add: distrib_right)
  qed
  ultimately show "a < k * b" by simp
next
  assume a: "a < k * b"
  show "a div b < k"
  proof (rule ccontr)
    assume "\<not> a div b < k"
    then have "k * b \<le> a div b * b" using b by (intro mult_right_mono) auto
    also have "\<dots> \<le> a" using div_mult_mod_eq [of a b] pos_mod_sign [OF b, of a] by linarith
    finally show False using a by simp
  qed
qed

lemma ceil_div_le_iff:
  assumes "0 < bs"
  shows "ceil_div n bs \<le> k \<longleftrightarrow> n \<le> k * bs"
proof -
  have "ceil_div n bs \<le> k \<longleftrightarrow> (n + bs - 1) div bs < k + 1"
    unfolding ceil_div_def by linarith
  also have "\<dots> \<longleftrightarrow> n + bs - 1 < (k + 1) * bs"
    by (rule int_div_less_iff [OF assms])
  also have "\<dots> \<longleftrightarrow> n \<le> k * bs" by (auto simp: algebra_simps)
  finally show ?thesis .
qed

lemma ceil_div_le: "0 < bs \<Longrightarrow> n \<le> ceil_div n bs * bs"
  using ceil_div_le_iff [of bs n "ceil_div n bs"] by simp

lemma div_less_ceil_div:
  assumes "0 < bs" and "p < n"
  shows "p div bs < ceil_div n bs"
proof -
  have "p < ceil_div n bs * bs" using ceil_div_le [OF assms(1), of n] assms(2) by linarith
  then show ?thesis by (simp add: int_div_less_iff [OF assms(1)])
qed

lemma ceil_div_add_block [simp]: "0 < bs \<Longrightarrow> ceil_div (n + bs) bs = ceil_div n bs + 1"
proof -
  assume "0 < bs"
  have "n + bs + bs - 1 = (n + bs - 1) + bs" by simp
  then show "ceil_div (n + bs) bs = ceil_div n bs + 1"
    using \<open>0 < bs\<close> by (simp only: ceil_div_def div_add_self2)
qed

lemma ceil_div_Suc:
  assumes "0 < bs"
  shows "ceil_div (n + 1) bs \<le> ceil_div n bs + 1"
  using ceil_div_mono [OF assms, of "n + 1" "n + bs"] assms by simp

lemma div_mod_slot_inj:
  fixes b b' p p' bs :: int
  assumes "b * bs + p = b' * bs + p'" and "0 \<le> p" "p < bs" "0 \<le> p'" "p' < bs"
  shows "b = b' \<and> p = p'"
proof -
  have "(b * bs + p) div bs = b" and "(b' * bs + p') div bs = b'"
    using assms(2-) by (simp_all add: div_add1_eq)
  with assms(1) show ?thesis by auto
qed

section \<open>Lists\<close>

lemma nth_in_set_int: "0 \<le> i \<Longrightarrow> i < int (length xs) \<Longrightarrow> xs ! nat i \<in> set xs"
  by (intro nth_mem) (simp add: nat_less_iff)

lemma butlast_snoc_last: "xs \<noteq> [] \<Longrightarrow> butlast xs @ [last xs] = xs"
  by simp

lemma distinct_butlast_last:
  "distinct xs \<Longrightarrow> xs \<noteq> [] \<Longrightarrow> last xs \<notin> set (butlast xs) \<and> distinct (butlast xs)"
  by (metis append_butlast_last_id distinct_append distinct_butlast list.set_intros(1) disjoint_iff)

lemma set_butlast_distinct:
  "distinct xs \<Longrightarrow> xs \<noteq> [] \<Longrightarrow> set (butlast xs) = set xs - {last xs}"
  by (metis (no_types, lifting) Diff_insert_absorb append_butlast_last_id distinct_butlast_last
      list.set(1,2) set_append Un_insert_right sup_bot_right)

lemma count_list_of_distinct: "distinct xs \<Longrightarrow> count_list xs x = (if x \<in> set xs then 1 else 0)"
  by (induction xs) auto

text \<open>Reading a vector or array element, with the bounds C++ leaves to the programmer checked.\<close>

definition at_index :: "'a list \<Rightarrow> int \<Rightarrow> 'a status_or" where
  "at_index xs i = (if i < 0 \<or> int (length xs) \<le> i then Inl OutOfBounds else Inr (xs ! nat i))"

lemma at_index_ok [simp]: "0 \<le> i \<Longrightarrow> i < int (length xs) \<Longrightarrow> at_index xs i = Inr (xs ! nat i)"
  by (simp add: at_index_def)

text \<open>A loop that evaluates a fallible function on each element and stops at the first failure.\<close>

fun traverse :: "('a \<Rightarrow> 'b status_or) \<Rightarrow> 'a list \<Rightarrow> 'b list status_or" where
  "traverse f [] = Inr []"
| "traverse f (x # xs) =
     (case f x of
        Inl e \<Rightarrow> Inl e
      | Inr y \<Rightarrow> (case traverse f xs of Inl e \<Rightarrow> Inl e | Inr ys \<Rightarrow> Inr (y # ys)))"

lemma traverse_ok: "(\<And>x. x \<in> set xs \<Longrightarrow> f x = Inr (g x)) \<Longrightarrow> traverse f xs = Inr (map g xs)"
  by (induction xs) auto

lemma traverse_length: "traverse f xs = Inr ys \<Longrightarrow> length ys = length xs"
  by (induction xs arbitrary: ys) (auto split: sum.splits)

text \<open>Splitting a tail off a list: \<open>std::erase(v, x)\<close> removes every occurrence of \<open>x\<close>.\<close>

abbreviation erase :: "'a \<Rightarrow> 'a list \<Rightarrow> 'a list" where
  "erase x xs \<equiv> removeAll x xs"

lemma upto_map_int: "[0..int n - 1] = map int [0..<n]"
proof (induction n)
  case (Suc n)
  have "[0..int (Suc n) - 1] = [0..int n - 1] @ [int n]" using upto_rec2 [of 0 "int n"] by simp
  then show ?case using Suc by simp
qed simp

end
