(* ===== verification/Block_Pool.thy ===== *)
theory Block_Pool
  imports Tensor_Types
begin

text \<open>
  The shared KV block store, \<open>src/src/kvcache/block_pool.{h,cpp}\<close>: capacity arithmetic, creation,
  and the block life cycle \<open>Allocate\<close> / \<open>Share\<close> / \<open>Release\<close> over a LIFO free list and per-block
  reference counts. A float is an element of an arbitrary type \<open>'f\<close> with a zero: the pool only
  fills and copies them. The mutex is not modelled; every operation is one atomic step, which is
  what the lock makes of it. The outcome of the i-th call to the passed \<open>memory::Allocator\<close> is the
  parameter \<open>alloc\<close>.

  The second half states the contract clients use as the locale \<open>block_allocator\<close> (allocate,
  release, a reference count and a free count), proves the client loops once inside it, and
  interprets it on the pool.
\<close>

section \<open>State\<close>

record CacheGeometry =
  num_layers :: int
  num_kv_heads :: int
  head_dim :: int
  dtype :: DataType

record 'f BlockPool =
  pool_geom :: CacheGeometry
  pool_block_size :: int
  pool_num_blocks :: int
  pool_slab_bytes :: int
  pool_block_stride :: int
  pool_head_stride :: int
  pool_row_stride :: int
  pool_k_slabs :: "'f list list"
  pool_v_slabs :: "'f list list"
  pool_refcount :: "int list"
  pool_free_list :: "int list"
  pool_used :: int
  pool_peak_used :: int
  pool_exhaustions :: int

record BlockPoolStats =
  total_stat :: int
  used_stat :: int
  free_stat :: int
  peak_used_stat :: int
  exhaustions_stat :: int
  block_size_stat :: int

section \<open>Capacity arithmetic\<close>

definition IsValidBlockSize :: "int \<Rightarrow> bool" where
  "IsValidBlockSize bs \<longleftrightarrow> bs = 8 \<or> bs = 16 \<or> bs = 32 \<or> bs = 64"

definition ValidateGeometry :: "CacheGeometry \<Rightarrow> unit status_or" where
  "ValidateGeometry g =
     (if num_layers g < 1 \<or> num_kv_heads g < 1 \<or> head_dim g < 1 then InvalidArgumentError
      else if dtype g \<noteq> kFloat32 then UnimplementedError
      else Inr ())"

definition BytesPerBlock :: "CacheGeometry \<Rightarrow> int \<Rightarrow> int status_or" where
  "BytesPerBlock g bs =
     (case ValidateGeometry g of
        Inl e \<Rightarrow> Inl e
      | Inr _ \<Rightarrow>
          if \<not> IsValidBlockSize bs then InvalidArgumentError
          else case itemsize (dtype g) of
            Inl e \<Rightarrow> Inl e
          | Inr isz \<Rightarrow>
              (case mul_overflow_all 2 [num_layers g, num_kv_heads g, bs, head_dim g, isz] of
                 None \<Rightarrow> InvalidArgumentError
               | Some elems \<Rightarrow> Inr elems))"

definition NumBlocksForBudget :: "CacheGeometry \<Rightarrow> int \<Rightarrow> int \<Rightarrow> int status_or" where
  "NumBlocksForBudget g bs kv_budget_bytes =
     (if kv_budget_bytes \<le> 0 then InvalidArgumentError
      else case BytesPerBlock g bs of
        Inl e \<Rightarrow> Inl e
      | Inr bytes_per_block \<Rightarrow>
          let num_blocks = kv_budget_bytes div bytes_per_block in
          if num_blocks < 1 then ResourceExhaustedError else Inr num_blocks)"

section \<open>Construction\<close>

text \<open>The free list is filled from \<open>num_blocks - 1\<close> down to 0, each id cast to \<open>int32\<close>.\<close>

definition initial_free_list :: "int \<Rightarrow> int list" where
  "initial_free_list n = map int32_cast (rev [0..n - 1])"

definition BlockPool_ctor ::
  "CacheGeometry \<Rightarrow> int \<Rightarrow> int \<Rightarrow> 'f list list \<Rightarrow> 'f list list \<Rightarrow> int \<Rightarrow> 'f BlockPool" where
  "BlockPool_ctor g bs n ks vs sbytes =
     \<lparr> pool_geom = g, pool_block_size = bs, pool_num_blocks = n, pool_slab_bytes = sbytes,
       pool_block_stride = num_kv_heads g * bs * head_dim g,
       pool_head_stride = bs * head_dim g,
       pool_row_stride = head_dim g,
       pool_k_slabs = ks, pool_v_slabs = vs,
       pool_refcount = replicate (nat n) 0,
       pool_free_list = initial_free_list n,
       pool_used = 0, pool_peak_used = 0, pool_exhaustions = 0 \<rparr>"

definition BlockPool_move :: "'f BlockPool \<Rightarrow> 'f BlockPool status_or" where
  "BlockPool_move other = (if pool_used other = 0 then Inr other else Inl CheckFailed)"

definition kSlabAlignment :: int where "kSlabAlignment = 256"

fun alloc_slabs ::
  "(nat \<Rightarrow> int \<Rightarrow> int \<Rightarrow> unit status_or) \<Rightarrow> CacheGeometry \<Rightarrow> int \<Rightarrow> int \<Rightarrow> nat \<Rightarrow> nat \<Rightarrow>
   'f::zero list list \<Rightarrow> 'f list list \<Rightarrow> ('f list list \<times> 'f list list) status_or" where
  "alloc_slabs alloc g elems bytes slab 0 ks vs = Inr (ks, vs)"
| "alloc_slabs alloc g elems bytes slab (Suc n) ks vs =
     (case alloc slab bytes kSlabAlignment of
        Inl e \<Rightarrow> Inl e
      | Inr _ \<Rightarrow>
          (case from_buffer bytes 0 elems (dtype g) of
             Inl e \<Rightarrow> Inl e
           | Inr _ \<Rightarrow>
               let t = replicate (nat elems) 0 in
               if even slab then alloc_slabs alloc g elems bytes (Suc slab) n (ks @ [t]) vs
               else alloc_slabs alloc g elems bytes (Suc slab) n ks (vs @ [t])))"

definition BlockPool_Create ::
  "(nat \<Rightarrow> int \<Rightarrow> int \<Rightarrow> unit status_or) \<Rightarrow> CacheGeometry \<Rightarrow> int \<Rightarrow> int \<Rightarrow>
   'f::zero BlockPool status_or" where
  "BlockPool_Create alloc g bs n =
     (case ValidateGeometry g of
        Inl e \<Rightarrow> Inl e
      | Inr _ \<Rightarrow>
          if \<not> IsValidBlockSize bs then InvalidArgumentError
          else if n < 1 then InvalidArgumentError
          else case mul_overflow_all n [num_kv_heads g, bs, head_dim g] of
            None \<Rightarrow> InvalidArgumentError
          | Some slab_elems \<Rightarrow>
              (case itemsize (dtype g) of
                 Inl e \<Rightarrow> Inl e
               | Inr isz \<Rightarrow>
                   (case mul_overflow slab_elems isz of
                      None \<Rightarrow> InvalidArgumentError
                    | Some slab_bytes \<Rightarrow>
                        (case alloc_slabs alloc g slab_elems slab_bytes 0
                                (nat (2 * num_layers g)) [] [] of
                           Inl e \<Rightarrow> Inl e
                         | Inr (ks, vs) \<Rightarrow>
                             BlockPool_move (BlockPool_ctor g bs n ks vs slab_bytes)))))"

section \<open>Block life cycle\<close>

definition block_in_range :: "'f BlockPool \<Rightarrow> int \<Rightarrow> bool" where
  "block_in_range p b \<longleftrightarrow> 0 \<le> b \<and> b < pool_num_blocks p"

definition Allocate :: "'f BlockPool \<Rightarrow> 'f BlockPool \<times> int status_or" where
  "Allocate p =
     (if pool_free_list p = [] then
        (p\<lparr>pool_exhaustions := pool_exhaustions p + 1\<rparr>, ResourceExhaustedError)
      else
        let block = last (pool_free_list p);
            p1 = p\<lparr>pool_free_list := butlast (pool_free_list p)\<rparr> in
        if block < 0 \<or> int (length (pool_refcount p)) \<le> block then (p1, Inl OutOfBounds)
        else
          let used = pool_used p + 1 in
          (p1\<lparr>pool_refcount := (pool_refcount p)[nat block := 1],
              pool_used := used,
              pool_peak_used := (if pool_peak_used p < used then used else pool_peak_used p)\<rparr>,
           Inr block))"

definition Share :: "'f BlockPool \<Rightarrow> int \<Rightarrow> 'f BlockPool status_or" where
  "Share p b =
     (if \<not> block_in_range p b then Inl CheckFailed
      else
        let rc = pool_refcount p ! nat b in
        if \<not> 0 < rc then Inl CheckFailed
        else Inr (p\<lparr>pool_refcount := (pool_refcount p)[nat b := rc + 1]\<rparr>))"

definition Release :: "'f BlockPool \<Rightarrow> int \<Rightarrow> 'f BlockPool status_or" where
  "Release p b =
     (if \<not> block_in_range p b then Inl CheckFailed
      else
        let rc = pool_refcount p ! nat b in
        if \<not> 0 < rc then Inl CheckFailed
        else
          let rc' = rc - 1; p1 = p\<lparr>pool_refcount := (pool_refcount p)[nat b := rc']\<rparr> in
          if rc' = 0 then Inr (p1\<lparr>pool_free_list := pool_free_list p @ [b], pool_used := pool_used p - 1\<rparr>)
          else Inr p1)"

definition refcount :: "'f BlockPool \<Rightarrow> int \<Rightarrow> int status_or" where
  "refcount p b =
     (if \<not> block_in_range p b then Inl CheckFailed else Inr (pool_refcount p ! nat b))"

definition stats :: "'f BlockPool \<Rightarrow> BlockPoolStats" where
  "stats p =
     \<lparr> total_stat = pool_num_blocks p, used_stat = pool_used p, free_stat = pool_num_blocks p - pool_used p,
       peak_used_stat = pool_peak_used p, exhaustions_stat = pool_exhaustions p,
       block_size_stat = pool_block_size p \<rparr>"

definition free_blocks :: "'f BlockPool \<Rightarrow> int" where
  "free_blocks p = pool_num_blocks p - pool_used p"

definition blocks_needed :: "'f BlockPool \<Rightarrow> int \<Rightarrow> int \<Rightarrow> int status_or" where
  "blocks_needed p cur_tokens add_tokens =
     (if \<not> (0 \<le> cur_tokens \<and> 0 \<le> add_tokens) then Inl CheckFailed
      else
        let bs = pool_block_size p;
            before = (cur_tokens + bs - 1) div bs;
            after = (cur_tokens + add_tokens + bs - 1) div bs in
        Inr (after - before))"

definition k_slab :: "'f BlockPool \<Rightarrow> int \<Rightarrow> 'f list status_or" where
  "k_slab p layer =
     (if 0 \<le> layer \<and> layer < num_layers (pool_geom p) then Inr (pool_k_slabs p ! nat layer)
      else Inl CheckFailed)"

definition v_slab :: "'f BlockPool \<Rightarrow> int \<Rightarrow> 'f list status_or" where
  "v_slab p layer =
     (if 0 \<le> layer \<and> layer < num_layers (pool_geom p) then Inr (pool_v_slabs p ! nat layer)
      else Inl CheckFailed)"

definition total_bytes :: "'f BlockPool \<Rightarrow> int" where
  "total_bytes p = pool_slab_bytes p * 2 * num_layers (pool_geom p)"

section \<open>The client contract\<close>

text \<open>
  What a client of the pool may rely on: an allocation succeeds exactly while a block is free and
  hands out a block nobody references, a release gives one reference back, and releasing what
  nobody references aborts. \<open>data\<close> is everything the two operations leave alone.
\<close>

locale block_allocator =
  fixes alloc :: "'s \<Rightarrow> 's \<times> int status_or"
    and release :: "'s \<Rightarrow> int \<Rightarrow> 's status_or"
    and rc :: "'s \<Rightarrow> int \<Rightarrow> int"
    and avail :: "'s \<Rightarrow> int"
    and data :: "'s \<Rightarrow> 'd"
    and inv :: "'s \<Rightarrow> bool"
  assumes rc_nonneg: "inv s \<Longrightarrow> 0 \<le> rc s b"
    and avail_nonneg: "inv s \<Longrightarrow> 0 \<le> avail s"
    and alloc_ok: "inv s \<Longrightarrow> 0 < avail s \<Longrightarrow>
      \<exists>s' b. alloc s = (s', Inr b) \<and> inv s' \<and> rc s b = 0 \<and> rc s' = (rc s)(b := 1) \<and>
        avail s' = avail s - 1 \<and> data s' = data s"
    and alloc_exhausted: "inv s \<Longrightarrow> avail s = 0 \<Longrightarrow>
      \<exists>s'. alloc s = (s', ResourceExhaustedError) \<and> inv s' \<and> rc s' = rc s \<and>
        avail s' = 0 \<and> data s' = data s"
    and release_ok: "inv s \<Longrightarrow> 0 < rc s b \<Longrightarrow>
      \<exists>s'. release s b = Inr s' \<and> inv s' \<and> rc s' = (rc s)(b := rc s b - 1) \<and>
        avail s' = avail s + (if rc s b = 1 then 1 else 0) \<and> data s' = data s"
    and release_free: "inv s \<Longrightarrow> rc s b = 0 \<Longrightarrow> release s b = Inl CheckFailed"

text \<open>The two loops clients run over the pool: take \<open>n\<close> blocks (reporting the blocks already taken
  when an allocation fails), and release a list of blocks in order.\<close>

fun alloc_loop ::
  "('s \<Rightarrow> 's \<times> int status_or) \<Rightarrow> nat \<Rightarrow> 's \<Rightarrow> int list \<Rightarrow>
   's \<times> ((failure \<times> int list) + int list)" where
  "alloc_loop alloc 0 s fresh = (s, Inr fresh)"
| "alloc_loop alloc (Suc n) s fresh =
     (case alloc s of
        (s', Inl e) \<Rightarrow> (s', Inl (e, fresh))
      | (s', Inr b) \<Rightarrow> alloc_loop alloc n s' (fresh @ [b]))"

fun release_loop :: "('s \<Rightarrow> int \<Rightarrow> 's status_or) \<Rightarrow> int list \<Rightarrow> 's \<Rightarrow> 's status_or" where
  "release_loop release [] s = Inr s"
| "release_loop release (b # bs) s =
     (case release s b of Inl e \<Rightarrow> Inl e | Inr s' \<Rightarrow> release_loop release bs s')"

context block_allocator
begin

lemma alloc_loop_ok:
  assumes "inv s" and "int n \<le> avail s"
  shows "\<exists>s' bs. alloc_loop alloc n s fresh = (s', Inr (fresh @ bs)) \<and> inv s' \<and>
    length bs = n \<and> distinct bs \<and> (\<forall>b\<in>set bs. rc s b = 0) \<and>
    rc s' = (\<lambda>b. if b \<in> set bs then 1 else rc s b) \<and>
    avail s' = avail s - int n \<and> data s' = data s"
  using assms
proof (induction n arbitrary: s fresh)
  case 0
  then show ?case by auto
next
  case (Suc n)
  obtain s1 b where a: "alloc s = (s1, Inr b)" and i: "inv s1" and z: "rc s b = 0"
    and r: "rc s1 = (rc s)(b := 1)" and v: "avail s1 = avail s - 1" and d: "data s1 = data s"
    using alloc_ok [of s] Suc.prems by fastforce
  obtain s' bs where IH: "alloc_loop alloc n s1 (fresh @ [b]) = (s', Inr ((fresh @ [b]) @ bs))"
    "inv s'" "length bs = n" "distinct bs" "\<forall>c\<in>set bs. rc s1 c = 0"
    "rc s' = (\<lambda>c. if c \<in> set bs then 1 else rc s1 c)" "avail s' = avail s1 - int n" "data s' = data s1"
    using Suc.IH [OF i, of "fresh @ [b]"] Suc.prems v by auto
  have "b \<notin> set bs" using IH(5) r by auto
  moreover have "\<forall>c\<in>set bs. rc s c = 0" using IH(5) r \<open>b \<notin> set bs\<close> by (metis fun_upd_other)
  ultimately show ?case
    using a IH r v d z by (intro exI [of _ s'] exI [of _ "b # bs"]) (auto simp: fun_eq_iff)
qed

lemma alloc_loop_exhausted:
  assumes "inv s" and "avail s < int n"
  shows "\<exists>s' bs. alloc_loop alloc n s fresh = (s', Inl (Status kResourceExhausted, fresh @ bs)) \<and>
    inv s' \<and> length bs = nat (avail s) \<and> distinct bs \<and> (\<forall>b\<in>set bs. rc s b = 0) \<and>
    rc s' = (\<lambda>b. if b \<in> set bs then 1 else rc s b) \<and> avail s' = 0 \<and> data s' = data s"
  using assms
proof (induction n arbitrary: s fresh)
  case 0
  then show ?case using avail_nonneg [of s] by simp
next
  case (Suc n)
  show ?case
  proof (cases "avail s = 0")
    case True
    then show ?thesis using alloc_exhausted [OF Suc.prems(1)] by fastforce
  next
    case False
    then have pos: "0 < avail s" using avail_nonneg [OF Suc.prems(1)] by simp
    obtain s1 b where a: "alloc s = (s1, Inr b)" and i: "inv s1" and z: "rc s b = 0"
      and r: "rc s1 = (rc s)(b := 1)" and v: "avail s1 = avail s - 1" and d: "data s1 = data s"
      using alloc_ok [OF Suc.prems(1) pos] by fastforce
    have "avail s1 < int n" using v Suc.prems(2) by simp
    then obtain s' bs where IH:
      "alloc_loop alloc n s1 (fresh @ [b]) = (s', Inl (Status kResourceExhausted, (fresh @ [b]) @ bs))"
      "inv s'" "length bs = nat (avail s1)" "distinct bs" "\<forall>c\<in>set bs. rc s1 c = 0"
      "rc s' = (\<lambda>c. if c \<in> set bs then 1 else rc s1 c)" "avail s' = 0" "data s' = data s1"
      using Suc.IH [OF i, of "fresh @ [b]"] by auto
    have nb: "b \<notin> set bs" using IH(5) r by auto
    moreover have "\<forall>c\<in>set bs. rc s c = 0" using IH(5) r nb by (metis fun_upd_other)
    moreover have "Suc (nat (avail s1)) = nat (avail s)" using v pos by simp
    ultimately show ?thesis
      using a IH r d z by (intro exI [of _ s'] exI [of _ "b # bs"]) (auto simp: fun_eq_iff)
  qed
qed

lemma release_loop_ok:
  assumes "inv s" and "\<forall>b. int (count_list bs b) \<le> rc s b"
  shows "\<exists>s'. release_loop release bs s = Inr s' \<and> inv s' \<and>
    rc s' = (\<lambda>b. rc s b - int (count_list bs b)) \<and>
    avail s' = avail s + int (card {b \<in> set bs. rc s b = int (count_list bs b)}) \<and> data s' = data s"
  using assms
proof (induction bs arbitrary: s)
  case Nil
  then show ?case by simp
next
  case (Cons b bs)
  have "int (count_list (b # bs) b) \<le> rc s b" using Cons.prems(2) by blast
  then have pos: "0 < rc s b" by simp
  obtain s1 where s1: "release s b = Inr s1" "inv s1" "rc s1 = (rc s)(b := rc s b - 1)"
    "avail s1 = avail s + (if rc s b = 1 then 1 else 0)" "data s1 = data s"
    using release_ok [OF Cons.prems(1) pos] by blast
  have "\<forall>c. int (count_list bs c) \<le> rc s1 c"
    using Cons.prems(2) s1(3) by (auto split: if_splits)
  then obtain s' where IH: "release_loop release bs s1 = Inr s'" "inv s'"
    "rc s' = (\<lambda>c. rc s1 c - int (count_list bs c))"
    "avail s' = avail s1 + int (card {c \<in> set bs. rc s1 c = int (count_list bs c)})" "data s' = data s1"
    using Cons.IH [OF s1(2)] by blast
  let ?A = "{c \<in> set bs. rc s1 c = int (count_list bs c)}"
  let ?B = "{c \<in> set (b # bs). rc s c = int (count_list (b # bs) c)}"
  have card: "int (card ?B) = (if rc s b = 1 then 1 else 0) + int (card ?A)"
  proof (cases "b \<in> set bs")
    case True
    then have "0 < count_list bs b" by (metis count_list_0_iff gr0I)
    moreover have "?A = ?B" using True s1(3) by (auto split: if_splits)
    moreover have "rc s b \<noteq> 1" using \<open>int (count_list (b # bs) b) \<le> rc s b\<close> calculation(1) by auto
    ultimately show ?thesis by simp
  next
    case False
    then have c0: "count_list bs b = 0" by simp
    have "?B = (if rc s b = 1 then insert b ?A else ?A)"
      using False s1(3) c0 by (auto split: if_splits)
    moreover have "b \<notin> ?A" using False by simp
    moreover have "finite ?A" by simp
    ultimately show ?thesis by simp
  qed
  show ?case
    using s1 IH card by (auto simp: fun_eq_iff)
qed

text \<open>Releasing what an allocation loop took restores every count.\<close>

lemma release_loop_fresh:
  assumes "inv s" and "distinct bs" and "\<forall>b\<in>set bs. rc s b = 1"
  shows "\<exists>s'. release_loop release bs s = Inr s' \<and> inv s' \<and>
    rc s' = (\<lambda>b. if b \<in> set bs then 0 else rc s b) \<and>
    avail s' = avail s + int (length bs) \<and> data s' = data s"
proof -
  have cnt: "count_list bs b = (if b \<in> set bs then 1 else 0)" for b
    using assms(2) by (simp add: count_list_of_distinct)
  have "\<forall>b. int (count_list bs b) \<le> rc s b"
    using assms(3) rc_nonneg [OF assms(1)] by (simp add: cnt)
  from release_loop_ok [OF assms(1) this] obtain s' where s':
    "release_loop release bs s = Inr s'" "inv s'" "rc s' = (\<lambda>b. rc s b - int (count_list bs b))"
    "avail s' = avail s + int (card {b \<in> set bs. rc s b = int (count_list bs b)})" "data s' = data s"
    by blast
  have "{b \<in> set bs. rc s b = int (count_list bs b)} = set bs"
    using assms(3) by (auto simp: cnt)
  then show ?thesis using s' assms(2,3) by (auto simp: cnt distinct_card fun_eq_iff)
qed

end

section \<open>The pool meets the contract\<close>

text \<open>Bookkeeping invariant: the free list holds exactly the unreferenced blocks, once each, and
  the counters agree with it.\<close>

definition pool_inv :: "'f BlockPool \<Rightarrow> bool" where
  "pool_inv p \<longleftrightarrow>
     0 < pool_block_size p \<and> 0 \<le> pool_num_blocks p \<and>
     length (pool_refcount p) = nat (pool_num_blocks p) \<and>
     (\<forall>b\<in>set (pool_free_list p). block_in_range p b) \<and> distinct (pool_free_list p) \<and>
     (\<forall>b\<in>set [0..pool_num_blocks p - 1].
        0 \<le> pool_refcount p ! nat b \<and>
        (pool_refcount p ! nat b = 0 \<longleftrightarrow> b \<in> set (pool_free_list p))) \<and>
     pool_used p = pool_num_blocks p - int (length (pool_free_list p)) \<and>
     pool_used p \<le> pool_peak_used p \<and> pool_peak_used p \<le> pool_num_blocks p \<and>
     0 \<le> pool_exhaustions p"

text \<open>The reference count as a total function: a block outside the pool has none.\<close>

definition rc_of :: "'f BlockPool \<Rightarrow> int \<Rightarrow> int" where
  "rc_of p b = (if block_in_range p b then pool_refcount p ! nat b else 0)"

text \<open>Everything of the pool that the life-cycle operations never write.\<close>

definition pool_data ::
  "'f BlockPool \<Rightarrow> CacheGeometry \<times> int \<times> int \<times> int \<times> int \<times> int \<times> int \<times> 'f list list \<times> 'f list list" where
  "pool_data p = (pool_geom p, pool_block_size p, pool_num_blocks p, pool_slab_bytes p,
     pool_block_stride p, pool_head_stride p, pool_row_stride p, pool_k_slabs p, pool_v_slabs p)"

lemma pool_invD:
  assumes "pool_inv p"
  shows "0 < pool_block_size p" "0 \<le> pool_num_blocks p"
    "length (pool_refcount p) = nat (pool_num_blocks p)"
    "b \<in> set (pool_free_list p) \<Longrightarrow> block_in_range p b" "distinct (pool_free_list p)"
    "block_in_range p b \<Longrightarrow> 0 \<le> pool_refcount p ! nat b"
    "block_in_range p b \<Longrightarrow> (pool_refcount p ! nat b = 0) = (b \<in> set (pool_free_list p))"
    "pool_used p = pool_num_blocks p - int (length (pool_free_list p))"
    "pool_used p \<le> pool_peak_used p" "pool_peak_used p \<le> pool_num_blocks p" "0 \<le> pool_exhaustions p"
  using assms by (auto simp: pool_inv_def block_in_range_def)

lemma free_blocks_eq: "pool_inv p \<Longrightarrow> free_blocks p = int (length (pool_free_list p))"
  by (simp add: free_blocks_def pool_invD(8))

lemma rc_of_zero_iff: "pool_inv p \<Longrightarrow> block_in_range p b \<Longrightarrow> rc_of p b = 0 \<longleftrightarrow> b \<in> set (pool_free_list p)"
  by (simp add: rc_of_def pool_invD)

lemma nat_nth_update:
  "0 \<le> b \<Longrightarrow> 0 \<le> c \<Longrightarrow> b < int (length xs) \<Longrightarrow>
   xs[nat b := v] ! nat c = (if c = b then v else xs ! nat c)"
  by (auto simp: nth_list_update nat_eq_iff)

lemma rc_of_update:
  assumes "pool_inv p" and "block_in_range p b"
    and "pool_refcount q = (pool_refcount p)[nat b := v]" and "pool_num_blocks q = pool_num_blocks p"
  shows "rc_of q = (rc_of p)(b := v)"
proof
  fix c
  have "0 \<le> b" "b < int (length (pool_refcount p))"
    using assms(1,2) pool_invD(3) [OF assms(1)] by (auto simp: block_in_range_def)
  then show "rc_of q c = ((rc_of p)(b := v)) c"
    using assms by (auto simp: rc_of_def block_in_range_def nat_nth_update)
qed

lemma pool_invI:
  assumes "0 < pool_block_size p" "0 \<le> pool_num_blocks p"
    "length (pool_refcount p) = nat (pool_num_blocks p)"
    "\<And>b. b \<in> set (pool_free_list p) \<Longrightarrow> block_in_range p b" "distinct (pool_free_list p)"
    "\<And>b. 0 \<le> rc_of p b"
    "\<And>b. block_in_range p b \<Longrightarrow> (rc_of p b = 0) = (b \<in> set (pool_free_list p))"
    "pool_used p = pool_num_blocks p - int (length (pool_free_list p))"
    "pool_used p \<le> pool_peak_used p" "pool_peak_used p \<le> pool_num_blocks p" "0 \<le> pool_exhaustions p"
  shows "pool_inv p"
proof -
  have "0 \<le> pool_refcount p ! nat b \<and> (pool_refcount p ! nat b = 0) = (b \<in> set (pool_free_list p))"
    if "block_in_range p b" for b
    using assms(6) [of b] assms(7) [OF that] that by (simp add: rc_of_def)
  then show ?thesis using assms by (auto simp: pool_inv_def block_in_range_def)
qed

lemma rc_of_nonneg: "pool_inv p \<Longrightarrow> 0 \<le> rc_of p b"
  by (simp add: rc_of_def pool_invD)

lemma Allocate_ok:
  assumes inv: "pool_inv p" and free: "pool_free_list p \<noteq> []"
  obtains b p' where "Allocate p = (p', Inr b)" and "b = last (pool_free_list p)"
    and "p' = p\<lparr>pool_free_list := butlast (pool_free_list p),
        pool_refcount := (pool_refcount p)[nat b := 1], pool_used := pool_used p + 1,
        pool_peak_used := max (pool_peak_used p) (pool_used p + 1)\<rparr>"
    and "pool_inv p'" and "rc_of p b = 0" and "rc_of p' = (rc_of p)(b := 1)"
proof -
  obtain fl b where fl: "pool_free_list p = fl @ [b]" using free by (meson rev_exhaust)
  define q where "q = p\<lparr>pool_free_list := fl, pool_refcount := (pool_refcount p)[nat b := 1],
    pool_used := pool_used p + 1, pool_peak_used := max (pool_peak_used p) (pool_used p + 1)\<rparr>"
  have r: "block_in_range p b" using pool_invD(4) [OF inv, of b] fl by simp
  then have bnd: "0 \<le> b" "b < int (length (pool_refcount p))"
    using pool_invD(3) [OF inv] by (auto simp: block_in_range_def)
  have rc': "rc_of q = (rc_of p)(b := 1)"
    by (rule rc_of_update [OF inv r]) (simp_all add: q_def)
  have range': "block_in_range q c = block_in_range p c" for c
    by (simp add: block_in_range_def q_def)
  have alloc: "Allocate p = (q, Inr b)"
    using fl bnd by (simp add: Allocate_def Let_def max_def q_def)
  have "pool_inv q"
    using pool_invD [OF inv] rc_of_nonneg [OF inv] rc_of_zero_iff [OF inv] fl
    by (intro pool_invI) (auto simp: range' rc', auto simp: q_def)
  moreover have "rc_of p b = 0" using rc_of_zero_iff [OF inv r] fl by simp
  ultimately show thesis using that [OF alloc] fl rc' by (simp add: q_def)
qed

lemma Release_ok:
  assumes inv: "pool_inv p" and rc: "0 < rc_of p b"
  obtains p' where "Release p b = Inr p'" and "pool_inv p'"
    and "rc_of p' = (rc_of p)(b := rc_of p b - 1)"
    and "free_blocks p' = free_blocks p + (if rc_of p b = 1 then 1 else 0)"
    and "pool_data p' = pool_data p"
    and "pool_free_list p' = (if rc_of p b = 1 then pool_free_list p @ [b] else pool_free_list p)"
    and "pool_peak_used p' = pool_peak_used p" and "pool_exhaustions p' = pool_exhaustions p"
proof -
  have r: "block_in_range p b" using rc by (auto simp: rc_of_def split: if_splits)
  have rcb: "rc_of p b = pool_refcount p ! nat b" using r by (simp add: rc_of_def)
  define k :: int where "k = (if rc_of p b = 1 then 1 else 0)"
  define q where "q = p\<lparr>pool_refcount := (pool_refcount p)[nat b := rc_of p b - 1],
    pool_free_list := pool_free_list p @ (if rc_of p b = 1 then [b] else []),
    pool_used := pool_used p - k\<rparr>"
  have nf: "b \<notin> set (pool_free_list p)" using rc_of_zero_iff [OF inv r] rc by simp
  have rel: "Release p b = Inr q"
    using r rc rcb by (simp add: Release_def Let_def q_def k_def)
  have rc': "rc_of q = (rc_of p)(b := rc_of p b - 1)"
    by (rule rc_of_update [OF inv r]) (simp_all add: q_def)
  have range': "block_in_range q c = block_in_range p c" for c
    by (simp add: block_in_range_def q_def)
  have "pool_inv q"
    using pool_invD [OF inv] rc_of_nonneg [OF inv] rc_of_zero_iff [OF inv] nf rc r
    by (intro pool_invI) (auto simp: range' rc', auto simp: q_def k_def range' split: if_splits)
  then show thesis
    by (rule that [OF rel _ rc']) (simp_all add: q_def k_def free_blocks_def pool_data_def)
qed

interpretation pool: block_allocator Allocate Release rc_of free_blocks pool_data pool_inv
proof (unfold_locales, goal_cases)
  case (1 p b)
  then show ?case by (auto simp: rc_of_def pool_invD)
next
  case (2 p)
  then show ?case by (simp add: free_blocks_eq)
next
  case (3 p)
  then have "pool_free_list p \<noteq> []" by (auto simp: free_blocks_eq)
  from Allocate_ok [OF 3(1) this] obtain b p' where a: "Allocate p = (p', Inr b)"
    and p': "p' = p\<lparr>pool_free_list := butlast (pool_free_list p),
        pool_refcount := (pool_refcount p)[nat b := 1], pool_used := pool_used p + 1,
        pool_peak_used := max (pool_peak_used p) (pool_used p + 1)\<rparr>"
    and rest: "pool_inv p'" "rc_of p b = 0" "rc_of p' = (rc_of p)(b := 1)"
    by metis
  have "free_blocks p' = free_blocks p - 1" "pool_data p' = pool_data p"
    by (simp_all add: p' free_blocks_def pool_data_def)
  with a rest show ?case by blast
next
  case (4 p)
  then have "pool_free_list p = []" by (simp add: free_blocks_eq)
  with 4 show ?case
    by (auto simp: Allocate_def pool_inv_def block_in_range_def rc_of_def free_blocks_def
        pool_data_def fun_eq_iff)
next
  case (5 p b)
  from Release_ok [OF 5] show ?case by (metis (no_types, lifting))
next
  case (6 p b)
  then show ?case by (auto simp: Release_def rc_of_def Let_def split: if_splits)
qed

lemma initial_free_list_eq:
  assumes "0 \<le> n" and "n \<le> INT32_MAX + 1"
  shows "initial_free_list n = rev [0..n - 1]"
proof -
  have "map int32_cast (rev [0..n - 1]) = map (\<lambda>x. x) (rev [0..n - 1])"
    using assms by (intro map_cong) (auto intro!: int32_cast_id)
  then show ?thesis by (simp add: initial_free_list_def)
qed

lemma BlockPool_ctor_inv:
  assumes "0 < bs" and "0 \<le> n" and "n \<le> INT32_MAX + 1"
  shows "pool_inv (BlockPool_ctor g bs n ks vs sb)"
  using assms
  by (auto simp: pool_inv_def BlockPool_ctor_def initial_free_list_eq block_in_range_def)

lemma alloc_slabs_ok:
  assumes "alloc_slabs alloc g e b i n ks vs = Inr (ks', vs')"
  shows "\<forall>t\<in>set ks \<union> set vs. length t = nat e \<Longrightarrow> \<forall>t\<in>set ks' \<union> set vs'. length t = nat e"
    and "\<lbrakk>length ks = (i + 1) div 2; length vs = i div 2\<rbrakk> \<Longrightarrow>
      length ks' = (i + n + 1) div 2 \<and> length vs' = (i + n) div 2"
proof -
  show "\<forall>t\<in>set ks' \<union> set vs'. length t = nat e" if "\<forall>t\<in>set ks \<union> set vs. length t = nat e"
    using assms that
  proof (induction n arbitrary: i ks vs)
    case (Suc n)
    let ?t = "replicate (nat e) 0 :: 'a list"
    from Suc.prems(1) have "alloc_slabs alloc g e b (Suc i) n (ks @ [?t]) vs = Inr (ks', vs') \<or>
      alloc_slabs alloc g e b (Suc i) n ks (vs @ [?t]) = Inr (ks', vs')"
      by (auto simp: Let_def split: sum.splits if_splits)
    then show ?case
    proof
      assume "alloc_slabs alloc g e b (Suc i) n (ks @ [?t]) vs = Inr (ks', vs')"
      then show ?thesis by (rule Suc.IH) (use Suc.prems(2) in auto)
    next
      assume "alloc_slabs alloc g e b (Suc i) n ks (vs @ [?t]) = Inr (ks', vs')"
      then show ?thesis by (rule Suc.IH) (use Suc.prems(2) in auto)
    qed
  qed simp
  assume "length ks = (i + 1) div 2" and "length vs = i div 2"
  with assms show "length ks' = (i + n + 1) div 2 \<and> length vs' = (i + n) div 2"
  proof (induction n arbitrary: i ks vs)
    case (Suc n)
    show ?case
    proof (cases "even i")
      case True
      with Suc.prems(1) have "alloc_slabs alloc g e b (Suc i) n (ks @ [replicate (nat e) 0]) vs = Inr (ks', vs')"
        by (auto simp: Let_def split: sum.splits)
      from Suc.IH [OF this] show ?thesis using Suc.prems(2,3) True by (simp add: odd_iff_mod_2_eq_one)
    next
      case False
      with Suc.prems(1) have "alloc_slabs alloc g e b (Suc i) n ks (vs @ [replicate (nat e) 0]) = Inr (ks', vs')"
        by (auto simp: Let_def split: sum.splits)
      from Suc.IH [OF this] show ?thesis using Suc.prems(2,3) False by simp
    qed
  qed simp
qed

text \<open>The pool's slabs match its geometry: one K and one V slab per layer, each of
  \<open>num_blocks * Hkv * bs * d\<close> elements.\<close>

definition slab_elems :: "'f BlockPool \<Rightarrow> int" where
  "slab_elems p = pool_num_blocks p * num_kv_heads (pool_geom p) * pool_block_size p * head_dim (pool_geom p)"

definition slabs_wf :: "'f BlockPool \<Rightarrow> bool" where
  "slabs_wf p \<longleftrightarrow>
     IsValidBlockSize (pool_block_size p) \<and> ValidateGeometry (pool_geom p) = Inr () \<and>
     slab_elems p * 4 \<le> INT64_MAX \<and> 1 \<le> pool_num_blocks p \<and>
     length (pool_k_slabs p) = nat (num_layers (pool_geom p)) \<and>
     length (pool_v_slabs p) = nat (num_layers (pool_geom p)) \<and>
     (\<forall>t\<in>set (pool_k_slabs p) \<union> set (pool_v_slabs p). length t = nat (slab_elems p)) \<and>
     pool_block_stride p = num_kv_heads (pool_geom p) * pool_block_size p * head_dim (pool_geom p) \<and>
     pool_head_stride p = pool_block_size p * head_dim (pool_geom p) \<and>
     pool_row_stride p = head_dim (pool_geom p)"

lemma ValidateGeometry_ok_iff:
  "ValidateGeometry g = Inr u \<longleftrightarrow>
   1 \<le> num_layers g \<and> 1 \<le> num_kv_heads g \<and> 1 \<le> head_dim g \<and> dtype g = kFloat32"
  by (auto simp: ValidateGeometry_def)

lemma Create_ok:
  assumes "BlockPool_Create alloc g bs n = Inr p"
  obtains ks vs sb where "p = BlockPool_ctor g bs n ks vs sb" and "1 \<le> n"
    and "IsValidBlockSize bs" and "ValidateGeometry g = Inr ()"
    and "alloc_slabs alloc g (n * num_kv_heads g * bs * head_dim g) sb 0 (nat (2 * num_layers g)) [] []
         = Inr (ks, vs)"
    and "n * num_kv_heads g * bs * head_dim g * 4 \<le> INT64_MAX"
proof -
  obtain e isz sb ks vs where e: "mul_overflow_all n [num_kv_heads g, bs, head_dim g] = Some e"
    and rest: "ValidateGeometry g = Inr ()" "IsValidBlockSize bs" "1 \<le> n"
      "alloc_slabs alloc g e sb 0 (nat (2 * num_layers g)) [] [] = Inr (ks, vs)"
      "p = BlockPool_ctor g bs n ks vs sb" and b: "itemsize (dtype g) = Inr isz" "mul_overflow e isz = Some sb"
    using assms
    by (auto simp: BlockPool_Create_def BlockPool_move_def BlockPool_ctor_def
        simp del: mul_overflow_all.simps split: sum.splits if_splits option.splits)
  have e: "e = n * num_kv_heads g * bs * head_dim g"
    using mul_overflow_all_Some [OF e] by (simp add: mult.assoc)
  have "isz = 4" using rest(1) b(1) by (simp add: ValidateGeometry_ok_iff)
  then have "e * 4 \<le> INT64_MAX" using b(2) by (auto simp: mul_overflow_def in_int64_def split: if_splits)
  with rest that e show thesis by blast
qed

lemma Create_slabs_wf:
  assumes "BlockPool_Create alloc g bs n = Inr p"
  shows "slabs_wf p"
proof -
  from Create_ok [OF assms] obtain ks vs sb where p: "p = BlockPool_ctor g bs n ks vs sb"
    and v: "IsValidBlockSize bs" "ValidateGeometry g = Inr ()"
    and sl: "alloc_slabs alloc g (n * num_kv_heads g * bs * head_dim g) sb 0 (nat (2 * num_layers g)) [] []
         = Inr (ks, vs)"
    and mx: "n * num_kv_heads g * bs * head_dim g * 4 \<le> INT64_MAX" and n1: "1 \<le> n" by metis
  have L: "1 \<le> num_layers g" using v(2) by (simp add: ValidateGeometry_ok_iff)
  have "length ks = nat (num_layers g)" "length vs = nat (num_layers g)"
    using alloc_slabs_ok(2) [OF sl] L by (auto simp: nat_mult_distrib)
  moreover have "\<forall>t\<in>set ks \<union> set vs. length t = nat (n * num_kv_heads g * bs * head_dim g)"
    using alloc_slabs_ok(1) [OF sl] by simp
  ultimately show ?thesis using v mx n1 by (auto simp: slabs_wf_def p BlockPool_ctor_def slab_elems_def)
qed

lemma Create_inv:
  assumes "BlockPool_Create alloc g bs n = Inr p" and "n \<le> INT32_MAX + 1"
  shows "pool_inv p" and "pool_used p = 0" and "pool_num_blocks p = n"
proof -
  from Create_ok [OF assms(1)] obtain ks vs sb where p: "p = BlockPool_ctor g bs n ks vs sb"
    and "1 \<le> n" "IsValidBlockSize bs" by metis
  then show "pool_inv p" "pool_used p = 0" "pool_num_blocks p = n"
    using BlockPool_ctor_inv [of bs n] assms(2) by (auto simp: IsValidBlockSize_def BlockPool_ctor_def)
qed

section \<open>Reachable pools\<close>

text \<open>Any interleaving of the three life-cycle operations by any number of threads is, under the
  pool's lock, a sequence of these steps. A \<open>CHECK\<close> failure aborts the process, so it has no
  successor state.\<close>

inductive pool_step :: "'f BlockPool \<Rightarrow> 'f BlockPool \<Rightarrow> bool" where
  step_allocate: "Allocate p = (q, r) \<Longrightarrow> pool_step p q"
| step_share: "Share p b = Inr q \<Longrightarrow> pool_step p q"
| step_release: "Release p b = Inr q \<Longrightarrow> pool_step p q"

inductive pool_reachable :: "'f BlockPool \<Rightarrow> 'f BlockPool \<Rightarrow> bool" for p0 where
  reach_start: "pool_reachable p0 p0"
| reach_step: "pool_reachable p0 p \<Longrightarrow> pool_step p q \<Longrightarrow> pool_reachable p0 q"

lemma Allocate_inv: "pool_inv p \<Longrightarrow> pool_inv (fst (Allocate p)) \<and> pool_data (fst (Allocate p)) = pool_data p"
  using pool.alloc_ok [of p] pool.alloc_exhausted [of p] pool.avail_nonneg [of p]
  by (cases "free_blocks p = 0") fastforce+

lemma Share_ok:
  assumes "pool_inv p" and "0 < rc_of p b"
  obtains q where "Share p b = Inr q" and "pool_inv q" and "rc_of q = (rc_of p)(b := rc_of p b + 1)"
    and "pool_data q = pool_data p" and "free_blocks q = free_blocks p"
    and "pool_free_list q = pool_free_list p"
proof -
  have r: "block_in_range p b" using assms(2) by (auto simp: rc_of_def split: if_splits)
  have nf: "b \<notin> set (pool_free_list p)" using rc_of_zero_iff [OF assms(1) r] assms(2) by simp
  define q where "q = p\<lparr>pool_refcount := (pool_refcount p)[nat b := rc_of p b + 1]\<rparr>"
  have sh: "Share p b = Inr q"
    using r assms(2) by (simp add: Share_def Let_def q_def rc_of_def)
  have rc': "rc_of q = (rc_of p)(b := rc_of p b + 1)"
    by (rule rc_of_update [OF assms(1) r]) (simp_all add: q_def)
  have range': "block_in_range q c = block_in_range p c" for c
    by (simp add: block_in_range_def q_def)
  have "pool_inv q"
    using pool_invD [OF assms(1)] rc_of_nonneg [OF assms(1)] rc_of_zero_iff [OF assms(1)] assms(2) r nf
    by (intro pool_invI) (auto simp: range' rc', auto simp: q_def range')
  then show thesis
    by (rule that [OF sh _ rc']) (simp_all add: q_def pool_data_def free_blocks_def)
qed

lemma Share_Release_pos:
  "Share p b = Inr q \<Longrightarrow> 0 < rc_of p b" "Release p b = Inr q \<Longrightarrow> 0 < rc_of p b"
  by (auto simp: Share_def Release_def rc_of_def Let_def split: if_splits)

lemma pool_step_inv:
  assumes "pool_step p q" and "pool_inv p"
  shows "pool_inv q \<and> pool_data q = pool_data p"
  using assms(1)
proof cases
  case (step_allocate r)
  then show ?thesis using Allocate_inv [OF assms(2)] by simp
next
  case (step_share b)
  then show ?thesis using Share_ok [OF assms(2) Share_Release_pos(1)] by (metis Inr_inject)
next
  case (step_release b)
  then show ?thesis using Release_ok [OF assms(2) Share_Release_pos(2)] by (metis Inr_inject)
qed

lemma pool_reachable_inv:
  "pool_reachable p0 p \<Longrightarrow> pool_inv p0 \<Longrightarrow> pool_inv p \<and> pool_data p = pool_data p0"
  by (induction rule: pool_reachable.induct) (auto dest: pool_step_inv)

lemma Allocate_never_oob: "pool_inv p \<Longrightarrow> snd (Allocate p) \<noteq> Inl OutOfBounds"
  using pool.alloc_ok [of p] pool.alloc_exhausted [of p] pool.avail_nonneg [of p]
  by (cases "free_blocks p = 0") fastforce+

lemma used_eq_card:
  assumes "pool_inv p"
  shows "pool_used p = int (card {b. 0 < rc_of p b})"
proof -
  let ?R = "{0..<pool_num_blocks p}" and ?F = "set (pool_free_list p)"
  have "{b. 0 < rc_of p b} = ?R - ?F"
  proof (intro set_eqI iffI)
    fix b
    assume "b \<in> {b. 0 < rc_of p b}"
    then have "block_in_range p b" "0 < rc_of p b" by (auto simp: rc_of_def split: if_splits)
    then show "b \<in> ?R - ?F"
      using rc_of_zero_iff [OF assms, of b] by (auto simp: block_in_range_def)
  next
    fix b
    assume "b \<in> ?R - ?F"
    then show "b \<in> {b. 0 < rc_of p b}"
      using rc_of_zero_iff [OF assms, of b] rc_of_nonneg [OF assms, of b]
      by (auto simp: block_in_range_def order.order_iff_strict)
  qed
  moreover have "?F \<subseteq> ?R" using pool_invD(4) [OF assms] by (auto simp: block_in_range_def)
  then have "card (?R - ?F) = nat (pool_num_blocks p) - length (pool_free_list p)"
    by (simp add: card_Diff_subset distinct_card pool_invD(5) [OF assms])
  moreover have "length (pool_free_list p) \<le> nat (pool_num_blocks p)"
    using card_mono [OF _ \<open>?F \<subseteq> ?R\<close>] by (simp add: distinct_card pool_invD(5) [OF assms])
  ultimately show ?thesis using pool_invD(2,8) [OF assms] by simp
qed

section \<open>Properties\<close>

text \<open>A pool small enough to evaluate, for the witnesses: two blocks of eight slots, one layer, one
  head of one element.\<close>

definition unit_geometry :: CacheGeometry where
  "unit_geometry = \<lparr>num_layers = 1, num_kv_heads = 1, head_dim = 1, dtype = kFloat32\<rparr>"

definition small_pool :: "int BlockPool" where
  "small_pool = BlockPool_ctor unit_geometry 8 2 [replicate 16 0] [replicate 16 0] 64"

lemma small_pool_Create: "BlockPool_Create (\<lambda>_ _ _. Inr ()) unit_geometry 8 2 = Inr small_pool"
  by (simp add: BlockPool_Create_def ValidateGeometry_def IsValidBlockSize_def unit_geometry_def
      mul_overflow_def int_width_defs from_buffer_def IsReservedDataType_def UINT64_MAX_def
      BlockPool_move_def small_pool_def Let_def numeral_2_eq_2)
     (simp add: BlockPool_ctor_def)

lemma small_pool_inv: "pool_inv small_pool"
  unfolding small_pool_def by (rule BlockPool_ctor_inv) (simp_all add: INT32_MAX_def)

text \<open>C8. In every pool reachable from a created one by any sequence of allocations, shares and
  releases, the counters the stats report are the truth: \<open>used\<close> is the number of referenced
  blocks, \<open>free\<close> the number of distinct ids on the free list, \<open>used\<close> never exceeds the recorded
  peak, and no allocation indexes outside the reference-count vector.\<close>

theorem reachable_pool_accounting:
  assumes "BlockPool_Create alloc g bs n = Inr p0" and "n \<le> INT32_MAX + 1"
    and "pool_reachable p0 p"
  shows "used_stat (stats p) = int (card {b. 0 < rc_of p b}) \<and>
    free_stat (stats p) = int (card (set (pool_free_list p))) \<and>
    used_stat (stats p) \<le> peak_used_stat (stats p) \<and> peak_used_stat (stats p) \<le> n \<and>
    snd (Allocate p) \<noteq> Inl OutOfBounds"
proof -
  have inv: "pool_inv p" and dat: "pool_data p = pool_data p0"
    using pool_reachable_inv [OF assms(3)] Create_inv [OF assms(1,2)] by auto
  have "pool_num_blocks p = n"
    using dat Create_inv(3) [OF assms(1,2)] by (simp add: pool_data_def)
  then show ?thesis
    using used_eq_card [OF inv] free_blocks_eq [OF inv] pool_invD(5,9,10) [OF inv]
      Allocate_never_oob [OF inv]
    by (simp add: stats_def free_blocks_def distinct_card)
qed

theorem reachable_pool_accounting_witness:
  "pool_reachable small_pool (fst (Allocate small_pool)) \<and>
   used_stat (stats (fst (Allocate small_pool))) = 1 \<and>
   snd (Allocate (fst (Allocate small_pool))) \<noteq> Inl OutOfBounds"
proof -
  have r: "pool_reachable small_pool (fst (Allocate small_pool))"
    by (rule reach_step [OF reach_start step_allocate]) (rule prod.collapse [symmetric])
  have "(2::int) \<le> INT32_MAX + 1" by (simp add: INT32_MAX_def)
  from reachable_pool_accounting [OF small_pool_Create this r]
  have "snd (Allocate (fst (Allocate small_pool))) \<noteq> Inl OutOfBounds" by blast
  moreover have "used_stat (stats (fst (Allocate small_pool))) = 1" by code_simp
  ultimately show ?thesis using r by blast
qed

text \<open>C9. An allocation hands out a block nobody references and changes no other block's count;
  it fails exactly when no block is free, and then changes nothing but the exhaustion counter.\<close>

theorem Allocate_functional:
  assumes "pool_inv p"
  shows "(case Allocate p of
     (q, Inr b) \<Rightarrow> 0 < free_blocks p \<and> block_in_range p b \<and> rc_of p b = 0 \<and>
       rc_of q = (rc_of p)(b := 1) \<and> free_blocks q = free_blocks p - 1 \<and> pool_data q = pool_data p
   | (q, Inl e) \<Rightarrow> free_blocks p = 0 \<and> e = Status kResourceExhausted \<and>
       q = p\<lparr>pool_exhaustions := pool_exhaustions p + 1\<rparr>)"
proof (cases "pool_free_list p = []")
  case True
  then show ?thesis using free_blocks_eq [OF assms] by (simp add: Allocate_def)
next
  case False
  from Allocate_ok [OF assms False] obtain b q where a: "Allocate p = (q, Inr b)"
    and b: "b = last (pool_free_list p)"
    and q: "q = p\<lparr>pool_free_list := butlast (pool_free_list p),
        pool_refcount := (pool_refcount p)[nat b := 1], pool_used := pool_used p + 1,
        pool_peak_used := max (pool_peak_used p) (pool_used p + 1)\<rparr>"
    and rest: "rc_of p b = 0" "rc_of q = (rc_of p)(b := 1)" by metis
  have "block_in_range p b" using pool_invD(4) [OF assms, of b] b False by simp
  then show ?thesis
    using a rest False free_blocks_eq [OF assms] by (simp add: q free_blocks_def pool_data_def)
qed

theorem Allocate_functional_witness:
  "pool_inv small_pool \<and> snd (Allocate small_pool) = Inr 0 \<and> rc_of small_pool 0 = 0"
proof -
  have a: "snd (Allocate small_pool) = Inr 0" by code_simp
  then show ?thesis
    using Allocate_functional [OF small_pool_inv] small_pool_inv by (auto split: prod.splits)
qed

text \<open>C10. Releasing a freshly allocated block restores the pool's reference counts and its free
  list exactly, and releasing it a second time is caught: the double free aborts instead of
  putting the block on the free list twice.\<close>

theorem allocate_release_roundtrip:
  assumes "pool_inv p" and "Allocate p = (q, Inr b)"
  shows "\<exists>r. Release q b = Inr r \<and> rc_of r = rc_of p \<and> pool_free_list r = pool_free_list p \<and>
    pool_used r = pool_used p \<and> Release r b = Inl CheckFailed"
proof -
  have ne: "pool_free_list p \<noteq> []" using assms(2) by (auto simp: Allocate_def)
  obtain b' q' where A: "Allocate p = (q', Inr b')" "b' = last (pool_free_list p)"
    "q' = p\<lparr>pool_free_list := butlast (pool_free_list p),
        pool_refcount := (pool_refcount p)[nat b' := 1], pool_used := pool_used p + 1,
        pool_peak_used := max (pool_peak_used p) (pool_used p + 1)\<rparr>"
    "pool_inv q'" "rc_of p b' = 0" "rc_of q' = (rc_of p)(b' := 1)"
    using Allocate_ok [OF assms(1) ne] by metis
  then have eq: "q' = q" "b' = b" using assms(2) by auto
  have b: "b = last (pool_free_list p)" and iq: "pool_inv q" and rp: "rc_of p b = 0"
    and rq: "rc_of q = (rc_of p)(b := 1)" using A eq by auto
  have fl: "pool_free_list q = butlast (pool_free_list p)" and u: "pool_used q = pool_used p + 1"
    using A(3) unfolding eq by simp_all
  from Release_ok [OF iq, of b] rq obtain r where r: "Release q b = Inr r" "pool_inv r"
    "rc_of r = (rc_of q)(b := rc_of q b - 1)" "pool_free_list r = pool_free_list q @ [b]"
    "free_blocks r = free_blocks q + 1" "pool_data r = pool_data q" by auto
  have "rc_of r = rc_of p" using r(3) rq rp by auto
  moreover have "pool_free_list r = pool_free_list p" using r(4) fl b ne by simp
  moreover have "pool_used r = pool_used p"
    using r(5,6) u by (simp add: free_blocks_def pool_data_def)
  moreover have "Release r b = Inl CheckFailed"
    using pool.release_free [OF r(2), of b] calculation(1) rp by simp
  ultimately show ?thesis using r(1) by blast
qed

theorem allocate_release_roundtrip_witness:
  "\<exists>r. Release (fst (Allocate small_pool)) 0 = Inr r \<and> pool_free_list r = [1, 0] \<and>
     Release r 0 = Inl CheckFailed"
proof -
  have "Allocate small_pool = (fst (Allocate small_pool), Inr 0)" by code_simp
  moreover have "pool_free_list small_pool = [1, 0]" by code_simp
  ultimately show ?thesis using allocate_release_roundtrip [OF small_pool_inv] by metis
qed

text \<open>C11. The capacity arithmetic is exact: \<open>BytesPerBlock\<close> is \<open>2 * L * Hkv * bs * d * 4\<close> for a valid
  fp32 geometry whenever that fits \<open>int64\<close> (and InvalidArgument otherwise), and the number of
  blocks for a budget is the largest number of blocks that fits it.\<close>

theorem budget_arithmetic_exact:
  assumes "ValidateGeometry g = Inr ()" and "IsValidBlockSize bs"
  defines "bytes \<equiv> 2 * num_layers g * num_kv_heads g * bs * head_dim g * 4"
  shows "BytesPerBlock g bs = (if bytes \<le> INT64_MAX then Inr bytes else InvalidArgumentError) \<and>
    (0 < budget \<and> bytes \<le> INT64_MAX \<longrightarrow>
      (case NumBlocksForBudget g bs budget of
         Inr n \<Rightarrow> 1 \<le> n \<and> n * bytes \<le> budget \<and> budget < (n + 1) * bytes
       | Inl e \<Rightarrow> e = Status kResourceExhausted \<and> budget < bytes))"
proof -
  let ?fs = "[num_layers g, num_kv_heads g, bs, head_dim g, 4::int]"
  have g: "1 \<le> num_layers g" "1 \<le> num_kv_heads g" "1 \<le> head_dim g" "dtype g = kFloat32"
    using assms(1) by (auto simp: ValidateGeometry_ok_iff)
  have pos: "\<forall>f\<in>set ?fs. 1 \<le> f" using g assms(2) by (auto simp: IsValidBlockSize_def)
  have prod: "2 * prod_list ?fs = bytes" by (simp add: bytes_def mult.assoc)
  have ge: "1 \<le> bytes" using prod_list_ge_one [OF pos] prod by linarith
  have "mul_overflow_all 2 ?fs = (if in_int64 bytes then Some bytes else None)"
    unfolding prod [symmetric]
    by (rule mul_overflow_all_eq) (use pos in \<open>simp_all add: int_width_defs\<close>)
  moreover have "in_int64 bytes \<longleftrightarrow> bytes \<le> INT64_MAX" using ge by (auto simp: int_width_defs)
  ultimately have bpb: "BytesPerBlock g bs = (if bytes \<le> INT64_MAX then Inr bytes else InvalidArgumentError)"
    using assms(1,2) g(4) by (simp add: BytesPerBlock_def del: mul_overflow_all.simps)
  have b0: "0 < bytes" using ge by simp
  have "budget div bytes * bytes \<le> budget \<and> budget < (budget div bytes + 1) * bytes"
    using int_div_less_iff [OF b0, of budget "budget div bytes + 1"]
      int_div_less_iff [OF b0, of budget "budget div bytes"] by auto
  moreover have "budget div bytes < 1 \<longleftrightarrow> budget < bytes"
    using int_div_less_iff [OF b0, of budget 1] by simp
  ultimately show ?thesis using bpb by (auto simp: NumBlocksForBudget_def Let_def)
qed

theorem budget_arithmetic_exact_witness:
  "NumBlocksForBudget unit_geometry 8 1000 = Inr 15 \<and> (15::int) * 64 \<le> 1000 \<and> (1000::int) < 16 * 64"
proof -
  have g: "ValidateGeometry unit_geometry = Inr ()" and b: "IsValidBlockSize 8" by code_simp+
  have n: "NumBlocksForBudget unit_geometry 8 1000 = Inr 15" by code_simp
  show ?thesis
    using budget_arithmetic_exact [OF g b, of 1000] n by (simp add: unit_geometry_def INT64_MAX_def)
qed

end
