(* ===== verification/Block_Table.thy ===== *)
theory Block_Table
  imports Block_Pool
begin

text \<open>
  The per-sequence logical-to-physical block map, \<open>src/src/kvcache/block_table.{h,cpp}\<close>. The
  non-owning pool pointer becomes an explicit argument and result: every operation takes the pool
  and the table and returns both. The lemmas show that in any history of
  operations several tables over one pool never alias a slot, that growing is all-or-nothing, and that truncation and \<open>FreeAll\<close> return exactly the
  blocks that became empty.
\<close>

section \<open>State and operations\<close>

record BlockTable =
  tab_blocks :: "int list"
  tab_num_tokens :: int

definition BlockTable_ctor :: BlockTable where
  "BlockTable_ctor = \<lparr>tab_blocks = [], tab_num_tokens = 0\<rparr>"

text \<open>The move constructor: the new table and what is left of the old one.\<close>

definition BlockTable_move :: "BlockTable \<Rightarrow> BlockTable \<times> BlockTable" where
  "BlockTable_move other = (other, other\<lparr>tab_blocks := [], tab_num_tokens := 0\<rparr>)"

text \<open>\<open>blocks_[pos / bs] * bs + pos % bs\<close>, with the vector index checked.\<close>

definition slot_at :: "int \<Rightarrow> int list \<Rightarrow> int \<Rightarrow> int status_or" where
  "slot_at bs blocks pos =
     (let i = pos div bs in
      if i < 0 \<or> int (length blocks) \<le> i then Inl OutOfBounds
      else Inr (blocks ! nat i * bs + pos mod bs))"

definition AppendTokens ::
  "'f BlockPool \<Rightarrow> BlockTable \<Rightarrow> int \<Rightarrow> ('f BlockPool \<times> BlockTable) \<times> int list status_or" where
  "AppendTokens p t cnt =
     (if cnt \<le> 0 then ((p, t), InvalidArgumentError)
      else
        let bs = pool_block_size p in
        case blocks_needed p (tab_num_tokens t) cnt of
          Inl e \<Rightarrow> ((p, t), Inl e)
        | Inr need \<Rightarrow>
            (case alloc_loop Allocate (nat need) p [] of
               (p1, Inl (Status c, fresh)) \<Rightarrow>
                 (case release_loop Release fresh p1 of
                    Inl e \<Rightarrow> ((p1, t), Inl e)
                  | Inr p2 \<Rightarrow> ((p2, t), ResourceExhaustedError))
             | (p1, Inl (e, fresh)) \<Rightarrow> ((p1, t), Inl e)
             | (p1, Inr fresh) \<Rightarrow>
                 let begin_ps = tab_num_tokens t;
                     t' = t\<lparr>tab_blocks := tab_blocks t @ fresh,
                            tab_num_tokens := tab_num_tokens t + cnt\<rparr> in
                 ((p1, t'),
                  traverse (slot_at bs (tab_blocks t')) [begin_ps..tab_num_tokens t' - 1])))"

fun truncate_loop :: "int \<Rightarrow> 'f BlockPool \<Rightarrow> nat \<Rightarrow> int list \<Rightarrow> ('f BlockPool \<times> int list) status_or" where
  "truncate_loop keep p 0 blocks =
     (if keep < int (length blocks) then Inl OutOfBounds else Inr (p, blocks))"
| "truncate_loop keep p (Suc n) blocks =
     (if keep < int (length blocks) then
        (case Release p (last blocks) of
           Inl e \<Rightarrow> Inl e
         | Inr p' \<Rightarrow> truncate_loop keep p' n (butlast blocks))
      else Inr (p, blocks))"

text \<open>The while loop of \<open>Truncate\<close> runs at most once per block, so \<open>length blocks\<close> rounds suffice; with
  no round left and blocks still above \<open>keep\<close> the code would pop an empty vector.\<close>

definition Truncate ::
  "'f BlockPool \<Rightarrow> BlockTable \<Rightarrow> int \<Rightarrow> ('f BlockPool \<times> BlockTable) status_or" where
  "Truncate p t new_len =
     (if new_len < 0 \<or> tab_num_tokens t < new_len then InvalidArgumentError
      else
        let bs = pool_block_size p; keep = (new_len + bs - 1) div bs in
        case truncate_loop keep p (length (tab_blocks t)) (tab_blocks t) of
          Inl e \<Rightarrow> Inl e
        | Inr (p', blocks') \<Rightarrow> Inr (p', t\<lparr>tab_blocks := blocks', tab_num_tokens := new_len\<rparr>))"

definition FreeAll :: "'f BlockPool \<Rightarrow> BlockTable \<Rightarrow> ('f BlockPool \<times> BlockTable) status_or" where
  "FreeAll p t =
     (case release_loop Release (tab_blocks t) p of
        Inl e \<Rightarrow> Inl e
      | Inr p' \<Rightarrow> Inr (p', t\<lparr>tab_blocks := [], tab_num_tokens := 0\<rparr>))"

definition slot :: "'f BlockPool \<Rightarrow> BlockTable \<Rightarrow> int \<Rightarrow> int status_or" where
  "slot p t pos =
     (if \<not> (0 \<le> pos \<and> pos < tab_num_tokens t) then Inl CheckFailed
      else slot_at (pool_block_size p) (tab_blocks t) pos)"

section \<open>Ownership\<close>

text \<open>\<open>owned p bl\<close>: the list \<open>bl\<close> of all blocks held by all tables of the pool accounts for every
  reference of the pool. Blocks are held once each, so tables never share a block, and nothing
  else holds one, so nothing leaks.\<close>

definition owned :: "'f BlockPool \<Rightarrow> int list \<Rightarrow> bool" where
  "owned p bl \<longleftrightarrow> pool_inv p \<and> distinct bl \<and> (\<forall>b. rc_of p b = (if b \<in> set bl then 1 else 0))"

definition table_wf :: "int \<Rightarrow> BlockTable \<Rightarrow> bool" where
  "table_wf bs t \<longleftrightarrow> 0 \<le> tab_num_tokens t \<and> int (length (tab_blocks t)) = ceil_div (tab_num_tokens t) bs"

definition slot_of :: "int \<Rightarrow> int list \<Rightarrow> int \<Rightarrow> int" where
  "slot_of bs bl pos = bl ! nat (pos div bs) * bs + pos mod bs"

lemma ownedD: "owned p bl \<Longrightarrow> pool_inv p" "owned p bl \<Longrightarrow> distinct bl"
  "owned p bl \<Longrightarrow> rc_of p b = (if b \<in> set bl then 1 else 0)"
  by (auto simp: owned_def)

lemma owned_perm: "owned p bl \<Longrightarrow> mset bl' = mset bl \<Longrightarrow> owned p bl'"
  by (auto simp: owned_def dest: mset_eq_setD mset_eq_imp_distinct_iff)

lemma owned_block_range: "owned p bl \<Longrightarrow> b \<in> set bl \<Longrightarrow> block_in_range p b"
  using ownedD(3) [of p bl b] by (auto simp: rc_of_def split: if_splits)

lemma owned_used:
  assumes "owned p bl"
  shows "pool_used p = int (length bl)"
proof -
  have "{b. 0 < rc_of p b} = set bl" using assms by (auto simp: owned_def)
  then show ?thesis
    using used_eq_card [OF ownedD(1) [OF assms]] ownedD(2) [OF assms] by (simp add: distinct_card)
qed

lemma owned_NilI:
  assumes "pool_inv p" and "pool_used p = 0"
  shows "owned p []"
proof -
  have "{b. 0 < rc_of p b} \<subseteq> {0..<pool_num_blocks p}"
    by (auto simp: rc_of_def block_in_range_def split: if_splits)
  then have "finite {b. 0 < rc_of p b}" by (rule finite_subset) simp
  with used_eq_card [OF assms(1)] assms(2) have "{b. 0 < rc_of p b} = {}" by simp
  then have "rc_of p b = 0" for b
    using rc_of_nonneg [OF assms(1), of b] by (metis (mono_tags) empty_Collect_eq order.order_iff_strict)
  with assms(1) show ?thesis by (simp add: owned_def)
qed

lemma slot_at_ok:
  assumes "0 < bs" and "0 \<le> pos" and "pos < n" and "int (length bl) = ceil_div n bs"
  shows "slot_at bs bl pos = Inr (slot_of bs bl pos)"
proof -
  have "pos div bs < int (length bl)" using div_less_ceil_div [OF assms(1,3)] assms(4) by simp
  moreover have "0 \<le> pos div bs" using assms(1,2) by (simp add: pos_imp_zdiv_nonneg_iff)
  ultimately show ?thesis by (simp add: slot_at_def slot_of_def Let_def)
qed

lemma blocks_needed_ok:
  "0 \<le> c \<Longrightarrow> 0 \<le> a \<Longrightarrow>
   blocks_needed p c a = Inr (ceil_div (c + a) (pool_block_size p) - ceil_div c (pool_block_size p))"
  by (simp add: blocks_needed_def ceil_div_def Let_def)

lemma owned_alloc:
  assumes "owned p bl" and "int n \<le> free_blocks p"
  obtains p' fresh where "alloc_loop Allocate n p [] = (p', Inr fresh)" and "length fresh = n"
    and "owned p' (bl @ fresh)" and "pool_data p' = pool_data p" and "free_blocks p' = free_blocks p - int n"
proof -
  obtain p' fresh where a: "alloc_loop Allocate n p [] = (p', Inr fresh)" "pool_inv p'"
    "length fresh = n" "distinct fresh" "\<forall>b\<in>set fresh. rc_of p b = 0"
    "rc_of p' = (\<lambda>b. if b \<in> set fresh then 1 else rc_of p b)"
    "free_blocks p' = free_blocks p - int n" "pool_data p' = pool_data p"
    using pool.alloc_loop_ok [OF ownedD(1) [OF assms(1)] assms(2), of "[]"] by auto
  have "set fresh \<inter> set bl = {}" using a(5) ownedD(3) [OF assms(1)] by (auto split: if_splits)
  then have "owned p' (bl @ fresh)"
    using a assms(1) by (auto simp: owned_def)
  with a that show thesis by blast
qed

lemma owned_release:
  assumes "owned p (bl @ rel)"
  obtains p' where "release_loop Release rel p = Inr p'" and "owned p' bl"
    and "pool_data p' = pool_data p" and "free_blocks p' = free_blocks p + int (length rel)"
proof -
  have d: "distinct rel" and one: "\<forall>b\<in>set rel. rc_of p b = 1"
    using assms by (auto simp: owned_def)
  obtain p' where p': "release_loop Release rel p = Inr p'" "pool_inv p'"
    "rc_of p' = (\<lambda>b. if b \<in> set rel then 0 else rc_of p b)"
    "free_blocks p' = free_blocks p + int (length rel)" "pool_data p' = pool_data p"
    using pool.release_loop_fresh [OF ownedD(1) [OF assms] d one] by auto
  have "owned p' bl" using p' assms by (auto simp: owned_def)
  with p' that show thesis by blast
qed


section \<open>Growing, truncating, freeing\<close>

lemma AppendTokens_ok:
  assumes own: "owned p (tab_blocks t @ others)" and wf: "table_wf (pool_block_size p) t"
    and "0 < c"
    and need: "ceil_div (tab_num_tokens t + c) (pool_block_size p) - ceil_div (tab_num_tokens t) (pool_block_size p)
               \<le> free_blocks p"
  obtains p' fresh where
    "AppendTokens p t c = ((p', \<lparr>tab_blocks = tab_blocks t @ fresh, tab_num_tokens = tab_num_tokens t + c\<rparr>),
       Inr (map (slot_of (pool_block_size p) (tab_blocks t @ fresh)) [tab_num_tokens t..tab_num_tokens t + c - 1]))"
    and "owned p' ((tab_blocks t @ fresh) @ others)"
    and "table_wf (pool_block_size p) \<lparr>tab_blocks = tab_blocks t @ fresh, tab_num_tokens = tab_num_tokens t + c\<rparr>"
    and "pool_data p' = pool_data p"
    and "free_blocks p' = free_blocks p - int (length fresh)"
proof -
  let ?bs = "pool_block_size p" and ?n = "tab_num_tokens t"
  have bs: "0 < ?bs" using pool_invD(1) [OF ownedD(1) [OF own]] .
  have n0: "0 \<le> ?n" and len: "int (length (tab_blocks t)) = ceil_div ?n ?bs" using wf by (auto simp: table_wf_def)
  let ?need = "ceil_div (?n + c) ?bs - ceil_div ?n ?bs"
  have nn: "0 \<le> ?need" using ceil_div_mono [OF bs, of ?n "?n + c"] \<open>0 < c\<close> by simp
  have "int (nat ?need) \<le> free_blocks p" using need nn by simp
  from owned_alloc [OF own this] obtain p' fresh where
    a: "alloc_loop Allocate (nat ?need) p [] = (p', Inr fresh)" "length fresh = nat ?need"
      "owned p' ((tab_blocks t @ others) @ fresh)" "pool_data p' = pool_data p"
      "free_blocks p' = free_blocks p - int (nat ?need)" by metis
  have len': "int (length (tab_blocks t @ fresh)) = ceil_div (?n + c) ?bs" using len a(2) nn by simp
  have "traverse (slot_at ?bs (tab_blocks t @ fresh)) [?n..?n + c - 1] =
      Inr (map (slot_of ?bs (tab_blocks t @ fresh)) [?n..?n + c - 1])"
    using n0 by (intro traverse_ok slot_at_ok [OF bs _ _ len']) auto
  then have "AppendTokens p t c = ((p', \<lparr>tab_blocks = tab_blocks t @ fresh, tab_num_tokens = ?n + c\<rparr>),
       Inr (map (slot_of ?bs (tab_blocks t @ fresh)) [?n..?n + c - 1]))"
    using a(1) n0 \<open>0 < c\<close> by (simp add: AppendTokens_def blocks_needed_ok Let_def)
  moreover have "owned p' ((tab_blocks t @ fresh) @ others)"
    by (rule owned_perm [OF a(3)]) simp
  moreover have "table_wf ?bs \<lparr>tab_blocks = tab_blocks t @ fresh, tab_num_tokens = ?n + c\<rparr>"
    using len' n0 \<open>0 < c\<close> by (simp add: table_wf_def)
  ultimately show thesis using that a(2,4,5) nn by simp
qed

text \<open>On exhaustion the pool's free list comes back reversed: the blocks are popped from the back and
  pushed back in the order they were taken.\<close>

lemma alloc_loop_free_list:
  assumes "pool_inv p" and "n \<le> length (pool_free_list p)"
  shows "\<exists>p'. alloc_loop Allocate n p fresh = (p', Inr (fresh @ take n (rev (pool_free_list p)))) \<and> pool_inv p' \<and>
    pool_free_list p' = rev (drop n (rev (pool_free_list p))) \<and>
    pool_peak_used p' = (if n = 0 then pool_peak_used p else max (pool_peak_used p) (pool_used p + int n)) \<and>
    pool_used p' = pool_used p + int n \<and> pool_exhaustions p' = pool_exhaustions p"
  using assms
proof (induction n arbitrary: p fresh)
  case 0
  then show ?case by auto
next
  case (Suc n)
  then obtain fl b where fl: "pool_free_list p = fl @ [b]" by (metis length_0_conv not_less_eq_eq rev_exhaust le0)
  then obtain b' q where A: "Allocate p = (q, Inr b')" "b' = b"
    "q = p\<lparr>pool_free_list := fl, pool_refcount := (pool_refcount p)[nat b' := 1],
        pool_used := pool_used p + 1, pool_peak_used := max (pool_peak_used p) (pool_used p + 1)\<rparr>"
    "pool_inv q"
    using Allocate_ok [OF Suc.prems(1)] by (metis butlast_snoc last_snoc snoc_eq_iff_butlast)
  have f: "pool_free_list q = fl" "pool_used q = pool_used p + 1"
    "pool_peak_used q = max (pool_peak_used p) (pool_used p + 1)" "pool_exhaustions q = pool_exhaustions p"
    using A(3) by simp_all
  from Suc.IH [OF A(4), of "fresh @ [b]"] Suc.prems(2) fl f obtain p' where
    "alloc_loop Allocate n q (fresh @ [b]) = (p', Inr ((fresh @ [b]) @ take n (rev fl)))" "pool_inv p'"
    "pool_free_list p' = rev (drop n (rev fl))"
    "pool_peak_used p' = (if n = 0 then pool_peak_used q else max (pool_peak_used q) (pool_used q + int n))"
    "pool_used p' = pool_used q + int n" "pool_exhaustions p' = pool_exhaustions q" by auto
  then show ?case using A(1,2) fl f by (intro exI [of _ p']) auto
qed

lemma alloc_loop_append:
  "alloc_loop alloc (m + n) s fresh =
   (case alloc_loop alloc m s fresh of
      (s', Inl e) \<Rightarrow> (s', Inl e) | (s', Inr f) \<Rightarrow> alloc_loop alloc n s' f)"
  by (induction m arbitrary: s fresh) (auto split: prod.splits sum.splits)

lemma release_loop_free_list:
  assumes "pool_inv p" and "distinct bs" and "\<forall>b\<in>set bs. rc_of p b = 1"
    and "release_loop Release bs p = Inr p'"
  shows "pool_free_list p' = pool_free_list p @ bs \<and> pool_peak_used p' = pool_peak_used p \<and>
    pool_exhaustions p' = pool_exhaustions p"
  using assms
proof (induction bs arbitrary: p)
  case (Cons b bs)
  then have "rc_of p b = 1" by simp
  with Release_ok [OF Cons.prems(1), of b] obtain q where q: "Release p b = Inr q" "pool_inv q"
    "rc_of q = (rc_of p)(b := 0)" "pool_free_list q = pool_free_list p @ [b]"
    "pool_peak_used q = pool_peak_used p" "pool_exhaustions q = pool_exhaustions p" by auto
  have "pool_free_list p' = pool_free_list q @ bs \<and> pool_peak_used p' = pool_peak_used q \<and>
    pool_exhaustions p' = pool_exhaustions q"
    using Cons.prems q by (intro Cons.IH) auto
  then show ?case using q by simp
qed simp


lemma AppendTokens_exhausted:
  assumes own: "owned p (tab_blocks t @ others)" and wf: "table_wf (pool_block_size p) t"
    and "0 < c"
    and need: "free_blocks p < ceil_div (tab_num_tokens t + c) (pool_block_size p) -
               ceil_div (tab_num_tokens t) (pool_block_size p)"
  obtains p' where "AppendTokens p t c = ((p', t), ResourceExhaustedError)"
    and "owned p' (tab_blocks t @ others)" and "pool_data p' = pool_data p"
    and "free_blocks p' = free_blocks p"
    and "pool_free_list p' = rev (pool_free_list p)"
    and "pool_peak_used p' = (if pool_free_list p = [] then pool_peak_used p else pool_num_blocks p)"
    and "pool_exhaustions p' = pool_exhaustions p + 1"
proof -
  let ?bs = "pool_block_size p" and ?n = "tab_num_tokens t" and ?fl = "pool_free_list p"
  let ?need = "ceil_div (?n + c) ?bs - ceil_div ?n ?bs"
  have inv: "pool_inv p" by (rule ownedD(1) [OF own])
  have n0: "0 \<le> ?n" using wf by (simp add: table_wf_def)
  have fb: "free_blocks p = int (length ?fl)" by (rule free_blocks_eq [OF inv])
  have "nat ?need \<noteq> 0" "length ?fl < nat ?need" using need fb by auto
  then obtain k where k: "nat ?need = length ?fl + Suc k" by (metis less_iff_Suc_add add_Suc_right)
  obtain p1 where p1: "alloc_loop Allocate (length ?fl) p [] = (p1, Inr (rev ?fl))" "pool_inv p1"
    "pool_free_list p1 = []" "pool_used p1 = pool_used p + int (length ?fl)"
    "pool_peak_used p1 = (if ?fl = [] then pool_peak_used p else max (pool_peak_used p) (pool_used p + int (length ?fl)))"
    "pool_exhaustions p1 = pool_exhaustions p"
    using alloc_loop_free_list [OF inv, of "length ?fl" "[]"] by auto
  define p2 where "p2 = p1\<lparr>pool_exhaustions := pool_exhaustions p1 + 1\<rparr>"
  have "Allocate p1 = (p2, ResourceExhaustedError)" using p1(3) by (simp add: Allocate_def p2_def)
  then have loop: "alloc_loop Allocate (nat ?need) p [] = (p2, Inl (Status kResourceExhausted, rev ?fl))"
    unfolding k alloc_loop_append by (simp add: p1(1))
  have lt: "free_blocks p < int (nat ?need)" using need by linarith
  obtain s' bs' where full: "alloc_loop Allocate (nat ?need) p [] = (s', Inl (Status kResourceExhausted, bs'))"
    "pool_inv s'" "distinct bs'" "\<forall>b\<in>set bs'. rc_of p b = 0"
    "rc_of s' = (\<lambda>b. if b \<in> set bs' then 1 else rc_of p b)" "free_blocks s' = 0" "pool_data s' = pool_data p"
    using pool.alloc_loop_exhausted [OF inv lt, of "[]"] by auto
  have eq: "s' = p2" "bs' = rev ?fl" using loop full(1) by auto
  have one: "\<forall>b\<in>set (rev ?fl). rc_of p2 b = 1" using full(5) eq by simp
  obtain p3 where p3: "release_loop Release (rev ?fl) p2 = Inr p3" "pool_inv p3"
    "rc_of p3 = (\<lambda>b. if b \<in> set (rev ?fl) then 0 else rc_of p2 b)"
    "free_blocks p3 = free_blocks p2 + int (length (rev ?fl))" "pool_data p3 = pool_data p2"
    using pool.release_loop_fresh [of p2 "rev ?fl"] full(2,3) one eq by auto
  have rl: "pool_free_list p3 = pool_free_list p2 @ rev ?fl" "pool_peak_used p3 = pool_peak_used p2"
    "pool_exhaustions p3 = pool_exhaustions p2"
    using release_loop_free_list [of p2 "rev ?fl" p3] full(2,3) one eq p3(1) by auto
  have "rc_of p3 = rc_of p" using p3(3) full(4,5) eq by (auto simp: fun_eq_iff)
  then have own': "owned p3 (tab_blocks t @ others)" using p3(2) own by (auto simp: owned_def)
  have app: "AppendTokens p t c = ((p3, t), ResourceExhaustedError)"
    using loop p3(1) n0 \<open>0 < c\<close> by (simp add: AppendTokens_def blocks_needed_ok Let_def)
  have peak: "pool_peak_used p3 = (if ?fl = [] then pool_peak_used p else pool_num_blocks p)"
    using rl(2) p1(5) pool_invD(8,10) [OF inv] by (auto simp: p2_def)
  show thesis
    using that [OF app own'] p3(4,5) full(6,7) eq rl fb peak p1(3,6) by (simp add: p2_def)
qed

lemma truncate_loop_ok:
  assumes "owned p (blocks @ others)" and "0 \<le> keep" and "length blocks \<le> n"
  shows "\<exists>p'. truncate_loop keep p n blocks = Inr (p', take (nat keep) blocks) \<and>
    owned p' (take (nat keep) blocks @ others) \<and> pool_data p' = pool_data p \<and>
    free_blocks p' = free_blocks p + int (length (drop (nat keep) blocks))"
  using assms
proof (induction n arbitrary: p blocks)
  case 0
  then show ?case by auto
next
  case (Suc n)
  show ?case
  proof (cases "keep < int (length blocks)")
    case False
    then show ?thesis using Suc.prems by auto
  next
    case True
    then have "blocks \<noteq> []" using Suc.prems(2) by auto
    then obtain bl b where b: "blocks = bl @ [b]" by (metis rev_exhaust)
    have o: "owned p ((bl @ others) @ [b])" by (rule owned_perm [OF Suc.prems(1)]) (simp add: b)
    from owned_release [OF o] obtain q where rl: "release_loop Release [b] p = Inr q"
      and q: "owned q (bl @ others)" "pool_data q = pool_data p" "free_blocks q = free_blocks p + 1"
      by (metis One_nat_def length_Cons list.size(3) of_nat_1)
    have r: "Release p b = Inr q" using rl by (simp split: sum.splits)
    from Suc.IH [OF q(1) Suc.prems(2)] Suc.prems(3) b obtain p' where
      IH: "truncate_loop keep q n bl = Inr (p', take (nat keep) bl)" "owned p' (take (nat keep) bl @ others)"
      "pool_data p' = pool_data q" "free_blocks p' = free_blocks q + int (length (drop (nat keep) bl))" by auto
    have "nat keep \<le> length bl" using True b by auto
    then show ?thesis using IH q r True b by simp
  qed
qed

lemma Truncate_ok:
  assumes own: "owned p (tab_blocks t @ others)" and wf: "table_wf (pool_block_size p) t"
    and len: "0 \<le> m" "m \<le> tab_num_tokens t"
  defines "k \<equiv> nat (ceil_div m (pool_block_size p))"
  obtains p' where
    "Truncate p t m = Inr (p', \<lparr>tab_blocks = take k (tab_blocks t), tab_num_tokens = m\<rparr>)"
    and "owned p' (take k (tab_blocks t) @ others)"
    and "table_wf (pool_block_size p) \<lparr>tab_blocks = take k (tab_blocks t), tab_num_tokens = m\<rparr>"
    and "pool_data p' = pool_data p"
    and "free_blocks p' = free_blocks p + int (length (drop k (tab_blocks t)))"
proof -
  let ?bs = "pool_block_size p"
  have bs: "0 < ?bs" using pool_invD(1) [OF ownedD(1) [OF own]] .
  have k0: "0 \<le> ceil_div m ?bs" by (rule ceil_div_nonneg [OF bs len(1)])
  have kl: "ceil_div m ?bs \<le> int (length (tab_blocks t))"
    using ceil_div_mono [OF bs len(2)] wf by (simp add: table_wf_def)
  obtain p' where p': "truncate_loop (ceil_div m ?bs) p (length (tab_blocks t)) (tab_blocks t) =
      Inr (p', take k (tab_blocks t))" "owned p' (take k (tab_blocks t) @ others)"
    "pool_data p' = pool_data p" "free_blocks p' = free_blocks p + int (length (drop k (tab_blocks t)))"
    using truncate_loop_ok [OF own k0 order_refl] by (auto simp: k_def)
  have "Truncate p t m = Inr (p', \<lparr>tab_blocks = take k (tab_blocks t), tab_num_tokens = m\<rparr>)"
    using p'(1) len by (simp add: Truncate_def ceil_div_def Let_def)
  moreover have "table_wf ?bs \<lparr>tab_blocks = take k (tab_blocks t), tab_num_tokens = m\<rparr>"
    using len(1) k0 kl by (simp add: table_wf_def k_def)
  ultimately show thesis using that p' by blast
qed

lemma FreeAll_ok:
  assumes "owned p (tab_blocks t @ others)"
  obtains p' where "FreeAll p t = Inr (p', \<lparr>tab_blocks = [], tab_num_tokens = 0\<rparr>)"
    and "owned p' others" and "pool_data p' = pool_data p"
    and "free_blocks p' = free_blocks p + int (length (tab_blocks t))"
proof -
  have "owned p (others @ tab_blocks t)" by (rule owned_perm [OF assms]) simp
  from owned_release [OF this] obtain p' where "release_loop Release (tab_blocks t) p = Inr p'"
    "owned p' others" "pool_data p' = pool_data p"
    "free_blocks p' = free_blocks p + int (length (tab_blocks t))" by metis
  then show thesis using that by (simp add: FreeAll_def)
qed


section \<open>Slots never alias\<close>

lemma slot_ok:
  assumes "owned p (tab_blocks t @ others)" and "table_wf (pool_block_size p) t"
    and "0 \<le> pos" and "pos < tab_num_tokens t"
  shows "slot p t pos = Inr (slot_of (pool_block_size p) (tab_blocks t) pos)"
  using slot_at_ok [of "pool_block_size p" pos "tab_num_tokens t" "tab_blocks t"]
    pool_invD(1) [OF ownedD(1) [OF assms(1)]] assms(2-) by (simp add: slot_def table_wf_def)

lemma slot_block:
  assumes "slot p t pos = Inr s" and bs: "0 < pool_block_size p"
  obtains i where "0 \<le> pos" and "i = pos div pool_block_size p" and "nat i < length (tab_blocks t)"
    and "0 \<le> i" and "s = tab_blocks t ! nat i * pool_block_size p + pos mod pool_block_size p"
proof -
  have "0 \<le> pos" "slot_at (pool_block_size p) (tab_blocks t) pos = Inr s"
    using assms by (auto simp: slot_def split: if_splits)
  then show thesis using that [of "pos div pool_block_size p"]
    by (auto simp: slot_at_def Let_def nat_less_iff split: if_splits)
qed

lemma slot_inj:
  assumes "distinct (tab_blocks t)" and bs: "0 < pool_block_size p"
    and i: "slot p t i = Inr s" and j: "slot p t j = Inr s"
  shows "i = j"
proof -
  let ?bs = "pool_block_size p"
  obtain bi where bi: "bi = i div ?bs" "nat bi < length (tab_blocks t)" "0 \<le> bi" "s = tab_blocks t ! nat bi * ?bs + i mod ?bs"
    using slot_block [OF i bs] by metis
  obtain bj where bj: "bj = j div ?bs" "nat bj < length (tab_blocks t)" "0 \<le> bj" "s = tab_blocks t ! nat bj * ?bs + j mod ?bs"
    using slot_block [OF j bs] by metis
  have "tab_blocks t ! nat bi = tab_blocks t ! nat bj \<and> i mod ?bs = j mod ?bs"
    using bi(4) bj(4) bs by (intro div_mod_slot_inj [of _ ?bs]) auto
  then have "bi = bj" "i mod ?bs = j mod ?bs"
    using bi(2,3) bj(2,3) assms(1) by (auto simp: nth_eq_iff_index_eq)
  then show ?thesis using bi(1) bj(1) by (metis div_mult_mod_eq)
qed

lemma slot_disjoint:
  assumes "set (tab_blocks t) \<inter> set (tab_blocks u) = {}" and bs: "0 < pool_block_size p"
    and i: "slot p t i = Inr s" and j: "slot p u j = Inr s'"
  shows "s \<noteq> s'"
proof
  let ?bs = "pool_block_size p"
  assume "s = s'"
  obtain bi where bi: "nat bi < length (tab_blocks t)" "s = tab_blocks t ! nat bi * ?bs + i mod ?bs"
    using slot_block [OF i bs] by metis
  obtain bj where bj: "nat bj < length (tab_blocks u)" "s' = tab_blocks u ! nat bj * ?bs + j mod ?bs"
    using slot_block [OF j bs] by metis
  have "tab_blocks t ! nat bi = tab_blocks u ! nat bj \<and> i mod ?bs = j mod ?bs"
    using bi(2) bj(2) bs \<open>s = s'\<close> by (intro div_mod_slot_inj [of _ ?bs]) auto
  then show False using assms(1) bi(1) bj(1) by (metis disjoint_iff nth_mem)
qed

lemma slot_append:
  assumes "slot p t pos = Inr s" and "pool_block_size p' = pool_block_size p"
    and "tab_blocks t' = tab_blocks t @ fresh" and "tab_num_tokens t \<le> tab_num_tokens t'"
    and "0 < pool_block_size p"
  shows "slot p' t' pos = Inr s"
proof -
  obtain i where "0 \<le> pos" "i = pos div pool_block_size p" "nat i < length (tab_blocks t)" "0 \<le> i"
    "s = tab_blocks t ! nat i * pool_block_size p + pos mod pool_block_size p"
    using slot_block [OF assms(1,5)] by metis
  moreover have "pos < tab_num_tokens t" using assms(1) by (auto simp: slot_def split: if_splits)
  ultimately show ?thesis
    using assms(2-) by (auto simp: slot_def slot_at_def Let_def nth_append nat_less_iff)
qed

section \<open>Histories of several tables\<close>

text \<open>The tables of a pool, and any sequence of operations on them: a table is opened, moved, grown (the
  growth may fail), truncated or freed; destruction is \<open>FreeAll\<close>. A \<open>CHECK\<close> failure aborts the process, so
  truncation and freeing have successors only where they return.\<close>

inductive tables_run :: "'f BlockPool \<Rightarrow> 'f BlockPool \<Rightarrow> BlockTable list \<Rightarrow> bool" for p0 where
  run_start: "tables_run p0 p0 []"
| run_open: "tables_run p0 p ts \<Longrightarrow> tables_run p0 p (ts @ [BlockTable_ctor])"
| run_move: "tables_run p0 p ts \<Longrightarrow> i < length ts \<Longrightarrow> BlockTable_move (ts ! i) = (t', u) \<Longrightarrow> tables_run p0 p (ts[i := u] @ [t'])"
| run_append: "tables_run p0 p ts \<Longrightarrow> i < length ts \<Longrightarrow> AppendTokens p (ts ! i) cnt = ((p', t'), r) \<Longrightarrow> tables_run p0 p' (ts[i := t'])"
| run_truncate: "tables_run p0 p ts \<Longrightarrow> i < length ts \<Longrightarrow> Truncate p (ts ! i) m = Inr (p', t') \<Longrightarrow> tables_run p0 p' (ts[i := t'])"
| run_free: "tables_run p0 p ts \<Longrightarrow> i < length ts \<Longrightarrow> FreeAll p (ts ! i) = Inr (p', t') \<Longrightarrow> tables_run p0 p' (ts[i := t'])"

definition tables_inv :: "'f BlockPool \<Rightarrow> BlockTable list \<Rightarrow> bool" where
  "tables_inv p ts \<longleftrightarrow> owned p (concat (map tab_blocks ts)) \<and> (\<forall>t\<in>set ts. table_wf (pool_block_size p) t)"

definition other_blocks :: "BlockTable list \<Rightarrow> nat \<Rightarrow> int list" where
  "other_blocks ts i = concat (map tab_blocks (take i ts @ drop (Suc i) ts))"

lemma blocks_of_update:
  assumes "i < length ts"
  shows "mset (concat (map tab_blocks (ts[i := t]))) = mset (tab_blocks t @ other_blocks ts i)"
  by (simp add: upd_conv_take_nth_drop [OF assms] other_blocks_def)

lemma tables_invD:
  assumes "tables_inv p ts" and "i < length ts"
  shows "owned p (tab_blocks (ts ! i) @ other_blocks ts i)" and "table_wf (pool_block_size p) (ts ! i)"
proof -
  have "mset (tab_blocks (ts ! i) @ other_blocks ts i) = mset (concat (map tab_blocks ts))"
    using blocks_of_update [OF assms(2), of "ts ! i"] by simp
  then show "owned p (tab_blocks (ts ! i) @ other_blocks ts i)"
    using assms(1) owned_perm unfolding tables_inv_def by blast
qed (use assms in \<open>simp add: tables_inv_def\<close>)

lemma tables_inv_update:
  assumes "tables_inv p ts" and "i < length ts" and "owned p' (tab_blocks t' @ other_blocks ts i)"
    and "table_wf (pool_block_size p) t'" and "pool_data p' = pool_data p"
  shows "tables_inv p' (ts[i := t'])"
proof -
  have "owned p' (concat (map tab_blocks (ts[i := t'])))" by (rule owned_perm [OF assms(3) blocks_of_update [OF assms(2)]])
  moreover have "pool_block_size p' = pool_block_size p" using assms(5) by (simp add: pool_data_def)
  ultimately show ?thesis using assms(1,4) set_update_subset_insert [of ts i t'] by (auto simp: tables_inv_def)
qed

lemma AppendTokens_cases:
  assumes "owned p (tab_blocks t @ others)" and "table_wf (pool_block_size p) t" and "AppendTokens p t cnt = ((p', t'), r)"
  shows "owned p' (tab_blocks t' @ others) \<and> table_wf (pool_block_size p) t' \<and> pool_data p' = pool_data p"
proof (cases "0 < cnt")
  case False
  then show ?thesis using assms by (simp add: AppendTokens_def)
next
  case c: True
  show ?thesis
  proof (cases "ceil_div (tab_num_tokens t + cnt) (pool_block_size p) - ceil_div (tab_num_tokens t) (pool_block_size p) \<le> free_blocks p")
    case True
    show ?thesis by (rule AppendTokens_ok [OF assms(1,2) c True]) (use assms(3) in simp)
  next
    case False
    then have need: "free_blocks p < ceil_div (tab_num_tokens t + cnt) (pool_block_size p) - ceil_div (tab_num_tokens t) (pool_block_size p)"
      by simp
    show ?thesis by (rule AppendTokens_exhausted [OF assms(1,2) c need]) (use assms(2,3) in simp)
  qed
qed

lemma Truncate_cases:
  assumes "owned p (tab_blocks t @ others)" and "table_wf (pool_block_size p) t" and "Truncate p t m = Inr (p', t')"
  shows "owned p' (tab_blocks t' @ others) \<and> table_wf (pool_block_size p) t' \<and> pool_data p' = pool_data p"
proof -
  have m: "0 \<le> m" "m \<le> tab_num_tokens t" using assms(3) by (auto simp: Truncate_def split: if_splits)
  show ?thesis by (rule Truncate_ok [OF assms(1,2) m]) (use assms(3) in simp)
qed

lemma tables_run_inv: "tables_run p0 p ts \<Longrightarrow> owned p0 [] \<Longrightarrow> tables_inv p ts \<and> pool_data p = pool_data p0"
proof (induction rule: tables_run.induct)
  case run_start
  then show ?case by (simp add: tables_inv_def)
next
  case (run_open p ts)
  then show ?case by (auto simp: tables_inv_def BlockTable_ctor_def table_wf_def ceil_div_def dest!: ownedD(1) pool_invD(1))
next
  case (run_move p ts i t' u)
  then have inv: "tables_inv p ts" by simp
  have e: "t' = ts ! i" "tab_blocks u = []" "tab_num_tokens u = 0" using run_move.hyps(3) by (auto simp: BlockTable_move_def)
  have bs: "0 < pool_block_size p" using inv pool_invD(1) [OF ownedD(1)] unfolding tables_inv_def by blast
  have "owned p (concat (map tab_blocks (ts[i := u] @ [t'])))"
    by (rule owned_perm [OF tables_invD(1) [OF inv run_move.hyps(2)]])
       (use blocks_of_update [OF run_move.hyps(2), of u] in \<open>simp add: e\<close>)
  moreover have "table_wf (pool_block_size p) u" using bs by (simp add: table_wf_def ceil_div_def e)
  ultimately show ?case
    using run_move tables_invD(2) [OF inv run_move.hyps(2)] set_update_subset_insert [of ts i u] inv
    by (auto simp: tables_inv_def e)
next
  case (run_append p ts i cnt p' t' r)
  then have inv: "tables_inv p ts" by simp
  from AppendTokens_cases [OF tables_invD [OF inv run_append.hyps(2)] run_append.hyps(3)] run_append
  show ?case by (auto intro!: tables_inv_update [OF inv])
next
  case (run_truncate p ts i m p' t')
  then have inv: "tables_inv p ts" by simp
  from Truncate_cases [OF tables_invD [OF inv run_truncate.hyps(2)] run_truncate.hyps(3)] run_truncate
  show ?case by (auto intro!: tables_inv_update [OF inv])
next
  case (run_free p ts i p' t')
  then have inv: "tables_inv p ts" by simp
  have bs: "0 < pool_block_size p" using inv pool_invD(1) [OF ownedD(1)] unfolding tables_inv_def by blast
  have "t' = \<lparr>tab_blocks = [], tab_num_tokens = 0\<rparr> \<and> owned p' (other_blocks ts i) \<and> pool_data p' = pool_data p"
    by (rule FreeAll_ok [OF tables_invD(1) [OF inv run_free.hyps(2)]]) (use run_free.hyps(3) in simp)
  then show ?case using run_free bs
    by (auto intro!: tables_inv_update [OF inv] simp: table_wf_def ceil_div_def)
qed

lemma Create_block_size: "BlockPool_Create alloc g bs n = Inr p \<Longrightarrow> pool_block_size p = bs"
  by (erule Create_ok) (simp add: BlockPool_ctor_def)

lemma tables_inv_slot:
  assumes inv: "tables_inv p ts"
  shows "\<forall>i<length ts. \<forall>a. 0 \<le> a \<and> a < tab_num_tokens (ts ! i) \<longrightarrow>
    (\<exists>s. slot p (ts ! i) a = Inr s \<and> 0 \<le> s \<and> s < pool_num_blocks p * pool_block_size p)"
proof (intro allI impI)
  fix i a assume i: "i < length ts" and a: "0 \<le> a \<and> a < tab_num_tokens (ts ! i)"
  note o = tables_invD [OF inv i]
  let ?bs = "pool_block_size p"
  have bs: "0 < ?bs" using pool_invD(1) [OF ownedD(1) [OF o(1)]] .
  from slot_ok [OF o] a obtain s where s: "slot p (ts ! i) a = Inr s" by blast
  obtain k where k: "nat k < length (tab_blocks (ts ! i))" "s = tab_blocks (ts ! i) ! nat k * ?bs + a mod ?bs"
    using slot_block [OF s bs] by metis
  let ?b = "tab_blocks (ts ! i) ! nat k"
  have "block_in_range p ?b" by (rule owned_block_range [OF o(1)]) (use k(1) in simp)
  then have b: "0 \<le> ?b" "?b + 1 \<le> pool_num_blocks p" by (simp_all add: block_in_range_def)
  have m: "0 \<le> a mod ?bs" "a mod ?bs < ?bs" using bs by simp_all
  have "0 \<le> s" using b(1) m(1) bs k(2) by simp
  moreover have "s < (?b + 1) * ?bs" using m(2) k(2) by (simp add: algebra_simps)
  moreover have "(?b + 1) * ?bs \<le> pool_num_blocks p * ?bs" by (rule mult_right_mono [OF b(2)]) (use bs in simp)
  ultimately show "\<exists>s. slot p (ts ! i) a = Inr s \<and> 0 \<le> s \<and> s < pool_num_blocks p * ?bs" using s by auto
qed

lemma tables_inv_no_alias:
  assumes inv: "tables_inv p ts"
  shows "\<forall>i<length ts. \<forall>j<length ts. \<forall>a b s.
    slot p (ts ! i) a = Inr s \<and> slot p (ts ! j) b = Inr s \<longrightarrow> i = j \<and> a = b"
proof (intro allI impI, elim conjE)
  fix i j a b s
  assume i: "i < length ts" and j: "j < length ts" and s: "slot p (ts ! i) a = Inr s" "slot p (ts ! j) b = Inr s"
  note o = tables_invD(1) [OF inv i]
  have bs: "0 < pool_block_size p" using pool_invD(1) [OF ownedD(1) [OF o]] .
  have d: "distinct (tab_blocks (ts ! i))" "set (tab_blocks (ts ! i)) \<inter> set (other_blocks ts i) = {}"
    using ownedD(2) [OF o] by simp_all
  have "i = j"
  proof (rule ccontr)
    assume "i \<noteq> j"
    then have "ts ! j \<in> set (take i ts @ drop (Suc i) ts)"
    proof (cases "j < i")
      case False
      then have "drop (Suc i) ts ! (j - Suc i) = ts ! j" "j - Suc i < length (drop (Suc i) ts)" using \<open>i \<noteq> j\<close> j by simp_all
      then show ?thesis by (metis UnCI nth_mem set_append)
    qed (use i in \<open>auto simp: in_set_conv_nth\<close>)
    then have "set (tab_blocks (ts ! j)) \<subseteq> set (other_blocks ts i)" unfolding other_blocks_def by auto
    then have "set (tab_blocks (ts ! i)) \<inter> set (tab_blocks (ts ! j)) = {}" using d(2) by blast
    from slot_disjoint [OF this bs s] show False by simp
  qed
  then show "i = j \<and> a = b" using slot_inj [OF d(1) bs s(1)] s(2) by simp
qed

section \<open>Properties\<close>

definition small_table :: BlockTable where
  "small_table = snd (fst (AppendTokens small_pool BlockTable_ctor 5))"

definition small_pool_1 :: "int BlockPool" where
  "small_pool_1 = fst (fst (AppendTokens small_pool BlockTable_ctor 5))"

lemma small_pool_owned: "owned small_pool []"
  by (rule owned_NilI [OF small_pool_inv]) code_simp

lemma small_table_owned: "owned small_pool_1 (tab_blocks small_table @ [])"
  and small_table_wf: "table_wf (pool_block_size small_pool_1) small_table"
proof -
  have bs: "pool_block_size small_pool = 8" by code_simp
  have "owned small_pool (tab_blocks BlockTable_ctor @ [])" using small_pool_owned by (simp add: BlockTable_ctor_def)
  moreover have "table_wf (pool_block_size small_pool) BlockTable_ctor"
    by (simp add: table_wf_def BlockTable_ctor_def bs)
  moreover have "ceil_div (tab_num_tokens BlockTable_ctor + 5) (pool_block_size small_pool) -
      ceil_div (tab_num_tokens BlockTable_ctor) (pool_block_size small_pool) \<le> free_blocks small_pool"
    by code_simp
  ultimately obtain q fresh where
    "AppendTokens small_pool BlockTable_ctor 5 = ((q, \<lparr>tab_blocks = tab_blocks BlockTable_ctor @ fresh,
        tab_num_tokens = tab_num_tokens BlockTable_ctor + 5\<rparr>),
       Inr (map (slot_of (pool_block_size small_pool) (tab_blocks BlockTable_ctor @ fresh))
        [tab_num_tokens BlockTable_ctor..tab_num_tokens BlockTable_ctor + 5 - 1]))"
    and "owned q ((tab_blocks BlockTable_ctor @ fresh) @ [])"
    using AppendTokens_ok [of small_pool BlockTable_ctor "[]" 5] by (metis zero_less_numeral)
  then show "owned small_pool_1 (tab_blocks small_table @ [])"
    by (simp add: small_pool_1_def small_table_def)
  show "table_wf (pool_block_size small_pool_1) small_table" by code_simp
qed

text \<open>C12. Growing a table is all-or-nothing. With enough free blocks every new position gets the slot
  that \<open>slot\<close> reports for it, the new slots are pairwise different, no earlier position moves, and the
  pool's references are exactly those of the grown table and the other tables. Otherwise the code
  answers ResourceExhausted, the table is untouched and every reference count is what it was.\<close>

theorem append_tokens_all_or_nothing:
  assumes "owned p (tab_blocks t @ others)" and "table_wf (pool_block_size p) t" and "0 < c"
  defines "need \<equiv> ceil_div (tab_num_tokens t + c) (pool_block_size p) -
    ceil_div (tab_num_tokens t) (pool_block_size p)"
  shows "case AppendTokens p t c of
     ((p', t'), Inr slots) \<Rightarrow> need \<le> free_blocks p \<and> free_blocks p' = free_blocks p - need \<and>
       map Inr slots = map (slot p' t') [tab_num_tokens t..tab_num_tokens t + c - 1] \<and> distinct slots \<and>
       (\<forall>pos s. slot p t pos = Inr s \<longrightarrow> slot p' t' pos = Inr s) \<and>
       tab_num_tokens t' = tab_num_tokens t + c \<and>
       owned p' (tab_blocks t' @ others) \<and> table_wf (pool_block_size p') t'
   | ((p', t'), Inl e) \<Rightarrow> free_blocks p < need \<and> e = Status kResourceExhausted \<and> t' = t \<and>
       rc_of p' = rc_of p \<and> free_blocks p' = free_blocks p \<and> owned p' (tab_blocks t @ others)"
proof (cases "need \<le> free_blocks p")
  case True
  let ?n = "tab_num_tokens t" and ?bs = "pool_block_size p"
  obtain p' fresh where a:
    "AppendTokens p t c = ((p', \<lparr>tab_blocks = tab_blocks t @ fresh, tab_num_tokens = ?n + c\<rparr>),
       Inr (map (slot_of ?bs (tab_blocks t @ fresh)) [?n..?n + c - 1]))"
    "owned p' ((tab_blocks t @ fresh) @ others)"
    "table_wf ?bs \<lparr>tab_blocks = tab_blocks t @ fresh, tab_num_tokens = ?n + c\<rparr>"
    "pool_data p' = pool_data p" "free_blocks p' = free_blocks p - int (length fresh)"
    using AppendTokens_ok [OF assms(1-3)] True unfolding need_def by metis
  define t' where "t' = \<lparr>tab_blocks = tab_blocks t @ fresh, tab_num_tokens = ?n + c\<rparr>"
  have t': "tab_blocks t' = tab_blocks t @ fresh" "tab_num_tokens t' = ?n + c" by (simp_all add: t'_def)
  have bs': "pool_block_size p' = ?bs" using a(4) by (simp add: pool_data_def)
  have bs: "0 < ?bs" using pool_invD(1) [OF ownedD(1) [OF assms(1)]] .
  have n0: "0 \<le> ?n" using assms(2) by (simp add: table_wf_def)
  have own': "owned p' (tab_blocks t' @ others)" and wf': "table_wf (pool_block_size p') t'"
    using a(2,3) bs' by (simp_all add: t'_def)
  have sl: "slot p' t' pos = Inr (slot_of ?bs (tab_blocks t') pos)" if "pos \<in> {?n..?n + c - 1}" for pos
    using slot_ok [OF own' wf', of pos] that n0 bs' by (simp add: t')
  have "inj_on (slot_of ?bs (tab_blocks t')) {?n..?n + c - 1}"
    using slot_inj [of t' p'] sl ownedD(2) [OF own'] bs bs' by (intro inj_onI) auto
  then have dist: "distinct (map (slot_of ?bs (tab_blocks t')) [?n..?n + c - 1])"
    by (simp add: distinct_map)
  have app: "AppendTokens p t c = ((p', t'), Inr (map (slot_of ?bs (tab_blocks t')) [?n..?n + c - 1]))"
    using a(1) by (simp add: t'_def)
  have "int (length fresh) = need"
    using wf' assms(2) bs' by (simp add: table_wf_def t' need_def)
  then show ?thesis
    using a(5) True own' wf' dist sl slot_append [OF _ bs' t'(1) _ bs] \<open>0 < c\<close>
    unfolding t'(1) [symmetric] app by (auto simp: t'(2) simp del: upto.simps)
next
  case False
  then obtain p' where "AppendTokens p t c = ((p', t), ResourceExhaustedError)"
    "owned p' (tab_blocks t @ others)" "free_blocks p' = free_blocks p"
    using AppendTokens_exhausted [OF assms(1-3)] unfolding need_def by (metis not_le)
  moreover have "rc_of p' = rc_of p"
    using calculation(2) assms(1) by (auto simp: owned_def fun_eq_iff)
  ultimately show ?thesis using False by simp
qed

theorem append_tokens_all_or_nothing_witness:
  "snd (AppendTokens small_pool_1 small_table 4) = Inr [5, 6, 7, 8] \<and>
   distinct [5, 6, 7, 8 :: int] \<and> snd (AppendTokens small_pool_1 small_table 12) = ResourceExhaustedError \<and>
   rc_of (fst (fst (AppendTokens small_pool_1 small_table 12))) = rc_of small_pool_1"
proof -
  have a: "snd (AppendTokens small_pool_1 small_table 4) = Inr [5, 6, 7, 8]" by code_simp
  have b: "snd (AppendTokens small_pool_1 small_table 12) = ResourceExhaustedError" by code_simp
  note P = append_tokens_all_or_nothing [OF small_table_owned small_table_wf]
  show ?thesis using a b P [of 4] P [of 12] by (auto split: prod.splits)
qed

text \<open>C13. Tables over one pool never alias. After any history of operations on any number of tables of a
  created pool, failed growths included, every cached position has a slot inside the slabs, two different
  positions of any tables have different slots, so a write through one sequence's table cannot touch the
  cached rows of another, and the blocks in use are exactly those the tables hold.\<close>

theorem tables_never_alias:
  assumes "BlockPool_Create alloc g bs n = Inr p0" and "n \<le> INT32_MAX + 1" and "tables_run p0 p ts"
  shows "pool_used p = int (length (concat (map tab_blocks ts))) \<and>
    (\<forall>i<length ts. \<forall>a. 0 \<le> a \<and> a < tab_num_tokens (ts ! i) \<longrightarrow>
       (\<exists>s. slot p (ts ! i) a = Inr s \<and> 0 \<le> s \<and> s < n * bs)) \<and>
    (\<forall>i<length ts. \<forall>j<length ts. \<forall>a b s.
       slot p (ts ! i) a = Inr s \<and> slot p (ts ! j) b = Inr s \<longrightarrow> i = j \<and> a = b)"
proof -
  have inv: "tables_inv p ts" and d: "pool_data p = pool_data p0"
    using tables_run_inv [OF assms(3) owned_NilI [OF Create_inv(1,2) [OF assms(1,2)]]] by simp_all
  have sz: "pool_num_blocks p = n" "pool_block_size p = bs"
    using d Create_inv(3) [OF assms(1,2)] Create_block_size [OF assms(1)] by (simp_all add: pool_data_def)
  have own: "owned p (concat (map tab_blocks ts))" using inv by (simp add: tables_inv_def)
  show ?thesis
    using owned_used [OF own] tables_inv_slot [OF inv] tables_inv_no_alias [OF inv] unfolding sz by blast
qed

text \<open>Two tables over one pool, both grown: each holds a block of its own.\<close>

definition two_tables :: "int BlockPool \<times> BlockTable list" where
  "two_tables =
     (case AppendTokens small_pool_1 BlockTable_ctor 3 of ((p, u), _) \<Rightarrow> (p, [small_table, u]))"

lemma two_tables_run: "tables_run small_pool (fst two_tables) (snd two_tables)"
proof -
  obtain p u r where a: "AppendTokens small_pool_1 BlockTable_ctor 3 = ((p, u), r)" by (metis surj_pair)
  obtain r1 where b: "AppendTokens small_pool BlockTable_ctor 5 = ((small_pool_1, small_table), r1)"
    by (metis small_pool_1_def small_table_def prod.collapse)
  have "tables_run small_pool small_pool [BlockTable_ctor]" using run_open [OF run_start] by simp
  from run_append [OF this, of 0, simplified, OF b] have "tables_run small_pool small_pool_1 [small_table]" by simp
  from run_append [OF run_open [OF this], of 1, simplified, OF a] show ?thesis by (simp add: two_tables_def a)
qed

theorem tables_never_alias_witness:
  "slot (fst two_tables) (snd two_tables ! 0) 3 = Inr 3 \<and> slot (fst two_tables) (snd two_tables ! 1) 2 = Inr 10 \<and>
   (\<forall>b. slot (fst two_tables) (snd two_tables ! 1) b \<noteq> Inr 3) \<and> pool_used (fst two_tables) = 2"
proof -
  have s: "slot (fst two_tables) (snd two_tables ! 0) 3 = Inr 3" "slot (fst two_tables) (snd two_tables ! 1) 2 = Inr 10"
    "length (snd two_tables) = 2" "length (concat (map tab_blocks (snd two_tables))) = 2" by code_simp+
  have n: "(2::int) \<le> INT32_MAX + 1" by (simp add: INT32_MAX_def)
  note P = tables_never_alias [OF small_pool_Create n two_tables_run]
  have "slot (fst two_tables) (snd two_tables ! 1) b \<noteq> Inr 3" for b
    using P s(1,3) by (metis one_less_numeral_iff semiring_norm(76) zero_less_numeral zero_neq_one)
  then show ?thesis using P s by simp
qed

lemma append_truncate_restores:
  assumes "owned p (tab_blocks t @ others)" and "table_wf (pool_block_size p) t"
    and c: "0 < c" and app: "AppendTokens p t c = ((q, t'), Inr slots)"
  shows "\<exists>r. Truncate q t' (tab_num_tokens t) = Inr (r, t) \<and> rc_of r = rc_of p"
proof -
  let ?bs = "pool_block_size p" and ?n = "tab_num_tokens t" and ?k = "length (tab_blocks t)"
  have len: "int ?k = ceil_div ?n ?bs" "0 \<le> ?n" using assms(2) by (auto simp: table_wf_def)
  have "ceil_div (?n + c) ?bs - ceil_div ?n ?bs \<le> free_blocks p"
    using AppendTokens_exhausted [OF assms(1-3)] app by (metis Pair_inject not_le sum.distinct(1))
  then obtain p' fresh where
    a: "AppendTokens p t c = ((p', \<lparr>tab_blocks = tab_blocks t @ fresh, tab_num_tokens = ?n + c\<rparr>),
       Inr (map (slot_of ?bs (tab_blocks t @ fresh)) [?n..?n + c - 1]))"
      "owned p' ((tab_blocks t @ fresh) @ others)"
      "table_wf ?bs \<lparr>tab_blocks = tab_blocks t @ fresh, tab_num_tokens = ?n + c\<rparr>"
      "pool_data p' = pool_data p"
    using AppendTokens_ok [OF assms(1-3)] by metis
  then have q: "q = p'" "t' = \<lparr>tab_blocks = tab_blocks t @ fresh, tab_num_tokens = ?n + c\<rparr>"
    using app by auto
  have bs': "pool_block_size q = ?bs" using a(4) q(1) by (simp add: pool_data_def)
  have o: "owned q (tab_blocks t' @ others)" and w: "table_wf (pool_block_size q) t'" using a q bs' by auto
  have l: "?n \<le> tab_num_tokens t'" using c q(2) by simp
  have k: "nat (ceil_div ?n (pool_block_size q)) = ?k" using len bs' by simp
  have tk: "take ?k (tab_blocks t') = tab_blocks t" using q(2) by simp
  obtain r where r: "Truncate q t' ?n = Inr (r, \<lparr>tab_blocks = tab_blocks t, tab_num_tokens = ?n\<rparr>)"
    "owned r (tab_blocks t @ others)"
    using Truncate_ok [OF o w len(2) l] unfolding k tk by metis
  then have "rc_of r = rc_of p" using assms(1) by (auto simp: owned_def fun_eq_iff)
  then show ?thesis using r(1) by simp
qed

lemma Truncate_slots:
  assumes own: "owned p (tab_blocks t @ others)" and wf: "table_wf (pool_block_size p) t"
    and m: "0 \<le> m" "m \<le> tab_num_tokens t" and tr: "Truncate p t m = Inr (p', t')"
  shows "tab_num_tokens t' = m \<and> owned p' (tab_blocks t' @ others) \<and> table_wf (pool_block_size p') t' \<and>
    pool_data p' = pool_data p \<and> (\<forall>pos. 0 \<le> pos \<and> pos < m \<longrightarrow> slot p' t' pos = slot p t pos) \<and>
    free_blocks p' = free_blocks p + (ceil_div (tab_num_tokens t) (pool_block_size p) - ceil_div m (pool_block_size p))"
proof -
  let ?bs = "pool_block_size p" and ?n = "tab_num_tokens t"
  let ?k = "nat (ceil_div m ?bs)"
  have bs: "0 < ?bs" using pool_invD(1) [OF ownedD(1) [OF own]] .
  obtain q where r: "Truncate p t m = Inr (q, \<lparr>tab_blocks = take ?k (tab_blocks t), tab_num_tokens = m\<rparr>)"
    "owned q (take ?k (tab_blocks t) @ others)"
    "table_wf ?bs \<lparr>tab_blocks = take ?k (tab_blocks t), tab_num_tokens = m\<rparr>"
    "pool_data q = pool_data p" "free_blocks q = free_blocks p + int (length (drop ?k (tab_blocks t)))"
    using Truncate_ok [OF own wf m] by metis
  then have q: "q = p'" and t': "tab_blocks t' = take ?k (tab_blocks t)" "tab_num_tokens t' = m"
    and t'': "t' = \<lparr>tab_blocks = take ?k (tab_blocks t), tab_num_tokens = m\<rparr>" using tr by auto
  have bs': "pool_block_size p' = ?bs" using r(4) q by (simp add: pool_data_def)
  have o': "owned p' (tab_blocks t' @ others)" and w': "table_wf (pool_block_size p') t'"
    using r(2,3) bs' q t'' by simp_all
  have "0 \<le> ceil_div m ?bs" "ceil_div m ?bs \<le> ceil_div ?n ?bs"
    using ceil_div_nonneg [OF bs m(1)] ceil_div_mono [OF bs m(2)] by auto
  then have fb: "int (length (drop ?k (tab_blocks t))) = ceil_div ?n ?bs - ceil_div m ?bs"
    using wf by (auto simp: table_wf_def)
  have "slot p' t' pos = slot p t pos" if pos: "0 \<le> pos \<and> pos < m" for pos
  proof -
    have "0 \<le> pos div ?bs" "pos div ?bs < ceil_div m ?bs"
      using pos bs div_less_ceil_div [OF bs] by (auto simp: pos_imp_zdiv_nonneg_iff)
    then have "nat (pos div ?bs) < ?k" by linarith
    then have "slot_of ?bs (take ?k (tab_blocks t)) pos = slot_of ?bs (tab_blocks t) pos"
      by (simp add: slot_of_def)
    then show ?thesis
      using slot_ok [OF o' w', of pos] slot_ok [OF own wf, of pos] pos m(2) bs' t' by simp
  qed
  then show ?thesis using r(4,5) o' w' fb q t' by simp
qed

text \<open>C14. Truncation drops exactly the trailing blocks that hold no remaining position: the kept
  positions keep their slots, the dropped blocks return to the pool, an out-of-range length is
  rejected, and truncating an append away restores the table and every reference count.\<close>

theorem truncate_gives_back_tail:
  assumes "owned p (tab_blocks t @ others)" and "table_wf (pool_block_size p) t"
  shows "(case Truncate p t m of
     Inr (p', t') \<Rightarrow> 0 \<le> m \<and> m \<le> tab_num_tokens t \<and> tab_num_tokens t' = m \<and>
       owned p' (tab_blocks t' @ others) \<and> table_wf (pool_block_size p') t' \<and>
       (\<forall>pos. 0 \<le> pos \<and> pos < m \<longrightarrow> slot p' t' pos = slot p t pos) \<and>
       free_blocks p' = free_blocks p + (ceil_div (tab_num_tokens t) (pool_block_size p) - ceil_div m (pool_block_size p))
   | Inl e \<Rightarrow> (m < 0 \<or> tab_num_tokens t < m) \<and> e = Status kInvalidArgument) \<and>
   (\<forall>c q t' slots. 0 < c \<and> AppendTokens p t c = ((q, t'), Inr slots) \<longrightarrow>
     (\<exists>r. Truncate q t' (tab_num_tokens t) = Inr (r, t) \<and> rc_of r = rc_of p))"
proof (intro conjI)
  show "\<forall>c q t' slots. 0 < c \<and> AppendTokens p t c = ((q, t'), Inr slots) \<longrightarrow>
     (\<exists>r. Truncate q t' (tab_num_tokens t) = Inr (r, t) \<and> rc_of r = rc_of p)"
    using append_truncate_restores [OF assms] by blast
next
  show "case Truncate p t m of
     Inr (p', t') \<Rightarrow> 0 \<le> m \<and> m \<le> tab_num_tokens t \<and> tab_num_tokens t' = m \<and>
       owned p' (tab_blocks t' @ others) \<and> table_wf (pool_block_size p') t' \<and>
       (\<forall>pos. 0 \<le> pos \<and> pos < m \<longrightarrow> slot p' t' pos = slot p t pos) \<and>
       free_blocks p' = free_blocks p + (ceil_div (tab_num_tokens t) (pool_block_size p) - ceil_div m (pool_block_size p))
   | Inl e \<Rightarrow> (m < 0 \<or> tab_num_tokens t < m) \<and> e = Status kInvalidArgument"
  proof (cases "0 \<le> m \<and> m \<le> tab_num_tokens t")
    case False
    then show ?thesis by (auto simp: Truncate_def)
  next
    case True
    then obtain p' t' where "Truncate p t m = Inr (p', t')" using Truncate_ok [OF assms] by metis
    with Truncate_slots [OF assms _ _ this] True show ?thesis by simp
  qed
qed

theorem truncate_gives_back_tail_witness:
  "(case Truncate small_pool_1 small_table 0 of Inr (p', t') \<Rightarrow> tab_blocks t' = [] \<and> free_blocks p' = 2 | Inl _ \<Rightarrow> False) \<and>
   Truncate small_pool_1 small_table 6 = InvalidArgumentError"
proof -
  note P = truncate_gives_back_tail [OF small_table_owned small_table_wf]
  have "free_blocks small_pool_1 = 1" "tab_num_tokens small_table = 5" "pool_block_size small_pool_1 = 8"
    "ceil_div 5 8 = 1" "ceil_div 0 8 = 0" by code_simp+
  then show ?thesis using P [of 0] P [of 6]
    by (auto simp: table_wf_def dest!: ownedD(1) pool_invD(1) split: sum.splits prod.splits)
qed

text \<open>The rollback of a failed growth is observable: the free list comes back reversed, so later
  allocations hand out blocks in the opposite order, the peak counter jumps to the whole pool although
  no block stays in use, and one exhaustion is recorded.\<close>

theorem exhaustion_rollback_observable:
  assumes "owned p (tab_blocks t @ others)" and "table_wf (pool_block_size p) t" and "0 < c"
    and "AppendTokens p t c = ((p', t'), Inl e)" and "pool_free_list p \<noteq> []"
  shows "pool_free_list p' = rev (pool_free_list p) \<and> peak_used_stat (stats p') = total_stat (stats p) \<and>
    exhaustions_stat (stats p') = exhaustions_stat (stats p) + 1"
proof -
  have "free_blocks p < ceil_div (tab_num_tokens t + c) (pool_block_size p) -
      ceil_div (tab_num_tokens t) (pool_block_size p)"
    using AppendTokens_ok [OF assms(1-3)] assms(4) by (metis Pair_inject not_le sum.distinct(2))
  from AppendTokens_exhausted [OF assms(1-3) this] assms(4,5) show ?thesis
    by (metis Pair_inject stats_def BlockPoolStats.select_convs)
qed

theorem exhaustion_rollback_observable_witness:
  "pool_free_list (fst (fst (AppendTokens small_pool BlockTable_ctor 20))) = [0, 1] \<and>
   pool_free_list small_pool = [1, 0]"
proof -
  have o: "owned small_pool (tab_blocks BlockTable_ctor @ [])" using small_pool_owned by (simp add: BlockTable_ctor_def)
  have w: "table_wf (pool_block_size small_pool) BlockTable_ctor" by code_simp
  have fl: "pool_free_list small_pool = [1, 0]" by code_simp
  have e: "snd (AppendTokens small_pool BlockTable_ctor 20) = ResourceExhaustedError" by code_simp
  then obtain p' t' where a: "AppendTokens small_pool BlockTable_ctor 20 = ((p', t'), ResourceExhaustedError)"
    by (metis prod.collapse)
  show ?thesis using exhaustion_rollback_observable [OF o w _ a] fl a by simp
qed

end
