(* ===== verification/Shape.thy ===== *)
theory Shape
  imports Tensor_Types
begin

text \<open>
  Shapes, strides and contiguity, \<open>src/src/tensor/shape.h\<close>. A \<open>DimVector\<close> is the list of its used
  values (the unused trailing slots stay zero and are never read). The lemmas show that both entry
  points accept exactly the dim lists whose element count fits \<open>int64\<close>, that row-major strides never
  overflow, and that \<open>IsContiguous\<close> holds exactly of layouts in which the offset of an index tuple is
  its row-major rank.
\<close>

section \<open>Dim vectors and shapes\<close>

definition kMaxRank :: nat where "kMaxRank = 8"

type_synonym DimVector = "int list"
type_synonym Strides = DimVector

definition DimVector_push_back :: "DimVector \<Rightarrow> int \<Rightarrow> DimVector status_or" where
  "DimVector_push_back v x = (if \<not> length v < kMaxRank then Inl CheckFailed else Inr (v @ [x]))"

definition DimVector_at :: "DimVector \<Rightarrow> int \<Rightarrow> int status_or" where
  "DimVector_at v i = (if \<not> (0 \<le> i \<and> i < int (length v)) then Inl CheckFailed else Inr (v ! nat i))"

fun push_back_all :: "DimVector \<Rightarrow> int list \<Rightarrow> DimVector status_or" where
  "push_back_all v [] = Inr v"
| "push_back_all v (x # xs) =
     (case DimVector_push_back v x of Inl e \<Rightarrow> Inl e | Inr v' \<Rightarrow> push_back_all v' xs)"

datatype ShapeDefect = kNone | kRankTooLarge | kNegativeDim | kNumelOverflow

record DimsValidation =
  defect :: ShapeDefect
  defect_index :: nat
  valid_numel :: int

fun validate_loop :: "int list \<Rightarrow> nat \<Rightarrow> bool \<Rightarrow> int \<Rightarrow> DimsValidation" where
  "validate_loop [] i has_zero product =
     \<lparr>defect = kNone, defect_index = 0, valid_numel = (if has_zero then 0 else product)\<rparr>"
| "validate_loop (dim # dims) i has_zero product =
     (if dim < 0 then \<lparr>defect = kNegativeDim, defect_index = i, valid_numel = 1\<rparr>
      else if dim = 0 then validate_loop dims (Suc i) True product
      else case mul_overflow product dim of
        None \<Rightarrow> \<lparr>defect = kNumelOverflow, defect_index = 0, valid_numel = 1\<rparr>
      | Some product' \<Rightarrow> validate_loop dims (Suc i) has_zero product')"

definition ValidateDims :: "int list \<Rightarrow> DimsValidation" where
  "ValidateDims dims =
     (if kMaxRank < length dims then \<lparr>defect = kRankTooLarge, defect_index = 0, valid_numel = 1\<rparr>
      else validate_loop dims 0 False 1)"

record Shape =
  dims :: DimVector
  numel :: int

text \<open>The \<open>CHECK\<close>ing constructor for literals and the validating factory.\<close>

definition Shape_ctor :: "int list \<Rightarrow> Shape status_or" where
  "Shape_ctor ds =
     (let v = ValidateDims ds in
      if defect v = kRankTooLarge then Inl CheckFailed
      else if defect v = kNegativeDim then Inl CheckFailed
      else if defect v = kNumelOverflow then Inl CheckFailed
      else case push_back_all [] ds of
        Inl e \<Rightarrow> Inl e
      | Inr d \<Rightarrow> Inr \<lparr>dims = d, numel = valid_numel v\<rparr>)"

definition FromDims :: "int list \<Rightarrow> Shape status_or" where
  "FromDims ds =
     (let v = ValidateDims ds in
      case defect v of
        kNone \<Rightarrow>
          (case push_back_all [] ds of
             Inl e \<Rightarrow> Inl e
           | Inr d \<Rightarrow> Inr \<lparr>dims = d, numel = valid_numel v\<rparr>)
      | kRankTooLarge \<Rightarrow> InvalidArgumentError
      | kNegativeDim \<Rightarrow> InvalidArgumentError
      | kNumelOverflow \<Rightarrow> InvalidArgumentError)"

definition rank :: "Shape \<Rightarrow> int" where "rank s = int (length (dims s))"

definition dim :: "Shape \<Rightarrow> int \<Rightarrow> int status_or" where "dim s i = DimVector_at (dims s) i"

text \<open>The loop of \<open>RowMajorStrides\<close> runs from the innermost dim outwards; it is written here over the
  reversed dim list, producing the strides innermost first.\<close>

fun row_major_loop :: "int list \<Rightarrow> int \<Rightarrow> int list" where
  "row_major_loop [] running = []"
| "row_major_loop (d # ds) running = running # row_major_loop ds (running * max d 1)"

definition RowMajorStrides :: "Shape \<Rightarrow> Strides" where
  "RowMajorStrides s = rev (row_major_loop (rev (dims s)) 1)"

fun contiguous_loop :: "(int \<times> int) list \<Rightarrow> int \<Rightarrow> bool" where
  "contiguous_loop [] expected = True"
| "contiguous_loop ((d, stride) # rest) expected =
     (if d = 1 then contiguous_loop rest expected
      else if stride \<noteq> expected then False
      else contiguous_loop rest (expected * d))"

definition IsContiguous :: "Shape \<Rightarrow> Strides \<Rightarrow> bool status_or" where
  "IsContiguous s strides =
     (if int (length strides) \<noteq> rank s then Inl CheckFailed
      else if numel s = 0 then Inr True
      else Inr (contiguous_loop (rev (zip (dims s) strides)) 1))"

section \<open>Specification\<close>

definition nonzero_product :: "int list \<Rightarrow> int" where
  "nonzero_product ds = prod_list (filter (\<lambda>d. d \<noteq> 0) ds)"

definition valid_dims :: "int list \<Rightarrow> bool" where
  "valid_dims ds \<longleftrightarrow> length ds \<le> kMaxRank \<and> (\<forall>d\<in>set ds. 0 \<le> d) \<and> nonzero_product ds \<le> INT64_MAX"

text \<open>Offset of an index tuple under given strides, and its row-major rank.\<close>

fun offset_of :: "int list \<Rightarrow> int list \<Rightarrow> int" where
  "offset_of (i # is) (s # ss) = i * s + offset_of is ss"
| "offset_of _ _ = 0"

fun row_major_rank :: "int list \<Rightarrow> int list \<Rightarrow> int" where
  "row_major_rank (d # ds) (i # is) = i * prod_list ds + row_major_rank ds is"
| "row_major_rank _ _ = 0"

definition index_in :: "int list \<Rightarrow> int list \<Rightarrow> bool" where
  "index_in ds is \<longleftrightarrow> list_all2 (\<lambda>d i. 0 \<le> i \<and> i < d) ds is"

section \<open>Shape validation\<close>

lemma nonzero_product_Cons [simp]:
  "nonzero_product [] = 1" "nonzero_product (d # ds) = (if d = 0 then 1 else d) * nonzero_product ds"
  by (simp_all add: nonzero_product_def)

lemma nonzero_product_pos: "\<forall>d\<in>set ds. 0 \<le> d \<Longrightarrow> 1 \<le> nonzero_product ds"
  unfolding nonzero_product_def by (rule prod_list_ge_one) auto

lemma mul_overflow_pos:
  assumes "1 \<le> a" and "1 \<le> b"
  shows "mul_overflow a b = (if a * b \<le> INT64_MAX then Some (a * b) else None)" and "1 \<le> a * b"
proof -
  show "1 \<le> a * b" using mult_mono [of 1 a 1 b] assms by simp
  then show "mul_overflow a b = (if a * b \<le> INT64_MAX then Some (a * b) else None)"
    by (simp add: mul_overflow_def int_width_defs)
qed

lemma validate_loop_exact:
  assumes "1 \<le> product" and "product \<le> INT64_MAX"
  shows "if (\<forall>d\<in>set ds. 0 \<le> d) \<and> product * nonzero_product ds \<le> INT64_MAX
    then validate_loop ds i z product = \<lparr>defect = kNone, defect_index = 0,
      valid_numel = (if z \<or> 0 \<in> set ds then 0 else product * prod_list ds)\<rparr>
    else defect (validate_loop ds i z product) \<in> {kNegativeDim, kNumelOverflow}"
  using assms
proof (induction ds arbitrary: i z product)
  case (Cons d ds)
  consider "d < 0" | "d = 0" | "1 \<le> d" by linarith
  then show ?case
  proof cases
    case 2
    then show ?thesis using Cons.IH [OF Cons.prems, of "Suc i" True] by (auto split: if_splits)
  next
    case 3
    note m = mul_overflow_pos [OF Cons.prems(1) 3]
    show ?thesis
    proof (cases "product * d \<le> INT64_MAX")
      case True
      then show ?thesis using Cons.IH [OF m(2) True, of "Suc i" z] m(1) 3
        by (auto simp: mult.assoc split: if_splits)
    next
      case False
      have "\<not> product * d * nonzero_product ds \<le> INT64_MAX" if "\<forall>d\<in>set ds. 0 \<le> d"
        using mult_left_mono [OF nonzero_product_pos [OF that], of "product * d"] m(2) False by simp
      then show ?thesis using m(1) 3 False by (auto simp: mult.assoc)
    qed
  qed simp
qed simp

lemma push_back_all_ok: "length v + length xs \<le> kMaxRank \<Longrightarrow> push_back_all v xs = Inr (v @ xs)"
  by (induction v xs rule: push_back_all.induct) (auto simp: DimVector_push_back_def)

lemma ValidateDims_exact:
  "if valid_dims ds then ValidateDims ds = \<lparr>defect = kNone, defect_index = 0, valid_numel = prod_list ds\<rparr>
   else defect (ValidateDims ds) \<in> {kRankTooLarge, kNegativeDim, kNumelOverflow}"
proof -
  have "(if 0 \<in> set ds then 0 else prod_list ds) = prod_list ds" by (simp add: prod_list_zero_iff)
  then show ?thesis
    using validate_loop_exact [of 1 ds 0 False]
    by (auto simp: ValidateDims_def valid_dims_def INT64_MAX_def split: if_splits)
qed

lemma FromDims_error: "\<not> valid_dims ds \<Longrightarrow> FromDims ds = InvalidArgumentError"
  using ValidateDims_exact [of ds] by (auto simp: FromDims_def)

lemma Shape_ctor_error: "\<not> valid_dims ds \<Longrightarrow> Shape_ctor ds = Inl CheckFailed"
  using ValidateDims_exact [of ds] by (auto simp: Shape_ctor_def Let_def)

lemma Shape_ok:
  assumes "valid_dims ds"
  shows FromDims_ok: "FromDims ds = Inr \<lparr>dims = ds, numel = prod_list ds\<rparr>"
    and Shape_ctor_ok: "Shape_ctor ds = Inr \<lparr>dims = ds, numel = prod_list ds\<rparr>"
  using ValidateDims_exact [of ds] push_back_all_ok [of "[]" ds] assms
  by (simp_all add: FromDims_def Shape_ctor_def valid_dims_def)

section \<open>Strides and contiguity\<close>

definition max1_product :: "int list \<Rightarrow> int" where
  "max1_product ds = prod_list (map (\<lambda>d. max d 1) ds)"

lemma max1_product_simps [simp]:
  "max1_product [] = 1" "max1_product (d # ds) = max d 1 * max1_product ds"
  "max1_product (rev ds) = max1_product ds"
  by (simp_all add: max1_product_def rev_map [symmetric])

lemma max1_product_nonzero: "\<forall>d\<in>set ds. 0 \<le> d \<Longrightarrow> max1_product ds = nonzero_product ds"
  by (induction ds) (auto simp: max_def)

lemma max1_product_pos: "\<forall>d\<in>set ds. 1 \<le> d \<Longrightarrow> max1_product ds = prod_list ds"
  by (induction ds) (auto simp: max_def)

lemma row_major_loop_append:
  "row_major_loop (xs @ ys) r = row_major_loop xs r @ row_major_loop ys (r * max1_product xs)"
  by (induction xs r rule: row_major_loop.induct) (simp_all add: mult.assoc)

fun strides_of :: "int list \<Rightarrow> int list" where
  "strides_of [] = []"
| "strides_of (d # ds) = max1_product ds # strides_of ds"

lemma RowMajorStrides_eq: "RowMajorStrides s = strides_of (dims s)"
proof -
  have "rev (row_major_loop (rev ds) 1) = strides_of ds" for ds
    by (induction ds) (simp_all add: row_major_loop_append)
  then show ?thesis by (simp add: RowMajorStrides_def)
qed

lemma length_strides_of [simp]: "length (strides_of ds) = length ds"
  by (induction ds) auto

lemma strides_of_bounds:
  "\<forall>d\<in>set ds. 0 \<le> d \<Longrightarrow> s \<in> set (strides_of ds) \<Longrightarrow> 1 \<le> s \<and> s \<le> nonzero_product ds"
proof (induction ds)
  case (Cons d ds)
  have nn: "\<forall>d\<in>set ds. 0 \<le> d" using Cons.prems by simp
  have pos: "1 \<le> nonzero_product ds" by (rule nonzero_product_pos [OF nn])
  have grow: "nonzero_product ds \<le> nonzero_product (d # ds)"
    using mult_right_mono [of 1 "if d = 0 then 1 else d" "nonzero_product ds"] pos Cons.prems(1) by auto
  from Cons.prems(2) consider "s = nonzero_product ds" | "s \<in> set (strides_of ds)"
    using max1_product_nonzero [OF nn] by auto
  then have "1 \<le> s \<and> s \<le> nonzero_product ds" using Cons.IH [OF nn] pos by cases auto
  then show ?case using grow by (meson order_trans)
qed simp

lemma contiguous_loop_append:
  "contiguous_loop (xs @ ys) e \<longleftrightarrow> contiguous_loop xs e \<and> contiguous_loop ys (e * prod_list (map fst xs))"
  by (induction xs e rule: contiguous_loop.induct) (auto simp: mult.assoc)

lemma prod_list_rev: "prod_list (rev xs) = prod_list (xs :: int list)"
  by (induction xs) (simp_all add: mult.commute)

lemma contiguous_loop_Cons:
  assumes "length ds = length ss"
  shows "contiguous_loop (rev (zip (d # ds) (s # ss))) 1 \<longleftrightarrow>
    contiguous_loop (rev (zip ds ss)) 1 \<and> (d = 1 \<or> s = prod_list ds)"
  using assms by (auto simp: contiguous_loop_append rev_map [symmetric] prod_list_rev)

lemma index_in_Cons [simp]:
  "index_in [] is \<longleftrightarrow> is = []"
  "index_in (d # ds) is \<longleftrightarrow> (\<exists>i js. is = i # js \<and> 0 \<le> i \<and> i < d \<and> index_in ds js)"
  by (auto simp: index_in_def list_all2_Cons1)

lemma contiguous_offset:
  "length ds = length ss \<Longrightarrow> contiguous_loop (rev (zip ds ss)) 1 \<Longrightarrow> index_in ds is \<Longrightarrow>
   offset_of is ss = row_major_rank ds is"
proof (induction ds ss arbitrary: "is" rule: list_induct2)
  case (Cons d ds s ss)
  then obtain i js where "is": "is = i # js" "0 \<le> i" "i < d" "index_in ds js" by auto
  have c: "contiguous_loop (rev (zip ds ss)) 1" "d = 1 \<or> s = prod_list ds"
    using Cons.prems(1) contiguous_loop_Cons [OF Cons.hyps] by auto
  then have "i * s = i * prod_list ds" using "is" by auto
  then show ?case using Cons.IH [OF c(1) "is"(4)] "is"(1) by simp
qed simp

lemma zero_index:
  "\<forall>d\<in>set ds. 1 \<le> d \<Longrightarrow> index_in ds (replicate (length ds) 0)"
  "offset_of (replicate n 0) ss = 0" "row_major_rank ds (replicate n 0) = 0"
proof -
  show "\<forall>d\<in>set ds. 1 \<le> d \<Longrightarrow> index_in ds (replicate (length ds) 0)" by (induction ds) auto
  show "offset_of (replicate n 0) ss = 0"
    by (induction n arbitrary: ss) (auto, case_tac ss, auto)
  show "row_major_rank ds (replicate n 0) = 0"
    by (induction n arbitrary: ds) (auto, case_tac ds, auto)
qed

lemma offset_contiguous:
  assumes "length ds = length ss" and "\<forall>d\<in>set ds. 1 \<le> d"
    and "\<And>is. index_in ds is \<Longrightarrow> offset_of is ss = row_major_rank ds is"
  shows "contiguous_loop (rev (zip ds ss)) 1"
  using assms
proof (induction ds ss rule: list_induct2)
  case (Cons d ds s ss)
  have "contiguous_loop (rev (zip ds ss)) 1"
  proof (rule Cons.IH)
    show "offset_of is ss = row_major_rank ds is" if "index_in ds is" for "is"
      using Cons.prems(1) Cons.prems(2) [of "0 # is"] that by simp
  qed (use Cons.prems in simp)
  moreover have "s = prod_list ds" if "d \<noteq> 1"
    using Cons.prems(2) [of "1 # replicate (length ds) 0"] Cons.prems(1) that zero_index by simp
  ultimately show ?case using contiguous_loop_Cons [OF Cons.hyps] by blast
qed simp

lemma row_major_rank_bounds:
  "index_in ds is \<Longrightarrow> 0 \<le> row_major_rank ds is \<and> row_major_rank ds is < prod_list ds"
proof (induction ds arbitrary: "is")
  case (Cons d ds)
  then obtain i js where "is": "is = i # js" "0 \<le> i" "i < d" "index_in ds js" by auto
  have r: "0 \<le> row_major_rank ds js" "row_major_rank ds js < prod_list ds" using Cons.IH "is"(4) by auto
  have "(i + 1) * prod_list ds \<le> d * prod_list ds" using "is"(3) r by (intro mult_right_mono) auto
  then show ?case using r "is"(1,2) by (simp add: distrib_right)
qed simp

lemma row_major_rank_inj:
  "index_in ds is \<Longrightarrow> index_in ds js \<Longrightarrow> row_major_rank ds is = row_major_rank ds js \<Longrightarrow> is = js"
proof (induction ds arbitrary: "is" js)
  case (Cons d ds)
  then obtain i is' j js' where l: "is = i # is'" "index_in ds is'" "js = j # js'" "index_in ds js'" by auto
  have "i = j \<and> row_major_rank ds is' = row_major_rank ds js'"
    using Cons.prems(3) l row_major_rank_bounds [OF l(2)] row_major_rank_bounds [OF l(4)]
    by (intro div_mod_slot_inj [of _ "prod_list ds"]) auto
  then show ?case using Cons.IH l by auto
qed simp

lemma positive_dims:
  "valid_dims ds \<Longrightarrow> prod_list ds \<noteq> 0 \<Longrightarrow> \<forall>d\<in>set ds. 1 \<le> d"
  by (auto simp: valid_dims_def prod_list_zero_iff) (metis int_one_le_iff_zero_less order_le_less)

lemma strides_of_contiguous:
  "\<forall>d\<in>set ds. 1 \<le> d \<Longrightarrow> contiguous_loop (rev (zip ds (strides_of ds))) 1"
proof (induction ds)
  case (Cons d ds)
  then show ?case
    using contiguous_loop_Cons [of ds "strides_of ds" d "max1_product ds"] by (simp add: max1_product_pos)
qed simp

section \<open>Properties\<close>

text \<open>Both ways to build a shape accept exactly the lists of at most eight non-negative dims whose
  product (over the non-zero ones) fits \<open>int64\<close>, cache the exact element count, and differ only in how
  they refuse: data gets InvalidArgument, a literal aborts. The row-major strides of an accepted shape
  all lie between 1 and the int64 maximum.\<close>

theorem shape_validation_exact:
  "FromDims ds = (if valid_dims ds then Inr \<lparr>dims = ds, numel = prod_list ds\<rparr> else InvalidArgumentError) \<and>
   Shape_ctor ds = (if valid_dims ds then Inr \<lparr>dims = ds, numel = prod_list ds\<rparr> else Inl CheckFailed) \<and>
   (\<forall>s t. FromDims ds = Inr s \<longrightarrow> t \<in> set (RowMajorStrides s) \<longrightarrow> 1 \<le> t \<and> t \<le> INT64_MAX)"
proof -
  have "1 \<le> t \<and> t \<le> INT64_MAX" if "valid_dims ds" "t \<in> set (strides_of ds)" for t
    using strides_of_bounds [of ds t] that by (auto simp: valid_dims_def)
  then show ?thesis
    by (auto simp: FromDims_ok Shape_ctor_ok FromDims_error Shape_ctor_error RowMajorStrides_eq
        split: if_splits)
qed

theorem shape_validation_exact_witness:
  "FromDims [2, 0, 3] = Inr \<lparr>dims = [2, 0, 3], numel = 0\<rparr> \<and>
   FromDims [4611686018427387904, 2] = InvalidArgumentError \<and>
   (3::int) \<in> set (RowMajorStrides \<lparr>dims = [2, 0, 3], numel = 0\<rparr>) \<and> (3::int) \<le> INT64_MAX"
proof -
  have "valid_dims [2, 0, 3]" "\<not> valid_dims [4611686018427387904, 2]"
    "(3::int) \<in> set (RowMajorStrides \<lparr>dims = [2, 0, 3], numel = 0\<rparr>)" by code_simp+
  then show ?thesis
    using shape_validation_exact [of "[2, 0, 3]"] shape_validation_exact [of "[4611686018427387904, 2]"]
    by simp
qed

text \<open>A layout with at least one element is contiguous exactly when the offset of every in-range
  index tuple is its row-major rank; ranks fill \<open>[0, numel)\<close> without collisions, so a contiguous
  tensor is a dense array, and the strides \<open>RowMajorStrides\<close> computes are always contiguous.\<close>

theorem contiguous_iff_dense:
  assumes "FromDims ds = Inr s" and "numel s \<noteq> 0" and "length strides = length ds"
  shows "IsContiguous s strides = Inr (\<forall>is. index_in ds is \<longrightarrow> offset_of is strides = row_major_rank ds is) \<and>
    (\<forall>is js. index_in ds is \<and> index_in ds js \<longrightarrow>
      0 \<le> row_major_rank ds is \<and> row_major_rank ds is < numel s \<and>
      (row_major_rank ds is = row_major_rank ds js \<longrightarrow> is = js)) \<and>
    IsContiguous s (RowMajorStrides s) = Inr True"
proof -
  have v: "valid_dims ds" and s: "s = \<lparr>dims = ds, numel = prod_list ds\<rparr>"
    using assms(1) FromDims_error [of ds] FromDims_ok [of ds] by (cases "valid_dims ds"; simp)+
  have pos: "\<forall>d\<in>set ds. 1 \<le> d" using positive_dims [OF v] assms(2) s by simp
  have "contiguous_loop (rev (zip ds strides)) 1 \<longleftrightarrow>
      (\<forall>is. index_in ds is \<longrightarrow> offset_of is strides = row_major_rank ds is)"
    using contiguous_offset [of ds strides] offset_contiguous [of ds strides] pos assms(3) by auto
  then have "IsContiguous s strides = Inr (\<forall>is. index_in ds is \<longrightarrow> offset_of is strides = row_major_rank ds is)"
    using assms(2,3) s by (simp add: IsContiguous_def rank_def)
  moreover have "IsContiguous s (RowMajorStrides s) = Inr True"
    using assms(2) s strides_of_contiguous [OF pos] by (simp add: IsContiguous_def rank_def RowMajorStrides_eq)
  moreover have "numel s = prod_list ds" using s by simp
  ultimately show ?thesis using row_major_rank_bounds row_major_rank_inj by metis
qed

theorem contiguous_iff_dense_witness:
  "IsContiguous \<lparr>dims = [2, 3], numel = 6\<rparr> [3, 1] = Inr True \<and> offset_of [1, 2] [3, 1] = 5 \<and>
   row_major_rank [2, 3] [1, 2] = 5 \<and> index_in [2, 3] [1, 2]"
proof -
  have f: "FromDims [2, 3] = Inr \<lparr>dims = [2, 3], numel = 6\<rparr>" by code_simp
  have r: "RowMajorStrides \<lparr>dims = [2, 3], numel = 6\<rparr> = [3, 1]" by code_simp
  have "IsContiguous \<lparr>dims = [2, 3], numel = 6\<rparr> (RowMajorStrides \<lparr>dims = [2, 3], numel = 6\<rparr>) = Inr True"
    by (rule contiguous_iff_dense [OF f, of "[3, 1]", THEN conjunct2, THEN conjunct2]) simp_all
  then have "IsContiguous \<lparr>dims = [2, 3], numel = 6\<rparr> [3, 1] = Inr True" unfolding r .
  then show ?thesis by simp
qed

end
