(* ===== verification/Device.thy ===== *)
theory Device
  imports Prelude
begin

text \<open>
  Device specifications, \<open>src/src/tensor/device.h\<close>: the value type with its construction checks, its
  printer and its parser. The decimal printer and \<open>std::from_chars\<close> on \<open>int\<close> are standard-library
  behaviour modelled here because other parsers of the engine use them too.
\<close>

section \<open>Decimal numbers\<close>

definition digit_char :: "nat \<Rightarrow> char" where "digit_char n = char_of (48 + n)"

definition is_digit :: "char \<Rightarrow> bool" where
  "is_digit c \<longleftrightarrow> 48 \<le> (of_char c :: nat) \<and> (of_char c :: nat) \<le> 57"

definition digit_value :: "char \<Rightarrow> nat" where "digit_value c = of_char c - 48"

fun show_nat :: "nat \<Rightarrow> string" where
  "show_nat n = (if n < 10 then [digit_char n] else show_nat (n div 10) @ [digit_char (n mod 10)])"

declare show_nat.simps [simp del]

definition dec_value :: "string \<Rightarrow> nat" where
  "dec_value ds = foldl (\<lambda>v c. v * 10 + digit_value c) 0 ds"

text \<open>\<open>std::from_chars(first, last, int&)\<close>, base 10: an optional minus sign and the longest run of
  digits. \<open>None\<close> stands for both error codes (no digits, out of range); otherwise the value and the
  unparsed rest.\<close>

definition from_chars_int :: "string \<Rightarrow> (int \<times> string) option" where
  "from_chars_int s =
     (let neg = (s \<noteq> [] \<and> hd s = CHR ''-''); body = (if neg then tl s else s);
          ds = takeWhile is_digit body; rest = dropWhile is_digit body;
          v = (if neg then - int (dec_value ds) else int (dec_value ds)) in
      if ds = [] then None
      else if v < - INT32_MAX - 1 \<or> INT32_MAX < v then None
      else Some (v, rest))"

section \<open>Devices\<close>

datatype DeviceType = kCPU | kCUDA

fun device_type_to_string :: "DeviceType \<Rightarrow> string" where
  "device_type_to_string kCPU = ''cpu''"
| "device_type_to_string kCUDA = ''cuda''"

record Device =
  dev_type :: DeviceType
  dev_index :: int

definition Device_ctor :: "DeviceType \<Rightarrow> int \<Rightarrow> Device status_or" where
  "Device_ctor ty i =
     (if \<not> 0 \<le> i then Inl CheckFailed
      else if \<not> (ty \<noteq> kCPU \<or> i = 0) then Inl CheckFailed
      else Inr \<lparr>dev_type = ty, dev_index = i\<rparr>)"

definition Cpu :: Device where "Cpu = \<lparr>dev_type = kCPU, dev_index = 0\<rparr>"

definition Cuda :: "int \<Rightarrow> Device status_or" where "Cuda i = Device_ctor kCUDA i"

definition is_cpu :: "Device \<Rightarrow> bool" where "is_cpu d \<longleftrightarrow> dev_type d = kCPU"
definition is_cuda :: "Device \<Rightarrow> bool" where "is_cuda d \<longleftrightarrow> dev_type d = kCUDA"

definition Device_Parse :: "string \<Rightarrow> Device status_or" where
  "Device_Parse spec =
     (let kCuda = device_type_to_string kCUDA in
      if spec = device_type_to_string kCPU then Inr Cpu
      else if spec = kCuda then Cuda 0
      else if length kCuda + 1 < length spec \<and> take (length kCuda) spec = kCuda \<and>
              spec ! length kCuda = CHR '':'' then
        (case from_chars_int (drop (length kCuda + 1) spec) of
           Some (index, rest) \<Rightarrow> if rest = [] \<and> 0 \<le> index then Cuda index else InvalidArgumentError
         | None \<Rightarrow> InvalidArgumentError)
      else InvalidArgumentError)"

definition Device_ToString :: "Device \<Rightarrow> string" where
  "Device_ToString d =
     (if dev_type d = kCPU then device_type_to_string (dev_type d)
      else device_type_to_string (dev_type d) @ '':'' @ show_nat (nat (dev_index d)))"

text \<open>What every constructed device satisfies: the index is a non-negative \<open>int\<close>, 0 on the CPU.\<close>

definition device_wf :: "Device \<Rightarrow> bool" where
  "device_wf d \<longleftrightarrow> 0 \<le> dev_index d \<and> dev_index d \<le> INT32_MAX \<and> (dev_type d = kCPU \<longrightarrow> dev_index d = 0)"

section \<open>Lemmas\<close>

lemma of_char_digit: "n < 10 \<Longrightarrow> (of_char (digit_char n) :: nat) = 48 + n"
  by (simp add: digit_char_def)

lemma digit_char_facts [simp]:
  "n < 10 \<Longrightarrow> is_digit (digit_char n)" "n < 10 \<Longrightarrow> digit_value (digit_char n) = n"
  by (simp_all add: is_digit_def digit_value_def of_char_digit)

lemma dec_value_snoc [simp]: "dec_value (ds @ [c]) = dec_value ds * 10 + digit_value c"
  by (simp add: dec_value_def)

lemma show_nat_facts: "show_nat n \<noteq> [] \<and> (\<forall>c\<in>set (show_nat n). is_digit c) \<and> dec_value (show_nat n) = n"
proof (induction n rule: show_nat.induct)
  case (1 n)
  show ?case
  proof (cases "n < 10")
    case True
    then show ?thesis by (simp add: show_nat.simps [of n] dec_value_def)
  next
    case False
    then show ?thesis using 1 by (auto simp: show_nat.simps [of n])
  qed
qed

lemma not_digit_minus: "\<not> is_digit CHR ''-''"
  by (simp add: is_digit_def)

lemma from_chars_show:
  assumes "int n \<le> INT32_MAX"
  shows "from_chars_int (show_nat n) = Some (int n, [])"
proof -
  have f: "show_nat n \<noteq> []" "\<forall>c\<in>set (show_nat n). is_digit c" "dec_value (show_nat n) = n"
    using show_nat_facts by auto
  have hd: "hd (show_nat n) \<noteq> CHR ''-''" using f(1,2) not_digit_minus by (metis hd_in_set)
  have tw: "takeWhile is_digit (show_nat n) = show_nat n" "dropWhile is_digit (show_nat n) = []"
    using f(2) by auto
  show ?thesis using f hd assms by (simp add: from_chars_int_def tw Let_def INT32_MAX_def)
qed

lemma from_chars_range: "from_chars_int s = Some (v, rest) \<Longrightarrow> v \<le> INT32_MAX"
  by (auto simp: from_chars_int_def Let_def split: if_splits)

text \<open>Device specs round-trip: a well-formed device prints to a spec that parses back to it, and
  whatever parses is well-formed (non-negative \<open>int\<close> index, 0 on the CPU), so no accepted text can
  trip the constructor's \<open>CHECK\<close>; everything else is InvalidArgument.\<close>

theorem device_spec_roundtrip:
  "(device_wf d \<longrightarrow> Device_Parse (Device_ToString d) = Inr d) \<and>
   (case Device_Parse spec of Inr d' \<Rightarrow> device_wf d' | Inl e \<Rightarrow> e = Status kInvalidArgument)"
proof
  show "device_wf d \<longrightarrow> Device_Parse (Device_ToString d) = Inr d"
  proof
    assume wf: "device_wf d"
    show "Device_Parse (Device_ToString d) = Inr d"
    proof (cases "dev_type d")
      case kCPU
      then show ?thesis using wf
        by (simp add: Device_ToString_def Device_Parse_def device_wf_def Cpu_def Let_def)
    next
      case kCUDA
      let ?s = "show_nat (nat (dev_index d))"
      have "from_chars_int ?s = Some (dev_index d, [])"
        using from_chars_show [of "nat (dev_index d)"] wf by (simp add: device_wf_def)
      moreover have "?s \<noteq> []" using show_nat_facts by blast
      ultimately show ?thesis using wf kCUDA
        by (simp add: Device_ToString_def Device_Parse_def Cuda_def Device_ctor_def device_wf_def Let_def
            numeral_nat)
    qed
  qed
  show "case Device_Parse spec of Inr d' \<Rightarrow> device_wf d' | Inl e \<Rightarrow> e = Status kInvalidArgument"
    by (auto simp: Device_Parse_def Cuda_def Device_ctor_def Cpu_def device_wf_def Let_def INT32_MAX_def
        dest!: from_chars_range split: option.splits prod.splits)
qed

theorem device_spec_roundtrip_witness:
  "Device_Parse (Device_ToString \<lparr>dev_type = kCUDA, dev_index = 12\<rparr>) = Inr \<lparr>dev_type = kCUDA, dev_index = 12\<rparr> \<and>
   device_wf \<lparr>dev_type = kCUDA, dev_index = 12\<rparr> \<and> Device_Parse ''cpu:0'' = InvalidArgumentError"
proof -
  have wf: "device_wf \<lparr>dev_type = kCUDA, dev_index = 12\<rparr>" by code_simp
  have "Device_Parse ''cpu:0'' = InvalidArgumentError" by code_simp
  then show ?thesis using device_spec_roundtrip [of "\<lparr>dev_type = kCUDA, dev_index = 12\<rparr>" "''''"] wf by blast
qed

end
