(* ===== verification/Tensor.thy ===== *)
theory Tensor
  imports Shape Device
begin

text \<open>
  Tensors as views onto shared storage, \<open>src/src/tensor/tensor.{h,cpp}\<close>. The buffer is a value of type
  \<open>'b\<close> (its bytes as the reader of the view sees them); \<open>None\<close> is the undefined handle. A buffer read
  as floats is a list of floats. The views \<open>slice\<close>, \<open>reshape\<close>, \<open>to\<close> and \<open>view_as_dtype\<close> change only the
  metadata, as in the code, and share the buffer.
\<close>

section \<open>State\<close>

record 'b Tensor =
  t_buffer :: "'b option"
  t_byte_offset :: int
  t_shape :: Shape
  t_strides :: Strides
  t_dtype :: DataType
  t_device :: Device

definition defined :: "'b Tensor \<Rightarrow> bool" where "defined t \<longleftrightarrow> t_buffer t \<noteq> None"

definition is_contiguous :: "'b Tensor \<Rightarrow> bool status_or" where
  "is_contiguous t = IsContiguous (t_shape t) (t_strides t)"

section \<open>Factories\<close>

text \<open>\<open>allocate\<close> is the passed allocator (or the process default), of device \<open>alloc_device\<close>: it turns a
  byte count into a buffer or an error.\<close>

definition Tensor_empty ::
  "Device \<Rightarrow> (int \<Rightarrow> 'b status_or) \<Rightarrow> Shape \<Rightarrow> DataType \<Rightarrow> Device \<Rightarrow> 'b Tensor status_or" where
  "Tensor_empty alloc_device allocate sh dt device =
     (if IsReservedDataType dt then UnimplementedError
      else if is_cuda device then UnimplementedError
      else if alloc_device \<noteq> device then Inl CheckFailed
      else case itemsize dt of
        Inl e \<Rightarrow> Inl e
      | Inr isz \<Rightarrow>
          (case mul_overflow (numel sh) isz of
             None \<Rightarrow> InvalidArgumentError
           | Some bytes \<Rightarrow>
               (case allocate bytes of
                  Inl e \<Rightarrow> Inl e
                | Inr buf \<Rightarrow>
                    Inr \<lparr>t_buffer = Some buf, t_byte_offset = 0, t_shape = sh,
                         t_strides = RowMajorStrides sh, t_dtype = dt, t_device = device\<rparr>)))"

text \<open>\<open>Tensor::from_buffer\<close> on a buffer of \<open>size_bytes\<close> bytes living on \<open>device\<close>; the window check
  is \<open>from_buffer\<close> of \<open>Tensor_Types\<close>.\<close>

definition Tensor_from_buffer ::
  "'b \<Rightarrow> int \<Rightarrow> Device \<Rightarrow> int \<Rightarrow> Shape \<Rightarrow> DataType \<Rightarrow> 'b Tensor status_or" where
  "Tensor_from_buffer buf size_bytes device byte_offset sh dt =
     (case from_buffer size_bytes byte_offset (numel sh) dt of
        Inl e \<Rightarrow> Inl e
      | Inr _ \<Rightarrow> Inr \<lparr>t_buffer = Some buf, t_byte_offset = byte_offset, t_shape = sh,
                     t_strides = RowMajorStrides sh, t_dtype = dt, t_device = device\<rparr>)"

text \<open>\<open>ops::zeros\<close> through \<open>ops::full\<close> with element type f32 on the CPU, the only way the caches call it:
  a fresh tensor whose \<open>numel\<close> elements are set to zero.\<close>

definition zeros_f32 :: "(int \<Rightarrow> 'f list status_or) \<Rightarrow> Shape \<Rightarrow> ('f :: zero) list Tensor status_or" where
  "zeros_f32 allocate sh =
     (case Tensor_empty Cpu allocate sh kFloat32 Cpu of
        Inl e \<Rightarrow> Inl e
      | Inr t \<Rightarrow>
          if numel sh = 0 then Inr t
          else case t_buffer t of
            None \<Rightarrow> Inl CheckFailed
          | Some buf \<Rightarrow>
              if int (length buf) < numel sh then Inl OutOfBounds
              else Inr (t\<lparr>t_buffer := Some (replicate (nat (numel sh)) 0 @ drop (nat (numel sh)) buf)\<rparr>))"

section \<open>Views\<close>

definition slice :: "'b Tensor \<Rightarrow> int \<Rightarrow> int \<Rightarrow> int \<Rightarrow> 'b Tensor status_or" where
  "slice t dm start stop =
     (if \<not> defined t then Inl CheckFailed
      else if dm < 0 \<or> rank (t_shape t) \<le> dm then InvalidArgumentError
      else case dim (t_shape t) dm of
        Inl e \<Rightarrow> Inl e
      | Inr d \<Rightarrow>
          if start < 0 \<or> stop < start \<or> d < stop then InvalidArgumentError
          else case FromDims ((dims (t_shape t))[nat dm := stop - start]) of
            Inl e \<Rightarrow> Inl e
          | Inr new_shape \<Rightarrow>
              (case DimVector_at (t_strides t) dm of
                 Inl e \<Rightarrow> Inl e
               | Inr st \<Rightarrow>
                   (case itemsize (t_dtype t) of
                      Inl e \<Rightarrow> Inl e
                    | Inr isz \<Rightarrow>
                        Inr (t\<lparr>t_byte_offset := t_byte_offset t + start * st * isz,
                               t_shape := new_shape\<rparr>))))"

definition reshape :: "'b Tensor \<Rightarrow> Shape \<Rightarrow> 'b Tensor status_or" where
  "reshape t new_shape =
     (if \<not> defined t then Inl CheckFailed
      else if numel new_shape \<noteq> numel (t_shape t) then InvalidArgumentError
      else case is_contiguous t of
        Inl e \<Rightarrow> Inl e
      | Inr c \<Rightarrow>
          if \<not> c then InvalidArgumentError
          else Inr (t\<lparr>t_shape := new_shape, t_strides := RowMajorStrides new_shape\<rparr>))"

definition to_device :: "'b Tensor \<Rightarrow> Device \<Rightarrow> 'b Tensor status_or" where
  "to_device t device =
     (if \<not> defined t then Inl CheckFailed
      else case is_contiguous t of
        Inl e \<Rightarrow> Inl e
      | Inr c \<Rightarrow>
          if \<not> c then InvalidArgumentError
          else if device = t_device t then Inr t
          else UnimplementedError)"

definition view_as_dtype :: "'b Tensor \<Rightarrow> DataType \<Rightarrow> 'b Tensor status_or" where
  "view_as_dtype t dt =
     (if \<not> defined t then Inl CheckFailed
      else if IsReservedDataType dt then UnimplementedError
      else if itemsize_bits dt \<noteq> itemsize_bits (t_dtype t) then InvalidArgumentError
      else Inr (t\<lparr>t_dtype := dt\<rparr>))"

section \<open>Element access\<close>

text \<open>\<open>data_ptr<float>()\<close>: what the pointer can reach, the floats from the view's byte offset to the
  end of the buffer. A misaligned or out-of-range pointer may not be dereferenced.\<close>

definition data_ptr_f32 :: "'f list Tensor \<Rightarrow> 'f list status_or" where
  "data_ptr_f32 t =
     (if t_dtype t \<noteq> kFloat32 then Inl CheckFailed
      else case t_buffer t of
        None \<Rightarrow> Inl CheckFailed
      | Some buf \<Rightarrow>
          if t_byte_offset t < 0 \<or> t_byte_offset t mod 4 \<noteq> 0 then Inl OutOfBounds
          else Inr (drop (nat (t_byte_offset t div 4)) buf))"

fun item_offset :: "(int \<times> int \<times> int) list \<Rightarrow> int \<Rightarrow> int status_or" where
  "item_offset [] acc = Inr acc"
| "item_offset ((index, d, stride) # rest) acc =
     (if \<not> (0 \<le> index \<and> index < d) then Inl CheckFailed else item_offset rest (acc + index * stride))"

definition item_f32 :: "'f list Tensor \<Rightarrow> int list \<Rightarrow> 'f status_or" where
  "item_f32 t indices =
     (if \<not> is_cpu (t_device t) then Inl CheckFailed
      else if int (length indices) \<noteq> rank (t_shape t) then Inl CheckFailed
      else case item_offset (zip indices (zip (dims (t_shape t)) (t_strides t))) 0 of
        Inl e \<Rightarrow> Inl e
      | Inr off \<Rightarrow>
          (case data_ptr_f32 t of
             Inl e \<Rightarrow> Inl e
           | Inr fs \<Rightarrow> if off < 0 \<or> int (length fs) \<le> off then Inl OutOfBounds else Inr (fs ! nat off)))"

section \<open>Well-formed float tensors\<close>

text \<open>The shape came out of validation, the strides are non-negative, the element type is f32 and the
  offset is aligned: what \<open>Tensor_empty\<close> establishes and the views keep.\<close>

definition tensor_wf :: "'f list Tensor \<Rightarrow> bool" where
  "tensor_wf t \<longleftrightarrow> defined t \<and> FromDims (dims (t_shape t)) = Inr (t_shape t) \<and>
     length (t_strides t) = length (dims (t_shape t)) \<and> (\<forall>s\<in>set (t_strides t). 0 \<le> s) \<and>
     t_dtype t = kFloat32 \<and> is_cpu (t_device t) \<and> 0 \<le> t_byte_offset t \<and> t_byte_offset t mod 4 = 0"

lemma FromDims_cases:
  assumes "FromDims ds = Inr s"
  shows "valid_dims ds" and "dims s = ds" and "numel s = prod_list ds"
  using assms FromDims_error [of ds] FromDims_ok [of ds] by (cases "valid_dims ds"; auto)+

lemma item_offset_ok:
  "length ds = length ss \<Longrightarrow> index_in ds is \<Longrightarrow>
   item_offset (zip is (zip ds ss)) acc = Inr (acc + offset_of is ss)"
  by (induction ds ss arbitrary: "is" acc rule: list_induct2) (auto simp: add.assoc)

lemma index_in_length: "index_in ds is \<Longrightarrow> length is = length ds"
  by (simp add: index_in_def list_all2_lengthD)

lemma offset_of_nonneg:
  "\<forall>s\<in>set ss. 0 \<le> s \<Longrightarrow> \<forall>i\<in>set is. 0 \<le> i \<Longrightarrow> 0 \<le> offset_of is ss"
  by (induction "is" ss rule: offset_of.induct) auto

lemma index_in_nonneg: "index_in ds is \<Longrightarrow> \<forall>i\<in>set is. 0 \<le> i"
  by (auto simp: index_in_def list_all2_conv_all_nth in_set_conv_nth)

lemma offset_of_update:
  "length is = length ss \<Longrightarrow> k < length ss \<Longrightarrow>
   offset_of (is[k := is ! k + a]) ss = offset_of is ss + a * ss ! k"
proof (induction "is" ss arbitrary: k rule: list_induct2)
  case (Cons i "is" s ss)
  then show ?case by (cases k) (simp_all add: distrib_right)
qed simp

lemma item_f32_at:
  assumes "tensor_wf t" and "index_in (dims (t_shape t)) is" and "t_buffer t = Some buf"
  shows "item_f32 t is =
    (let k = t_byte_offset t div 4 + offset_of is (t_strides t) in
     if int (length buf) \<le> k then Inl OutOfBounds else Inr (buf ! nat k))"
proof -
  let ?o = "offset_of is (t_strides t)" and ?b = "t_byte_offset t div 4"
  have o: "0 \<le> ?o" using assms(1) index_in_nonneg [OF assms(2)]
    by (intro offset_of_nonneg) (auto simp: tensor_wf_def)
  have b: "0 \<le> ?b" using assms(1) by (auto simp: tensor_wf_def pos_imp_zdiv_nonneg_iff)
  have "item_offset (zip is (zip (dims (t_shape t)) (t_strides t))) 0 = Inr ?o"
    using item_offset_ok [of "dims (t_shape t)" "t_strides t"] assms by (simp add: tensor_wf_def)
  moreover have "data_ptr_f32 t = Inr (drop (nat ?b) buf)"
    using assms by (simp add: tensor_wf_def data_ptr_f32_def)
  moreover have "int (length (drop (nat ?b) buf)) \<le> ?o \<longleftrightarrow> int (length buf) \<le> ?b + ?o" using b o by auto
  moreover have "drop (nat ?b) buf ! nat ?o = buf ! nat (?b + ?o)"
    if "\<not> int (length buf) \<le> ?b + ?o" using that b o by (simp add: nth_drop nat_add_distrib)
  ultimately show ?thesis
    using assms o index_in_length [OF assms(2)] by (simp add: item_f32_def tensor_wf_def rank_def Let_def)
qed

lemma nonzero_product_mono:
  "list_all2 (\<lambda>a b. 0 \<le> a \<and> a \<le> b) xs ys \<Longrightarrow> nonzero_product xs \<le> nonzero_product ys"
proof (induction rule: list_all2_induct)
  case (Cons x xs y ys)
  have "\<forall>d\<in>set ys. 0 \<le> d" "\<forall>d\<in>set xs. 0 \<le> d" using Cons.hyps
    by (force simp: list_all2_conv_all_nth in_set_conv_nth)+
  then have "1 \<le> nonzero_product ys" "1 \<le> nonzero_product xs" by (auto intro: nonzero_product_pos)
  moreover have "(if x = 0 then 1 else x) \<le> (if y = 0 then 1 else y)" using Cons.hyps(1) by auto
  ultimately have "(if x = 0 then 1 else x) * nonzero_product xs \<le> (if y = 0 then 1 else y) * nonzero_product ys"
    using Cons.hyps(1) Cons.IH by (intro mult_mono) auto
  then show ?case by simp
qed simp

lemma slice_ok:
  assumes wf: "tensor_wf t" and "0 \<le> dm" and "dm < rank (t_shape t)"
    and "0 \<le> start" and "start \<le> stop" and "stop \<le> dims (t_shape t) ! nat dm"
  obtains sh where "FromDims ((dims (t_shape t))[nat dm := stop - start]) = Inr sh"
    and "slice t dm start stop = Inr (t\<lparr>t_byte_offset := t_byte_offset t + start * (t_strides t ! nat dm) * 4, t_shape := sh\<rparr>)"
    and "tensor_wf (t\<lparr>t_byte_offset := t_byte_offset t + start * (t_strides t ! nat dm) * 4, t_shape := sh\<rparr>)"
proof -
  let ?ds = "dims (t_shape t)" and ?k = "nat dm"
  have v: "valid_dims ?ds" using wf FromDims_cases(1) by (auto simp: tensor_wf_def)
  have k: "?k < length ?ds" "?k < length (t_strides t)" using assms by (auto simp: rank_def tensor_wf_def)
  have nn: "\<forall>d\<in>set ?ds. 0 \<le> d" using v by (simp add: valid_dims_def)
  have "list_all2 (\<lambda>a b. 0 \<le> a \<and> a \<le> b) (?ds[?k := stop - start]) ?ds"
    using nn k assms(4-6) by (auto simp: list_all2_conv_all_nth nth_list_update)
  then have "nonzero_product (?ds[?k := stop - start]) \<le> nonzero_product ?ds" by (rule nonzero_product_mono)
  moreover have "\<forall>d\<in>set (?ds[?k := stop - start]). 0 \<le> d"
    using nn assms(5) set_update_subset_insert [of ?ds ?k "stop - start"] by auto
  ultimately have v': "valid_dims (?ds[?k := stop - start])" using v by (auto simp: valid_dims_def)
  define sh where "sh = \<lparr>dims = ?ds[?k := stop - start], numel = prod_list (?ds[?k := stop - start])\<rparr>"
  have f: "FromDims (?ds[?k := stop - start]) = Inr sh" using FromDims_ok [OF v'] by (simp add: sh_def)
  have st: "0 \<le> t_strides t ! ?k" using wf k(2) nth_mem by (auto simp: tensor_wf_def)
  show thesis
  proof (rule that [OF f])
    show "slice t dm start stop = Inr (t\<lparr>t_byte_offset := t_byte_offset t + start * (t_strides t ! ?k) * 4, t_shape := sh\<rparr>)"
      using assms k f by (auto simp: slice_def tensor_wf_def dim_def DimVector_at_def rank_def)
    show "tensor_wf (t\<lparr>t_byte_offset := t_byte_offset t + start * (t_strides t ! ?k) * 4, t_shape := sh\<rparr>)"
      using wf st f assms(4) by (auto simp: tensor_wf_def defined_def sh_def)
  qed
qed

section \<open>Properties\<close>

text \<open>A slice is a window onto the same storage: it is refused exactly when the dim or the range is
  out of bounds, and element \<open>is\<close> of the slice is the element of the original whose index along the
  sliced dim is shifted by \<open>start\<close>.\<close>

theorem slice_is_window:
  assumes "tensor_wf t" and "0 \<le> dm" and "dm < rank (t_shape t)"
  shows "case slice t dm start stop of
     Inr u \<Rightarrow> 0 \<le> start \<and> start \<le> stop \<and> stop \<le> dims (t_shape t) ! nat dm \<and> tensor_wf u \<and>
       t_buffer u = t_buffer t \<and> dims (t_shape u) = (dims (t_shape t))[nat dm := stop - start] \<and>
       (\<forall>is. index_in (dims (t_shape u)) is \<longrightarrow>
          item_f32 u is = item_f32 t (is[nat dm := is ! nat dm + start]))
   | Inl e \<Rightarrow> e = Status kInvalidArgument \<and> (start < 0 \<or> stop < start \<or> dims (t_shape t) ! nat dm < stop)"
proof (cases "0 \<le> start \<and> start \<le> stop \<and> stop \<le> dims (t_shape t) ! nat dm")
  case False
  then show ?thesis using assms by (auto simp: slice_def tensor_wf_def dim_def DimVector_at_def rank_def)
next
  case True
  let ?ds = "dims (t_shape t)" and ?k = "nat dm" and ?st = "t_strides t ! nat dm"
  obtain sh where sh: "FromDims (?ds[?k := stop - start]) = Inr sh"
    "slice t dm start stop = Inr (t\<lparr>t_byte_offset := t_byte_offset t + start * ?st * 4, t_shape := sh\<rparr>)"
    "tensor_wf (t\<lparr>t_byte_offset := t_byte_offset t + start * ?st * 4, t_shape := sh\<rparr>)"
    using slice_ok [OF assms] True by metis
  define u where "u = t\<lparr>t_byte_offset := t_byte_offset t + start * ?st * 4, t_shape := sh\<rparr>"
  have u: "tensor_wf u" "t_buffer u = t_buffer t" "t_strides u = t_strides t"
    "dims (t_shape u) = ?ds[?k := stop - start]" "t_byte_offset u div 4 = t_byte_offset t div 4 + start * ?st"
    using sh FromDims_cases(2) [OF sh(1)] assms(1) by (auto simp: u_def tensor_wf_def)
  obtain buf where buf: "t_buffer t = Some buf" using assms(1) by (auto simp: tensor_wf_def defined_def)
  have "item_f32 u is = item_f32 t (is[?k := is ! ?k + start])" if i: "index_in (dims (t_shape u)) is" for "is"
  proof -
    have len: "length is = length (t_strides t)" using index_in_length [OF i] assms(1) u by (simp add: tensor_wf_def)
    have k: "?k < length (t_strides t)" using assms by (auto simp: tensor_wf_def rank_def)
    have i': "index_in ?ds (is[?k := is ! ?k + start])"
      using i True k len by (auto simp: u(4) index_in_def list_all2_conv_all_nth nth_list_update)
    show ?thesis
      using item_f32_at [OF u(1) i] item_f32_at [OF assms(1) i'] buf u offset_of_update [OF len k]
      by (simp add: Let_def ac_simps)
  qed
  then show ?thesis using sh(2) True u by (simp add: u_def [symmetric])
qed

text \<open>A 2 by 3 tensor holding 0 to 5, for the witnesses.\<close>

definition sample_tensor :: "int list Tensor" where
  "sample_tensor = \<lparr>t_buffer = Some [0, 1, 2, 3, 4, 5], t_byte_offset = 0,
     t_shape = \<lparr>dims = [2, 3], numel = 6\<rparr>, t_strides = [3, 1], t_dtype = kFloat32, t_device = Cpu\<rparr>"

lemma sample_tensor_wf: "tensor_wf sample_tensor"
  by code_simp

theorem slice_is_window_witness:
  "\<exists>u. slice sample_tensor 1 1 3 = Inr u \<and> item_f32 u [1, 0] = Inr 4 \<and>
     item_f32 u [1, 0] = item_f32 sample_tensor [1, 1]"
proof -
  have r: "(0::int) \<le> 1" "1 < rank (t_shape sample_tensor)" by code_simp+
  obtain u where u: "slice sample_tensor 1 1 3 = Inr u" "item_f32 u [1, 0] = Inr 4" "dims (t_shape u) = [2, 2]"
    by (rule that [of "projr (slice sample_tensor 1 1 3)"]) code_simp+
  have "index_in (dims (t_shape u)) [1, 0]" using u(3) by simp
  then have "item_f32 u [1, 0] = item_f32 sample_tensor ([1, 0][nat 1 := [1, 0] ! nat 1 + 1])"
    using slice_is_window [OF sample_tensor_wf r, of 1 3] unfolding u(1) sum.case by blast
  then show ?thesis using u by auto
qed

text \<open>Reshaping is free and order-preserving: it succeeds exactly on contiguous tensors with the
  same element count, keeps the storage, and the elements with equal row-major rank are equal, so
  reading the tensor in row-major order gives the same sequence.\<close>

theorem reshape_keeps_order:
  assumes "tensor_wf t" and "FromDims ds' = Inr sh" and "numel (t_shape t) \<noteq> 0"
  shows "case reshape t sh of
     Inr u \<Rightarrow> numel sh = numel (t_shape t) \<and> is_contiguous t = Inr True \<and> is_contiguous u = Inr True \<and>
       t_buffer u = t_buffer t \<and>
       (\<forall>is js. index_in (dims (t_shape t)) is \<and> index_in ds' js \<and>
          row_major_rank (dims (t_shape t)) is = row_major_rank ds' js \<longrightarrow> item_f32 t is = item_f32 u js)
   | Inl e \<Rightarrow> e = Status kInvalidArgument \<and> (numel sh \<noteq> numel (t_shape t) \<or> is_contiguous t = Inr False)"
proof -
  let ?ds = "dims (t_shape t)"
  have t: "FromDims ?ds = Inr (t_shape t)" "length (t_strides t) = length ?ds" using assms(1) by (auto simp: tensor_wf_def)
  have c: "is_contiguous t = Inr (contiguous_loop (rev (zip ?ds (t_strides t))) 1)"
    using t(2) assms(3) by (simp add: is_contiguous_def IsContiguous_def rank_def)
  show ?thesis
  proof (cases "numel sh = numel (t_shape t) \<and> contiguous_loop (rev (zip ?ds (t_strides t))) 1")
    case False
    then show ?thesis using assms(1) c by (auto simp: reshape_def tensor_wf_def)
  next
    case True
    define u where "u = t\<lparr>t_shape := sh, t_strides := RowMajorStrides sh\<rparr>"
    have r: "reshape t sh = Inr u" using True assms(1) c by (simp add: reshape_def u_def tensor_wf_def)
    have sh: "valid_dims ds'" "dims sh = ds'" "numel sh = prod_list ds'" using FromDims_cases [OF assms(2)] by auto
    have pos: "\<forall>d\<in>set ds'. 1 \<le> d" using positive_dims [OF sh(1)] sh(3) True assms(3) by simp
    have cu: "contiguous_loop (rev (zip ds' (strides_of ds'))) 1" by (rule strides_of_contiguous [OF pos])
    have "\<forall>s\<in>set (strides_of ds'). 0 \<le> s"
      using strides_of_bounds [of ds'] sh(1) by (fastforce simp: valid_dims_def)
    then have wfu: "tensor_wf u"
      using assms(1,2) sh by (auto simp: tensor_wf_def defined_def u_def RowMajorStrides_eq)
    have "item_f32 t is = item_f32 u js" if h: "index_in ?ds is \<and> index_in ds' js \<and>
          row_major_rank ?ds is = row_major_rank ds' js" for "is" js
    proof -
      obtain buf where buf: "t_buffer t = Some buf" using assms(1) by (auto simp: tensor_wf_def defined_def)
      have "offset_of is (t_strides t) = offset_of js (t_strides u)"
        using contiguous_offset [of ?ds "t_strides t" "is"] contiguous_offset [of ds' "strides_of ds'" js]
          t(2) True cu h sh(2) by (simp add: u_def RowMajorStrides_eq)
      then show ?thesis using item_f32_at [OF assms(1) _ buf, of "is"] item_f32_at [OF wfu, of js buf] h buf sh(2)
        by (simp add: u_def)
    qed
    moreover have "is_contiguous u = Inr True"
      using cu sh by (simp add: u_def is_contiguous_def IsContiguous_def rank_def RowMajorStrides_eq)
    moreover have "t_buffer u = t_buffer t" by (simp add: u_def)
    ultimately show ?thesis using r True c by simp
  qed
qed

theorem reshape_keeps_order_witness:
  "\<exists>u. reshape sample_tensor \<lparr>dims = [3, 2], numel = 6\<rparr> = Inr u \<and> item_f32 u [2, 0] = Inr 4"
proof -
  have f: "FromDims [3, 2] = Inr \<lparr>dims = [3, 2], numel = 6\<rparr>" by code_simp
  have n: "numel (t_shape sample_tensor) \<noteq> 0" by code_simp
  obtain u where u: "reshape sample_tensor \<lparr>dims = [3, 2], numel = 6\<rparr> = Inr u"
    by (rule that [of "projr (reshape sample_tensor \<lparr>dims = [3, 2], numel = 6\<rparr>)"]) code_simp
  have "index_in (dims (t_shape sample_tensor)) [1, 1]" "index_in [3, 2] [2, 0]"
    "row_major_rank (dims (t_shape sample_tensor)) [1, 1] = row_major_rank [3, 2] [2, 0]" by code_simp+
  then have "item_f32 sample_tensor [1, 1] = item_f32 u [2, 0]"
    using reshape_keeps_order [OF sample_tensor_wf f n] unfolding u sum.case by blast
  moreover have "item_f32 sample_tensor [1, 1] = Inr 4" by code_simp
  ultimately show ?thesis using u by simp
qed

end
