(* ===== verification/Parallel.thy ===== *)
theory Parallel
  imports Prelude
begin

text \<open>
  Deterministic data parallelism, \<open>src/src/parallel/parallel_for.{h,cpp}\<close> and the chunk assignment of
  \<open>ThreadPool::WorkerLoop\<close> (\<open>thread_pool.cpp\<close>). A region is run by executing its chunks in some order
  \<open>ord\<close> in which every worker executes its own chunks in its own order; chunks are atomic steps.
  Mutexes, condition variables and the creation of threads are not modelled.

  The lemmas show that the chunks partition the index range whatever the thread count, that
  \<open>parallel_for\<close> with commuting items equals the sequential loop for every admissible order (the
  locale \<open>commuting_items\<close>), and that \<open>parallel_reduce\<close> does not depend on the order at all.
\<close>

section \<open>Partitioning\<close>

definition CeilDiv :: "int \<Rightarrow> int \<Rightarrow> int" where
  "CeilDiv n d = n div d + (if n mod d \<noteq> 0 then 1 else 0)"

definition chunk_range :: "int \<Rightarrow> int \<Rightarrow> int \<Rightarrow> int \<times> int" where
  "chunk_range n grain chunk = (let b = chunk * grain in (b, min (b + grain) n))"

text \<open>The chunks worker \<open>w\<close> of \<open>num_threads\<close> executes: \<open>w, w + T, w + 2T, \<dots>\<close> below \<open>num_chunks\<close>.
  A pool has at least one thread (its constructor checks it).\<close>

function worker_chunks :: "nat \<Rightarrow> nat \<Rightarrow> nat \<Rightarrow> nat list" where
  "worker_chunks num_threads num_chunks chunk =
     (if chunk < num_chunks \<and> 0 < num_threads
      then chunk # worker_chunks num_threads num_chunks (chunk + num_threads) else [])"
  by pat_completeness auto
termination by (relation "measure (\<lambda>(T, n, c). n - c)") auto

declare worker_chunks.simps [simp del]

text \<open>An admissible global order of the chunks: an interleaving of the workers' lists.\<close>

definition region_order :: "nat \<Rightarrow> nat \<Rightarrow> nat list \<Rightarrow> bool" where
  "region_order num_threads num_chunks ord \<longleftrightarrow>
     (\<forall>c\<in>set ord. c < num_chunks) \<and>
     (\<forall>w<num_threads. filter (\<lambda>c. c mod num_threads = w) ord = worker_chunks num_threads num_chunks w)"

text \<open>A loop over fallible steps.\<close>

fun fold_ok :: "('a \<Rightarrow> 's \<Rightarrow> 's status_or) \<Rightarrow> 'a list \<Rightarrow> 's \<Rightarrow> 's status_or" where
  "fold_ok f [] s = Inr s"
| "fold_ok f (x # xs) s = (case f x s of Inl e \<Rightarrow> Inl e | Inr s' \<Rightarrow> fold_ok f xs s')"

definition parallel_for ::
  "nat list \<Rightarrow> int \<Rightarrow> int \<Rightarrow> (int \<Rightarrow> int \<Rightarrow> 's \<Rightarrow> 's status_or) \<Rightarrow> 's \<Rightarrow> 's status_or" where
  "parallel_for ord n grain body s =
     (if \<not> 0 \<le> n then Inl CheckFailed
      else if \<not> 1 \<le> grain then Inl CheckFailed
      else if n = 0 then Inr s
      else
        let num_chunks = CeilDiv n grain in
        if num_chunks \<le> 1 then body 0 n s
        else fold_ok (\<lambda>chunk. case chunk_range n grain (int chunk) of (b, e) \<Rightarrow> body b e) ord s)"

text \<open>\<open>parallel_reduce\<close>: the partials by chunk index, written in the order \<open>ord\<close> into default
  slots, then the halving tree over the slots. \<open>reduce_pass\<close> is one pass of the while loop.\<close>

definition reduce_pass :: "('t \<Rightarrow> 't \<Rightarrow> 't) \<Rightarrow> 't list \<Rightarrow> 't list" where
  "reduce_pass combine xs =
     (let half = length xs div 2 in
      map (\<lambda>i. combine (xs ! i) (xs ! (i + half))) [0..<half] @
      (if odd (length xs) then [last xs] else []))"

lemma length_reduce_pass: "length (reduce_pass combine xs) = length xs div 2 + length xs mod 2"
  by (simp add: reduce_pass_def Let_def odd_iff_mod_2_eq_one)

lemma half_up_less: "1 < n \<Longrightarrow> n div 2 + n mod 2 < (n::nat)"
  by presburger

function reduce_tree :: "('t \<Rightarrow> 't \<Rightarrow> 't) \<Rightarrow> 't list \<Rightarrow> 't list" where
  "reduce_tree combine xs = (if 1 < length xs then reduce_tree combine (reduce_pass combine xs) else xs)"
  by pat_completeness auto

termination by (relation "measure (\<lambda>(c, xs). length xs)") (auto simp: length_reduce_pass half_up_less)

declare reduce_tree.simps [simp del]

definition parallel_reduce ::
  "nat list \<Rightarrow> int \<Rightarrow> int \<Rightarrow> 't \<Rightarrow> (int \<Rightarrow> int \<Rightarrow> 't) \<Rightarrow> ('t \<Rightarrow> 't \<Rightarrow> 't) \<Rightarrow> 't \<Rightarrow> 't status_or" where
  "parallel_reduce ord n grain identity partial combine dflt =
     (if \<not> 0 \<le> n then Inl CheckFailed
      else if \<not> 1 \<le> grain then Inl CheckFailed
      else if n = 0 then Inr identity
      else
        let num_chunks = CeilDiv n grain in
        if num_chunks \<le> 1 then Inr (partial 0 n)
        else
          let slots = fold (\<lambda>chunk slots. slots[chunk := (case chunk_range n grain (int chunk) of (b, e) \<Rightarrow> partial b e)])
                ord (replicate (nat num_chunks) dflt) in
          case reduce_tree combine slots of [] \<Rightarrow> Inl OutOfBounds | r # _ \<Rightarrow> Inr r)"

section \<open>The chunks partition the range\<close>

lemma CeilDiv_eq: "0 < d \<Longrightarrow> CeilDiv n d = ceil_div n d"
proof -
  assume d: "0 < d"
  show ?thesis
  proof (cases "n mod d = 0")
    case True
    then obtain k where k: "n = k * d" by (metis mod_0_imp_dvd dvd_div_mult_self)
    have "ceil_div n d = (k * d + (d - 1)) div d" by (simp add: ceil_div_def k algebra_simps)
    also have "\<dots> = k" using d by (simp add: div_add1_eq)
    finally show ?thesis using d k by (simp add: CeilDiv_def)
  next
    case False
    have m: "0 < n mod d" "n mod d < d" using False pos_mod_sign [OF d, of n] pos_mod_bound [OF d, of n] by linarith+
    have "n = (n div d) * d + n mod d" by simp
    then have eq: "n + d - 1 = (n mod d - 1) + (n div d + 1) * d" by (simp add: algebra_simps)
    have "ceil_div n d = (n div d + 1) + (n mod d - 1) div d"
      unfolding ceil_div_def eq by (rule div_mult_self1) (use d in simp)
    then show ?thesis using m False by (simp add: CeilDiv_def div_pos_pos_trivial)
  qed
qed

lemma set_worker_chunks:
  "0 < T \<Longrightarrow> set (worker_chunks T n w) = {c. w \<le> c \<and> c < n \<and> c mod T = w mod T}"
proof (induction T n w rule: worker_chunks.induct)
  case (1 T n w)
  show ?case
  proof (cases "w < n")
    case False
    then show ?thesis by (auto simp: worker_chunks.simps [of T n w])
  next
    case True
    have "c = w \<or> w + T \<le> c" if "w \<le> c" "c mod T = w mod T" for c
    proof -
      have "T dvd c - w" using that by (simp add: mod_eq_dvd_iff_nat)
      then obtain k where "c - w = T * k" by (rule dvdE)
      then have "c = w + T * k" using that(1) by simp
      then show ?thesis by (cases k) auto
    qed
    then show ?thesis using 1 True by (auto simp: worker_chunks.simps [of T n w])
  qed
qed

lemma distinct_worker_chunks: "0 < T \<Longrightarrow> distinct (worker_chunks T n w)"
proof (induction T n w rule: worker_chunks.induct)
  case (1 T n w)
  then show ?case by (subst worker_chunks.simps) (auto simp: set_worker_chunks)
qed

text \<open>Whatever the number of workers, an admissible order runs every chunk exactly once.\<close>

lemma region_order_perm:
  assumes "0 < T" and "region_order T n ord"
  shows "mset ord = mset [0..<n]"
proof -
  have "count (mset ord) c = (if c < n then 1 else 0)" for c
  proof -
    let ?w = "c mod T"
    have w: "?w < T" using assms(1) by simp
    have f: "filter (\<lambda>x. x mod T = ?w) ord = worker_chunks T n ?w" using assms(2) w by (auto simp: region_order_def)
    have "count (mset ord) c = count (mset (filter (\<lambda>x. x mod T = ?w) ord)) c" by simp
    also have "\<dots> = (if c \<in> set (worker_chunks T n ?w) then 1 else 0)"
      unfolding f using distinct_worker_chunks [OF assms(1)] by (metis distinct_count_atmost_1)
    also have "\<dots> = (if c < n then 1 else 0)" using assms(1) by (auto simp: set_worker_chunks)
    finally show ?thesis .
  qed
  then show ?thesis by (intro multiset_eqI) (simp add: distinct_count_atmost_1 count_mset_0_iff)
qed

lemma chunk_ranges_concat:
  assumes "1 \<le> grain" and "0 \<le> n" and "int m \<le> ceil_div n grain"
  shows "concat (map (\<lambda>c. case chunk_range n grain (int c) of (b, e) \<Rightarrow> [b..e - 1]) [0..<m]) =
    [0..min (int m * grain) n - 1]"
  using assms(3)
proof (induction m)
  case 0
  then show ?case using assms by (simp add: min_def)
next
  case (Suc m)
  have "\<not> ceil_div n grain \<le> int m" using Suc.prems by simp
  then have lt: "int m * grain < n" using ceil_div_le_iff [of grain n "int m"] assms(1) by auto
  have "[0..int m * grain - 1] @ [int m * grain..min (int m * grain + grain) n - 1] =
      [0..min (int m * grain + grain) n - 1]"
    using upto_split1 [of 0 "int m * grain" "min (int m * grain + grain) n - 1"] assms lt
    by (cases "int m * grain \<le> min (int m * grain + grain) n - 1") auto
  then show ?case using Suc lt
    by (cases "int m * grain + grain \<le> n") (auto simp: chunk_range_def Let_def min_def algebra_simps)
qed

section \<open>Commuting items\<close>

text \<open>The contract of a \<open>parallel_for\<close> body that processes its range item by item: on the states it
  works on, each item succeeds with a known effect and different items commute (in the kernels,
  because they write disjoint memory). \<open>size s\<close> is the number of items.\<close>

locale commuting_items =
  fixes item :: "int \<Rightarrow> 's \<Rightarrow> 's status_or"
    and eff :: "int \<Rightarrow> 's \<Rightarrow> 's"
    and size :: "'s \<Rightarrow> int"
    and ok :: "'s \<Rightarrow> bool"
  assumes item_ok: "ok s \<Longrightarrow> 0 \<le> i \<Longrightarrow> i < size s \<Longrightarrow> item i s = Inr (eff i s)"
    and eff_ok: "ok s \<Longrightarrow> 0 \<le> i \<Longrightarrow> i < size s \<Longrightarrow> ok (eff i s) \<and> size (eff i s) = size s"
    and commute: "ok s \<Longrightarrow> 0 \<le> i \<Longrightarrow> i < size s \<Longrightarrow> 0 \<le> j \<Longrightarrow> j < size s \<Longrightarrow> i \<noteq> j \<Longrightarrow>
      eff i (eff j s) = eff j (eff i s)"
begin

lemma fold_items:
  "ok s \<Longrightarrow> \<forall>i\<in>set is. 0 \<le> i \<and> i < size s \<Longrightarrow>
   fold_ok item is s = Inr (fold eff is s) \<and> ok (fold eff is s) \<and> size (fold eff is s) = size s"
  by (induction "is" arbitrary: s) (simp_all add: item_ok eff_ok)

lemma fold_move_front:
  assumes "ok s" and "\<forall>i\<in>set is. 0 \<le> i \<and> i < size s" and "0 \<le> j" "j < size s" and "j \<notin> set is"
  shows "fold eff is (eff j s) = eff j (fold eff is s)"
  using assms
proof (induction "is" arbitrary: s)
  case (Cons i "is")
  then have "eff i (eff j s) = eff j (eff i s)" by (intro commute) auto
  then show ?case using Cons eff_ok [OF Cons.prems(1), of i] by simp
qed simp

lemma fold_perm:
  assumes "ok s" and "\<forall>i\<in>set is. 0 \<le> i \<and> i < size s" and "distinct is" and "mset is = mset js"
  shows "fold eff is s = fold eff js s"
  using assms
proof (induction "is" arbitrary: js s)
  case (Cons i "is")
  then have "i \<in> set js" by (metis list.set_intros(1) mset_eq_setD)
  then obtain xs ys where js: "js = xs @ i # ys" by (metis split_list)
  have m: "mset is = mset (xs @ ys)" using Cons.prems(4) js by simp
  have d: "distinct js" using Cons.prems(3,4) by (metis mset_eq_imp_distinct_iff)
  have r: "\<forall>k\<in>set xs. 0 \<le> k \<and> k < size s" "0 \<le> i" "i < size s"
    using Cons.prems(2,4) js by (metis Un_iff mset_eq_setD set_append, auto)
  have "fold eff is (eff i s) = fold eff (xs @ ys) (eff i s)"
    using Cons.prems eff_ok [OF Cons.prems(1) r(2,3)] m by (intro Cons.IH) auto
  also have "\<dots> = fold eff js s"
    using fold_move_front [OF Cons.prems(1) r] d js by simp
  finally show ?case by simp
qed simp

lemma fold_ok_concat:
  "fold_ok (\<lambda>c. fold_ok item (f c)) cs s = fold_ok item (concat (map f cs)) s"
proof -
  have "fold_ok item (xs @ ys) s = (case fold_ok item xs s of Inl e \<Rightarrow> Inl e | Inr s' \<Rightarrow> fold_ok item ys s')"
    for xs ys :: "int list" and s
    by (induction xs arbitrary: s) (auto split: sum.splits)
  then show ?thesis by (induction cs arbitrary: s) (auto split: sum.splits)
qed

lemma parallel_for_sequential:
  assumes s: "ok s" and n: "n = size s" "0 \<le> n" and g: "1 \<le> grain"
    and T: "0 < T" "region_order T (nat (CeilDiv n grain)) ord"
  shows "parallel_for ord n grain (\<lambda>b e. fold_ok item [b..e - 1]) s = Inr (fold eff [0..n - 1] s)"
proof -
  let ?m = "nat (CeilDiv n grain)"
  let ?f = "\<lambda>c. case chunk_range n grain (int c) of (b, e) \<Rightarrow> [b..e - 1]"
  have cd: "CeilDiv n grain = ceil_div n grain" using g by (simp add: CeilDiv_eq)
  have m: "int ?m = ceil_div n grain" using cd ceil_div_nonneg [of grain n] g n(2) by simp
  have seq: "fold_ok item [0..n - 1] s = Inr (fold eff [0..n - 1] s)" using fold_items [OF s] n by simp
  have "n \<le> int ?m * grain" using ceil_div_le [of grain n] g m by simp
  then have all: "concat (map ?f [0..<?m]) = [0..n - 1]"
    using chunk_ranges_concat [of grain n ?m] g n(2) m by (simp add: min_def)
  have perm: "mset (concat (map ?f ord)) = mset [0..n - 1]"
    unfolding all [symmetric] mset_concat by (metis (no_types) mset_map region_order_perm [OF T] sum_mset_sum_list)
  have "set (concat (map ?f ord)) = {0..n - 1}" using mset_eq_setD [OF perm] by (simp only: set_upto)
  then have "\<forall>i\<in>set (concat (map ?f ord)). 0 \<le> i \<and> i < size s" unfolding n(1) by (simp only: atLeastAtMost_iff) auto
  from fold_items [OF s this] have "fold_ok item (concat (map ?f ord)) s = Inr (fold eff (concat (map ?f ord)) s)" ..
  moreover have "fold eff [0..n - 1] s = fold eff (concat (map ?f ord)) s"
    using s n perm by (intro fold_perm) auto
  moreover have "(\<lambda>chunk. case chunk_range n grain (int chunk) of (b, e) \<Rightarrow> fold_ok item [b..e - 1]) =
      (\<lambda>c. fold_ok item (?f c))" by (auto simp: fun_eq_iff split: prod.splits)
  ultimately show ?thesis using g n(2) seq fold_ok_concat [of ?f ord s]
    by (cases "n = 0") (simp_all add: parallel_for_def Let_def)
qed

end

section \<open>Reduction\<close>

lemma length_fold_slots [simp]: "length (fold (\<lambda>c slots. slots[c := f c]) ord slots) = length slots"
  by (induction ord arbitrary: slots) auto

lemma fold_slots:
  "\<forall>c\<in>set ord. c < length slots \<Longrightarrow> i < length slots \<Longrightarrow>
   fold (\<lambda>c slots. slots[c := f c]) ord slots ! i = (if i \<in> set ord then f i else slots ! i)"
  by (induction ord arbitrary: slots) (auto simp: nth_list_update)

lemma fold_slots_all:
  assumes "mset ord = mset [0..<n]"
  shows "fold (\<lambda>c slots. slots[c := f c]) ord (replicate n d) = map f [0..<n]"
proof -
  have "set ord = {0..<n}" using mset_eq_setD [OF assms] by simp
  then show ?thesis using fold_slots [of ord "replicate n d"] by (intro nth_equalityI) auto
qed

text \<open>Reading the slots left to right, an associative and commutative \<open>combine\<close> folds them all.\<close>

lemma reduce_tree_single [simp]: "reduce_tree combine [a] = [a]"
  by (subst reduce_tree.simps) simp

lemma reduce_tree_nonempty: "xs \<noteq> [] \<Longrightarrow> \<exists>r. reduce_tree combine xs = [r]"
proof (induction "length xs" arbitrary: xs rule: less_induct)
  case less
  show ?case
  proof (cases "1 < length xs")
    case True
    then have "length (reduce_pass combine xs) < length xs" "length (reduce_pass combine xs) \<noteq> 0"
      using length_reduce_pass [of combine xs] half_up_less [of "length xs"] by auto
    then show ?thesis using less.hyps [of "reduce_pass combine xs"] True
      by (simp add: reduce_tree.simps [of combine xs])
  next
    case False
    then show ?thesis using less.prems by (cases xs) auto
  qed
qed

lemma sum_list_reduce_pass:
  fixes xs :: "'a :: comm_monoid_add list"
  shows "sum_list (reduce_pass (+) xs) = sum_list xs"
proof -
  let ?h = "length xs div 2"
  have half: "sum_list (map (\<lambda>i. xs ! i + xs ! (i + ?h)) [0..<?h]) = sum_list (take (2 * ?h) xs)"
  proof -
    have a: "map (\<lambda>i. xs ! i) [0..<?h] = take ?h xs" by (rule nth_equalityI) auto
    have b: "map (\<lambda>i. xs ! (i + ?h)) [0..<?h] = take ?h (drop ?h xs)"
      by (rule nth_equalityI) (auto simp: add.commute)
    have "take (2 * ?h) xs = take ?h xs @ take ?h (drop ?h xs)" by (simp add: mult_2 take_add)
    then show ?thesis using a b by (simp add: sum_list_addf)
  qed
  show ?thesis
  proof (cases "odd (length xs)")
    case True
    then have "length xs = Suc (2 * ?h)" by presburger
    then have "xs = take (2 * ?h) xs @ [last xs]"
      by (metis append_butlast_last_id butlast_conv_take diff_Suc_1 length_0_conv nat.distinct(1))
    then show ?thesis using True half by (simp add: reduce_pass_def Let_def) (metis sum_list_append sum_list_simps add_0_right)
  next
    case False
    then have "2 * ?h = length xs" by presburger
    then show ?thesis using False half by (simp add: reduce_pass_def Let_def)
  qed
qed

lemma sum_list_reduce_tree:
  fixes xs :: "'a :: comm_monoid_add list"
  shows "sum_list (reduce_tree (+) xs) = sum_list xs"
proof (induction "length xs" arbitrary: xs rule: less_induct)
  case less
  then show ?case
    using length_reduce_pass [of "(+)" xs] sum_list_reduce_pass [of xs] half_up_less [of "length xs"] by (subst reduce_tree.simps) auto
qed

lemma CeilDiv_pos: "1 \<le> grain \<Longrightarrow> 0 < n \<Longrightarrow> \<not> CeilDiv n grain \<le> 0"
  using CeilDiv_eq [of grain n] ceil_div_le_iff [of grain n 0] by simp

lemma parallel_reduce_pooled:
  assumes "fold (\<lambda>chunk slots. slots[chunk := (case chunk_range n grain (int chunk) of (b, e) \<Rightarrow> p b e)])
      ord (replicate (nat (CeilDiv n grain)) d) = ps"
    and "reduce_tree c ps = [r]" "\<not> CeilDiv n grain \<le> 1" "1 \<le> grain" "0 < n"
  shows "parallel_reduce ord n grain i p c d = Inr (hd (reduce_tree c ps))"
  using assms by (simp add: parallel_reduce_def)

lemma parallel_reduce_eq:
  assumes "1 \<le> grain" and "0 < n" and "0 < T" and "region_order T (nat (CeilDiv n grain)) ord"
  shows "parallel_reduce ord n grain i p c d =
    Inr (hd (reduce_tree c (map (\<lambda>k. case chunk_range n grain (int k) of (b, e) \<Rightarrow> p b e) [0..<nat (CeilDiv n grain)])))"
proof (cases "CeilDiv n grain \<le> 1")
  case True
  then have one: "CeilDiv n grain = 1" using CeilDiv_pos [OF assms(1,2)] by linarith
  then have "n \<le> grain" using ceil_div_le [of grain n] CeilDiv_eq [of grain n] assms(1) by simp
  then show ?thesis using one assms(1,2) by (simp add: parallel_reduce_def chunk_range_def)
next
  case False
  let ?ps = "map (\<lambda>k. case chunk_range n grain (int k) of (b, e) \<Rightarrow> p b e) [0..<nat (CeilDiv n grain)]"
  have "nat (CeilDiv n grain) \<noteq> 0" using False by linarith
  then have "?ps \<noteq> []" by (simp only: map_is_Nil_conv upt_eq_Nil_conv) simp
  from reduce_tree_nonempty [OF this] obtain r where r: "reduce_tree c ?ps = [r]" ..
  show ?thesis
    by (rule parallel_reduce_pooled [OF fold_slots_all [OF region_order_perm [OF assms(3,4)]] r False assms(1,2)])
qed

text \<open>C15. \<open>parallel_reduce\<close> is deterministic: for every thread count and every interleaving of the
  workers' chunks it returns the same value, the halving tree over the chunk partials, and with
  addition in a commutative monoid that value is the sum of all partials.\<close>

theorem parallel_reduce_deterministic:
  assumes "1 \<le> grain" and "0 < n" and "0 < T" and "region_order T (nat (CeilDiv n grain)) ord"
  shows "parallel_reduce ord n grain identity part combine dflt = Inr (hd (reduce_tree combine
      (map (\<lambda>c. case chunk_range n grain (int c) of (b, e) \<Rightarrow> part b e) [0..<nat (CeilDiv n grain)]))) \<and>
    parallel_reduce ord n grain 0 psum (+) dsum =
      Inr (sum_list (map (\<lambda>c. case chunk_range n grain (int c) of (b, e) \<Rightarrow> psum b e) [0..<nat (CeilDiv n grain)])
           :: 'a :: comm_monoid_add)"
proof
  show "parallel_reduce ord n grain identity part combine dflt = Inr (hd (reduce_tree combine
      (map (\<lambda>c. case chunk_range n grain (int c) of (b, e) \<Rightarrow> part b e) [0..<nat (CeilDiv n grain)])))"
    by (rule parallel_reduce_eq [OF assms])
  let ?qs = "map (\<lambda>c. case chunk_range n grain (int c) of (b, e) \<Rightarrow> psum b e) [0..<nat (CeilDiv n grain)]"
  have "nat (CeilDiv n grain) \<noteq> 0" using CeilDiv_pos [OF assms(1,2)] by linarith
  then have "?qs \<noteq> []" by (simp only: map_is_Nil_conv upt_eq_Nil_conv) simp
  from reduce_tree_nonempty [OF this] obtain r where r: "reduce_tree (+) ?qs = [r]" ..
  have "sum_list (reduce_tree (+) ?qs) = sum_list ?qs" by (rule sum_list_reduce_tree)
  then have "hd (reduce_tree (+) ?qs) = sum_list ?qs" unfolding r by (simp only: sum_list_simps list.sel add_0_right)
  then show "parallel_reduce ord n grain 0 psum (+) dsum = Inr (sum_list ?qs)"
    by (subst parallel_reduce_eq [OF assms]) (rule arg_cong [of _ _ Inr])
qed

theorem parallel_reduce_deterministic_witness:
  "parallel_reduce [1, 0, 2] 5 2 0 (\<lambda>b e. sum_list [b..e - 1]) (+) 0 = Inr (10 :: int)"
proof -
  have o: "region_order 2 (nat (CeilDiv 5 2)) [1, 0, 2]"
    by (simp add: region_order_def CeilDiv_def worker_chunks.simps less_2_cases_iff all_conj_distrib)
  have p: "(1::int) \<le> 2" "(0::int) < 5" "(0::nat) < 2" by simp_all
  have "sum_list (map (\<lambda>c. case chunk_range 5 2 (int c) of (b, e) \<Rightarrow> sum_list [b..e - 1]) [0..<nat (CeilDiv 5 2)]) = (10 :: int)"
    by code_simp
  then show ?thesis
    using parallel_reduce_deterministic [OF p o, THEN conjunct2, of "\<lambda>b e. sum_list [b..e - 1]" "0::int"]
    by (simp only:)
qed

end
