(* ===== verification/Row_Memory.thy ===== *)
theory Row_Memory
  imports Parallel
begin

text \<open>
  Flat float memory seen as rows. \<open>copy_floats\<close> is the \<open>memcpy\<close> of the KV kernels and caches with the
  bounds of both arrays checked; \<open>row d xs r\<close> is the r-th row of \<open>d\<close> floats. The lemmas reduce every
  copy loop of the caches to \<open>put_rows\<close>, a list of row assignments, whose result on any row is a table
  lookup and does not depend on the order of the assignments when their targets are distinct.
\<close>

section \<open>Copies\<close>

definition copy_floats :: "'f list \<Rightarrow> int \<Rightarrow> 'f list \<Rightarrow> int \<Rightarrow> int \<Rightarrow> 'f list status_or" where
  "copy_floats dst dst_off src src_off n =
     (if dst_off < 0 \<or> src_off < 0 \<or> n < 0 \<or> int (length dst) < dst_off + n \<or> int (length src) < src_off + n
      then Inl OutOfBounds
      else Inr (take (nat dst_off) dst @ take (nat n) (drop (nat src_off) src) @ drop (nat (dst_off + n)) dst))"

definition row :: "nat \<Rightarrow> 'f list \<Rightarrow> nat \<Rightarrow> 'f list" where
  "row d xs r = take d (drop (r * d) xs)"

definition put_row :: "nat \<Rightarrow> 'f list \<Rightarrow> nat \<times> nat \<Rightarrow> 'f list \<Rightarrow> 'f list" where
  "put_row d src rq dst =
     (case rq of (r, q) \<Rightarrow> take (r * d) dst @ row d src q @ drop (r * d + d) dst)"

definition put_rows :: "nat \<Rightarrow> 'f list \<Rightarrow> (nat \<times> nat) list \<Rightarrow> 'f list \<Rightarrow> 'f list" where
  "put_rows d src prs dst = fold (put_row d src) prs dst"

section \<open>Rows\<close>

definition has_rows :: "nat \<Rightarrow> nat \<Rightarrow> 'f list \<Rightarrow> bool" where
  "has_rows d n xs \<longleftrightarrow> length xs = n * d"

definition covers_rows :: "nat \<Rightarrow> nat \<Rightarrow> 'f list \<Rightarrow> bool" where
  "covers_rows d n xs \<longleftrightarrow> n * d \<le> length xs"

lemma has_covers [simp, intro]: "has_rows d n xs \<Longrightarrow> covers_rows d n xs"
  by (simp add: has_rows_def covers_rows_def)

lemma row_bound: "r < n \<Longrightarrow> r * d + d \<le> n * (d::nat)"
  using mult_le_mono1 [of "Suc r" n d] by simp

lemma length_row: "covers_rows d n xs \<Longrightarrow> r < n \<Longrightarrow> length (row d xs r) = d"
  using row_bound [of r n d] by (simp add: row_def covers_rows_def)

lemma has_rowsD: "has_rows d n xs \<Longrightarrow> length xs = n * d"
  by (simp add: has_rows_def)

lemma put_row_has_rows:
  "has_rows d n dst \<Longrightarrow> covers_rows d m src \<Longrightarrow> r < n \<Longrightarrow> q < m \<Longrightarrow> has_rows d n (put_row d src (r, q) dst)"
  using row_bound [of r n d] length_row [of d m src q] by (simp add: has_rows_def put_row_def)

lemma row_split: "zs = row d zs 0 @ drop d zs"
  by (simp add: row_def)

lemma row_drop: "row d (drop d zs) r = row d zs (Suc r)"
  by (simp add: row_def add.commute)

lemma rows_ext:
  assumes "length xs = n * d" and "length ys = n * d" and "\<And>r. r < n \<Longrightarrow> row d xs r = row d ys r"
  shows "xs = ys"
  using assms
proof (induction n arbitrary: xs ys)
  case 0
  then show ?case by simp
next
  case (Suc n)
  have tl: "drop d xs = drop d ys"
  proof (rule Suc.IH)
    show "row d (drop d xs) r = row d (drop d ys) r" if "r < n" for r
      unfolding row_drop by (rule Suc.prems(3)) (use that in simp)
  qed (use Suc.prems(1,2) in simp_all)
  have "xs = row d xs 0 @ drop d xs" by (rule row_split)
  also have "\<dots> = row d ys 0 @ drop d ys" unfolding tl by (simp only: Suc.prems(3) [OF zero_less_Suc])
  also have "\<dots> = ys" by (rule row_split [symmetric])
  finally show ?case .
qed

lemma row_put_row:
  assumes "has_rows d n dst" and "covers_rows d m src" and "r < n" and "q < m" and "r' < n"
  shows "row d (put_row d src (r, q) dst) r' = (if r' = r then row d src q else row d dst r')"
proof -
  have len: "length (row d src q) = d" "length dst = n * d" using assms length_row by (auto simp: has_rows_def)
  have b: "r * d + d \<le> n * d" using row_bound [OF assms(3)] .
  have lt: "length (take (r * d) dst) = r * d" using b len(2) by simp
  consider "r' = r" | "r' < r" | "r < r'" by linarith
  then show ?thesis
  proof cases
    case 1
    then show ?thesis using len(1) lt by (simp add: row_def put_row_def)
  next
    case 2
    then have le: "r' * d + d \<le> r * d" by (rule row_bound)
    define R where "R = row d src q @ drop (r * d + d) dst"
    have "take d (drop (r' * d) (take (r * d) dst @ R)) = take d (drop (r' * d) (take (r * d) dst))"
      using le lt by simp
    also have "\<dots> = take d (drop (r' * d) dst)" using le by (simp add: drop_take min_absorb1)
    finally have "row d (put_row d src (r, q) dst) r' = row d dst r'"
      unfolding put_row_def prod.case row_def [of d dst] R_def [symmetric] by (simp only: row_def)
    then show ?thesis using 2 by simp
  next
    case 3
    then have "r * d + d \<le> r' * d" by (rule row_bound)
    then obtain k where k: "r' * d = r * d + d + k" by (metis le_iff_add)
    have "drop (r' * d) (take (r * d) dst @ row d src q @ drop (r * d + d) dst) = drop (r' * d) dst"
      unfolding k using len(1) lt by (simp add: ac_simps)
    then show ?thesis using 3 by (simp add: row_def put_row_def)
  qed
qed

lemma put_rows_append: "put_rows d src (xs @ ys) dst = put_rows d src ys (put_rows d src xs dst)"
  by (simp add: put_rows_def)

lemma put_rows_has_rows:
  "has_rows d n dst \<Longrightarrow> covers_rows d m src \<Longrightarrow> \<forall>(r, q)\<in>set prs. r < n \<and> q < m \<Longrightarrow>
   has_rows d n (put_rows d src prs dst)"
  by (induction prs arbitrary: dst) (auto simp: put_rows_def put_row_has_rows)

lemma row_put_rows:
  assumes "has_rows d n dst" and "covers_rows d m src" and "\<forall>(r, q)\<in>set prs. r < n \<and> q < m"
    and "distinct (map fst prs)" and "r' < n"
  shows "row d (put_rows d src prs dst) r' = (case map_of prs r' of Some q \<Rightarrow> row d src q | None \<Rightarrow> row d dst r')"
  using assms
proof (induction prs arbitrary: dst)
  case (Cons p prs)
  obtain r q where p: "p = (r, q)" by force
  have rq: "r < n" "q < m" using Cons.prems(3) p by auto
  have hr: "has_rows d n (put_row d src p dst)" unfolding p by (rule put_row_has_rows [OF Cons.prems(1,2) rq])
  have "row d (put_rows d src (p # prs) dst) r' = row d (put_rows d src prs (put_row d src p dst)) r'"
    by (simp add: put_rows_def)
  also have "\<dots> = (case map_of prs r' of Some q \<Rightarrow> row d src q | None \<Rightarrow> row d (put_row d src p dst) r')"
    using Cons.prems hr by (intro Cons.IH) auto
  also have "\<dots> = (case map_of (p # prs) r' of Some q \<Rightarrow> row d src q | None \<Rightarrow> row d dst r')"
    using Cons.prems(4) row_put_row [OF Cons.prems(1,2) rq Cons.prems(5)] p
    by (auto simp: map_of_eq_None_iff split: option.splits dest!: map_of_SomeD) (force+)?
  finally show ?case .
qed (simp add: put_rows_def)

lemma put_rows_perm:
  assumes "has_rows d n dst" and "covers_rows d m src" and "\<forall>(r, q)\<in>set prs. r < n \<and> q < m"
    and "distinct (map fst prs)" and "mset prs = mset prs'"
  shows "put_rows d src prs dst = put_rows d src prs' dst"
proof -
  have s: "set prs = set prs'" by (rule mset_eq_setD [OF assms(5)])
  have "mset (map fst prs) = mset (map fst prs')" using assms(5) by simp
  then have d': "distinct (map fst prs')" using assms(4) mset_eq_imp_distinct_iff by blast
  have m: "map_of prs = map_of prs'" by (rule map_of_inject_set [THEN iffD2, OF assms(4) d' s])
  have r': "\<forall>(r, q)\<in>set prs'. r < n \<and> q < m" using assms(3) s by simp
  show ?thesis
  proof (rule rows_ext)
    show "length (put_rows d src prs dst) = n * d" "length (put_rows d src prs' dst) = n * d"
      using put_rows_has_rows [OF assms(1,2)] assms(3) r' by (simp_all add: has_rows_def)
    show "row d (put_rows d src prs dst) r = row d (put_rows d src prs' dst) r" if "r < n" for r
      unfolding row_put_rows [OF assms(1-4) that] row_put_rows [OF assms(1,2) r' d' that] m ..
  qed
qed

section \<open>Copies as row assignments\<close>

lemma copy_floats_ok:
  assumes "dst_off + n \<le> length dst" and "src_off + n \<le> length src"
  shows "copy_floats dst (int dst_off) src (int src_off) (int n) =
    Inr (take dst_off dst @ take n (drop src_off src) @ drop (dst_off + n) dst)"
  using assms by (simp add: copy_floats_def nat_int_add)

text \<open>A copy of \<open>m\<close> consecutive rows assigns them one by one.\<close>

lemma put_consecutive_rows:
  assumes "has_rows d n dst" and "covers_rows d k src" and "r + m \<le> n" and "q + m \<le> k"
  shows "put_rows d src (map (\<lambda>i. (r + i, q + i)) [0..<m]) dst =
    take (r * d) dst @ take (m * d) (drop (q * d) src) @ drop (r * d + m * d) dst"
  using assms(3,4)
proof (induction m)
  case 0
  then show ?case by (simp add: put_rows_def)
next
  case (Suc m)
  let ?A = "take (r * d) dst" and ?B = "take (m * d) (drop (q * d) src)" and ?C = "drop (r * d + m * d) dst"
  have ld: "length dst = n * d" "k * d \<le> length src" using assms(1,2) by (auto simp: has_rows_def covers_rows_def)
  have rb: "(r + m) * d \<le> n * d" "(q + m) * d \<le> k * d" using Suc.prems by (intro mult_le_mono1; simp)+
  have AB: "length ?A = r * d" "length ?B = m * d"
    using rb ld by (simp_all add: distrib_right)
  have "put_row d src (r + m, q + m) (?A @ ?B @ ?C) = ?A @ (?B @ row d src (q + m)) @ drop d ?C"
    using AB by (simp add: put_row_def distrib_right add.assoc)
  moreover have "?B @ row d src (q + m) = take (Suc m * d) (drop (q * d) src)"
  proof -
    have "Suc m * d = m * d + d" by simp
    then show ?thesis
      by (simp only: row_def take_add drop_drop add_mult_distrib add.commute [of "q * d" "m * d"])
  qed
  moreover have "drop d ?C = drop (r * d + Suc m * d) dst" by (simp add: algebra_simps)
  ultimately show ?case using Suc by (simp add: put_rows_def)
qed

lemma copy_rows_ok:
  assumes "has_rows d n dst" and "covers_rows d k src" and "r + m \<le> n" and "q + m \<le> k"
  shows "copy_floats dst (int r * int d) src (int q * int d) (int m * int d) =
    Inr (put_rows d src (map (\<lambda>i. (r + i, q + i)) [0..<m]) dst)"
proof -
  have "(r + m) * d \<le> n * d" "(q + m) * d \<le> k * d" using assms(3,4) by (intro mult_le_mono1; simp)+
  then have "r * d + m * d \<le> length dst" "q * d + m * d \<le> length src"
    using assms(1,2) by (simp_all add: has_rows_def covers_rows_def distrib_right)
  then show ?thesis
    using copy_floats_ok [of "r * d" "m * d" dst "q * d" src]
    by (simp add: put_consecutive_rows [OF assms])
qed

lemma copy_row_ok:
  assumes "has_rows d n dst" and "covers_rows d k src" and "r < n" and "q < k"
  shows "copy_floats dst (int r * int d) src (int q * int d) (int d) = Inr (put_row d src (r, q) dst)"
  using copy_rows_ok [OF assms(1,2), of r 1 q] assms(3,4) by (simp add: put_rows_def)

text \<open>A loop of row copies is one batch of row assignments.\<close>

lemma fold_ok_put_rows:
  assumes "has_rows d n st" and "covers_rows d m src"
    and "\<And>x st. x \<in> set xs \<Longrightarrow> has_rows d n st \<Longrightarrow> f x st = Inr (put_rows d src (prs x) st)"
    and "\<And>x. x \<in> set xs \<Longrightarrow> \<forall>(r, q)\<in>set (prs x). r < n \<and> q < m"
  shows "fold_ok f xs st = Inr (put_rows d src (concat (map prs xs)) st)"
  using assms
proof (induction xs arbitrary: st)
  case (Cons x xs)
  have "has_rows d n (put_rows d src (prs x) st)"
    by (rule put_rows_has_rows [OF Cons.prems(1,2) Cons.prems(4)]) simp
  then have "fold_ok f xs (put_rows d src (prs x) st) = Inr (put_rows d src (concat (map prs xs)) (put_rows d src (prs x) st))"
    by (rule Cons.IH [OF _ Cons.prems(2)]) (simp add: Cons.prems(3), rule Cons.prems(4), simp)
  then show ?case using Cons.prems by (simp add: put_rows_append)
qed (simp add: put_rows_def)

end
