(* ===== verification/Kv_Kernels.thy ===== *)
theory Kv_Kernels
  imports Row_Memory
begin

text \<open>
  The two copy kernels of the paged KV cache, \<open>src/src/kernels/kv_scatter.cpp\<close> and
  \<open>kv_gather.cpp\<close>. The pointer arguments are flat float lists; the argument record of a kernel carries
  the output arrays, which the kernel returns updated. The kernels run under \<open>parallel_for\<close> in an
  admissible chunk order \<open>ord\<close>. The interpretations of \<open>commuting_items\<close> show that their work items
  write disjoint rows, so the result is the same for every thread count and interleaving.
\<close>

section \<open>Scatter\<close>

record 'f ScatterArgs =
  sc_src_k :: "'f list"
  sc_src_v :: "'f list"
  sc_slot_mapping :: "int list"
  sc_kv_heads :: int
  sc_d :: int
  sc_block_size :: int
  sc_k_slab :: "'f list"
  sc_v_slab :: "'f list"

definition kTokenGrain :: int where "kTokenGrain = 16"

definition scatter_head :: "int \<Rightarrow> int \<Rightarrow> int \<Rightarrow> 'f ScatterArgs \<Rightarrow> 'f ScatterArgs status_or" where
  "scatter_head dst_base src_base h a =
     (let head_stride = sc_block_size a * sc_d a;
          src_off = src_base + h * sc_d a;
          dst_off = dst_base + h * head_stride in
      case copy_floats (sc_k_slab a) dst_off (sc_src_k a) src_off (sc_d a) of
        Inl e \<Rightarrow> Inl e
      | Inr ks \<Rightarrow>
          (case copy_floats (sc_v_slab a) dst_off (sc_src_v a) src_off (sc_d a) of
             Inl e \<Rightarrow> Inl e
           | Inr vs \<Rightarrow> Inr (a\<lparr>sc_k_slab := ks, sc_v_slab := vs\<rparr>)))"

definition scatter_token :: "int \<Rightarrow> 'f ScatterArgs \<Rightarrow> 'f ScatterArgs status_or" where
  "scatter_token t a =
     (case at_index (sc_slot_mapping a) t of
        Inl e \<Rightarrow> Inl e
      | Inr sl \<Rightarrow>
          let head_stride = sc_block_size a * sc_d a;
              block = c_div sl (sc_block_size a);
              p = c_mod sl (sc_block_size a);
              dst_base = block * sc_kv_heads a * head_stride + p * sc_d a;
              src_base = t * sc_kv_heads a * sc_d a in
          fold_ok (scatter_head dst_base src_base) [0..sc_kv_heads a - 1] a)"

definition ScatterRange :: "int \<Rightarrow> int \<Rightarrow> 'f ScatterArgs \<Rightarrow> 'f ScatterArgs status_or" where
  "ScatterRange b e a = fold_ok scatter_token [b..e - 1] a"

definition KvScatterF32 :: "nat list \<Rightarrow> int \<Rightarrow> 'f ScatterArgs \<Rightarrow> 'f ScatterArgs status_or" where
  "KvScatterF32 ord t_dim a = parallel_for ord t_dim kTokenGrain ScatterRange a"

section \<open>Gather\<close>

record 'f GatherArgs =
  ga_k_slab :: "'f list"
  ga_v_slab :: "'f list"
  ga_block_table :: "int list"
  ga_block_stride :: int
  ga_head_stride :: int
  ga_block_size :: int
  ga_length :: int
  ga_d :: int
  ga_num_blocks :: int
  ga_out_k :: "'f list"
  ga_out_v :: "'f list"

definition kBlockGrain :: int where "kBlockGrain = 4"

definition gather_unit :: "int \<Rightarrow> 'f GatherArgs \<Rightarrow> 'f GatherArgs status_or" where
  "gather_unit u a =
     (let h = c_div u (ga_num_blocks a);
          b = c_mod u (ga_num_blocks a);
          base = b * ga_block_size a;
          rows = min (ga_block_size a) (ga_length a - base) in
      case at_index (ga_block_table a) b of
        Inl e \<Rightarrow> Inl e
      | Inr phys \<Rightarrow>
          let src_off = phys * ga_block_stride a + h * ga_head_stride a;
              dst_off = h * ga_length a * ga_d a + base * ga_d a in
          (case copy_floats (ga_out_k a) dst_off (ga_k_slab a) src_off (rows * ga_d a) of
             Inl e \<Rightarrow> Inl e
           | Inr ks \<Rightarrow>
               (case copy_floats (ga_out_v a) dst_off (ga_v_slab a) src_off (rows * ga_d a) of
                  Inl e \<Rightarrow> Inl e
                | Inr vs \<Rightarrow> Inr (a\<lparr>ga_out_k := ks, ga_out_v := vs\<rparr>))))"

definition GatherRange :: "int \<Rightarrow> int \<Rightarrow> 'f GatherArgs \<Rightarrow> 'f GatherArgs status_or" where
  "GatherRange b e a = fold_ok gather_unit [b..e - 1] a"

text \<open>The outputs \<open>out_k\<close> and \<open>out_v\<close> come back as a pair.\<close>

definition KvGatherF32 ::
  "nat list \<Rightarrow> 'f list \<Rightarrow> 'f list \<Rightarrow> int list \<Rightarrow> int \<Rightarrow> int \<Rightarrow> int \<Rightarrow> int \<Rightarrow> 'f list \<Rightarrow> 'f list \<Rightarrow>
   ('f list \<times> 'f list) status_or" where
  "KvGatherF32 ord k_slab v_slab block_table block_size len kv_heads d out_k out_v =
     (if len = 0 then Inr (out_k, out_v)
      else
        let num_blocks = c_div (len + block_size - 1) block_size;
            args = \<lparr>ga_k_slab = k_slab, ga_v_slab = v_slab, ga_block_table = block_table,
                    ga_block_stride = kv_heads * block_size * d, ga_head_stride = block_size * d,
                    ga_block_size = block_size, ga_length = len, ga_d = d, ga_num_blocks = num_blocks,
                    ga_out_k = out_k, ga_out_v = out_v\<rparr> in
        case parallel_for ord (kv_heads * num_blocks) kBlockGrain GatherRange args of
          Inl e \<Rightarrow> Inl e
        | Inr a \<Rightarrow> Inr (ga_out_k a, ga_out_v a))"

section \<open>Slab rows\<close>

text \<open>The row of a slab that holds head \<open>h\<close> of slot \<open>sl\<close>; the slab is block-major, then head-major.\<close>

definition slot_row :: "nat \<Rightarrow> nat \<Rightarrow> nat \<Rightarrow> nat \<Rightarrow> nat" where
  "slot_row heads bs sl h = (sl div bs * heads + h) * bs + sl mod bs"

lemma nat_radix_inj:
  fixes a b p q m :: nat
  assumes "a * m + p = b * m + q" and "p < m" and "q < m"
  shows "a = b \<and> p = q"
proof -
  have "(a * m + p) div m = a" using assms(2) by simp
  moreover have "(b * m + q) div m = b" using assms(3) by simp
  ultimately show ?thesis using assms(1) by auto
qed

lemma nat_radix_less:
  fixes a m n p :: nat
  shows "a < n \<Longrightarrow> p < m \<Longrightarrow> a * m + p < n * m"
  using mult_le_mono1 [of "Suc a" n m] by simp

lemma slot_row_inj:
  assumes "slot_row heads bs sl h = slot_row heads bs sl' h'" and "h < heads" "h' < heads" "0 < bs"
  shows "sl = sl' \<and> h = h'"
proof -
  have "sl div bs * heads + h = sl' div bs * heads + h' \<and> sl mod bs = sl' mod bs"
    using assms(1,4) by (intro nat_radix_inj [of _ bs]) (auto simp: slot_row_def)
  moreover from this have "sl div bs = sl' div bs \<and> h = h'"
    using assms(2,3) by (intro nat_radix_inj [of _ heads]) auto
  ultimately show ?thesis by (metis div_mult_mod_eq)
qed

lemma slot_row_less:
  assumes "sl < n * bs" and "h < heads"
  shows "slot_row heads bs sl h < n * heads * bs"
proof -
  have "0 < bs" using assms(1) by (cases bs) auto
  moreover have "sl div bs < n" using assms(1) by (simp add: less_mult_imp_div_less)
  ultimately show ?thesis unfolding slot_row_def using assms(2) by (intro nat_radix_less) auto
qed

section \<open>Scatter writes each slot once\<close>

definition token_rows :: "'f ScatterArgs \<Rightarrow> nat \<Rightarrow> (nat \<times> nat) list" where
  "token_rows a t =
     (let heads = nat (sc_kv_heads a) in
      map (\<lambda>h. (slot_row heads (nat (sc_block_size a)) (nat (sc_slot_mapping a ! t)) h, t * heads + h)) [0..<heads])"

definition scatter_eff :: "int \<Rightarrow> 'f ScatterArgs \<Rightarrow> 'f ScatterArgs" where
  "scatter_eff t a =
     a\<lparr>sc_k_slab := put_rows (nat (sc_d a)) (sc_src_k a) (token_rows a (nat t)) (sc_k_slab a),
       sc_v_slab := put_rows (nat (sc_d a)) (sc_src_v a) (token_rows a (nat t)) (sc_v_slab a)\<rparr>"

definition scatter_size :: "'f ScatterArgs \<Rightarrow> int" where
  "scatter_size a = int (length (sc_slot_mapping a))"

text \<open>The geometry is positive, the slabs hold whole blocks, the sources one row per token and head,
  and the slots are in range and pairwise different.\<close>

definition scatter_ok :: "nat \<Rightarrow> 'f ScatterArgs \<Rightarrow> bool" where
  "scatter_ok n a \<longleftrightarrow> 1 \<le> sc_kv_heads a \<and> 1 \<le> sc_d a \<and> 1 \<le> sc_block_size a \<and>
     has_rows (nat (sc_d a)) (n * nat (sc_kv_heads a) * nat (sc_block_size a)) (sc_k_slab a) \<and>
     has_rows (nat (sc_d a)) (n * nat (sc_kv_heads a) * nat (sc_block_size a)) (sc_v_slab a) \<and>
     covers_rows (nat (sc_d a)) (length (sc_slot_mapping a) * nat (sc_kv_heads a)) (sc_src_k a) \<and>
     covers_rows (nat (sc_d a)) (length (sc_slot_mapping a) * nat (sc_kv_heads a)) (sc_src_v a) \<and>
     (\<forall>sl\<in>set (sc_slot_mapping a). 0 \<le> sl \<and> sl < int n * sc_block_size a) \<and>
     distinct (sc_slot_mapping a)"

lemma scatter_head_ok:
  fixes heads bs d r q :: nat
  assumes "has_rows d n (sc_k_slab a)" "has_rows d n (sc_v_slab a)" "covers_rows d m (sc_src_k a)" "covers_rows d m (sc_src_v a)"
    and "r < n" "q < m" and "sc_d a = int d"
    and "dst_base + h * (sc_block_size a * int d) = int r * int d" "src_base + h * int d = int q * int d"
  shows "scatter_head dst_base src_base h a =
    Inr (a\<lparr>sc_k_slab := put_row d (sc_src_k a) (r, q) (sc_k_slab a),
           sc_v_slab := put_row d (sc_src_v a) (r, q) (sc_v_slab a)\<rparr>)"
  using assms(7-) copy_row_ok [OF assms(1,3,5,6)] copy_row_ok [OF assms(2,4,5,6)]
  by (simp add: scatter_head_def Let_def)

lemma slot_row_offset:
  "int (sl div bs) * int heads * (int bs * int d) + int (sl mod bs) * int d + int h * (int bs * int d) =
   int (slot_row heads bs sl h) * int d"
  by (simp add: slot_row_def algebra_simps flip: of_nat_mult of_nat_add)

lemma scatter_heads_loop:
  fixes heads bs d :: nat
  assumes k: "has_rows d n (sc_k_slab a)" and v: "has_rows d n (sc_v_slab a)"
    and src: "covers_rows d m (sc_src_k a)" "covers_rows d m (sc_src_v a)"
    and d: "sc_d a = int d" "sc_block_size a = int bs"
    and hs: "\<forall>h\<in>set hs. slot_row heads bs sl h < n \<and> t * heads + h < m"
    and base: "dst_base = int (sl div bs) * int heads * (int bs * int d) + int (sl mod bs) * int d"
      "src_base = int t * int heads * int d"
  shows "fold_ok (scatter_head dst_base src_base) (map int hs) a =
    (let prs = map (\<lambda>h. (slot_row heads bs sl h, t * heads + h)) hs in
     Inr (a\<lparr>sc_k_slab := put_rows d (sc_src_k a) prs (sc_k_slab a),
            sc_v_slab := put_rows d (sc_src_v a) prs (sc_v_slab a)\<rparr>))"
  using k v src d hs
proof (induction hs arbitrary: a)
  case Nil
  then show ?case by (simp add: put_rows_def)
next
  case (Cons h hs)
  let ?r = "slot_row heads bs sl h" and ?q = "t * heads + h"
  define b where "b = a\<lparr>sc_k_slab := put_row d (sc_src_k a) (?r, ?q) (sc_k_slab a),
           sc_v_slab := put_row d (sc_src_v a) (?r, ?q) (sc_v_slab a)\<rparr>"
  have rq: "?r < n" "?q < m" using Cons.prems by auto
  have step: "scatter_head dst_base src_base (int h) a = Inr b"
    unfolding b_def using Cons.prems rq slot_row_offset [of sl bs heads d h]
    by (intro scatter_head_ok) (auto simp: base algebra_simps)
  have "fold_ok (scatter_head dst_base src_base) (map int hs) b =
    (let prs = map (\<lambda>h. (slot_row heads bs sl h, t * heads + h)) hs in
     Inr (b\<lparr>sc_k_slab := put_rows d (sc_src_k b) prs (sc_k_slab b),
            sc_v_slab := put_rows d (sc_src_v b) prs (sc_v_slab b)\<rparr>))"
    using Cons.prems rq by (intro Cons.IH) (auto simp: b_def put_row_has_rows)
  then show ?case using step by (simp add: b_def put_rows_def Let_def)
qed

lemma scatter_okD:
  assumes "scatter_ok n a"
  obtains heads d bs where "sc_kv_heads a = int heads" "sc_d a = int d" "sc_block_size a = int bs"
    "0 < heads" "0 < d" "0 < bs"
    "has_rows d (n * heads * bs) (sc_k_slab a)" "has_rows d (n * heads * bs) (sc_v_slab a)"
    "covers_rows d (length (sc_slot_mapping a) * heads) (sc_src_k a)"
    "covers_rows d (length (sc_slot_mapping a) * heads) (sc_src_v a)"
    "\<And>t. t < length (sc_slot_mapping a) \<Longrightarrow> 0 \<le> sc_slot_mapping a ! t \<and>
       nat (sc_slot_mapping a ! t) < n * bs"
    "distinct (sc_slot_mapping a)"
proof (rule that [of "nat (sc_kv_heads a)" "nat (sc_d a)" "nat (sc_block_size a)"])
  show "0 \<le> sc_slot_mapping a ! t \<and>
      nat (sc_slot_mapping a ! t) < n * nat (sc_block_size a)"
    if "t < length (sc_slot_mapping a)" for t
  proof -
    have "sc_slot_mapping a ! t \<in> set (sc_slot_mapping a)" using that by simp
    then have "0 \<le> sc_slot_mapping a ! t" "sc_slot_mapping a ! t < int n * sc_block_size a" "0 \<le> sc_block_size a"
      using assms by (auto simp: scatter_ok_def)
    then show ?thesis by (simp add: nat_less_iff)
  qed
qed (use assms in \<open>auto simp: scatter_ok_def\<close>)

lemma distinct_concat_map:
  assumes "distinct ts" and "\<And>t. t \<in> set ts \<Longrightarrow> distinct (f t)"
    and "\<And>t t' x. t \<in> set ts \<Longrightarrow> t' \<in> set ts \<Longrightarrow> x \<in> set (f t) \<Longrightarrow> x \<in> set (f t') \<Longrightarrow> t = t'"
  shows "distinct (concat (map f ts))"
  using assms by (induction ts) (simp_all, blast)

lemma token_rows_range:
  assumes "scatter_ok n a" and "t < length (sc_slot_mapping a)"
  shows "\<forall>(r, q)\<in>set (token_rows a t).
    r < n * nat (sc_kv_heads a) * nat (sc_block_size a) \<and> q < length (sc_slot_mapping a) * nat (sc_kv_heads a)"
proof -
  obtain heads d bs where a: "sc_kv_heads a = int heads" "sc_block_size a = int bs"
    "nat (sc_slot_mapping a ! t) < n * bs" using scatter_okD [OF assms(1)] assms(2) by metis
  show ?thesis
    using a slot_row_less [OF a(3)] nat_radix_less [OF assms(2)] by (auto simp: token_rows_def)
qed

lemma token_rows_distinct:
  assumes "scatter_ok n a" and "distinct ts" and "\<forall>t\<in>set ts. t < length (sc_slot_mapping a)"
  shows "distinct (map fst (concat (map (token_rows a) ts)))"
proof -
  obtain heads d bs where a: "sc_kv_heads a = int heads" "sc_block_size a = int bs" "0 < bs"
    "\<And>t. t < length (sc_slot_mapping a) \<Longrightarrow> 0 \<le> sc_slot_mapping a ! t"
    "distinct (sc_slot_mapping a)" using scatter_okD [OF assms(1)] by metis
  let ?sl = "\<lambda>t. nat (sc_slot_mapping a ! t)"
  have fst: "map fst (token_rows a t) = map (slot_row heads bs (?sl t)) [0..<heads]" for t
    by (simp add: token_rows_def a(1,2) Let_def)
  have inj: "t = t' \<and> h = h'" if "t \<in> set ts" "t' \<in> set ts" "h < heads" "h' < heads"
    "slot_row heads bs (?sl t) h = slot_row heads bs (?sl t') h'" for t t' h h'
  proof -
    have "?sl t = ?sl t'" "h = h'" using slot_row_inj [OF that(5,3,4) a(3)] by auto
    then have "sc_slot_mapping a ! t = sc_slot_mapping a ! t'"
      using a(4) [of t] a(4) [of t'] assms(3) that(1,2) by (simp add: eq_nat_nat_iff)
    then show ?thesis using a(5) assms(3) that(1,2) \<open>h = h'\<close> by (simp add: nth_eq_iff_index_eq)
  qed
  have "distinct (concat (map (\<lambda>t. map (slot_row heads bs (?sl t)) [0..<heads]) ts))"
    by (rule distinct_concat_map [OF assms(2)]) (use inj in \<open>auto simp: distinct_map inj_on_def\<close>)
  then show ?thesis by (simp add: map_concat comp_def fst)
qed

lemma scatter_token_ok:
  assumes "scatter_ok n a" and "0 \<le> t" and "t < scatter_size a"
  shows "scatter_token t a = Inr (scatter_eff t a)"
proof -
  obtain heads d bs where a: "sc_kv_heads a = int heads" "sc_d a = int d" "sc_block_size a = int bs"
    "0 < bs" "has_rows d (n * heads * bs) (sc_k_slab a)" "has_rows d (n * heads * bs) (sc_v_slab a)"
    "covers_rows d (length (sc_slot_mapping a) * heads) (sc_src_k a)"
    "covers_rows d (length (sc_slot_mapping a) * heads) (sc_src_v a)"
    "\<And>t. t < length (sc_slot_mapping a) \<Longrightarrow> 0 \<le> sc_slot_mapping a ! t \<and>
       nat (sc_slot_mapping a ! t) < n * bs" using scatter_okD [OF assms(1)] by metis
  define i where "i = nat t"
  define sl where "sl = nat (sc_slot_mapping a ! i)"
  have t: "t = int i" "i < length (sc_slot_mapping a)" using assms(2,3) by (auto simp: i_def scatter_size_def)
  have sl: "at_index (sc_slot_mapping a) t = Inr (int sl)" "sl < n * bs"
    using a(9) [OF t(2)] t by (simp_all add: sl_def)
  have hs: "\<forall>h\<in>set [0..<heads]. slot_row heads bs sl h < n * heads * bs \<and> i * heads + h < length (sc_slot_mapping a) * heads"
    using slot_row_less [OF sl(2)] nat_radix_less [OF t(2)] by auto
  have "c_div (int sl) (int bs) = int (sl div bs)" "c_mod (int sl) (int bs) = int (sl mod bs)"
    using a(4) by (simp_all add: zdiv_int zmod_int)
  then have "scatter_token t a = fold_ok (scatter_head
      (int (sl div bs) * int heads * (int bs * int d) + int (sl mod bs) * int d) (int i * int heads * int d)) (map int [0..<heads]) a"
    using sl(1) by (simp add: scatter_token_def a(1-3) Let_def upto_map_int t(1))
  also have "\<dots> = Inr (scatter_eff t a)"
    unfolding scatter_heads_loop [OF a(5-8) a(2,3) hs refl refl]
    by (simp add: scatter_eff_def token_rows_def a(1-3) Let_def sl_def i_def)
  finally show ?thesis .
qed

lemma scatter_eff_sel [simp]:
  "sc_slot_mapping (scatter_eff t a) = sc_slot_mapping a" "sc_kv_heads (scatter_eff t a) = sc_kv_heads a"
  "sc_d (scatter_eff t a) = sc_d a" "sc_block_size (scatter_eff t a) = sc_block_size a"
  "sc_src_k (scatter_eff t a) = sc_src_k a" "sc_src_v (scatter_eff t a) = sc_src_v a"
  "token_rows (scatter_eff t a) = token_rows a"
  by (simp_all add: scatter_eff_def token_rows_def fun_eq_iff)

lemma scatter_eff_ok:
  assumes "scatter_ok n a" and "0 \<le> t" and "t < scatter_size a"
  shows "scatter_ok n (scatter_eff t a) \<and> scatter_size (scatter_eff t a) = scatter_size a"
proof -
  have "nat t < length (sc_slot_mapping a)" using assms(2,3) by (simp add: scatter_size_def nat_less_iff)
  note r = token_rows_range [OF assms(1) this]
  show ?thesis
    using assms(1) put_rows_has_rows [OF _ _ r, of "nat (sc_d a)"]
    by (auto simp: scatter_ok_def scatter_size_def) (auto simp: scatter_eff_def)
qed

lemma scatter_eff_fold:
  "fold scatter_eff (map int ts) a =
   a\<lparr>sc_k_slab := put_rows (nat (sc_d a)) (sc_src_k a) (concat (map (token_rows a) ts)) (sc_k_slab a),
     sc_v_slab := put_rows (nat (sc_d a)) (sc_src_v a) (concat (map (token_rows a) ts)) (sc_v_slab a)\<rparr>"
proof (induction ts arbitrary: a)
  case (Cons t ts)
  show ?case by (simp add: Cons) (simp add: scatter_eff_def put_rows_append)
qed (simp add: put_rows_def)

lemma scatter_commute:
  assumes "scatter_ok n a" and "0 \<le> i" "i < scatter_size a" "0 \<le> j" "j < scatter_size a" "i \<noteq> j"
  shows "scatter_eff i (scatter_eff j a) = scatter_eff j (scatter_eff i a)"
proof -
  let ?d = "nat (sc_d a)" and ?n = "n * nat (sc_kv_heads a) * nat (sc_block_size a)"
  have ij: "nat i < length (sc_slot_mapping a)" "nat j < length (sc_slot_mapping a)" "nat i \<noteq> nat j"
    using assms by (auto simp: scatter_size_def nat_less_iff)
  have r: "\<forall>(r, q)\<in>set (token_rows a (nat i) @ token_rows a (nat j)).
      r < ?n \<and> q < length (sc_slot_mapping a) * nat (sc_kv_heads a)"
    using token_rows_range [OF assms(1) ij(1)] token_rows_range [OF assms(1) ij(2)] by auto
  have d: "distinct (map fst (token_rows a (nat i) @ token_rows a (nat j)))"
    using token_rows_distinct [OF assms(1), of "[nat i, nat j]"] ij by simp
  have e: "put_rows ?d src (token_rows a (nat i) @ token_rows a (nat j)) s =
      put_rows ?d src (token_rows a (nat j) @ token_rows a (nat i)) s"
    if "has_rows ?d ?n s" "covers_rows ?d (length (sc_slot_mapping a) * nat (sc_kv_heads a)) src" for s src
    by (rule put_rows_perm [OF that r d]) simp
  have ek: "put_rows ?d (sc_src_k a) (token_rows a (nat i) @ token_rows a (nat j)) (sc_k_slab a) =
      put_rows ?d (sc_src_k a) (token_rows a (nat j) @ token_rows a (nat i)) (sc_k_slab a)"
    and ev: "put_rows ?d (sc_src_v a) (token_rows a (nat i) @ token_rows a (nat j)) (sc_v_slab a) =
      put_rows ?d (sc_src_v a) (token_rows a (nat j) @ token_rows a (nat i)) (sc_v_slab a)"
    by (rule e; use assms(1) in \<open>simp add: scatter_ok_def\<close>)+
  have "scatter_eff i (scatter_eff j a) = fold scatter_eff (map int [nat j, nat i]) a"
    "scatter_eff j (scatter_eff i a) = fold scatter_eff (map int [nat i, nat j]) a" using assms by simp_all
  moreover have "fold scatter_eff (map int [nat j, nat i]) a = fold scatter_eff (map int [nat i, nat j]) a"
    unfolding scatter_eff_fold using ek ev by simp
  ultimately show ?thesis by (simp only:)
qed

interpretation scatter: commuting_items scatter_token scatter_eff scatter_size "scatter_ok n" for n
  by unfold_locales (auto simp: scatter_token_ok scatter_eff_ok intro: scatter_commute)


text \<open>For every admissible order the scatter is one batch of row assignments.\<close>

lemma KvScatter_put_rows:
  assumes "scatter_ok n a" and "0 < T"
    and "region_order T (nat (CeilDiv (scatter_size a) kTokenGrain)) ord"
  shows "KvScatterF32 ord (scatter_size a) a =
    (let prs = concat (map (token_rows a) [0..<length (sc_slot_mapping a)]) in
     Inr (a\<lparr>sc_k_slab := put_rows (nat (sc_d a)) (sc_src_k a) prs (sc_k_slab a),
            sc_v_slab := put_rows (nat (sc_d a)) (sc_src_v a) prs (sc_v_slab a)\<rparr>))"
proof -
  have "parallel_for ord (scatter_size a) kTokenGrain (\<lambda>b e. fold_ok scatter_token [b..e - 1]) a =
      Inr (fold scatter_eff [0..scatter_size a - 1] a)"
    using assms by (intro scatter.parallel_for_sequential) (auto simp: scatter_size_def kTokenGrain_def)
  moreover have "(\<lambda>b e. fold_ok scatter_token [b..e - 1]) = (ScatterRange :: _ \<Rightarrow> _ \<Rightarrow> 'a ScatterArgs \<Rightarrow> _)"
    by (simp add: fun_eq_iff ScatterRange_def)
  moreover have "[0..scatter_size a - 1] = map int [0..<length (sc_slot_mapping a)]"
    by (simp add: scatter_size_def upto_map_int)
  ultimately show ?thesis by (simp only: KvScatterF32_def scatter_eff_fold Let_def)
qed

lemma map_of_concat_token_rows:
  assumes "scatter_ok n a" and "t < length (sc_slot_mapping a)" and "h < nat (sc_kv_heads a)"
  shows "map_of (concat (map (token_rows a) [0..<length (sc_slot_mapping a)]))
      (slot_row (nat (sc_kv_heads a)) (nat (sc_block_size a)) (nat (sc_slot_mapping a ! t)) h) =
    Some (t * nat (sc_kv_heads a) + h)"
proof (rule map_of_is_SomeI)
  show "distinct (map fst (concat (map (token_rows a) [0..<length (sc_slot_mapping a)])))"
    by (rule token_rows_distinct [OF assms(1)]) auto
  show "(slot_row (nat (sc_kv_heads a)) (nat (sc_block_size a)) (nat (sc_slot_mapping a ! t)) h,
      t * nat (sc_kv_heads a) + h) \<in> set (concat (map (token_rows a) [0..<length (sc_slot_mapping a)]))"
    using assms(2,3) by (auto simp: token_rows_def Let_def intro!: bexI [of _ t])
qed

text \<open>The effect of a scatter on the slabs, row by row.\<close>

lemma KvScatter_rows:
  assumes "scatter_ok n a" and "0 < T"
    and "region_order T (nat (CeilDiv (scatter_size a) kTokenGrain)) ord"
  obtains ks vs where "KvScatterF32 ord (scatter_size a) a = Inr (a\<lparr>sc_k_slab := ks, sc_v_slab := vs\<rparr>)"
    and "scatter_ok n (a\<lparr>sc_k_slab := ks, sc_v_slab := vs\<rparr>)"
    and "\<And>t h. t < length (sc_slot_mapping a) \<Longrightarrow> h < nat (sc_kv_heads a) \<Longrightarrow>
      let r = slot_row (nat (sc_kv_heads a)) (nat (sc_block_size a)) (nat (sc_slot_mapping a ! t)) h in
      row (nat (sc_d a)) ks r = row (nat (sc_d a)) (sc_src_k a) (t * nat (sc_kv_heads a) + h) \<and>
      row (nat (sc_d a)) vs r = row (nat (sc_d a)) (sc_src_v a) (t * nat (sc_kv_heads a) + h)"
    and "\<And>sl h. sl < n * nat (sc_block_size a) \<Longrightarrow> h < nat (sc_kv_heads a) \<Longrightarrow> int sl \<notin> set (sc_slot_mapping a) \<Longrightarrow>
      let r = slot_row (nat (sc_kv_heads a)) (nat (sc_block_size a)) sl h in
      row (nat (sc_d a)) ks r = row (nat (sc_d a)) (sc_k_slab a) r \<and>
      row (nat (sc_d a)) vs r = row (nat (sc_d a)) (sc_v_slab a) r"
proof -
  let ?heads = "nat (sc_kv_heads a)" and ?bs = "nat (sc_block_size a)" and ?d = "nat (sc_d a)"
  let ?len = "length (sc_slot_mapping a)"
  define prs where "prs = concat (map (token_rows a) [0..<?len])"
  have rng: "\<forall>(r, q)\<in>set prs. r < n * ?heads * ?bs \<and> q < ?len * ?heads"
    using token_rows_range [OF assms(1)] by (fastforce simp: prs_def)
  have dst: "distinct (map fst prs)" unfolding prs_def by (rule token_rows_distinct [OF assms(1)]) auto
  have ok: "has_rows ?d (n * ?heads * ?bs) (sc_k_slab a)" "has_rows ?d (n * ?heads * ?bs) (sc_v_slab a)"
    "covers_rows ?d (?len * ?heads) (sc_src_k a)" "covers_rows ?d (?len * ?heads) (sc_src_v a)"
    using assms(1) by (auto simp: scatter_ok_def)
  have bs: "0 < ?bs" using assms(1) by (simp add: scatter_ok_def)
  note rk = row_put_rows [OF ok(1,3) rng dst] and rv = row_put_rows [OF ok(2,4) rng dst]
  have slots: "nat (sc_slot_mapping a ! t) < n * ?bs" "0 \<le> sc_slot_mapping a ! t" if "t < ?len" for t
    using that assms(1) nth_mem [OF that] by (auto simp: scatter_ok_def nat_less_iff)
  show thesis
  proof (rule that)
    show "KvScatterF32 ord (scatter_size a) a = Inr (a\<lparr>sc_k_slab := put_rows ?d (sc_src_k a) prs (sc_k_slab a),
            sc_v_slab := put_rows ?d (sc_src_v a) prs (sc_v_slab a)\<rparr>)"
      using KvScatter_put_rows [OF assms] by (simp add: prs_def Let_def)
    show "scatter_ok n (a\<lparr>sc_k_slab := put_rows ?d (sc_src_k a) prs (sc_k_slab a),
            sc_v_slab := put_rows ?d (sc_src_v a) prs (sc_v_slab a)\<rparr>)"
      using assms(1) put_rows_has_rows [OF ok(1,3) rng] put_rows_has_rows [OF ok(2,4) rng]
      by (simp add: scatter_ok_def)
  next
    fix t h assume th: "t < ?len" "h < ?heads"
    have "slot_row ?heads ?bs (nat (sc_slot_mapping a ! t)) h < n * ?heads * ?bs"
      by (rule slot_row_less [OF slots(1) [OF th(1)] th(2)])
    then show "let r = slot_row ?heads ?bs (nat (sc_slot_mapping a ! t)) h in
      row ?d (put_rows ?d (sc_src_k a) prs (sc_k_slab a)) r = row ?d (sc_src_k a) (t * ?heads + h) \<and>
      row ?d (put_rows ?d (sc_src_v a) prs (sc_v_slab a)) r = row ?d (sc_src_v a) (t * ?heads + h)"
      using map_of_concat_token_rows [OF assms(1) th] unfolding prs_def [symmetric] by (simp add: Let_def rk rv)
  next
    fix sl h assume sl: "sl < n * ?bs" "h < ?heads" "int sl \<notin> set (sc_slot_mapping a)"
    have "slot_row ?heads ?bs sl h \<notin> fst ` set prs"
    proof
      assume "slot_row ?heads ?bs sl h \<in> fst ` set prs"
      then obtain t h' where t: "t < ?len" "h' < ?heads"
        "slot_row ?heads ?bs sl h = slot_row ?heads ?bs (nat (sc_slot_mapping a ! t)) h'"
        by (auto simp: prs_def token_rows_def Let_def)
      then have "sl = nat (sc_slot_mapping a ! t)" using slot_row_inj [OF t(3) sl(2) t(2) bs] by simp
      then show False using sl(3) slots(2) [OF t(1)] t(1) by simp
    qed
    then have "map_of prs (slot_row ?heads ?bs sl h) = None" by (simp add: map_of_eq_None_iff)
    then show "let r = slot_row ?heads ?bs sl h in
      row ?d (put_rows ?d (sc_src_k a) prs (sc_k_slab a)) r = row ?d (sc_k_slab a) r \<and>
      row ?d (put_rows ?d (sc_src_v a) prs (sc_v_slab a)) r = row ?d (sc_v_slab a) r"
      using slot_row_less [OF sl(1,2)] by (simp add: Let_def rk rv)
  qed
qed

lemma KvScatter_rows_ex:
  assumes "scatter_ok n a" and "0 < T"
    and "region_order T (nat (CeilDiv (scatter_size a) kTokenGrain)) ord"
  shows "\<exists>ks vs. KvScatterF32 ord (scatter_size a) a = Inr (a\<lparr>sc_k_slab := ks, sc_v_slab := vs\<rparr>) \<and>
    scatter_ok n (a\<lparr>sc_k_slab := ks, sc_v_slab := vs\<rparr>) \<and>
    (\<forall>t h. t < length (sc_slot_mapping a) \<longrightarrow> h < nat (sc_kv_heads a) \<longrightarrow>
      (let r = slot_row (nat (sc_kv_heads a)) (nat (sc_block_size a)) (nat (sc_slot_mapping a ! t)) h in
      row (nat (sc_d a)) ks r = row (nat (sc_d a)) (sc_src_k a) (t * nat (sc_kv_heads a) + h) \<and>
      row (nat (sc_d a)) vs r = row (nat (sc_d a)) (sc_src_v a) (t * nat (sc_kv_heads a) + h))) \<and>
    (\<forall>sl h. sl < n * nat (sc_block_size a) \<longrightarrow> h < nat (sc_kv_heads a) \<longrightarrow> int sl \<notin> set (sc_slot_mapping a) \<longrightarrow>
      (let r = slot_row (nat (sc_kv_heads a)) (nat (sc_block_size a)) sl h in
      row (nat (sc_d a)) ks r = row (nat (sc_d a)) (sc_k_slab a) r \<and>
      row (nat (sc_d a)) vs r = row (nat (sc_d a)) (sc_v_slab a) r))"
  by (rule KvScatter_rows [OF assms]) blast

section \<open>Gather reads each position once\<close>

definition unit_rows :: "nat \<Rightarrow> 'f GatherArgs \<Rightarrow> nat \<Rightarrow> (nat \<times> nat) list" where
  "unit_rows heads a u =
     (let nb = nat (ga_num_blocks a); bs = nat (ga_block_size a); len = nat (ga_length a);
          h = u div nb; b = u mod nb; phys = nat (ga_block_table a ! b) in
      map (\<lambda>i. (h * len + b * bs + i, (phys * heads + h) * bs + i)) [0..<min bs (len - b * bs)])"

definition gather_eff :: "nat \<Rightarrow> int \<Rightarrow> 'f GatherArgs \<Rightarrow> 'f GatherArgs" where
  "gather_eff heads u a =
     a\<lparr>ga_out_k := put_rows (nat (ga_d a)) (ga_k_slab a) (unit_rows heads a (nat u)) (ga_out_k a),
       ga_out_v := put_rows (nat (ga_d a)) (ga_v_slab a) (unit_rows heads a (nat u)) (ga_out_v a)\<rparr>"

definition gather_size :: "nat \<Rightarrow> 'f GatherArgs \<Rightarrow> int" where
  "gather_size heads a = int heads * ga_num_blocks a"

definition gather_ok :: "nat \<Rightarrow> nat \<Rightarrow> 'f GatherArgs \<Rightarrow> bool" where
  "gather_ok heads n a \<longleftrightarrow> 1 \<le> ga_d a \<and> 1 \<le> ga_block_size a \<and> 1 \<le> ga_length a \<and>
     ga_num_blocks a = ceil_div (ga_length a) (ga_block_size a) \<and>
     ga_block_stride a = int heads * ga_block_size a * ga_d a \<and> ga_head_stride a = ga_block_size a * ga_d a \<and>
     has_rows (nat (ga_d a)) (n * heads * nat (ga_block_size a)) (ga_k_slab a) \<and>
     has_rows (nat (ga_d a)) (n * heads * nat (ga_block_size a)) (ga_v_slab a) \<and>
     has_rows (nat (ga_d a)) (heads * nat (ga_length a)) (ga_out_k a) \<and>
     has_rows (nat (ga_d a)) (heads * nat (ga_length a)) (ga_out_v a) \<and>
     ga_num_blocks a \<le> int (length (ga_block_table a)) \<and>
     (\<forall>i<nat (ga_num_blocks a). 0 \<le> ga_block_table a ! i \<and> ga_block_table a ! i < int n)"

lemma gather_okD:
  assumes "gather_ok heads n a"
  obtains d bs len nb where "ga_d a = int d" "ga_block_size a = int bs" "ga_length a = int len" "ga_num_blocks a = int nb"
    "0 < d" "0 < bs" "0 < len" "\<And>b. b < nb \<Longrightarrow> b * bs < len" "len \<le> nb * bs"
    "ga_block_stride a = int heads * int bs * int d" "ga_head_stride a = int bs * int d"
    "has_rows d (n * heads * bs) (ga_k_slab a)" "has_rows d (n * heads * bs) (ga_v_slab a)"
    "has_rows d (heads * len) (ga_out_k a)" "has_rows d (heads * len) (ga_out_v a)" "nb \<le> length (ga_block_table a)"
    "\<And>i. i < nb \<Longrightarrow> 0 \<le> ga_block_table a ! i \<and> nat (ga_block_table a ! i) < n"
proof (rule that [of "nat (ga_d a)" "nat (ga_block_size a)" "nat (ga_length a)" "nat (ga_num_blocks a)"])
  let ?bs = "ga_block_size a" and ?len = "ga_length a" and ?nb = "ga_num_blocks a"
  have nb: "?nb = ceil_div ?len ?bs" "0 < ?bs" "0 \<le> ?len" using assms by (auto simp: gather_ok_def)
  have nn: "0 \<le> ?nb" unfolding nb(1) by (rule ceil_div_nonneg [OF nb(2,3)])
  show "b * nat ?bs < nat ?len" if "b < nat ?nb" for b
  proof -
    have "\<not> ceil_div ?len ?bs \<le> int b" using that nb(1) nn by simp
    then have "int b * ?bs < ?len" using ceil_div_le_iff [OF nb(2), of ?len "int b"] by simp
    then have "int (b * nat ?bs) < ?len" using nb(2) by simp
    then show ?thesis by linarith
  qed
  have "?len \<le> ?nb * ?bs" unfolding nb(1) by (rule ceil_div_le [OF nb(2)])
  then show "nat ?len \<le> nat ?nb * nat ?bs" using nn nb(2) by (simp add: nat_le_iff)
  show "ga_num_blocks a = int (nat (ga_num_blocks a))" using nn by simp
qed (use assms in \<open>auto simp: gather_ok_def nat_less_iff\<close>)

lemma unit_rows_eq:
  assumes "ga_block_size a = int bs" "ga_length a = int len" "ga_num_blocks a = int nb"
  shows "unit_rows heads a u = map (\<lambda>i. (u div nb * len + u mod nb * bs + i,
      (nat (ga_block_table a ! (u mod nb)) * heads + u div nb) * bs + i)) [0..<min bs (len - u mod nb * bs)]"
  by (simp add: unit_rows_def assms Let_def)

lemma gather_unit_dims:
  fixes u nb heads bs len :: nat
  assumes "u < heads * nb" and "\<And>b. b < nb \<Longrightarrow> b * bs < len"
  shows "u div nb < heads" "u mod nb < nb" "u mod nb * bs < len"
    "u div nb * len + u mod nb * bs + min bs (len - u mod nb * bs) \<le> heads * len"
proof -
  have nb: "0 < nb" using assms(1) by (cases nb) auto
  show u: "u div nb < heads" "u mod nb < nb" using assms(1) nb by (simp_all add: less_mult_imp_div_less)
  show "u mod nb * bs < len" using assms(2) [OF u(2)] .
  then have "u div nb * len + u mod nb * bs + min bs (len - u mod nb * bs) \<le> u div nb * len + len" by auto
  also have "\<dots> \<le> heads * len" by (rule row_bound [OF u(1)])
  finally show "u div nb * len + u mod nb * bs + min bs (len - u mod nb * bs) \<le> heads * len" .
qed

lemma unit_rows_range:
  assumes "gather_ok heads n a" and "u < nat (gather_size heads a)"
  shows "\<forall>(r, q)\<in>set (unit_rows heads a u). r < heads * nat (ga_length a) \<and> q < n * heads * nat (ga_block_size a)"
proof -
  obtain bs len nb where a: "ga_block_size a = int bs" "ga_length a = int len" "ga_num_blocks a = int nb"
    "\<And>b. b < nb \<Longrightarrow> b * bs < len" "\<And>i. i < nb \<Longrightarrow> 0 \<le> ga_block_table a ! i \<and> nat (ga_block_table a ! i) < n"
    using gather_okD [OF assms(1)] by metis
  have "u < heads * nb" using assms(2) a(3) by (simp add: gather_size_def nat_mult_distrib)
  note u = gather_unit_dims [OF this a(4)]
  have "nat (ga_block_table a ! (u mod nb)) * heads + u div nb < n * heads"
    using a(5) [OF u(2)] u(1) by (intro nat_radix_less) auto
  then have "(nat (ga_block_table a ! (u mod nb)) * heads + u div nb) * bs + i < n * heads * bs" if "i < bs" for i
    using that by (rule nat_radix_less)
  then show ?thesis using u(4) by (auto simp: unit_rows_eq [OF a(1-3)] a(1,2))
qed

lemma unit_rows_distinct:
  assumes "gather_ok heads n a" and "distinct us" and "\<forall>u\<in>set us. u < nat (gather_size heads a)"
  shows "distinct (map fst (concat (map (unit_rows heads a) us)))"
proof -
  obtain bs len nb where a: "ga_block_size a = int bs" "ga_length a = int len" "ga_num_blocks a = int nb" "0 < bs" "0 < len"
    "\<And>b. b < nb \<Longrightarrow> b * bs < len" using gather_okD [OF assms(1)] by metis
  let ?f = "\<lambda>u. map (\<lambda>i. u div nb * len + u mod nb * bs + i) [0..<min bs (len - u mod nb * bs)]"
  have "distinct (concat (map ?f us))"
  proof (rule distinct_concat_map [OF assms(2)])
    fix u u' x assume x: "u \<in> set us" "u' \<in> set us" "x \<in> set (?f u)" "x \<in> set (?f u')"
    from x(3,4) obtain i j where ij: "i < bs" "u mod nb * bs + i < len" "j < bs" "u' mod nb * bs + j < len"
      "u div nb * len + (u mod nb * bs + i) = u' div nb * len + (u' mod nb * bs + j)"
      by (auto simp: add.assoc)
    have 1: "u div nb = u' div nb \<and> u mod nb * bs + i = u' mod nb * bs + j"
      by (rule nat_radix_inj [OF ij(5,2,4)])
    then have "u mod nb = u' mod nb \<and> i = j" using ij by (intro nat_radix_inj [of _ bs]) auto
    with 1 show "u = u'" by (metis div_mult_mod_eq)
  qed (simp add: distinct_map inj_on_def)
  then show ?thesis by (simp add: map_concat comp_def unit_rows_eq [OF a(1-3)])
qed

lemma gather_unit_ok:
  assumes "gather_ok heads n a" and "0 \<le> u" and "u < gather_size heads a"
  shows "gather_unit u a = Inr (gather_eff heads u a)"
proof -
  obtain d bs len nb where a: "ga_d a = int d" "ga_block_size a = int bs" "ga_length a = int len" "ga_num_blocks a = int nb"
    "\<And>b. b < nb \<Longrightarrow> b * bs < len"
    "ga_block_stride a = int heads * int bs * int d" "ga_head_stride a = int bs * int d"
    "has_rows d (n * heads * bs) (ga_k_slab a)" "has_rows d (n * heads * bs) (ga_v_slab a)"
    "has_rows d (heads * len) (ga_out_k a)" "has_rows d (heads * len) (ga_out_v a)" "nb \<le> length (ga_block_table a)"
    "\<And>i. i < nb \<Longrightarrow> 0 \<le> ga_block_table a ! i \<and> nat (ga_block_table a ! i) < n"
    using gather_okD [OF assms(1)] by metis
  define v where "v = nat u"
  have v: "u = int v" "v < heads * nb"
    using assms(2,3) a(4) by (auto simp: v_def gather_size_def nat_less_iff)
  note dm = gather_unit_dims [OF v(2) a(5)]
  define ph where "ph = nat (ga_block_table a ! (v mod nb))"
  have ph: "at_index (ga_block_table a) (int (v mod nb)) = Inr (int ph)" "ph < n"
    using a(12) a(13) [OF dm(2)] dm(2) by (auto simp: ph_def)
  define m where "m = min bs (len - v mod nb * bs)"
  have nb: "0 < nb" using dm(2) by (cases nb) auto
  have cd: "c_div u (int nb) = int (v div nb)" "c_mod u (int nb) = int (v mod nb)"
    using nb by (simp_all add: v(1) zdiv_int zmod_int)
  have rows: "min (int bs) (int len - int (v mod nb) * int bs) = int m"
    using dm(3) by (simp add: m_def of_nat_diff flip: of_nat_mult)
  let ?r = "v div nb * len + v mod nb * bs" and ?q = "(ph * heads + v div nb) * bs"
  have "Suc (ph * heads + v div nb) \<le> n * heads" using nat_radix_less [OF ph(2) dm(1)] by simp
  then have "?q + bs \<le> n * heads * bs" by (metis row_bound Suc_le_lessD)
  then have q: "?q + m \<le> n * heads * bs" by (simp add: m_def)
  have r: "?r + m \<le> heads * len" using dm(4) by (simp add: m_def)
  have off: "int ph * (int heads * int bs * int d) + int (v div nb) * (int bs * int d) = int ?q * int d"
    "int (v div nb) * int len * int d + int (v mod nb) * int bs * int d = int ?r * int d"
    by (simp_all add: algebra_simps)
  show ?thesis
    using copy_rows_ok [OF a(10) has_covers [OF a(8)] r q] copy_rows_ok [OF a(11) has_covers [OF a(9)] r q]
    by (simp add: gather_unit_def Let_def cd a(1-4,6,7) ph(1) rows off gather_eff_def unit_rows_eq [OF a(2-4)]
        flip: v_def ph_def m_def)
qed

lemma gather_eff_sel [simp]:
  "ga_d (gather_eff heads u a) = ga_d a" "ga_k_slab (gather_eff heads u a) = ga_k_slab a"
  "ga_v_slab (gather_eff heads u a) = ga_v_slab a" "ga_num_blocks (gather_eff heads u a) = ga_num_blocks a"
  "ga_block_size (gather_eff heads u a) = ga_block_size a" "ga_length (gather_eff heads u a) = ga_length a"
  "ga_block_table (gather_eff heads u a) = ga_block_table a" "ga_block_stride (gather_eff heads u a) = ga_block_stride a"
  "ga_head_stride (gather_eff heads u a) = ga_head_stride a" "unit_rows heads (gather_eff heads u a) = unit_rows heads a"
  by (simp_all add: gather_eff_def unit_rows_def fun_eq_iff)

lemma gather_eff_ok:
  assumes "gather_ok heads n a" and "0 \<le> u" and "u < gather_size heads a"
  shows "gather_ok heads n (gather_eff heads u a) \<and> gather_size heads (gather_eff heads u a) = gather_size heads a"
proof -
  have "nat u < nat (gather_size heads a)" using assms(2,3) by simp
  note r = unit_rows_range [OF assms(1) this]
  show ?thesis
    using assms(1) put_rows_has_rows [OF _ _ r, of "nat (ga_d a)"]
    by (auto simp: gather_ok_def gather_size_def) (auto simp: gather_eff_def)
qed

lemma gather_eff_fold:
  "fold (gather_eff heads) (map int us) a =
   a\<lparr>ga_out_k := put_rows (nat (ga_d a)) (ga_k_slab a) (concat (map (unit_rows heads a) us)) (ga_out_k a),
     ga_out_v := put_rows (nat (ga_d a)) (ga_v_slab a) (concat (map (unit_rows heads a) us)) (ga_out_v a)\<rparr>"
proof (induction us arbitrary: a)
  case (Cons u us)
  show ?case by (simp add: Cons) (simp add: gather_eff_def put_rows_append)
qed (simp add: put_rows_def)

lemma gather_commute:
  assumes "gather_ok heads n a" and "0 \<le> i" "i < gather_size heads a" "0 \<le> j" "j < gather_size heads a" "i \<noteq> j"
  shows "gather_eff heads i (gather_eff heads j a) = gather_eff heads j (gather_eff heads i a)"
proof -
  let ?d = "nat (ga_d a)" and ?n = "heads * nat (ga_length a)" and ?m = "n * heads * nat (ga_block_size a)"
  let ?I = "unit_rows heads a (nat i)" and ?J = "unit_rows heads a (nat j)"
  have ij: "nat i < nat (gather_size heads a)" "nat j < nat (gather_size heads a)" "nat i \<noteq> nat j"
    using assms by auto
  have r: "\<forall>(r, q)\<in>set (?I @ ?J). r < ?n \<and> q < ?m"
    using unit_rows_range [OF assms(1) ij(1)] unit_rows_range [OF assms(1) ij(2)] by auto
  have d: "distinct (map fst (?I @ ?J))"
    using unit_rows_distinct [OF assms(1), of "[nat i, nat j]"] ij by simp
  have e: "put_rows ?d src (?I @ ?J) s = put_rows ?d src (?J @ ?I) s"
    if "has_rows ?d ?n s" "covers_rows ?d ?m src" for s src
    by (rule put_rows_perm [OF that r d]) simp
  have ek: "put_rows ?d (ga_k_slab a) (?I @ ?J) (ga_out_k a) = put_rows ?d (ga_k_slab a) (?J @ ?I) (ga_out_k a)"
    and ev: "put_rows ?d (ga_v_slab a) (?I @ ?J) (ga_out_v a) = put_rows ?d (ga_v_slab a) (?J @ ?I) (ga_out_v a)"
    by (rule e; use assms(1) in \<open>simp add: gather_ok_def\<close>)+
  have "gather_eff heads i (gather_eff heads j a) = fold (gather_eff heads) (map int [nat j, nat i]) a"
    "gather_eff heads j (gather_eff heads i a) = fold (gather_eff heads) (map int [nat i, nat j]) a"
    using assms by simp_all
  moreover have "fold (gather_eff heads) (map int [nat j, nat i]) a = fold (gather_eff heads) (map int [nat i, nat j]) a"
    unfolding gather_eff_fold using ek ev by simp
  ultimately show ?thesis by (simp only:)
qed

interpretation gather: commuting_items gather_unit "gather_eff heads" "gather_size heads" "gather_ok heads n" for heads n
  by unfold_locales (auto simp: gather_unit_ok gather_eff_ok intro: gather_commute)

lemma unit_rows_complete:
  assumes "gather_ok heads n a" and "h < heads" and "pos < nat (ga_length a)"
  shows "(h * nat (ga_length a) + pos,
      slot_row heads (nat (ga_block_size a)) (nat (ga_block_table a ! (pos div nat (ga_block_size a))) *
        nat (ga_block_size a) + pos mod nat (ga_block_size a)) h)
    \<in> set (concat (map (unit_rows heads a) [0..<nat (gather_size heads a)]))"
proof -
  obtain bs len nb where a: "ga_block_size a = int bs" "ga_length a = int len" "ga_num_blocks a = int nb" "0 < bs"
    "len \<le> nb * bs" using gather_okD [OF assms(1)] by metis
  let ?b = "pos div bs"
  have pos: "pos < len" using assms(3) a(2) by simp
  then have b: "?b < nb" using a(5) by (simp add: less_mult_imp_div_less)
  define u where "u = h * nb + ?b"
  have u: "u div nb = h" "u mod nb = ?b" "u < heads * nb"
    using b nat_radix_less [OF assms(2) b] by (auto simp: u_def)
  have i: "pos mod bs < min bs (len - ?b * bs)"
    using pos a(4) by (auto simp: less_diff_conv div_mult_mod_eq add.commute)
  have "(h * len + pos, slot_row heads bs (nat (ga_block_table a ! ?b) * bs + pos mod bs) h) \<in> set (unit_rows heads a u)"
    using i a(4) by (auto simp: unit_rows_eq [OF a(1-3)] u slot_row_def add.assoc div_mult_mod_eq intro!: image_eqI [of _ _ "pos mod bs"])
  then show ?thesis using u(3) a(1-3)
    by (auto simp: gather_size_def nat_mult_distrib intro!: bexI [of _ u])
qed

lemma KvGather_rows:
  fixes d bs len heads n :: nat
  assumes "0 < d" "0 < bs" and T: "0 < T" "region_order T (nat (CeilDiv (int heads * ceil_div (int len) (int bs)) kBlockGrain)) ord"
    and slabs: "has_rows d (n * heads * bs) ks" "has_rows d (n * heads * bs) vs"
    and outs: "has_rows d (heads * len) ok0" "has_rows d (heads * len) ov0"
    and tab: "ceil_div (int len) (int bs) \<le> int (length bt)"
      "\<And>i. int i < ceil_div (int len) (int bs) \<Longrightarrow> 0 \<le> bt ! i \<and> bt ! i < int n"
  obtains out_k out_v where "KvGatherF32 ord ks vs bt (int bs) (int len) (int heads) (int d) ok0 ov0 = Inr (out_k, out_v)"
    and "has_rows d (heads * len) out_k" "has_rows d (heads * len) out_v"
    and "\<And>h pos. h < heads \<Longrightarrow> pos < len \<Longrightarrow>
      (let r = slot_row heads bs (nat (bt ! (pos div bs)) * bs + pos mod bs) h in
       row d out_k (h * len + pos) = row d ks r \<and> row d out_v (h * len + pos) = row d vs r)"
proof (cases "len = 0")
  case True
  then show ?thesis using that [of ok0 ov0] outs by (simp add: KvGatherF32_def)
next
  case False
  let ?nb = "ceil_div (int len) (int bs)"
  define a where "a = \<lparr>ga_k_slab = ks, ga_v_slab = vs, ga_block_table = bt,
      ga_block_stride = int heads * int bs * int d, ga_head_stride = int bs * int d,
      ga_block_size = int bs, ga_length = int len, ga_d = int d, ga_num_blocks = ?nb, ga_out_k = ok0, ga_out_v = ov0\<rparr>"
  have nb0: "0 \<le> ?nb" using ceil_div_nonneg [of "int bs" "int len"] assms(2) by simp
  have ok: "gather_ok heads n a" using assms False nb0 by (auto simp: gather_ok_def a_def)
  have sz: "gather_size heads a = int heads * ?nb" by (simp add: gather_size_def a_def)
  define prs where "prs = concat (map (unit_rows heads a) [0..<nat (gather_size heads a)])"
  have sz0: "0 \<le> gather_size heads a" using nb0 by (simp add: sz)
  have "parallel_for ord (gather_size heads a) kBlockGrain (\<lambda>b e. fold_ok gather_unit [b..e - 1]) a =
      Inr (fold (gather_eff heads) [0..gather_size heads a - 1] a)"
    using ok T sz sz0 by (intro gather.parallel_for_sequential) (auto simp: kBlockGrain_def)
  moreover have "(\<lambda>b e. fold_ok gather_unit [b..e - 1]) = (GatherRange :: _ \<Rightarrow> _ \<Rightarrow> 'a GatherArgs \<Rightarrow> _)"
    by (simp add: fun_eq_iff GatherRange_def)
  moreover have "[0..gather_size heads a - 1] = map int [0..<nat (gather_size heads a)]"
    using upto_map_int [of "nat (gather_size heads a)"] sz0 by simp
  ultimately have run: "parallel_for ord (int heads * ?nb) kBlockGrain GatherRange a =
      Inr (a\<lparr>ga_out_k := put_rows d ks prs ok0, ga_out_v := put_rows d vs prs ov0\<rparr>)"
    by (simp add: gather_eff_fold prs_def sz) (simp add: a_def)
  have "c_div (int len + int bs - 1) (int bs) = ?nb" using assms(2) False by (simp add: ceil_div_def)
  then have res: "KvGatherF32 ord ks vs bt (int bs) (int len) (int heads) (int d) ok0 ov0 =
      Inr (put_rows d ks prs ok0, put_rows d vs prs ov0)"
    using run False by (simp add: KvGatherF32_def Let_def a_def)
  have rng: "\<forall>(r, q)\<in>set prs. r < heads * len \<and> q < n * heads * bs"
    using unit_rows_range [OF ok] by (fastforce simp: prs_def a_def)
  have dst: "distinct (map fst prs)" unfolding prs_def by (rule unit_rows_distinct [OF ok]) auto
  show thesis
  proof (rule that [OF res])
    show "has_rows d (heads * len) (put_rows d ks prs ok0)" "has_rows d (heads * len) (put_rows d vs prs ov0)"
      using put_rows_has_rows [OF outs(1) has_covers [OF slabs(1)] rng] put_rows_has_rows [OF outs(2) has_covers [OF slabs(2)] rng] by auto
    fix h pos assume hp: "h < heads" "pos < len"
    let ?r = "slot_row heads bs (nat (bt ! (pos div bs)) * bs + pos mod bs) h"
    have "(h * len + pos, ?r) \<in> set prs"
      using unit_rows_complete [OF ok hp(1), of pos] hp(2) unfolding prs_def by (simp add: a_def)
    then have m: "map_of prs (h * len + pos) = Some ?r" by (rule map_of_is_SomeI [OF dst])
    have "h * len + pos < heads * len" by (rule nat_radix_less [OF hp])
    then show "let r = ?r in row d (put_rows d ks prs ok0) (h * len + pos) = row d ks r \<and>
        row d (put_rows d vs prs ov0) (h * len + pos) = row d vs r"
      using row_put_rows [OF outs(1) has_covers [OF slabs(1)] rng dst] row_put_rows [OF outs(2) has_covers [OF slabs(2)] rng dst] m by (simp add: Let_def)
  qed
qed

section \<open>Properties\<close>

text \<open>The parallel scatter is deterministic: whatever the number of threads and the interleaving of the
  chunks, it ends normally with the same slabs, and each token's row of each head is in its slot while
  every row of an unmapped slot is untouched.\<close>

theorem scatter_order_independent:
  assumes "scatter_ok n a"
    and "0 < T" "region_order T (nat (CeilDiv (scatter_size a) kTokenGrain)) ord"
    and "0 < T'" "region_order T' (nat (CeilDiv (scatter_size a) kTokenGrain)) ord'"
  shows "KvScatterF32 ord (scatter_size a) a = KvScatterF32 ord' (scatter_size a) a \<and>
    (\<exists>ks vs. KvScatterF32 ord (scatter_size a) a = Inr (a\<lparr>sc_k_slab := ks, sc_v_slab := vs\<rparr>) \<and>
      (\<forall>t h. t < length (sc_slot_mapping a) \<longrightarrow> h < nat (sc_kv_heads a) \<longrightarrow>
        (let r = slot_row (nat (sc_kv_heads a)) (nat (sc_block_size a)) (nat (sc_slot_mapping a ! t)) h in
          row (nat (sc_d a)) ks r = row (nat (sc_d a)) (sc_src_k a) (t * nat (sc_kv_heads a) + h) \<and>
          row (nat (sc_d a)) vs r = row (nat (sc_d a)) (sc_src_v a) (t * nat (sc_kv_heads a) + h))) \<and>
      (\<forall>sl h. sl < n * nat (sc_block_size a) \<longrightarrow> h < nat (sc_kv_heads a) \<longrightarrow> int sl \<notin> set (sc_slot_mapping a) \<longrightarrow>
        (let r = slot_row (nat (sc_kv_heads a)) (nat (sc_block_size a)) sl h in
          row (nat (sc_d a)) ks r = row (nat (sc_d a)) (sc_k_slab a) r \<and>
          row (nat (sc_d a)) vs r = row (nat (sc_d a)) (sc_v_slab a) r)))"
  using KvScatter_put_rows [OF assms(1-3)] KvScatter_put_rows [OF assms(1,4,5)] KvScatter_rows_ex [OF assms(1-3)]
  by (metis (no_types, lifting))

text \<open>Twenty-four tokens into as many slots, reversed: two chunks, on one thread or in reverse order on two.\<close>

definition sample_scatter :: "int ScatterArgs" where
  "sample_scatter = \<lparr>sc_src_k = [0..23], sc_src_v = [0..23], sc_slot_mapping = rev [0..23],
     sc_kv_heads = 1, sc_d = 1, sc_block_size = 8, sc_k_slab = replicate 24 0, sc_v_slab = replicate 24 0\<rparr>"

theorem scatter_order_independent_witness:
  "KvScatterF32 [0, 1] 24 sample_scatter = KvScatterF32 [1, 0] 24 sample_scatter"
proof -
  have ok: "scatter_ok 3 sample_scatter"
    by (auto simp: scatter_ok_def sample_scatter_def has_rows_def covers_rows_def)
  have sz: "scatter_size sample_scatter = 24" by code_simp
  have n: "nat (CeilDiv 24 kTokenGrain) = 2" by code_simp
  have "region_order 1 2 [0, 1]" "region_order 2 2 [1, 0]"
    by (simp_all add: region_order_def worker_chunks.simps less_2_cases_iff all_conj_distrib)
  then show ?thesis
    using scatter_order_independent [OF ok, of 1 "[0, 1]" 2 "[1, 0]"] unfolding sz n by simp
qed

end
