(* ===== verification/Kv_Cache.thy ===== *)
theory Kv_Cache
  imports Block_Table Tensor Kv_Kernels
begin

text \<open>
  The KV cache interface, \<open>src/src/kvcache/kv_cache.h\<close>, and what both implementations share: the check
  of an append block and the view type. The locale \<open>kv_cache\<close> is the interface's contract. It speaks
  about the content of a cache: per layer, the list of cached tokens, a token being its list of
  per-head rows. An in-order append extends one layer's content or runs out of resources and changes
  nothing; a view is the head-major flattening of the content; truncation keeps a prefix. The client
  lemmas about whole forwards and their rollback are proved once from the contract.
\<close>

section \<open>Interface types\<close>

record 'f KvView =
  view_k :: "'f list Tensor"
  view_v :: "'f list Tensor"

text \<open>\<open>RequireAppendBlock\<close> of \<open>simple_cache.cpp\<close>.\<close>

definition SimpleRequireAppendBlock :: "'f list Tensor \<Rightarrow> CacheGeometry \<Rightarrow> unit status_or" where
  "SimpleRequireAppendBlock t g =
     (if rank (t_shape t) \<noteq> 3 then InvalidArgumentError
      else case is_contiguous t of
        Inl e \<Rightarrow> Inl e
      | Inr c \<Rightarrow>
          if \<not> c then InvalidArgumentError
          else if t_dtype t \<noteq> kFloat32 then InvalidArgumentError
          else case (dim (t_shape t) 0, dim (t_shape t) 1, dim (t_shape t) 2) of
            (Inr d0, Inr d1, Inr d2) \<Rightarrow>
              if d0 < 1 \<or> d1 \<noteq> num_kv_heads g \<or> d2 \<noteq> head_dim g then InvalidArgumentError else Inr ()
          | _ \<Rightarrow> Inl CheckFailed)"

text \<open>\<open>RequireAppendBlock\<close> of \<open>paged_cache.cpp\<close>, its own copy in the source too.\<close>

definition PagedRequireAppendBlock :: "'f list Tensor \<Rightarrow> CacheGeometry \<Rightarrow> unit status_or" where
  "PagedRequireAppendBlock t g =
     (if rank (t_shape t) \<noteq> 3 then InvalidArgumentError
      else case is_contiguous t of
        Inl e \<Rightarrow> Inl e
      | Inr c \<Rightarrow>
          if \<not> c then InvalidArgumentError
          else if t_dtype t \<noteq> kFloat32 then InvalidArgumentError
          else case (dim (t_shape t) 0, dim (t_shape t) 1, dim (t_shape t) 2) of
            (Inr d0, Inr d1, Inr d2) \<Rightarrow>
              if d0 < 1 \<or> d1 \<noteq> num_kv_heads g \<or> d2 \<noteq> head_dim g then InvalidArgumentError else Inr ()
          | _ \<Rightarrow> Inl CheckFailed)"

text \<open>What the caches take from their surroundings: the thread count and the chunk order of a parallel
  region of so many items and such a grain, and the default CPU allocator.\<close>

record 'f KvEnv =
  env_threads :: nat
  env_order :: "int \<Rightarrow> int \<Rightarrow> nat list"
  env_alloc :: "int \<Rightarrow> 'f list status_or"

definition env_ok :: "'f KvEnv \<Rightarrow> bool" where
  "env_ok e \<longleftrightarrow> 0 < env_threads e \<and>
     (\<forall>n grain. 1 \<le> grain \<longrightarrow> region_order (env_threads e) (nat (CeilDiv n grain)) (env_order e n grain)) \<and>
     (\<forall>bytes. 0 \<le> bytes \<longrightarrow> (\<exists>buf. env_alloc e bytes = Inr buf \<and> int (length buf) = bytes div 4))"

lemma env_okD:
  assumes "env_ok e"
  shows "0 < env_threads e"
    and "1 \<le> grain \<Longrightarrow> region_order (env_threads e) (nat (CeilDiv n grain)) (env_order e n grain)"
    and "0 \<le> bytes \<Longrightarrow> \<exists>buf. env_alloc e bytes = Inr buf \<and> int (length buf) = bytes div 4"
  using assms by (simp_all add: env_ok_def)

section \<open>Cache content\<close>

type_synonym 'f token = "'f list list"

text \<open>The tokens of a token-major \<open>[T, heads, d]\<close> block, and the head-major \<open>[heads, T, d]\<close>
  flattening of a list of tokens.\<close>

definition tokens_of :: "nat \<Rightarrow> nat \<Rightarrow> nat \<Rightarrow> 'f list \<Rightarrow> 'f token list" where
  "tokens_of heads d T fs = map (\<lambda>t. map (\<lambda>h. row d fs (t * heads + h)) [0..<heads]) [0..<T]"

definition head_major :: "nat \<Rightarrow> 'f token list \<Rightarrow> 'f list" where
  "head_major heads toks = concat (map (\<lambda>h. concat (map (\<lambda>tok. tok ! h) toks)) [0..<heads])"

text \<open>A well-formed append block of \<open>T\<close> tokens for a geometry, and its data.\<close>

definition block_ok :: "CacheGeometry \<Rightarrow> nat \<Rightarrow> 'f list Tensor \<Rightarrow> bool" where
  "block_ok g T t \<longleftrightarrow> defined t \<and> t_dtype t = kFloat32 \<and> dims (t_shape t) = [int T, num_kv_heads g, head_dim g] \<and>
     is_contiguous t = Inr True \<and> 1 \<le> T \<and>
     (\<exists>fs. data_ptr_f32 t = Inr fs \<and> covers_rows (nat (head_dim g)) (T * nat (num_kv_heads g)) fs)"

definition block_tokens :: "CacheGeometry \<Rightarrow> 'f list Tensor \<Rightarrow> 'f token list" where
  "block_tokens g t =
     (case data_ptr_f32 t of
        Inr fs \<Rightarrow> tokens_of (nat (num_kv_heads g)) (nat (head_dim g)) (nat (dims (t_shape t) ! 0)) fs
      | Inl _ \<Rightarrow> [])"

lemma block_okD:
  assumes "block_ok g T t"
  obtains fs where "data_ptr_f32 t = Inr fs" "covers_rows (nat (head_dim g)) (T * nat (num_kv_heads g)) fs"
    "block_tokens g t = tokens_of (nat (num_kv_heads g)) (nat (head_dim g)) T fs"
    "dim (t_shape t) 0 = Inr (int T)" "defined t" "1 \<le> T" "length (block_tokens g t) = T"
  using assms by (auto simp: block_ok_def block_tokens_def dim_def DimVector_at_def tokens_of_def)

lemma block_ok_require:
  assumes "block_ok g T t"
  shows "SimpleRequireAppendBlock t g = Inr ()" and "PagedRequireAppendBlock t g = Inr ()"
  using assms
  by (auto simp: block_ok_def SimpleRequireAppendBlock_def PagedRequireAppendBlock_def rank_def dim_def DimVector_at_def)

text \<open>A flat array whose rows are the tokens' rows is their head-major flattening.\<close>

lemma concat_rows: "length ys = n * d \<Longrightarrow> concat (map (row d ys) [0..<n]) = ys"
proof (induction n arbitrary: ys)
  case (Suc n)
  have "row d (drop d ys) = (\<lambda>r. row d ys (Suc r))" by (simp add: fun_eq_iff row_drop)
  then have tl: "concat (map (\<lambda>r. row d ys (Suc r)) [0..<n]) = drop d ys" using Suc.IH [of "drop d ys"] Suc.prems by simp
  have "map (row d ys) [0..<Suc n] = row d ys 0 # map (\<lambda>r. row d ys (Suc r)) [0..<n]"
    by (simp add: upt_conv_Cons map_Suc_upt [symmetric] comp_def del: upt_Suc)
  then have "concat (map (row d ys) [0..<Suc n]) = row d ys 0 @ drop d ys" using tl by simp
  also have "\<dots> = ys" by (rule row_split [symmetric])
  finally show ?case .
qed simp

lemma upt_nested: "[0..<m * n] = concat (map (\<lambda>h. map (\<lambda>p. h * n + p) [0..<n]) [0..<m])"
proof (induction m)
  case (Suc m)
  have "[0..<Suc m * n] = [0..<m * n] @ [m * n..<m * n + n]"
    using upt_add_eq_append [of 0 "m * n" n] by (simp add: add.commute)
  also have "[m * n..<m * n + n] = map (\<lambda>p. m * n + p) [0..<n]"
    by (rule nth_equalityI) auto
  finally show ?case using Suc by simp
qed simp

lemma head_major_eqI:
  assumes "has_rows d (heads * length toks) xs"
    and "\<And>h pos. h < heads \<Longrightarrow> pos < length toks \<Longrightarrow> row d xs (h * length toks + pos) = toks ! pos ! h"
  shows "xs = head_major heads toks"
proof -
  let ?n = "length toks"
  have cc: "concat (map f (concat xss)) = concat (map (\<lambda>xs. concat (map f xs)) xss)" for f :: "nat \<Rightarrow> 'a list" and xss
    by (induction xss) auto
  have "head_major heads toks = concat (map (\<lambda>h. concat (map (\<lambda>p. toks ! p ! h) [0..<?n])) [0..<heads])"
  proof -
    have "map (\<lambda>tok. tok ! h) toks = map (\<lambda>p. toks ! p ! h) [0..<?n]" for h
      by (rule nth_equalityI) auto
    then show ?thesis by (simp add: head_major_def)
  qed
  also have "\<dots> = concat (map (\<lambda>h. concat (map (\<lambda>p. row d xs (h * ?n + p)) [0..<?n])) [0..<heads])"
    by (rule arg_cong [of _ _ concat], rule map_cong [OF refl], rule arg_cong [of _ _ concat], rule map_cong [OF refl])
       (simp add: assms(2))
  also have "\<dots> = concat (map (row d xs) [0..<heads * ?n])"
    unfolding upt_nested [of heads ?n] cc by (simp add: comp_def)
  also have "\<dots> = xs" using assms(1) by (intro concat_rows) (simp add: has_rows_def)
  finally show ?thesis ..
qed

section \<open>Fresh tensors\<close>

lemma empty_tensor_ok:
  assumes "env_ok e" and "0 \<le> numel sh" and "numel sh * 4 \<le> INT64_MAX"
  obtains buf where "Tensor_empty Cpu (env_alloc e) sh kFloat32 Cpu = Inr \<lparr>t_buffer = Some buf, t_byte_offset = 0,
      t_shape = sh, t_strides = RowMajorStrides sh, t_dtype = kFloat32, t_device = Cpu\<rparr>"
    and "length buf = nat (numel sh)"
proof -
  have m: "mul_overflow (numel sh) 4 = Some (numel sh * 4)" using assms(2,3) by (simp add: mul_overflow_def int_width_defs)
  have "0 \<le> numel sh * 4" using assms(2) by simp
  from env_okD(3) [OF assms(1) this] obtain buf where
    b: "env_alloc e (numel sh * 4) = Inr buf" "int (length buf) = numel sh" by auto
  show thesis
    by (rule that [of buf]) (use m b in \<open>auto simp: Tensor_empty_def IsReservedDataType_def is_cuda_def Cpu_def\<close>)
qed

lemma zeros_ok:
  assumes "env_ok e" and "0 \<le> numel sh" and "numel sh * 4 \<le> INT64_MAX"
  shows "zeros_f32 (env_alloc e) sh = Inr \<lparr>t_buffer = Some (replicate (nat (numel sh)) 0), t_byte_offset = 0,
      t_shape = sh, t_strides = RowMajorStrides sh, t_dtype = kFloat32, t_device = Cpu\<rparr>"
proof -
  obtain buf where "Tensor_empty Cpu (env_alloc e) sh kFloat32 Cpu = Inr \<lparr>t_buffer = Some buf, t_byte_offset = 0,
      t_shape = sh, t_strides = RowMajorStrides sh, t_dtype = kFloat32, t_device = Cpu\<rparr>" "length buf = nat (numel sh)"
    using empty_tensor_ok [OF assms] by metis
  then show ?thesis using assms(2) by (auto simp: zeros_f32_def)
qed

text \<open>The shape of a view is valid when the cache's own storage size is.\<close>

lemma view_shape_ok:
  assumes "0 < H" and "0 < d" and "n \<le> N" and "0 < N" and "int (H * N * d) * 4 \<le> INT64_MAX"
  shows "Shape_ctor [int H, int n, int d] = Inr \<lparr>dims = [int H, int n, int d], numel = int (H * n * d)\<rparr>"
    and "int (H * n * d) * 4 \<le> INT64_MAX"
proof -
  have "H * n * d \<le> H * N * d" using assms(3) by simp
  then have "int (H * n * d) \<le> int (H * N * d)" by (simp only: of_nat_le_iff)
  then show b: "int (H * n * d) * 4 \<le> INT64_MAX" using assms(5) by linarith
  have "H * d \<le> H * N * d" using assms(4) by simp
  then have "int (H * d) \<le> int (H * N * d)" by (simp only: of_nat_le_iff)
  then have "int (H * d) \<le> INT64_MAX" using assms(5) by (simp add: INT64_MAX_def)
  moreover have "int (H * n * d) \<le> INT64_MAX" using b by (simp add: INT64_MAX_def)
  ultimately have "valid_dims [int H, int n, int d]"
    using assms(1,2) by (auto simp: valid_dims_def kMaxRank_def mult.assoc)
  from Shape_ctor_ok [OF this] show "Shape_ctor [int H, int n, int d] = Inr \<lparr>dims = [int H, int n, int d], numel = int (H * n * d)\<rparr>"
    by (simp add: mult.assoc)
qed

section \<open>The contract\<close>

text \<open>How a forward uses a cache: it appends one block per layer, in layer order, and stops at the
  first error.\<close>

fun append_layers ::
  "('s \<Rightarrow> int \<Rightarrow> 'b \<Rightarrow> 'b \<Rightarrow> 's \<times> unit status_or) \<Rightarrow> 's \<Rightarrow> int \<Rightarrow> ('b \<times> 'b) list \<Rightarrow> 's \<times> unit status_or" where
  "append_layers append_kv s layer [] = (s, Inr ())"
| "append_layers append_kv s layer ((k, v) # kvs) =
     (case append_kv s layer k v of
        (s', Inl e) \<Rightarrow> (s', Inl e)
      | (s', Inr _) \<Rightarrow> append_layers append_kv s' (layer + 1) kvs)"

definition layer_of :: "CacheGeometry \<Rightarrow> int \<Rightarrow> bool" where
  "layer_of g l \<longleftrightarrow> 0 \<le> l \<and> l < num_layers g"

definition view_of :: "CacheGeometry \<Rightarrow> 'f token list \<Rightarrow> 'f list Tensor \<Rightarrow> bool" where
  "view_of g toks t \<longleftrightarrow> t_buffer t = Some (head_major (nat (num_kv_heads g)) toks) \<and>
     dims (t_shape t) = [num_kv_heads g, int (length toks), head_dim g] \<and>
     t_strides t = RowMajorStrides (t_shape t) \<and> t_byte_offset t = 0 \<and> t_dtype t = kFloat32"

locale kv_cache =
  fixes append_kv :: "'s \<Rightarrow> int \<Rightarrow> 'f list Tensor \<Rightarrow> 'f list Tensor \<Rightarrow> 's \<times> unit status_or"
    and view :: "'s \<Rightarrow> int \<Rightarrow> 'f KvView status_or"
    and truncate :: "'s \<Rightarrow> int \<Rightarrow> 's status_or"
    and geom :: "'s \<Rightarrow> CacheGeometry"
    and kcontent :: "'s \<Rightarrow> int \<Rightarrow> 'f token list"
    and vcontent :: "'s \<Rightarrow> int \<Rightarrow> 'f token list"
    and inv :: "'s \<Rightarrow> bool"
  assumes content_len: "inv s \<Longrightarrow> layer_of (geom s) l \<Longrightarrow> length (vcontent s l) = length (kcontent s l)"
    and append_spec: "inv s \<Longrightarrow> layer_of (geom s) layer \<Longrightarrow> block_ok (geom s) T k \<Longrightarrow> block_ok (geom s) T v \<Longrightarrow>
      (\<And>l. layer_of (geom s) l \<Longrightarrow> length (kcontent s l) = (if l < layer then n + T else n)) \<Longrightarrow>
      \<exists>s' r. append_kv s layer k v = (s', r) \<and> inv s' \<and> geom s' = geom s \<and>
        (r = Inr () \<and> (\<forall>l. layer_of (geom s) l \<longrightarrow>
            kcontent s' l = kcontent s l @ (if l = layer then block_tokens (geom s) k else []) \<and>
            vcontent s' l = vcontent s l @ (if l = layer then block_tokens (geom s) v else [])) \<or>
         r = ResourceExhaustedError \<and> (\<forall>l. layer_of (geom s) l \<longrightarrow>
            kcontent s' l = kcontent s l \<and> vcontent s' l = vcontent s l))"
    and view_spec: "inv s \<Longrightarrow> layer_of (geom s) layer \<Longrightarrow>
      \<exists>w. view s layer = Inr w \<and> view_of (geom s) (kcontent s layer) (view_k w) \<and>
        view_of (geom s) (vcontent s layer) (view_v w)"
    and truncate_spec: "inv s \<Longrightarrow> (\<And>l. layer_of (geom s) l \<Longrightarrow> m \<le> length (kcontent s l)) \<Longrightarrow>
      \<exists>s'. truncate s (int m) = Inr s' \<and> inv s' \<and> geom s' = geom s \<and>
        (\<forall>l. layer_of (geom s) l \<longrightarrow> kcontent s' l = take m (kcontent s l) \<and> vcontent s' l = take m (vcontent s l))"
begin

text \<open>A forward, or the first layers of one: every layer below \<open>layer\<close> already holds the \<open>T\<close> new tokens, the
  others the same \<open>n\<close> old ones.\<close>

lemma forward_spec:
  assumes "inv s" and "0 \<le> layer" and "layer + int (length kvs) \<le> num_layers (geom s)"
    and "\<And>k v. (k, v) \<in> set kvs \<Longrightarrow> block_ok (geom s) T k \<and> block_ok (geom s) T v"
    and "\<And>l. layer_of (geom s) l \<Longrightarrow> length (kcontent s l) = (if l < layer then n + T else n)"
  shows "\<exists>s' r. append_layers append_kv s layer kvs = (s', r) \<and> inv s' \<and> geom s' = geom s \<and>
    (\<forall>l. layer_of (geom s) l \<longrightarrow>
      (\<exists>ks vs. kcontent s' l = kcontent s l @ ks \<and> vcontent s' l = vcontent s l @ vs)) \<and>
    (r = Inr () \<and> (\<forall>l. layer_of (geom s) l \<longrightarrow>
        kcontent s' l = kcontent s l @ (if layer \<le> l \<and> l < layer + int (length kvs) then block_tokens (geom s) (fst (kvs ! nat (l - layer))) else []) \<and>
        vcontent s' l = vcontent s l @ (if layer \<le> l \<and> l < layer + int (length kvs) then block_tokens (geom s) (snd (kvs ! nat (l - layer))) else [])) \<or>
     r = ResourceExhaustedError)"
  using assms
proof (induction kvs arbitrary: s layer)
  case Nil
  then show ?case by (auto simp: layer_of_def)
next
  case (Cons kv kvs)
  obtain k v where kv: "kv = (k, v)" by force
  let ?g = "geom s"
  have lo: "layer_of ?g layer" using Cons.prems(2,3) by (simp add: layer_of_def)
  have bk: "block_ok ?g T k" "block_ok ?g T v" using Cons.prems(4) kv by auto
  obtain s1 r1 where a: "append_kv s layer k v = (s1, r1)" "inv s1" "geom s1 = ?g" and
    d: "r1 = Inr () \<and> (\<forall>l. layer_of ?g l \<longrightarrow>
            kcontent s1 l = kcontent s l @ (if l = layer then block_tokens ?g k else []) \<and>
            vcontent s1 l = vcontent s l @ (if l = layer then block_tokens ?g v else [])) \<or>
         r1 = ResourceExhaustedError \<and> (\<forall>l. layer_of ?g l \<longrightarrow> kcontent s1 l = kcontent s l \<and> vcontent s1 l = vcontent s l)"
    using append_spec [OF Cons.prems(1) lo bk Cons.prems(5)] by blast
  from d show ?case
  proof (elim disjE conjE)
    assume "r1 = ResourceExhaustedError" "\<forall>l. layer_of ?g l \<longrightarrow> kcontent s1 l = kcontent s l \<and> vcontent s1 l = vcontent s l"
    then show ?thesis using a kv by auto
  next
    assume r1: "r1 = Inr ()" and c: "\<forall>l. layer_of ?g l \<longrightarrow>
            kcontent s1 l = kcontent s l @ (if l = layer then block_tokens ?g k else []) \<and>
            vcontent s1 l = vcontent s l @ (if l = layer then block_tokens ?g v else [])"
    have T: "length (block_tokens ?g k) = T" using block_okD [OF bk(1)] by metis
    have len1: "length (kcontent s1 l) = (if l < layer + 1 then n + T else n)" if "layer_of ?g l" for l
      using c Cons.prems(5) [OF that] that T by auto
    have pre: "inv s1" "0 \<le> layer + 1" "layer + 1 + int (length kvs) \<le> num_layers (geom s1)"
      "\<And>k v. (k, v) \<in> set kvs \<Longrightarrow> block_ok (geom s1) T k \<and> block_ok (geom s1) T v"
      using a Cons.prems by auto
    obtain s' r where IH: "append_layers append_kv s1 (layer + 1) kvs = (s', r)" "inv s'" "geom s' = ?g"
      "\<forall>l. layer_of ?g l \<longrightarrow> (\<exists>ks vs. kcontent s' l = kcontent s1 l @ ks \<and> vcontent s' l = vcontent s1 l @ vs)"
      "r = Inr () \<and> (\<forall>l. layer_of ?g l \<longrightarrow>
        kcontent s' l = kcontent s1 l @ (if layer + 1 \<le> l \<and> l < layer + 1 + int (length kvs) then block_tokens ?g (fst (kvs ! nat (l - (layer + 1)))) else []) \<and>
        vcontent s' l = vcontent s1 l @ (if layer + 1 \<le> l \<and> l < layer + 1 + int (length kvs) then block_tokens ?g (snd (kvs ! nat (l - (layer + 1)))) else [])) \<or>
       r = ResourceExhaustedError"
      using Cons.IH [OF pre] len1 a(3) by auto
    have nth: "(kv # kvs) ! nat (l - layer) = (if l = layer then (k, v) else kvs ! nat (l - (layer + 1)))"
      if "layer \<le> l" for l
    proof (cases "l = layer")
      case False
      then have "nat (l - layer) = Suc (nat (l - (layer + 1)))" using that by linarith
      then show ?thesis using False by simp
    qed (simp add: kv)
    have ex: "\<forall>l. layer_of ?g l \<longrightarrow> (\<exists>ks vs. kcontent s' l = kcontent s l @ ks \<and> vcontent s' l = vcontent s l @ vs)"
      using IH(4) c by (metis append.assoc)
    show ?thesis
      using a(1) r1 IH(1-3) ex kv IH(5) c nth by (intro exI [of _ s'] exI [of _ r]) auto
  qed
qed

text \<open>After a forward, finished, failed or abandoned after some of its layers, truncating to the old
  length restores the content.\<close>

lemma rollback_restores:
  assumes "inv s" and "int (length kvs) \<le> num_layers (geom s)"
    and "\<And>k v. (k, v) \<in> set kvs \<Longrightarrow> block_ok (geom s) T k \<and> block_ok (geom s) T v"
    and n: "\<And>l. layer_of (geom s) l \<Longrightarrow> length (kcontent s l) = n"
    and run: "append_layers append_kv s 0 kvs = (s', r)"
  shows "\<exists>s''. truncate s' (int n) = Inr s'' \<and> inv s'' \<and> geom s'' = geom s \<and>
    (\<forall>l. layer_of (geom s) l \<longrightarrow> kcontent s'' l = kcontent s l \<and> vcontent s'' l = vcontent s l)"
proof -
  have z: "0 + int (length kvs) \<le> num_layers (geom s)" using assms(2) by simp
  have len: "length (kcontent s l) = (if l < 0 then n + T else n)" if "layer_of (geom s) l" for l
    using n [OF that] that by (simp add: layer_of_def)
  have f: "inv s'" "geom s' = geom s" "\<forall>l. layer_of (geom s) l \<longrightarrow>
      (\<exists>ks vs. kcontent s' l = kcontent s l @ ks \<and> vcontent s' l = vcontent s l @ vs)"
    using forward_spec [OF assms(1) order_refl z assms(3) len] run by auto
  have "n \<le> length (kcontent s' l)" if "layer_of (geom s') l" for l using f(2,3) n [of l] that by fastforce
  then obtain s'' where t: "truncate s' (int n) = Inr s''" "inv s''" "geom s'' = geom s"
    "\<forall>l. layer_of (geom s) l \<longrightarrow> kcontent s'' l = take n (kcontent s' l) \<and> vcontent s'' l = take n (vcontent s' l)"
    using truncate_spec [OF f(1), of n] f(2) by auto
  have "kcontent s'' l = kcontent s l \<and> vcontent s'' l = vcontent s l" if "layer_of (geom s) l" for l
    using t(4) f(3) that n [OF that] content_len [OF assms(1) that] by fastforce
  then show ?thesis using t(1-3) by blast
qed

text \<open>After a completed forward every layer's view is the flattening of its old and new tokens.\<close>

lemma view_after_forward:
  assumes "inv s" and "int (length kvs) = num_layers (geom s)"
    and "\<And>k v. (k, v) \<in> set kvs \<Longrightarrow> block_ok (geom s) T k \<and> block_ok (geom s) T v"
    and n: "\<And>l. layer_of (geom s) l \<Longrightarrow> length (kcontent s l) = n"
    and run: "append_layers append_kv s 0 kvs = (s', Inr ())" and l: "layer_of (geom s) l"
  shows "inv s' \<and> geom s' = geom s \<and> (\<exists>w. view s' l = Inr w \<and>
    kcontent s' l = kcontent s l @ block_tokens (geom s) (fst (kvs ! nat l)) \<and>
    vcontent s' l = vcontent s l @ block_tokens (geom s) (snd (kvs ! nat l)) \<and>
    view_of (geom s) (kcontent s' l) (view_k w) \<and> view_of (geom s) (vcontent s' l) (view_v w))"
proof -
  have z: "0 + int (length kvs) \<le> num_layers (geom s)" using assms(2) by simp
  have len: "length (kcontent s l) = (if l < 0 then n + T else n)" if "layer_of (geom s) l" for l
    using n [OF that] that by (simp add: layer_of_def)
  have f: "inv s'" "geom s' = geom s"
    "kcontent s' l = kcontent s l @ block_tokens (geom s) (fst (kvs ! nat l)) \<and>
     vcontent s' l = vcontent s l @ block_tokens (geom s) (snd (kvs ! nat l))"
    using forward_spec [OF assms(1) order_refl z assms(3) len] run l assms(2) by (auto simp: layer_of_def)
  then show ?thesis using view_spec [of s' l] l by auto
qed

end

end
