(* ===== verification/Simple_Cache.thy ===== *)
theory Simple_Cache
  imports Kv_Cache
begin

text \<open>
  The contiguous reference cache, \<open>src/src/kvcache/simple_cache.{h,cpp}\<close>. The two stores are the flat
  buffers of the \<open>[layers, heads, capacity, d]\<close> tensors. The end of the theory interprets \<open>kv_cache\<close>
  on its operations.
\<close>

section \<open>State and operations\<close>

record 'f SimpleKvCache =
  s_geom :: CacheGeometry
  s_capacity :: int
  s_k_store :: "'f list"
  s_v_store :: "'f list"
  s_fill :: "int list"

definition Simple_layer_in_range :: "'f SimpleKvCache \<Rightarrow> int \<Rightarrow> bool" where
  "Simple_layer_in_range c layer \<longleftrightarrow> 0 \<le> layer \<and> layer < num_layers (s_geom c)"

definition SimpleKvCache_Create ::
  "(int \<Rightarrow> ('f :: zero) list status_or) \<Rightarrow> CacheGeometry \<Rightarrow> int \<Rightarrow> 'f SimpleKvCache status_or" where
  "SimpleKvCache_Create alloc g cap =
     (if num_layers g < 1 \<or> num_kv_heads g < 1 \<or> head_dim g < 1 then InvalidArgumentError
      else if cap < 1 then InvalidArgumentError
      else if dtype g \<noteq> kFloat32 then UnimplementedError
      else case Shape_ctor [num_layers g, num_kv_heads g, cap, head_dim g] of
        Inl e \<Rightarrow> Inl e
      | Inr sh \<Rightarrow>
          (case zeros_f32 alloc sh of
             Inl e \<Rightarrow> Inl e
           | Inr k \<Rightarrow>
               (case zeros_f32 alloc sh of
                  Inl e \<Rightarrow> Inl e
                | Inr v \<Rightarrow>
                    (case (data_ptr_f32 k, data_ptr_f32 v) of
                       (Inr kb, Inr vb) \<Rightarrow>
                         Inr \<lparr>s_geom = g, s_capacity = cap, s_k_store = kb, s_v_store = vb,
                              s_fill = replicate (nat (num_layers g)) 0\<rparr>
                     | _ \<Rightarrow> Inl CheckFailed))))"

text \<open>\<open>*min_element(fill_)\<close>; the fill vector has one entry per layer, at least one.\<close>

definition Simple_length :: "'f SimpleKvCache \<Rightarrow> int" where
  "Simple_length c = Min (set (s_fill c))"

definition Simple_layer_length :: "'f SimpleKvCache \<Rightarrow> int \<Rightarrow> int" where
  "Simple_layer_length c layer = (if \<not> Simple_layer_in_range c layer then 0 else s_fill c ! nat layer)"

text \<open>The transposing copy: \<open>src[t, h]\<close> goes to \<open>store[layer, h, old + t]\<close>, token by token, head by
  head; the innermost element loop copies one row of \<open>d\<close> floats.\<close>

definition simple_scatter :: "int \<Rightarrow> int \<Rightarrow> int \<Rightarrow> int \<Rightarrow> int \<Rightarrow> int \<Rightarrow> 'f list \<Rightarrow> 'f list \<Rightarrow> 'f list status_or" where
  "simple_scatter layer_base cap old t_dim hkv d src store =
     fold_ok (\<lambda>t. fold_ok (\<lambda>h st.
         copy_floats st (((layer_base + h) * cap + (old + t)) * d) src ((t * hkv + h) * d) d)
       [0..hkv - 1]) [0..t_dim - 1] store"

definition Simple_append ::
  "'f SimpleKvCache \<Rightarrow> int \<Rightarrow> 'f list Tensor \<Rightarrow> 'f list Tensor \<Rightarrow> 'f SimpleKvCache \<times> unit status_or" where
  "Simple_append c layer k v =
     (let g = s_geom c in
      if \<not> (defined k \<and> defined v) then (c, Inl CheckFailed)
      else if \<not> Simple_layer_in_range c layer then (c, InvalidArgumentError)
      else case SimpleRequireAppendBlock k g of
        Inl e \<Rightarrow> (c, Inl e)
      | Inr _ \<Rightarrow>
      (case SimpleRequireAppendBlock v g of
        Inl e \<Rightarrow> (c, Inl e)
      | Inr _ \<Rightarrow>
      (case (dim (t_shape k) 0, dim (t_shape v) 0) of
        (Inr t_dim, Inr tv) \<Rightarrow>
          if t_dim \<noteq> tv then (c, InvalidArgumentError)
          else
            let hkv = num_kv_heads g; d = head_dim g; old = s_fill c ! nat layer; next = old + t_dim in
            if s_capacity c < next then (c, ResourceExhaustedError)
            else
              let layer_base = layer * hkv in
              (case (data_ptr_f32 k, data_ptr_f32 v) of
                 (Inr ks, Inr vs) \<Rightarrow>
                   (case simple_scatter layer_base (s_capacity c) old t_dim hkv d ks (s_k_store c) of
                      Inl e \<Rightarrow> (c, Inl e)
                    | Inr k' \<Rightarrow>
                        (case simple_scatter layer_base (s_capacity c) old t_dim hkv d vs (s_v_store c) of
                           Inl e \<Rightarrow> (c\<lparr>s_k_store := k'\<rparr>, Inl e)
                         | Inr v' \<Rightarrow>
                             (c\<lparr>s_k_store := k', s_v_store := v', s_fill := (s_fill c)[nat layer := next]\<rparr>, Inr ())))
               | _ \<Rightarrow> (c, Inl CheckFailed))
      | _ \<Rightarrow> (c, Inl CheckFailed))))"

definition simple_gather :: "int \<Rightarrow> int \<Rightarrow> int \<Rightarrow> int \<Rightarrow> int \<Rightarrow> 'f list \<Rightarrow> 'f list \<Rightarrow> 'f list status_or" where
  "simple_gather layer_base cap fill hkv d store out =
     fold_ok (\<lambda>h o'. copy_floats o' (h * fill * d) store ((layer_base + h) * cap * d) (fill * d)) [0..hkv - 1] out"

definition gather_into :: "'f list Tensor \<Rightarrow> ('f list \<Rightarrow> 'f list status_or) \<Rightarrow> 'f list Tensor status_or" where
  "gather_into t f =
     (case t_buffer t of
        None \<Rightarrow> Inl CheckFailed
      | Some buf \<Rightarrow> (case f buf of Inl e \<Rightarrow> Inl e | Inr buf' \<Rightarrow> Inr (t\<lparr>t_buffer := Some buf'\<rparr>)))"

definition Simple_view :: "(int \<Rightarrow> ('f :: zero) list status_or) \<Rightarrow> 'f SimpleKvCache \<Rightarrow> int \<Rightarrow> 'f KvView status_or" where
  "Simple_view alloc c layer =
     (if \<not> Simple_layer_in_range c layer then InvalidArgumentError
      else
        let hkv = num_kv_heads (s_geom c); d = head_dim (s_geom c); fill = s_fill c ! nat layer in
        case Shape_ctor [hkv, fill, d] of
          Inl e \<Rightarrow> Inl e
        | Inr sh \<Rightarrow>
        (case zeros_f32 alloc sh of
          Inl e \<Rightarrow> Inl e
        | Inr kt \<Rightarrow>
        (case zeros_f32 alloc sh of
          Inl e \<Rightarrow> Inl e
        | Inr vt \<Rightarrow>
            let layer_base = layer * hkv in
            (case gather_into kt (simple_gather layer_base (s_capacity c) fill hkv d (s_k_store c)) of
               Inl e \<Rightarrow> Inl e
             | Inr kt' \<Rightarrow>
                 (case gather_into vt (simple_gather layer_base (s_capacity c) fill hkv d (s_v_store c)) of
                    Inl e \<Rightarrow> Inl e
                  | Inr vt' \<Rightarrow> Inr \<lparr>view_k = kt', view_v = vt'\<rparr>)))))"

definition Simple_truncate :: "'f SimpleKvCache \<Rightarrow> int \<Rightarrow> 'f SimpleKvCache status_or" where
  "Simple_truncate c new_length =
     (if new_length < 0 \<or> Simple_length c < new_length then InvalidArgumentError
      else Inr (c\<lparr>s_fill := replicate (length (s_fill c)) new_length\<rparr>))"

section \<open>Invariant and content\<close>

definition simple_dims :: "'f SimpleKvCache \<Rightarrow> nat \<times> nat \<times> nat \<times> nat" where
  "simple_dims c = (nat (num_layers (s_geom c)), nat (num_kv_heads (s_geom c)), nat (head_dim (s_geom c)), nat (s_capacity c))"

definition simple_wf :: "'f SimpleKvCache \<Rightarrow> bool" where
  "simple_wf c \<longleftrightarrow> ValidateGeometry (s_geom c) = Inr () \<and> 1 \<le> s_capacity c \<and>
     length (s_fill c) = nat (num_layers (s_geom c)) \<and> (\<forall>f\<in>set (s_fill c). 0 \<le> f \<and> f \<le> s_capacity c) \<and>
     (case simple_dims c of (L, H, d, cap) \<Rightarrow>
        has_rows d (L * H * cap) (s_k_store c) \<and> has_rows d (L * H * cap) (s_v_store c) \<and>
        int (L * H * cap * d) * 4 \<le> INT64_MAX)"

text \<open>Row of \<open>store[layer, h, pos]\<close>.\<close>

definition store_row :: "nat \<Rightarrow> nat \<Rightarrow> nat \<Rightarrow> nat \<Rightarrow> nat \<Rightarrow> nat" where
  "store_row H cap layer h pos = (layer * H + h) * cap + pos"

definition store_tokens :: "'f SimpleKvCache \<Rightarrow> 'f list \<Rightarrow> int \<Rightarrow> 'f token list" where
  "store_tokens c store layer =
     (case simple_dims c of (L, H, d, cap) \<Rightarrow>
        map (\<lambda>pos. map (\<lambda>h. row d store (store_row H cap (nat layer) h pos)) [0..<H])
          [0..<nat (s_fill c ! nat layer)])"

lemma store_row_inj:
  assumes "store_row H cap l h p = store_row H cap l' h' p'" and "h < H" "h' < H" "p < cap" "p' < cap"
  shows "l = l' \<and> h = h' \<and> p = p'"
proof -
  have "l * H + h = l' * H + h' \<and> p = p'"
    using assms(1,4,5) by (intro nat_radix_inj [of _ cap]) (auto simp: store_row_def)
  then show ?thesis using nat_radix_inj [of l H h l' h'] assms(2,3) by auto
qed

lemma store_row_less: "l < L \<Longrightarrow> h < H \<Longrightarrow> p < cap \<Longrightarrow> store_row H cap l h p < L * H * cap"
  unfolding store_row_def by (rule nat_radix_less [OF nat_radix_less])

lemma simple_wfD:
  assumes "simple_wf c"
  obtains L H d cap where "num_layers (s_geom c) = int L" "num_kv_heads (s_geom c) = int H" "head_dim (s_geom c) = int d"
    "s_capacity c = int cap" "0 < L" "0 < H" "0 < d" "0 < cap" "simple_dims c = (L, H, d, cap)"
    "length (s_fill c) = L" "\<And>l. l < L \<Longrightarrow> 0 \<le> s_fill c ! l \<and> nat (s_fill c ! l) \<le> cap"
    "has_rows d (L * H * cap) (s_k_store c)" "has_rows d (L * H * cap) (s_v_store c)"
    "int (L * H * cap * d) * 4 \<le> INT64_MAX"
proof (rule that [of "nat (num_layers (s_geom c))" "nat (num_kv_heads (s_geom c))" "nat (head_dim (s_geom c))" "nat (s_capacity c)"])
  fix l assume "l < nat (num_layers (s_geom c))"
  then have "s_fill c ! l \<in> set (s_fill c)" using assms by (simp add: simple_wf_def)
  then show "0 \<le> s_fill c ! l \<and> nat (s_fill c ! l) \<le> nat (s_capacity c)" using assms by (auto simp: simple_wf_def)
qed (use assms in \<open>auto simp: simple_wf_def simple_dims_def ValidateGeometry_ok_iff\<close>)

section \<open>Copies\<close>

definition append_rows :: "nat \<Rightarrow> nat \<Rightarrow> nat \<Rightarrow> nat \<Rightarrow> nat \<Rightarrow> (nat \<times> nat) list" where
  "append_rows H cap layer old T =
     concat (map (\<lambda>t. map (\<lambda>h. (store_row H cap layer h (old + t), t * H + h)) [0..<H]) [0..<T])"

lemma append_rows_range:
  assumes "layer < L" and "old + T \<le> cap"
  shows "\<forall>(r, q)\<in>set (append_rows H cap layer old T). r < L * H * cap \<and> q < T * H"
  using assms by (auto simp: append_rows_def intro!: store_row_less nat_radix_less)

lemma append_rows_distinct:
  assumes "old + T \<le> cap"
  shows "distinct (map fst (append_rows H cap layer old T))"
proof -
  have "distinct (concat (map (\<lambda>t. map (\<lambda>h. store_row H cap layer h (old + t)) [0..<H]) [0..<T]))"
  proof (rule distinct_concat_map)
    fix t t' x assume "t \<in> set [0..<T]" "t' \<in> set [0..<T]"
      "x \<in> set (map (\<lambda>h. store_row H cap layer h (old + t)) [0..<H])"
      "x \<in> set (map (\<lambda>h. store_row H cap layer h (old + t')) [0..<H])"
    then obtain h h' where "store_row H cap layer h (old + t) = store_row H cap layer h' (old + t')" "h < H" "h' < H"
      "t < T" "t' < T" by auto
    then show "t = t'" using store_row_inj [of H cap layer h "old + t" layer h' "old + t'"] assms by auto
  next
    fix t assume "t \<in> set [0..<T]"
    then show "distinct (map (\<lambda>h. store_row H cap layer h (old + t)) [0..<H])"
      using assms store_row_inj [of H cap layer _ "old + t" layer _ "old + t"] by (auto simp: distinct_map inj_on_def)
  qed simp
  then show ?thesis by (simp add: append_rows_def map_concat comp_def)
qed

lemma simple_scatter_ok:
  assumes "has_rows d (L * H * cap) st" and "covers_rows d (T * H) src" and "layer < L" and "old + T \<le> cap"
  shows "simple_scatter (int layer * int H) (int cap) (int old) (int T) (int H) (int d) src st =
    Inr (put_rows d src (append_rows H cap layer old T) st)"
  unfolding simple_scatter_def append_rows_def upto_map_int
proof -
  let ?row = "\<lambda>t h. (store_row H cap layer h (old + t), t * H + h)"
  have rng: "\<forall>(r, q)\<in>set (map (?row t) [0..<H]). r < L * H * cap \<and> q < T * H" if "t < T" for t
    using assms(3,4) that by (auto intro!: store_row_less nat_radix_less)
  have one: "fold_ok (\<lambda>h st. copy_floats st (((int layer * int H + h) * int cap + (int old + int t)) * int d) src
        ((int t * int H + h) * int d) (int d)) (map int [0..<H]) st = Inr (put_rows d src (map (?row t) [0..<H]) st)"
    if t: "t < T" and st: "has_rows d (L * H * cap) st" for t st
  proof -
    have "copy_floats st (((int layer * int H + int h) * int cap + (int old + int t)) * int d) src
        ((int t * int H + int h) * int d) (int d) = Inr (put_rows d src [?row t h] st)"
      if "h < H" "has_rows d (L * H * cap) st" for h st
      using copy_row_ok [OF that(2) assms(2), of "store_row H cap layer h (old + t)" "t * H + h"] rng [OF t] that(1)
      by (force simp: store_row_def put_rows_def)
    then have "fold_ok (\<lambda>h st. copy_floats st (((int layer * int H + int h) * int cap + (int old + int t)) * int d) src
        ((int t * int H + int h) * int d) (int d)) [0..<H] st = Inr (put_rows d src (concat (map (\<lambda>h. [?row t h]) [0..<H])) st)"
      using rng [OF t] by (intro fold_ok_put_rows [OF st assms(2)]) auto
    moreover have "fold_ok f (map int hs) s = fold_ok (\<lambda>h. f (int h)) hs s" for f hs and s :: "'a list"
      by (induction hs arbitrary: s) (auto split: sum.splits)
    ultimately show ?thesis by simp
  qed
  have map_int: "fold_ok f (map int ts) s = fold_ok (\<lambda>t. f (int t)) ts s" for f ts and s :: "'a list"
    by (induction ts arbitrary: s) (auto split: sum.splits)
  show "fold_ok (\<lambda>t. fold_ok (\<lambda>h st. copy_floats st (((int layer * int H + h) * int cap + (int old + t)) * int d) src
        ((t * int H + h) * int d) (int d)) (map int [0..<H])) (map int [0..<T]) st =
      Inr (put_rows d src (concat (map (\<lambda>t. map (?row t) [0..<H]) [0..<T])) st)"
    unfolding map_int [of _ "[0..<T]"] using one rng by (intro fold_ok_put_rows [OF assms(1,2)]) auto
qed

lemma row_append_rows:
  assumes "has_rows d (L * H * cap) st" and "covers_rows d (T * H) src" and "layer < L" and "old + T \<le> cap"
    and "l < L" "h < H" "pos < cap"
  shows "row d (put_rows d src (append_rows H cap layer old T) st) (store_row H cap l h pos) =
    (if l = layer \<and> old \<le> pos \<and> pos < old + T then row d src ((pos - old) * H + h)
     else row d st (store_row H cap l h pos))"
proof -
  let ?prs = "append_rows H cap layer old T"
  note rp = row_put_rows [OF assms(1,2) append_rows_range [OF assms(3,4)] append_rows_distinct [OF assms(4)]
      store_row_less [OF assms(5-7)]]
  show ?thesis
  proof (cases "l = layer \<and> old \<le> pos \<and> pos < old + T")
    case True
    then have "(store_row H cap l h pos, (pos - old) * H + h) \<in> set ?prs"
      using assms(6) by (auto simp: append_rows_def intro!: bexI [of _ "pos - old"])
    then have "map_of ?prs (store_row H cap l h pos) = Some ((pos - old) * H + h)"
      by (rule map_of_is_SomeI [OF append_rows_distinct [OF assms(4)]])
    then show ?thesis using rp True by simp
  next
    case False
    have "store_row H cap l h pos \<notin> fst ` set ?prs"
      using False assms(4,6,7) by (auto simp: append_rows_def dest!: store_row_inj)
    then have "map_of ?prs (store_row H cap l h pos) = None" by (simp add: map_of_eq_None_iff)
    then show ?thesis using rp False by auto
  qed
qed

lemma store_tokens_append:
  assumes "simple_dims c = (L, H, d, cap)" "simple_dims c' = (L, H, d, cap)" and "has_rows d (L * H * cap) st"
    and "covers_rows d (T * H) src" and "layer < L" and "old + T \<le> cap" and "l < L"
    and fill: "s_fill c ! layer = int old" "s_fill c' ! l = (if l = layer then int (old + T) else s_fill c ! l)"
      "nat (s_fill c ! l) \<le> cap"
  shows "store_tokens c' (put_rows d src (append_rows H cap layer old T) st) (int l) =
    store_tokens c st (int l) @ (if l = layer then tokens_of H d T src else [])"
proof -
  let ?st = "put_rows d src (append_rows H cap layer old T) st"
  let ?tok = "\<lambda>xs pos. map (\<lambda>h. row d xs (store_row H cap l h pos)) [0..<H]"
  have tok: "?tok ?st pos = (if l = layer \<and> old \<le> pos \<and> pos < old + T
      then map (\<lambda>h. row d src ((pos - old) * H + h)) [0..<H] else ?tok st pos)" if "pos < cap" for pos
    using row_append_rows [OF assms(3-6) assms(7) _ that] by auto
  have c': "store_tokens c' ?st (int l) = map (?tok ?st) [0..<nat (s_fill c' ! l)]"
    and c: "store_tokens c st (int l) = map (?tok st) [0..<nat (s_fill c ! l)]"
    using assms(1,2) by (simp_all add: store_tokens_def)
  show ?thesis
  proof (cases "l = layer")
    case True
    have up: "[0..<old + T] = [0..<old] @ map (\<lambda>t. old + t) [0..<T]"
      by (rule nth_equalityI) (auto simp: nth_append)
    have "nat (s_fill c' ! l) = old + T" "nat (s_fill c ! l) = old" using True fill by auto
    then have "store_tokens c' ?st (int l) = map (?tok ?st) [0..<old] @ map (\<lambda>t. ?tok ?st (old + t)) [0..<T]"
      "store_tokens c st (int l) = map (?tok st) [0..<old]"
      unfolding c' c by (simp_all only: up map_append map_map comp_def)
    moreover have "map (?tok ?st) [0..<old] = map (?tok st) [0..<old]"
      by (rule map_cong [OF refl]) (use tok assms(6) in auto)
    moreover have "map (\<lambda>t. ?tok ?st (old + t)) [0..<T] = tokens_of H d T src"
      unfolding tokens_of_def by (rule map_cong [OF refl]) (use tok assms(6) True in auto)
    ultimately show ?thesis using True by simp
  next
    case False
    have "s_fill c' ! l = s_fill c ! l" using fill(2) False by simp
    moreover have "map (?tok ?st) [0..<nat (s_fill c ! l)] = map (?tok st) [0..<nat (s_fill c ! l)]"
      by (rule map_cong [OF refl]) (use tok fill(3) False in auto)
    ultimately show ?thesis unfolding c' c using False by simp
  qed
qed

lemma Simple_append_ok:
  assumes wf: "simple_wf c" and lo: "layer_of (s_geom c) layer" and k: "block_ok (s_geom c) T k" and v: "block_ok (s_geom c) T v"
  shows "(s_capacity c < s_fill c ! nat layer + int T \<and> Simple_append c layer k v = (c, ResourceExhaustedError)) \<or>
    (\<exists>c'. Simple_append c layer k v = (c', Inr ()) \<and> simple_wf c' \<and> s_geom c' = s_geom c \<and> s_capacity c' = s_capacity c \<and>
      s_fill c' = (s_fill c)[nat layer := s_fill c ! nat layer + int T] \<and>
      (\<forall>l. layer_of (s_geom c) l \<longrightarrow>
        store_tokens c' (s_k_store c') l = store_tokens c (s_k_store c) l @ (if l = layer then block_tokens (s_geom c) k else []) \<and>
        store_tokens c' (s_v_store c') l = store_tokens c (s_v_store c) l @ (if l = layer then block_tokens (s_geom c) v else [])))"
proof -
  obtain L H d cap where g: "num_layers (s_geom c) = int L" "num_kv_heads (s_geom c) = int H" "head_dim (s_geom c) = int d"
    "s_capacity c = int cap" and dims: "simple_dims c = (L, H, d, cap)" and len: "length (s_fill c) = L"
    and fill: "\<And>l. l < L \<Longrightarrow> 0 \<le> s_fill c ! l \<and> nat (s_fill c ! l) \<le> cap"
    and st: "has_rows d (L * H * cap) (s_k_store c)" "has_rows d (L * H * cap) (s_v_store c)"
    using simple_wfD [OF wf] by metis
  obtain ks where ks: "data_ptr_f32 k = Inr ks" "covers_rows d (T * H) ks" "block_tokens (s_geom c) k = tokens_of H d T ks"
    "dim (t_shape k) 0 = Inr (int T)" "defined k" using block_okD [OF k] g by (metis nat_int)
  obtain vs where vs: "data_ptr_f32 v = Inr vs" "covers_rows d (T * H) vs" "block_tokens (s_geom c) v = tokens_of H d T vs"
    "dim (t_shape v) 0 = Inr (int T)" "defined v" using block_okD [OF v] g by (metis nat_int)
  define ly where "ly = nat layer"
  have ly: "layer = int ly" "ly < L" using lo g(1) by (auto simp: ly_def layer_of_def)
  define old where "old = nat (s_fill c ! ly)"
  have old: "s_fill c ! ly = int old" using fill [OF ly(2)] by (simp add: old_def)
  have inr: "Simple_layer_in_range c layer" using lo by (simp add: Simple_layer_in_range_def layer_of_def)
  show ?thesis
  proof (cases "old + T \<le> cap")
    case False
    then have "int cap < int old + int T" by simp
    then show ?thesis using ks vs inr block_ok_require(1) [OF k] block_ok_require(1) [OF v] old ly(1)
      by (simp add: Simple_append_def Let_def g)
  next
    case True
    define c' where "c' = c\<lparr>s_k_store := put_rows d ks (append_rows H cap ly old T) (s_k_store c),
      s_v_store := put_rows d vs (append_rows H cap ly old T) (s_v_store c), s_fill := (s_fill c)[ly := int (old + T)]\<rparr>"
    have "\<not> int cap < int old + int T" using True by simp
    then have app: "Simple_append c layer k v = (c', Inr ())"
      using ks vs inr block_ok_require(1) [OF k] block_ok_require(1) [OF v] old ly(1)
        simple_scatter_ok [OF st(1) ks(2) ly(2) True] simple_scatter_ok [OF st(2) vs(2) ly(2) True]
      by (simp add: Simple_append_def Let_def g c'_def)
    have dims': "simple_dims c' = (L, H, d, cap)" using dims by (simp add: simple_dims_def c'_def)
    have "\<forall>f\<in>set (s_fill c'). 0 \<le> f \<and> f \<le> int cap"
      using wf g(4) True set_update_subset_insert [of "s_fill c" ly "int (old + T)"] by (auto simp: simple_wf_def c'_def)
    then have "simple_wf c'"
      using wf dims dims' put_rows_has_rows [OF st(1) ks(2) append_rows_range [OF ly(2) True]]
        put_rows_has_rows [OF st(2) vs(2) append_rows_range [OF ly(2) True]]
      by (simp add: simple_wf_def g(4)) (simp add: c'_def g(4))
    moreover have "store_tokens c' (s_k_store c') l = store_tokens c (s_k_store c) l @ (if l = layer then block_tokens (s_geom c) k else []) \<and>
        store_tokens c' (s_v_store c') l = store_tokens c (s_v_store c) l @ (if l = layer then block_tokens (s_geom c) v else [])"
      if "layer_of (s_geom c) l" for l
    proof -
      define l' where "l' = nat l"
      have l': "l = int l'" "l' < L" using that g(1) by (auto simp: l'_def layer_of_def)
      have f: "s_fill c' ! l' = (if l' = ly then int (old + T) else s_fill c ! l')" using len l'(2) by (simp add: c'_def)
      note sa = store_tokens_append [OF dims dims' _ _ ly(2) True l'(2) old f conjunct2 [OF fill [OF l'(2)]]]
      show ?thesis using sa [OF st(1) ks(2)] sa [OF st(2) vs(2)] ks(3) vs(3) ly(1) l'(1) by (simp add: c'_def)
    qed
    moreover have "s_fill c' = (s_fill c)[nat layer := s_fill c ! nat layer + int T]" using old ly by (simp add: c'_def)
    ultimately show ?thesis using app by (auto simp: c'_def)
  qed
qed

lemma simple_gather_ok:
  assumes "has_rows d (H * fill) out" and "has_rows d (L * H * cap) st" and "layer < L" and "fill \<le> cap"
  obtains out' where "simple_gather (int layer * int H) (int cap) (int fill) (int H) (int d) st out = Inr out'"
    and "has_rows d (H * fill) out'"
    and "\<And>h pos. h < H \<Longrightarrow> pos < fill \<Longrightarrow> row d out' (h * fill + pos) = row d st (store_row H cap layer h pos)"
proof -
  let ?prs = "\<lambda>h. map (\<lambda>i. (h * fill + i, (layer * H + h) * cap + i)) [0..<fill]"
  define prs where "prs = concat (map ?prs [0..<H])"
  have rng: "\<forall>(r, q)\<in>set (?prs h). r < H * fill \<and> q < L * H * cap" if "h < H" for h
    using that assms(3,4) by (auto intro!: nat_radix_less)
  have one: "copy_floats o' (int h * int fill * int d) st ((int layer * int H + int h) * int cap * int d) (int fill * int d) =
      Inr (put_rows d st (?prs h) o')" if "h < H" "has_rows d (H * fill) o'" for h o'
  proof -
    have "h * fill + fill \<le> H * fill" by (rule row_bound [OF that(1)])
    moreover have "(layer * H + h) * cap + cap \<le> L * H * cap"
      by (rule row_bound [OF nat_radix_less [OF assms(3) that(1)]])
    ultimately have "h * fill + fill \<le> H * fill" "(layer * H + h) * cap + fill \<le> L * H * cap" using assms(4) by auto
    from copy_rows_ok [OF that(2) has_covers [OF assms(2)] this] show ?thesis by simp
  qed
  have "fold_ok (\<lambda>h o'. copy_floats o' (int h * int fill * int d) st ((int layer * int H + int h) * int cap * int d) (int fill * int d))
      [0..<H] out = Inr (put_rows d st prs out)"
    unfolding prs_def using one rng by (intro fold_ok_put_rows [OF assms(1) has_covers [OF assms(2)]]) auto
  moreover have "fold_ok f (map int hs) s = fold_ok (\<lambda>h. f (int h)) hs s" for f hs and s :: "'a list"
    by (induction hs arbitrary: s) (auto split: sum.splits)
  ultimately have run: "simple_gather (int layer * int H) (int cap) (int fill) (int H) (int d) st out = Inr (put_rows d st prs out)"
    by (simp add: simple_gather_def upto_map_int)
  have all: "\<forall>(r, q)\<in>set prs. r < H * fill \<and> q < L * H * cap" using rng by (fastforce simp: prs_def)
  have dst: "distinct (map fst prs)"
  proof -
    have "map fst prs = [0..<H * fill]" unfolding upt_nested by (simp add: prs_def map_concat comp_def)
    then show ?thesis by simp
  qed
  show thesis
  proof (rule that [OF run])
    show "has_rows d (H * fill) (put_rows d st prs out)" by (rule put_rows_has_rows [OF assms(1) has_covers [OF assms(2)] all])
    fix h pos assume hp: "h < H" "pos < fill"
    have "(h * fill + pos, store_row H cap layer h pos) \<in> set prs"
      using hp by (auto simp: prs_def store_row_def intro!: bexI [of _ h])
    then have "map_of prs (h * fill + pos) = Some (store_row H cap layer h pos)" by (rule map_of_is_SomeI [OF dst])
    then show "row d (put_rows d st prs out) (h * fill + pos) = row d st (store_row H cap layer h pos)"
      using row_put_rows [OF assms(1) has_covers [OF assms(2)] all dst nat_radix_less [OF hp]] by simp
  qed
qed

section \<open>The contract holds\<close>

lemma gather_view:
  assumes "simple_dims c = (L, H, d, cap)" and "num_kv_heads g = int H" "head_dim g = int d"
    and "has_rows d (L * H * cap) st" and "layer < L" and "s_fill c ! layer = int fill" and "fill \<le> cap"
    and t: "t = \<lparr>t_buffer = Some (replicate (H * fill * d) z), t_byte_offset = 0, t_shape = sh,
        t_strides = RowMajorStrides sh, t_dtype = kFloat32, t_device = Cpu\<rparr>" "dims sh = [int H, int fill, int d]"
  shows "\<exists>t'. gather_into t (simple_gather (int layer * int H) (int cap) (int fill) (int H) (int d) st) = Inr t' \<and>
    view_of g (store_tokens c st (int layer)) t'"
proof -
  have "has_rows d (H * fill) (replicate (H * fill * d) z)" by (simp add: has_rows_def)
  from simple_gather_ok [OF this assms(4,5,7)] obtain out where
    o: "simple_gather (int layer * int H) (int cap) (int fill) (int H) (int d) st (replicate (H * fill * d) z) = Inr out"
    "has_rows d (H * fill) out"
    "\<And>h pos. h < H \<Longrightarrow> pos < fill \<Longrightarrow> row d out (h * fill + pos) = row d st (store_row H cap layer h pos)" by metis
  define toks where "toks = store_tokens c st (int layer)"
  have toks: "length toks = fill" "\<And>h pos. h < H \<Longrightarrow> pos < fill \<Longrightarrow> toks ! pos ! h = row d st (store_row H cap layer h pos)"
    using assms(1,6) by (simp_all add: toks_def store_tokens_def)
  have "out = head_major H toks"
    by (rule head_major_eqI [of d]) (use o(2,3) toks in auto)
  then show ?thesis using o(1) t assms(2,3) toks(1) by (simp add: gather_into_def view_of_def flip: toks_def)
qed

lemma Simple_view_ok:
  fixes c :: "('f :: zero) SimpleKvCache"
  assumes wf: "simple_wf c" and env: "env_ok e" and lo: "layer_of (s_geom c) layer"
  shows "\<exists>w. Simple_view (env_alloc e) c layer = Inr w \<and> view_of (s_geom c) (store_tokens c (s_k_store c) layer) (view_k w) \<and>
    view_of (s_geom c) (store_tokens c (s_v_store c) layer) (view_v w)"
proof -
  obtain L H d cap where g: "num_layers (s_geom c) = int L" "num_kv_heads (s_geom c) = int H" "head_dim (s_geom c) = int d"
    "s_capacity c = int cap" and pos: "0 < L" "0 < H" "0 < d" "0 < cap" and dims: "simple_dims c = (L, H, d, cap)"
    and len: "length (s_fill c) = L" and fill: "\<And>l. l < L \<Longrightarrow> 0 \<le> s_fill c ! l \<and> nat (s_fill c ! l) \<le> cap"
    and st: "has_rows d (L * H * cap) (s_k_store c)" "has_rows d (L * H * cap) (s_v_store c)"
    and mx: "int (L * H * cap * d) * 4 \<le> INT64_MAX"
    by (rule simple_wfD [OF wf]) (rule that; (assumption | simp))
  define ly where "ly = nat layer"
  have ly: "layer = int ly" "ly < L" using lo g(1) by (auto simp: ly_def layer_of_def)
  define f where "f = nat (s_fill c ! ly)"
  have f: "s_fill c ! ly = int f" "f \<le> cap" using fill [OF ly(2)] by (auto simp: f_def)
  have "1 * (H * cap * d) \<le> L * (H * cap * d)" using ly(2) by (intro mult_right_mono) auto
  then have "int (H * cap * d) \<le> int (L * H * cap * d)" by (simp only: of_nat_le_iff mult.assoc mult_1)
  then have mx': "int (H * cap * d) * 4 \<le> INT64_MAX" using mx by linarith
  define sh where "sh = \<lparr>dims = [int H, int f, int d], numel = int (H * f * d)\<rparr>"
  have sh: "Shape_ctor [int H, int f, int d] = Inr sh" "numel sh * 4 \<le> INT64_MAX" "0 \<le> numel sh"
    "dims sh = [int H, int f, int d]" "nat (numel sh) = H * f * d"
    unfolding sh_def using view_shape_ok [OF pos(2,3) f(2) pos(4) mx'] by (simp_all only: Shape.select_convs nat_int of_nat_0_le_iff)
  define t :: "'f list Tensor" where "t = \<lparr>t_buffer = Some (replicate (H * f * d) 0), t_byte_offset = 0, t_shape = sh,
        t_strides = RowMajorStrides sh, t_dtype = kFloat32, t_device = Cpu\<rparr>"
  have z: "zeros_f32 (env_alloc e) sh = Inr t" using zeros_ok [OF env sh(3,2)] by (simp add: t_def sh(5))
  obtain kt where kt: "gather_into t (simple_gather (int ly * int H) (int cap) (int f) (int H) (int d) (s_k_store c)) = Inr kt"
    "view_of (s_geom c) (store_tokens c (s_k_store c) (int ly)) kt"
    using gather_view [OF dims g(2,3) st(1) ly(2) f t_def sh(4)] by blast
  obtain vt where vt: "gather_into t (simple_gather (int ly * int H) (int cap) (int f) (int H) (int d) (s_v_store c)) = Inr vt"
    "view_of (s_geom c) (store_tokens c (s_v_store c) (int ly)) vt"
    using gather_view [OF dims g(2,3) st(2) ly(2) f t_def sh(4)] by blast
  have "Simple_layer_in_range c layer" using lo by (simp add: Simple_layer_in_range_def layer_of_def)
  then have "Simple_view (env_alloc e) c layer = Inr \<lparr>view_k = kt, view_v = vt\<rparr>"
    using z kt vt sh(1) f(1) by (simp add: Simple_view_def Let_def g ly(1))
  then show ?thesis using kt(2) vt(2) ly(1) by simp
qed

lemma Simple_truncate_ok:
  assumes wf: "simple_wf c" and m: "\<And>l. layer_of (s_geom c) l \<Longrightarrow> m \<le> length (store_tokens c st l)"
  shows "\<exists>c'. Simple_truncate c (int m) = Inr c' \<and> simple_wf c' \<and> s_geom c' = s_geom c \<and>
    s_k_store c' = s_k_store c \<and> s_v_store c' = s_v_store c \<and>
    (\<forall>l st. layer_of (s_geom c) l \<longrightarrow> store_tokens c' st l = take m (store_tokens c st l))"
proof -
  obtain L H d cap where g: "num_layers (s_geom c) = int L" "s_capacity c = int cap" and L: "0 < L"
    and dims: "simple_dims c = (L, H, d, cap)" and len: "length (s_fill c) = L"
    and fill: "\<And>l. l < L \<Longrightarrow> 0 \<le> s_fill c ! l \<and> nat (s_fill c ! l) \<le> cap"
    using simple_wfD [OF wf] by metis
  have le: "int m \<le> s_fill c ! l" if "l < L" for l
    using m [of "int l"] that fill [OF that] g(1) dims by (auto simp: layer_of_def store_tokens_def)
  then have "\<forall>f\<in>set (s_fill c). int m \<le> f" using len by (auto simp: in_set_conv_nth)
  moreover have "s_fill c \<noteq> []" using len L by auto
  ultimately have "int m \<le> Simple_length c" by (simp add: Simple_length_def)
  define c' where "c' = c\<lparr>s_fill := replicate L (int m)\<rparr>"
  have dims': "simple_dims c' = (L, H, d, cap)" using dims by (simp add: simple_dims_def c'_def)
  have "m \<le> cap" using le [OF L] fill [OF L] by linarith
  then have "simple_wf c'" using wf dims dims' g by (auto simp: simple_wf_def c'_def)
  moreover have "store_tokens c' st l = take m (store_tokens c st l)" if "layer_of (s_geom c) l" for l st
  proof -
    have l: "nat l < L" using that g(1) by (simp add: layer_of_def nat_less_iff)
    have "m \<le> nat (s_fill c ! nat l)" using le [OF l] by simp
    then have "[0..<m] = take m [0..<nat (s_fill c ! nat l)]" by simp
    then show ?thesis using dims dims' l by (simp add: store_tokens_def c'_def take_map)
  qed
  ultimately show ?thesis
    using \<open>int m \<le> Simple_length c\<close> len by (intro exI [of _ c']) (simp add: Simple_truncate_def c'_def)
qed

text \<open>The cache with its surroundings, as the contract's state.\<close>

definition simple_append :: "('f :: zero) KvEnv \<times> 'f SimpleKvCache \<Rightarrow> int \<Rightarrow> 'f list Tensor \<Rightarrow> 'f list Tensor \<Rightarrow>
    ('f KvEnv \<times> 'f SimpleKvCache) \<times> unit status_or" where
  "simple_append s layer k v = (case Simple_append (snd s) layer k v of (c', r) \<Rightarrow> ((fst s, c'), r))"

definition simple_view :: "('f :: zero) KvEnv \<times> 'f SimpleKvCache \<Rightarrow> int \<Rightarrow> 'f KvView status_or" where
  "simple_view s layer = Simple_view (env_alloc (fst s)) (snd s) layer"

definition simple_truncate :: "('f :: zero) KvEnv \<times> 'f SimpleKvCache \<Rightarrow> int \<Rightarrow> ('f KvEnv \<times> 'f SimpleKvCache) status_or" where
  "simple_truncate s m = (case Simple_truncate (snd s) m of Inl e \<Rightarrow> Inl e | Inr c' \<Rightarrow> Inr (fst s, c'))"

definition simple_geom :: "('f :: zero) KvEnv \<times> 'f SimpleKvCache \<Rightarrow> CacheGeometry" where
  "simple_geom s = s_geom (snd s)"

definition simple_k :: "('f :: zero) KvEnv \<times> 'f SimpleKvCache \<Rightarrow> int \<Rightarrow> 'f token list" where
  "simple_k s l = store_tokens (snd s) (s_k_store (snd s)) l"

definition simple_v :: "('f :: zero) KvEnv \<times> 'f SimpleKvCache \<Rightarrow> int \<Rightarrow> 'f token list" where
  "simple_v s l = store_tokens (snd s) (s_v_store (snd s)) l"

definition simple_inv :: "('f :: zero) KvEnv \<times> 'f SimpleKvCache \<Rightarrow> bool" where
  "simple_inv s \<longleftrightarrow> env_ok (fst s) \<and> simple_wf (snd s)"

lemmas simple_state_defs = simple_append_def simple_view_def simple_truncate_def simple_geom_def
  simple_k_def simple_v_def simple_inv_def

interpretation simple: kv_cache simple_append simple_view simple_truncate simple_geom simple_k simple_v simple_inv
proof unfold_locales
  fix s :: "('f :: zero) KvEnv \<times> 'f SimpleKvCache" and l
  show "length (simple_v s l) = length (simple_k s l)"
    by (simp add: simple_state_defs store_tokens_def split: prod.splits)
next
  fix s :: "('f :: zero) KvEnv \<times> 'f SimpleKvCache" and layer T and k v :: "'f list Tensor" and n
  assume "simple_inv s" "layer_of (simple_geom s) layer" "block_ok (simple_geom s) T k" "block_ok (simple_geom s) T v"
  then show "\<exists>s' r. simple_append s layer k v = (s', r) \<and> simple_inv s' \<and> simple_geom s' = simple_geom s \<and>
        (r = Inr () \<and> (\<forall>l. layer_of (simple_geom s) l \<longrightarrow>
            simple_k s' l = simple_k s l @ (if l = layer then block_tokens (simple_geom s) k else []) \<and>
            simple_v s' l = simple_v s l @ (if l = layer then block_tokens (simple_geom s) v else [])) \<or>
         r = ResourceExhaustedError \<and> (\<forall>l. layer_of (simple_geom s) l \<longrightarrow>
            simple_k s' l = simple_k s l \<and> simple_v s' l = simple_v s l))"
    using Simple_append_ok [of "snd s" layer T k v] by (cases s) (auto simp: simple_state_defs)
next
  fix s :: "('f :: zero) KvEnv \<times> 'f SimpleKvCache" and layer
  assume "simple_inv s" "layer_of (simple_geom s) layer"
  then show "\<exists>w. simple_view s layer = Inr w \<and> view_of (simple_geom s) (simple_k s layer) (view_k w) \<and>
        view_of (simple_geom s) (simple_v s layer) (view_v w)"
    using Simple_view_ok [of "snd s" "fst s" layer] by (simp add: simple_state_defs)
next
  fix s :: "('f :: zero) KvEnv \<times> 'f SimpleKvCache" and m
  assume "simple_inv s" "\<And>l. layer_of (simple_geom s) l \<Longrightarrow> m \<le> length (simple_k s l)"
  then show "\<exists>s'. simple_truncate s (int m) = Inr s' \<and> simple_inv s' \<and> simple_geom s' = simple_geom s \<and>
        (\<forall>l. layer_of (simple_geom s) l \<longrightarrow> simple_k s' l = take m (simple_k s l) \<and> simple_v s' l = take m (simple_v s l))"
    using Simple_truncate_ok [of "snd s" m "s_k_store (snd s)"] by (fastforce simp: simple_state_defs)
qed

end
