(* ===== verification/Paged_Cache.thy ===== *)
theory Paged_Cache
  imports Simple_Cache
begin

text \<open>
  The paged KV cache, \<open>src/src/kvcache/paged_cache.{h,cpp}\<close> and \<open>paged_gather.cpp\<close>: one sequence's view
  of the shared block pool. The pool pointer is an explicit argument and result. The scatter and
  gather kernels run in the chunk orders of the environment. The theory interprets \<open>kv_cache\<close> on the
  cache, so it implements the same contract as the contiguous one, and shows that caches over one
  pool cannot touch each other's content.
\<close>

section \<open>State and operations\<close>

record PagedKvCache =
  pg_table :: BlockTable
  pg_pending_slots :: "int list"
  pg_next_layer :: int

record 'f PagedKvView =
  pv_k_slab :: "'f list"
  pv_v_slab :: "'f list"
  pv_block_table :: "int list"
  pv_num_blocks :: int
  pv_block_size :: int
  pv_length :: int
  pv_block_stride :: int

definition PagedKvCache_ctor :: PagedKvCache where
  "PagedKvCache_ctor = \<lparr>pg_table = BlockTable_ctor, pg_pending_slots = [], pg_next_layer = 0\<rparr>"

definition Paged_layer_in_range :: "'f BlockPool \<Rightarrow> int \<Rightarrow> bool" where
  "Paged_layer_in_range p layer \<longleftrightarrow> 0 \<le> layer \<and> layer < num_layers (pool_geom p)"

definition Paged_length :: "PagedKvCache \<Rightarrow> int" where
  "Paged_length c = tab_num_tokens (pg_table c)"

definition Paged_capacity :: "'f BlockPool \<Rightarrow> PagedKvCache \<Rightarrow> int" where
  "Paged_capacity p c =
     (let bs = pool_block_size p in
      int (length (tab_blocks (pg_table c))) * bs + free_blocks p * bs)"

text \<open>The tail of \<open>append\<close>: scatter the block to the pending slots of the layer's slabs and advance the
  layer protocol.\<close>

definition paged_write ::
  "'f KvEnv \<Rightarrow> 'f BlockPool \<Rightarrow> PagedKvCache \<Rightarrow> int \<Rightarrow> int \<Rightarrow> 'f list Tensor \<Rightarrow> 'f list Tensor \<Rightarrow>
   ('f BlockPool \<times> PagedKvCache) \<times> unit status_or" where
  "paged_write e p c layer t_dim k v =
     (case (data_ptr_f32 k, data_ptr_f32 v, k_slab p layer, v_slab p layer) of
        (Inr src_k, Inr src_v, Inr ks, Inr vs) \<Rightarrow>
          (case KvScatterF32 (env_order e t_dim kTokenGrain) t_dim
                  \<lparr>sc_src_k = src_k, sc_src_v = src_v, sc_slot_mapping = pg_pending_slots c,
                   sc_kv_heads = num_kv_heads (pool_geom p), sc_d = head_dim (pool_geom p),
                   sc_block_size = pool_block_size p, sc_k_slab = ks, sc_v_slab = vs\<rparr> of
             Inl err \<Rightarrow> ((p, c), Inl err)
           | Inr a \<Rightarrow>
               ((p\<lparr>pool_k_slabs := (pool_k_slabs p)[nat layer := sc_k_slab a],
                   pool_v_slabs := (pool_v_slabs p)[nat layer := sc_v_slab a]\<rparr>,
                 c\<lparr>pg_next_layer := c_mod (layer + 1) (num_layers (pool_geom p))\<rparr>), Inr ()))
      | _ \<Rightarrow> ((p, c), Inl CheckFailed))"

definition Paged_append ::
  "'f KvEnv \<Rightarrow> 'f BlockPool \<Rightarrow> PagedKvCache \<Rightarrow> int \<Rightarrow> 'f list Tensor \<Rightarrow> 'f list Tensor \<Rightarrow>
   ('f BlockPool \<times> PagedKvCache) \<times> unit status_or" where
  "Paged_append e p c layer k v =
     (let g = pool_geom p in
      if \<not> (defined k \<and> defined v) then ((p, c), Inl CheckFailed)
      else if \<not> Paged_layer_in_range p layer then ((p, c), InvalidArgumentError)
      else case PagedRequireAppendBlock k g of
        Inl err \<Rightarrow> ((p, c), Inl err)
      | Inr _ \<Rightarrow>
      (case PagedRequireAppendBlock v g of
        Inl err \<Rightarrow> ((p, c), Inl err)
      | Inr _ \<Rightarrow>
      (case (dim (t_shape k) 0, dim (t_shape v) 0) of
        (Inr t_dim, Inr tv) \<Rightarrow>
          if t_dim \<noteq> tv then ((p, c), InvalidArgumentError)
          else if layer \<noteq> pg_next_layer c then ((p, c), InvalidArgumentError)
          else if layer = 0 then
            (case AppendTokens p (pg_table c) t_dim of
               ((p1, t1), Inl err) \<Rightarrow> ((p1, c\<lparr>pg_table := t1, pg_pending_slots := []\<rparr>), Inl err)
             | ((p1, t1), Inr slots) \<Rightarrow>
                 paged_write e p1 (c\<lparr>pg_table := t1, pg_pending_slots := slots\<rparr>) layer t_dim k v)
          else if t_dim \<noteq> int (length (pg_pending_slots c)) then ((p, c), InvalidArgumentError)
          else paged_write e p c layer t_dim k v
      | _ \<Rightarrow> ((p, c), Inl CheckFailed))))"

definition GatherLayerKV :: "'f KvEnv \<Rightarrow> 'f BlockPool \<Rightarrow> BlockTable \<Rightarrow> int \<Rightarrow> int \<Rightarrow> 'f KvView status_or" where
  "GatherLayerKV e p t layer len =
     (let g = pool_geom p; hkv = num_kv_heads g; d = head_dim g in
      if layer < 0 \<or> num_layers g \<le> layer then InvalidArgumentError
      else if len < 0 \<or> tab_num_tokens t < len then InvalidArgumentError
      else case Shape_ctor [hkv, len, d] of
        Inl err \<Rightarrow> Inl err
      | Inr sh \<Rightarrow>
      (case Tensor_empty Cpu (env_alloc e) sh kFloat32 Cpu of
        Inl err \<Rightarrow> Inl err
      | Inr kt \<Rightarrow>
      (case Tensor_empty Cpu (env_alloc e) sh kFloat32 Cpu of
        Inl err \<Rightarrow> Inl err
      | Inr vt \<Rightarrow>
      (case (k_slab p layer, v_slab p layer, data_ptr_f32 kt, data_ptr_f32 vt) of
        (Inr ks, Inr vs, Inr ok0, Inr ov0) \<Rightarrow>
          (case KvGatherF32 (env_order e (hkv * c_div (len + pool_block_size p - 1) (pool_block_size p)) kBlockGrain)
                  ks vs (tab_blocks t) (pool_block_size p) len hkv d ok0 ov0 of
             Inl err \<Rightarrow> Inl err
           | Inr (ok1, ov1) \<Rightarrow>
               Inr \<lparr>view_k = kt\<lparr>t_buffer := Some ok1\<rparr>, view_v = vt\<lparr>t_buffer := Some ov1\<rparr>\<rparr>)
      | _ \<Rightarrow> Inl CheckFailed))))"

definition Paged_view :: "'f KvEnv \<Rightarrow> 'f BlockPool \<Rightarrow> PagedKvCache \<Rightarrow> int \<Rightarrow> 'f KvView status_or" where
  "Paged_view e p c layer =
     (if \<not> Paged_layer_in_range p layer then InvalidArgumentError
      else
        let committed = tab_num_tokens (pg_table c);
            pending = int (length (pg_pending_slots c));
            layer_written = (pg_next_layer c = 0 \<or> layer < pg_next_layer c);
            visible = (if layer_written then committed else committed - pending) in
        GatherLayerKV e p (pg_table c) layer visible)"

definition Paged_paged_view :: "'f BlockPool \<Rightarrow> PagedKvCache \<Rightarrow> int \<Rightarrow> 'f PagedKvView status_or" where
  "Paged_paged_view p c layer =
     (if \<not> Paged_layer_in_range p layer then InvalidArgumentError
      else case (k_slab p layer, v_slab p layer) of
        (Inr ks, Inr vs) \<Rightarrow>
          Inr \<lparr>pv_k_slab = ks, pv_v_slab = vs, pv_block_table = tab_blocks (pg_table c),
               pv_num_blocks = int (length (tab_blocks (pg_table c))), pv_block_size = pool_block_size p,
               pv_length = tab_num_tokens (pg_table c), pv_block_stride = pool_block_stride p\<rparr>
      | _ \<Rightarrow> Inl CheckFailed)"

definition Paged_truncate :: "'f BlockPool \<Rightarrow> PagedKvCache \<Rightarrow> int \<Rightarrow> ('f BlockPool \<times> PagedKvCache) status_or" where
  "Paged_truncate p c new_length =
     (case Truncate p (pg_table c) new_length of
        Inl err \<Rightarrow> Inl err
      | Inr (p', t') \<Rightarrow> Inr (p', c\<lparr>pg_table := t', pg_pending_slots := [], pg_next_layer := 0\<rparr>))"

text \<open>The destructor of the cache runs \<open>BlockTable::FreeAll\<close>.\<close>

definition Paged_destroy :: "'f BlockPool \<Rightarrow> PagedKvCache \<Rightarrow> 'f BlockPool status_or" where
  "Paged_destroy p c = (case FreeAll p (pg_table c) of Inl err \<Rightarrow> Inl err | Inr (p', _) \<Rightarrow> Inr p')"

section \<open>Invariant and content\<close>

text \<open>Slot of a position, as a natural number.\<close>

definition pslot :: "nat \<Rightarrow> int list \<Rightarrow> nat \<Rightarrow> nat" where
  "pslot bs blocks pos = nat (blocks ! (pos div bs)) * bs + pos mod bs"

definition slab_tokens :: "nat \<Rightarrow> nat \<Rightarrow> nat \<Rightarrow> int list \<Rightarrow> 'f list \<Rightarrow> nat \<Rightarrow> 'f token list" where
  "slab_tokens H d bs blocks slab n =
     map (\<lambda>pos. map (\<lambda>h. row d slab (slot_row H bs (pslot bs blocks pos) h)) [0..<H]) [0..<n]"

definition visible :: "PagedKvCache \<Rightarrow> int \<Rightarrow> nat" where
  "visible c layer =
     nat (tab_num_tokens (pg_table c)) -
     (if pg_next_layer c = 0 \<or> layer < pg_next_layer c then 0 else length (pg_pending_slots c))"

text \<open>Between layer 0 and the last layer of a forward the pending slots are those of the last positions
  of the table; otherwise no forward is in progress.\<close>

definition pending_ok :: "nat \<Rightarrow> PagedKvCache \<Rightarrow> bool" where
  "pending_ok bs c \<longleftrightarrow>
     (pg_next_layer c \<noteq> 0 \<longrightarrow>
       (let n = nat (tab_num_tokens (pg_table c)); m = length (pg_pending_slots c) in
        1 \<le> m \<and> m \<le> n \<and>
        pg_pending_slots c = map (\<lambda>pos. int (pslot bs (tab_blocks (pg_table c)) pos)) [n - m..<n]))"

definition paged_wf :: "'f BlockPool \<Rightarrow> PagedKvCache \<Rightarrow> int list \<Rightarrow> bool" where
  "paged_wf p c others \<longleftrightarrow> owned p (tab_blocks (pg_table c) @ others) \<and>
     table_wf (pool_block_size p) (pg_table c) \<and> slabs_wf p \<and>
     0 \<le> pg_next_layer c \<and> pg_next_layer c < num_layers (pool_geom p) \<and>
     pending_ok (nat (pool_block_size p)) c"

definition paged_tokens :: "'f BlockPool \<Rightarrow> 'f list list \<Rightarrow> PagedKvCache \<Rightarrow> int \<Rightarrow> 'f token list" where
  "paged_tokens p slabs c layer =
     slab_tokens (nat (num_kv_heads (pool_geom p))) (nat (head_dim (pool_geom p))) (nat (pool_block_size p))
       (tab_blocks (pg_table c)) (slabs ! nat layer) (visible c layer)"

section \<open>Geometry and slots\<close>

lemma pool_dims:
  assumes "slabs_wf p" and "pool_inv p"
  obtains L H d bs N where "num_layers (pool_geom p) = int L" "num_kv_heads (pool_geom p) = int H"
    "head_dim (pool_geom p) = int d" "pool_block_size p = int bs" "pool_num_blocks p = int N"
    "0 < L" "0 < H" "0 < d" "0 < bs" "0 < N" "length (pool_k_slabs p) = L" "length (pool_v_slabs p) = L"
    "\<forall>l<L. has_rows d (N * H * bs) (pool_k_slabs p ! l) \<and> has_rows d (N * H * bs) (pool_v_slabs p ! l)"
    "int (H * (N * bs) * d) * 4 \<le> INT64_MAX"
proof -
  let ?g = "pool_geom p"
  let ?L = "nat (num_layers ?g)" and ?H = "nat (num_kv_heads ?g)" and ?d = "nat (head_dim ?g)"
    and ?bs = "nat (pool_block_size p)" and ?N = "nat (pool_num_blocks p)"
  have g: "1 \<le> num_layers ?g" "1 \<le> num_kv_heads ?g" "1 \<le> head_dim ?g"
    using assms(1) by (auto simp: slabs_wf_def ValidateGeometry_ok_iff)
  have b: "0 < pool_block_size p" "0 < pool_num_blocks p"
    using pool_invD(1) [OF assms(2)] assms(1) by (auto simp: slabs_wf_def)
  have e: "slab_elems p = int (?N * ?H * ?bs * ?d)" using g b by (simp add: slab_elems_def)
  have len: "length t = ?N * ?H * ?bs * ?d" if "t \<in> set (pool_k_slabs p) \<union> set (pool_v_slabs p)" for t
    using assms(1) that unfolding slabs_wf_def e by (metis nat_int)
  have "int (?H * (?N * ?bs) * ?d) = slab_elems p" unfolding e by (simp add: mult.commute mult.left_commute)
  then have mx: "int (?H * (?N * ?bs) * ?d) * 4 \<le> INT64_MAX" using assms(1) by (simp only: slabs_wf_def)
  have l: "length (pool_k_slabs p) = ?L" "length (pool_v_slabs p) = ?L" using assms(1) by (auto simp: slabs_wf_def)
  have rows: "\<forall>l<?L. has_rows ?d (?N * ?H * ?bs) (pool_k_slabs p ! l) \<and> has_rows ?d (?N * ?H * ?bs) (pool_v_slabs p ! l)"
    using len l by (auto simp: has_rows_def)
  show thesis by (rule that [OF _ _ _ _ _ _ _ _ _ _ l rows mx]) (use g b in auto)
qed

lemma owned_slabs [simp]:
  "owned (p\<lparr>pool_k_slabs := ks, pool_v_slabs := vs\<rparr>) bl = owned p bl"
  "free_blocks (p\<lparr>pool_k_slabs := ks, pool_v_slabs := vs\<rparr>) = free_blocks p"
  by (simp_all add: owned_def pool_inv_def rc_of_def block_in_range_def free_blocks_def)

lemma slabs_wf_data: "pool_data p' = pool_data p \<Longrightarrow> slabs_wf p' = slabs_wf p"
  by (simp add: pool_data_def slabs_wf_def slab_elems_def)

lemma slabs_wf_update:
  assumes "slabs_wf p" and "length ks = nat (slab_elems p)" and "length vs = nat (slab_elems p)"
  shows "slabs_wf (p\<lparr>pool_k_slabs := (pool_k_slabs p)[i := ks], pool_v_slabs := (pool_v_slabs p)[i := vs]\<rparr>)"
  using assms set_update_subset_insert [of "pool_k_slabs p" i ks] set_update_subset_insert [of "pool_v_slabs p" i vs]
  by (auto simp: slabs_wf_def slab_elems_def)

lemma pslot_slot_of:
  assumes "0 < bs" and "pos < n" and "table_wf (int bs) t" and "tab_num_tokens t = int n"
    and "owned p (tab_blocks t @ others)" and "pool_num_blocks p = int N"
  shows "pos div bs < length (tab_blocks t)"
    and "slot_of (int bs) (tab_blocks t) (int pos) = int (pslot bs (tab_blocks t) pos)"
    and "pslot bs (tab_blocks t) pos < N * bs"
proof -
  have "int pos div int bs < ceil_div (int n) (int bs)" using assms(1,2) by (intro div_less_ceil_div) auto
  then have "int (pos div bs) < int (length (tab_blocks t))" using assms(3,4) by (simp add: table_wf_def zdiv_int)
  then show lt: "pos div bs < length (tab_blocks t)" by simp
  then have "block_in_range p (tab_blocks t ! (pos div bs))" by (intro owned_block_range [OF assms(5)]) simp
  then have b: "0 \<le> tab_blocks t ! (pos div bs)" "nat (tab_blocks t ! (pos div bs)) < N"
    using assms(6) by (auto simp: block_in_range_def)
  show "slot_of (int bs) (tab_blocks t) (int pos) = int (pslot bs (tab_blocks t) pos)"
    using b(1) by (simp add: slot_of_def pslot_def zmod_int flip: zdiv_int)
  show "pslot bs (tab_blocks t) pos < N * bs"
    unfolding pslot_def using b(2) assms(1) by (intro nat_radix_less) auto
qed

lemma pslot_inj:
  assumes "0 < bs" and "pslot bs bl pos = pslot bs bl' pos'" and "pos div bs < length bl" "pos' div bs < length bl'"
    and "\<forall>b\<in>set bl \<union> set bl'. 0 \<le> b"
  shows "bl ! (pos div bs) = bl' ! (pos' div bs) \<and> pos mod bs = pos' mod bs"
proof -
  have "nat (bl ! (pos div bs)) = nat (bl' ! (pos' div bs)) \<and> pos mod bs = pos' mod bs"
    using assms(1,2) by (intro nat_radix_inj [of _ bs]) (auto simp: pslot_def)
  moreover have "0 \<le> bl ! (pos div bs)" "0 \<le> bl' ! (pos' div bs)" using assms(3-5) by auto
  ultimately show ?thesis by (simp add: eq_nat_nat_iff)
qed

lemma owned_nonneg: "owned p bl \<Longrightarrow> b \<in> set bl \<Longrightarrow> 0 \<le> b"
  using owned_block_range by (auto simp: block_in_range_def)

lemma pslot_same_table:
  assumes "0 < bs" and "owned p (bl @ others)" and "pos div bs < length bl" "pos' div bs < length bl"
    and "pslot bs bl pos = pslot bs bl pos'"
  shows "pos = pos'"
proof -
  have "\<forall>b\<in>set bl \<union> set bl. 0 \<le> b" using owned_nonneg [OF assms(2)] by auto
  from pslot_inj [OF assms(1,5,3,4) this] have "bl ! (pos div bs) = bl ! (pos' div bs)" "pos mod bs = pos' mod bs" by auto
  moreover have "distinct bl" using ownedD(2) [OF assms(2)] by simp
  ultimately have "pos div bs = pos' div bs" "pos mod bs = pos' mod bs" using assms(3,4) by (auto simp: nth_eq_iff_index_eq)
  then show ?thesis by (metis div_mult_mod_eq)
qed

lemma pslot_other_table:
  assumes "0 < bs" and "owned p (bl @ others)" and "set bl' \<subseteq> set others"
    and "pos div bs < length bl" "pos' div bs < length bl'"
  shows "pslot bs bl pos \<noteq> pslot bs bl' pos'"
proof
  assume eq: "pslot bs bl pos = pslot bs bl' pos'"
  have "\<forall>b\<in>set bl \<union> set bl'. 0 \<le> b" using owned_nonneg [OF assms(2)] assms(3) by auto
  from pslot_inj [OF assms(1) eq assms(4,5) this] have "bl ! (pos div bs) \<in> set bl'" using assms(5) by auto
  then show False using ownedD(2) [OF assms(2)] assms(3,4) by (auto dest: nth_mem)
qed

section \<open>Writing one layer\<close>

lemma slab_tokens_written:
  fixes n T :: nat
  assumes "T \<le> n"
    and new: "\<And>t h. t < T \<Longrightarrow> h < H \<Longrightarrow> row d ks (slot_row H bs (pslot bs bl (n - T + t)) h) = row d src (t * H + h)"
    and old: "\<And>pos h. pos < n - T \<Longrightarrow> h < H \<Longrightarrow>
      row d ks (slot_row H bs (pslot bs bl pos) h) = row d slab (slot_row H bs (pslot bs bl pos) h)"
  shows "slab_tokens H d bs bl ks n = slab_tokens H d bs bl slab (n - T) @ tokens_of H d T src"
proof -
  have up: "[0..<n] = [0..<n - T] @ map (\<lambda>t. n - T + t) [0..<T]"
    using assms(1) by (intro nth_equalityI) (auto simp: nth_append)
  show ?thesis
    unfolding slab_tokens_def tokens_of_def up map_append map_map comp_def
    by (rule arg_cong2 [of _ _ _ _ "(@)"]; rule map_cong [OF refl]; rule map_cong [OF refl]) (simp_all add: new old)
qed

lemma slab_tokens_cong:
  assumes "\<And>pos h. pos < n \<Longrightarrow> h < H \<Longrightarrow>
      row d ks (slot_row H bs (pslot bs bl pos) h) = row d slab (slot_row H bs (pslot bs bl pos) h)"
  shows "slab_tokens H d bs bl ks n = slab_tokens H d bs bl slab n"
  unfolding slab_tokens_def by (rule map_cong [OF refl], rule map_cong [OF refl]) (simp add: assms)

lemma paged_write_ok:
  assumes env: "env_ok e" and own: "owned p (tab_blocks (pg_table c) @ others)"
    and twf: "table_wf (pool_block_size p) (pg_table c)" and swf: "slabs_wf p"
    and g: "num_layers (pool_geom p) = int L" "num_kv_heads (pool_geom p) = int H" "head_dim (pool_geom p) = int d"
      "pool_block_size p = int bs"
    and lo: "layer < L" and k: "block_ok (pool_geom p) T k" and v: "block_ok (pool_geom p) T v"
    and n: "tab_num_tokens (pg_table c) = int n" "T \<le> n"
    and pend: "pg_pending_slots c = map (\<lambda>pos. int (pslot bs (tab_blocks (pg_table c)) pos)) [n - T..<n]"
  obtains ks vs where
    "paged_write e p c (int layer) (int T) k v =
      ((p\<lparr>pool_k_slabs := (pool_k_slabs p)[layer := ks], pool_v_slabs := (pool_v_slabs p)[layer := vs]\<rparr>,
        c\<lparr>pg_next_layer := (int layer + 1) mod int L\<rparr>), Inr ())"
    and "slabs_wf (p\<lparr>pool_k_slabs := (pool_k_slabs p)[layer := ks], pool_v_slabs := (pool_v_slabs p)[layer := vs]\<rparr>)"
    and "slab_tokens H d bs (tab_blocks (pg_table c)) ks n =
      slab_tokens H d bs (tab_blocks (pg_table c)) (pool_k_slabs p ! layer) (n - T) @ block_tokens (pool_geom p) k"
    and "slab_tokens H d bs (tab_blocks (pg_table c)) vs n =
      slab_tokens H d bs (tab_blocks (pg_table c)) (pool_v_slabs p ! layer) (n - T) @ block_tokens (pool_geom p) v"
    and "\<forall>bl m. set bl \<subseteq> set others \<longrightarrow> (\<forall>pos<m. pos div bs < length bl) \<longrightarrow>
      slab_tokens H d bs bl ks m = slab_tokens H d bs bl (pool_k_slabs p ! layer) m \<and>
      slab_tokens H d bs bl vs m = slab_tokens H d bs bl (pool_v_slabs p ! layer) m"
proof -
  let ?bl = "tab_blocks (pg_table c)" and ?K = "pool_k_slabs p ! layer" and ?V = "pool_v_slabs p ! layer"
  have inv: "pool_inv p" by (rule ownedD(1) [OF own])
  obtain N where N: "pool_num_blocks p = int N" "0 < L" "0 < H" "0 < d" "0 < bs"
    "length (pool_k_slabs p) = L" "length (pool_v_slabs p) = L"
    "\<forall>l<L. has_rows d (N * H * bs) (pool_k_slabs p ! l) \<and> has_rows d (N * H * bs) (pool_v_slabs p ! l)"
    by (rule pool_dims [OF swf inv]) (use g in \<open>auto intro!: that\<close>)
  obtain src_k where sk: "data_ptr_f32 k = Inr src_k" "covers_rows d (T * H) src_k"
    "block_tokens (pool_geom p) k = tokens_of H d T src_k" using block_okD [OF k] g by (metis nat_int)
  obtain src_v where sv: "data_ptr_f32 v = Inr src_v" "covers_rows d (T * H) src_v"
    "block_tokens (pool_geom p) v = tokens_of H d T src_v" using block_okD [OF v] g by (metis nat_int)
  have tw: "table_wf (int bs) (pg_table c)" using twf g(4) by simp
  note ps = pslot_slot_of [OF N(5) _ tw n(1) own N(1)]
  define a where "a = \<lparr>sc_src_k = src_k, sc_src_v = src_v, sc_slot_mapping = pg_pending_slots c,
      sc_kv_heads = int H, sc_d = int d, sc_block_size = int bs, sc_k_slab = ?K, sc_v_slab = ?V\<rparr>"
  have slen: "length (pg_pending_slots c) = T" using pend n(2) by simp
  have snth: "nat (pg_pending_slots c ! t) = pslot bs ?bl (n - T + t)" if "t < T" for t using that pend n(2) by simp
  have "distinct (pg_pending_slots c)"
    unfolding pend distinct_map using pslot_same_table [OF N(5) own] ps(1) by (auto simp: inj_on_def)
  moreover have "\<forall>sl\<in>set (pg_pending_slots c). 0 \<le> sl \<and> sl < int N * int bs"
  proof
    fix sl assume "sl \<in> set (pg_pending_slots c)"
    then obtain pos where "pos < n" "sl = int (pslot bs ?bl pos)" by (auto simp: pend)
    then show "0 \<le> sl \<and> sl < int N * int bs" using ps(3) [of pos] by (simp flip: of_nat_mult)
  qed
  ultimately have ok: "scatter_ok N a" using N sk(2) sv(2) lo slen by (simp add: scatter_ok_def a_def)
  have sz: "scatter_size a = int T" by (simp add: scatter_size_def a_def slen)
  have ro: "region_order (env_threads e) (nat (CeilDiv (scatter_size a) kTokenGrain)) (env_order e (int T) kTokenGrain)"
    using env_okD(2) [OF env, of kTokenGrain "int T"] by (simp add: sz kTokenGrain_def)
  obtain ks vs where
    run: "KvScatterF32 (env_order e (int T) kTokenGrain) (int T) a = Inr (a\<lparr>sc_k_slab := ks, sc_v_slab := vs\<rparr>)"
    and ok': "scatter_ok N (a\<lparr>sc_k_slab := ks, sc_v_slab := vs\<rparr>)"
    and new: "\<And>t h. t < T \<Longrightarrow> h < H \<Longrightarrow> let r = slot_row H bs (nat (pg_pending_slots c ! t)) h in
        row d ks r = row d src_k (t * H + h) \<and> row d vs r = row d src_v (t * H + h)"
    and old: "\<And>sl h. sl < N * bs \<Longrightarrow> h < H \<Longrightarrow> int sl \<notin> set (pg_pending_slots c) \<Longrightarrow>
        let r = slot_row H bs sl h in row d ks r = row d ?K r \<and> row d vs r = row d ?V r"
    using KvScatter_rows_ex [OF ok env_okD(1) [OF env] ro] unfolding sz by (auto simp: a_def slen)
  have "length ks = nat (slab_elems p)" "length vs = nat (slab_elems p)"
    using ok' N g by (simp_all add: scatter_ok_def has_rows_def a_def slab_elems_def nat_mult_distrib flip: of_nat_mult)
  then have swf': "slabs_wf (p\<lparr>pool_k_slabs := (pool_k_slabs p)[layer := ks], pool_v_slabs := (pool_v_slabs p)[layer := vs]\<rparr>)"
    by (rule slabs_wf_update [OF swf])
  have w: "paged_write e p c (int layer) (int T) k v =
      ((p\<lparr>pool_k_slabs := (pool_k_slabs p)[layer := ks], pool_v_slabs := (pool_v_slabs p)[layer := vs]\<rparr>,
        c\<lparr>pg_next_layer := (int layer + 1) mod int L\<rparr>), Inr ())"
    using run sk(1) sv(1) lo N(2) by (simp add: paged_write_def k_slab_def v_slab_def g a_def)
  have notin: "int (pslot bs ?bl pos) \<notin> set (pg_pending_slots c)" if "pos < n - T" for pos
    using that pslot_same_table [OF N(5) own, of pos] ps(1) by (force simp: pend)
  have notin': "int (pslot bs bl pos) \<notin> set (pg_pending_slots c)"
    if "set bl \<subseteq> set others" "pos div bs < length bl" for bl pos
    using pslot_other_table [OF N(5) own that(1) _ that(2)] ps(1) by (force simp: pend)
  have bnd: "pslot bs bl pos < N * bs" if "set bl \<subseteq> set others" "pos div bs < length bl" for bl pos
  proof -
    have "block_in_range p (bl ! (pos div bs))" using that nth_mem by (intro owned_block_range [OF own]) fastforce
    then show ?thesis unfolding pslot_def using N(1,5) by (intro nat_radix_less) (auto simp: block_in_range_def)
  qed
  show thesis
  proof (rule that [OF w swf'])
    show "slab_tokens H d bs ?bl ks n = slab_tokens H d bs ?bl ?K (n - T) @ block_tokens (pool_geom p) k"
      "slab_tokens H d bs ?bl vs n = slab_tokens H d bs ?bl ?V (n - T) @ block_tokens (pool_geom p) v"
      unfolding sk(3) sv(3) using new old notin ps(3) snth
      by (auto intro!: slab_tokens_written [OF n(2)] simp: Let_def)
    show "\<forall>bl m. set bl \<subseteq> set others \<longrightarrow> (\<forall>pos<m. pos div bs < length bl) \<longrightarrow>
      slab_tokens H d bs bl ks m = slab_tokens H d bs bl ?K m \<and> slab_tokens H d bs bl vs m = slab_tokens H d bs bl ?V m"
      using old notin' bnd by (auto intro!: slab_tokens_cong simp: Let_def)
  qed
qed

section \<open>Append\<close>

text \<open>What a cache leaves alone: the tokens any other table of the pool can read.\<close>

definition same_elsewhere :: "'f BlockPool \<Rightarrow> 'f BlockPool \<Rightarrow> int list \<Rightarrow> bool" where
  "same_elsewhere p p' others \<longleftrightarrow>
     (let H = nat (num_kv_heads (pool_geom p)); d = nat (head_dim (pool_geom p)); bs = nat (pool_block_size p) in
      \<forall>l bl m. set bl \<subseteq> set others \<longrightarrow> (\<forall>pos<m. pos div bs < length bl) \<longrightarrow>
        slab_tokens H d bs bl (pool_k_slabs p' ! l) m = slab_tokens H d bs bl (pool_k_slabs p ! l) m \<and>
        slab_tokens H d bs bl (pool_v_slabs p' ! l) m = slab_tokens H d bs bl (pool_v_slabs p ! l) m)"

definition appended ::
  "'f BlockPool \<Rightarrow> PagedKvCache \<Rightarrow> 'f BlockPool \<Rightarrow> PagedKvCache \<Rightarrow> int \<Rightarrow> 'f token list \<Rightarrow> 'f token list \<Rightarrow> bool" where
  "appended p c p' c' layer kt vt \<longleftrightarrow> (\<forall>l. layer_of (pool_geom p) l \<longrightarrow>
     paged_tokens p' (pool_k_slabs p') c' l = paged_tokens p (pool_k_slabs p) c l @ (if l = layer then kt else []) \<and>
     paged_tokens p' (pool_v_slabs p') c' l = paged_tokens p (pool_v_slabs p) c l @ (if l = layer then vt else []))"

lemma slab_tokens_prefix:
  assumes "\<And>pos. pos < n \<Longrightarrow> pos div bs < length bl"
  shows "slab_tokens H d bs (bl @ fresh) slab n = slab_tokens H d bs bl slab n"
  unfolding slab_tokens_def
  by (rule map_cong [OF refl], rule map_cong [OF refl]) (simp add: assms pslot_def nth_append)

lemma length_paged_tokens: "length (paged_tokens p slabs c l) = visible c l"
  by (simp add: paged_tokens_def slab_tokens_def)

text \<open>The in-order premise of the contract determines the protocol state of the cache.\<close>

lemma protocol_state:
  assumes wf: "paged_wf p c others" and lo: "layer_of (pool_geom p) layer" and T: "1 \<le> T"
    and vis: "\<And>l. layer_of (pool_geom p) l \<Longrightarrow> visible c l = (if l < layer then n + T else n)"
  shows "pg_next_layer c = layer" and "layer = 0 \<longrightarrow> nat (tab_num_tokens (pg_table c)) = n"
    and "layer \<noteq> 0 \<longrightarrow> nat (tab_num_tokens (pg_table c)) = n + T \<and> length (pg_pending_slots c) = T"
proof -
  let ?j = "pg_next_layer c" and ?N = "nat (tab_num_tokens (pg_table c))" and ?m = "length (pg_pending_slots c)"
  have j: "layer_of (pool_geom p) ?j" and z: "layer_of (pool_geom p) 0"
    and pm: "?j \<noteq> 0 \<Longrightarrow> 1 \<le> ?m \<and> ?m \<le> ?N"
    using wf lo by (auto simp: paged_wf_def layer_of_def pending_ok_def Let_def)
  have v0: "visible c 0 = ?N" and vj: "visible c ?j = (if ?j = 0 then ?N else ?N - ?m)"
    using j by (auto simp: visible_def layer_of_def)
  have "?j = layer"
  proof (cases "?j = 0")
    case True
    then have "visible c layer = ?N" by (simp add: visible_def)
    then have "\<not> 0 < layer" using vis [OF z] vis [OF lo] v0 T by auto
    then show ?thesis using True lo by (simp add: layer_of_def)
  next
    case False
    then have jp: "0 < ?j" using j by (simp add: layer_of_def)
    have vl: "visible c layer = (if layer < ?j then ?N else ?N - ?m)" using False by (simp add: visible_def)
    have z': "?N = (if 0 < layer then n + T else n)" using vis [OF z] v0 by simp
    have lo': "(if layer < ?j then ?N else ?N - ?m) = n" using vis [OF lo] vl by simp
    have j': "?N - ?m = (if ?j < layer then n + T else n)" using vis [OF j] vj False by simp
    consider "layer < ?j" | "layer = ?j" | "?j < layer" by linarith
    then show ?thesis
    proof cases
      case 1
      then show ?thesis using z' lo' j' pm [OF False] by auto
    next
      case 3
      then show ?thesis using lo' j' T by auto
    qed simp
  qed
  then show jl: "?j = layer" .
  show "layer = 0 \<longrightarrow> ?N = n" using vis [OF z] v0 by simp
  show "layer \<noteq> 0 \<longrightarrow> ?N = n + T \<and> ?m = T"
  proof
    assume nz: "layer \<noteq> 0"
    then have "0 < layer" using lo by (simp add: layer_of_def)
    then have "?N = n + T" using vis [OF z] v0 by simp
    moreover have "?N - ?m = n" using vis [OF lo] vj jl nz by simp
    ultimately show "?N = n + T \<and> ?m = T" using pm jl nz by linarith
  qed
qed

lemma covered_positions:
  assumes "table_wf (pool_block_size p) t" and "0 < pool_block_size p" and "pos < nat (tab_num_tokens t)"
  shows "pos div nat (pool_block_size p) < length (tab_blocks t)"
proof -
  let ?bs = "pool_block_size p"
  have "int pos div ?bs < ceil_div (tab_num_tokens t) ?bs" using assms(2,3) by (intro div_less_ceil_div) auto
  then have "int (pos div nat ?bs) < int (length (tab_blocks t))" using assms(1,2) by (simp add: table_wf_def zdiv_int)
  then show ?thesis by simp
qed

lemma append_write:
  assumes env: "env_ok e" and own: "owned p (tab_blocks (pg_table c) @ others)"
    and twf: "table_wf (pool_block_size p) (pg_table c)" and swf: "slabs_wf p"
    and lo: "layer_of (pool_geom p) layer" and k: "block_ok (pool_geom p) T k" and v: "block_ok (pool_geom p) T v"
    and n: "nat (tab_num_tokens (pg_table c)) = n" "T \<le> n"
    and pend: "pg_pending_slots c = map (\<lambda>pos. int (pslot (nat (pool_block_size p)) (tab_blocks (pg_table c)) pos)) [n - T..<n]"
  shows "\<exists>p' c'. paged_write e p c layer (int T) k v = ((p', c'), Inr ()) \<and> paged_wf p' c' others \<and>
    pool_geom p' = pool_geom p \<and> pool_block_size p' = pool_block_size p \<and> free_blocks p' = free_blocks p \<and>
    same_elsewhere p p' others \<and>
    (\<forall>l. layer_of (pool_geom p) l \<longrightarrow>
      paged_tokens p' (pool_k_slabs p') c' l = (if l \<le> layer
        then slab_tokens (nat (num_kv_heads (pool_geom p))) (nat (head_dim (pool_geom p))) (nat (pool_block_size p))
          (tab_blocks (pg_table c)) (pool_k_slabs p ! nat l) (if l = layer then n - T else n) @
          (if l = layer then block_tokens (pool_geom p) k else [])
        else slab_tokens (nat (num_kv_heads (pool_geom p))) (nat (head_dim (pool_geom p))) (nat (pool_block_size p))
          (tab_blocks (pg_table c)) (pool_k_slabs p ! nat l) (n - T)) \<and>
      paged_tokens p' (pool_v_slabs p') c' l = (if l \<le> layer
        then slab_tokens (nat (num_kv_heads (pool_geom p))) (nat (head_dim (pool_geom p))) (nat (pool_block_size p))
          (tab_blocks (pg_table c)) (pool_v_slabs p ! nat l) (if l = layer then n - T else n) @
          (if l = layer then block_tokens (pool_geom p) v else [])
        else slab_tokens (nat (num_kv_heads (pool_geom p))) (nat (head_dim (pool_geom p))) (nat (pool_block_size p))
          (tab_blocks (pg_table c)) (pool_v_slabs p ! nat l) (n - T)))"
proof -
  obtain L H d bs N where g: "num_layers (pool_geom p) = int L" "num_kv_heads (pool_geom p) = int H" "head_dim (pool_geom p) = int d"
    "pool_block_size p = int bs" "0 < L" "length (pool_k_slabs p) = L" "length (pool_v_slabs p) = L"
    by (rule pool_dims [OF swf ownedD(1) [OF own]]) (auto intro!: that)
  define ly where "ly = nat layer"
  have ly: "layer = int ly" "ly < L" using lo g(1) by (auto simp: ly_def layer_of_def)
  have T: "1 \<le> T" using k by (simp add: block_ok_def)
  have n0: "tab_num_tokens (pg_table c) = int n" using n T by linarith
  have pend': "pg_pending_slots c = map (\<lambda>pos. int (pslot bs (tab_blocks (pg_table c)) pos)) [n - T..<n]"
    using pend g(4) by simp
  from paged_write_ok [OF env own twf swf g(1-4) ly(2) k v n0 n(2) pend'] obtain ks vs where
    w: "paged_write e p c (int ly) (int T) k v =
      ((p\<lparr>pool_k_slabs := (pool_k_slabs p)[ly := ks], pool_v_slabs := (pool_v_slabs p)[ly := vs]\<rparr>,
        c\<lparr>pg_next_layer := (int ly + 1) mod int L\<rparr>), Inr ())"
    and swf': "slabs_wf (p\<lparr>pool_k_slabs := (pool_k_slabs p)[ly := ks], pool_v_slabs := (pool_v_slabs p)[ly := vs]\<rparr>)"
    and kt: "slab_tokens H d bs (tab_blocks (pg_table c)) ks n =
      slab_tokens H d bs (tab_blocks (pg_table c)) (pool_k_slabs p ! ly) (n - T) @ block_tokens (pool_geom p) k"
    and vt: "slab_tokens H d bs (tab_blocks (pg_table c)) vs n =
      slab_tokens H d bs (tab_blocks (pg_table c)) (pool_v_slabs p ! ly) (n - T) @ block_tokens (pool_geom p) v"
    and oth: "\<forall>bl m. set bl \<subseteq> set others \<longrightarrow> (\<forall>pos<m. pos div bs < length bl) \<longrightarrow>
      slab_tokens H d bs bl ks m = slab_tokens H d bs bl (pool_k_slabs p ! ly) m \<and>
      slab_tokens H d bs bl vs m = slab_tokens H d bs bl (pool_v_slabs p ! ly) m" .
  define p' where "p' = p\<lparr>pool_k_slabs := (pool_k_slabs p)[ly := ks], pool_v_slabs := (pool_v_slabs p)[ly := vs]\<rparr>"
  define c' where "c' = c\<lparr>pg_next_layer := (int ly + 1) mod int L\<rparr>"
  have sl: "pool_k_slabs p' ! l = (if l = ly then ks else pool_k_slabs p ! l)"
    "pool_v_slabs p' ! l = (if l = ly then vs else pool_v_slabs p ! l)" for l
    using ly(2) g(6,7) by (auto simp: p'_def)
  have nx: "pg_next_layer c' = (if Suc ly = L then 0 else int ly + 1)"
  proof (cases "Suc ly = L")
    case True
    then have e: "int ly + 1 = int L" by simp
    have "(int ly + 1) mod int L = 0" unfolding e by simp
    then show ?thesis using True by (simp add: c'_def)
  qed (use ly(2) in \<open>simp add: c'_def\<close>)
  have tl: "length (pg_pending_slots c) = T" using pend n(2) by simp
  have pok: "pending_ok (nat (pool_block_size p')) c'"
    using pend tl n T by (simp add: pending_ok_def Let_def c'_def p'_def)
  have wf': "paged_wf p' c' others"
    using own twf swf' pok nx ly(2) g(1) by (auto simp: paged_wf_def p'_def c'_def)
  have vis: "visible c' l = (if l \<le> layer then n else n - T)" if "layer_of (pool_geom p) l" for l
    using that nx n(1) tl ly g(1) by (auto simp: visible_def layer_of_def c'_def)
  have ng: "nat (num_kv_heads (pool_geom p)) = H" "nat (head_dim (pool_geom p)) = d" "nat (pool_block_size p) = bs"
    using g by auto
  have se: "same_elsewhere p p' others"
    unfolding same_elsewhere_def Let_def ng sl using oth by simp
  have pt: "paged_tokens p' slabs c' l = slab_tokens H d bs (tab_blocks (pg_table c)) (slabs ! nat l) (visible c' l)" for slabs l
    by (simp add: paged_tokens_def p'_def c'_def ng)
  have eqk: "paged_tokens p' (pool_k_slabs p') c' l = (if l \<le> layer
        then slab_tokens H d bs (tab_blocks (pg_table c)) (pool_k_slabs p ! nat l) (if l = layer then n - T else n) @
          (if l = layer then block_tokens (pool_geom p) k else [])
        else slab_tokens H d bs (tab_blocks (pg_table c)) (pool_k_slabs p ! nat l) (n - T)) \<and>
     paged_tokens p' (pool_v_slabs p') c' l = (if l \<le> layer
        then slab_tokens H d bs (tab_blocks (pg_table c)) (pool_v_slabs p ! nat l) (if l = layer then n - T else n) @
          (if l = layer then block_tokens (pool_geom p) v else [])
        else slab_tokens H d bs (tab_blocks (pg_table c)) (pool_v_slabs p ! nat l) (n - T))"
    if "layer_of (pool_geom p) l" for l
  proof -
    have "l = layer \<longleftrightarrow> nat l = ly" using that ly by (auto simp: layer_of_def)
    then show ?thesis unfolding pt sl vis [OF that] using kt vt by auto
  qed
  have "pool_geom p' = pool_geom p \<and> pool_block_size p' = pool_block_size p \<and> free_blocks p' = free_blocks p"
    by (simp add: p'_def)
  moreover have "paged_write e p c layer (int T) k v = ((p', c'), Inr ())" using w by (simp add: ly(1) p'_def c'_def)
  ultimately show ?thesis using wf' se eqk unfolding ng by (intro exI [of _ p'] exI [of _ c']) blast
qed

text \<open>One in-order append: either it extends the layer's content and leaves every other table's tokens
  alone, or the pool is exhausted and nothing changes.\<close>

lemma pool_data_dims:
  "pool_data p' = pool_data p \<Longrightarrow> pool_geom p' = pool_geom p \<and> pool_block_size p' = pool_block_size p \<and>
    pool_k_slabs p' = pool_k_slabs p \<and> pool_v_slabs p' = pool_v_slabs p"
  by (simp add: pool_data_def)

text \<open>What an append may do: extend one layer's content, or report exhaustion with the content kept.\<close>

definition append_outcome ::
  "'f BlockPool \<Rightarrow> PagedKvCache \<Rightarrow> int list \<Rightarrow> int \<Rightarrow> 'f token list \<Rightarrow> 'f token list \<Rightarrow>
   'f BlockPool \<Rightarrow> PagedKvCache \<Rightarrow> unit status_or \<Rightarrow> bool" where
  "append_outcome p c others layer kt vt p' c' r \<longleftrightarrow> paged_wf p' c' others \<and>
     pool_geom p' = pool_geom p \<and> pool_block_size p' = pool_block_size p \<and> same_elsewhere p p' others \<and>
     (r = Inr () \<and> appended p c p' c' layer kt vt \<or> r = ResourceExhaustedError \<and> appended p c p' c' layer [] [])"

lemma fresh_slots:
  assumes own: "owned p (tab_blocks t @ others)" and wf: "table_wf (pool_block_size p) t"
    and n: "tab_num_tokens t = int (n + T)"
  shows "map (slot_of (pool_block_size p) (tab_blocks t)) [int n..int (n + T) - 1] =
    map (\<lambda>pos. int (pslot (nat (pool_block_size p)) (tab_blocks t) pos)) [n..<n + T]"
proof -
  let ?bs = "pool_block_size p"
  have bs: "0 < ?bs" and N: "0 \<le> pool_num_blocks p" using pool_invD(1,2) [OF ownedD(1) [OF own]] by auto
  have up: "[int n..int (n + T) - 1] = map int [n..<n + T]"
    by (rule nth_equalityI) (auto simp: nth_upto)
  have "slot_of ?bs (tab_blocks t) (int pos) = int (pslot (nat ?bs) (tab_blocks t) pos)" if "pos < n + T" for pos
  proof -
    have b: "?bs = int (nat ?bs)" using bs by simp
    show ?thesis
      using pslot_slot_of(2) [of "nat ?bs" pos "n + T" t p others "nat (pool_num_blocks p)"] bs N that wf own n by simp
  qed
  then show ?thesis unfolding up by simp
qed

lemma append_first_unfold:
  assumes "layer_of (pool_geom p) 0" and k: "block_ok (pool_geom p) T k" and v: "block_ok (pool_geom p) T v"
    and "pg_next_layer c = 0"
  shows "Paged_append e p c 0 k v = (case AppendTokens p (pg_table c) (int T) of
               ((p1, t1), Inl err) \<Rightarrow> ((p1, c\<lparr>pg_table := t1, pg_pending_slots := []\<rparr>), Inl err)
             | ((p1, t1), Inr slots) \<Rightarrow> paged_write e p1 (c\<lparr>pg_table := t1, pg_pending_slots := slots\<rparr>) 0 (int T) k v)"
proof -
  have d: "dim (t_shape k) 0 = Inr (int T)" "defined k" "dim (t_shape v) 0 = Inr (int T)" "defined v"
    using block_okD [OF k] block_okD [OF v] by metis+
  have "Paged_layer_in_range p 0" using assms(1) by (simp add: Paged_layer_in_range_def layer_of_def)
  then show ?thesis
    using d block_ok_require(2) [OF k] block_ok_require(2) [OF v] assms(4)
    by (simp add: Paged_append_def Let_def)
qed

lemma append_first_exhausted:
  assumes wf: "paged_wf p c others" and L: "layer_of (pool_geom p) 0"
    and k: "block_ok (pool_geom p) T k" and v: "block_ok (pool_geom p) T v" and nx: "pg_next_layer c = 0"
    and full: "free_blocks p < ceil_div (tab_num_tokens (pg_table c) + int T) (pool_block_size p) -
      ceil_div (tab_num_tokens (pg_table c)) (pool_block_size p)"
  shows "\<exists>p' c'. Paged_append e p c 0 k v = ((p', c'), ResourceExhaustedError) \<and>
    append_outcome p c others 0 kt vt p' c' ResourceExhaustedError"
proof -
  have own: "owned p (tab_blocks (pg_table c) @ others)" and twf: "table_wf (pool_block_size p) (pg_table c)"
    using wf by (auto simp: paged_wf_def)
  have T: "0 < int T" using k by (simp add: block_ok_def)
  obtain p' where a: "AppendTokens p (pg_table c) (int T) = ((p', pg_table c), ResourceExhaustedError)"
    and o: "owned p' (tab_blocks (pg_table c) @ others)" and d: "pool_data p' = pool_data p"
    by (rule AppendTokens_exhausted [OF own twf T full])
  note pd = pool_data_dims [OF d]
  define c' where "c' = c\<lparr>pg_table := pg_table c, pg_pending_slots := []\<rparr>"
  have c': "pg_table c' = pg_table c" "pg_next_layer c' = 0" using nx by (auto simp: c'_def)
  have "paged_wf p' c' others"
    using wf o pd slabs_wf_data [OF d] c' by (simp add: paged_wf_def pending_ok_def)
  moreover have "same_elsewhere p p' others" by (simp add: same_elsewhere_def pd Let_def)
  moreover have "appended p c p' c' 0 [] []"
    using nx c' by (simp add: appended_def paged_tokens_def pd visible_def)
  ultimately have "append_outcome p c others 0 kt vt p' c' ResourceExhaustedError"
    using pd by (simp add: append_outcome_def)
  moreover have "Paged_append e p c 0 k v = ((p', c'), ResourceExhaustedError)"
    by (simp add: append_first_unfold [OF L k v nx] a c'_def)
  ultimately show ?thesis by blast
qed

lemma append_first_success:
  assumes env: "env_ok e" and wf: "paged_wf p c others" and L: "layer_of (pool_geom p) 0"
    and k: "block_ok (pool_geom p) T k" and v: "block_ok (pool_geom p) T v" and nx: "pg_next_layer c = 0"
    and room: "ceil_div (tab_num_tokens (pg_table c) + int T) (pool_block_size p) -
      ceil_div (tab_num_tokens (pg_table c)) (pool_block_size p) \<le> free_blocks p"
  shows "\<exists>p' c'. Paged_append e p c 0 k v = ((p', c'), Inr ()) \<and>
    append_outcome p c others 0 (block_tokens (pool_geom p) k) (block_tokens (pool_geom p) v) p' c' (Inr ())"
proof -
  let ?t = "pg_table c" and ?n = "nat (tab_num_tokens (pg_table c))" and ?bs = "pool_block_size p"
  let ?H = "nat (num_kv_heads (pool_geom p))" and ?d = "nat (head_dim (pool_geom p))"
  have own: "owned p (tab_blocks ?t @ others)" and twf: "table_wf ?bs ?t" and swf: "slabs_wf p"
    using wf by (auto simp: paged_wf_def)
  have bs: "0 < ?bs" using pool_invD(1) [OF ownedD(1) [OF own]] .
  have n0: "tab_num_tokens ?t = int ?n" using twf by (simp add: table_wf_def)
  have T: "0 < int T" using k by (simp add: block_ok_def)
  obtain p1 fresh where
    a: "AppendTokens p ?t (int T) = ((p1, \<lparr>tab_blocks = tab_blocks ?t @ fresh, tab_num_tokens = tab_num_tokens ?t + int T\<rparr>),
        Inr (map (slot_of ?bs (tab_blocks ?t @ fresh)) [tab_num_tokens ?t..tab_num_tokens ?t + int T - 1]))"
    and o: "owned p1 ((tab_blocks ?t @ fresh) @ others)"
    and w: "table_wf ?bs \<lparr>tab_blocks = tab_blocks ?t @ fresh, tab_num_tokens = tab_num_tokens ?t + int T\<rparr>"
    and dt: "pool_data p1 = pool_data p"
    by (rule AppendTokens_ok [OF own twf T room])
  note pd = pool_data_dims [OF dt]
  define t1 where "t1 = \<lparr>tab_blocks = tab_blocks ?t @ fresh, tab_num_tokens = tab_num_tokens ?t + int T\<rparr>"
  define slots where "slots = map (slot_of ?bs (tab_blocks t1)) [int ?n..int (?n + T) - 1]"
  define c1 where "c1 = c\<lparr>pg_table := t1, pg_pending_slots := slots\<rparr>"
  have c1: "pg_table c1 = t1" "pg_pending_slots c1 = slots" by (simp_all add: c1_def)
  have a': "AppendTokens p ?t (int T) = ((p1, t1), Inr slots)"
    using a n0 by (simp add: t1_def slots_def)
  have own1: "owned p1 (tab_blocks t1 @ others)" and twf1: "table_wf (pool_block_size p1) t1"
    using o w pd by (simp_all add: t1_def)
  have swf1: "slabs_wf p1" using swf slabs_wf_data [OF dt] by simp
  have n1: "tab_num_tokens t1 = int (?n + T)" using n0 by (simp add: t1_def)
  have n1': "nat (tab_num_tokens (pg_table c1)) = ?n + T" unfolding c1 n1 by (rule nat_int)
  have sl: "pg_pending_slots c1 = map (\<lambda>pos. int (pslot (nat (pool_block_size p1)) (tab_blocks (pg_table c1)) pos)) [?n + T - T..<?n + T]"
    using fresh_slots [OF own1 twf1 n1] pd by (simp add: c1 slots_def)
  have tb1: "tab_blocks t1 = tab_blocks ?t @ fresh" by (simp add: t1_def)
  have "layer_of (pool_geom p1) 0" and "block_ok (pool_geom p1) T k" and "block_ok (pool_geom p1) T v"
    using L k v pd by simp_all
  from append_write [OF env own1 [folded c1(1)] twf1 [folded c1(1)] swf1 this n1' le_add2 sl]
  obtain p' c' where
    pw: "paged_write e p1 c1 0 (int T) k v = ((p', c'), Inr ())" and wf': "paged_wf p' c' others"
    and pg: "pool_geom p' = pool_geom p1" "pool_block_size p' = pool_block_size p1" and se: "same_elsewhere p1 p' others"
    and tk: "\<forall>l. layer_of (pool_geom p1) l \<longrightarrow>
      paged_tokens p' (pool_k_slabs p') c' l = (if l \<le> 0
        then slab_tokens (nat (num_kv_heads (pool_geom p1))) (nat (head_dim (pool_geom p1))) (nat (pool_block_size p1))
          (tab_blocks (pg_table c1)) (pool_k_slabs p1 ! nat l) (if l = 0 then ?n + T - T else ?n + T) @
          (if l = 0 then block_tokens (pool_geom p1) k else [])
        else slab_tokens (nat (num_kv_heads (pool_geom p1))) (nat (head_dim (pool_geom p1))) (nat (pool_block_size p1))
          (tab_blocks (pg_table c1)) (pool_k_slabs p1 ! nat l) (?n + T - T)) \<and>
      paged_tokens p' (pool_v_slabs p') c' l = (if l \<le> 0
        then slab_tokens (nat (num_kv_heads (pool_geom p1))) (nat (head_dim (pool_geom p1))) (nat (pool_block_size p1))
          (tab_blocks (pg_table c1)) (pool_v_slabs p1 ! nat l) (if l = 0 then ?n + T - T else ?n + T) @
          (if l = 0 then block_tokens (pool_geom p1) v else [])
        else slab_tokens (nat (num_kv_heads (pool_geom p1))) (nat (head_dim (pool_geom p1))) (nat (pool_block_size p1))
          (tab_blocks (pg_table c1)) (pool_v_slabs p1 ! nat l) (?n + T - T))" by (elim exE conjE)
  have pre: "slab_tokens ?H ?d (nat ?bs) (tab_blocks ?t @ fresh) s ?n = slab_tokens ?H ?d (nat ?bs) (tab_blocks ?t) s ?n" for s
    by (rule slab_tokens_prefix) (rule covered_positions [OF twf bs])
  have old: "paged_tokens p slabs c l = slab_tokens ?H ?d (nat ?bs) (tab_blocks ?t) (slabs ! nat l) ?n" for slabs l
    using nx by (simp add: paged_tokens_def visible_def)
  have "appended p c p' c' 0 (block_tokens (pool_geom p) k) (block_tokens (pool_geom p) v)"
    unfolding appended_def
  proof (intro allI impI)
    fix l assume l: "layer_of (pool_geom p) l"
    then have l0: "(l \<le> 0) = (l = 0)" by (auto simp: layer_of_def)
    have l1: "layer_of (pool_geom p1) l" using l pd by simp
    show "paged_tokens p' (pool_k_slabs p') c' l = paged_tokens p (pool_k_slabs p) c l @ (if l = 0 then block_tokens (pool_geom p) k else []) \<and>
        paged_tokens p' (pool_v_slabs p') c' l = paged_tokens p (pool_v_slabs p) c l @ (if l = 0 then block_tokens (pool_geom p) v else [])"
      unfolding old using tk [rule_format, OF l1] by (simp add: c1 pd pre tb1 l0)
  qed
  moreover have "same_elsewhere p p' others" using se by (simp add: same_elsewhere_def pd Let_def)
  ultimately have "append_outcome p c others 0 (block_tokens (pool_geom p) k) (block_tokens (pool_geom p) v) p' c' (Inr ())"
    using wf' pg pd by (simp add: append_outcome_def)
  moreover have "Paged_append e p c 0 k v = ((p', c'), Inr ())"
    by (simp add: append_first_unfold [OF L k v nx] a' pw flip: c1_def)
  ultimately show ?thesis by blast
qed

text \<open>Layers after the first write to the slots layer 0 reserved; they cannot run out of blocks.\<close>

lemma append_next:
  assumes env: "env_ok e" and wf: "paged_wf p c others" and lo: "layer_of (pool_geom p) layer"
    and k: "block_ok (pool_geom p) T k" and v: "block_ok (pool_geom p) T v"
    and nx: "pg_next_layer c = layer" "layer \<noteq> 0"
    and N: "nat (tab_num_tokens (pg_table c)) = n + T" and m: "length (pg_pending_slots c) = T"
  shows "\<exists>p' c'. Paged_append e p c layer k v = ((p', c'), Inr ()) \<and>
    append_outcome p c others layer (block_tokens (pool_geom p) k) (block_tokens (pool_geom p) v) p' c' (Inr ())"
proof -
  let ?H = "nat (num_kv_heads (pool_geom p))" and ?d = "nat (head_dim (pool_geom p))" and ?bs = "nat (pool_block_size p)"
  have own: "owned p (tab_blocks (pg_table c) @ others)" and twf: "table_wf (pool_block_size p) (pg_table c)"
    and swf: "slabs_wf p" and po: "pending_ok ?bs c"
    using wf by (auto simp: paged_wf_def)
  have pend: "pg_pending_slots c = map (\<lambda>pos. int (pslot ?bs (tab_blocks (pg_table c)) pos)) [n + T - T..<n + T]"
    using po nx N m by (simp add: pending_ok_def Let_def)
  have d: "dim (t_shape k) 0 = Inr (int T)" "defined k" "dim (t_shape v) 0 = Inr (int T)" "defined v"
    using block_okD [OF k] block_okD [OF v] by metis+
  have rng: "Paged_layer_in_range p layer" using lo by (simp add: Paged_layer_in_range_def layer_of_def)
  have unf: "Paged_append e p c layer k v = paged_write e p c layer (int T) k v"
    using d rng block_ok_require(2) [OF k] block_ok_require(2) [OF v] nx m
    by (simp add: Paged_append_def Let_def)
  from append_write [OF env own twf swf lo k v N le_add2 pend]
  obtain p' c' where
    pw: "paged_write e p c layer (int T) k v = ((p', c'), Inr ())" and wf': "paged_wf p' c' others"
    and pg: "pool_geom p' = pool_geom p" "pool_block_size p' = pool_block_size p" and se: "same_elsewhere p p' others"
    and tk: "\<forall>l. layer_of (pool_geom p) l \<longrightarrow>
      paged_tokens p' (pool_k_slabs p') c' l = (if l \<le> layer
        then slab_tokens ?H ?d ?bs (tab_blocks (pg_table c)) (pool_k_slabs p ! nat l) (if l = layer then n + T - T else n + T) @
          (if l = layer then block_tokens (pool_geom p) k else [])
        else slab_tokens ?H ?d ?bs (tab_blocks (pg_table c)) (pool_k_slabs p ! nat l) (n + T - T)) \<and>
      paged_tokens p' (pool_v_slabs p') c' l = (if l \<le> layer
        then slab_tokens ?H ?d ?bs (tab_blocks (pg_table c)) (pool_v_slabs p ! nat l) (if l = layer then n + T - T else n + T) @
          (if l = layer then block_tokens (pool_geom p) v else [])
        else slab_tokens ?H ?d ?bs (tab_blocks (pg_table c)) (pool_v_slabs p ! nat l) (n + T - T))" by (elim exE conjE)
  have vis: "visible c l = (if l < layer then n + T else n)" for l using nx N m by (simp add: visible_def)
  have old: "paged_tokens p slabs c l = slab_tokens ?H ?d ?bs (tab_blocks (pg_table c)) (slabs ! nat l)
      (if l < layer then n + T else n)" for slabs l
    by (simp add: paged_tokens_def vis)
  have "appended p c p' c' layer (block_tokens (pool_geom p) k) (block_tokens (pool_geom p) v)"
    unfolding appended_def old using tk by auto
  then have "append_outcome p c others layer (block_tokens (pool_geom p) k) (block_tokens (pool_geom p) v) p' c' (Inr ())"
    using wf' pg se by (simp add: append_outcome_def)
  then show ?thesis unfolding unf pw by blast
qed

lemma Paged_append_ok:
  assumes env: "env_ok e" and wf: "paged_wf p c others" and lo: "layer_of (pool_geom p) layer"
    and k: "block_ok (pool_geom p) T k" and v: "block_ok (pool_geom p) T v"
    and vis: "\<And>l. layer_of (pool_geom p) l \<Longrightarrow> visible c l = (if l < layer then n + T else n)"
  shows "\<exists>p' c' r. Paged_append e p c layer k v = ((p', c'), r) \<and>
    append_outcome p c others layer (block_tokens (pool_geom p) k) (block_tokens (pool_geom p) v) p' c' r"
proof -
  have T: "1 \<le> T" using k by (simp add: block_ok_def)
  have st: "pg_next_layer c = layer"
    "layer \<noteq> 0 \<longrightarrow> nat (tab_num_tokens (pg_table c)) = n + T \<and> length (pg_pending_slots c) = T"
    by (rule protocol_state(1) [OF wf lo T], erule vis) (rule protocol_state(3) [OF wf lo T], erule vis)
  show ?thesis
  proof (cases "layer = 0")
    case False
    then have N: "nat (tab_num_tokens (pg_table c)) = n + T" and m: "length (pg_pending_slots c) = T" using st(2) False by auto
    from append_next [OF env wf lo k v st(1) False N m] show ?thesis by (elim exE) (rule exI, rule exI, rule exI)
  next
    case True
    have lo0: "layer_of (pool_geom p) 0" and nx0: "pg_next_layer c = 0" using lo st(1) True by auto
    show ?thesis
    proof (cases "free_blocks p < ceil_div (tab_num_tokens (pg_table c) + int T) (pool_block_size p) -
        ceil_div (tab_num_tokens (pg_table c)) (pool_block_size p)")
      case full: True
      from append_first_exhausted [OF wf lo0 k v nx0 full, where e = e and kt = "block_tokens (pool_geom p) k"
          and vt = "block_tokens (pool_geom p) v"] show ?thesis
        unfolding True by (elim exE) (rule exI, rule exI, rule exI)
    next
      case False
      then have room: "ceil_div (tab_num_tokens (pg_table c) + int T) (pool_block_size p) -
        ceil_div (tab_num_tokens (pg_table c)) (pool_block_size p) \<le> free_blocks p" by simp
      from append_first_success [OF env wf lo0 k v nx0 room] show ?thesis
        unfolding True by (elim exE) (rule exI, rule exI, rule exI)
    qed
  qed
qed

section \<open>View and truncate\<close>

lemma table_capacity:
  assumes own: "owned p (tab_blocks t @ others)" and wf: "table_wf (pool_block_size p) t"
    and bs: "pool_block_size p = int bs" and N: "pool_num_blocks p = int N" and "0 < bs"
    and n: "int n \<le> tab_num_tokens t"
  shows "n \<le> N * bs"
proof -
  have "set (tab_blocks t) \<subseteq> {0..<int N}"
    using owned_block_range [OF own] N by (auto simp: block_in_range_def)
  then have "card (set (tab_blocks t)) \<le> card {0..<int N}" by (intro card_mono) auto
  moreover have "distinct (tab_blocks t)" using ownedD(2) [OF own] by simp
  ultimately have l: "length (tab_blocks t) \<le> N" by (simp add: distinct_card)
  have "tab_num_tokens t \<le> int (length (tab_blocks t)) * int bs"
    using ceil_div_le [of "int bs" "tab_num_tokens t"] wf bs assms(5) by (simp add: table_wf_def)
  also have "\<dots> \<le> int N * int bs" using l by (intro mult_right_mono) auto
  finally have "int n \<le> int (N * bs)" using n by simp
  then show ?thesis by (simp only: of_nat_le_iff)
qed

lemma gathered_view:
  assumes "has_rows d (H * n) out" and "num_kv_heads g = int H" "head_dim g = int d"
    and "\<And>h pos. h < H \<Longrightarrow> pos < n \<Longrightarrow> row d out (h * n + pos) = row d slab (slot_row H bs (pslot bs bl pos) h)"
    and "dims sh = [int H, int n, int d]"
  shows "view_of g (slab_tokens H d bs bl slab n)
    \<lparr>t_buffer = Some out, t_byte_offset = 0, t_shape = sh, t_strides = RowMajorStrides sh, t_dtype = kFloat32, t_device = Cpu\<rparr>"
proof -
  have "out = head_major H (slab_tokens H d bs bl slab n)"
    by (rule head_major_eqI [of d]) (use assms(1,4) in \<open>auto simp: slab_tokens_def\<close>)
  then show ?thesis using assms(2,3,5) by (simp add: view_of_def slab_tokens_def)
qed

lemma Paged_view_ok:
  assumes env: "env_ok e" and wf: "paged_wf p c others" and lo: "layer_of (pool_geom p) layer"
  shows "\<exists>w. Paged_view e p c layer = Inr w \<and>
    view_of (pool_geom p) (paged_tokens p (pool_k_slabs p) c layer) (view_k w) \<and>
    view_of (pool_geom p) (paged_tokens p (pool_v_slabs p) c layer) (view_v w)"
proof -
  let ?t = "pg_table c"
  have own: "owned p (tab_blocks ?t @ others)" and twf: "table_wf (pool_block_size p) ?t" and swf: "slabs_wf p"
    and po: "pending_ok (nat (pool_block_size p)) c"
    using wf by (auto simp: paged_wf_def)
  obtain L H d bs N where g: "num_layers (pool_geom p) = int L" "num_kv_heads (pool_geom p) = int H" "head_dim (pool_geom p) = int d"
    "pool_block_size p = int bs" "pool_num_blocks p = int N" and pos: "0 < L" "0 < H" "0 < d" "0 < bs" "0 < N"
    and sl: "length (pool_k_slabs p) = L" "length (pool_v_slabs p) = L"
    and rows: "\<forall>l<L. has_rows d (N * H * bs) (pool_k_slabs p ! l) \<and> has_rows d (N * H * bs) (pool_v_slabs p ! l)"
    and mx: "int (H * (N * bs) * d) * 4 \<le> INT64_MAX"
    by (rule pool_dims [OF swf ownedD(1) [OF own]])
  define ly where "ly = nat layer"
  have ly: "layer = int ly" "ly < L" using lo g(1) by (auto simp: ly_def layer_of_def)
  define n where "n = visible c layer"
  have nt: "tab_num_tokens ?t = int (nat (tab_num_tokens ?t))" using twf by (simp add: table_wf_def)
  have vis: "int n = (if pg_next_layer c = 0 \<or> layer < pg_next_layer c then tab_num_tokens ?t
      else tab_num_tokens ?t - int (length (pg_pending_slots c)))"
    using po nt by (auto simp: n_def visible_def pending_ok_def Let_def of_nat_diff)
  have nle: "int n \<le> tab_num_tokens ?t" using vis by auto
  have cov: "ceil_div (int n) (int bs) \<le> int (length (tab_blocks ?t))"
    using ceil_div_mono [of "int bs" "int n" "tab_num_tokens ?t"] nle twf pos(4) g(4) by (simp add: table_wf_def)
  have bt: "0 \<le> tab_blocks ?t ! i \<and> tab_blocks ?t ! i < int N" if "int i < ceil_div (int n) (int bs)" for i
  proof -
    have "i < length (tab_blocks ?t)" using that cov by linarith
    then have "block_in_range p (tab_blocks ?t ! i)" by (intro owned_block_range [OF own]) simp
    then show ?thesis using g(5) by (simp add: block_in_range_def)
  qed
  have nN: "n \<le> N * bs" by (rule table_capacity [OF own twf g(4,5) pos(4) nle])
  define sh where "sh = \<lparr>dims = [int H, int n, int d], numel = int (H * n * d)\<rparr>"
  have sh: "Shape_ctor [int H, int n, int d] = Inr sh" "numel sh * 4 \<le> INT64_MAX" "0 \<le> numel sh"
    "dims sh = [int H, int n, int d]" "nat (numel sh) = H * n * d"
    unfolding sh_def using view_shape_ok [OF pos(2,3) nN _ mx] pos(4,5)
    by (simp_all only: Shape.select_convs nat_int of_nat_0_le_iff nat_0_less_mult_iff simp_thms)
  obtain b0 where b0: "Tensor_empty Cpu (env_alloc e) sh kFloat32 Cpu = Inr \<lparr>t_buffer = Some b0, t_byte_offset = 0,
      t_shape = sh, t_strides = RowMajorStrides sh, t_dtype = kFloat32, t_device = Cpu\<rparr>" "length b0 = H * n * d"
    using empty_tensor_ok [OF env sh(3,2)] sh(5) by metis
  define t0 where "t0 = \<lparr>t_buffer = Some b0, t_byte_offset = 0,
      t_shape = sh, t_strides = RowMajorStrides sh, t_dtype = kFloat32, t_device = Cpu\<rparr>"
  have hr: "has_rows d (H * n) b0" using b0(2) by (simp add: has_rows_def)
  have ord: "region_order (env_threads e) (nat (CeilDiv (int H * ceil_div (int n) (int bs)) kBlockGrain))
      (env_order e (int H * ceil_div (int n) (int bs)) kBlockGrain)"
    by (rule env_okD(2) [OF env]) (simp add: kBlockGrain_def)
  have rl: "has_rows d (N * H * bs) (pool_k_slabs p ! ly)" "has_rows d (N * H * bs) (pool_v_slabs p ! ly)"
    using rows ly(2) by auto
  obtain ok1 ov1 where run: "KvGatherF32 (env_order e (int H * ceil_div (int n) (int bs)) kBlockGrain) (pool_k_slabs p ! ly)
      (pool_v_slabs p ! ly) (tab_blocks ?t) (int bs) (int n) (int H) (int d) b0 b0 = Inr (ok1, ov1)"
    and o: "has_rows d (H * n) ok1" "has_rows d (H * n) ov1"
    and rw: "\<forall>h pos. h < H \<longrightarrow> pos < n \<longrightarrow>
      row d ok1 (h * n + pos) = row d (pool_k_slabs p ! ly) (slot_row H bs (pslot bs (tab_blocks ?t) pos) h) \<and>
      row d ov1 (h * n + pos) = row d (pool_v_slabs p ! ly) (slot_row H bs (pslot bs (tab_blocks ?t) pos) h)"
    by (rule KvGather_rows [OF pos(3,4) env_okD(1) [OF env] ord rl hr hr cov bt])
      (assumption, rule that, (assumption | simp add: pslot_def Let_def)+)
  have gat: "GatherLayerKV e p ?t layer (int n) = Inr \<lparr>view_k = t0\<lparr>t_buffer := Some ok1\<rparr>, view_v = t0\<lparr>t_buffer := Some ov1\<rparr>\<rparr>"
  proof -
    have p0: "data_ptr_f32 t0 = Inr b0" by (simp add: data_ptr_f32_def t0_def)
    have ks: "k_slab p layer = Inr (pool_k_slabs p ! ly)" "v_slab p layer = Inr (pool_v_slabs p ! ly)"
      using lo by (simp_all add: k_slab_def v_slab_def layer_of_def ly_def)
    have cd: "c_div (int n + int bs - 1) (int bs) = ceil_div (int n) (int bs)" using pos(4) by (simp add: ceil_div_def)
    show ?thesis
      using lo nle sh(1) b0(1) run p0 ks cd by (simp add: GatherLayerKV_def Let_def g layer_of_def flip: t0_def)
  qed
  have pv: "Paged_view e p c layer = GatherLayerKV e p ?t layer (int n)"
    using lo vis by (simp add: Paged_view_def Let_def Paged_layer_in_range_def layer_of_def)
  have tk: "paged_tokens p slabs c layer = slab_tokens H d bs (tab_blocks ?t) (slabs ! ly) n" for slabs
    by (simp add: paged_tokens_def g n_def ly_def)
  have "view_of (pool_geom p) (paged_tokens p (pool_k_slabs p) c layer) (t0\<lparr>t_buffer := Some ok1\<rparr>)"
    "view_of (pool_geom p) (paged_tokens p (pool_v_slabs p) c layer) (t0\<lparr>t_buffer := Some ov1\<rparr>)"
    unfolding tk t0_def using gathered_view [OF o(1) g(2,3) _ sh(4)] gathered_view [OF o(2) g(2,3) _ sh(4)] rw by simp_all
  then show ?thesis unfolding pv gat by simp
qed

lemma Paged_truncate_ok:
  assumes wf: "paged_wf p c others" and m: "\<And>l. layer_of (pool_geom p) l \<Longrightarrow> m \<le> visible c l"
  shows "\<exists>p' c'. Paged_truncate p c (int m) = Inr (p', c') \<and> paged_wf p' c' others \<and> pool_data p' = pool_data p \<and>
    pg_next_layer c' = 0 \<and>
    (\<forall>l slabs. layer_of (pool_geom p) l \<longrightarrow> paged_tokens p' slabs c' l = take m (paged_tokens p slabs c l))"
proof -
  let ?t = "pg_table c" and ?bs = "pool_block_size p"
  have own: "owned p (tab_blocks ?t @ others)" and twf: "table_wf ?bs ?t" and swf: "slabs_wf p"
    using wf by (auto simp: paged_wf_def)
  have bs: "0 < ?bs" using pool_invD(1) [OF ownedD(1) [OF own]] .
  have L: "1 \<le> num_layers (pool_geom p)" using swf by (simp add: slabs_wf_def ValidateGeometry_ok_iff)
  have z: "layer_of (pool_geom p) 0" using L by (simp add: layer_of_def)
  have "m \<le> nat (tab_num_tokens ?t)" using m [OF z] by (simp add: visible_def split: if_splits)
  then have mt: "0 \<le> int m" "int m \<le> tab_num_tokens ?t" using twf by (auto simp: table_wf_def)
  let ?k = "nat (ceil_div (int m) ?bs)"
  let ?t' = "\<lparr>tab_blocks = take ?k (tab_blocks ?t), tab_num_tokens = int m\<rparr>"
  obtain p' where tr: "Truncate p ?t (int m) = Inr (p', ?t')"
    and o: "owned p' (take ?k (tab_blocks ?t) @ others)" and w: "table_wf ?bs ?t'" and d: "pool_data p' = pool_data p"
    by (rule Truncate_ok [OF own twf mt])
  note pd = pool_data_dims [OF d]
  define c' where "c' = c\<lparr>pg_table := ?t', pg_pending_slots := [], pg_next_layer := 0\<rparr>"
  have "paged_wf p' c' others"
    using o w swf slabs_wf_data [OF d] pd L by (simp add: paged_wf_def pending_ok_def c'_def)
  moreover have "paged_tokens p' slabs c' l = take m (paged_tokens p slabs c l)" if "layer_of (pool_geom p) l" for l slabs
  proof -
    let ?H = "nat (num_kv_heads (pool_geom p))" and ?d = "nat (head_dim (pool_geom p))"
    have "pos div nat ?bs < length (take ?k (tab_blocks ?t))" if "pos < m" for pos
      using covered_positions [of p ?t' pos] w bs that by simp
    then have "slab_tokens ?H ?d (nat ?bs) (take ?k (tab_blocks ?t) @ drop ?k (tab_blocks ?t)) (slabs ! nat l) m =
        slab_tokens ?H ?d (nat ?bs) (take ?k (tab_blocks ?t)) (slabs ! nat l) m"
      by (rule slab_tokens_prefix)
    moreover have "take m (slab_tokens ?H ?d (nat ?bs) (tab_blocks ?t) (slabs ! nat l) (visible c l)) =
        slab_tokens ?H ?d (nat ?bs) (tab_blocks ?t) (slabs ! nat l) m"
      using m [OF that] by (simp add: slab_tokens_def take_map)
    moreover have "visible c' l = m" "tab_blocks (pg_table c') = take ?k (tab_blocks ?t)" by (simp_all add: c'_def visible_def)
    ultimately show ?thesis by (simp add: paged_tokens_def pd)
  qed
  ultimately show ?thesis using tr d by (intro exI [of _ p'] exI [of _ c']) (simp add: Paged_truncate_def c'_def)
qed

section \<open>The contract holds\<close>

text \<open>The state is the surroundings, the pool and the cache; the blocks of the other tables of the pool
  are whatever they are.\<close>

type_synonym 'f PagedState = "'f KvEnv \<times> 'f BlockPool \<times> PagedKvCache"

definition paged_append :: "'f PagedState \<Rightarrow> int \<Rightarrow> 'f list Tensor \<Rightarrow> 'f list Tensor \<Rightarrow> 'f PagedState \<times> unit status_or" where
  "paged_append s layer k v =
     (case s of (e, p, c) \<Rightarrow> (case Paged_append e p c layer k v of ((p', c'), r) \<Rightarrow> ((e, p', c'), r)))"

definition paged_view :: "'f PagedState \<Rightarrow> int \<Rightarrow> 'f KvView status_or" where
  "paged_view s layer = (case s of (e, p, c) \<Rightarrow> Paged_view e p c layer)"

definition paged_truncate :: "'f PagedState \<Rightarrow> int \<Rightarrow> 'f PagedState status_or" where
  "paged_truncate s m = (case s of (e, p, c) \<Rightarrow>
     (case Paged_truncate p c m of Inl err \<Rightarrow> Inl err | Inr (p', c') \<Rightarrow> Inr (e, p', c')))"

definition paged_geom :: "'f PagedState \<Rightarrow> CacheGeometry" where
  "paged_geom s = (case s of (e, p, c) \<Rightarrow> pool_geom p)"

definition paged_k :: "'f PagedState \<Rightarrow> int \<Rightarrow> 'f token list" where
  "paged_k s l = (case s of (e, p, c) \<Rightarrow> paged_tokens p (pool_k_slabs p) c l)"

definition paged_v :: "'f PagedState \<Rightarrow> int \<Rightarrow> 'f token list" where
  "paged_v s l = (case s of (e, p, c) \<Rightarrow> paged_tokens p (pool_v_slabs p) c l)"

definition paged_inv :: "int list \<Rightarrow> 'f PagedState \<Rightarrow> bool" where
  "paged_inv others s \<longleftrightarrow> (case s of (e, p, c) \<Rightarrow> env_ok e \<and> paged_wf p c others)"

lemmas paged_state_defs = paged_append_def paged_view_def paged_truncate_def paged_geom_def paged_k_def paged_v_def paged_inv_def

interpretation paged: kv_cache paged_append paged_view paged_truncate paged_geom paged_k paged_v "paged_inv others" for others
proof unfold_locales
  fix s :: "'f PagedState" and l
  show "length (paged_v s l) = length (paged_k s l)"
    by (cases s) (simp add: paged_state_defs length_paged_tokens)
next
  fix s :: "'f PagedState" and layer T and k v :: "'f list Tensor" and n
  assume a: "paged_inv others s" "layer_of (paged_geom s) layer" "block_ok (paged_geom s) T k" "block_ok (paged_geom s) T v"
    and len: "\<And>l. layer_of (paged_geom s) l \<Longrightarrow> length (paged_k s l) = (if l < layer then n + T else n)"
  obtain e p c where s: "s = (e, p, c)" by (cases s)
  have e: "env_ok e" and wf: "paged_wf p c others" and lo: "layer_of (pool_geom p) layer"
    and b: "block_ok (pool_geom p) T k" "block_ok (pool_geom p) T v"
    using a by (simp_all add: s paged_state_defs)
  have vis: "visible c l = (if l < layer then n + T else n)" if "layer_of (pool_geom p) l" for l
    using len that by (simp add: s paged_state_defs length_paged_tokens)
  obtain p' c' r where r: "Paged_append e p c layer k v = ((p', c'), r)"
    and o: "append_outcome p c others layer (block_tokens (pool_geom p) k) (block_tokens (pool_geom p) v) p' c' r"
  proof -
    have "\<exists>p' c' r. Paged_append e p c layer k v = ((p', c'), r) \<and>
        append_outcome p c others layer (block_tokens (pool_geom p) k) (block_tokens (pool_geom p) v) p' c' r"
      by (rule Paged_append_ok [OF e wf lo b]) (erule vis)
    then show thesis using that by blast
  qed
  show "\<exists>s' r. paged_append s layer k v = (s', r) \<and> paged_inv others s' \<and> paged_geom s' = paged_geom s \<and>
        (r = Inr () \<and> (\<forall>l. layer_of (paged_geom s) l \<longrightarrow>
            paged_k s' l = paged_k s l @ (if l = layer then block_tokens (paged_geom s) k else []) \<and>
            paged_v s' l = paged_v s l @ (if l = layer then block_tokens (paged_geom s) v else [])) \<or>
         r = ResourceExhaustedError \<and> (\<forall>l. layer_of (paged_geom s) l \<longrightarrow>
            paged_k s' l = paged_k s l \<and> paged_v s' l = paged_v s l))"
    using r o e by (intro exI [of _ "(e, p', c')"] exI [of _ r])
      (auto simp: s paged_state_defs append_outcome_def appended_def)
next
  fix s :: "'f PagedState" and layer
  assume "paged_inv others s" "layer_of (paged_geom s) layer"
  then show "\<exists>w. paged_view s layer = Inr w \<and> view_of (paged_geom s) (paged_k s layer) (view_k w) \<and>
        view_of (paged_geom s) (paged_v s layer) (view_v w)"
    using Paged_view_ok [of "fst s" "fst (snd s)" "snd (snd s)" others layer] by (cases s) (simp add: paged_state_defs)
next
  fix s :: "'f PagedState" and m
  assume a: "paged_inv others s" "\<And>l. layer_of (paged_geom s) l \<Longrightarrow> m \<le> length (paged_k s l)"
  obtain e p c where s: "s = (e, p, c)" by (cases s)
  have wf: "paged_wf p c others" and vis: "\<And>l. layer_of (pool_geom p) l \<Longrightarrow> m \<le> visible c l"
    using a by (simp_all add: s paged_state_defs length_paged_tokens)
  obtain p' c' where t: "Paged_truncate p c (int m) = Inr (p', c')" "paged_wf p' c' others" "pool_data p' = pool_data p"
    "\<forall>l slabs. layer_of (pool_geom p) l \<longrightarrow> paged_tokens p' slabs c' l = take m (paged_tokens p slabs c l)"
  proof -
    have "\<exists>p' c'. Paged_truncate p c (int m) = Inr (p', c') \<and> paged_wf p' c' others \<and> pool_data p' = pool_data p \<and>
      pg_next_layer c' = 0 \<and>
      (\<forall>l slabs. layer_of (pool_geom p) l \<longrightarrow> paged_tokens p' slabs c' l = take m (paged_tokens p slabs c l))"
      by (rule Paged_truncate_ok [OF wf]) (erule vis)
    then show thesis using that by blast
  qed
  show "\<exists>s'. paged_truncate s (int m) = Inr s' \<and> paged_inv others s' \<and> paged_geom s' = paged_geom s \<and>
        (\<forall>l. layer_of (paged_geom s) l \<longrightarrow> paged_k s' l = take m (paged_k s l) \<and> paged_v s' l = take m (paged_v s l))"
    using t(1,2,4) a(1) pool_data_dims [OF t(3)]
    by (intro exI [of _ "(e, p', c')"]) (simp add: s paged_state_defs)
qed

end
