(* ===== verification/Kv_Correctness.thy ===== *)
theory Kv_Correctness
  imports Paged_Cache
begin

text \<open>
  What the KV caches promise together: whole forwards through the paged cache, their rollback, the
  isolation of caches that share a pool, and the agreement of the paged and the contiguous cache. The
  proofs rest on the two interpretations of the \<open>kv_cache\<close> contract.
\<close>

section \<open>Forwards through the paged cache\<close>

lemma same_elsewhere_trans:
  assumes "same_elsewhere p p1 others" and "same_elsewhere p1 p2 others"
    and "pool_geom p1 = pool_geom p" and "pool_block_size p1 = pool_block_size p"
  shows "same_elsewhere p p2 others"
  using assms by (simp add: same_elsewhere_def Let_def)

lemma appended_visible:
  assumes "appended p c p' c' layer kt vt" and "layer_of (pool_geom p) l" and "length kt = T"
  shows "visible c' l = visible c l + (if l = layer then T else 0)"
proof -
  have "length (paged_tokens p' (pool_k_slabs p') c' l) =
      length (paged_tokens p (pool_k_slabs p) c l @ (if l = layer then kt else []))"
    using assms(1,2) by (simp add: appended_def)
  then show ?thesis using assms(3) by (simp add: length_paged_tokens)
qed

text \<open>Once layer 0 has reserved the blocks, the other layers cannot fail.\<close>

lemma forward_rest:
  assumes "env_ok e" and "paged_wf p c others" and "0 < layer"
    and "layer + int (length kvs) \<le> num_layers (pool_geom p)"
    and "\<And>k v. (k, v) \<in> set kvs \<Longrightarrow> block_ok (pool_geom p) T k \<and> block_ok (pool_geom p) T v"
    and "\<And>l. layer_of (pool_geom p) l \<Longrightarrow> visible c l = (if l < layer then n + T else n)"
  shows "\<exists>p' c'. append_layers paged_append (e, p, c) layer kvs = ((e, p', c'), Inr ()) \<and> paged_wf p' c' others \<and>
    pool_geom p' = pool_geom p \<and> pool_block_size p' = pool_block_size p \<and> same_elsewhere p p' others"
  using assms
proof (induction kvs arbitrary: p c layer)
  case Nil
  then show ?case by (simp add: same_elsewhere_def Let_def)
next
  case (Cons kv kvs)
  obtain k v where kv: "kv = (k, v)" by force
  let ?g = "pool_geom p"
  have lo: "layer_of ?g layer" using Cons.prems(3,4) by (simp add: layer_of_def)
  have bk: "block_ok ?g T k" "block_ok ?g T v" using Cons.prems(5) kv by auto
  have T: "1 \<le> T" and lk: "length (block_tokens ?g k) = T" using block_okD [OF bk(1)] by metis+
  have st: "pg_next_layer c = layer"
    "layer \<noteq> 0 \<longrightarrow> nat (tab_num_tokens (pg_table c)) = n + T \<and> length (pg_pending_slots c) = T"
    by (rule protocol_state(1) [OF Cons.prems(2) lo T], erule Cons.prems(6))
       (rule protocol_state(3) [OF Cons.prems(2) lo T], erule Cons.prems(6))
  have nz: "layer \<noteq> 0" using Cons.prems(3) by simp
  from append_next [OF Cons.prems(1,2) lo bk st(1) nz conjunct1 [OF st(2) [rule_format, OF nz]] conjunct2 [OF st(2) [rule_format, OF nz]]]
  obtain p1 c1 where a: "Paged_append e p c layer k v = ((p1, c1), Inr ())"
    and o: "append_outcome p c others layer (block_tokens ?g k) (block_tokens ?g v) p1 c1 (Inr ())" by (elim exE conjE)
  have wf1: "paged_wf p1 c1 others" and g1: "pool_geom p1 = ?g" "pool_block_size p1 = pool_block_size p"
    and se: "same_elsewhere p p1 others" and ap: "appended p c p1 c1 layer (block_tokens ?g k) (block_tokens ?g v)"
    using o by (auto simp: append_outcome_def)
  have vis1: "visible c1 l = (if l < layer + 1 then n + T else n)" if "layer_of (pool_geom p1) l" for l
  proof -
    have l: "layer_of ?g l" using that g1 by simp
    show ?thesis using appended_visible [OF ap l lk] Cons.prems(6) [OF l] by auto
  qed
  have pre: "0 < layer + 1" "layer + 1 + int (length kvs) \<le> num_layers (pool_geom p1)"
    "\<And>k v. (k, v) \<in> set kvs \<Longrightarrow> block_ok (pool_geom p1) T k \<and> block_ok (pool_geom p1) T v"
    using Cons.prems g1 by auto
  have "\<exists>p' c'. append_layers paged_append (e, p1, c1) (layer + 1) kvs = ((e, p', c'), Inr ()) \<and> paged_wf p' c' others \<and>
    pool_geom p' = pool_geom p1 \<and> pool_block_size p' = pool_block_size p1 \<and> same_elsewhere p1 p' others"
    by (rule Cons.IH [OF Cons.prems(1) wf1 pre]) (assumption, erule vis1)
  then obtain p' c' where r: "append_layers paged_append (e, p1, c1) (layer + 1) kvs = ((e, p', c'), Inr ())"
    "paged_wf p' c' others" "pool_geom p' = pool_geom p1" "pool_block_size p' = pool_block_size p1" "same_elsewhere p1 p' others"
    by (elim exE conjE)
  have "paged_append (e, p, c) layer k v = ((e, p1, c1), Inr ())" by (simp add: paged_append_def a)
  then show ?case
    using r(1-4) g1 same_elsewhere_trans [OF se r(5) g1]
    by (intro exI [of _ p'] exI [of _ c']) (simp add: kv)
qed

text \<open>A forward, or the first layers of one, succeeds exactly when the pool has the blocks its tokens need.\<close>

definition extra_blocks :: "int \<Rightarrow> int \<Rightarrow> int \<Rightarrow> int" where
  "extra_blocks bs n T = ceil_div (n + T) bs - ceil_div n bs"

lemma prefix_outcome:
  assumes env: "env_ok e" and wf: "paged_wf p c others" and ne: "kvs \<noteq> []" and L: "int (length kvs) \<le> num_layers (pool_geom p)"
    and bl: "\<And>k v. (k, v) \<in> set kvs \<Longrightarrow> block_ok (pool_geom p) T k \<and> block_ok (pool_geom p) T v"
    and vis: "\<And>l. layer_of (pool_geom p) l \<Longrightarrow> visible c l = n"
  shows "\<exists>p' c'. append_layers paged_append (e, p, c) 0 kvs =
      ((e, p', c'), if extra_blocks (pool_block_size p) (int n) (int T) \<le> free_blocks p then Inr () else ResourceExhaustedError) \<and>
    paged_wf p' c' others \<and> pool_geom p' = pool_geom p \<and> pool_block_size p' = pool_block_size p \<and> same_elsewhere p p' others"
proof -
  let ?g = "pool_geom p"
  have L1: "1 \<le> num_layers ?g" using wf by (simp add: paged_wf_def slabs_wf_def ValidateGeometry_ok_iff)
  obtain k v rest where kvs: "kvs = (k, v) # rest" using ne by (cases kvs) auto
  have lo: "layer_of ?g 0" using L1 by (simp add: layer_of_def)
  have bk: "block_ok ?g T k" "block_ok ?g T v" using bl kvs by auto
  have T: "1 \<le> T" and lk: "length (block_tokens ?g k) = T" using block_okD [OF bk(1)] by metis+
  have vis0: "visible c l = (if l < 0 then n + T else n)" if "layer_of ?g l" for l
    using vis [OF that] that by (simp add: layer_of_def)
  have st: "pg_next_layer c = 0" "nat (tab_num_tokens (pg_table c)) = n"
    using protocol_state(1) [OF wf lo T vis0] protocol_state(2) [OF wf lo T vis0] by simp_all
  have n: "tab_num_tokens (pg_table c) = int n" using st(2) wf by (auto simp: paged_wf_def table_wf_def)
  show ?thesis
  proof (cases "extra_blocks (pool_block_size p) (int n) (int T) \<le> free_blocks p")
    case False
    then have "free_blocks p < ceil_div (tab_num_tokens (pg_table c) + int T) (pool_block_size p) -
      ceil_div (tab_num_tokens (pg_table c)) (pool_block_size p)" by (simp add: extra_blocks_def n)
    from append_first_exhausted [OF wf lo bk st(1) this, where e = e and kt = "[]" and vt = "[]"] obtain p' c' where
      "Paged_append e p c 0 k v = ((p', c'), ResourceExhaustedError)"
      "append_outcome p c others 0 [] [] p' c' ResourceExhaustedError" by (elim exE conjE)
    then show ?thesis using False
      by (intro exI [of _ p'] exI [of _ c']) (simp add: kvs paged_append_def append_outcome_def)
  next
    case True
    then have "ceil_div (tab_num_tokens (pg_table c) + int T) (pool_block_size p) -
      ceil_div (tab_num_tokens (pg_table c)) (pool_block_size p) \<le> free_blocks p" by (simp add: extra_blocks_def n)
    from append_first_success [OF env wf lo bk st(1) this] obtain p1 c1 where
      a: "Paged_append e p c 0 k v = ((p1, c1), Inr ())" and
      o: "append_outcome p c others 0 (block_tokens ?g k) (block_tokens ?g v) p1 c1 (Inr ())" by (elim exE conjE)
    have wf1: "paged_wf p1 c1 others" and g1: "pool_geom p1 = ?g" "pool_block_size p1 = pool_block_size p"
      and se: "same_elsewhere p p1 others" and ap: "appended p c p1 c1 0 (block_tokens ?g k) (block_tokens ?g v)"
      using o by (auto simp: append_outcome_def)
    have vis1: "visible c1 l = (if l < 1 then n + T else n)" if "layer_of (pool_geom p1) l" for l
    proof -
      have l: "layer_of ?g l" using that g1 by simp
      then show ?thesis using appended_visible [OF ap l lk] vis [OF l] by (auto simp: layer_of_def)
    qed
    have pre: "(0::int) < 1" "1 + int (length rest) \<le> num_layers (pool_geom p1)"
      "\<And>k v. (k, v) \<in> set rest \<Longrightarrow> block_ok (pool_geom p1) T k \<and> block_ok (pool_geom p1) T v"
      using L bl kvs g1 by auto
    have "\<exists>p' c'. append_layers paged_append (e, p1, c1) 1 rest = ((e, p', c'), Inr ()) \<and> paged_wf p' c' others \<and>
      pool_geom p' = pool_geom p1 \<and> pool_block_size p' = pool_block_size p1 \<and> same_elsewhere p1 p' others"
      by (rule forward_rest [OF env wf1 pre]) (assumption, erule vis1)
    then obtain p' c' where r: "append_layers paged_append (e, p1, c1) 1 rest = ((e, p', c'), Inr ())"
      "paged_wf p' c' others" "pool_geom p' = pool_geom p1" "pool_block_size p' = pool_block_size p1" "same_elsewhere p1 p' others"
      by (elim exE conjE)
    have "paged_append (e, p, c) 0 k v = ((e, p1, c1), Inr ())" by (simp add: paged_append_def a)
    then show ?thesis
      using True r(1-4) g1 same_elsewhere_trans [OF se r(5) g1]
      by (intro exI [of _ p'] exI [of _ c']) (simp add: kvs)
  qed
qed

lemma forward_outcome:
  assumes "env_ok e" and wf: "paged_wf p c others" and L: "int (length kvs) = num_layers (pool_geom p)"
    and "\<And>k v. (k, v) \<in> set kvs \<Longrightarrow> block_ok (pool_geom p) T k \<and> block_ok (pool_geom p) T v"
    and "\<And>l. layer_of (pool_geom p) l \<Longrightarrow> visible c l = n"
  shows "\<exists>p' c'. append_layers paged_append (e, p, c) 0 kvs =
      ((e, p', c'), if extra_blocks (pool_block_size p) (int n) (int T) \<le> free_blocks p then Inr () else ResourceExhaustedError) \<and>
    paged_wf p' c' others \<and> pool_geom p' = pool_geom p \<and> pool_block_size p' = pool_block_size p \<and> same_elsewhere p p' others"
proof -
  have "1 \<le> num_layers (pool_geom p)" using wf by (simp add: paged_wf_def slabs_wf_def ValidateGeometry_ok_iff)
  then have "kvs \<noteq> []" using L by auto
  then show ?thesis by (rule prefix_outcome [OF assms(1,2) _ eq_refl [OF L] assms(4,5)])
qed

section \<open>Rolling back\<close>

text \<open>Nothing in a forward or a truncation changes the number of blocks of the pool or its block size.\<close>

abbreviation same_size :: "'f BlockPool \<Rightarrow> 'f BlockPool \<Rightarrow> bool" where
  "same_size p p' \<equiv> pool_num_blocks p' = pool_num_blocks p \<and> pool_block_size p' = pool_block_size p"

lemma Allocate_size: "Allocate p = (p', r) \<Longrightarrow> same_size p p'"
  by (auto simp: Allocate_def Let_def split: if_splits)

lemma Release_size: "Release p b = Inr p' \<Longrightarrow> same_size p p'"
  by (auto simp: Release_def Let_def split: if_splits)

lemma alloc_loop_size: "alloc_loop Allocate n p fresh = (p', r) \<Longrightarrow> same_size p p'"
  by (induction n arbitrary: p fresh) (force split: prod.splits sum.splits dest: Allocate_size)+

lemma release_loop_size: "release_loop Release bs p = Inr p' \<Longrightarrow> same_size p p'"
  by (induction bs arbitrary: p) (force split: sum.splits dest: Release_size)+

lemma AppendTokens_size: "AppendTokens p t cnt = ((p', t'), r) \<Longrightarrow> same_size p p'"
  by (auto simp: AppendTokens_def Let_def split: if_splits sum.splits prod.splits failure.splits
      dest!: alloc_loop_size release_loop_size)

lemma paged_write_size: "paged_write e p c layer cnt k v = ((p', c'), r) \<Longrightarrow> same_size p p'"
  by (auto simp: paged_write_def split: sum.splits prod.splits)

lemma Paged_append_size: "Paged_append e p c layer k v = ((p', c'), r) \<Longrightarrow> same_size p p'"
  by (auto simp: Paged_append_def Let_def split: if_splits sum.splits prod.splits
      dest!: AppendTokens_size paged_write_size)

lemma append_layers_size: "append_layers paged_append (e, p, c) l kvs = ((e', p', c'), r) \<Longrightarrow> same_size p p'"
proof (induction kvs arbitrary: p c l)
  case (Cons kv kvs)
  obtain k v p1 c1 r1 where a: "kv = (k, v)" "Paged_append e p c l k v = ((p1, c1), r1)" by (metis surj_pair)
  note s = Paged_append_size [OF a(2)]
  show ?case
  proof (cases r1)
    case (Inr u)
    then have "append_layers paged_append (e, p1, c1) (l + 1) kvs = ((e', p', c'), r)"
      using Cons.prems a by (simp add: paged_append_def [of "(e, p, c)"])
    from Cons.IH [OF this] s show ?thesis by simp
  qed (use Cons.prems a s in \<open>simp add: paged_append_def\<close>)
qed simp

lemma append_keeps_env: "append_layers paged_append (e, p, c) l kvs = ((e', p', c'), r) \<Longrightarrow> e' = e"
  by (induction kvs arbitrary: p c l) (auto simp: paged_append_def split: prod.splits sum.splits)

lemma Paged_truncate_size: "Paged_truncate p c m = Inr (p', c') \<Longrightarrow> same_size p p'"
proof -
  have tl: "truncate_loop keep q k bl = Inr (q', bl') \<Longrightarrow> same_size q q'" for keep k bl bl' and q q' :: "'f BlockPool"
    by (induction keep q k bl rule: truncate_loop.induct) (force split: if_splits sum.splits dest: Release_size)+
  assume "Paged_truncate p c m = Inr (p', c')"
  then show ?thesis
    by (auto simp: Paged_truncate_def Truncate_def Let_def split: if_splits sum.splits prod.splits dest!: tl)
qed

text \<open>Between forwards the free blocks follow from the number of cached tokens.\<close>

lemma free_from_tokens:
  assumes wf: "paged_wf p c others" and vis: "\<And>l. layer_of (pool_geom p) l \<Longrightarrow> visible c l = n"
  shows "free_blocks p = pool_num_blocks p - ceil_div (int n) (pool_block_size p) - int (length others)"
proof -
  have own: "owned p (tab_blocks (pg_table c) @ others)" and tw: "table_wf (pool_block_size p) (pg_table c)"
    and L: "1 \<le> num_layers (pool_geom p)"
    using wf by (simp_all add: paged_wf_def slabs_wf_def ValidateGeometry_ok_iff)
  have "visible c 0 = n" using vis L by (simp add: layer_of_def)
  moreover have "0 \<le> pg_next_layer c" using wf by (simp add: paged_wf_def)
  ultimately have "nat (tab_num_tokens (pg_table c)) = n" by (auto simp: visible_def split: if_splits)
  then have "int (length (tab_blocks (pg_table c))) = ceil_div (int n) (pool_block_size p)"
    using tw by (auto simp: table_wf_def)
  then show ?thesis using owned_used [OF own] by (simp add: free_blocks_def)
qed

text \<open>Two states between forwards with the same free blocks answer every later forward alike.\<close>

lemma later_forward_same:
  assumes "env_ok e" and "paged_wf p c others" and "paged_wf p2 c2 others"
    and g: "pool_geom p2 = pool_geom p" "pool_block_size p2 = pool_block_size p" "free_blocks p2 = free_blocks p"
    and "\<And>l. layer_of (pool_geom p) l \<Longrightarrow> visible c l = n" and "\<And>l. layer_of (pool_geom p) l \<Longrightarrow> visible c2 l = n"
    and L: "int (length kvs) = num_layers (pool_geom p)"
    and bl: "\<And>k v. (k, v) \<in> set kvs \<Longrightarrow> block_ok (pool_geom p) T k \<and> block_ok (pool_geom p) T v"
  shows "snd (append_layers paged_append (e, p2, c2) 0 kvs) = snd (append_layers paged_append (e, p, c) 0 kvs)"
  using forward_outcome [OF assms(1,2) L bl assms(7)]
    forward_outcome [of e p2 c2 others kvs T n, unfolded g, OF assms(1,3) L bl assms(8)] by auto

section \<open>Sample state\<close>

text \<open>Surroundings with one thread, a pool of two blocks of eight slots for two layers of one head of
  one element, an empty cache of each kind, and blocks of tokens, all small enough to evaluate.\<close>

definition sample_env :: "int KvEnv" where
  "sample_env = \<lparr>env_threads = 1, env_order = \<lambda>n grain. [0..<nat (CeilDiv n grain)],
     env_alloc = \<lambda>bytes. Inr (replicate (nat (bytes div 4)) 0)\<rparr>"

definition two_layer_geometry :: CacheGeometry where
  "two_layer_geometry = \<lparr>num_layers = 2, num_kv_heads = 1, head_dim = 1, dtype = kFloat32\<rparr>"

definition sample_pool :: "int BlockPool" where
  "sample_pool = BlockPool_ctor two_layer_geometry 8 2 [replicate 16 0, replicate 16 0] [replicate 16 0, replicate 16 0] 64"

definition sample_block :: "int list \<Rightarrow> int list Tensor" where
  "sample_block xs = \<lparr>t_buffer = Some xs, t_byte_offset = 0,
     t_shape = \<lparr>dims = [int (length xs), 1, 1], numel = int (length xs)\<rparr>, t_strides = [1, 1, 1],
     t_dtype = kFloat32, t_device = Cpu\<rparr>"

definition sample_forward :: "(int list Tensor \<times> int list Tensor) list" where
  "sample_forward = [(sample_block [1, 2], sample_block [3, 4]), (sample_block [5, 6], sample_block [7, 8])]"

definition sample_paged :: "int PagedState" where
  "sample_paged = (sample_env, sample_pool, PagedKvCache_ctor)"

lemma worker_chunks_single: "worker_chunks (Suc 0) n c = [c..<n]"
proof (induction "n - c" arbitrary: c)
  case (Suc x)
  then show ?case using Suc.hyps(1) [of "Suc c"] by (subst worker_chunks.simps) (simp add: upt_conv_Cons)
qed (simp add: worker_chunks.simps)

lemma sample_env_ok: "env_ok sample_env"
  by (simp add: env_ok_def sample_env_def region_order_def worker_chunks_single)

lemma sample_paged_inv: "paged_inv [] sample_paged"
proof -
  have i: "pool_inv sample_pool" unfolding sample_pool_def by (rule BlockPool_ctor_inv) (simp_all add: INT32_MAX_def)
  have "pool_used sample_pool = 0" by code_simp
  then have "owned sample_pool []" by (rule owned_NilI [OF i])
  moreover have "slabs_wf sample_pool"
    by (simp add: slabs_wf_def slab_elems_def sample_pool_def BlockPool_ctor_def two_layer_geometry_def
        IsValidBlockSize_def ValidateGeometry_def INT64_MAX_def)
  ultimately have "paged_wf sample_pool PagedKvCache_ctor []"
    by (simp add: paged_wf_def PagedKvCache_ctor_def BlockTable_ctor_def table_wf_def pending_ok_def)
       (simp add: sample_pool_def BlockPool_ctor_def two_layer_geometry_def ceil_div_def)
  then show ?thesis using sample_env_ok by (simp add: paged_inv_def sample_paged_def)
qed

lemma sample_forward_ok:
  "\<forall>(k, v)\<in>set sample_forward. block_ok (paged_geom sample_paged) 2 k \<and> block_ok (paged_geom sample_paged) 2 v"
proof -
  have "block_ok two_layer_geometry 2 (sample_block [x, y])" for x y
    by (simp add: block_ok_def sample_block_def two_layer_geometry_def defined_def data_ptr_f32_def covers_rows_def)
       (simp add: is_contiguous_def IsContiguous_def rank_def DimVector_at_def dim_def)
  moreover have "paged_geom sample_paged = two_layer_geometry" by code_simp
  ultimately show ?thesis by (simp add: sample_forward_def)
qed

section \<open>Properties\<close>

text \<open>C4. A forward through the paged cache is all or nothing and cannot fail late: it succeeds exactly
  when the pool has the blocks its tokens need, and then the view of every layer is the head-major
  flattening of the layer's old tokens followed by the tokens the forward appended.\<close>

theorem paged_forward_view:
  assumes "paged_inv others (e, p, c)" and "int (length kvs) = num_layers (pool_geom p)"
    and "\<forall>(k, v)\<in>set kvs. block_ok (pool_geom p) T k \<and> block_ok (pool_geom p) T v"
    and "\<forall>l. layer_of (pool_geom p) l \<longrightarrow> length (paged_k (e, p, c) l) = n"
  shows "\<exists>s' r. append_layers paged_append (e, p, c) 0 kvs = (s', r) \<and> paged_inv others s' \<and>
    (if extra_blocks (pool_block_size p) (int n) (int T) \<le> free_blocks p
     then r = Inr () \<and> (\<forall>l. layer_of (pool_geom p) l \<longrightarrow> (\<exists>w. paged_view s' l = Inr w \<and>
       view_of (pool_geom p) (paged_k (e, p, c) l @ block_tokens (pool_geom p) (fst (kvs ! nat l))) (view_k w) \<and>
       view_of (pool_geom p) (paged_v (e, p, c) l @ block_tokens (pool_geom p) (snd (kvs ! nat l))) (view_v w)))
     else r = ResourceExhaustedError)"
proof -
  let ?s = "(e, p, c)"
  have wf: "env_ok e" "paged_wf p c others" using assms(1) by (simp_all add: paged_inv_def)
  have g: "paged_geom ?s = pool_geom p" by (simp add: paged_geom_def)
  have bl: "block_ok (pool_geom p) T k \<and> block_ok (pool_geom p) T v" if "(k, v) \<in> set kvs" for k v using assms(3) that by blast
  have vis: "visible c l = n" if "layer_of (pool_geom p) l" for l
    using assms(4) that by (simp add: paged_k_def length_paged_tokens)
  let ?r = "if extra_blocks (pool_block_size p) (int n) (int T) \<le> free_blocks p then Inr () else ResourceExhaustedError"
  have "\<exists>p' c'. append_layers paged_append ?s 0 kvs = ((e, p', c'), ?r) \<and> paged_wf p' c' others \<and>
      pool_geom p' = pool_geom p \<and> pool_block_size p' = pool_block_size p \<and> same_elsewhere p p' others"
    by (rule forward_outcome [OF wf assms(2)]) (erule bl, erule vis)
  then obtain p' c' where r: "append_layers paged_append ?s 0 kvs = ((e, p', c'), ?r)" "paged_wf p' c' others"
    by (elim exE conjE)
  have inv': "paged_inv others (e, p', c')" using r(2) wf(1) by (simp add: paged_inv_def)
  have "\<exists>w. paged_view (e, p', c') l = Inr w \<and>
       view_of (pool_geom p) (paged_k ?s l @ block_tokens (pool_geom p) (fst (kvs ! nat l))) (view_k w) \<and>
       view_of (pool_geom p) (paged_v ?s l @ block_tokens (pool_geom p) (snd (kvs ! nat l))) (view_v w)"
    if room: "extra_blocks (pool_block_size p) (int n) (int T) \<le> free_blocks p" and l: "layer_of (pool_geom p) l" for l
  proof -
    have ok: "append_layers paged_append ?s 0 kvs = ((e, p', c'), Inr ())" using r(1) room by simp
    show ?thesis
      using paged.view_after_forward [OF assms(1), of kvs T n "(e, p', c')" l] assms(2,4) bl l ok
      unfolding g by auto
  qed
  then show ?thesis using r(1) inv' by (intro exI [of _ "(e, p', c')"] exI [of _ ?r]) simp
qed

theorem paged_forward_view_witness:
  "paged_inv [] sample_paged \<and> extra_blocks 8 0 2 \<le> free_blocks sample_pool \<and>
   (\<exists>s'. append_layers paged_append sample_paged 0 sample_forward = (s', Inr ()) \<and>
     (\<exists>w. paged_view s' 1 = Inr w \<and> view_of two_layer_geometry [[[5]], [[6]]] (view_k w)))"
proof -
  have g: "pool_geom sample_pool = two_layer_geometry" "pool_block_size sample_pool = 8" by code_simp+
  have e: "\<forall>l. layer_of two_layer_geometry l \<longrightarrow> length (paged_k sample_paged l) = 0"
    by (simp add: paged_k_def sample_paged_def length_paged_tokens visible_def PagedKvCache_ctor_def BlockTable_ctor_def)
  have len: "int (length sample_forward) = num_layers two_layer_geometry" by code_simp
  have bl: "\<forall>(k, v)\<in>set sample_forward. block_ok two_layer_geometry 2 k \<and> block_ok two_layer_geometry 2 v"
    using sample_forward_ok by (simp add: paged_geom_def sample_paged_def g)
  have room: "extra_blocks 8 (int 0) (int 2) \<le> free_blocks sample_pool" by code_simp
  have l1: "layer_of two_layer_geometry 1" by code_simp
  have k: "paged_k sample_paged 1 @ block_tokens two_layer_geometry (fst (sample_forward ! nat 1)) = [[[5]], [[6]]]" by code_simp
  obtain s' r where "append_layers paged_append sample_paged 0 sample_forward = (s', r)"
    "r = Inr () \<and> (\<forall>l. layer_of two_layer_geometry l \<longrightarrow> (\<exists>w. paged_view s' l = Inr w \<and>
       view_of two_layer_geometry (paged_k sample_paged l @ block_tokens two_layer_geometry (fst (sample_forward ! nat l))) (view_k w) \<and>
       view_of two_layer_geometry (paged_v sample_paged l @ block_tokens two_layer_geometry (snd (sample_forward ! nat l))) (view_v w)))"
    using paged_forward_view [OF sample_paged_inv [unfolded sample_paged_def], of sample_forward 2 0,
        unfolded g, OF len bl e [unfolded sample_paged_def]] room
    unfolding sample_paged_def by auto
  then show ?thesis using sample_paged_inv room l1 k by fastforce
qed

text \<open>C7. A forward that failed, finished or was abandoned after any number of its layers can be undone:
  truncating the cache to the length it had before succeeds and restores the content of every layer, the
  invariant and the number of free blocks, and resets the layer protocol, so that every later forward
  gets the answer it would have got had the undone one never started.\<close>

theorem paged_rollback_restores:
  assumes "paged_inv others (e, p, c)" and "int (length kvs) \<le> num_layers (pool_geom p)"
    and "\<forall>(k, v)\<in>set kvs. block_ok (pool_geom p) T k \<and> block_ok (pool_geom p) T v"
    and "\<forall>l. layer_of (pool_geom p) l \<longrightarrow> length (paged_k (e, p, c) l) = n"
    and "append_layers paged_append (e, p, c) 0 kvs = ((e', p', c'), r)"
  shows "\<exists>p'' c''. paged_truncate (e', p', c') (int n) = Inr (e, p'', c'') \<and> paged_inv others (e, p'', c'') \<and>
    (\<forall>l. layer_of (pool_geom p) l \<longrightarrow>
       paged_k (e, p'', c'') l = paged_k (e, p, c) l \<and> paged_v (e, p'', c'') l = paged_v (e, p, c) l) \<and>
    free_blocks p'' = free_blocks p \<and>
    (\<forall>kvs2 T2. int (length kvs2) = num_layers (pool_geom p) \<and>
       (\<forall>(k, v)\<in>set kvs2. block_ok (pool_geom p) T2 k \<and> block_ok (pool_geom p) T2 v) \<longrightarrow>
       snd (append_layers paged_append (e, p'', c'') 0 kvs2) = snd (append_layers paged_append (e, p, c) 0 kvs2))"
proof -
  let ?s = "(e, p, c)" and ?g = "pool_geom p"
  have g: "paged_geom ?s = ?g" by (simp add: paged_geom_def)
  have e': "e' = e" by (rule append_keeps_env [OF assms(5)])
  have bl: "block_ok ?g T k \<and> block_ok ?g T v" if "(k, v) \<in> set kvs" for k v using assms(3) that by blast
  have len: "length (paged_k ?s l) = n" if "layer_of ?g l" for l using assms(4) that by blast
  obtain s'' where s'': "paged_truncate (e', p', c') (int n) = Inr s''" "paged_inv others s''" "paged_geom s'' = ?g"
    "\<forall>l. layer_of ?g l \<longrightarrow> paged_k s'' l = paged_k ?s l \<and> paged_v s'' l = paged_v ?s l"
    using paged.rollback_restores [OF assms(1), unfolded g, OF assms(2) bl len assms(5)] by blast
  obtain p'' c'' where t: "s'' = (e, p'', c'')" "Paged_truncate p' c' (int n) = Inr (p'', c'')"
    using s''(1) e' by (auto simp: paged_truncate_def split: sum.splits)
  have wf: "env_ok e" "paged_wf p c others" "paged_wf p'' c'' others"
    using assms(1) s''(2) by (simp_all add: paged_inv_def t)
  have len2: "length (paged_k (e, p'', c'') l) = n" if "layer_of ?g l" for l
    using len [OF that] s''(4) that by (simp add: t)
  have vis: "visible c l = n" "visible c'' l = n" if "layer_of ?g l" for l
    using len [OF that] len2 [OF that] by (simp_all add: paged_k_def length_paged_tokens)
  have g2: "pool_geom p'' = ?g" using s''(3) by (simp add: t paged_geom_def)
  have sz: "same_size p p''"
    using append_layers_size [OF assms(5)] Paged_truncate_size [OF t(2)] by simp
  have "free_blocks p'' = free_blocks p"
    using free_from_tokens [OF wf(2) vis(1)] free_from_tokens [OF wf(3), unfolded g2, OF vis(2)] sz by simp
  then show ?thesis
    using s'' later_forward_same [OF wf g2 conjunct2 [OF sz] _ vis] unfolding t by blast
qed

text \<open>The sample forward abandoned after its first layer, with slots reserved and layer 1 unwritten: after the
  truncation a whole forward is accepted, which the abandoned state itself rejects.\<close>

definition abandoned :: "int PagedState" where
  "abandoned = fst (append_layers paged_append sample_paged 0 (take 1 sample_forward))"

theorem paged_rollback_restores_witness:
  "pg_next_layer (snd (snd abandoned)) = 1 \<and>
   snd (append_layers paged_append abandoned 0 sample_forward) = InvalidArgumentError \<and>
   (\<exists>p'' c''. paged_truncate abandoned 0 = Inr (sample_env, p'', c'') \<and> free_blocks p'' = 2 \<and>
     paged_k (sample_env, p'', c'') 0 = [] \<and>
     snd (append_layers paged_append (sample_env, p'', c'') 0 sample_forward) = Inr ())"
proof -
  have g: "pool_geom sample_pool = two_layer_geometry" by code_simp
  have bl: "\<forall>(k, v)\<in>set sample_forward. block_ok two_layer_geometry 2 k \<and> block_ok two_layer_geometry 2 v"
    using sample_forward_ok by (simp add: paged_geom_def sample_paged_def g)
  then have bl1: "\<forall>(k, v)\<in>set (take 1 sample_forward). block_ok two_layer_geometry 2 k \<and> block_ok two_layer_geometry 2 v"
    by (meson in_set_takeD)
  have len: "\<forall>l. layer_of two_layer_geometry l \<longrightarrow> length (paged_k sample_paged l) = 0"
    by (simp add: paged_k_def sample_paged_def length_paged_tokens visible_def PagedKvCache_ctor_def BlockTable_ctor_def)
  have L: "int (length (take 1 sample_forward)) \<le> num_layers two_layer_geometry"
    "int (length sample_forward) = num_layers two_layer_geometry" "layer_of two_layer_geometry 0" by code_simp+
  obtain e' p' c' r where run: "append_layers paged_append sample_paged 0 (take 1 sample_forward) = ((e', p', c'), r)"
    by (metis surj_pair)
  have v: "pg_next_layer (snd (snd abandoned)) = 1" "free_blocks sample_pool = 2" "paged_k sample_paged 0 = []"
    "snd (append_layers paged_append abandoned 0 sample_forward) = InvalidArgumentError"
    "snd (append_layers paged_append sample_paged 0 sample_forward) = Inr ()" by code_simp+
  obtain p'' c'' where "paged_truncate (e', p', c') (int 0) = Inr (sample_env, p'', c'')" "free_blocks p'' = 2"
    "paged_k (sample_env, p'', c'') 0 = []" "snd (append_layers paged_append (sample_env, p'', c'') 0 sample_forward) = Inr ()"
    using paged_rollback_restores [OF sample_paged_inv [unfolded sample_paged_def], unfolded g,
        OF L(1) bl1 len [unfolded sample_paged_def] run [unfolded sample_paged_def]] L(2,3) bl v
    unfolding sample_paged_def by fastforce
  moreover have "abandoned = (e', p', c')" by (simp only: abandoned_def run fst_conv)
  ultimately show ?thesis using v by simp
qed

text \<open>C6. Caches that share a pool cannot see each other: a forward of one cache, whether it succeeds or
  runs out of blocks, leaves every token of every layer of any other cache of the pool as it was.\<close>

theorem paged_caches_isolated:
  assumes "env_ok e" and "paged_wf p c others" and "int (length kvs) = num_layers (pool_geom p)"
    and "\<forall>(k, v)\<in>set kvs. block_ok (pool_geom p) T k \<and> block_ok (pool_geom p) T v"
    and "\<forall>l. layer_of (pool_geom p) l \<longrightarrow> visible c l = n"
    and "append_layers paged_append (e, p, c) 0 kvs = ((e', p', c'), r)"
    and c2: "set (tab_blocks (pg_table c2)) \<subseteq> set others" "table_wf (pool_block_size p) (pg_table c2)"
  shows "paged_tokens p' (pool_k_slabs p') c2 l = paged_tokens p (pool_k_slabs p) c2 l \<and>
    paged_tokens p' (pool_v_slabs p') c2 l = paged_tokens p (pool_v_slabs p) c2 l"
proof -
  have "\<exists>p' c'. append_layers paged_append (e, p, c) 0 kvs =
      ((e, p', c'), if extra_blocks (pool_block_size p) (int n) (int T) \<le> free_blocks p then Inr () else ResourceExhaustedError) \<and>
    paged_wf p' c' others \<and> pool_geom p' = pool_geom p \<and> pool_block_size p' = pool_block_size p \<and> same_elsewhere p p' others"
    by (rule forward_outcome [OF assms(1-3)]) (use assms(4,5) in blast)+
  then have o: "pool_geom p' = pool_geom p" "pool_block_size p' = pool_block_size p" "same_elsewhere p p' others"
    using assms(6) by auto
  have bs: "0 < pool_block_size p"
    using assms(2) pool_invD(1) [OF ownedD(1)] by (auto simp: paged_wf_def)
  have "pos div nat (pool_block_size p) < length (tab_blocks (pg_table c2))" if "pos < visible c2 l" for pos
    using covered_positions [OF c2(2) bs] that by (simp add: visible_def)
  then show ?thesis using o(3) c2(1) by (simp add: same_elsewhere_def Let_def paged_tokens_def o(1,2))
qed

text \<open>Two caches on the sample pool: the first has appended a forward, the second follows.\<close>

definition first_forward :: "int PagedState \<times> unit status_or" where
  "first_forward = append_layers paged_append sample_paged 0 sample_forward"

theorem paged_caches_isolated_witness:
  "case first_forward of ((e, p, c1), r) \<Rightarrow>
     \<exists>p' c'. append_layers paged_append (e, p, PagedKvCache_ctor) 0 sample_forward = ((e, p', c'), Inr ()) \<and>
       paged_tokens p' (pool_k_slabs p') c1 1 = [[[5]], [[6]]]"
proof -
  obtain e p c1 r where f: "first_forward = ((e, p, c1), r)" by (metis prod.exhaust)
  have vis0: "\<forall>l. layer_of two_layer_geometry l \<longrightarrow> visible PagedKvCache_ctor l = 0"
    by (simp add: visible_def PagedKvCache_ctor_def BlockTable_ctor_def)
  have g: "pool_geom sample_pool = two_layer_geometry" by code_simp
  have L: "int (length sample_forward) = num_layers two_layer_geometry" by code_simp
  have bl: "\<forall>(k, v)\<in>set sample_forward. block_ok two_layer_geometry 2 k \<and> block_ok two_layer_geometry 2 v"
    using sample_forward_ok by (simp add: paged_geom_def sample_paged_def g)
  have w0: "env_ok sample_env" "paged_wf sample_pool PagedKvCache_ctor []"
    using sample_paged_inv by (simp_all add: paged_inv_def sample_paged_def)
  have ex: "\<exists>p' c'. append_layers paged_append (sample_env, sample_pool, PagedKvCache_ctor) 0 sample_forward =
      ((sample_env, p', c'), if extra_blocks (pool_block_size sample_pool) (int 0) (int 2) \<le> free_blocks sample_pool then Inr () else ResourceExhaustedError) \<and>
    paged_wf p' c' [] \<and> pool_geom p' = pool_geom sample_pool \<and> pool_block_size p' = pool_block_size sample_pool \<and> same_elsewhere sample_pool p' []"
    by (rule forward_outcome [OF w0 L [folded g]]) (use bl vis0 g in auto)
  then have e: "e = sample_env" "paged_wf p c1 []" "pool_geom p = two_layer_geometry" "pool_block_size p = pool_block_size sample_pool"
    using f by (auto simp: first_forward_def sample_paged_def g)
  have "tab_blocks (pg_table PagedKvCache_ctor) = []" by (simp add: PagedKvCache_ctor_def BlockTable_ctor_def)
  then have w1: "paged_wf p PagedKvCache_ctor (tab_blocks (pg_table c1))"
    using e(2) w0(2) e(3,4) g by (simp add: paged_wf_def)
  have tw: "table_wf (pool_block_size p) (pg_table c1)" using e(2) by (simp add: paged_wf_def)
  have st: "snd (append_layers paged_append (fst (fst first_forward), fst (snd (fst first_forward)), PagedKvCache_ctor) 0 sample_forward) = Inr ()"
    and tk: "paged_k (fst first_forward) 1 = [[[5]], [[6]]]" by code_simp+
  obtain e' p' c' r' where run: "append_layers paged_append (e, p, PagedKvCache_ctor) 0 sample_forward = ((e', p', c'), r')"
    by (metis prod.exhaust)
  have "e' = e" by (rule append_keeps_env [OF run])
  moreover have "r' = Inr ()" using st unfolding f fst_conv snd_conv run by simp
  moreover have "paged_tokens p' (pool_k_slabs p') c1 1 = [[[5]], [[6]]]"
    using paged_caches_isolated [OF w0(1) w1 L [folded e(3)] bl [folded e(3)] vis0 [folded e(3)] run [unfolded e(1)] subset_refl tw, of 1]
      tk [unfolded f] by (simp add: paged_k_def)
  ultimately show ?thesis using run unfolding f by auto
qed

definition same_view :: "'f list Tensor \<Rightarrow> 'f list Tensor \<Rightarrow> bool" where
  "same_view t u \<longleftrightarrow> t_buffer t = t_buffer u \<and> dims (t_shape t) = dims (t_shape u) \<and>
     t_byte_offset t = t_byte_offset u \<and> t_dtype t = t_dtype u \<and>
     t_strides t = t_strides u"

lemma view_of_same: "view_of g toks t \<Longrightarrow> view_of g toks u \<Longrightarrow> same_view t u"
  by (simp add: view_of_def same_view_def RowMajorStrides_def)

text \<open>C5. The paged cache implements the contiguous reference cache: starting from the same content, after
  the same forward on both, the two caches return the same views: equal elements, shape, strides and
  type, layer by layer.\<close>

theorem paged_equals_simple:
  fixes ss :: "('f :: zero) KvEnv \<times> 'f SimpleKvCache"
  assumes "simple_inv ss" and "paged_inv others sp" and "simple_geom ss = paged_geom sp"
    and "int (length kvs) = num_layers (paged_geom sp)"
    and "\<forall>(k, v)\<in>set kvs. block_ok (paged_geom sp) T k \<and> block_ok (paged_geom sp) T v"
    and "\<forall>l. layer_of (paged_geom sp) l \<longrightarrow> length (paged_k sp l) = n \<and>
      simple_k ss l = paged_k sp l \<and> simple_v ss l = paged_v sp l"
    and "append_layers simple_append ss 0 kvs = (ss', Inr ())" and "append_layers paged_append sp 0 kvs = (sp', Inr ())"
    and "layer_of (paged_geom sp) l"
  shows "\<exists>ws wp. simple_view ss' l = Inr ws \<and> paged_view sp' l = Inr wp \<and>
    same_view (view_k ws) (view_k wp) \<and> same_view (view_v ws) (view_v wp)"
proof -
  let ?g = "paged_geom sp"
  have bl: "block_ok ?g T k \<and> block_ok ?g T v" if "(k, v) \<in> set kvs" for k v using assms(5) that by blast
  have L: "int (length kvs) = num_layers (simple_geom ss)" and lo: "layer_of (simple_geom ss) l" using assms(3,4,9) by simp_all
  have p: "\<exists>w. paged_view sp' l = Inr w \<and> view_of ?g (paged_k sp' l) (view_k w) \<and> view_of ?g (paged_v sp' l) (view_v w)"
    and pk: "paged_k sp' l = paged_k sp l @ block_tokens ?g (fst (kvs ! nat l))"
      "paged_v sp' l = paged_v sp l @ block_tokens ?g (snd (kvs ! nat l))"
    using paged.view_after_forward [OF assms(2,4), of T n sp' l] bl assms(6,8,9) by auto
  have s: "\<exists>w. simple_view ss' l = Inr w \<and> view_of ?g (simple_k ss' l) (view_k w) \<and> view_of ?g (simple_v ss' l) (view_v w)"
    and sk: "simple_k ss' l = simple_k ss l @ block_tokens ?g (fst (kvs ! nat l))"
      "simple_v ss' l = simple_v ss l @ block_tokens ?g (snd (kvs ! nat l))"
    using simple.view_after_forward [OF assms(1) L, of T n ss' l] bl assms(3,6,7) lo by auto
  have "simple_k ss' l = paged_k sp' l" "simple_v ss' l = paged_v sp' l" using pk sk assms(6,9) by simp_all
  then show ?thesis using p s view_of_same by metis
qed

definition sample_simple :: "int KvEnv \<times> int SimpleKvCache" where
  "sample_simple = (sample_env, \<lparr>s_geom = two_layer_geometry, s_capacity = 4, s_k_store = replicate 8 0,
     s_v_store = replicate 8 0, s_fill = [0, 0]\<rparr>)"

theorem paged_equals_simple_witness:
  "\<exists>ws wp. simple_view (fst (append_layers simple_append sample_simple 0 sample_forward)) 1 = Inr ws \<and>
     paged_view (fst (append_layers paged_append sample_paged 0 sample_forward)) 1 = Inr wp \<and>
     same_view (view_k ws) (view_k wp)"
proof -
  have i: "simple_inv sample_simple"
    using sample_env_ok by (simp add: simple_inv_def sample_simple_def simple_wf_def simple_dims_def has_rows_def
        two_layer_geometry_def ValidateGeometry_def INT64_MAX_def)
  have g: "simple_geom sample_simple = paged_geom sample_paged" "int (length sample_forward) = num_layers (paged_geom sample_paged)"
    "layer_of (paged_geom sample_paged) 1" by code_simp+
  have z: "nat l = 0 \<or> nat l = 1" if "layer_of (paged_geom sample_paged) l" for l
  proof -
    have "num_layers (paged_geom sample_paged) = 2" by code_simp
    then show ?thesis using that by (auto simp: layer_of_def)
  qed
  have e: "\<forall>l. layer_of (paged_geom sample_paged) l \<longrightarrow> length (paged_k sample_paged l) = 0 \<and>
      simple_k sample_simple l = paged_k sample_paged l \<and> simple_v sample_simple l = paged_v sample_paged l"
  proof (intro allI impI)
    fix l assume "layer_of (paged_geom sample_paged) l"
    from z [OF this] show "length (paged_k sample_paged l) = 0 \<and>
      simple_k sample_simple l = paged_k sample_paged l \<and> simple_v sample_simple l = paged_v sample_paged l"
      by (auto simp: paged_k_def paged_v_def simple_k_def simple_v_def sample_paged_def sample_simple_def store_tokens_def
          simple_dims_def paged_tokens_def slab_tokens_def visible_def PagedKvCache_ctor_def BlockTable_ctor_def)
  qed
  have "snd (append_layers simple_append sample_simple 0 sample_forward) = Inr ()"
    "snd (append_layers paged_append sample_paged 0 sample_forward) = Inr ()" by code_simp+
  then have r: "append_layers simple_append sample_simple 0 sample_forward = (fst (append_layers simple_append sample_simple 0 sample_forward), Inr ())"
    "append_layers paged_append sample_paged 0 sample_forward = (fst (append_layers paged_append sample_paged 0 sample_forward), Inr ())"
    by (simp_all add: prod_eq_iff)
  show ?thesis
    using paged_equals_simple [OF i sample_paged_inv g(1,2) sample_forward_ok e r g(3)] by blast
qed

text \<open>Truncating in the middle of a forward to the length the cache reports exposes unwritten slots: the
  length counts the pending tokens as soon as layer 0 has reserved their slots, so the truncation is
  accepted, forgets that layer 1 has not been written, and layer 1's view then returns two rows of
  whatever the slab held.\<close>

theorem mid_forward_truncate_exposes:
  "let (s1, r1) = paged_append sample_paged 0 (sample_block [1, 2]) (sample_block [3, 4]);
       before = (case paged_view s1 1 of Inr w \<Rightarrow> t_buffer (view_k w) | Inl _ \<Rightarrow> None);
       len = Paged_length (snd (snd s1));
       after = (case paged_truncate s1 len of
         Inr s2 \<Rightarrow> (case paged_view s2 1 of Inr w \<Rightarrow> t_buffer (view_k w) | Inl _ \<Rightarrow> None)
       | Inl _ \<Rightarrow> None) in
   r1 = Inr () \<and> len = 2 \<and> before = Some [] \<and> after = Some [0, 0]"
  by code_simp

end
