(* ===== verification/Tokenizer_Json.thy ===== *)
theory Tokenizer_Json
  imports Prelude Complex_Main
begin

text \<open>
  Reading a \<open>tokenizer.json\<close>, the parsing half of \<open>src/src/tokenizer/tokenizer.cpp\<close>: the field accessors,
  the whitelist guards, and one parser per section of the file. A parsed JSON document is a value of
  the datatype \<open>Json\<close>, nlohmann's data model: an object is its key/value list in iteration order with
  distinct keys, looked up with \<open>find\<close>. The text parser itself is a parameter of \<open>from_json\<close>. Message
  texts are not modelled, so neither are the labels that only go into them.
\<close>

section \<open>JSON values\<close>

datatype Json = JNull | JBool bool | JInt int | JFloat rat | JString string | JArray "Json list" | JObject "(string \<times> Json) list"

definition json_find :: "string \<Rightarrow> Json \<Rightarrow> Json option" where
  "json_find key j = (case j of JObject kvs \<Rightarrow> map_of kvs key | _ \<Rightarrow> None)"

definition is_object :: "Json \<Rightarrow> bool" where
  "is_object j = (case j of JObject _ \<Rightarrow> True | _ \<Rightarrow> False)"

definition null_or_absent :: "Json option \<Rightarrow> bool" where
  "null_or_absent v = (case v of None \<Rightarrow> True | Some JNull \<Rightarrow> True | _ \<Rightarrow> False)"

lemma json_find_size: "json_find key j = Some v \<Longrightarrow> size v < size j"
proof -
  assume a: "json_find key j = Some v"
  then obtain kvs where "j = JObject kvs" "(key, v) \<in> set kvs"
    by (auto simp: json_find_def split: Json.splits dest: map_of_SomeD)
  moreover have "size v \<le> size_list (size_prod (\<lambda>_. 0) size) kvs" if "(key, v) \<in> set kvs" for kvs :: "(string \<times> Json) list"
    using that by (induction kvs) auto
  ultimately show ?thesis by (simp add: less_Suc_eq_le)
qed

lemma json_array_size: "c \<in> set cs \<Longrightarrow> size c < size (JArray cs)"
  by (induction cs) auto

section \<open>Field accessors and whitelist guards\<close>

definition IntValue :: "Json \<Rightarrow> int status_or" where
  "IntValue value =
     (case value of
        JInt i \<Rightarrow> if i > INT64_MAX then InvalidArgumentError else Inr i
      | _ \<Rightarrow> InvalidArgumentError)"

definition StringValue :: "Json \<Rightarrow> string status_or" where
  "StringValue value = (case value of JString s \<Rightarrow> Inr s | _ \<Rightarrow> InvalidArgumentError)"

text \<open>\<open>OptionalBool\<close> takes the default and returns the new value of its output argument.\<close>

definition OptionalBool :: "Json \<Rightarrow> string \<Rightarrow> bool \<Rightarrow> bool status_or" where
  "OptionalBool obj key out =
     (case json_find key obj of
        None \<Rightarrow> Inr out
      | Some (JBool b) \<Rightarrow> Inr b
      | Some _ \<Rightarrow> InvalidArgumentError)"

definition RequireAbsentOrNull :: "Json \<Rightarrow> string \<Rightarrow> unit status_or" where
  "RequireAbsentOrNull obj key = (if null_or_absent (json_find key obj) then Inr () else UnimplementedError)"

definition RequireAbsentOrEmpty :: "Json \<Rightarrow> string \<Rightarrow> unit status_or" where
  "RequireAbsentOrEmpty obj key =
     (if null_or_absent (json_find key obj) \<or> json_find key obj = Some (JString []) then Inr () else UnimplementedError)"

definition RequireAbsentOrFalse :: "Json \<Rightarrow> string \<Rightarrow> unit status_or" where
  "RequireAbsentOrFalse obj key =
     (case json_find key obj of
        None \<Rightarrow> Inr ()
      | Some (JBool b) \<Rightarrow> if b then UnimplementedError else Inr ()
      | Some _ \<Rightarrow> InvalidArgumentError)"

definition ComponentType :: "Json \<Rightarrow> string status_or" where
  "ComponentType node =
     (if \<not> is_object node then InvalidArgumentError
      else case json_find ''type'' node of
        None \<Rightarrow> InvalidArgumentError
      | Some t \<Rightarrow> StringValue t)"

section \<open>The model section\<close>

record ModelData =
  md_token_to_id :: "string \<Rightarrow> int option"
  md_id_to_token :: "string list"
  md_merge_ranks :: "string \<Rightarrow> int option"
  md_ignore_merges :: bool

text \<open>\<open>unordered_map::emplace\<close> keeps an existing entry.\<close>

definition emplace :: "('k \<Rightarrow> 'v option) \<Rightarrow> 'k \<Rightarrow> 'v \<Rightarrow> 'k \<Rightarrow> 'v option" where
  "emplace m k v = (case m k of None \<Rightarrow> m(k \<mapsto> v) | Some _ \<Rightarrow> m)"

definition ParseModelFlags :: "Json \<Rightarrow> ModelData \<Rightarrow> ModelData status_or" where
  "ParseModelFlags model data =
     bind_ok (RequireAbsentOrNull model ''dropout'') (\<lambda>_.
     bind_ok (RequireAbsentOrNull model ''unk_token'') (\<lambda>_.
     bind_ok (RequireAbsentOrEmpty model ''continuing_subword_prefix'') (\<lambda>_.
     bind_ok (RequireAbsentOrEmpty model ''end_of_word_suffix'') (\<lambda>_.
     bind_ok (RequireAbsentOrFalse model ''fuse_unk'') (\<lambda>_.
     bind_ok (RequireAbsentOrFalse model ''byte_fallback'') (\<lambda>_.
     bind_ok (OptionalBool model ''ignore_merges'' (md_ignore_merges data)) (\<lambda>b.
     Inr (data\<lparr>md_ignore_merges := b\<rparr>))))))))"

text \<open>The loop over the vocabulary: the id table, the \<open>seen\<close> flags and the id map.\<close>

fun vocab_loop ::
  "int \<Rightarrow> (string \<times> Json) list \<Rightarrow> string list \<Rightarrow> bool list \<Rightarrow> (string \<Rightarrow> int option) \<Rightarrow>
   (string list \<times> (string \<Rightarrow> int option)) status_or" where
  "vocab_loop vocab_count [] id_to_token seen token_to_id = Inr (id_to_token, token_to_id)"
| "vocab_loop vocab_count ((token, id_value) # kvs) id_to_token seen token_to_id =
     bind_ok (IntValue id_value) (\<lambda>id.
       if id < 0 \<or> vocab_count \<le> id then InvalidArgumentError
       else
         let index = nat id in
         if seen ! index then InvalidArgumentError
         else vocab_loop vocab_count kvs (id_to_token[index := token]) (seen[index := True]) (emplace token_to_id token id))"

definition ParseVocab :: "Json \<Rightarrow> ModelData \<Rightarrow> ModelData status_or" where
  "ParseVocab model data =
     (case json_find ''vocab'' model of
        None \<Rightarrow> InvalidArgumentError
      | Some (JObject kvs) \<Rightarrow>
          let vocab_count = int (length kvs) in
          if vocab_count > INT32_MAX then InvalidArgumentError
          else bind_ok (vocab_loop vocab_count kvs (replicate (length kvs) []) (replicate (length kvs) False)
                          (md_token_to_id data)) (\<lambda>(id_to_token, token_to_id).
               Inr (data\<lparr>md_id_to_token := id_to_token, md_token_to_id := token_to_id\<rparr>))
      | Some _ \<Rightarrow> InvalidArgumentError)"

text \<open>Both serializations of a merge: \<open>"left right"\<close> with exactly one inner space, or a two-string array.\<close>

definition find_char :: "char \<Rightarrow> string \<Rightarrow> nat \<Rightarrow> nat option" where
  "find_char c s from =
     (let skipped = takeWhile (\<lambda>x. x \<noteq> c) (drop from s) in
      if from + length skipped < length s then Some (from + length skipped) else None)"

definition parse_merge_entry :: "Json \<Rightarrow> (string \<times> string) status_or" where
  "parse_merge_entry entry =
     (case entry of
        JString s \<Rightarrow>
          (case find_char (CHR '' '') s 0 of
             None \<Rightarrow> InvalidArgumentError
           | Some space \<Rightarrow>
               if space = 0 \<or> space + 1 = length s \<or> find_char (CHR '' '') s (space + 1) \<noteq> None then InvalidArgumentError
               else Inr (take space s, drop (space + 1) s))
      | JArray [l, r] \<Rightarrow> bind_ok (StringValue l) (\<lambda>left. bind_ok (StringValue r) (\<lambda>right. Inr (left, right)))
      | _ \<Rightarrow> InvalidArgumentError)"

fun merges_loop :: "(string \<Rightarrow> int option) \<Rightarrow> Json list \<Rightarrow> nat \<Rightarrow> (string \<Rightarrow> int option) \<Rightarrow> (string \<Rightarrow> int option) status_or" where
  "merges_loop token_to_id [] index ranks = Inr ranks"
| "merges_loop token_to_id (entry # entries) index ranks =
     bind_ok (parse_merge_entry entry) (\<lambda>(left, right).
       if token_to_id left = None \<or> token_to_id right = None then InvalidArgumentError
       else if token_to_id (left @ right) = None then InvalidArgumentError
       else
         let rank_key = left @ '' '' @ right in
         if ranks rank_key \<noteq> None then InvalidArgumentError
         else merges_loop token_to_id entries (index + 1) (ranks(rank_key \<mapsto> int32_cast (int index))))"

definition ParseMerges :: "Json \<Rightarrow> ModelData \<Rightarrow> ModelData status_or" where
  "ParseMerges model data =
     (case json_find ''merges'' model of
        None \<Rightarrow> InvalidArgumentError
      | Some (JArray entries) \<Rightarrow>
          bind_ok (merges_loop (md_token_to_id data) entries 0 (md_merge_ranks data)) (\<lambda>ranks.
          Inr (data\<lparr>md_merge_ranks := ranks\<rparr>))
      | Some _ \<Rightarrow> InvalidArgumentError)"

definition ParseModel :: "Json \<Rightarrow> ModelData status_or" where
  "ParseModel doc =
     (case json_find ''model'' doc of
        None \<Rightarrow> InvalidArgumentError
      | Some model \<Rightarrow>
          if model = JNull then InvalidArgumentError
          else if \<not> is_object model then InvalidArgumentError
          else
            bind_ok (ComponentType model) (\<lambda>ty.
            if ty \<noteq> ''BPE'' then UnimplementedError
            else
              bind_ok (ParseModelFlags model \<lparr>md_token_to_id = Map.empty, md_id_to_token = [],
                         md_merge_ranks = Map.empty, md_ignore_merges = False\<rparr>) (\<lambda>d1.
              bind_ok (ParseVocab model d1) (\<lambda>d2. ParseMerges model d2))))"

section \<open>Added tokens\<close>

record AddedToken =
  at_id :: int
  at_content :: string
  at_special :: bool
  at_lstrip :: bool
  at_rstrip :: bool
  at_normalized :: bool
  at_single_word :: bool

definition ParseAddedToken :: "Json \<Rightarrow> AddedToken status_or" where
  "ParseAddedToken entry =
     (if \<not> is_object entry then InvalidArgumentError
      else case json_find ''id'' entry of
        None \<Rightarrow> InvalidArgumentError
      | Some id_value \<Rightarrow>
          bind_ok (IntValue id_value) (\<lambda>id.
          if id < 0 \<or> id > INT32_MAX then InvalidArgumentError
          else case json_find ''content'' entry of
            None \<Rightarrow> InvalidArgumentError
          | Some content_value \<Rightarrow>
              bind_ok (StringValue content_value) (\<lambda>content.
              if content = [] then InvalidArgumentError
              else
                bind_ok (OptionalBool entry ''special'' False) (\<lambda>special.
                bind_ok (OptionalBool entry ''lstrip'' False) (\<lambda>lstrip.
                bind_ok (OptionalBool entry ''rstrip'' False) (\<lambda>rstrip.
                bind_ok (OptionalBool entry ''normalized'' False) (\<lambda>normalized.
                bind_ok (OptionalBool entry ''single_word'' False) (\<lambda>single_word.
                if single_word then UnimplementedError
                else Inr \<lparr>at_id = id, at_content = content, at_special = special, at_lstrip = lstrip,
                          at_rstrip = rstrip, at_normalized = normalized, at_single_word = single_word\<rparr>)))))))) "

fun parse_added_loop :: "Json list \<Rightarrow> AddedToken list status_or" where
  "parse_added_loop [] = Inr []"
| "parse_added_loop (entry # entries) =
     bind_ok (ParseAddedToken entry) (\<lambda>t. bind_ok (parse_added_loop entries) (\<lambda>ts. Inr (t # ts)))"

text \<open>The check of the sorted list: neighbours with one id, and repeated contents.\<close>

fun added_distinct :: "AddedToken list \<Rightarrow> int option \<Rightarrow> string list \<Rightarrow> bool" where
  "added_distinct [] prev contents = True"
| "added_distinct (t # ts) prev contents =
     (prev \<noteq> Some (at_id t) \<and> at_content t \<notin> set contents \<and> added_distinct ts (Some (at_id t)) (at_content t # contents))"

definition ParseAddedTokens :: "Json \<Rightarrow> AddedToken list status_or" where
  "ParseAddedTokens doc =
     (case json_find ''added_tokens'' doc of
        None \<Rightarrow> Inr []
      | Some JNull \<Rightarrow> Inr []
      | Some (JArray entries) \<Rightarrow>
          bind_ok (parse_added_loop entries) (\<lambda>tokens.
            let sorted = sort_key at_id tokens in
            if added_distinct sorted None [] then Inr sorted else InvalidArgumentError)
      | Some _ \<Rightarrow> InvalidArgumentError)"

section \<open>Normalizer and component lists\<close>

function ParseNormalizerNode :: "Json \<Rightarrow> bool status_or"
  and ParseNormalizerList :: "Json list \<Rightarrow> bool \<Rightarrow> bool status_or" where
  "ParseNormalizerNode node =
     bind_ok (ComponentType node) (\<lambda>ty.
       if ty = ''NFC'' then Inr True
       else if ty = ''Sequence'' then
         (case json_find ''normalizers'' node of
            Some (JArray children) \<Rightarrow> ParseNormalizerList children False
          | _ \<Rightarrow> InvalidArgumentError)
       else UnimplementedError)"
| "ParseNormalizerList [] nfc = Inr nfc"
| "ParseNormalizerList (child # children) nfc =
     bind_ok (ParseNormalizerNode child) (\<lambda>child_nfc. ParseNormalizerList children (nfc \<or> child_nfc))"
  by pat_completeness auto

termination
  by (relation "measure (\<lambda>x. case x of Inl node \<Rightarrow> 2 * size node + 1 | Inr (children, nfc) \<Rightarrow> 2 * size_list size children)")
     (auto dest!: json_find_size)

definition ParseNormalizer :: "Json \<Rightarrow> bool status_or" where
  "ParseNormalizer doc =
     (case json_find ''normalizer'' doc of
        None \<Rightarrow> Inr False
      | Some JNull \<Rightarrow> Inr False
      | Some node \<Rightarrow> ParseNormalizerNode node)"

function FlattenComponents :: "string \<Rightarrow> Json \<Rightarrow> Json list status_or"
  and FlattenList :: "string \<Rightarrow> Json list \<Rightarrow> Json list status_or" where
  "FlattenComponents list_key node =
     bind_ok (ComponentType node) (\<lambda>ty.
       if ty \<noteq> ''Sequence'' then Inr [node]
       else case json_find list_key node of
         Some (JArray children) \<Rightarrow> FlattenList list_key children
       | _ \<Rightarrow> InvalidArgumentError)"
| "FlattenList list_key [] = Inr []"
| "FlattenList list_key (child # children) =
     bind_ok (FlattenComponents list_key child) (\<lambda>ps. bind_ok (FlattenList list_key children) (\<lambda>qs. Inr (ps @ qs)))"
  by pat_completeness auto

termination
  by (relation "measure (\<lambda>x. case x of Inl (k, node) \<Rightarrow> 2 * size node + 1 | Inr (k, children) \<Rightarrow> 2 * size_list size children)")
     (auto dest!: json_find_size)

section \<open>Pre-tokenizer, post-processor and decoder\<close>

definition ParseSplit :: "Json \<Rightarrow> string status_or" where
  "ParseSplit node =
     (case json_find ''pattern'' node of
        Some (JObject kvs) \<Rightarrow>
          (case json_find ''Regex'' (JObject kvs) of
             None \<Rightarrow> UnimplementedError
           | Some regex \<Rightarrow>
               bind_ok (StringValue regex) (\<lambda>pattern.
               case json_find ''behavior'' node of
                 None \<Rightarrow> InvalidArgumentError
               | Some b \<Rightarrow>
                   bind_ok (StringValue b) (\<lambda>behavior.
                   if behavior \<noteq> ''Isolated'' then UnimplementedError
                   else
                     bind_ok (OptionalBool node ''invert'' False) (\<lambda>invert.
                     if invert then UnimplementedError else Inr pattern))))
      | _ \<Rightarrow> InvalidArgumentError)"

definition ParseByteLevelPre :: "Json \<Rightarrow> unit status_or" where
  "ParseByteLevelPre node =
     bind_ok (OptionalBool node ''add_prefix_space'' True) (\<lambda>add_prefix_space.
     if add_prefix_space then UnimplementedError
     else
       bind_ok (OptionalBool node ''use_regex'' True) (\<lambda>use_regex.
       if use_regex then UnimplementedError else Inr ()))"

definition part_type :: "Json \<Rightarrow> string" where
  "part_type part = (case json_find ''type'' part of Some (JString t) \<Rightarrow> t | _ \<Rightarrow> ''?'')"

definition ParsePreTokenizer :: "Json \<Rightarrow> string status_or" where
  "ParsePreTokenizer doc =
     (case json_find ''pre_tokenizer'' doc of
        None \<Rightarrow> UnimplementedError
      | Some JNull \<Rightarrow> UnimplementedError
      | Some node \<Rightarrow>
          bind_ok (FlattenComponents ''pretokenizers'' node) (\<lambda>parts.
          if length parts \<noteq> 2 \<or> part_type (parts ! 0) \<noteq> ''Split'' \<or> part_type (parts ! 1) \<noteq> ''ByteLevel'' then UnimplementedError
          else
            bind_ok (ParseSplit (parts ! 0)) (\<lambda>pattern.
            bind_ok (ParseByteLevelPre (parts ! 1)) (\<lambda>_. Inr pattern))))"

record TemplateInserts =
  ti_prefix :: "int list"
  ti_suffix :: "int list"

text \<open>\<open>ResolveSpecialToken\<close> returns the id it appends.\<close>

definition ResolveSpecialToken :: "Json \<Rightarrow> Json \<Rightarrow> int \<Rightarrow> int status_or" where
  "ResolveSpecialToken value tp vocab_size =
     (if \<not> is_object value then InvalidArgumentError
      else case json_find ''id'' value of
        None \<Rightarrow> InvalidArgumentError
      | Some n \<Rightarrow>
          bind_ok (StringValue n) (\<lambda>name.
          case json_find ''special_tokens'' tp of
            Some (JObject kvs) \<Rightarrow>
              (case json_find name (JObject kvs) of
                 None \<Rightarrow> InvalidArgumentError
               | Some entry \<Rightarrow>
                   (case json_find ''ids'' entry of
                      Some (JArray ids) \<Rightarrow>
                        if length ids \<noteq> 1 then UnimplementedError
                        else
                          bind_ok (IntValue (hd ids)) (\<lambda>id.
                          if id < 0 \<or> vocab_size \<le> id then InvalidArgumentError else Inr id)
                    | _ \<Rightarrow> InvalidArgumentError))
          | _ \<Rightarrow> InvalidArgumentError))"

fun template_loop :: "Json \<Rightarrow> int \<Rightarrow> Json list \<Rightarrow> bool \<Rightarrow> TemplateInserts \<Rightarrow> (bool \<times> TemplateInserts) status_or" where
  "template_loop tp vocab_size [] seen_sequence inserts = Inr (seen_sequence, inserts)"
| "template_loop tp vocab_size (entry # entries) seen_sequence inserts =
     (case entry of
        JObject [(kind, value)] \<Rightarrow>
          if kind = ''Sequence'' then
            if seen_sequence then InvalidArgumentError
            else if json_find ''id'' value \<noteq> Some (JString ''A'') then InvalidArgumentError
            else template_loop tp vocab_size entries True inserts
          else if kind = ''SpecialToken'' then
            bind_ok (ResolveSpecialToken value tp vocab_size) (\<lambda>id.
              template_loop tp vocab_size entries seen_sequence
                (if seen_sequence then inserts\<lparr>ti_suffix := ti_suffix inserts @ [id]\<rparr>
                 else inserts\<lparr>ti_prefix := ti_prefix inserts @ [id]\<rparr>))
          else UnimplementedError
      | _ \<Rightarrow> InvalidArgumentError)"

definition ParseTemplate :: "Json \<Rightarrow> int \<Rightarrow> TemplateInserts status_or" where
  "ParseTemplate tp vocab_size =
     (case json_find ''single'' tp of
        Some (JArray entries) \<Rightarrow>
          bind_ok (template_loop tp vocab_size entries False \<lparr>ti_prefix = [], ti_suffix = []\<rparr>) (\<lambda>(seen_sequence, inserts).
          if \<not> seen_sequence then InvalidArgumentError else Inr inserts)
      | _ \<Rightarrow> InvalidArgumentError)"

fun post_loop :: "Json list \<Rightarrow> Json option \<Rightarrow> Json option status_or" where
  "post_loop [] template_node = Inr template_node"
| "post_loop (part # parts) template_node =
     bind_ok (ComponentType part) (\<lambda>ty.
       if ty = ''ByteLevel'' then post_loop parts template_node
       else if ty \<noteq> ''TemplateProcessing'' then UnimplementedError
       else if template_node \<noteq> None then UnimplementedError
       else post_loop parts (Some part))"

definition ParsePostProcessor :: "Json \<Rightarrow> int \<Rightarrow> TemplateInserts status_or" where
  "ParsePostProcessor doc vocab_size =
     (case json_find ''post_processor'' doc of
        None \<Rightarrow> Inr \<lparr>ti_prefix = [], ti_suffix = []\<rparr>
      | Some JNull \<Rightarrow> Inr \<lparr>ti_prefix = [], ti_suffix = []\<rparr>
      | Some node \<Rightarrow>
          bind_ok (FlattenComponents ''processors'' node) (\<lambda>parts.
          bind_ok (post_loop parts None) (\<lambda>template_node.
          case template_node of
            None \<Rightarrow> Inr \<lparr>ti_prefix = [], ti_suffix = []\<rparr>
          | Some tp \<Rightarrow> ParseTemplate tp vocab_size)))"

fun decoder_loop :: "Json list \<Rightarrow> unit status_or" where
  "decoder_loop [] = Inr ()"
| "decoder_loop (part # parts) =
     bind_ok (ComponentType part) (\<lambda>ty. if ty \<noteq> ''ByteLevel'' then UnimplementedError else decoder_loop parts)"

definition ParseDecoder :: "Json \<Rightarrow> unit status_or" where
  "ParseDecoder doc =
     (case json_find ''decoder'' doc of
        None \<Rightarrow> Inr ()
      | Some JNull \<Rightarrow> Inr ()
      | Some node \<Rightarrow> bind_ok (FlattenComponents ''decoders'' node) decoder_loop)"

definition RequireUnconfigured :: "Json \<Rightarrow> string \<Rightarrow> unit status_or" where
  "RequireUnconfigured doc key = (if null_or_absent (json_find key doc) then Inr () else UnimplementedError)"

end
