(* ===== verification/Unicode.thy ===== *)
theory Unicode
  imports Prelude
begin

text \<open>
  UTF-8 and Unicode, \<open>src/src/tokenizer/unicode.{h,cpp}\<close>. A byte string is a \<open>string\<close>, a byte its
  character's code, a codepoint a natural number (the code's \<open>char32_t\<close> values stay below \<open>2^21\<close>, so
  its 32-bit arithmetic never wraps). The generated tables of \<open>unicode_data.inc\<close> are the fields of a
  record every function takes, so what is proved holds for every version of the tables;
  \<open>std::upper_bound\<close> and \<open>lower_bound\<close> on a table sorted by its key are the split of the table at the
  first row past the key.
\<close>

unbundle bit_operations_syntax

section \<open>Tables\<close>

record UnicodeData =
  kLetterRanges :: "(nat \<times> nat) list"
  kNumberRanges :: "(nat \<times> nat) list"
  kWhitespaceRanges :: "(nat \<times> nat) list"
  kNfcNoOrMaybeRanges :: "(nat \<times> nat) list"
  kCccRanges :: "(nat \<times> nat \<times> nat) list"
  kDecompPool :: "nat list"
  kDecompEntries :: "(nat \<times> nat \<times> nat) list"
  kCompEntries :: "(nat \<times> nat) list"

definition InRanges :: "(nat \<times> nat) list \<Rightarrow> nat \<Rightarrow> bool" where
  "InRanges ranges codepoint =
     (let below = takeWhile (\<lambda>r. fst r \<le> codepoint) ranges in
      below \<noteq> [] \<and> codepoint \<le> snd (last below))"

definition CombiningClass :: "UnicodeData \<Rightarrow> nat \<Rightarrow> nat" where
  "CombiningClass ud codepoint =
     (let below = takeWhile (\<lambda>r. fst r \<le> codepoint) (kCccRanges ud) in
      if below = [] \<or> fst (snd (last below)) < codepoint then 0 else snd (snd (last below)))"

definition CanonicalDecomposition :: "UnicodeData \<Rightarrow> nat \<Rightarrow> nat list" where
  "CanonicalDecomposition ud codepoint =
     (case dropWhile (\<lambda>e. fst e < codepoint) (kDecompEntries ud) of
        [] \<Rightarrow> []
      | (cp, offset, len) # _ \<Rightarrow> if cp \<noteq> codepoint then [] else take len (drop offset (kDecompPool ud)))"

definition is_letter :: "UnicodeData \<Rightarrow> nat \<Rightarrow> bool" where
  "is_letter ud codepoint = InRanges (kLetterRanges ud) codepoint"

definition is_number :: "UnicodeData \<Rightarrow> nat \<Rightarrow> bool" where
  "is_number ud codepoint = InRanges (kNumberRanges ud) codepoint"

definition is_whitespace :: "UnicodeData \<Rightarrow> nat \<Rightarrow> bool" where
  "is_whitespace ud codepoint = InRanges (kWhitespaceRanges ud) codepoint"

section \<open>The UTF-8 codec\<close>

text \<open>The byte at an index, and the character of a byte value (\<open>static_cast<char>\<close>).\<close>

definition byte_at :: "string \<Rightarrow> nat \<Rightarrow> nat" where
  "byte_at text i = of_char (text ! i)"

definition append_utf8 :: "string \<Rightarrow> nat \<Rightarrow> string" where
  "append_utf8 out codepoint =
     (if codepoint < 0x80 then out @ [char_of codepoint]
      else if codepoint < 0x800 then
        out @ [char_of (0xC0 OR drop_bit 6 codepoint), char_of (0x80 OR (codepoint AND 0x3F))]
      else if codepoint < 0x10000 then
        out @ [char_of (0xE0 OR drop_bit 12 codepoint), char_of (0x80 OR (drop_bit 6 codepoint AND 0x3F)),
               char_of (0x80 OR (codepoint AND 0x3F))]
      else
        out @ [char_of (0xF0 OR drop_bit 18 codepoint), char_of (0x80 OR (drop_bit 12 codepoint AND 0x3F)),
               char_of (0x80 OR (drop_bit 6 codepoint AND 0x3F)), char_of (0x80 OR (codepoint AND 0x3F))])"

text \<open>\<open>decode_utf8\<close> returns the codepoint and the new position; on \<open>None\<close> the position is unchanged.
  \<open>decode_cont\<close> is its loop over the continuation bytes.\<close>

fun decode_cont :: "string \<Rightarrow> nat \<Rightarrow> nat \<Rightarrow> nat option" where
  "decode_cont text 0 codepoint = Some codepoint"
| "decode_cont [] (Suc n) codepoint = None"
| "decode_cont (c # text) (Suc n) codepoint =
     (if (of_char c AND 0xC0) \<noteq> (0x80 :: nat) then None
      else decode_cont text n (push_bit 6 codepoint OR (of_char c AND 0x3F)))"

definition decode_utf8 :: "string \<Rightarrow> nat \<Rightarrow> (nat \<times> nat) option" where
  "decode_utf8 text pos =
     (let lead = byte_at text pos;
          start = (if lead < 0x80 then Some (1, lead)
                   else if lead AND 0xE0 = 0xC0 then Some (2, lead AND 0x1F)
                   else if lead AND 0xF0 = 0xE0 then Some (3, lead AND 0x0F)
                   else if lead AND 0xF8 = 0xF0 then Some (4, lead AND 0x07)
                   else None) in
      case start of
        None \<Rightarrow> None
      | Some (len, codepoint) \<Rightarrow>
          if length text < pos + len then None
          else map_option (\<lambda>cp. (cp, pos + len)) (decode_cont (drop (pos + 1) text) (len - 1) codepoint))"

datatype Utf8Prefix = kComplete | kIncomplete | kInvalid

record Utf8Classification =
  uc_kind :: Utf8Prefix
  uc_length :: nat

fun classify_cont :: "string \<Rightarrow> nat \<Rightarrow> nat \<Rightarrow> nat \<Rightarrow> nat \<Rightarrow> nat \<Rightarrow> Utf8Classification" where
  "classify_cont bytes i 0 len second_lo second_hi = \<lparr>uc_kind = kComplete, uc_length = len\<rparr>"
| "classify_cont bytes i (Suc n) len second_lo second_hi =
     (if length bytes \<le> i then \<lparr>uc_kind = kIncomplete, uc_length = length bytes\<rparr>
      else
        let cont = byte_at bytes i;
            lo = (if i = 1 then second_lo else 0x80);
            hi = (if i = 1 then second_hi else 0xBF) in
        if cont < lo \<or> hi < cont then \<lparr>uc_kind = kInvalid, uc_length = i\<rparr>
        else classify_cont bytes (i + 1) n len second_lo second_hi)"

definition classify_utf8_prefix :: "string \<Rightarrow> Utf8Classification" where
  "classify_utf8_prefix bytes =
     (let lead = byte_at bytes 0 in
      if lead < 0x80 then \<lparr>uc_kind = kComplete, uc_length = 1\<rparr>
      else if 0xC2 \<le> lead \<and> lead \<le> 0xDF then classify_cont bytes 1 1 2 0x80 0xBF
      else if 0xE0 \<le> lead \<and> lead \<le> 0xEF then
        classify_cont bytes 1 2 3 (if lead = 0xE0 then 0xA0 else 0x80) (if lead \<noteq> 0xE0 \<and> lead = 0xED then 0x9F else 0xBF)
      else if 0xF0 \<le> lead \<and> lead \<le> 0xF4 then
        classify_cont bytes 1 3 4 (if lead = 0xF0 then 0x90 else 0x80) (if lead \<noteq> 0xF0 \<and> lead = 0xF4 then 0x8F else 0xBF)
      else \<lparr>uc_kind = kInvalid, uc_length = 1\<rparr>)"

lemma classify_cont_length:
  "bytes \<noteq> [] \<Longrightarrow> 0 < i \<Longrightarrow> 0 < len \<Longrightarrow> 0 < uc_length (classify_cont bytes i n len lo hi)"
  by (induction bytes i n len lo hi rule: classify_cont.induct) (auto simp: Let_def)

lemma classify_length: "bytes \<noteq> [] \<Longrightarrow> 0 < uc_length (classify_utf8_prefix bytes)"
  by (auto simp: classify_utf8_prefix_def Let_def intro!: classify_cont_length)

function append_utf8_lossy :: "string \<Rightarrow> string \<Rightarrow> string" where
  "append_utf8_lossy out bytes =
     (if bytes = [] then out
      else
        let part = classify_utf8_prefix bytes;
            out' = (if uc_kind part = kComplete then out @ take (uc_length part) bytes else append_utf8 out 0xFFFD) in
        append_utf8_lossy out' (drop (uc_length part) bytes))"
  by pat_completeness auto

termination by (relation "measure (\<lambda>(out, bytes). length bytes)") (auto intro!: diff_less classify_length)

declare append_utf8_lossy.simps [simp del]

section \<open>Normalization\<close>

definition kHangulSBase :: nat where "kHangulSBase = 0xAC00"
definition kHangulLBase :: nat where "kHangulLBase = 0x1100"
definition kHangulVBase :: nat where "kHangulVBase = 0x1161"
definition kHangulTBase :: nat where "kHangulTBase = 0x11A7"
definition kHangulLCount :: nat where "kHangulLCount = 19"
definition kHangulVCount :: nat where "kHangulVCount = 21"
definition kHangulTCount :: nat where "kHangulTCount = 28"
definition kHangulNCount :: nat where "kHangulNCount = kHangulVCount * kHangulTCount"
definition kHangulSCount :: nat where "kHangulSCount = kHangulLCount * kHangulNCount"

lemmas hangul_defs = kHangulSBase_def kHangulLBase_def kHangulVBase_def kHangulTBase_def kHangulLCount_def
  kHangulVCount_def kHangulTCount_def kHangulNCount_def kHangulSCount_def

definition DecomposeHangul :: "nat \<Rightarrow> nat list" where
  "DecomposeHangul syllable =
     (let index = syllable - kHangulSBase in
      [kHangulLBase + index div kHangulNCount, kHangulVBase + (index mod kHangulNCount) div kHangulTCount] @
      (if index mod kHangulTCount \<noteq> 0 then [kHangulTBase + index mod kHangulTCount] else []))"

definition ComposePair :: "UnicodeData \<Rightarrow> nat \<Rightarrow> nat \<Rightarrow> nat option" where
  "ComposePair ud fst_cp snd_cp =
     (if kHangulLBase \<le> fst_cp \<and> fst_cp < kHangulLBase + kHangulLCount \<and>
         kHangulVBase \<le> snd_cp \<and> snd_cp < kHangulVBase + kHangulVCount then
        let lv_index = (fst_cp - kHangulLBase) * kHangulVCount + (snd_cp - kHangulVBase) in
        Some (kHangulSBase + lv_index * kHangulTCount)
      else if kHangulSBase \<le> fst_cp \<and> fst_cp < kHangulSBase + kHangulSCount \<and>
         (fst_cp - kHangulSBase) mod kHangulTCount = 0 \<and> kHangulTBase < snd_cp \<and>
         snd_cp < kHangulTBase + kHangulTCount then
        Some (fst_cp + (snd_cp - kHangulTBase))
      else
        let key = push_bit 32 fst_cp OR snd_cp in
        case dropWhile (\<lambda>e. fst e < key) (kCompEntries ud) of
          [] \<Rightarrow> None
        | (k, composed) # _ \<Rightarrow> if k \<noteq> key then None else Some composed)"

definition IsNfcInert :: "UnicodeData \<Rightarrow> nat \<Rightarrow> bool" where
  "IsNfcInert ud codepoint \<longleftrightarrow> CombiningClass ud codepoint = 0 \<and> \<not> InRanges (kNfcNoOrMaybeRanges ud) codepoint"

text \<open>The three phases of \<open>NormalizeSegment\<close>: decomposition, the insertion sort of the non-starters,
  and the streaming composition, whose state is the vector, the last starter and its position, the
  write position and the last combining class (256: nothing to compose with).\<close>

definition decompose_one :: "UnicodeData \<Rightarrow> nat \<Rightarrow> nat list" where
  "decompose_one ud codepoint =
     (if kHangulSBase \<le> codepoint \<and> codepoint < kHangulSBase + kHangulSCount then DecomposeHangul codepoint
      else
        let expansion = CanonicalDecomposition ud codepoint in
        if expansion = [] then [codepoint] else expansion)"

primrec sift_down :: "UnicodeData \<Rightarrow> nat \<Rightarrow> nat \<Rightarrow> nat list \<Rightarrow> nat list" where
  "sift_down ud ccc 0 xs = xs"
| "sift_down ud ccc (Suc j) xs =
     (if CombiningClass ud (xs ! j) > ccc then sift_down ud ccc j (xs[j := xs ! Suc j, Suc j := xs ! j]) else xs)"

definition canonical_order :: "UnicodeData \<Rightarrow> nat list \<Rightarrow> nat list" where
  "canonical_order ud xs =
     fold (\<lambda>i ys. let ccc = CombiningClass ud (ys ! i) in if ccc = 0 then ys else sift_down ud ccc i ys)
       [1..<length xs] xs"

definition compose_step ::
  "UnicodeData \<Rightarrow> nat \<Rightarrow> nat list \<times> nat \<times> nat \<times> nat \<times> nat \<Rightarrow> nat list \<times> nat \<times> nat \<times> nat \<times> nat" where
  "compose_step ud i st =
     (case st of (xs, starter, starter_pos, write_pos, last_ccc) \<Rightarrow>
        let current = xs ! i; ccc = CombiningClass ud current in
        case ComposePair ud starter current of
          Some composed \<Rightarrow>
            if last_ccc < ccc \<or> last_ccc = 0
            then (xs[starter_pos := composed], composed, starter_pos, write_pos, last_ccc)
            else if ccc = 0 then (xs[write_pos := current], current, write_pos, write_pos + 1, ccc)
            else (xs[write_pos := current], starter, starter_pos, write_pos + 1, ccc)
        | None \<Rightarrow>
            if ccc = 0 then (xs[write_pos := current], current, write_pos, write_pos + 1, ccc)
            else (xs[write_pos := current], starter, starter_pos, write_pos + 1, ccc))"

definition canonical_compose :: "UnicodeData \<Rightarrow> nat list \<Rightarrow> nat list" where
  "canonical_compose ud xs =
     (let starter = xs ! 0 in
      case fold (compose_step ud) [1..<length xs]
             (xs, starter, 0, 1, if CombiningClass ud starter = 0 then 0 else 256) of
        (ys, _, _, write_pos, _) \<Rightarrow> take write_pos ys)"

definition NormalizeSegment :: "UnicodeData \<Rightarrow> nat list \<Rightarrow> string \<Rightarrow> string" where
  "NormalizeSegment ud buffer out =
     (if buffer = [] then out
      else
        let decomposed = concat (map (decompose_one ud) buffer);
            composed = canonical_compose ud (canonical_order ud decomposed) in
        fold (\<lambda>cp o'. append_utf8 o' cp) composed out)"

lemma decode_utf8_advance: "decode_utf8 text pos = Some (cp, pos') \<Longrightarrow> pos < pos' \<and> pos' \<le> length text"
  by (auto simp: decode_utf8_def Let_def split: option.splits if_splits)

text \<open>The quick scan of \<open>nfc_normalize\<close>, and its segmenting loop.\<close>

function nfc_inert_scan :: "UnicodeData \<Rightarrow> string \<Rightarrow> nat \<Rightarrow> bool" where
  "nfc_inert_scan ud text pos =
     (if length text \<le> pos then True
      else if byte_at text pos < 0x80 then nfc_inert_scan ud text (pos + 1)
      else case decode_utf8 text pos of
        None \<Rightarrow> False
      | Some (cp, pos') \<Rightarrow> if \<not> IsNfcInert ud cp then False else nfc_inert_scan ud text pos')"
  by pat_completeness auto

termination
  by (relation "measure (\<lambda>(ud, text, pos). length text - pos)") (auto dest: decode_utf8_advance)

declare nfc_inert_scan.simps [simp del]

function nfc_segments :: "UnicodeData \<Rightarrow> string \<Rightarrow> nat \<Rightarrow> nat list \<Rightarrow> string \<Rightarrow> string" where
  "nfc_segments ud text pos buffer out =
     (if length text \<le> pos then NormalizeSegment ud buffer out
      else case decode_utf8 text pos of
        Some (cp, pos') \<Rightarrow> nfc_segments ud text pos' (buffer @ [cp]) out
      | None \<Rightarrow> nfc_segments ud text (pos + 1) [] (NormalizeSegment ud buffer out @ [text ! pos]))"
  by pat_completeness auto

termination
  by (relation "measure (\<lambda>(ud, text, pos, b, o'). length text - pos)") (auto dest: decode_utf8_advance)

declare nfc_segments.simps [simp del]

definition nfc_normalize :: "UnicodeData \<Rightarrow> string \<Rightarrow> string" where
  "nfc_normalize ud text = (if nfc_inert_scan ud text 0 then text else nfc_segments ud text 0 [] [])"

section \<open>Bit fields\<close>

lemma and_field: "x AND push_bit n (mask m) = push_bit n (take_bit m (drop_bit n x))" for x :: nat
  by (rule bit_eqI) (auto simp: bit_and_iff bit_push_bit_iff bit_mask_iff bit_take_bit_iff bit_drop_bit_eq)

lemmas field_simps_nat = push_bit_eq_mult take_bit_eq_mod drop_bit_eq_div mask_eq_exp_minus_1

lemma and_fields:
  fixes x :: nat
  shows "x AND 0x3F = x mod 64" and "x AND 0x1F = x mod 32" and "x AND 0x0F = x mod 16" and "x AND 0x07 = x mod 8"
    and "x AND 0xC0 = x div 64 mod 4 * 64" and "x AND 0xE0 = x div 32 mod 8 * 32"
    and "x AND 0xF0 = x div 16 mod 16 * 16" and "x AND 0xF8 = x div 8 mod 32 * 8"
proof -
  show "x AND 0x3F = x mod 64" using and_field [of x 0 6] by (simp add: field_simps_nat)
  show "x AND 0x1F = x mod 32" using and_field [of x 0 5] by (simp add: field_simps_nat)
  show "x AND 0x0F = x mod 16" using and_field [of x 0 4] by (simp add: field_simps_nat)
  show "x AND 0x07 = x mod 8" using and_field [of x 0 3] by (simp add: field_simps_nat)
  show "x AND 0xC0 = x div 64 mod 4 * 64" using and_field [of x 6 2] by (simp add: field_simps_nat)
  show "x AND 0xE0 = x div 32 mod 8 * 32" using and_field [of x 5 3] by (simp add: field_simps_nat)
  show "x AND 0xF0 = x div 16 mod 16 * 16" using and_field [of x 4 4] by (simp add: field_simps_nat)
  show "x AND 0xF8 = x div 8 mod 32 * 8" using and_field [of x 3 5] by (simp add: field_simps_nat)
qed

lemma or_high: "y < 2 ^ n \<Longrightarrow> push_bit n x OR y = push_bit n x + y" for x y :: nat
proof -
  assume "y < 2 ^ n"
  then have "take_bit n y = y" by (simp add: take_bit_nat_eq_self)
  then have "\<not> bit y k" if "n \<le> k" for k using that by (metis bit_take_bit_iff not_le)
  then have "push_bit n x AND y = 0" by (intro bit_eqI) (auto simp: bit_and_iff bit_push_bit_iff)
  then show ?thesis by (rule disjunctive_add_eq_or [symmetric])
qed

lemma or_fields:
  fixes x :: nat
  shows "x < 64 \<Longrightarrow> 0x80 OR x = 128 + x" and "x < 32 \<Longrightarrow> 0xC0 OR x = 192 + x"
    and "x < 16 \<Longrightarrow> 0xE0 OR x = 224 + x" and "x < 8 \<Longrightarrow> 0xF0 OR x = 240 + x"
    and "x < 64 \<Longrightarrow> push_bit 6 y OR x = y * 64 + x"
  using or_high [of x 6 2] or_high [of x 5 6] or_high [of x 4 14] or_high [of x 3 30] or_high [of x 6 y]
  by (simp_all add: push_bit_eq_mult)

lemma of_char_of_nat: "b < 256 \<Longrightarrow> of_char (char_of b) = (b :: nat)"
  by (simp add: of_char_of)

text \<open>The encoding of a codepoint, with its bytes as numbers.\<close>

definition utf8_bytes :: "nat \<Rightarrow> nat list" where
  "utf8_bytes cp =
     (if cp < 0x80 then [cp]
      else if cp < 0x800 then [192 + cp div 64, 128 + cp mod 64]
      else if cp < 0x10000 then [224 + cp div 4096, 128 + cp div 64 mod 64, 128 + cp mod 64]
      else [240 + cp div 262144, 128 + cp div 4096 mod 64, 128 + cp div 64 mod 64, 128 + cp mod 64])"

lemma append_utf8_eq:
  assumes "cp < 0x110000"
  shows "append_utf8 out cp = out @ map char_of (utf8_bytes cp)"
proof -
  have "cp < 0x800 \<Longrightarrow> cp div 64 < 32" "cp < 0x10000 \<Longrightarrow> cp div 4096 < 16" "cp div 262144 < 8"
    using assms by (auto simp: less_mult_imp_div_less)
  then show ?thesis
    by (simp add: append_utf8_def utf8_bytes_def and_fields or_fields drop_bit_eq_div)
qed

lemma utf8_bytes_256: "cp < 0x110000 \<Longrightarrow> b \<in> set (utf8_bytes cp) \<Longrightarrow> b < 256"
proof -
  have m: "x mod 64 < 64" for x :: nat by simp
  assume "cp < 0x110000" "b \<in> set (utf8_bytes cp)"
  moreover have "cp < 0x800 \<Longrightarrow> cp div 64 < 32" "cp < 0x10000 \<Longrightarrow> cp div 4096 < 16" "cp < 0x110000 \<Longrightarrow> cp div 262144 < 8"
    by (auto simp: less_mult_imp_div_less)
  ultimately show ?thesis
    using m [of cp] m [of "cp div 64"] m [of "cp div 4096"]
    by (auto simp: utf8_bytes_def split: if_splits; linarith)
qed

lemma radix: "x < n \<Longrightarrow> (k * n + x) div n = k \<and> (k * n + x) mod n = x" for x n k :: nat
  by simp

lemma lead_fields:
  fixes x :: nat
  shows "x < 64 \<Longrightarrow> (128 + x) div 64 = 2 \<and> (128 + x) mod 64 = x"
    and "x < 32 \<Longrightarrow> (192 + x) div 32 = 6 \<and> (192 + x) mod 32 = x"
    and "x < 16 \<Longrightarrow> (224 + x) div 32 = 7 \<and> (224 + x) div 16 = 14 \<and> (224 + x) mod 16 = x"
    and "x < 8 \<Longrightarrow> (240 + x) div 32 = 7 \<and> (240 + x) div 16 = 15 \<and> (240 + x) div 8 = 30 \<and> (240 + x) mod 8 = x"
  using radix [of x 64 2] radix [of x 32 6] radix [of x 32 7] radix [of x 16 14] radix [of x 16 15] radix [of x 8 30]
  by simp_all

lemma decode_append_utf8:
  assumes "cp < 0x110000"
  shows "decode_utf8 (pre @ append_utf8 [] cp @ rest) (length pre) = Some (cp, length pre + length (utf8_bytes cp))"
proof -
  have enc: "append_utf8 [] cp = map char_of (utf8_bytes cp)" using append_utf8_eq [OF assms] by simp
  have b: "of_char (char_of x) = x" if "x \<in> set (utf8_bytes cp)" for x :: nat
    using utf8_bytes_256 [OF assms that] by (rule of_char_of_nat)
  have lead: "byte_at (pre @ map char_of (utf8_bytes cp) @ rest) (length pre) = hd (utf8_bytes cp)"
    using b by (cases "utf8_bytes cp") (auto simp: byte_at_def nth_append utf8_bytes_def split: if_splits)
  have rst: "drop (length pre + 1) (pre @ map char_of (utf8_bytes cp) @ rest) = map char_of (tl (utf8_bytes cp)) @ rest"
    by (cases "utf8_bytes cp") (auto simp: utf8_bytes_def split: if_splits)
  have dv: "cp < 0x800 \<Longrightarrow> cp div 64 < 32" "cp < 0x10000 \<Longrightarrow> cp div 4096 < 16" "cp div 262144 < 8"
    using assms by (auto simp: less_mult_imp_div_less)
  have q: "cp div 4096 = cp div 64 div 64" "cp div 262144 = cp div 64 div 64 div 64"
    by (simp_all add: div_mult2_eq [symmetric])
  consider "cp < 0x80" | "\<not> cp < 0x80" "cp < 0x800" | "\<not> cp < 0x800" "cp < 0x10000" | "\<not> cp < 0x10000" by linarith
  then show ?thesis
  proof cases
    case 1
    then show ?thesis using lead rst by (simp add: enc decode_utf8_def Let_def utf8_bytes_def)
  next
    case 2
    then show ?thesis using lead rst b dv(1)
      by (simp add: enc decode_utf8_def Let_def utf8_bytes_def and_fields or_fields lead_fields)
  next
    case 3
    have r: "(cp div 4096 * 64 + cp div 64 mod 64) * 64 + cp mod 64 = cp"
      unfolding q(1) div_mult_mod_eq by (rule refl)
    have m: "cp div 64 mod 64 < 64" "cp mod 64 < 64" by simp_all
    have "decode_utf8 (pre @ map char_of (utf8_bytes cp) @ rest) (length pre) =
        Some ((cp div 4096 * 64 + cp div 64 mod 64) * 64 + cp mod 64, length pre + 3)"
      using lead rst b dv(2) m 3
      by (simp add: decode_utf8_def Let_def utf8_bytes_def and_fields or_fields lead_fields numeral_2_eq_2 numeral_3_eq_3 del: mult_Suc_right)
    then show ?thesis using 3 unfolding r enc by (simp add: utf8_bytes_def)
  next
    case 4
    have r: "((cp div 262144 * 64 + cp div 4096 mod 64) * 64 + cp div 64 mod 64) * 64 + cp mod 64 = cp"
      unfolding q div_mult_mod_eq by (rule refl)
    have m: "cp div 4096 mod 64 < 64" "cp div 64 mod 64 < 64" "cp mod 64 < 64" by simp_all
    have "decode_utf8 (pre @ map char_of (utf8_bytes cp) @ rest) (length pre) =
        Some (((cp div 262144 * 64 + cp div 4096 mod 64) * 64 + cp div 64 mod 64) * 64 + cp mod 64, length pre + 4)"
      using lead rst b dv(3) m 4
      by (simp add: decode_utf8_def Let_def utf8_bytes_def and_fields or_fields lead_fields numeral_2_eq_2 numeral_3_eq_3 del: mult_Suc_right)
    then show ?thesis using 4 unfolding r enc by (simp add: utf8_bytes_def)
  qed
qed

section \<open>Classification and lossy conversion\<close>

text \<open>The continuation count and second-byte range of a lead byte.\<close>

definition lead_class :: "nat \<Rightarrow> (nat \<times> nat \<times> nat) option" where
  "lead_class lead =
     (if 0xC2 \<le> lead \<and> lead \<le> 0xDF then Some (1, 0x80, 0xBF)
      else if 0xE0 \<le> lead \<and> lead \<le> 0xEF then
        Some (2, if lead = 0xE0 then 0xA0 else 0x80, if lead \<noteq> 0xE0 \<and> lead = 0xED then 0x9F else 0xBF)
      else if 0xF0 \<le> lead \<and> lead \<le> 0xF4 then
        Some (3, if lead = 0xF0 then 0x90 else 0x80, if lead \<noteq> 0xF0 \<and> lead = 0xF4 then 0x8F else 0xBF)
      else None)"

lemma lead_class_le: "lead_class lead = Some (n, lo, hi) \<Longrightarrow> n \<le> 3"
  by (auto simp: lead_class_def split: if_splits)

lemma classify_cases:
  "classify_utf8_prefix bytes =
    (if byte_at bytes 0 < 0x80 then \<lparr>uc_kind = kComplete, uc_length = 1\<rparr>
     else case lead_class (byte_at bytes 0) of
       None \<Rightarrow> \<lparr>uc_kind = kInvalid, uc_length = 1\<rparr>
     | Some (n, lo, hi) \<Rightarrow> classify_cont bytes 1 n (Suc n) lo hi)"
  by (simp add: classify_utf8_prefix_def lead_class_def Let_def numeral_2_eq_2 numeral_3_eq_3 eval_nat_numeral(3) [of "num.Bit0 num.One"])

lemma classify_cont_append:
  "uc_kind (classify_cont bytes i n len lo hi) \<noteq> kIncomplete \<Longrightarrow>
   classify_cont (bytes @ rest) i n len lo hi = classify_cont bytes i n len lo hi"
proof (induction n arbitrary: i)
  case (Suc n)
  have i: "i < length bytes" using Suc.prems by (auto split: if_splits)
  then have b: "byte_at (bytes @ rest) i = byte_at bytes i" by (simp add: byte_at_def nth_append)
  show ?case using Suc.IH [of "i + 1"] Suc.prems i by (simp add: b Let_def split del: if_split split: if_split_asm)
qed simp

lemma classify_append:
  assumes "bytes \<noteq> []" and "uc_kind (classify_utf8_prefix bytes) \<noteq> kIncomplete"
  shows "classify_utf8_prefix (bytes @ rest) = classify_utf8_prefix bytes"
proof -
  have b: "byte_at (bytes @ rest) 0 = byte_at bytes 0" using assms(1) by (simp add: byte_at_def nth_append)
  show ?thesis
    using assms(2) unfolding classify_cases [of bytes] classify_cases [of "bytes @ rest"] b
    by (cases "lead_class (byte_at bytes 0)") (simp_all add: classify_cont_append split: if_split_asm prod.split_asm)
qed

lemma classify_cont_le:
  "i \<le> length bytes \<Longrightarrow> i + n = len \<Longrightarrow> uc_length (classify_cont bytes i n len lo hi) \<le> length bytes"
proof (induction n arbitrary: i)
  case (Suc n)
  show ?case
    using Suc.IH [of "i + 1"] Suc.prems by (simp add: Let_def)
qed simp

lemma classify_le:
  assumes "bytes \<noteq> []"
  shows "uc_length (classify_utf8_prefix bytes) \<le> length bytes"
proof -
  have "1 \<le> length bytes" using assms by (cases bytes) auto
  then show ?thesis
    by (simp add: classify_cases classify_cont_le split: option.split)
qed

lemma classify_cont_incomplete:
  "uc_kind (classify_cont bytes i n len lo hi) = kIncomplete \<Longrightarrow> i + n = len \<Longrightarrow> i \<le> length bytes \<Longrightarrow>
   uc_length (classify_cont bytes i n len lo hi) = length bytes \<and> length bytes < len"
proof (induction n arbitrary: i)
  case (Suc n)
  show ?case
    using Suc.IH [of "i + 1"] Suc.prems by (simp add: Let_def split: if_splits)
qed simp

text \<open>An incomplete sequence is the whole remainder, at most three bytes.\<close>

lemma classify_incomplete:
  assumes "bytes \<noteq> []" and "uc_kind (classify_utf8_prefix bytes) = kIncomplete"
  shows "uc_length (classify_utf8_prefix bytes) = length bytes" and "length bytes \<le> 3"
proof -
  have l: "1 \<le> length bytes" using assms(1) by (cases bytes) auto
  obtain n lo hi where c: "\<not> byte_at bytes 0 < 0x80" "lead_class (byte_at bytes 0) = Some (n, lo, hi)"
    using assms(2) by (auto simp: classify_cases split: if_split_asm option.split_asm)
  have "uc_length (classify_cont bytes 1 n (Suc n) lo hi) = length bytes \<and> length bytes < Suc n"
    using assms(2) c l by (intro classify_cont_incomplete) (simp_all add: classify_cases)
  then show "uc_length (classify_utf8_prefix bytes) = length bytes" "length bytes \<le> 3"
    using c lead_class_le [OF c(2)] by (simp_all add: classify_cases)
qed

lemma classify_cont_take:
  "uc_kind (classify_cont bytes i n len lo hi) = kComplete \<Longrightarrow> i + n = len \<Longrightarrow>
   uc_length (classify_cont bytes i n len lo hi) = len \<and>
   classify_cont (take len bytes) i n len lo hi = classify_cont bytes i n len lo hi"
proof (induction n arbitrary: i)
  case (Suc n)
  have i: "i < length bytes" using Suc.prems by (auto split: if_splits)
  then have b: "byte_at (take len bytes) i = byte_at bytes i" "\<not> min (length bytes) len \<le> i"
    using Suc.prems by (simp_all add: byte_at_def)
  show ?case using Suc.IH [of "i + 1"] Suc.prems i by (simp add: b Let_def split del: if_split split: if_split_asm)
qed simp

lemma classify_complete:
  assumes "bytes \<noteq> []" and "uc_kind (classify_utf8_prefix bytes) = kComplete"
  shows "classify_utf8_prefix (take (uc_length (classify_utf8_prefix bytes)) bytes @ rest) =
    classify_utf8_prefix bytes"
proof -
  let ?n = "uc_length (classify_utf8_prefix bytes)"
  have n: "0 < ?n" by (rule classify_length [OF assms(1)])
  have b0: "byte_at (take ?n bytes) 0 = byte_at bytes 0" using n by (simp add: byte_at_def)
  have "classify_utf8_prefix (take ?n bytes) = classify_utf8_prefix bytes"
  proof (cases "byte_at bytes 0 < 0x80")
    case True
    then show ?thesis using b0 by (simp add: classify_cases)
  next
    case False
    then obtain m lo hi where c: "lead_class (byte_at bytes 0) = Some (m, lo, hi)"
      using assms(2) by (auto simp: classify_cases split: option.split_asm)
    then have e: "classify_utf8_prefix bytes = classify_cont bytes 1 m (Suc m) lo hi" using False by (simp add: classify_cases)
    have t: "?n = Suc m" "classify_cont (take (Suc m) bytes) 1 m (Suc m) lo hi = classify_cont bytes 1 m (Suc m) lo hi"
      using classify_cont_take [of bytes 1 m "Suc m" lo hi] assms(2) unfolding e by simp_all
    show ?thesis using False c t b0 by (subst classify_cases) (simp add: e)
  qed
  moreover have "take ?n bytes \<noteq> []" using n assms(1) by auto
  ultimately show ?thesis using classify_append [of "take ?n bytes" rest] assms(2) by simp
qed

lemma append_utf8_acc: "append_utf8 out cp = out @ append_utf8 [] cp"
  by (simp add: append_utf8_def)

lemma lossy_acc: "append_utf8_lossy out bytes = out @ append_utf8_lossy [] bytes"
proof (induction "length bytes" arbitrary: out bytes rule: less_induct)
  case less
  show ?case
  proof (cases "bytes = []")
    case False
    let ?p = "classify_utf8_prefix bytes"
    have "length (drop (uc_length ?p) bytes) < length bytes" using classify_length [OF False] False by simp
    note IH = less.hyps [OF this]
    have l: "append_utf8_lossy o1 bytes = append_utf8_lossy
        (if uc_kind ?p = kComplete then o1 @ take (uc_length ?p) bytes else append_utf8 o1 0xFFFD) (drop (uc_length ?p) bytes)" for o1
      using False by (subst append_utf8_lossy.simps) (simp add: Let_def)
    show ?thesis
      unfolding l [of out] l [of "[]"] IH [of "if _ then _ else _"]
      by (simp add: append_utf8_acc [of out])
  qed (simp add: append_utf8_lossy.simps)
qed

lemma lossy_Nil [simp]: "append_utf8_lossy out [] = out"
  by (simp add: append_utf8_lossy.simps)

lemma lossy_step:
  assumes "bytes \<noteq> []"
  shows "append_utf8_lossy [] bytes =
    (let p = classify_utf8_prefix bytes in
     (if uc_kind p = kComplete then take (uc_length p) bytes else append_utf8 [] 0xFFFD) @
     append_utf8_lossy [] (drop (uc_length p) bytes))"
  using assms by (subst append_utf8_lossy.simps) (simp add: Let_def lossy_acc [of "take _ _"] lossy_acc [of "append_utf8 _ _"])

lemma lossy_replacement: "append_utf8_lossy [] (append_utf8 [] 0xFFFD @ rest) = append_utf8 [] 0xFFFD @ append_utf8_lossy [] rest"
proof -
  have enc: "append_utf8 [] 0xFFFD = [char_of (239 :: nat), char_of (191 :: nat), char_of (189 :: nat)]"
    by (simp add: append_utf8_eq utf8_bytes_def)
  have f: "classify_utf8_prefix (append_utf8 [] 0xFFFD) = \<lparr>uc_kind = kComplete, uc_length = 3\<rparr>"
    by (simp add: enc classify_cases lead_class_def byte_at_def numeral_2_eq_2)
  have c: "classify_utf8_prefix (append_utf8 [] 0xFFFD @ rest) = classify_utf8_prefix (append_utf8 [] 0xFFFD)"
    by (rule classify_append) (simp_all add: f, simp add: enc)
  have l: "length (append_utf8 [] 0xFFFD) = 3" by (simp add: enc)
  then have "append_utf8 [] 0xFFFD @ rest \<noteq> []" by auto
  from lossy_step [OF this] show ?thesis by (simp add: c f l Let_def)
qed

section \<open>Properties\<close>

text \<open>Every scalar codepoint survives the codec: decoding at the position of its encoding, whatever
  surrounds it, gives the codepoint back and stops right after it.\<close>

theorem utf8_roundtrip:
  assumes "cp < 0x110000"
  shows "decode_utf8 (pre @ append_utf8 [] cp @ rest) (length pre) = Some (cp, length (pre @ append_utf8 [] cp))"
  using decode_append_utf8 [OF assms] append_utf8_eq [OF assms, of "[]"] by simp

theorem utf8_roundtrip_witness:
  "decode_utf8 (''a'' @ append_utf8 [] 0x1F600 @ ''b'') 1 = Some (0x1F600, 5)"
proof -
  have "length (''a'' @ append_utf8 [] 0x1F600) = 5" by (simp add: append_utf8_eq utf8_bytes_def)
  then show ?thesis using utf8_roundtrip [of "0x1F600" "''a''" "''b''"] by simp
qed

text \<open>Lossy conversion always yields well-formed UTF-8: converting its result again changes nothing, so
  no ill-formed byte is left in it.\<close>

theorem lossy_is_valid:
  "append_utf8_lossy [] (append_utf8_lossy [] bytes) = append_utf8_lossy [] bytes"
proof (induction "length bytes" arbitrary: bytes rule: less_induct)
  case less
  show ?case
  proof (cases "bytes = []")
    case False
    let ?p = "classify_utf8_prefix bytes"
    let ?r = "append_utf8_lossy [] (drop (uc_length ?p) bytes)"
    have "length (drop (uc_length ?p) bytes) < length bytes" using classify_length [OF False] False by simp
    note IH = less.hyps [OF this]
    show ?thesis
    proof (cases "uc_kind ?p = kComplete")
      case True
      let ?t = "take (uc_length ?p) bytes"
      have c: "classify_utf8_prefix (?t @ ?r) = ?p" by (rule classify_complete [OF False True])
      have t: "?t @ ?r \<noteq> []" "length ?t = uc_length ?p" using classify_length [OF False] classify_le [OF False] False by auto
      have "append_utf8_lossy [] (?t @ ?r) = ?t @ append_utf8_lossy [] ?r"
        using lossy_step [OF t(1)] True c t(2) by (simp add: Let_def)
      then show ?thesis using lossy_step [OF False] True IH by (simp add: Let_def)
    next
      case bad: False
      then show ?thesis using lossy_step [OF False] IH lossy_replacement [of ?r] by (simp add: Let_def)
    qed
  qed simp
qed

text \<open>Hangul composition inverts decomposition: for each of the 11172 precomposed syllables, composing
  its leading consonant, vowel and optional trailing consonant in order gives the syllable back.\<close>

definition compose_all :: "UnicodeData \<Rightarrow> nat list \<Rightarrow> nat option" where
  "compose_all ud cps = (case cps of [] \<Rightarrow> None
     | c # cs \<Rightarrow> fold (\<lambda>d acc. case acc of None \<Rightarrow> None | Some a \<Rightarrow> ComposePair ud a d) cs (Some c))"

theorem hangul_roundtrip:
  assumes "kHangulSBase \<le> s" and "s < kHangulSBase + kHangulSCount"
  shows "compose_all ud (decompose_one ud s) = Some s"
proof -
  define i where "i = s - kHangulSBase"
  have i: "s = 0xAC00 + i" "i < 11172" using assms by (auto simp: i_def hangul_defs)
  let ?l = "i div 588" and ?v = "i mod 588 div 28" and ?t = "i mod 28"
  have l: "?l < 19" "?v < 21" "?t < 28" using i(2) by (auto simp: less_mult_imp_div_less)
  have "i mod 588 mod 28 = i mod 28" by (rule mod_mod_cancel) simp
  then have "?v * 28 + ?t = i mod 588" using div_mult_mod_eq [of "i mod 588" 28] by simp
  moreover have "?l * 588 + i mod 588 = i" by (rule div_mult_mod_eq)
  moreover have "(l * 21 + v) * 28 + t = l * 588 + (v * 28 + t)" for l v t :: nat by simp
  ultimately have e: "(?l * 21 + ?v) * 28 + ?t = i" by metis
  have lv: "ComposePair ud (0x1100 + ?l) (0x1161 + ?v) = Some (0xAC00 + (?l * 21 + ?v) * 28)"
    using l by (simp add: ComposePair_def hangul_defs Let_def)
  have d: "decompose_one ud s = [0x1100 + ?l, 0x1161 + ?v] @ (if ?t \<noteq> 0 then [0x11A7 + ?t] else [])"
    using i by (simp add: decompose_one_def DecomposeHangul_def hangul_defs Let_def)
  show ?thesis
  proof (cases "?t = 0")
    case True
    have "compose_all ud (decompose_one ud s) = Some (0xAC00 + (?l * 21 + ?v) * 28)"
      unfolding d using True lv by (simp add: compose_all_def)
    then show ?thesis using e True i(1) by simp
  next
    case False
    have lt: "(?l * 21 + ?v) * 28 < 11172" using e i(2) by linarith
    have "ComposePair ud (0xAC00 + (?l * 21 + ?v) * 28) (0x11A7 + ?t) = Some (0xAC00 + (?l * 21 + ?v) * 28 + ?t)"
      using False l(3) lt by (simp add: ComposePair_def hangul_defs Let_def)
    then have "compose_all ud (decompose_one ud s) = Some (0xAC00 + (?l * 21 + ?v) * 28 + ?t)"
      unfolding d using False lv by (simp add: compose_all_def)
    then show ?thesis using e i(1) by (simp add: add.assoc)
  qed
qed

definition no_tables :: UnicodeData where
  "no_tables = \<lparr>kLetterRanges = [(65, 90), (97, 122)], kNumberRanges = [(48, 57)], kWhitespaceRanges = [(9, 13), (32, 32)],
     kNfcNoOrMaybeRanges = [], kCccRanges = [], kDecompPool = [], kDecompEntries = [], kCompEntries = []\<rparr>"

theorem hangul_roundtrip_witness:
  "decompose_one no_tables 0xD55C = [0x1112, 0x1161, 0x11AB] \<and> compose_all no_tables (decompose_one no_tables 0xD55C) = Some 0xD55C"
  using hangul_roundtrip [of "0xD55C" no_tables]
  by (simp add: decompose_one_def DecomposeHangul_def hangul_defs)

end
