(* ===== verification/Bpe.thy ===== *)
theory Bpe
  imports Unicode
begin

text \<open>
  The byte-level BPE alphabet and merge loop, \<open>src/src/tokenizer/bpe.{h,cpp}\<close>: the bijection between
  bytes and printable codepoints as the two tables the code builds, its extension to byte strings, and
  the merge loop, which is shown to reach the normal form of the relation that merges the leftmost
  occurrence of the best-ranked adjacent pair. A symbol, in the code a view into the word, is the
  string it covers.
\<close>

section \<open>The alphabet\<close>

definition IsPrintableLatin :: "nat \<Rightarrow> bool" where
  "IsPrintableLatin byte \<longleftrightarrow> (33 \<le> byte \<and> byte \<le> 126) \<or> (0xA1 \<le> byte \<and> byte \<le> 0xAC) \<or> (0xAE \<le> byte \<and> byte \<le> 0xFF)"

definition kInverseSize :: nat where "kInverseSize = 0x144"

record AlphabetTables =
  to_alphabet :: "nat list"
  to_byte :: "int list"

definition table_step :: "nat \<Rightarrow> nat \<times> AlphabetTables \<Rightarrow> nat \<times> AlphabetTables" where
  "table_step byte st =
     (case st of (next_remapped, tables) \<Rightarrow>
        let codepoint = (if IsPrintableLatin byte then byte else next_remapped) in
        (if IsPrintableLatin byte then next_remapped else next_remapped + 1,
         \<lparr>to_alphabet = (to_alphabet tables)[byte := codepoint], to_byte = (to_byte tables)[codepoint := int byte]\<rparr>))"

definition BuildTables :: AlphabetTables where
  "BuildTables =
     snd (fold table_step [0..<256] (0x100, \<lparr>to_alphabet = replicate 256 0, to_byte = replicate kInverseSize (- 1)\<rparr>))"

definition byte_to_alphabet :: "nat \<Rightarrow> nat" where
  "byte_to_alphabet byte = to_alphabet BuildTables ! byte"

definition alphabet_to_byte :: "nat \<Rightarrow> nat option" where
  "alphabet_to_byte codepoint =
     (if kInverseSize \<le> codepoint \<or> to_byte BuildTables ! codepoint < 0 then None
      else Some (nat (to_byte BuildTables ! codepoint)))"

definition map_bytes_to_alphabet :: "string \<Rightarrow> string" where
  "map_bytes_to_alphabet raw = fold (\<lambda>c out. append_utf8 out (byte_to_alphabet (of_char c))) raw []"

function unmap_loop :: "string \<Rightarrow> nat \<Rightarrow> string \<Rightarrow> string status_or" where
  "unmap_loop token pos out =
     (if length token \<le> pos then Inr out
      else case decode_utf8 token pos of
        None \<Rightarrow> InvalidArgumentError
      | Some (codepoint, pos') \<Rightarrow>
          (case alphabet_to_byte codepoint of
             None \<Rightarrow> InvalidArgumentError
           | Some byte \<Rightarrow> unmap_loop token pos' (out @ [char_of byte])))"
  by pat_completeness auto

termination by (relation "measure (\<lambda>(t, pos, o'). length t - pos)") (auto dest: decode_utf8_advance)

declare unmap_loop.simps [simp del]

definition unmap_alphabet_to_bytes :: "string \<Rightarrow> string status_or" where
  "unmap_alphabet_to_bytes token = unmap_loop token 0 []"

section \<open>The merge loop\<close>

text \<open>A merge key is \<open>left + ' ' + right\<close>; a missing key has no rank.\<close>

type_synonym merge_ranks = "string \<Rightarrow> int option"

function initial_symbols :: "string \<Rightarrow> string list" where
  "initial_symbols word =
     (case word of
        [] \<Rightarrow> []
      | c # cs \<Rightarrow>
          let cont = (\<lambda>b. (of_char b AND 0xC0) = (0x80 :: nat)) in
          (c # takeWhile cont cs) # initial_symbols (dropWhile cont cs))"
  by pat_completeness auto

termination by (relation "measure length") (auto simp: less_Suc_eq_le length_dropWhile_le)

declare initial_symbols.simps [simp del]

definition merge_key :: "string list \<Rightarrow> nat \<Rightarrow> string" where
  "merge_key symbols i = symbols ! i @ '' '' @ symbols ! (i + 1)"

definition best_pair :: "merge_ranks \<Rightarrow> string list \<Rightarrow> int \<times> nat" where
  "best_pair ranks symbols =
     fold (\<lambda>i (best_rank, best).
         case ranks (merge_key symbols i) of
           Some r \<Rightarrow> if r < best_rank then (r, i) else (best_rank, best)
         | None \<Rightarrow> (best_rank, best))
       [0..<length symbols - 1] (INT32_MAX, length symbols)"

definition merge_at :: "nat \<Rightarrow> string list \<Rightarrow> string list" where
  "merge_at best symbols =
     (let widened = symbols[best := symbols ! best @ symbols ! (best + 1)] in
      take (best + 1) widened @ drop (best + 2) widened)"

text \<open>What the scan finds among the first \<open>n\<close> pairs.\<close>

definition pair_rank :: "merge_ranks \<Rightarrow> string list \<Rightarrow> nat \<Rightarrow> int" where
  "pair_rank ranks symbols i = (case ranks (merge_key symbols i) of Some r \<Rightarrow> min r INT32_MAX | None \<Rightarrow> INT32_MAX)"

lemma best_pair_scan:
  assumes "n \<le> k"
  shows "case fold (\<lambda>i (best_rank, best).
         case ranks (merge_key symbols i) of
           Some r \<Rightarrow> if r < best_rank then (r, i) else (best_rank, best)
         | None \<Rightarrow> (best_rank, best)) [0..<n] (INT32_MAX, N) of (best_rank, best) \<Rightarrow>
    best_rank \<le> INT32_MAX \<and> (\<forall>j<n. best_rank \<le> pair_rank ranks symbols j) \<and>
    (best = N \<and> best_rank = INT32_MAX \<or>
     best < n \<and> ranks (merge_key symbols best) = Some best_rank \<and> best_rank < INT32_MAX \<and>
       (\<forall>j<best. best_rank < pair_rank ranks symbols j))"
  using assms
proof (induction n)
  case (Suc n)
  show ?case
    using Suc.IH Suc.prems
    by (auto simp: pair_rank_def less_Suc_eq split: option.splits prod.splits if_splits)
qed simp

lemma best_pair_spec:
  assumes "best_pair ranks symbols = (r, i)"
  shows "i \<noteq> length symbols \<Longrightarrow> Suc i < length symbols \<and> ranks (merge_key symbols i) = Some r \<and> r < INT32_MAX \<and>
      (\<forall>j<length symbols - 1. r \<le> pair_rank ranks symbols j) \<and> (\<forall>j<i. r < pair_rank ranks symbols j)"
    and "i = length symbols \<Longrightarrow> \<forall>j<length symbols - 1. pair_rank ranks symbols j = INT32_MAX"
proof -
  have s: "r \<le> INT32_MAX \<and> (\<forall>j<length symbols - 1. r \<le> pair_rank ranks symbols j) \<and>
    (i = length symbols \<and> r = INT32_MAX \<or>
     i < length symbols - 1 \<and> ranks (merge_key symbols i) = Some r \<and> r < INT32_MAX \<and>
       (\<forall>j<i. r < pair_rank ranks symbols j))"
    using best_pair_scan [of "length symbols - 1" "length symbols - 1" ranks symbols "length symbols"] assms
    by (simp add: best_pair_def)
  then show "i \<noteq> length symbols \<Longrightarrow> Suc i < length symbols \<and> ranks (merge_key symbols i) = Some r \<and> r < INT32_MAX \<and>
      (\<forall>j<length symbols - 1. r \<le> pair_rank ranks symbols j) \<and> (\<forall>j<i. r < pair_rank ranks symbols j)" by auto
  have "pair_rank ranks symbols j \<le> INT32_MAX" for j by (simp add: pair_rank_def split: option.split)
  then show "i = length symbols \<Longrightarrow> \<forall>j<length symbols - 1. pair_rank ranks symbols j = INT32_MAX"
    using s by (auto intro: antisym)
qed

lemma length_merge_at: "Suc i < length symbols \<Longrightarrow> length (merge_at i symbols) = length symbols - 1"
  by (simp add: merge_at_def Let_def)

lemma merge_shorter:
  "best_pair ranks symbols = (r, i) \<Longrightarrow> i \<noteq> length symbols \<Longrightarrow> length (merge_at i symbols) < length symbols"
  using best_pair_spec(1) [of ranks symbols r i] by (auto simp: length_merge_at)

function bpe_loop :: "merge_ranks \<Rightarrow> string list \<Rightarrow> string list" where
  "bpe_loop ranks symbols =
     (if 1 < length symbols then
        case best_pair ranks symbols of (best_rank, best) \<Rightarrow>
          if best = length symbols then symbols else bpe_loop ranks (merge_at best symbols)
      else symbols)"
  by pat_completeness auto

termination
  by (relation "measure (\<lambda>(r, s). length s)") (auto intro: merge_shorter [OF sym])

declare bpe_loop.simps [simp del]

definition bpe_split :: "string \<Rightarrow> merge_ranks \<Rightarrow> string list" where
  "bpe_split word ranks = bpe_loop ranks (initial_symbols word)"

section \<open>The tables are a bijection\<close>

text \<open>The image of a byte, without the tables: itself, or \<open>0x100\<close> plus its rank among the bytes that
  are not printable.\<close>

definition remap_rank :: "nat \<Rightarrow> nat" where
  "remap_rank b = card {x. x < b \<and> \<not> IsPrintableLatin x}"

definition alpha :: "nat \<Rightarrow> nat" where
  "alpha b = (if IsPrintableLatin b then b else 0x100 + remap_rank b)"

lemma remap_rank_Suc: "remap_rank (Suc b) = remap_rank b + (if IsPrintableLatin b then 0 else 1)"
proof -
  have f: "finite {x. x < b \<and> \<not> IsPrintableLatin x}" by simp
  have "{x. x < Suc b \<and> \<not> IsPrintableLatin x} =
      (if IsPrintableLatin b then {x. x < b \<and> \<not> IsPrintableLatin x} else insert b {x. x < b \<and> \<not> IsPrintableLatin x})"
    by (auto simp: less_Suc_eq)
  then show ?thesis using f by (auto simp: remap_rank_def)
qed

lemma remap_rank_mono: "b < b' \<Longrightarrow> \<not> IsPrintableLatin b \<Longrightarrow> remap_rank b < remap_rank b'"
  unfolding remap_rank_def by (rule psubset_card_mono) auto

lemma remap_rank_less:
  assumes "b < 256" and "\<not> IsPrintableLatin b"
  shows "remap_rank b < 68"
proof -
  have "{x. x < 256 \<and> \<not> IsPrintableLatin x} = {0..<33} \<union> ({127..<161} \<union> {173 :: nat})"
    by (auto simp: IsPrintableLatin_def)
  moreover have "card ({0..<33} \<union> ({127..<161} \<union> {173 :: nat})) = 68"
    by (subst card_Un_disjoint; force?)
  ultimately have "remap_rank 256 = 68" by (simp add: remap_rank_def)
  then show ?thesis using remap_rank_mono [OF assms] by simp
qed

lemma alpha_less: "b < 256 \<Longrightarrow> alpha b < kInverseSize"
  using remap_rank_less [of b] by (simp add: alpha_def kInverseSize_def)

lemma alpha_inj: "b < 256 \<Longrightarrow> b' < 256 \<Longrightarrow> alpha b = alpha b' \<Longrightarrow> b = b'"
  using remap_rank_mono [of b b'] remap_rank_mono [of b' b] nat_neq_iff [of b b']
  by (auto simp: alpha_def split: if_splits)

lemma table_fold:
  assumes "n \<le> 256"
  shows "\<exists>A B. fold table_step [0..<n] (0x100, \<lparr>to_alphabet = replicate 256 0, to_byte = replicate kInverseSize (- 1)\<rparr>) =
      (0x100 + remap_rank n, \<lparr>to_alphabet = A, to_byte = B\<rparr>) \<and> length A = 256 \<and> length B = kInverseSize \<and>
    (\<forall>b<n. A ! b = alpha b \<and> B ! alpha b = int b) \<and>
    (\<forall>cp<kInverseSize. cp \<notin> alpha ` {0..<n} \<longrightarrow> B ! cp = - 1)"
  using assms
proof (induction n)
  case 0
  show ?case by (simp add: remap_rank_def)
next
  case (Suc n)
  then obtain A B where IH: "fold table_step [0..<n] (0x100, \<lparr>to_alphabet = replicate 256 0, to_byte = replicate kInverseSize (- 1)\<rparr>) =
      (0x100 + remap_rank n, \<lparr>to_alphabet = A, to_byte = B\<rparr>)" "length A = 256" "length B = kInverseSize"
    "\<forall>b<n. A ! b = alpha b \<and> B ! alpha b = int b" "\<forall>cp<kInverseSize. cp \<notin> alpha ` {0..<n} \<longrightarrow> B ! cp = - 1" by auto
  have a: "(if IsPrintableLatin n then n else 0x100 + remap_rank n) = alpha n" by (simp add: alpha_def)
  have n: "n < 256" "alpha n < kInverseSize" using Suc.prems alpha_less by auto
  have ne: "alpha b \<noteq> alpha n" "alpha n \<noteq> alpha b" if "b < n" for b using alpha_inj [of b n] that n by auto
  have "fold table_step [0..<Suc n] (0x100, \<lparr>to_alphabet = replicate 256 0, to_byte = replicate kInverseSize (- 1)\<rparr>) =
      (0x100 + remap_rank (Suc n), \<lparr>to_alphabet = A[n := alpha n], to_byte = B[alpha n := int n]\<rparr>)"
    using IH(1) by (simp add: table_step_def a Let_def) (simp add: remap_rank_Suc)
  moreover have "\<forall>b<Suc n. A[n := alpha n] ! b = alpha b \<and> B[alpha n := int n] ! alpha b = int b"
    using IH(2-4) n ne by (auto simp: less_Suc_eq nth_list_update)
  moreover have "\<forall>cp<kInverseSize. cp \<notin> alpha ` {0..<Suc n} \<longrightarrow> B[alpha n := int n] ! cp = - 1"
  proof (intro allI impI)
    fix cp assume cp: "cp < kInverseSize" "cp \<notin> alpha ` {0..<Suc n}"
    have "alpha ` {0..<Suc n} = insert (alpha n) (alpha ` {0..<n})" by (simp add: atLeast0_lessThan_Suc)
    then show "B[alpha n := int n] ! cp = - 1" using cp IH(5) by simp
  qed
  ultimately show ?case using IH(2,3) by (metis length_list_update)
qed

lemma alphabet_maps:
  assumes "b < 256"
  shows "byte_to_alphabet b = alpha b" and "alphabet_to_byte (alpha b) = Some b"
  using table_fold [of 256] alpha_less [OF assms] assms
  by (auto simp: byte_to_alphabet_def alphabet_to_byte_def BuildTables_def)

lemma alphabet_to_byte_Some:
  assumes "alphabet_to_byte cp = Some b"
  shows "b < 256 \<and> cp = alpha b"
proof -
  have "cp < kInverseSize" using assms by (simp add: alphabet_to_byte_def split: if_splits)
  moreover have "\<not> to_byte BuildTables ! cp < 0" using assms by (simp add: alphabet_to_byte_def split: if_splits)
  ultimately have "cp \<in> alpha ` {0..<256}" using table_fold [of 256] by (auto simp: BuildTables_def)
  then obtain x where x: "x < 256" "cp = alpha x" by auto
  then show ?thesis using alphabet_maps(2) [OF x(1)] assms by simp
qed

lemma alpha_scalar: "b < 256 \<Longrightarrow> alpha b < 0x110000"
  using alpha_less [of b] by (simp add: kInverseSize_def)

text \<open>The alphabet image of one character.\<close>

definition alpha_utf8 :: "char \<Rightarrow> string" where
  "alpha_utf8 c = append_utf8 [] (alpha (of_char c))"

lemma map_bytes_concat: "map_bytes_to_alphabet raw = concat (map alpha_utf8 raw)"
proof -
  have "fold (\<lambda>c out. append_utf8 out (byte_to_alphabet (of_char c))) raw out = out @ concat (map alpha_utf8 raw)" for out
  proof (induction raw arbitrary: out)
    case (Cons c raw)
    have "append_utf8 out (byte_to_alphabet (of_char c)) = out @ alpha_utf8 c"
      unfolding alpha_utf8_def alphabet_maps(1) [OF nat_of_char_less_256] by (rule append_utf8_acc)
    then show ?case using Cons by simp
  qed simp
  from this [of "[]"] show ?thesis by (simp add: map_bytes_to_alphabet_def)
qed

lemma unmap_loop_concat:
  "unmap_loop (pre @ concat (map alpha_utf8 raw)) (length pre) out = Inr (out @ raw)"
proof (induction raw arbitrary: pre out)
  case Nil
  then show ?case by (subst unmap_loop.simps) simp
next
  case (Cons c raw)
  let ?b = "of_char c :: nat"
  have b: "?b < 256" by (rule nat_of_char_less_256)
  have d: "decode_utf8 (pre @ alpha_utf8 c @ concat (map alpha_utf8 raw)) (length pre) =
      Some (alpha ?b, length (pre @ alpha_utf8 c))"
    unfolding alpha_utf8_def [of c]
    using decode_append_utf8 [OF alpha_scalar [OF b]] append_utf8_eq [OF alpha_scalar [OF b], of "[]"] by simp
  then have lt: "length pre < length (pre @ alpha_utf8 c @ concat (map alpha_utf8 raw))"
    using decode_utf8_advance by fastforce
  show ?case
    using Cons.IH [of "pre @ alpha_utf8 c" "out @ [c]"] lt
    by (subst unmap_loop.simps) (simp add: d alphabet_maps(2) [OF b])
qed

lemma unmap_map: "unmap_alphabet_to_bytes (map_bytes_to_alphabet raw) = Inr raw"
  using unmap_loop_concat [of "[]" raw "[]"] by (simp add: unmap_alphabet_to_bytes_def map_bytes_concat)

section \<open>The merge relation\<close>

text \<open>One merge: the leftmost of the best-ranked adjacent pairs.\<close>

inductive bpe_step :: "merge_ranks \<Rightarrow> string list \<Rightarrow> string list \<Rightarrow> bool" for ranks where
  merge: "Suc i < length symbols \<Longrightarrow> ranks (merge_key symbols i) = Some r \<Longrightarrow> r < INT32_MAX \<Longrightarrow>
    \<forall>j<length symbols - 1. r \<le> pair_rank ranks symbols j \<Longrightarrow> \<forall>j<i. r < pair_rank ranks symbols j \<Longrightarrow>
    bpe_step ranks symbols (merge_at i symbols)"

inductive_cases bpe_stepE: "bpe_step ranks symbols t"

lemma bpe_step_det: "bpe_step ranks s t \<Longrightarrow> bpe_step ranks s t' \<Longrightarrow> t = t'"
proof (elim bpe_stepE, goal_cases)
  case (1 i r i' r')
  have "pair_rank ranks s i = r" "pair_rank ranks s i' = r'" using 1 by (simp_all add: pair_rank_def)
  moreover have "i < length s - 1" "i' < length s - 1" using 1 by auto
  ultimately have le: "r \<le> r'" "r' \<le> r" and lt: "i < i' \<Longrightarrow> r' < r" "i' < i \<Longrightarrow> r < r'" using 1 by force+
  then have "i = i'" using linorder_neqE_nat [of i i'] by fastforce
  then show ?case using 1 by simp
qed

lemma merge_at_eq:
  assumes "Suc i < length symbols"
  shows "merge_at i symbols = take i symbols @ (symbols ! i @ symbols ! Suc i) # drop (Suc (Suc i)) symbols"
  using assms by (simp add: merge_at_def Let_def take_Suc_conv_app_nth)

lemma concat_merge_at:
  assumes "Suc i < length symbols"
  shows "concat (merge_at i symbols) = concat symbols"
proof -
  have "symbols = take i symbols @ symbols ! i # symbols ! Suc i # drop (Suc (Suc i)) symbols"
    using assms by (simp add: Cons_nth_drop_Suc)
  then have "concat symbols = concat (take i symbols @ symbols ! i # symbols ! Suc i # drop (Suc (Suc i)) symbols)" by simp
  then show ?thesis by (simp add: merge_at_eq [OF assms])
qed

lemma concat_initial_symbols: "concat (initial_symbols word) = word"
  by (induction word rule: initial_symbols.induct) (subst initial_symbols.simps, auto simp: Let_def split: list.splits)

lemma initial_symbols_nonempty: "s \<in> set (initial_symbols word) \<Longrightarrow> s \<noteq> []"
  by (induction word rule: initial_symbols.induct) (subst (asm) initial_symbols.simps, auto simp: Let_def split: list.splits)

lemma bpe_loop_normal_form:
  "(bpe_step ranks)\<^sup>*\<^sup>* symbols (bpe_loop ranks symbols) \<and> (\<nexists>t. bpe_step ranks (bpe_loop ranks symbols) t) \<and>
   concat (bpe_loop ranks symbols) = concat symbols"
proof (induction "length symbols" arbitrary: symbols rule: less_induct)
  case less
  obtain r i where b: "best_pair ranks symbols = (r, i)" by force
  note sp = best_pair_spec [OF b]
  show ?case
  proof (cases "1 < length symbols \<and> i \<noteq> length symbols")
    case True
    then have i: "Suc i < length symbols" and st: "bpe_step ranks symbols (merge_at i symbols)"
      using sp(1) by (auto intro!: bpe_step.merge)
    have l: "bpe_loop ranks symbols = bpe_loop ranks (merge_at i symbols)"
      using True b by (subst bpe_loop.simps) simp
    have "length (merge_at i symbols) < length symbols" using merge_shorter [OF b] True by simp
    from less.hyps [OF this] st show ?thesis
      unfolding l by (auto simp: concat_merge_at [OF i] intro: converse_rtranclp_into_rtranclp)
  next
    case False
    then have l: "bpe_loop ranks symbols = symbols" using b by (subst bpe_loop.simps) auto
    have "\<not> bpe_step ranks symbols t" for t
    proof
      assume "bpe_step ranks symbols t"
      then obtain j r' where j: "Suc j < length symbols" "ranks (merge_key symbols j) = Some r'" "r' < INT32_MAX"
        by (elim bpe_stepE) blast
      then have "i = length symbols" using False by auto
      then have "pair_rank ranks symbols j = INT32_MAX" using sp(2) j(1) by simp
      then show False using j by (simp add: pair_rank_def)
    qed
    then show ?thesis unfolding l by simp
  qed
qed

section \<open>Properties\<close>

text \<open>The byte-level alphabet loses nothing: mapping any bytes into it and back returns them.\<close>

theorem alphabet_roundtrip:
  "unmap_alphabet_to_bytes (map_bytes_to_alphabet raw) = Inr raw"
  by (rule unmap_map)

text \<open>C23. The merge loop computes the normal form of greedy merging: its result is reached from the word's
  symbols by merges that each take the leftmost occurrence of the best-ranked adjacent pair, a merge
  is never ambiguous, no further merge applies to the result, and its symbols concatenate to the word.\<close>

theorem bpe_split_normal_form:
  "(bpe_step ranks)\<^sup>*\<^sup>* (initial_symbols word) (bpe_split word ranks) \<and>
   (\<nexists>t. bpe_step ranks (bpe_split word ranks) t) \<and>
   (\<forall>s t t'. bpe_step ranks s t \<and> bpe_step ranks s t' \<longrightarrow> t = t') \<and>
   concat (bpe_split word ranks) = word"
  using bpe_loop_normal_form [of ranks "initial_symbols word"] bpe_step_det [of ranks]
  by (simp add: bpe_split_def concat_initial_symbols) blast

theorem bpe_split_normal_form_witness:
  "bpe_split ''abab'' [''a b'' \<mapsto> 1, ''ab ab'' \<mapsto> 0] = [''abab''] \<and>
   (\<nexists>t. bpe_step [''a b'' \<mapsto> 1, ''ab ab'' \<mapsto> 0] (bpe_split ''abab'' [''a b'' \<mapsto> 1, ''ab ab'' \<mapsto> 0]) t)"
proof -
  have i: "initial_symbols ''abab'' = [''a'', ''b'', ''a'', ''b'']"
    by (simp add: initial_symbols.simps and_fields Let_def)
  have "bpe_split ''abab'' [''a b'' \<mapsto> 1, ''ab ab'' \<mapsto> 0] = [''abab'']"
    unfolding bpe_split_def i
    by (simp add: bpe_loop.simps best_pair_def merge_key_def merge_at_def INT32_MAX_def)
  then show ?thesis using bpe_split_normal_form [of "[''a b'' \<mapsto> 1, ''ab ab'' \<mapsto> 0]" "''abab''"] by blast
qed

end
