(* ===== verification/Pretokenize.thy ===== *)
theory Pretokenize
  imports Unicode
begin

text \<open>
  Pre-tokenization, \<open>src/src/tokenizer/pretokenize.{h,cpp}\<close>: the hand-written matcher of the two known
  split patterns, alternative by alternative over the decoded codepoints, and the loop that cuts a text
  into spans. A span is the substring it views.
\<close>

section \<open>Patterns and character classes\<close>

record SplitSpec =
  max_digit_run :: int

definition kCl100kPattern :: string where
  "kCl100kPattern =
     ''(?i:'s|'t|'re|'ve|'m|'ll|'d)|[^'' @ [CHR 0x5C] @ ''r'' @ [CHR 0x5C] @ ''n'' @ [CHR 0x5C] @
     ''p{L}'' @ [CHR 0x5C] @ ''p{N}]?'' @ [CHR 0x5C] @ ''p{L}+|'' @ [CHR 0x5C] @
     ''p{N}{1,3}| ?[^'' @ [CHR 0x5C] @ ''s'' @ [CHR 0x5C] @ ''p{L}'' @ [CHR 0x5C] @ ''p{N}]+['' @
     [CHR 0x5C] @ ''r'' @ [CHR 0x5C] @ ''n]*|'' @ [CHR 0x5C] @ ''s*['' @ [CHR 0x5C] @ ''r'' @
     [CHR 0x5C] @ ''n]+|'' @ [CHR 0x5C] @ ''s+(?!'' @ [CHR 0x5C] @ ''S)|'' @ [CHR 0x5C] @ ''s+''"

definition kQwen2Pattern :: string where
  "kQwen2Pattern =
     ''(?i:'s|'t|'re|'ve|'m|'ll|'d)|[^'' @ [CHR 0x5C] @ ''r'' @ [CHR 0x5C] @ ''n'' @ [CHR 0x5C] @
     ''p{L}'' @ [CHR 0x5C] @ ''p{N}]?'' @ [CHR 0x5C] @ ''p{L}+|'' @ [CHR 0x5C] @ ''p{N}| ?[^'' @
     [CHR 0x5C] @ ''s'' @ [CHR 0x5C] @ ''p{L}'' @ [CHR 0x5C] @ ''p{N}]+['' @ [CHR 0x5C] @ ''r'' @
     [CHR 0x5C] @ ''n]*|'' @ [CHR 0x5C] @ ''s*['' @ [CHR 0x5C] @ ''r'' @ [CHR 0x5C] @ ''n]+|'' @
     [CHR 0x5C] @ ''s+(?!'' @ [CHR 0x5C] @ ''S)|'' @ [CHR 0x5C] @ ''s+''"

definition select_split_pattern :: "string \<Rightarrow> SplitSpec status_or" where
  "select_split_pattern pattern =
     (if pattern = kCl100kPattern then Inr \<lparr>max_digit_run = 3\<rparr>
      else if pattern = kQwen2Pattern then Inr \<lparr>max_digit_run = 1\<rparr>
      else UnimplementedError)"

definition kInvalidByte :: nat where "kInvalidByte = 0x110000"

definition IsCrLf :: "nat \<Rightarrow> bool" where
  "IsCrLf codepoint \<longleftrightarrow> codepoint = 13 \<or> codepoint = 10"

definition IsPunctClass :: "UnicodeData \<Rightarrow> nat \<Rightarrow> bool" where
  "IsPunctClass ud codepoint \<longleftrightarrow> codepoint \<noteq> kInvalidByte \<and> \<not> is_whitespace ud codepoint \<and>
     \<not> is_letter ud codepoint \<and> \<not> is_number ud codepoint"

definition AsciiFold :: "nat \<Rightarrow> nat" where
  "AsciiFold codepoint = (if of_char (CHR ''A'') \<le> codepoint \<and> codepoint \<le> of_char (CHR ''Z'') then codepoint + 0x20 else codepoint)"

section \<open>The alternatives\<close>

text \<open>\<open>while (j < n && P(cps[j])) ++j\<close>.\<close>

definition scan_while :: "(nat \<Rightarrow> bool) \<Rightarrow> nat list \<Rightarrow> nat \<Rightarrow> nat" where
  "scan_while P cps j = j + length (takeWhile P (drop j cps))"

definition MatchContraction :: "nat list \<Rightarrow> nat \<Rightarrow> nat" where
  "MatchContraction cps i =
     (let n = length cps in
      if cps ! i \<noteq> 39 \<or> n \<le> i + 1 then 0
      else
        let second = AsciiFold (cps ! (i + 1)); ch = (\<lambda>c. of_char c) in
        if second = ch (CHR ''s'') \<or> second = ch (CHR ''t'') \<or> second = ch (CHR ''m'') \<or> second = ch (CHR ''d'') then 2
        else if i + 2 < n then
          let third = AsciiFold (cps ! (i + 2)) in
          if second = ch (CHR ''r'') \<and> third = ch (CHR ''e'') \<or> second = ch (CHR ''v'') \<and> third = ch (CHR ''e'') \<or>
             second = ch (CHR ''l'') \<and> third = ch (CHR ''l'') then 3 else 0
        else 0)"

definition MatchLetterRun :: "UnicodeData \<Rightarrow> nat list \<Rightarrow> nat \<Rightarrow> nat" where
  "MatchLetterRun ud cps i =
     (let n = length cps in
      if is_letter ud (cps ! i) then scan_while (is_letter ud) cps i - i
      else
        let prefix_ok = cps ! i \<noteq> kInvalidByte \<and> \<not> IsCrLf (cps ! i) \<and> \<not> is_number ud (cps ! i) \<and>
              i + 1 < n \<and> is_letter ud (cps ! (i + 1)) in
        if \<not> prefix_ok then 0 else scan_while (is_letter ud) cps (i + 1) - i)"

definition MatchPunctuationRun :: "UnicodeData \<Rightarrow> nat list \<Rightarrow> nat \<Rightarrow> nat" where
  "MatchPunctuationRun ud cps i =
     (let n = length cps;
          j = (if cps ! i = 32 \<and> i + 1 < n \<and> IsPunctClass ud (cps ! (i + 1)) then i + 1 else i) in
      if \<not> IsPunctClass ud (cps ! j) then 0
      else scan_while IsCrLf cps (scan_while (IsPunctClass ud) cps j) - i)"

definition MatchWhitespaceRun :: "UnicodeData \<Rightarrow> nat list \<Rightarrow> nat \<Rightarrow> nat" where
  "MatchWhitespaceRun ud cps i =
     (let n = length cps in
      if \<not> is_whitespace ud (cps ! i) then 0
      else
        let j = scan_while (is_whitespace ud) cps i;
            last_crlf = fold (\<lambda>k acc. if IsCrLf (cps ! k) then k else acc) [i..<j] n in
        if last_crlf \<noteq> n then last_crlf - i + 1
        else if j = n then j - i
        else if 1 < j - i then j - i - 1
        else 1)"

definition MatchAt :: "UnicodeData \<Rightarrow> nat list \<Rightarrow> nat \<Rightarrow> nat \<Rightarrow> nat" where
  "MatchAt ud cps i max_run =
     (if cps ! i = kInvalidByte then 1
      else let len = MatchContraction cps i in if 0 < len then len
      else let len = MatchLetterRun ud cps i in if 0 < len then len
      else if is_number ud (cps ! i) then
        i + 1 + length (takeWhile (is_number ud) (take (max_run - 1) (drop (i + 1) cps))) - i
      else let len = MatchPunctuationRun ud cps i in if 0 < len then len
      else let len = MatchWhitespaceRun ud cps i in if 0 < len then len
      else 1)"

lemma scan_while_bounds: "j \<le> length cps \<Longrightarrow> j \<le> scan_while P cps j \<and> scan_while P cps j \<le> length cps"
  using length_takeWhile_le [of P "drop j cps"] by (simp add: scan_while_def)

lemma last_index_fold: "fold (\<lambda>k acc. if P k then k else acc) ks acc \<in> insert acc (set ks)"
proof (induction ks arbitrary: acc)
  case (Cons k ks)
  then show ?case using Cons.IH [of "if P k then k else acc"] by auto
qed simp

text \<open>Every match is non-empty and stays inside the text.\<close>

lemma MatchAt_bounds:
  assumes "i < length cps"
  shows "0 < MatchAt ud cps i k" and "i + MatchAt ud cps i k \<le> length cps"
proof -
  have c: "i + MatchContraction cps i \<le> length cps" using assms by (simp add: MatchContraction_def Let_def)
  have l: "i + MatchLetterRun ud cps i \<le> length cps"
    using assms scan_while_bounds [of i cps "is_letter ud"] scan_while_bounds [of "i + 1" cps "is_letter ud"]
    by (simp add: MatchLetterRun_def Let_def)
  have p: "i + MatchPunctuationRun ud cps i \<le> length cps"
  proof -
    have "scan_while IsCrLf cps (scan_while (IsPunctClass ud) cps j) \<le> length cps \<and>
        i \<le> scan_while IsCrLf cps (scan_while (IsPunctClass ud) cps j)" if "i \<le> j" "j \<le> length cps" for j
      using scan_while_bounds [of j cps "IsPunctClass ud"] that
        scan_while_bounds [of "scan_while (IsPunctClass ud) cps j" cps IsCrLf] by linarith
    then show ?thesis using assms by (simp add: MatchPunctuationRun_def Let_def)
  qed
  have w: "i + MatchWhitespaceRun ud cps i \<le> length cps"
  proof -
    let ?j = "scan_while (is_whitespace ud) cps i"
    let ?f = "fold (\<lambda>k acc. if IsCrLf (cps ! k) then k else acc) [i..<?j] (length cps)"
    have j: "i \<le> ?j" "?j \<le> length cps" using scan_while_bounds [of i cps] assms by auto
    have "?f \<in> insert (length cps) (set [i..<?j])" by (rule last_index_fold)
    then have "?f \<noteq> length cps \<longrightarrow> i \<le> ?f \<and> ?f < ?j" by auto
    then show ?thesis using j assms by (auto simp: MatchWhitespaceRun_def Let_def)
  qed
  have d: "i + 1 + length (takeWhile (is_number ud) (take (k - 1) (drop (i + 1) cps))) \<le> length cps"
    using length_takeWhile_le [of "is_number ud" "take (k - 1) (drop (i + 1) cps)"] assms by auto
  show "0 < MatchAt ud cps i k" by (simp add: MatchAt_def Let_def)
  show "i + MatchAt ud cps i k \<le> length cps" using c l p w d assms by (simp add: MatchAt_def Let_def)
qed

section \<open>The span loop\<close>

function decode_all :: "string \<Rightarrow> nat \<Rightarrow> nat list \<times> nat list" where
  "decode_all text pos =
     (if length text \<le> pos then ([], [length text])
      else case decode_utf8 text pos of
        Some (cp, pos') \<Rightarrow> (case decode_all text pos' of (cps, offsets) \<Rightarrow> (cp # cps, pos # offsets))
      | None \<Rightarrow> (case decode_all text (pos + 1) of (cps, offsets) \<Rightarrow> (kInvalidByte # cps, pos # offsets)))"
  by pat_completeness auto

termination by (relation "measure (\<lambda>(t, pos). length t - pos)") (auto dest: decode_utf8_advance)

declare decode_all.simps [simp del]

definition substr :: "string \<Rightarrow> nat \<Rightarrow> nat \<Rightarrow> string" where
  "substr text pos n = take n (drop pos text)"

function pretoken_loop :: "UnicodeData \<Rightarrow> string \<Rightarrow> nat \<Rightarrow> nat list \<Rightarrow> nat list \<Rightarrow> nat \<Rightarrow> string list" where
  "pretoken_loop ud text max_run cps offsets i =
     (if i < length cps then
        let len = MatchAt ud cps i max_run in
        substr text (offsets ! i) (offsets ! (i + len) - offsets ! i) # pretoken_loop ud text max_run cps offsets (i + len)
      else [])"
  by pat_completeness auto

termination
  by (relation "measure (\<lambda>(ud, t, m, cps, os, i). length cps - i)")
     (auto simp: MatchAt_bounds(1) intro!: diff_less_mono2)

declare pretoken_loop.simps [simp del]

definition pretokenize :: "UnicodeData \<Rightarrow> string \<Rightarrow> SplitSpec \<Rightarrow> string list" where
  "pretokenize ud text spec =
     (case decode_all text 0 of (cps, offsets) \<Rightarrow> pretoken_loop ud text (nat (max_digit_run spec)) cps offsets 0)"

section \<open>The spans partition the text\<close>

definition decode_next :: "string \<Rightarrow> nat \<Rightarrow> nat" where
  "decode_next text pos = (case decode_utf8 text pos of Some (cp, pos') \<Rightarrow> pos' | None \<Rightarrow> pos + 1)"

lemma decode_next_bounds: "pos < length text \<Longrightarrow> pos < decode_next text pos \<and> decode_next text pos \<le> length text"
  by (auto simp: decode_next_def dest: decode_utf8_advance split: option.split)

lemma decode_all_end: "length text \<le> pos \<Longrightarrow> decode_all text pos = ([], [length text])"
  by (subst decode_all.simps) simp

lemma decode_all_step:
  assumes "pos < length text" and "decode_all text (decode_next text pos) = (cps, offsets)"
  shows "\<exists>c. decode_all text pos = (c # cps, pos # offsets)"
  using assms by (subst decode_all.simps) (auto simp: decode_next_def split: option.splits)

lemma decode_all_offsets:
  assumes "pos \<le> length text" and "decode_all text pos = (cps, offsets)"
  shows "length offsets = length cps + 1 \<and> offsets ! 0 = pos \<and> offsets ! length cps = length text \<and>
    sorted_wrt (<) offsets \<and> (\<forall>x\<in>set offsets. pos \<le> x)"
  using assms
proof (induction "length text - pos" arbitrary: pos cps offsets rule: less_induct)
  case less
  show ?case
  proof (cases "length text \<le> pos")
    case True
    then show ?thesis using less.prems decode_all_end [OF True] by auto
  next
    case False
    obtain cs os where r: "decode_all text (decode_next text pos) = (cs, os)" by force
    have p: "pos < length text" using False by simp
    note n = decode_next_bounds [OF p]
    obtain c where c: "cps = c # cs" "offsets = pos # os" using decode_all_step [OF p r] less.prems(2) by auto
    have "length text - decode_next text pos < length text - pos" using n p by linarith
    from less.hyps [OF this conjunct2 [OF n] r]
    have IH: "length os = length cs + 1" "os ! length cs = length text" "sorted_wrt (<) os"
      "\<forall>x\<in>set os. decode_next text pos \<le> x" by auto
    then have "\<forall>x\<in>set os. pos < x" using n by fastforce
    then show ?thesis using IH(1-3) by (auto simp: c intro: less_imp_le)
  qed
qed

lemma pretoken_loop_concat:
  assumes "length offsets = length cps + 1" and "offsets ! length cps = length text" and "sorted_wrt (<) offsets"
    and "i \<le> length cps"
  shows "concat (pretoken_loop ud text k cps offsets i) = drop (offsets ! i) text \<and>
    (\<forall>s\<in>set (pretoken_loop ud text k cps offsets i). s \<noteq> [])"
  using assms(4)
proof (induction "length cps - i" arbitrary: i rule: less_induct)
  case less
  show ?case
  proof (cases "i < length cps")
    case True
    let ?n = "MatchAt ud cps i k"
    note b = MatchAt_bounds [OF True, of ud k]
    have lt: "offsets ! i < offsets ! (i + ?n)"
      by (rule sorted_wrt_nth_less [OF assms(3)]) (use assms(1) b in auto)
    have le: "offsets ! (i + ?n) \<le> length text"
    proof (cases "i + ?n = length cps")
      case False
      have "offsets ! (i + ?n) < offsets ! length cps"
        by (rule sorted_wrt_nth_less [OF assms(3)]) (use assms(1) b False in auto)
      then show ?thesis using assms(2) by simp
    qed (simp add: assms(2))
    have "length cps - (i + ?n) < length cps - i" using b True by linarith
    note IH = less.hyps [OF this b(2)]
    have e: "pretoken_loop ud text k cps offsets i =
        substr text (offsets ! i) (offsets ! (i + ?n) - offsets ! i) # pretoken_loop ud text k cps offsets (i + ?n)"
      using True by (subst pretoken_loop.simps) (simp add: Let_def)
    have "substr text (offsets ! i) (offsets ! (i + ?n) - offsets ! i) @ drop (offsets ! (i + ?n)) text = drop (offsets ! i) text"
      using lt append_take_drop_id [of "offsets ! (i + ?n) - offsets ! i" "drop (offsets ! i) text"]
      by (simp add: substr_def)
    moreover have "substr text (offsets ! i) (offsets ! (i + ?n) - offsets ! i) \<noteq> []" using lt le by (auto simp: substr_def)
    ultimately show ?thesis using IH unfolding e by simp
  next
    case False
    then have "pretoken_loop ud text k cps offsets i = []" by (subst pretoken_loop.simps) simp
    then show ?thesis using False less.prems assms(2) by simp
  qed
qed

lemma pretokenize_concat:
  "concat (pretokenize ud text spec) = text \<and> [] \<notin> set (pretokenize ud text spec)"
proof -
  obtain cps offsets where d: "decode_all text 0 = (cps, offsets)" by force
  have "length offsets = length cps + 1" "offsets ! 0 = 0" "offsets ! length cps = length text" "sorted_wrt (<) offsets"
    using decode_all_offsets [OF le0 d] by auto
  then have "concat (pretoken_loop ud text (nat (max_digit_run spec)) cps offsets 0) = drop 0 text \<and>
    (\<forall>s\<in>set (pretoken_loop ud text (nat (max_digit_run spec)) cps offsets 0). s \<noteq> [])"
    using pretoken_loop_concat [of offsets cps "text" 0] by simp
  then show ?thesis by (auto simp: pretokenize_def d)
qed

section \<open>Properties\<close>

text \<open>Pre-tokenization loses nothing, for any text, well-formed or not, any tables and any digit-run limit:
  the spans concatenate to the text, and no span is empty, so the loop always advances.\<close>

theorem pretokenize_partitions:
  "concat (pretokenize ud text spec) = text \<and> [] \<notin> set (pretokenize ud text spec)"
  by (rule pretokenize_concat)

end
