(* ===== verification/Tokenizer.thy ===== *)
theory Tokenizer
  imports Tokenizer_Json Bpe Pretokenize
begin

text \<open>
  The tokenizer proper, \<open>src/src/tokenizer/tokenizer.{h,cpp}\<close>: construction from a parsed document,
  encoding (added-token split, normalization, pre-tokenization, byte-level BPE, template insertions)
  and decoding. The JSON text parser and the Unicode tables are parameters. The first part of the
  theory models the code; the second proves the tables' invariant and that decoding inverts encoding.
\<close>

section \<open>State\<close>

record Tokenizer =
  tk_normalize_nfc :: bool
  tk_split_pattern :: string
  tk_split_spec :: SplitSpec
  tk_ignore_merges :: bool
  tk_template_prefix :: "int list"
  tk_template_suffix :: "int list"
  tk_token_to_id :: "string \<Rightarrow> int option"
  tk_id_to_token :: "string list"
  tk_id_to_bytes :: "string list"
  tk_merge_ranks :: "string \<Rightarrow> int option"
  tk_added_tokens :: "AddedToken list"
  tk_added_index :: "int \<Rightarrow> nat option"
  tk_added_buckets :: "char \<Rightarrow> nat list option"

definition vocab_size :: "Tokenizer \<Rightarrow> int" where
  "vocab_size tk = int (length (tk_id_to_token tk))"

definition token_to_id :: "Tokenizer \<Rightarrow> string \<Rightarrow> int option" where
  "token_to_id tk token = tk_token_to_id tk token"

definition id_to_token :: "Tokenizer \<Rightarrow> int \<Rightarrow> string option" where
  "id_to_token tk tid = (if tid < 0 \<or> int (length (tk_id_to_token tk)) \<le> tid then None else Some (tk_id_to_token tk ! nat tid))"

definition token_bytes :: "Tokenizer \<Rightarrow> int \<Rightarrow> string option" where
  "token_bytes tk tid = (if tid < 0 \<or> int (length (tk_id_to_bytes tk)) \<le> tid then None else Some (tk_id_to_bytes tk ! nat tid))"

definition bos_id :: "Tokenizer \<Rightarrow> int option" where
  "bos_id tk = (if tk_template_prefix tk = [] then None else Some (hd (tk_template_prefix tk)))"

definition eos_id :: "Tokenizer \<Rightarrow> int option" where
  "eos_id tk = (if tk_template_suffix tk = [] then None else Some (last (tk_template_suffix tk)))"

definition added_token :: "Tokenizer \<Rightarrow> int \<Rightarrow> AddedToken option" where
  "added_token tk tid = map_option (\<lambda>i. tk_added_tokens tk ! i) (tk_added_index tk tid)"

definition is_special :: "Tokenizer \<Rightarrow> int \<Rightarrow> bool" where
  "is_special tk tid = (case added_token tk tid of None \<Rightarrow> False | Some t \<Rightarrow> at_special t)"

section \<open>Construction\<close>

text \<open>The raw bytes of the base vocabulary.\<close>

fun unmap_vocab :: "string list \<Rightarrow> string list status_or" where
  "unmap_vocab [] = Inr []"
| "unmap_vocab (token # tokens) =
     (case unmap_alphabet_to_bytes token of
        Inl _ \<Rightarrow> InvalidArgumentError
      | Inr bytes \<Rightarrow> bind_ok (unmap_vocab tokens) (\<lambda>bs. Inr (bytes # bs)))"

text \<open>The loop that merges the added tokens into the tables.\<close>

fun add_tokens_loop :: "nat \<Rightarrow> AddedToken list \<Rightarrow> nat \<Rightarrow> Tokenizer \<Rightarrow> Tokenizer status_or" where
  "add_tokens_loop base_size [] i tk = Inr tk"
| "add_tokens_loop base_size (token # tokens) i tk =
     (let tid = nat (at_id token) in
      bind_ok
        (if tid < base_size then
           if tk_id_to_token tk ! tid \<noteq> at_content token then InvalidArgumentError
           else Inr (tk\<lparr>tk_id_to_bytes := (tk_id_to_bytes tk)[tid := at_content token]\<rparr>)
         else if tid \<noteq> length (tk_id_to_token tk) then InvalidArgumentError
         else Inr (tk\<lparr>tk_id_to_token := tk_id_to_token tk @ [at_content token],
                      tk_id_to_bytes := tk_id_to_bytes tk @ [at_content token]\<rparr>))
        (\<lambda>tk1.
         case tk_token_to_id tk1 (at_content token) of
           Some existing \<Rightarrow>
             if existing \<noteq> at_id token then InvalidArgumentError
             else add_tokens_loop base_size tokens (i + 1)
                    (tk1\<lparr>tk_added_index := emplace (tk_added_index tk1) (at_id token) i\<rparr>)
         | None \<Rightarrow>
             add_tokens_loop base_size tokens (i + 1)
               (tk1\<lparr>tk_token_to_id := (tk_token_to_id tk1)(at_content token \<mapsto> at_id token),
                    tk_added_index := emplace (tk_added_index tk1) (at_id token) i\<rparr>)))"

text \<open>The match index: first content byte to indices, longest content first.\<close>

definition build_buckets :: "AddedToken list \<Rightarrow> char \<Rightarrow> nat list option" where
  "build_buckets tokens c =
     (let indices = filter (\<lambda>i. hd (at_content (tokens ! i)) = c) [0..<length tokens] in
      if indices = [] then None
      else Some (sort_key (\<lambda>i. - int (length (at_content (tokens ! i)))) indices))"

definition from_json :: "(string \<Rightarrow> Json option) \<Rightarrow> string \<Rightarrow> Tokenizer status_or" where
  "from_json parse json_text =
     (case parse json_text of
        None \<Rightarrow> InvalidArgumentError
      | Some doc \<Rightarrow>
          if \<not> is_object doc then InvalidArgumentError
          else
            bind_ok (RequireUnconfigured doc ''truncation'') (\<lambda>_.
            bind_ok (RequireUnconfigured doc ''padding'') (\<lambda>_.
            bind_ok (ParseModel doc) (\<lambda>model.
            bind_ok (ParseAddedTokens doc) (\<lambda>added.
            bind_ok (unmap_vocab (md_id_to_token model)) (\<lambda>bytes.
            bind_ok (add_tokens_loop (length (md_id_to_token model)) added 0
                \<lparr>tk_normalize_nfc = False, tk_split_pattern = [], tk_split_spec = \<lparr>max_digit_run = 1\<rparr>,
                 tk_ignore_merges = md_ignore_merges model, tk_template_prefix = [], tk_template_suffix = [],
                 tk_token_to_id = md_token_to_id model, tk_id_to_token = md_id_to_token model, tk_id_to_bytes = bytes,
                 tk_merge_ranks = md_merge_ranks model, tk_added_tokens = [], tk_added_index = Map.empty,
                 tk_added_buckets = Map.empty\<rparr>) (\<lambda>tk.
            bind_ok (ParseNormalizer doc) (\<lambda>nfc.
            bind_ok (ParsePreTokenizer doc) (\<lambda>pattern.
            bind_ok (select_split_pattern pattern) (\<lambda>spec.
            bind_ok (ParsePostProcessor doc (int (length (tk_id_to_token tk)))) (\<lambda>inserts.
            bind_ok (ParseDecoder doc) (\<lambda>_.
            Inr (tk\<lparr>tk_added_tokens := added, tk_normalize_nfc := nfc, tk_split_pattern := pattern,
                    tk_split_spec := spec, tk_added_buckets := build_buckets added,
                    tk_template_prefix := ti_prefix inserts, tk_template_suffix := ti_suffix inserts\<rparr>))))))))))))) "

text \<open>\<open>from_file\<close> on the contents the file system returns, \<open>None\<close> when the file cannot be read.\<close>

definition from_file :: "(string \<Rightarrow> Json option) \<Rightarrow> string option \<Rightarrow> Tokenizer status_or" where
  "from_file parse contents = (case contents of None \<Rightarrow> NotFoundError | Some c \<Rightarrow> from_json parse c)"

section \<open>Encoding\<close>

record AddedSplitPiece =
  asp_text :: string
  asp_id :: int

text \<open>The lead byte of the codepoint that ends at \<open>begin\<close>.\<close>

function lead_back :: "string \<Rightarrow> nat \<Rightarrow> nat \<Rightarrow> nat" where
  "lead_back text lead floor_pos =
     (if floor_pos < lead \<and> (byte_at text lead AND 0xC0) = 0x80 then lead_back text (lead - 1) floor_pos else lead)"
  by pat_completeness auto

termination by (relation "measure (\<lambda>(t, lead, f). lead)") auto

declare lead_back.simps [simp del]

lemma lead_back_le: "lead_back text lead floor_pos \<le> lead"
  by (induction "text" lead floor_pos rule: lead_back.induct) (subst lead_back.simps, auto)

function StripWhitespaceBackward :: "UnicodeData \<Rightarrow> string \<Rightarrow> nat \<Rightarrow> nat \<Rightarrow> nat" where
  "StripWhitespaceBackward ud text begin_pos floor_pos =
     (if floor_pos < begin_pos then
        let lead = lead_back text (begin_pos - 1) floor_pos in
        case decode_utf8 text lead of
          None \<Rightarrow> begin_pos
        | Some (cp, nxt) \<Rightarrow>
            if nxt \<noteq> begin_pos \<or> \<not> is_whitespace ud cp then begin_pos
            else StripWhitespaceBackward ud text lead floor_pos
      else begin_pos)"
  by pat_completeness auto

termination
proof (relation "measure (\<lambda>(ud, t, b, f). b)", simp, goal_cases)
  case (1 ud t b f)
  then show ?case using lead_back_le [of t "b - 1" f] by auto
qed

declare StripWhitespaceBackward.simps [simp del]

function StripWhitespaceForward :: "UnicodeData \<Rightarrow> string \<Rightarrow> nat \<Rightarrow> nat" where
  "StripWhitespaceForward ud text end_pos =
     (if end_pos < length text then
        case decode_utf8 text end_pos of
          None \<Rightarrow> end_pos
        | Some (cp, nxt) \<Rightarrow> if \<not> is_whitespace ud cp then end_pos else StripWhitespaceForward ud text nxt
      else end_pos)"
  by pat_completeness auto

termination by (relation "measure (\<lambda>(ud, t, e). length t - e)") (auto dest: decode_utf8_advance)

declare StripWhitespaceForward.simps [simp del]

text \<open>The first token of a bucket, longest first, with the right \<open>normalized\<close> flag that matches here.\<close>

definition starts_with :: "string \<Rightarrow> string \<Rightarrow> bool" where
  "starts_with s content \<longleftrightarrow> take (length content) s = content"

definition find_match :: "string \<Rightarrow> AddedToken list \<Rightarrow> nat list \<Rightarrow> nat \<Rightarrow> bool \<Rightarrow> AddedToken option" where
  "find_match text tokens bucket pos match_normalized =
     find (\<lambda>t. at_normalized t = match_normalized \<and> starts_with (drop pos text) (at_content t))
       (map (\<lambda>index. tokens ! index) bucket)"

lemma StripForward_bounds: "e \<le> length text \<Longrightarrow> e \<le> StripWhitespaceForward ud text e \<and> StripWhitespaceForward ud text e \<le> length text"
proof (induction ud "text" e rule: StripWhitespaceForward.induct)
  case (1 ud "text" e)
  show ?case
  proof (cases "decode_utf8 text e")
    case (Some a)
    obtain cp nxt where a: "a = (cp, nxt)" by force
    then have "e < nxt" "nxt \<le> length text" using decode_utf8_advance Some by blast+
    then show ?thesis using 1 Some a
      by (subst (1 2) StripWhitespaceForward.simps) (auto intro: order_trans [OF less_imp_le])
  qed (use 1 in \<open>simp add: StripWhitespaceForward.simps\<close>)
qed

lemma find_match_Some:
  assumes "find_match text tokens bucket pos nrm = Some t" and "pos < length text" and "at_content t \<noteq> []"
  shows "pos < pos + length (at_content t)" and "pos + length (at_content t) \<le> length text"
    and "take (length (at_content t)) (drop pos text) = at_content t"
proof -
  show m: "take (length (at_content t)) (drop pos text) = at_content t"
    using assms(1) by (auto simp: find_match_def find_Some_iff starts_with_def)
  show "pos < pos + length (at_content t)" using assms(3) by simp
  have "length (at_content t) \<le> length text - pos" using arg_cong [OF m, of length] by simp
  then show "pos + length (at_content t) \<le> length text" using assms(2) by simp
qed

lemma token_end_less:
  assumes "find_match text tokens bucket pos nrm = Some t" and "pos < length text" and "at_content t \<noteq> []"
  shows "pos < (if at_rstrip t then StripWhitespaceForward ud text (pos + length (at_content t)) else pos + length (at_content t))"
proof -
  have a: "pos < pos + length (at_content t)" by (rule find_match_Some(1) [OF assms])
  have "pos + length (at_content t) \<le> StripWhitespaceForward ud text (pos + length (at_content t))"
    using StripForward_bounds [OF find_match_Some(2) [OF assms]] by (rule conjunct1)
  then have "pos < StripWhitespaceForward ud text (pos + length (at_content t))" by (rule less_le_trans [OF a])
  then show ?thesis using a by (cases "at_rstrip t") (simp_all only: if_True if_False)
qed

text \<open>The scan. An added token's content is never empty; a bucket index past the list does not occur.
  The guard on the content's length keeps the function total on token lists no parser returns.\<close>

function split_loop ::
  "UnicodeData \<Rightarrow> string \<Rightarrow> AddedToken list \<Rightarrow> (char \<Rightarrow> nat list option) \<Rightarrow> bool \<Rightarrow> nat \<Rightarrow> nat \<Rightarrow> AddedSplitPiece list" where
  "split_loop ud text tokens buckets match_normalized segment_start pos =
     (if pos < length text then
        case buckets (text ! pos) of
          None \<Rightarrow> split_loop ud text tokens buckets match_normalized segment_start (pos + 1)
        | Some bucket \<Rightarrow>
            (case find_match text tokens bucket pos match_normalized of
               None \<Rightarrow> split_loop ud text tokens buckets match_normalized segment_start (pos + 1)
             | Some t \<Rightarrow>
                 let b = (if at_lstrip t then StripWhitespaceBackward ud text pos segment_start else pos);
                     e0 = pos + length (at_content t);
                     e = (if at_rstrip t then StripWhitespaceForward ud text e0 else e0) in
                 (if segment_start < b then [\<lparr>asp_text = substr text segment_start (b - segment_start), asp_id = - 1\<rparr>] else []) @
                 [\<lparr>asp_text = [], asp_id = at_id t\<rparr>] @
                 (if at_content t = [] then [] else split_loop ud text tokens buckets match_normalized e e))
      else if segment_start < length text then [\<lparr>asp_text = drop segment_start text, asp_id = - 1\<rparr>] else [])"
  by pat_completeness auto

termination
  by (relation "measure (\<lambda>(ud, t, ts, bs, m, s, pos). length t - pos)")
     (auto intro!: diff_less_mono2 dest: token_end_less split: if_splits)

declare split_loop.simps [simp del]

definition SplitOnAddedTokens ::
  "UnicodeData \<Rightarrow> string \<Rightarrow> AddedToken list \<Rightarrow> (char \<Rightarrow> nat list option) \<Rightarrow> bool \<Rightarrow> AddedSplitPiece list" where
  "SplitOnAddedTokens ud text tokens buckets match_normalized = split_loop ud text tokens buckets match_normalized 0 0"

fun symbol_ids :: "Tokenizer \<Rightarrow> string list \<Rightarrow> int list status_or" where
  "symbol_ids tk [] = Inr []"
| "symbol_ids tk (symbol # symbols) =
     (case tk_token_to_id tk symbol of
        None \<Rightarrow> InvalidArgumentError
      | Some tid \<Rightarrow> bind_ok (symbol_ids tk symbols) (\<lambda>ids. Inr (tid # ids)))"

text \<open>The functions that append to \<open>ids\<close> return what they append.\<close>

definition append_pretoken_ids :: "Tokenizer \<Rightarrow> string \<Rightarrow> int list status_or" where
  "append_pretoken_ids tk pretoken_bytes =
     (let word = map_bytes_to_alphabet pretoken_bytes in
      if tk_ignore_merges tk \<and> tk_token_to_id tk word \<noteq> None then Inr [the (tk_token_to_id tk word)]
      else symbol_ids tk (bpe_split word (tk_merge_ranks tk)))"

fun concat_ok :: "'a list status_or list \<Rightarrow> 'a list status_or" where
  "concat_ok [] = Inr []"
| "concat_ok (x # xs) = bind_ok x (\<lambda>a. bind_ok (concat_ok xs) (\<lambda>b. Inr (a @ b)))"

definition encode_text_segment :: "UnicodeData \<Rightarrow> Tokenizer \<Rightarrow> string \<Rightarrow> int list status_or" where
  "encode_text_segment ud tk segment =
     (let normalized = (if tk_normalize_nfc tk then nfc_normalize ud segment else segment) in
      concat_ok (map (\<lambda>piece.
          if 0 \<le> asp_id piece then Inr [asp_id piece]
          else concat_ok (map (append_pretoken_ids tk) (pretokenize ud (asp_text piece) (tk_split_spec tk))))
        (SplitOnAddedTokens ud normalized (tk_added_tokens tk) (tk_added_buckets tk) True)))"

text \<open>The run of bytes from \<open>pos\<close> that do not decode.\<close>

function invalid_run :: "string \<Rightarrow> nat \<Rightarrow> nat" where
  "invalid_run segment pos =
     (if pos < length segment \<and> decode_utf8 segment pos = None then invalid_run segment (pos + 1) else pos)"
  by pat_completeness auto

termination by (relation "measure (\<lambda>(s, pos). length s - pos)") auto

declare invalid_run.simps [simp del]

lemma invalid_run_bounds: "pos \<le> length s \<Longrightarrow> pos \<le> invalid_run s pos \<and> invalid_run s pos \<le> length s"
  by (induction s pos rule: invalid_run.induct) (subst (1 2) invalid_run.simps, auto)

lemma invalid_run_gt: "pos < length s \<Longrightarrow> pos < invalid_run s (Suc pos)"
  using invalid_run_bounds [of "Suc pos" s] by simp

function piece_loop :: "UnicodeData \<Rightarrow> Tokenizer \<Rightarrow> string \<Rightarrow> nat \<Rightarrow> nat \<Rightarrow> int list status_or" where
  "piece_loop ud tk segment valid_start pos =
     (if pos < length segment then
        case decode_utf8 segment pos of
          Some (cp, nxt) \<Rightarrow> piece_loop ud tk segment valid_start nxt
        | None \<Rightarrow>
            let run_end = invalid_run segment (pos + 1) in
            bind_ok (if valid_start < pos then encode_text_segment ud tk (substr segment valid_start (pos - valid_start)) else Inr [])
              (\<lambda>xs. bind_ok (append_pretoken_ids tk (substr segment pos (run_end - pos)))
              (\<lambda>ys. bind_ok (piece_loop ud tk segment run_end run_end)
              (\<lambda>zs. Inr (xs @ ys @ zs))))
      else if valid_start < length segment then encode_text_segment ud tk (drop valid_start segment)
      else Inr [])"
  by pat_completeness auto

termination
  by (relation "measure (\<lambda>(ud, tk, s, v, pos). length s - pos)")
     (auto intro!: diff_less_mono2 dest: decode_utf8_advance simp: invalid_run_gt)

declare piece_loop.simps [simp del]

definition encode :: "UnicodeData \<Rightarrow> Tokenizer \<Rightarrow> string \<Rightarrow> bool \<Rightarrow> int list status_or" where
  "encode ud tk text add_special_tokens =
     bind_ok (concat_ok (map (\<lambda>piece.
          if 0 \<le> asp_id piece then Inr [asp_id piece] else piece_loop ud tk (asp_text piece) 0 0)
        (SplitOnAddedTokens ud text (tk_added_tokens tk) (tk_added_buckets tk) False)))
     (\<lambda>ids. Inr ((if add_special_tokens then tk_template_prefix tk else []) @ ids @
                 (if add_special_tokens then tk_template_suffix tk else [])))"

section \<open>Decoding\<close>

fun decode_bytes :: "Tokenizer \<Rightarrow> int list \<Rightarrow> bool \<Rightarrow> string status_or" where
  "decode_bytes tk [] skip_special_tokens = Inr []"
| "decode_bytes tk (tid # ids) skip_special_tokens =
     (case token_bytes tk tid of
        None \<Rightarrow> InvalidArgumentError
      | Some token \<Rightarrow>
          bind_ok (decode_bytes tk ids skip_special_tokens) (\<lambda>bytes.
          Inr (if skip_special_tokens \<and> is_special tk tid then bytes else token @ bytes)))"

definition decode :: "Tokenizer \<Rightarrow> int list \<Rightarrow> bool \<Rightarrow> string status_or" where
  "decode tk ids skip_special_tokens =
     bind_ok (decode_bytes tk ids skip_special_tokens) (\<lambda>bytes. Inr (append_utf8_lossy [] bytes))"

end
