(* ===== verification/Tokenizer_Correctness.thy ===== *)
theory Tokenizer_Correctness
  imports Tokenizer
begin

text \<open>
  What \<open>Tokenizer::from_json\<close> guarantees of the tables it builds, and what \<open>encode\<close> and \<open>decode\<close> do on
  such a tokenizer: every id they exchange is in range, encoding cannot fail when the vocabulary has the
  256 single-byte symbols, and decoding inverts encoding up to the tokenizer's normalization.
\<close>

section \<open>The parsed vocabulary\<close>

lemma emplace_Some: "emplace m k v x = Some y \<longleftrightarrow> m x = Some y \<or> (x = k \<and> y = v \<and> m k = None)"
  by (auto simp: emplace_def split: option.splits)

text \<open>Every entry of the id map names the position that holds it.\<close>

definition vocab_ok :: "string list \<Rightarrow> (string \<Rightarrow> int option) \<Rightarrow> bool" where
  "vocab_ok tokens ids \<longleftrightarrow>
     (\<forall>s i. ids s = Some i \<longrightarrow> 0 \<le> i \<and> i < int (length tokens) \<and> tokens ! nat i = s)"

lemma vocab_loop_ok:
  assumes "vocab_loop (int n) kvs tokens seen ids = Inr (tokens', ids')" and "length tokens = n" and "length seen = n"
    and "vocab_ok tokens ids" and "\<And>s i. ids s = Some i \<Longrightarrow> seen ! nat i"
  shows "length tokens' = n \<and> vocab_ok tokens' ids'"
  using assms
proof (induction kvs arbitrary: tokens seen ids)
  case (Cons kv kvs)
  obtain token id_value where kv: "kv = (token, id_value)" by force
  obtain tid where t: "IntValue id_value = Inr tid" "0 \<le> tid" "tid < int n" "\<not> seen ! nat tid"
    and r: "vocab_loop (int n) kvs (tokens[nat tid := token]) (seen[nat tid := True]) (emplace ids token tid) = Inr (tokens', ids')"
    using Cons.prems(1) by (auto simp: kv Let_def elim!: bind_okE split: if_splits)
  have other: "nat tid \<noteq> nat i" if "ids s = Some i" for s i
    using Cons.prems(5) [OF that] t(4) by auto
  have v: "vocab_ok (tokens[nat tid := token]) (emplace ids token tid)"
    using Cons.prems(2,4) t by (auto simp: vocab_ok_def emplace_Some nth_list_update dest: other)
  have s: "seen[nat tid := True] ! nat i" if "emplace ids token tid s = Some i" for s i
    using that Cons.prems(3,5) t by (auto simp: emplace_Some nth_list_update)
  show ?case using Cons.IH [OF r _ _ v s] Cons.prems(2,3) by simp
qed simp

lemma ParseVocab_ok:
  assumes "ParseVocab model d = Inr d'" and "md_token_to_id d = Map.empty"
  shows "vocab_ok (md_id_to_token d') (md_token_to_id d') \<and> md_merge_ranks d' = md_merge_ranks d"
proof -
  obtain kvs tokens ids where l: "vocab_loop (int (length kvs)) kvs (replicate (length kvs) []) (replicate (length kvs) False)
        (md_token_to_id d) = Inr (tokens, ids)"
    and d': "d' = d\<lparr>md_id_to_token := tokens, md_token_to_id := ids\<rparr>"
    using assms(1) by (auto simp: ParseVocab_def Let_def elim!: bind_okE split: option.splits Json.splits if_splits prod.splits)
  have "vocab_ok (replicate (length kvs) []) (md_token_to_id d)" by (simp add: vocab_ok_def assms(2))
  then show ?thesis using vocab_loop_ok [OF l] assms(2) by (simp add: d')
qed

text \<open>A merge whose halves have no space produces a vocabulary entry.\<close>

definition merges_ok :: "merge_ranks \<Rightarrow> (string \<Rightarrow> int option) \<Rightarrow> bool" where
  "merges_ok ranks ids \<longleftrightarrow>
     (\<forall>l r. ranks (l @ '' '' @ r) \<noteq> None \<and> CHR '' '' \<notin> set l \<and> CHR '' '' \<notin> set r \<longrightarrow> ids (l @ r) \<noteq> None)"

lemma one_space:
  assumes "l @ '' '' @ r = l' @ '' '' @ r'" and "CHR '' '' \<notin> set l" and "CHR '' '' \<notin> set r"
  shows "l' = l \<and> r' = r"
proof -
  have n: "CHR '' '' \<notin> set l'" "CHR '' '' \<notin> set r'"
  proof -
    have "count_list (l @ '' '' @ r) (CHR '' '') = 1" using assms(2,3) by (simp add: count_notin)
    then have "count_list l' (CHR '' '') + count_list r' (CHR '' '') = 0" unfolding assms(1) by simp
    then show "CHR '' '' \<notin> set l'" "CHR '' '' \<notin> set r'" by (simp_all add: count_list_0_iff)
  qed
  have "takeWhile (\<lambda>c. c \<noteq> CHR '' '') (l @ '' '' @ r) = l" using assms(2) by (induction l) auto
  moreover have "takeWhile (\<lambda>c. c \<noteq> CHR '' '') (l' @ '' '' @ r') = l'" using n(1) by (induction l') auto
  ultimately show ?thesis using assms(1) by simp
qed

lemma merges_loop_ok:
  assumes "merges_loop ids entries k ranks = Inr ranks'" and "merges_ok ranks ids"
  shows "merges_ok ranks' ids"
  using assms
proof (induction entries arbitrary: k ranks)
  case (Cons e es)
  obtain left right y where y: "ids (left @ right) = Some y"
    and r: "merges_loop ids es (k + 1) (ranks(left @ '' '' @ right \<mapsto> int32_cast (int k))) = Inr ranks'"
    using Cons.prems(1) by (auto simp: Let_def elim!: bind_okE split: if_splits prod.splits)
  have "ids (l @ r) \<noteq> None"
    if "(ranks(left @ '' '' @ right \<mapsto> int32_cast (int k))) (l @ '' '' @ r) \<noteq> None"
      and "CHR '' '' \<notin> set l" and "CHR '' '' \<notin> set r" for l r
  proof (cases "l @ '' '' @ r = left @ '' '' @ right")
    case True
    from one_space [OF True that(2,3)] y show ?thesis by simp
  next
    case False
    then show ?thesis using that Cons.prems(2) unfolding merges_ok_def by (metis fun_upd_other)
  qed
  then have "merges_ok (ranks(left @ '' '' @ right \<mapsto> int32_cast (int k))) ids" unfolding merges_ok_def by blast
  then show ?case by (rule Cons.IH [OF r])
qed simp

lemma ParseModel_ok:
  assumes "ParseModel doc = Inr d"
  shows "vocab_ok (md_id_to_token d) (md_token_to_id d) \<and> merges_ok (md_merge_ranks d) (md_token_to_id d)"
proof -
  let ?d0 = "\<lparr>md_token_to_id = Map.empty, md_id_to_token = [], md_merge_ranks = Map.empty, md_ignore_merges = False\<rparr>"
  obtain model d1 d2 where f: "ParseModelFlags model ?d0 = Inr d1" and v: "ParseVocab model d1 = Inr d2"
    and m: "ParseMerges model d2 = Inr d"
    using assms by (auto simp: ParseModel_def elim!: bind_okE split: option.splits if_splits)
  have d1: "md_token_to_id d1 = Map.empty" "md_merge_ranks d1 = Map.empty"
    using f by (auto simp: ParseModelFlags_def elim!: bind_okE)
  note v' = ParseVocab_ok [OF v d1(1)]
  obtain entries ranks where r: "merges_loop (md_token_to_id d2) entries 0 (md_merge_ranks d2) = Inr ranks"
    and d: "d = d2\<lparr>md_merge_ranks := ranks\<rparr>"
    using m by (auto simp: ParseMerges_def elim!: bind_okE split: option.splits Json.splits)
  show ?thesis using v' merges_loop_ok [OF r] d1(2) by (simp add: d merges_ok_def)
qed

section \<open>The added tokens\<close>

lemma ParseAddedToken_ok: "ParseAddedToken entry = Inr t \<Longrightarrow> 0 \<le> at_id t \<and> at_content t \<noteq> []"
  by (auto simp: ParseAddedToken_def elim!: bind_okE split: option.splits if_splits)

lemma parse_added_loop_ok: "parse_added_loop entries = Inr ts \<Longrightarrow> t \<in> set ts \<Longrightarrow> 0 \<le> at_id t \<and> at_content t \<noteq> []"
  by (induction entries arbitrary: ts) (auto elim!: bind_okE dest: ParseAddedToken_ok)

lemma added_distinct_ids:
  "added_distinct ts prev contents \<Longrightarrow> sorted (map at_id ts) \<Longrightarrow> (\<And>p. prev = Some p \<Longrightarrow> \<forall>t\<in>set ts. p \<le> at_id t) \<Longrightarrow>
   distinct (map at_id ts) \<and> (\<forall>p. prev = Some p \<longrightarrow> p \<notin> at_id ` set ts)"
proof (induction ts arbitrary: prev contents)
  case (Cons t ts)
  have s: "sorted (map at_id ts)" "\<forall>u\<in>set ts. at_id t \<le> at_id u" using Cons.prems(2) by auto
  have d: "added_distinct ts (Some (at_id t)) (at_content t # contents)" "prev \<noteq> Some (at_id t)" using Cons.prems(1) by auto
  have IH: "distinct (map at_id ts)" "at_id t \<notin> at_id ` set ts" using Cons.IH [OF d(1) s(1)] s(2) by auto
  have "p \<notin> at_id ` set (t # ts)" if p: "prev = Some p" for p
  proof -
    have "p < at_id t" using Cons.prems(3) [OF p] d(2) p by auto
    then show ?thesis using s(2) by auto
  qed
  then show ?case using IH by auto
qed simp

lemma ParseAddedTokens_ok:
  assumes "ParseAddedTokens doc = Inr ts"
  shows "distinct (map at_id ts) \<and> (\<forall>t\<in>set ts. 0 \<le> at_id t \<and> at_content t \<noteq> [])"
proof -
  have "ts = [] \<or> (\<exists>entries us. parse_added_loop entries = Inr us \<and> ts = sort_key at_id us \<and> added_distinct ts None [])"
    using assms by (auto simp: ParseAddedTokens_def Let_def elim!: bind_okE split: option.splits Json.splits if_splits)
  then show ?thesis
  proof
    assume "\<exists>entries us. parse_added_loop entries = Inr us \<and> ts = sort_key at_id us \<and> added_distinct ts None []"
    then obtain entries us where u: "parse_added_loop entries = Inr us" "ts = sort_key at_id us" "added_distinct ts None []" by blast
    have "sorted (map at_id ts)" unfolding u(2) by (rule sorted_sort_key)
    then show ?thesis using added_distinct_ids [OF u(3)] parse_added_loop_ok [OF u(1)] by (auto simp: u(2))
  qed simp
qed

text \<open>The tables once the tokens of a list have been merged in: an id of that list has its content as
  bytes, any other id the bytes its vocabulary string stands for.\<close>

definition merged_ok :: "AddedToken list \<Rightarrow> Tokenizer \<Rightarrow> bool" where
  "merged_ok ts tk \<longleftrightarrow>
     length (tk_id_to_bytes tk) = length (tk_id_to_token tk) \<and>
     vocab_ok (tk_id_to_token tk) (tk_token_to_id tk) \<and> merges_ok (tk_merge_ranks tk) (tk_token_to_id tk) \<and>
     (\<forall>s i. tk_token_to_id tk s = Some i \<longrightarrow>
        (if i \<in> at_id ` set ts then tk_id_to_bytes tk ! nat i = s
         else unmap_alphabet_to_bytes s = Inr (tk_id_to_bytes tk ! nat i))) \<and>
     (\<forall>t\<in>set ts. tk_token_to_id tk (at_content t) = Some (at_id t)) \<and>
     (\<forall>i k. tk_added_index tk i = Some k \<longleftrightarrow> k < length ts \<and> at_id (ts ! k) = i)"

lemma merged_ok_add:
  assumes ok: "merged_ok ts tk" and new: "at_id t \<notin> at_id ` set ts" and pos: "0 \<le> at_id t"
    and free: "tk_token_to_id tk (at_content t) \<in> {None, Some (at_id t)}"
    and len: "length bytes = length tokens" "length (tk_id_to_token tk) \<le> length tokens" "nat (at_id t) < length tokens"
    and old: "\<And>i. i < length (tk_id_to_token tk) \<Longrightarrow> tokens ! i = tk_id_to_token tk ! i"
      "\<And>i. i < length (tk_id_to_token tk) \<Longrightarrow> i \<noteq> nat (at_id t) \<Longrightarrow> bytes ! i = tk_id_to_bytes tk ! i"
    and here: "tokens ! nat (at_id t) = at_content t" "bytes ! nat (at_id t) = at_content t"
    and tk': "tk_id_to_token tk' = tokens" "tk_id_to_bytes tk' = bytes" "tk_merge_ranks tk' = tk_merge_ranks tk"
      "tk_token_to_id tk' = (tk_token_to_id tk)(at_content t \<mapsto> at_id t)"
      "tk_added_index tk' = emplace (tk_added_index tk) (at_id t) (length ts)"
  shows "merged_ok (ts @ [t]) tk'"
proof -
  have v: "0 \<le> i \<and> i < int (length (tk_id_to_token tk)) \<and> tk_id_to_token tk ! nat i = s" if "tk_token_to_id tk s = Some i" for s i
    using ok that by (auto simp: merged_ok_def vocab_ok_def)
  have v': "vocab_ok tokens (tk_token_to_id tk')"
    unfolding vocab_ok_def tk'(4)
  proof (intro allI impI)
    fix s i assume s: "((tk_token_to_id tk)(at_content t \<mapsto> at_id t)) s = Some i"
    show "0 \<le> i \<and> i < int (length tokens) \<and> tokens ! nat i = s"
    proof (cases "s = at_content t")
      case True
      then show ?thesis using s pos len(3) here(1) by auto
    next
      case False
      then show ?thesis using s v [of s i] len(2) old(1) [of "nat i"] by auto
    qed
  qed
  have e: "if i \<in> at_id ` set (ts @ [t]) then bytes ! nat i = s else unmap_alphabet_to_bytes s = Inr (bytes ! nat i)"
    if s: "tk_token_to_id tk' s = Some i" for s i
  proof (cases "i = at_id t")
    case True
    then have "s = at_content t" using v' s here(1) by (auto simp: vocab_ok_def)
    then show ?thesis using True here(2) by simp
  next
    case False
    then have s': "tk_token_to_id tk s = Some i" using s by (auto simp: tk'(4) split: if_splits)
    have "bytes ! nat i = tk_id_to_bytes tk ! nat i" using v [OF s'] False pos by (intro old(2)) auto
    then show ?thesis using ok s' False by (auto simp: merged_ok_def)
  qed
  have m: "merges_ok (tk_merge_ranks tk') (tk_token_to_id tk')" using ok by (auto simp: merged_ok_def merges_ok_def tk')
  have a: "\<forall>u\<in>set (ts @ [t]). tk_token_to_id tk' (at_content u) = Some (at_id u)"
    using ok free by (auto simp: merged_ok_def tk'(4))
  have "tk_added_index tk (at_id t) = None"
    using ok new by (cases "tk_added_index tk (at_id t)") (auto simp: merged_ok_def, metis image_eqI nth_mem)
  then have i: "tk_added_index tk' i = Some k \<longleftrightarrow> k < length (ts @ [t]) \<and> at_id ((ts @ [t]) ! k) = i" for i k
    using ok new by (auto simp: merged_ok_def tk'(5) emplace_Some nth_append less_Suc_eq)
  show ?thesis using v' e m a i len(1) by (simp add: merged_ok_def tk'(1,2))
qed

lemma unmap_vocab_ok:
  "unmap_vocab tokens = Inr bytes \<Longrightarrow>
   length bytes = length tokens \<and> (\<forall>i<length tokens. unmap_alphabet_to_bytes (tokens ! i) = Inr (bytes ! i))"
  by (induction tokens arbitrary: bytes) (auto simp: nth_Cons elim!: bind_okE split: sum.splits nat.splits)

definition same_settings :: "Tokenizer \<Rightarrow> Tokenizer \<Rightarrow> bool" where
  "same_settings tk tk' \<longleftrightarrow> tk_merge_ranks tk' = tk_merge_ranks tk \<and> tk_ignore_merges tk' = tk_ignore_merges tk"

lemma add_tokens_loop_ok:
  assumes "add_tokens_loop base todo (length ts) tk = Inr tk'" and "merged_ok ts tk" and "base \<le> length (tk_id_to_token tk)"
    and "distinct (map at_id (ts @ todo))" and "\<forall>t\<in>set todo. 0 \<le> at_id t"
  shows "merged_ok (ts @ todo) tk' \<and> same_settings tk tk'"
  using assms
proof (induction todo arbitrary: ts tk)
  case Nil
  then show ?case by (simp add: same_settings_def)
next
  case (Cons t todo)
  let ?n = "nat (at_id t)"
  have pos: "0 \<le> at_id t" and new: "at_id t \<notin> at_id ` set ts" using Cons.prems(4,5) by auto
  obtain tk1 where tk1: "tk1 = (if ?n < base then tk\<lparr>tk_id_to_bytes := (tk_id_to_bytes tk)[?n := at_content t]\<rparr>
      else tk\<lparr>tk_id_to_token := tk_id_to_token tk @ [at_content t], tk_id_to_bytes := tk_id_to_bytes tk @ [at_content t]\<rparr>)"
    and n: "if ?n < base then tk_id_to_token tk ! ?n = at_content t else ?n = length (tk_id_to_token tk)"
    and free: "tk_token_to_id tk1 (at_content t) \<in> {None, Some (at_id t)}"
    and r: "add_tokens_loop base todo (length ts + 1)
      (tk1\<lparr>tk_token_to_id := (tk_token_to_id tk1)(at_content t \<mapsto> at_id t),
           tk_added_index := emplace (tk_added_index tk1) (at_id t) (length ts)\<rparr>) = Inr tk'"
  proof (cases "?n < base")
    case True
    then show thesis
      using Cons.prems(1) that [of "tk\<lparr>tk_id_to_bytes := (tk_id_to_bytes tk)[?n := at_content t]\<rparr>"]
      by (auto simp: Let_def fun_upd_idem split: if_splits option.splits)
  next
    case False
    then show thesis
      using Cons.prems(1) that [of "tk\<lparr>tk_id_to_token := tk_id_to_token tk @ [at_content t], tk_id_to_bytes := tk_id_to_bytes tk @ [at_content t]\<rparr>"]
      by (auto simp: Let_def fun_upd_idem split: if_splits option.splits)
  qed
  let ?tk2 = "tk1\<lparr>tk_token_to_id := (tk_token_to_id tk1)(at_content t \<mapsto> at_id t),
           tk_added_index := emplace (tk_added_index tk1) (at_id t) (length ts)\<rparr>"
  have l: "length (tk_id_to_bytes tk) = length (tk_id_to_token tk)" using Cons.prems(2) by (simp add: merged_ok_def)
  have tk1_same: "tk_token_to_id tk1 = tk_token_to_id tk" "tk_added_index tk1 = tk_added_index tk"
    "tk_merge_ranks tk1 = tk_merge_ranks tk" "tk_ignore_merges tk1 = tk_ignore_merges tk" by (simp_all add: tk1)
  have m: "merged_ok (ts @ [t]) ?tk2"
    by (rule merged_ok_add [OF Cons.prems(2) new pos, where tokens = "tk_id_to_token tk1" and bytes = "tk_id_to_bytes tk1"])
       (use free n l Cons.prems(3) in \<open>auto simp: tk1_same\<close>, auto simp: tk1 nth_append nth_list_update split: if_splits)
  have "base \<le> length (tk_id_to_token ?tk2)" using Cons.prems(3) by (simp add: tk1)
  from Cons.IH [of "ts @ [t]" ?tk2, OF _ m this] r Cons.prems(4,5) show ?case
    by (auto simp: tk1 same_settings_def split: if_splits)
qed

text \<open>What \<open>from_json\<close> returns.\<close>

definition tokenizer_ok :: "Tokenizer \<Rightarrow> bool" where
  "tokenizer_ok tk \<longleftrightarrow>
     merged_ok (tk_added_tokens tk) tk \<and>
     (\<forall>t\<in>set (tk_added_tokens tk). 0 \<le> at_id t \<and> at_content t \<noteq> []) \<and>
     tk_added_buckets tk = build_buckets (tk_added_tokens tk) \<and>
     (\<forall>i\<in>set (tk_template_prefix tk @ tk_template_suffix tk). 0 \<le> i \<and> i < vocab_size tk)"

lemma ResolveSpecialToken_ok: "ResolveSpecialToken value tp n = Inr i \<Longrightarrow> 0 \<le> i \<and> i < n"
  by (auto simp: ResolveSpecialToken_def elim!: bind_okE split: option.split_asm Json.split_asm if_split_asm)

lemma template_entry_cases:
  assumes "template_loop tp n (entry # entries) seen inserts = Inr r"
  shows "template_loop tp n entries True inserts = Inr r \<or>
    (\<exists>i. 0 \<le> i \<and> i < n \<and> template_loop tp n entries seen
       (if seen then inserts\<lparr>ti_suffix := ti_suffix inserts @ [i]\<rparr> else inserts\<lparr>ti_prefix := ti_prefix inserts @ [i]\<rparr>) = Inr r)"
proof -
  obtain kind "value" where e: "entry = JObject [(kind, value)]"
    using assms by (simp split: Json.split_asm list.split_asm prod.split_asm)
  show ?thesis
  proof (cases "kind = ''Sequence''")
    case True
    then show ?thesis using assms by (simp add: e split: if_split_asm)
  next
    case False
    then obtain i where "ResolveSpecialToken value tp n = Inr i" and "template_loop tp n entries seen
       (if seen then inserts\<lparr>ti_suffix := ti_suffix inserts @ [i]\<rparr> else inserts\<lparr>ti_prefix := ti_prefix inserts @ [i]\<rparr>) = Inr r"
      using assms by (simp add: e split: if_split_asm) (erule bind_okE, blast)+
    then show ?thesis using ResolveSpecialToken_ok by blast
  qed
qed

definition inserts_ok :: "int \<Rightarrow> TemplateInserts \<Rightarrow> bool" where
  "inserts_ok n inserts \<longleftrightarrow> (\<forall>i\<in>set (ti_prefix inserts @ ti_suffix inserts). 0 \<le> i \<and> i < n)"

lemma inserts_ok_empty [simp]: "inserts_ok n \<lparr>ti_prefix = [], ti_suffix = []\<rparr>"
  by (simp add: inserts_ok_def)

lemma template_loop_ok:
  "template_loop tp n entries seen inserts = Inr (seen', inserts') \<Longrightarrow> inserts_ok n inserts \<Longrightarrow> inserts_ok n inserts'"
proof (induction entries arbitrary: seen inserts)
  case (Cons entry entries)
  from template_entry_cases [OF Cons.prems(1)] show ?case
  proof (elim disjE exE conjE)
    assume "template_loop tp n entries True inserts = Inr (seen', inserts')"
    then show ?thesis using Cons.prems(2) by (rule Cons.IH)
  next
    fix i assume "0 \<le> i" "i < n" and r: "template_loop tp n entries seen
       (if seen then inserts\<lparr>ti_suffix := ti_suffix inserts @ [i]\<rparr> else inserts\<lparr>ti_prefix := ti_prefix inserts @ [i]\<rparr>) =
       Inr (seen', inserts')"
    then have "inserts_ok n (if seen then inserts\<lparr>ti_suffix := ti_suffix inserts @ [i]\<rparr>
      else inserts\<lparr>ti_prefix := ti_prefix inserts @ [i]\<rparr>)" using Cons.prems(2) by (auto simp: inserts_ok_def)
    then show ?thesis by (rule Cons.IH [OF r])
  qed
qed simp

lemma ParseTemplate_ok: "ParseTemplate tp n = Inr inserts \<Longrightarrow> inserts_ok n inserts"
  by (auto simp: ParseTemplate_def inserts_ok_empty
      elim!: bind_okE dest!: template_loop_ok split: option.split_asm Json.split_asm if_split_asm prod.split_asm)

lemma ParsePostProcessor_ok: "ParsePostProcessor doc n = Inr inserts \<Longrightarrow> inserts_ok n inserts"
proof (cases "json_find ''post_processor'' doc")
  case None
  then show "ParsePostProcessor doc n = Inr inserts \<Longrightarrow> inserts_ok n inserts"
    by (auto simp: ParsePostProcessor_def)
next
  case (Some node)
  assume *: "ParsePostProcessor doc n = Inr inserts"
  show ?thesis
  proof (cases "node = JNull")
    case True
    then show ?thesis using * Some by (auto simp: ParsePostProcessor_def)
  next
    case False
    then have eq: "ParsePostProcessor doc n =
      bind_ok (FlattenComponents ''processors'' node) (\<lambda>parts.
          bind_ok (post_loop parts None) (\<lambda>template_node.
          case template_node of
            None \<Rightarrow> Inr \<lparr>ti_prefix = [], ti_suffix = []\<rparr>
          | Some tp \<Rightarrow> ParseTemplate tp n))"
      using Some by (cases node) (simp_all add: ParsePostProcessor_def)
    from * show ?thesis unfolding eq
      by (elim bind_okE) (auto dest: ParseTemplate_ok simp del: FlattenComponents.simps split: option.split_asm)
  qed
qed

lemma from_json_ok:
  assumes "from_json parse input = Inr tk"
  shows "tokenizer_ok tk"
proof -
  obtain doc model added bytes tk1 nfc pattern spec inserts where
    model: "ParseModel doc = Inr model" and added: "ParseAddedTokens doc = Inr added"
    and bytes: "unmap_vocab (md_id_to_token model) = Inr bytes"
    and loop: "add_tokens_loop (length (md_id_to_token model)) added 0
                \<lparr>tk_normalize_nfc = False, tk_split_pattern = [], tk_split_spec = \<lparr>max_digit_run = 1\<rparr>,
                 tk_ignore_merges = md_ignore_merges model, tk_template_prefix = [], tk_template_suffix = [],
                 tk_token_to_id = md_token_to_id model, tk_id_to_token = md_id_to_token model, tk_id_to_bytes = bytes,
                 tk_merge_ranks = md_merge_ranks model, tk_added_tokens = [], tk_added_index = Map.empty,
                 tk_added_buckets = Map.empty\<rparr> = Inr tk1"
    and post: "ParsePostProcessor doc (int (length (tk_id_to_token tk1))) = Inr inserts"
    and tk: "tk = tk1\<lparr>tk_added_tokens := added, tk_normalize_nfc := nfc, tk_split_pattern := pattern,
                    tk_split_spec := spec, tk_added_buckets := build_buckets added,
                    tk_template_prefix := ti_prefix inserts, tk_template_suffix := ti_suffix inserts\<rparr>"
    using assms by (auto simp: from_json_def elim!: bind_okE split: option.splits if_splits)
  note a = ParseAddedTokens_ok [OF added] and v = ParseModel_ok [OF model] and u = unmap_vocab_ok [OF bytes]
  let ?tk0 = "\<lparr>tk_normalize_nfc = False, tk_split_pattern = [], tk_split_spec = \<lparr>max_digit_run = 1\<rparr>,
                 tk_ignore_merges = md_ignore_merges model, tk_template_prefix = [], tk_template_suffix = [],
                 tk_token_to_id = md_token_to_id model, tk_id_to_token = md_id_to_token model, tk_id_to_bytes = bytes,
                 tk_merge_ranks = md_merge_ranks model, tk_added_tokens = [], tk_added_index = Map.empty,
                 tk_added_buckets = Map.empty\<rparr>"
  have "unmap_alphabet_to_bytes s = Inr (bytes ! nat i)" if "md_token_to_id model s = Some i" for s i
    using v u that by (auto simp: vocab_ok_def) (metis nat_less_iff)
  then have "merged_ok [] ?tk0" using v u by (simp add: merged_ok_def)
  then have "merged_ok added tk1" using add_tokens_loop_ok [of _ added "[]" ?tk0 tk1] loop a by simp
  then show ?thesis
    using a ParsePostProcessor_ok [OF post] by (simp add: tokenizer_ok_def merged_ok_def inserts_ok_def tk vocab_size_def)
qed

section \<open>Symbols of the alphabet\<close>

abbreviation is_cont :: "char \<Rightarrow> bool" where
  "is_cont b \<equiv> (of_char b AND 0xC0) = (0x80 :: nat)"

lemma alpha_utf8_bytes:
  "alpha_utf8 c = (let cp = alpha (of_char c) in
     if cp < 0x80 then [char_of cp] else [char_of (192 + cp div 64), char_of (128 + cp mod 64)])"
proof -
  have "alpha (of_char c) < 0x144" using alpha_less [of "of_char c"] by (simp add: kInverseSize_def)
  then show ?thesis by (simp add: alpha_utf8_def append_utf8_eq utf8_bytes_def Let_def)
qed

lemma alpha_utf8_shape:
  "\<exists>l cs. alpha_utf8 c = l # cs \<and> \<not> is_cont l \<and> (\<forall>b\<in>set cs. is_cont b)"
proof -
  define cp where "cp = alpha (of_char c)"
  have lt: "cp < 0x144" using alpha_less [of "of_char c"] by (simp add: kInverseSize_def cp_def)
  show ?thesis
  proof (cases "cp < 0x80")
    case True
    then have "alpha_utf8 c = [char_of cp]" "\<not> is_cont (char_of cp)"
      by (simp_all add: alpha_utf8_bytes cp_def [symmetric] Let_def of_char_of_nat and_fields)
    then show ?thesis by simp
  next
    case False
    have "cp div 64 < 6" "cp mod 64 < 64" using lt by auto
    moreover from this have "(192 + cp div 64) div 64 = 3" "(128 + cp mod 64) div 64 = 2" by auto
    ultimately have "alpha_utf8 c = [char_of (192 + cp div 64), char_of (128 + cp mod 64)]"
      "\<not> is_cont (char_of (192 + cp div 64))" "is_cont (char_of (128 + cp mod 64))"
      using False by (simp_all add: alpha_utf8_bytes cp_def [symmetric] Let_def of_char_of_nat and_fields)
    then show ?thesis by simp
  qed
qed

lemma initial_symbols_alpha: "initial_symbols (concat (map alpha_utf8 raw)) = map alpha_utf8 raw"
proof (induction raw)
  case Nil
  then show ?case by (simp add: initial_symbols.simps)
next
  case (Cons c raw)
  obtain l cs where a: "alpha_utf8 c = l # cs" "\<forall>b\<in>set cs. is_cont b"
    using alpha_utf8_shape [of c] by (elim exE conjE)
  let ?rest = "concat (map alpha_utf8 raw)"
  have "takeWhile is_cont ?rest = [] \<and> dropWhile is_cont ?rest = ?rest"
  proof (cases raw)
    case Nil
    then show ?thesis by simp
  next
    case (Cons d ds)
    obtain l' cs' where "alpha_utf8 d = l' # cs'" "\<not> is_cont l'" using alpha_utf8_shape [of d] by (elim exE conjE)
    then show ?thesis unfolding Cons by (simp only: list.map concat.simps append_Cons takeWhile.simps dropWhile.simps if_False simp_thms)
  qed
  then have r: "takeWhile is_cont ?rest = []" "dropWhile is_cont ?rest = ?rest" by (rule conjunct1, rule conjunct2)
  have "takeWhile is_cont (cs @ ?rest) = cs" using a(2) r(1) by (simp only: takeWhile_append2 append_Nil2)
  moreover have "dropWhile is_cont (cs @ ?rest) = ?rest" using a(2) r(2) by (simp only: dropWhile_append2)
  ultimately have "initial_symbols (l # (cs @ ?rest)) = (l # cs) # initial_symbols ?rest"
    by (subst initial_symbols.simps) (simp only: list.case Let_def)
  then show ?case using Cons.IH a(1) by simp
qed

lemma map_bytes_append: "map_bytes_to_alphabet a @ map_bytes_to_alphabet b = map_bytes_to_alphabet (a @ b)"
  by (simp add: map_bytes_concat)

lemma alpha_no_space: "CHR '' '' \<notin> set (map_bytes_to_alphabet raw)"
proof -
  have n: "CHR '' '' \<noteq> char_of k" if "k < 256" "k \<noteq> 32" for k :: nat
  proof
    assume "CHR '' '' = char_of k"
    then have "of_char (CHR '' '') = k" using of_char_of_nat [OF that(1)] by simp
    then show False using that(2) by simp
  qed
  have "CHR '' '' \<notin> set (alpha_utf8 c)" for c
  proof -
    define cp where "cp = alpha (of_char c)"
    have lt: "cp < 0x144" using alpha_less [of "of_char c"] by (simp add: kInverseSize_def cp_def)
    have ne: "cp \<noteq> 32" by (simp add: cp_def alpha_def IsPrintableLatin_def)
    have "cp div 64 < 6" "cp mod 64 < 64" using lt by auto
    then have k: "192 + cp div 64 < 256" "192 + cp div 64 \<noteq> 32" "128 + cp mod 64 < 256" "128 + cp mod 64 \<noteq> 32"
      by linarith+
    have "CHR '' '' \<noteq> char_of (192 + cp div 64)" "CHR '' '' \<noteq> char_of (128 + cp mod 64)"
      by (rule n [OF k(1,2)], rule n [OF k(3,4)])
    moreover have "cp < 0x80 \<Longrightarrow> CHR '' '' \<noteq> char_of cp" using ne by (intro n) auto
    ultimately show ?thesis unfolding alpha_utf8_bytes cp_def [symmetric] Let_def by (cases "cp < 0x80") simp_all
  qed
  then show ?thesis by (simp add: map_bytes_concat)
qed

text \<open>A property of the symbols that merging keeps holds of the split.\<close>

lemma bpe_loop_all:
  assumes "\<forall>s\<in>set symbols. P s" and "\<And>a b. P a \<Longrightarrow> P b \<Longrightarrow> ranks (a @ '' '' @ b) \<noteq> None \<Longrightarrow> P (a @ b)"
  shows "\<forall>s\<in>set (bpe_loop ranks symbols). P s"
  using assms(1)
proof (induction "length symbols" arbitrary: symbols rule: less_induct)
  case less
  obtain r i where b: "best_pair ranks symbols = (r, i)" by force
  show ?case
  proof (cases "1 < length symbols \<and> i \<noteq> length symbols")
    case True
    then have i: "Suc i < length symbols" and k: "ranks (merge_key symbols i) = Some r" using best_pair_spec(1) [OF b] by auto
    have "P (symbols ! i @ symbols ! Suc i)" using less.prems i k by (intro assms(2)) (auto simp: merge_key_def)
    then have "\<forall>s\<in>set (merge_at i symbols). P s"
      using less.prems by (auto simp: merge_at_eq [OF i] dest: in_set_takeD in_set_dropD)
    then have "\<forall>s\<in>set (bpe_loop ranks (merge_at i symbols)). P s"
      using less.hyps merge_shorter [OF b] True by blast
    then show ?thesis using True b by (subst bpe_loop.simps) simp
  next
    case False
    then have "bpe_loop ranks symbols = symbols" using b by (subst bpe_loop.simps) auto
    then show ?thesis using less.prems by simp
  qed
qed

lemma bpe_split_all:
  assumes "\<And>c. c \<in> set raw \<Longrightarrow> P (map_bytes_to_alphabet [c])"
    and "\<And>a b. P (map_bytes_to_alphabet a) \<Longrightarrow> P (map_bytes_to_alphabet b) \<Longrightarrow>
      ranks (map_bytes_to_alphabet a @ '' '' @ map_bytes_to_alphabet b) \<noteq> None \<Longrightarrow> P (map_bytes_to_alphabet (a @ b))"
  shows "\<forall>s\<in>set (bpe_split (map_bytes_to_alphabet raw) ranks). \<exists>bs. s = map_bytes_to_alphabet bs \<and> P s"
  unfolding bpe_split_def
proof (rule bpe_loop_all)
  show "\<forall>s\<in>set (initial_symbols (map_bytes_to_alphabet raw)). \<exists>bs. s = map_bytes_to_alphabet bs \<and> P s"
  proof
    fix s assume "s \<in> set (initial_symbols (map_bytes_to_alphabet raw))"
    then obtain c where "c \<in> set raw" "s = map_bytes_to_alphabet [c]"
      by (auto simp: map_bytes_concat initial_symbols_alpha)
    then show "\<exists>bs. s = map_bytes_to_alphabet bs \<and> P s" using assms(1) by blast
  qed
  show "\<exists>bs. a @ b = map_bytes_to_alphabet bs \<and> P (a @ b)"
    if "\<exists>bs. a = map_bytes_to_alphabet bs \<and> P a" and "\<exists>bs. b = map_bytes_to_alphabet bs \<and> P b"
      and "ranks (a @ '' '' @ b) \<noteq> None" for a b
    using that assms(2) by (metis map_bytes_append)
qed

lemma concat_bpe_split: "concat (bpe_split word ranks) = word"
  using bpe_loop_normal_form [of ranks "initial_symbols word"] by (simp add: bpe_split_def concat_initial_symbols)

section \<open>Decoding what was encoded\<close>

text \<open>No added token's content reads as the alphabet image of other bytes. It holds of every content
  made of printable ASCII characters, which the alphabet maps to themselves.\<close>

definition added_plain :: "Tokenizer \<Rightarrow> bool" where
  "added_plain tk \<longleftrightarrow> (\<forall>t\<in>set (tk_added_tokens tk). \<forall>b. unmap_alphabet_to_bytes (at_content t) = Inr b \<longrightarrow> b = at_content t)"

lemma token_spells:
  assumes "tokenizer_ok tk" and "added_plain tk" and "tk_token_to_id tk (map_bytes_to_alphabet bs) = Some i"
  shows "token_bytes tk i = Some bs"
proof -
  let ?s = "map_bytes_to_alphabet bs"
  have m: "merged_ok (tk_added_tokens tk) tk" using assms(1) by (simp add: tokenizer_ok_def)
  have l: "length (tk_id_to_bytes tk) = length (tk_id_to_token tk)" using m unfolding merged_ok_def by blast
  have v: "0 \<le> j \<and> j < int (length (tk_id_to_token tk)) \<and> tk_id_to_token tk ! nat j = s" if "tk_token_to_id tk s = Some j" for s j
    using m that unfolding merged_ok_def vocab_ok_def by blast
  have "tk_id_to_bytes tk ! nat i = bs"
  proof (cases "i \<in> at_id ` set (tk_added_tokens tk)")
    case True
    then obtain t where t: "t \<in> set (tk_added_tokens tk)" "at_id t = i" by blast
    then have "tk_token_to_id tk (at_content t) = Some i" using m by (auto simp: merged_ok_def)
    then have "at_content t = ?s" using v assms(3) by metis
    then have "bs = ?s" using assms(2) t(1) unmap_map [of bs] by (auto simp: added_plain_def)
    then show ?thesis using m assms(3) True unfolding merged_ok_def by metis
  next
    case False
    then have "unmap_alphabet_to_bytes ?s = Inr (tk_id_to_bytes tk ! nat i)"
      using m assms(3) unfolding merged_ok_def by auto
    then show ?thesis by (simp add: unmap_map)
  qed
  then show ?thesis using v [OF assms(3)] l by (simp add: token_bytes_def)
qed

lemma added_spells:
  assumes "tokenizer_ok tk" and "t \<in> set (tk_added_tokens tk)"
  shows "token_bytes tk (at_id t) = Some (at_content t)"
proof -
  have m: "merged_ok (tk_added_tokens tk) tk" using assms(1) by (simp add: tokenizer_ok_def)
  have s: "tk_token_to_id tk (at_content t) = Some (at_id t)" using m assms(2) by (auto simp: merged_ok_def)
  have "tk_id_to_bytes tk ! nat (at_id t) = at_content t" using m s assms(2) by (auto simp: merged_ok_def)
  moreover have "0 \<le> at_id t \<and> at_id t < int (length (tk_id_to_bytes tk))"
    using m s by (auto simp: merged_ok_def vocab_ok_def)
  ultimately show ?thesis by (simp add: token_bytes_def)
qed

definition spells :: "Tokenizer \<Rightarrow> int list status_or \<Rightarrow> string \<Rightarrow> bool" where
  "spells tk r bytes \<longleftrightarrow> (\<forall>ids. r = Inr ids \<longrightarrow> decode_bytes tk ids False = Inr bytes)"

lemma decode_bytes_append:
  "decode_bytes tk (xs @ ys) skip = bind_ok (decode_bytes tk xs skip) (\<lambda>a. bind_ok (decode_bytes tk ys skip) (\<lambda>b. Inr (a @ b)))"
proof (induction xs)
  case Nil
  then show ?case by (cases "decode_bytes tk ys skip") simp_all
next
  case (Cons x xs)
  then show ?case
    by (cases "decode_bytes tk xs skip"; cases "decode_bytes tk ys skip") (auto split: option.split)
qed

lemma spells_Nil [simp]: "spells tk (Inr []) []"
  by (simp add: spells_def)

lemma spells_bind: "spells tk r a \<Longrightarrow> (\<And>x. r = Inr x \<Longrightarrow> spells tk r' b) \<Longrightarrow> spells tk (bind_ok r (\<lambda>x. bind_ok r' (\<lambda>y. Inr (x @ y)))) (a @ b)"
  by (auto simp: spells_def decode_bytes_append elim!: bind_okE)

lemma spells_concat:
  "(\<And>p. p \<in> set ps \<Longrightarrow> spells tk (f p) (g p)) \<Longrightarrow> spells tk (concat_ok (map f ps)) (concat (map g ps))"
  by (induction ps) (auto intro!: spells_bind)

lemma spells_single: "token_bytes tk i = Some b \<Longrightarrow> spells tk (Inr [i]) b"
  by (simp add: spells_def)

lemma symbol_ids_spells:
  assumes "tokenizer_ok tk" and "added_plain tk"
  shows "\<forall>s\<in>set symbols. \<exists>bs. s = map_bytes_to_alphabet bs \<Longrightarrow>
    \<exists>b. map_bytes_to_alphabet b = concat symbols \<and> spells tk (symbol_ids tk symbols) b"
proof (induction symbols)
  case Nil
  then show ?case by (auto simp: map_bytes_concat intro!: exI [of _ "[]"])
next
  case (Cons s symbols)
  obtain bs where bs: "s = map_bytes_to_alphabet bs" using Cons.prems by auto
  obtain b where b: "map_bytes_to_alphabet b = concat symbols" "spells tk (symbol_ids tk symbols) b" using Cons by auto
  have "spells tk (symbol_ids tk (s # symbols)) (bs @ b)"
    using b(2) token_spells [OF assms, of bs]
    by (auto simp: spells_def bs elim!: bind_okE split: option.split_asm)
  then show ?case using b(1) by (auto simp: bs map_bytes_append [symmetric] intro!: exI [of _ "bs @ b"])
qed

lemma map_bytes_inj: "map_bytes_to_alphabet a = map_bytes_to_alphabet b \<Longrightarrow> a = b"
  by (drule arg_cong [where f = unmap_alphabet_to_bytes]) (simp only: unmap_map sum.inject)

lemma append_pretoken_spells:
  assumes "tokenizer_ok tk" and "added_plain tk"
  shows "spells tk (append_pretoken_ids tk p) p"
proof (cases "tk_ignore_merges tk \<and> tk_token_to_id tk (map_bytes_to_alphabet p) \<noteq> None")
  case True
  then have e: "append_pretoken_ids tk p = Inr [the (tk_token_to_id tk (map_bytes_to_alphabet p))]"
    by (simp only: append_pretoken_ids_def Let_def if_True simp_thms)
  obtain i where i: "tk_token_to_id tk (map_bytes_to_alphabet p) = Some i" using True by blast
  show ?thesis unfolding e i option.sel by (rule spells_single [OF token_spells [OF assms i]])
next
  case False
  let ?symbols = "bpe_split (map_bytes_to_alphabet p) (tk_merge_ranks tk)"
  have e: "append_pretoken_ids tk p = symbol_ids tk ?symbols"
    by (simp only: append_pretoken_ids_def Let_def False if_False)
  have "\<forall>s\<in>set ?symbols. \<exists>bs. s = map_bytes_to_alphabet bs \<and> True" by (rule bpe_split_all [where P = "\<lambda>_. True"]) (rule TrueI)+
  then have "\<forall>s\<in>set ?symbols. \<exists>bs. s = map_bytes_to_alphabet bs" by (simp only: simp_thms)
  from symbol_ids_spells [OF assms this] obtain b where
    b: "map_bytes_to_alphabet b = concat ?symbols" "spells tk (symbol_ids tk ?symbols) b" by (elim exE conjE)
  have "b = p" by (rule map_bytes_inj) (simp only: b(1) concat_bpe_split)
  with b(2) show ?thesis unfolding e by simp
qed

text \<open>The pieces of the added-token split, with the content standing for an id, concatenate to the text.\<close>

definition piece_bytes :: "Tokenizer \<Rightarrow> AddedSplitPiece \<Rightarrow> string" where
  "piece_bytes tk p = (if 0 \<le> asp_id p then the (token_bytes tk (asp_id p)) else asp_text p)"

definition no_strip :: "Tokenizer \<Rightarrow> bool" where
  "no_strip tk \<longleftrightarrow> (\<forall>t\<in>set (tk_added_tokens tk). \<not> at_lstrip t \<and> \<not> at_rstrip t)"

definition piece_ok :: "Tokenizer \<Rightarrow> AddedSplitPiece \<Rightarrow> bool" where
  "piece_ok tk p \<longleftrightarrow> (if 0 \<le> asp_id p then asp_id p \<in> at_id ` set (tk_added_tokens tk) else asp_id p = - 1)"

lemma find_match_mem:
  assumes "find_match text tokens bucket pos nrm = Some t" and "build_buckets tokens c = Some bucket"
  shows "t \<in> set tokens"
proof -
  have "t \<in> set (map (\<lambda>index. tokens ! index) bucket)"
    using assms(1) by (auto simp: find_match_def find_Some_iff)
  moreover have "\<forall>i\<in>set bucket. i < length tokens"
    using assms(2) by (auto simp: build_buckets_def Let_def split: if_splits)
  ultimately show ?thesis by auto
qed

lemma split_loop_pieces:
  assumes ok: "tokenizer_ok tk" and "b \<le> pos" and "pos \<le> length text"
  shows "(\<forall>p\<in>set (split_loop ud text (tk_added_tokens tk) (tk_added_buckets tk) nrm b pos). piece_ok tk p) \<and>
    (no_strip tk \<longrightarrow>
      concat (map (piece_bytes tk) (split_loop ud text (tk_added_tokens tk) (tk_added_buckets tk) nrm b pos)) = drop b text)"
  using assms(2,3)
proof (induction ud "text" "tk_added_tokens tk" "tk_added_buckets tk" nrm b pos rule: split_loop.induct)
  case (1 ud "text" nrm b pos)
  let ?ts = "tk_added_tokens tk" and ?bs = "tk_added_buckets tk"
  let ?P = "\<lambda>ps rest. (\<forall>p\<in>set ps. piece_ok tk p) \<and> (no_strip tk \<longrightarrow> concat (map (piece_bytes tk) ps) = rest)"
  show ?case
  proof (cases "pos < length text")
    case False
    then show ?thesis by (subst (1 2) split_loop.simps) (auto simp: piece_ok_def piece_bytes_def)
  next
    case lt: True
    show ?thesis
    proof (cases "?bs (text ! pos)")
      case None
      then show ?thesis using 1(1) [OF lt None] lt 1(4) by (subst (1 2) split_loop.simps) simp
    next
      case bucket: (Some bucket)
      show ?thesis
      proof (cases "find_match text ?ts bucket pos nrm")
        case None
        then show ?thesis using 1(2) [OF lt bucket None] lt 1(4) bucket by (subst (1 2) split_loop.simps) simp
      next
        case t: (Some t)
        have mem: "t \<in> set ?ts" using find_match_mem [OF t] bucket ok by (auto simp: tokenizer_ok_def)
        have ne: "at_content t \<noteq> []" "0 \<le> at_id t" using ok mem by (auto simp: tokenizer_ok_def)
        let ?e0 = "pos + length (at_content t)"
        let ?e = "if at_rstrip t then StripWhitespaceForward ud text ?e0 else ?e0"
        let ?b = "if at_lstrip t then StripWhitespaceBackward ud text pos b else pos"
        let ?pre = "if b < ?b then [\<lparr>asp_text = substr text b (?b - b), asp_id = - 1\<rparr>] else []"
        let ?rest = "split_loop ud text ?ts ?bs nrm ?e ?e"
        have u: "split_loop ud text ?ts ?bs nrm b pos = ?pre @ [\<lparr>asp_text = [], asp_id = at_id t\<rparr>] @ ?rest"
          using lt bucket t ne(1) by (subst split_loop.simps) (simp add: Let_def)
        note f = find_match_Some [OF t lt ne(1)]
        have e: "?e \<le> length text" using f(2) StripForward_bounds [OF f(2), of ud] by simp
        have IH: "?P ?rest (drop ?e text)" using 1(3) [OF lt bucket t refl refl refl ne(1)] e by simp
        have k: "piece_ok tk \<lparr>asp_text = [], asp_id = at_id t\<rparr>" "\<forall>p\<in>set ?pre. piece_ok tk p" using mem ne(2) by (auto simp: piece_ok_def)
        have c: "piece_bytes tk \<lparr>asp_text = [], asp_id = at_id t\<rparr> = at_content t"
          using added_spells [OF ok mem] ne(2) by (simp add: piece_bytes_def)
        have "concat (map (piece_bytes tk) (split_loop ud text ?ts ?bs nrm b pos)) = drop b text" if ns: "no_strip tk"
        proof -
          have s: "\<not> at_lstrip t" "\<not> at_rstrip t" using ns mem by (auto simp: no_strip_def)
          have "concat (map (piece_bytes tk) ?pre) = take (pos - b) (drop b text)"
            using s(1) 1(4) by (auto simp: piece_bytes_def substr_def)
          moreover have "at_content t @ drop ?e text = drop pos text"
            using s(2) f(3) append_take_drop_id [of "length (at_content t)" "drop pos text"] by (simp add: add.commute)
          moreover have "take (pos - b) (drop b text) @ drop pos text = drop b text"
            using append_take_drop_id [of "pos - b" "drop b text"] 1(4) by simp
          ultimately show ?thesis using IH ns unfolding u map_append concat_append by (simp add: c)
        qed
        then show ?thesis using IH k unfolding u by auto
      qed
    qed
  qed
qed

lemma split_pieces:
  assumes "tokenizer_ok tk"
  shows "p \<in> set (SplitOnAddedTokens ud text (tk_added_tokens tk) (tk_added_buckets tk) nrm) \<Longrightarrow> piece_ok tk p"
    and "no_strip tk \<Longrightarrow>
      concat (map (piece_bytes tk) (SplitOnAddedTokens ud text (tk_added_tokens tk) (tk_added_buckets tk) nrm)) = text"
  using split_loop_pieces [OF assms le0, of 0 "text" ud nrm] by (auto simp: SplitOnAddedTokens_def)

lemma token_piece_spells:
  assumes "tokenizer_ok tk" and "piece_ok tk p" and "0 \<le> asp_id p"
  shows "spells tk (Inr [asp_id p]) (piece_bytes tk p)"
  using assms added_spells [OF assms(1)] by (auto simp: piece_ok_def piece_bytes_def intro!: spells_single)

definition decodable :: "Tokenizer \<Rightarrow> bool" where
  "decodable tk \<longleftrightarrow> tokenizer_ok tk \<and> added_plain tk \<and> no_strip tk"

lemma decodable_nfc: "decodable (tk\<lparr>tk_normalize_nfc := b\<rparr>) = decodable tk"
  by (simp add: decodable_def tokenizer_ok_def merged_ok_def added_plain_def no_strip_def vocab_size_def token_bytes_def)

text \<open>What a tokenizer makes of the text before it looks for pieces: with NFC, every maximal well-formed stretch
  between two raw added tokens is normalized; ill-formed bytes and added tokens are kept.\<close>

definition normalize_stretch :: "UnicodeData \<Rightarrow> Tokenizer \<Rightarrow> string \<Rightarrow> string" where
  "normalize_stretch ud tk s = (if tk_normalize_nfc tk then nfc_normalize ud s else s)"

function normalized_from :: "UnicodeData \<Rightarrow> Tokenizer \<Rightarrow> string \<Rightarrow> nat \<Rightarrow> nat \<Rightarrow> string" where
  "normalized_from ud tk segment b pos =
     (if pos < length segment then
        case decode_utf8 segment pos of
          Some (cp, nxt) \<Rightarrow> normalized_from ud tk segment b nxt
        | None \<Rightarrow>
            let e = invalid_run segment (pos + 1) in
            (if b < pos then normalize_stretch ud tk (substr segment b (pos - b)) else []) @
            substr segment pos (e - pos) @ normalized_from ud tk segment e e
      else if b < length segment then normalize_stretch ud tk (drop b segment)
      else [])"
  by pat_completeness auto

termination
  by (relation "measure (\<lambda>(ud, tk, s, b, pos). length s - pos)")
     (auto intro!: diff_less_mono2 dest: decode_utf8_advance simp: invalid_run_gt)

declare normalized_from.simps [simp del]

definition normalized :: "UnicodeData \<Rightarrow> Tokenizer \<Rightarrow> string \<Rightarrow> string" where
  "normalized ud tk text =
     concat (map (\<lambda>p. if 0 \<le> asp_id p then the (token_bytes tk (asp_id p)) else normalized_from ud tk (asp_text p) 0 0)
       (SplitOnAddedTokens ud text (tk_added_tokens tk) (tk_added_buckets tk) False))"

lemma encode_text_segment_spells:
  assumes "decodable tk"
  shows "spells tk (encode_text_segment ud tk segment) (normalize_stretch ud tk segment)"
proof -
  have ok: "tokenizer_ok tk" and pl: "added_plain tk" and ns: "no_strip tk"
    using assms by (simp_all add: decodable_def)
  let ?ps = "SplitOnAddedTokens ud (normalize_stretch ud tk segment) (tk_added_tokens tk) (tk_added_buckets tk) True"
  have "spells tk (if 0 \<le> asp_id p then Inr [asp_id p]
      else concat_ok (map (append_pretoken_ids tk) (pretokenize ud (asp_text p) (tk_split_spec tk)))) (piece_bytes tk p)"
    if p: "p \<in> set ?ps" for p
  proof (cases "0 \<le> asp_id p")
    case True
    then show ?thesis using token_piece_spells [OF ok split_pieces(1) [OF ok p]] by simp
  next
    case False
    have "spells tk (concat_ok (map (append_pretoken_ids tk) (pretokenize ud (asp_text p) (tk_split_spec tk))))
        (concat (map (\<lambda>x. x) (pretokenize ud (asp_text p) (tk_split_spec tk))))"
      by (rule spells_concat) (rule append_pretoken_spells [OF ok pl])
    then show ?thesis using False pretokenize_concat [of ud "asp_text p" "tk_split_spec tk"] by (simp add: piece_bytes_def)
  qed
  then have "spells tk (encode_text_segment ud tk segment) (concat (map (piece_bytes tk) ?ps))"
    unfolding encode_text_segment_def Let_def normalize_stretch_def by (rule spells_concat)
  then show ?thesis by (simp only: split_pieces(2) [OF ok ns])
qed

lemma piece_loop_unfold:
  "piece_loop ud tk segment b pos =
     (if pos < length segment then
        case decode_utf8 segment pos of
          Some (cp, nxt) \<Rightarrow> piece_loop ud tk segment b nxt
        | None \<Rightarrow>
            let run_end = invalid_run segment (pos + 1) in
            bind_ok (if b < pos then encode_text_segment ud tk (substr segment b (pos - b)) else Inr [])
              (\<lambda>xs. bind_ok (bind_ok (append_pretoken_ids tk (substr segment pos (run_end - pos)))
              (\<lambda>ys. bind_ok (piece_loop ud tk segment run_end run_end)
              (\<lambda>zs. Inr (ys @ zs)))) (\<lambda>ws. Inr (xs @ ws)))
      else if b < length segment then encode_text_segment ud tk (drop b segment)
      else Inr [])"
proof -
  have b: "bind_ok x (\<lambda>xs. bind_ok y (\<lambda>ys. bind_ok z (\<lambda>zs. Inr (xs @ ys @ zs)))) =
    bind_ok x (\<lambda>xs. bind_ok (bind_ok y (\<lambda>ys. bind_ok z (\<lambda>zs. Inr (ys @ zs)))) (\<lambda>ws. Inr (xs @ ws)))"
    for x y z :: "int list status_or"
    by (cases x; cases y; cases z) simp_all
  show ?thesis by (subst piece_loop.simps) (simp only: b)
qed

lemma drop_two:
  assumes "b \<le> pos" and "pos \<le> e"
  shows "substr text b (pos - b) @ substr text pos (e - pos) @ drop e text = drop b text"
proof -
  have "substr text pos (e - pos) @ drop e text = drop pos text"
    using append_take_drop_id [of "e - pos" "drop pos text"] assms(2) by (simp add: substr_def)
  then show ?thesis using append_take_drop_id [of "pos - b" "drop b text"] assms(1) by (simp add: substr_def)
qed

lemma piece_loop_spells:
  assumes "decodable tk" and "b \<le> pos" and "pos \<le> length segment"
  shows "spells tk (piece_loop ud tk segment b pos) (normalized_from ud tk segment b pos)"
  using assms
proof (induction ud tk segment b pos rule: piece_loop.induct)
  case (1 ud tk segment b pos)
  note d = 1(3) and le = 1(4,5)
  show ?case
  proof (cases "pos < length segment")
    case False
    then show ?thesis using encode_text_segment_spells [OF d] by (subst piece_loop.simps, subst normalized_from.simps) simp
  next
    case lt: True
    show ?thesis
    proof (cases "decode_utf8 segment pos")
      case (Some a)
      obtain cp nxt where a: "a = (cp, nxt)" by force
      then have n: "pos < nxt" "nxt \<le> length segment" using decode_utf8_advance Some by blast+
      have "spells tk (piece_loop ud tk segment b nxt) (normalized_from ud tk segment b nxt)"
        using 1(2) [OF lt Some a [symmetric] d] le n by simp
      then show ?thesis using lt Some a by (subst piece_loop.simps, subst normalized_from.simps) simp
    next
      case None
      let ?e = "invalid_run segment (pos + 1)"
      have e: "pos < ?e" "?e \<le> length segment" using invalid_run_gt [OF lt] invalid_run_bounds [of "pos + 1" segment] lt by auto
      have ok: "tokenizer_ok tk" "added_plain tk" using d by (simp_all add: decodable_def)
      let ?x = "if b < pos then encode_text_segment ud tk (substr segment b (pos - b)) else Inr []"
      let ?y = "append_pretoken_ids tk (substr segment pos (?e - pos))"
      have u: "piece_loop ud tk segment b pos =
        bind_ok ?x (\<lambda>xs. bind_ok (bind_ok ?y (\<lambda>ys. bind_ok (piece_loop ud tk segment ?e ?e) (\<lambda>zs. Inr (ys @ zs)))) (\<lambda>ws. Inr (xs @ ws)))"
        using lt None by (subst piece_loop_unfold) (simp only: if_True option.case Let_def)
      have x: "spells tk ?x (if b < pos then normalize_stretch ud tk (substr segment b (pos - b)) else [])"
        using encode_text_segment_spells [OF d] by simp
      have y: "spells tk ?y (substr segment pos (?e - pos))" by (rule append_pretoken_spells [OF ok])
      have z: "spells tk (piece_loop ud tk segment ?e ?e) (normalized_from ud tk segment ?e ?e)" if "?x = Inr xs" and "?y = Inr ys" for xs ys
        using 1(1) [OF lt None refl that d] e by simp
      have n: "normalized_from ud tk segment b pos =
        (if b < pos then normalize_stretch ud tk (substr segment b (pos - b)) else []) @
        substr segment pos (?e - pos) @ normalized_from ud tk segment ?e ?e"
        using lt None by (subst normalized_from.simps) (simp add: Let_def)
      show ?thesis unfolding u n by (rule spells_bind [OF x spells_bind [OF y z]])
    qed
  qed
qed

text \<open>Without NFC nothing is changed.\<close>

lemma normalized_from_raw:
  assumes "\<not> tk_normalize_nfc tk" and "b \<le> pos" and "pos \<le> length segment"
  shows "normalized_from ud tk segment b pos = drop b segment"
  using assms
proof (induction ud tk segment b pos rule: normalized_from.induct)
  case (1 ud tk segment b pos)
  show ?case
  proof (cases "pos < length segment")
    case False
    then show ?thesis using 1(3) by (subst normalized_from.simps) (simp add: normalize_stretch_def)
  next
    case lt: True
    show ?thesis
    proof (cases "decode_utf8 segment pos")
      case (Some a)
      obtain cp nxt where a: "a = (cp, nxt)" by force
      then have n: "pos < nxt" "nxt \<le> length segment" using decode_utf8_advance Some by blast+
      have "normalized_from ud tk segment b nxt = drop b segment" using 1(2) [OF lt Some a [symmetric] 1(3)] 1(4) n by simp
      then show ?thesis using lt Some a by (subst normalized_from.simps) simp
    next
      case None
      let ?e = "invalid_run segment (pos + 1)"
      have e: "pos < ?e" "?e \<le> length segment" using invalid_run_gt [OF lt] invalid_run_bounds [of "pos + 1" segment] lt by auto
      have "normalized_from ud tk segment ?e ?e = drop ?e segment" using 1(1) [OF lt None refl 1(3)] e by simp
      moreover have "(if b < pos then normalize_stretch ud tk (substr segment b (pos - b)) else []) = substr segment b (pos - b)"
        using 1(3,4) by (auto simp: normalize_stretch_def substr_def)
      ultimately have "normalized_from ud tk segment b pos = substr segment b (pos - b) @ substr segment pos (?e - pos) @ drop ?e segment"
        using lt None by (subst normalized_from.simps) (simp add: Let_def)
      then show ?thesis using drop_two [of b pos ?e segment] 1(4) e(1) by simp
    qed
  qed
qed

lemma normalized_raw:
  assumes "decodable tk" and "\<not> tk_normalize_nfc tk"
  shows "normalized ud tk text = text"
proof -
  let ?ps = "SplitOnAddedTokens ud text (tk_added_tokens tk) (tk_added_buckets tk) False"
  have "(\<lambda>p. if 0 \<le> asp_id p then the (token_bytes tk (asp_id p)) else normalized_from ud tk (asp_text p) 0 0) = piece_bytes tk"
    using normalized_from_raw [OF assms(2) le0 le0] by (simp add: fun_eq_iff piece_bytes_def)
  then show ?thesis using split_pieces(2) [of tk ud "text" False] assms(1) by (simp add: normalized_def decodable_def)
qed

lemma encode_spells:
  assumes "decodable tk"
  shows "spells tk (encode ud tk text False) (normalized ud tk text)"
proof -
  have ok: "tokenizer_ok tk" using assms by (simp add: decodable_def)
  let ?ps = "SplitOnAddedTokens ud text (tk_added_tokens tk) (tk_added_buckets tk) False"
  have "spells tk (if 0 \<le> asp_id p then Inr [asp_id p] else piece_loop ud tk (asp_text p) 0 0)
      (if 0 \<le> asp_id p then the (token_bytes tk (asp_id p)) else normalized_from ud tk (asp_text p) 0 0)"
    if p: "p \<in> set ?ps" for p
    using token_piece_spells [OF ok split_pieces(1) [OF ok p]] piece_loop_spells [OF assms le0 le0, of ud "asp_text p"]
    by (simp add: piece_bytes_def)
  then have "spells tk (concat_ok (map (\<lambda>p. if 0 \<le> asp_id p then Inr [asp_id p] else piece_loop ud tk (asp_text p) 0 0) ?ps))
      (normalized ud tk text)" unfolding normalized_def by (rule spells_concat)
  then show ?thesis by (auto simp: encode_def spells_def elim!: bind_okE)
qed

section \<open>Encoding cannot fail\<close>

definition byte_complete :: "Tokenizer \<Rightarrow> bool" where
  "byte_complete tk \<longleftrightarrow> (\<forall>c. tk_token_to_id tk (map_bytes_to_alphabet [c]) \<noteq> None)"

text \<open>A result that is there, with every id inside the vocabulary.\<close>

definition fits :: "Tokenizer \<Rightarrow> int list status_or \<Rightarrow> bool" where
  "fits tk r \<longleftrightarrow> (\<exists>ids. r = Inr ids \<and> (\<forall>i\<in>set ids. 0 \<le> i \<and> i < vocab_size tk))"

lemma fits_Inr [simp]: "fits tk (Inr ids) \<longleftrightarrow> (\<forall>i\<in>set ids. 0 \<le> i \<and> i < vocab_size tk)"
  by (simp add: fits_def)

lemma fits_bind: "fits tk r \<Longrightarrow> (\<And>x. r = Inr x \<Longrightarrow> fits tk r') \<Longrightarrow> fits tk (bind_ok r (\<lambda>x. bind_ok r' (\<lambda>y. Inr (x @ y))))"
  by (auto simp: fits_def)

lemma fits_concat: "(\<And>p. p \<in> set ps \<Longrightarrow> fits tk (f p)) \<Longrightarrow> fits tk (concat_ok (map f ps))"
  by (induction ps) (auto intro!: fits_bind)

lemma token_in_vocab:
  "tokenizer_ok tk \<Longrightarrow> tk_token_to_id tk s = Some i \<Longrightarrow> 0 \<le> i \<and> i < vocab_size tk"
  by (auto simp: tokenizer_ok_def merged_ok_def vocab_ok_def vocab_size_def)

lemma symbol_ids_fits:
  assumes "tokenizer_ok tk"
  shows "\<forall>s\<in>set symbols. tk_token_to_id tk s \<noteq> None \<Longrightarrow> fits tk (symbol_ids tk symbols)"
proof (induction symbols)
  case (Cons s symbols)
  then obtain i ids where "tk_token_to_id tk s = Some i" "symbol_ids tk symbols = Inr ids" by (auto simp: fits_def)
  then show ?case using Cons token_in_vocab [OF assms] by simp
qed simp

lemma append_pretoken_fits:
  assumes "tokenizer_ok tk" and "byte_complete tk"
  shows "fits tk (append_pretoken_ids tk p)"
proof (cases "tk_ignore_merges tk \<and> tk_token_to_id tk (map_bytes_to_alphabet p) \<noteq> None")
  case True
  then have e: "append_pretoken_ids tk p = Inr [the (tk_token_to_id tk (map_bytes_to_alphabet p))]"
    by (simp only: append_pretoken_ids_def Let_def if_True simp_thms)
  obtain i where i: "tk_token_to_id tk (map_bytes_to_alphabet p) = Some i" using True by blast
  show ?thesis unfolding e i option.sel using token_in_vocab [OF assms(1) i] by simp
next
  case False
  let ?symbols = "bpe_split (map_bytes_to_alphabet p) (tk_merge_ranks tk)"
  have e: "append_pretoken_ids tk p = symbol_ids tk ?symbols"
    by (simp only: append_pretoken_ids_def Let_def False if_False)
  have mo: "merges_ok (tk_merge_ranks tk) (tk_token_to_id tk)" using assms(1) by (simp add: tokenizer_ok_def merged_ok_def)
  have "tk_token_to_id tk (map_bytes_to_alphabet (a @ b)) \<noteq> None"
    if "tk_merge_ranks tk (map_bytes_to_alphabet a @ '' '' @ map_bytes_to_alphabet b) \<noteq> None" for a b
    using mo that alpha_no_space unfolding merges_ok_def map_bytes_append [symmetric] by blast
  then have "\<forall>s\<in>set ?symbols. \<exists>bs. s = map_bytes_to_alphabet bs \<and> tk_token_to_id tk s \<noteq> None"
    using assms(2) by (intro bpe_split_all [where P = "\<lambda>s. tk_token_to_id tk s \<noteq> None"]) (simp_all only: byte_complete_def simp_thms)
  then show ?thesis unfolding e using symbol_ids_fits [OF assms(1)] by blast
qed

lemma added_fits:
  assumes "tokenizer_ok tk" and "piece_ok tk p" and "0 \<le> asp_id p"
  shows "fits tk (Inr [asp_id p])"
proof -
  obtain t where t: "t \<in> set (tk_added_tokens tk)" "asp_id p = at_id t" using assms(2,3) by (auto simp: piece_ok_def)
  have "merged_ok (tk_added_tokens tk) tk" using assms(1) by (simp add: tokenizer_ok_def)
  then have "tk_token_to_id tk (at_content t) = Some (at_id t)" using t(1) unfolding merged_ok_def by blast
  from token_in_vocab [OF assms(1) this] show ?thesis by (simp add: t(2))
qed

lemma encode_text_segment_fits:
  assumes "tokenizer_ok tk" and "byte_complete tk"
  shows "fits tk (encode_text_segment ud tk segment)"
  unfolding encode_text_segment_def Let_def
proof (rule fits_concat, goal_cases)
  case (1 p)
  have "fits tk (concat_ok (map (append_pretoken_ids tk) (pretokenize ud (asp_text p) (tk_split_spec tk))))"
    by (rule fits_concat) (rule append_pretoken_fits [OF assms])
  then show ?case using added_fits [OF assms(1) split_pieces(1) [OF assms(1) 1]]
    by (cases "0 \<le> asp_id p") (simp_all only: if_True if_False)
qed

lemma piece_loop_fits:
  assumes "tokenizer_ok tk" and "byte_complete tk"
  shows "fits tk (piece_loop ud tk segment b pos)"
  using assms
proof (induction ud tk segment b pos rule: piece_loop.induct)
  case (1 ud tk segment b pos)
  note f = encode_text_segment_fits [OF 1(3,4)] append_pretoken_fits [OF 1(3,4)]
  show ?case
  proof (cases "pos < length segment")
    case False
    then show ?thesis using f by (subst piece_loop.simps) simp
  next
    case lt: True
    show ?thesis
    proof (cases "decode_utf8 segment pos")
      case (Some a)
      obtain cp nxt where a: "a = (cp, nxt)" by force
      show ?thesis using 1(2) [OF lt Some a [symmetric] 1(3,4)] lt Some a by (subst piece_loop.simps) simp
    next
      case None
      let ?e = "invalid_run segment (pos + 1)"
      let ?x = "if b < pos then encode_text_segment ud tk (substr segment b (pos - b)) else Inr []"
      let ?y = "append_pretoken_ids tk (substr segment pos (?e - pos))"
      have u: "piece_loop ud tk segment b pos =
        bind_ok ?x (\<lambda>xs. bind_ok (bind_ok ?y (\<lambda>ys. bind_ok (piece_loop ud tk segment ?e ?e) (\<lambda>zs. Inr (ys @ zs)))) (\<lambda>ws. Inr (xs @ ws)))"
        using lt None by (subst piece_loop_unfold) (simp only: if_True option.case Let_def)
      have x: "fits tk ?x" using f(1) by simp
      have z: "fits tk (piece_loop ud tk segment ?e ?e)" if "?x = Inr xs" and "?y = Inr ys" for xs ys
        by (rule 1(1) [OF lt None refl that 1(3,4)])
      show ?thesis unfolding u by (rule fits_bind [OF x fits_bind [OF f(2) z]])
    qed
  qed
qed

lemma encode_fits:
  assumes "tokenizer_ok tk" and "byte_complete tk"
  shows "fits tk (encode ud tk text special)"
proof -
  let ?ps = "SplitOnAddedTokens ud text (tk_added_tokens tk) (tk_added_buckets tk) False"
  let ?f = "\<lambda>p. if 0 \<le> asp_id p then Inr [asp_id p] else piece_loop ud tk (asp_text p) 0 0"
  have "fits tk (?f p)" if "p \<in> set ?ps" for p
    using added_fits [OF assms(1) split_pieces(1) [OF assms(1) that]] piece_loop_fits [OF assms, of ud "asp_text p" 0 0]
    by (cases "0 \<le> asp_id p") (simp_all only: if_True if_False)
  then have "fits tk (concat_ok (map ?f ?ps))" by (rule fits_concat)
  moreover have "\<forall>i\<in>set (tk_template_prefix tk @ tk_template_suffix tk). 0 \<le> i \<and> i < vocab_size tk"
    using assms(1) by (simp add: tokenizer_ok_def)
  ultimately show ?thesis by (auto simp: encode_def fits_def)
qed

section \<open>A sample\<close>

text \<open>A document without a base vocabulary, whose one token is special.\<close>

definition sample_doc :: Json where
  "sample_doc = JObject
     [(''model'', JObject [(''type'', JString ''BPE''), (''vocab'', JObject []), (''merges'', JArray [])]),
      (''added_tokens'', JArray [JObject [(''id'', JInt 0), (''content'', JString ''<s>''), (''special'', JBool True)]]),
      (''pre_tokenizer'', JObject [(''type'', JString ''Sequence''), (''pretokenizers'', JArray
        [JObject [(''type'', JString ''Split''), (''pattern'', JObject [(''Regex'', JString kQwen2Pattern)]),
                  (''behavior'', JString ''Isolated''), (''invert'', JBool False)],
         JObject [(''type'', JString ''ByteLevel''), (''add_prefix_space'', JBool False), (''use_regex'', JBool False)]])])]"

text \<open>The tokenizer whose vocabulary is the 256 bytes.\<close>

definition byte_symbols :: "string list" where
  "byte_symbols = map (\<lambda>b. map_bytes_to_alphabet [char_of (b :: nat)]) [0..<256]"

definition byte_tokenizer :: Tokenizer where
  "byte_tokenizer =
     \<lparr>tk_normalize_nfc = False, tk_split_pattern = kQwen2Pattern, tk_split_spec = \<lparr>max_digit_run = 1\<rparr>, tk_ignore_merges = False,
      tk_template_prefix = [], tk_template_suffix = [],
      tk_token_to_id = map_of (map (\<lambda>b. (map_bytes_to_alphabet [char_of (b :: nat)], int b)) [0..<256]),
      tk_id_to_token = byte_symbols, tk_id_to_bytes = map (\<lambda>b. [char_of (b :: nat)]) [0..<256],
      tk_merge_ranks = Map.empty, tk_added_tokens = [], tk_added_index = Map.empty, tk_added_buckets = build_buckets []\<rparr>"

lemma byte_tokenizer_ok: "decodable byte_tokenizer" and byte_tokenizer_complete: "byte_complete byte_tokenizer"
proof -
  let ?ids = "map_of (map (\<lambda>b. (map_bytes_to_alphabet [char_of (b :: nat)], int b)) [0..<256])"
  have ids: "\<exists>b<256. s = map_bytes_to_alphabet [char_of (b :: nat)] \<and> i = int b" if "?ids s = Some i" for s i
    using map_of_SomeD [OF that] by auto
  have v: "vocab_ok byte_symbols ?ids" using ids by (fastforce simp: vocab_ok_def byte_symbols_def)
  have u: "unmap_alphabet_to_bytes s = Inr (map (\<lambda>b. [char_of (b :: nat)]) [0..<256] ! nat i)" if "?ids s = Some i" for s i
    using ids [OF that] by (auto simp: unmap_map)
  have "merged_ok [] byte_tokenizer" using v u
    by (simp add: merged_ok_def byte_tokenizer_def merges_ok_def byte_symbols_def)
  then show "decodable byte_tokenizer"
    by (simp add: decodable_def tokenizer_ok_def byte_tokenizer_def added_plain_def no_strip_def)
  have "?ids (map_bytes_to_alphabet [c]) \<noteq> None" for c
  proof -
    have "c = char_of (of_char c :: nat)" "of_char c < (256 :: nat)" by simp_all
    then have "map_bytes_to_alphabet [c] \<in> (\<lambda>b. map_bytes_to_alphabet [char_of (b :: nat)]) ` {0..<256}"
      by (intro image_eqI [of _ _ "of_char c"]) (simp_all only: atLeastLessThan_iff le0 simp_thms)
    then show ?thesis by (auto simp: map_of_eq_None_iff image_image)
  qed
  then show "byte_complete byte_tokenizer" by (simp add: byte_complete_def byte_tokenizer_def)
qed

text \<open>A tokenizer with NFC, and a text it changes: the two conjoining jamo of a syllable.\<close>

definition jamo_tables :: UnicodeData where
  "jamo_tables = no_tables\<lparr>kNfcNoOrMaybeRanges := [(0x1161, 0x1175)]\<rparr>"

definition jamo_text :: string where
  "jamo_text = append_utf8 [] 0x1112 @ append_utf8 [] 0x1161"

definition nfc_tokenizer :: Tokenizer where
  "nfc_tokenizer = byte_tokenizer\<lparr>tk_normalize_nfc := True\<rparr>"

lemma jamo_facts:
  shows "decode_utf8 jamo_text 0 = Some (0x1112, 3)" and "decode_utf8 jamo_text 3 = Some (0x1161, 6)"
    and "length jamo_text = 6" and "0x80 \<le> byte_at jamo_text 0" and "0x80 \<le> byte_at jamo_text 3"
proof -
  have enc: "append_utf8 [] 0x1112 = map char_of (utf8_bytes 0x1112)" "append_utf8 [] 0x1161 = map char_of (utf8_bytes 0x1161)"
    by (simp_all add: append_utf8_eq)
  have len: "length (utf8_bytes 0x1112) = 3" "length (utf8_bytes 0x1161) = 3" by (simp_all add: utf8_bytes_def)
  show "decode_utf8 jamo_text 0 = Some (0x1112, 3)"
    using decode_append_utf8 [of "0x1112" "[]" "append_utf8 [] 0x1161"] len by (simp add: jamo_text_def)
  show "decode_utf8 jamo_text 3 = Some (0x1161, 6)"
    using decode_append_utf8 [of "0x1161" "append_utf8 [] 0x1112" "[]"] len by (simp add: jamo_text_def enc)
  show "length jamo_text = 6" by (simp add: jamo_text_def enc len)
  show "0x80 \<le> byte_at jamo_text 0" by (simp add: jamo_text_def enc byte_at_def utf8_bytes_def)
  show "0x80 \<le> byte_at jamo_text 3" by (simp add: jamo_text_def enc byte_at_def utf8_bytes_def)
qed

lemma jamo_normalize: "nfc_normalize jamo_tables jamo_text = append_utf8 [] 0xD558"
proof -
  have s: "\<not> nfc_inert_scan jamo_tables jamo_text 0" using jamo_facts
    by (subst nfc_inert_scan.simps, simp)
      (subst nfc_inert_scan.simps, simp add: IsNfcInert_def InRanges_def jamo_tables_def no_tables_def CombiningClass_def)
  have n: "NormalizeSegment jamo_tables [0x1112, 0x1161] [] = append_utf8 [] 0xD558"
    by (simp add: NormalizeSegment_def decompose_one_def canonical_compose_def canonical_order_def CombiningClass_def jamo_tables_def
      no_tables_def compose_step_def ComposePair_def hangul_defs CanonicalDecomposition_def)
  have "nfc_segments jamo_tables jamo_text 0 [] [] = append_utf8 [] 0xD558"
    using jamo_facts n nfc_segments.simps [of jamo_tables jamo_text 0 "[]" "[]"]
      nfc_segments.simps [of jamo_tables jamo_text 3 "[0x1112]" "[]"] nfc_segments.simps [of jamo_tables jamo_text 6 "[0x1112, 0x1161]" "[]"]
    by simp
  then show ?thesis using s by (simp add: nfc_normalize_def)
qed
lemma jamo_split: "pos \<le> 6 \<Longrightarrow> split_loop ud jamo_text [] (\<lambda>c. None) m 0 pos = [\<lparr>asp_text = jamo_text, asp_id = - 1\<rparr>]"
  by (induction "6 - pos" arbitrary: pos) (subst split_loop.simps, simp add: jamo_facts)+

lemma jamo_normalized: "normalized jamo_tables nfc_tokenizer jamo_text = append_utf8 [] 0xD558"
proof -
  have b: "build_buckets [] = (\<lambda>c. None)" by (simp add: fun_eq_iff build_buckets_def)
  have "normalized_from jamo_tables nfc_tokenizer jamo_text 0 0 = nfc_normalize jamo_tables jamo_text"
    using jamo_facts normalized_from.simps [of jamo_tables nfc_tokenizer jamo_text 0 0]
      normalized_from.simps [of jamo_tables nfc_tokenizer jamo_text 0 3] normalized_from.simps [of jamo_tables nfc_tokenizer jamo_text 0 6]
    by (simp add: normalize_stretch_def nfc_tokenizer_def)
  then show ?thesis
    by (simp add: normalized_def SplitOnAddedTokens_def nfc_tokenizer_def byte_tokenizer_def b jamo_split jamo_normalize)
qed

lemma syllable_valid: "append_utf8_lossy [] (append_utf8 [] 0xD558) = append_utf8 [] 0xD558"
proof -
  have e: "append_utf8 [] 0xD558 = [char_of (237 :: nat), char_of (149 :: nat), char_of (152 :: nat)]"
    by (simp add: append_utf8_eq utf8_bytes_def)
  show ?thesis unfolding e
    by (simp add: lossy_step classify_cases lead_class_def byte_at_def Let_def numeral_2_eq_2)
qed

section \<open>Properties\<close>

text \<open>C21. What \<open>from_json\<close> guarantees: if it accepts a document, the tables agree. The two id tables have one
  length; every entry of the token map names the position that holds the token; an added token's id decodes to
  its content and every other id to the bytes its vocabulary string stands for; the added-token index is exact;
  the product of every merge is in the vocabulary; the template inserts only ids of the vocabulary.\<close>

theorem from_json_tables:
  assumes "from_json parse input = Inr tk"
  shows "tokenizer_ok tk"
  by (rule from_json_ok [OF assms])

theorem from_json_tables_witness:
  "\<exists>tk. from_json (\<lambda>_. Some sample_doc) ''{...}'' = Inr tk \<and> tokenizer_ok tk \<and> vocab_size tk = 1 \<and> is_special tk 0"
proof -
  have "case from_json (\<lambda>_. Some sample_doc) ''{...}'' of Inl _ \<Rightarrow> False | Inr tk \<Rightarrow> vocab_size tk = 1 \<and> is_special tk 0"
    by code_simp
  then show ?thesis using from_json_tables by (auto split: sum.splits)
qed

text \<open>C20. Encoding cannot fail, whatever the bytes of the text: on consistent tables with a token for each of
  the 256 bytes, \<open>encode\<close> returns ids, with or without the template, and every id is inside the vocabulary, so
  every one of them decodes.\<close>

theorem encode_total:
  assumes "tokenizer_ok tk" and "byte_complete tk"
  shows "\<exists>ids. encode ud tk text special = Inr ids \<and> (\<forall>i\<in>set ids. 0 \<le> i \<and> i < vocab_size tk)"
  using encode_fits [OF assms, of ud "text" special] by (simp add: fits_def)

theorem encode_total_witness:
  "\<exists>ids. encode no_tables byte_tokenizer [char_of (255 :: nat), CHR ''a''] True = Inr ids \<and> (\<forall>i\<in>set ids. 0 \<le> i \<and> i < 256)"
proof -
  have "vocab_size byte_tokenizer = 256" by (simp add: vocab_size_def byte_tokenizer_def byte_symbols_def)
  then show ?thesis
    using encode_total [OF _ byte_tokenizer_complete, of no_tables "[char_of (255 :: nat), CHR ''a'']" True] byte_tokenizer_ok
    by (simp add: decodable_def)
qed

text \<open>C19. Decoding inverts encoding up to normalization. For a tokenizer with consistent tables whose vocabulary has
  the 256 bytes, whose added tokens have plain contents and strip no whitespace around them, and which encodes
  without its template and decodes with its special tokens: any byte string encodes, and its ids decode to the
  text normalized as the tokenizer asks, with each maximal ill-formed sequence replaced by U+FFFD. Without NFC
  the normalized text is the text itself; with NFC each maximal well-formed stretch outside added tokens is
  replaced by its normal form.\<close>

theorem decode_inverts_encode:
  assumes "decodable tk" and "byte_complete tk"
  shows "\<exists>ids. encode ud tk text False = Inr ids \<and>
    decode tk ids False = Inr (append_utf8_lossy [] (normalized ud tk text)) \<and>
    (\<not> tk_normalize_nfc tk \<longrightarrow> normalized ud tk text = text)"
proof -
  obtain ids where "encode ud tk text False = Inr ids"
    using encode_fits [of tk ud "text" False] assms by (auto simp: decodable_def fits_def)
  then show ?thesis
    using encode_spells [OF assms(1), of ud "text"] normalized_raw [OF assms(1), of ud "text"] by (simp add: spells_def decode_def)
qed

text \<open>The theorem at a tokenizer without NFC, and at one with NFC on a text that it composes.\<close>

theorem decode_inverts_encode_witness:
  "(\<exists>ids. encode no_tables byte_tokenizer ''ok'' False = Inr ids \<and> decode byte_tokenizer ids False = Inr ''ok'') \<and>
   (\<exists>ids. encode jamo_tables nfc_tokenizer (append_utf8 [] 0x1112 @ append_utf8 [] 0x1161) False = Inr ids \<and>
      decode nfc_tokenizer ids False = Inr (append_utf8 [] 0xD558))"
proof -
  have l: "append_utf8_lossy [] ''ok'' = ''ok''"
    by (simp add: append_utf8_lossy.simps classify_utf8_prefix_def byte_at_def Let_def)
  have raw: "\<not> tk_normalize_nfc byte_tokenizer" by (simp add: byte_tokenizer_def)
  have n: "normalized no_tables byte_tokenizer ''ok'' = ''ok''" by (rule normalized_raw [OF byte_tokenizer_ok raw])
  have d: "decodable nfc_tokenizer" "byte_complete nfc_tokenizer"
    using byte_tokenizer_ok byte_tokenizer_complete by (simp_all add: nfc_tokenizer_def decodable_nfc byte_complete_def)
  show ?thesis
  proof (rule conjI)
    show "\<exists>ids. encode no_tables byte_tokenizer ''ok'' False = Inr ids \<and> decode byte_tokenizer ids False = Inr ''ok''"
      using decode_inverts_encode [OF byte_tokenizer_ok byte_tokenizer_complete, of no_tables "''ok''"]
      unfolding n l by (elim exE conjE) (intro exI conjI)
    show "\<exists>ids. encode jamo_tables nfc_tokenizer (append_utf8 [] 0x1112 @ append_utf8 [] 0x1161) False = Inr ids \<and>
        decode nfc_tokenizer ids False = Inr (append_utf8 [] 0xD558)"
      using decode_inverts_encode [OF d, of jamo_tables jamo_text]
      unfolding jamo_normalized syllable_valid unfolding jamo_text_def by (elim exE conjE) (intro exI conjI)
  qed
qed

end
