(* ===== verification/Detokenize.thy ===== *)
theory Detokenize
  imports Tokenizer
begin

text \<open>
  Incremental detokenization, \<open>src/src/tokenizer/detokenize.{h,cpp}\<close>: a stream turns token ids into
  text as they arrive and carries the trailing bytes that later tokens may still complete. The
  properties: the stream's emissions add up to the batch decoding, and between calls it carries at most
  three bytes, a proper prefix of one sequence.
\<close>

section \<open>The stream\<close>

record DetokenizerStream =
  ds_tokenizer :: Tokenizer
  ds_skip_special_tokens :: bool
  ds_pending :: string

definition DetokenizerStream_ctor :: "Tokenizer \<Rightarrow> bool \<Rightarrow> DetokenizerStream" where
  "DetokenizerStream_ctor tk skip = \<lparr>ds_tokenizer = tk, ds_skip_special_tokens = skip, ds_pending = []\<rparr>"

text \<open>The loop of \<open>push\<close>: what it emits, and the bytes it leaves in \<open>pending\<close>.\<close>

function drain :: "string \<Rightarrow> string \<Rightarrow> string \<times> string" where
  "drain out pending =
     (if pending = [] then (out, [])
      else
        let part = classify_utf8_prefix pending in
        if uc_kind part = kIncomplete then (out, pending)
        else drain (if uc_kind part = kComplete then out @ take (uc_length part) pending else append_utf8 out 0xFFFD)
               (drop (uc_length part) pending))"
  by pat_completeness auto

termination
  by (relation "measure (\<lambda>(out, pending). length pending)") (auto simp: classify_length)

declare drain.simps [simp del]

definition push :: "DetokenizerStream \<Rightarrow> int \<Rightarrow> string status_or \<times> DetokenizerStream" where
  "push ds tid =
     (case token_bytes (ds_tokenizer ds) tid of
        None \<Rightarrow> (InvalidArgumentError, ds)
      | Some token \<Rightarrow>
          if ds_skip_special_tokens ds \<and> is_special (ds_tokenizer ds) tid then (Inr [], ds)
          else
            let (out, pending) = drain [] (ds_pending ds @ token) in
            (Inr out, ds\<lparr>ds_pending := pending\<rparr>))"

definition finish :: "DetokenizerStream \<Rightarrow> string \<times> DetokenizerStream" where
  "finish ds = (if ds_pending ds = [] then ([], ds) else (append_utf8 [] 0xFFFD, ds\<lparr>ds_pending := []\<rparr>))"

text \<open>A whole session: every id pushed in order, then the end of the stream. The first failure ends it.\<close>

fun push_all :: "DetokenizerStream \<Rightarrow> int list \<Rightarrow> string status_or \<times> DetokenizerStream" where
  "push_all ds [] = (Inr [], ds)"
| "push_all ds (tid # ids) =
     (case push ds tid of
        (Inl e, ds') \<Rightarrow> (Inl e, ds')
      | (Inr out, ds') \<Rightarrow> (case push_all ds' ids of (r, ds'') \<Rightarrow> (bind_ok r (\<lambda>rest. Inr (out @ rest)), ds'')))"

definition stream_decode :: "Tokenizer \<Rightarrow> int list \<Rightarrow> bool \<Rightarrow> string status_or" where
  "stream_decode tk ids skip =
     (case push_all (DetokenizerStream_ctor tk skip) ids of
        (r, ds) \<Rightarrow> bind_ok r (\<lambda>text. Inr (text @ fst (finish ds))))"

section \<open>The carry\<close>

definition carry_ok :: "string \<Rightarrow> bool" where
  "carry_ok pending \<longleftrightarrow> pending = [] \<or> uc_kind (classify_utf8_prefix pending) = kIncomplete"

lemma carry_ok_Nil [simp]: "carry_ok []"
  by (simp add: carry_ok_def)

lemma carry_length: "carry_ok p \<Longrightarrow> length p \<le> 3"
  by (cases "p = []") (simp_all add: carry_ok_def classify_incomplete(2))

lemma drain_carry: "carry_ok (snd (drain out p))"
proof (induction out p rule: drain.induct)
  case (1 out p)
  then show ?case by (subst drain.simps) (simp add: Let_def carry_ok_def)
qed

text \<open>What the loop emits is what the lossy decoding emits for the bytes it consumed, whatever follows.\<close>

lemma lossy_prefix:
  assumes "p \<noteq> []" and "uc_kind (classify_utf8_prefix p) \<noteq> kIncomplete"
  shows "append_utf8_lossy [] (p @ rest) =
    (if uc_kind (classify_utf8_prefix p) = kComplete then take (uc_length (classify_utf8_prefix p)) p
     else append_utf8 [] 0xFFFD) @ append_utf8_lossy [] (drop (uc_length (classify_utf8_prefix p)) p @ rest)"
  using lossy_step [of "p @ rest"] classify_append [OF assms, of rest] classify_le [OF assms(1)] assms(1)
  by (simp add: Let_def)

lemma drain_lossy: "out @ append_utf8_lossy [] (p @ rest) = fst (drain out p) @ append_utf8_lossy [] (snd (drain out p) @ rest)"
proof (induction out p rule: drain.induct)
  case (1 out p)
  show ?case
  proof (cases "p = [] \<or> uc_kind (classify_utf8_prefix p) = kIncomplete")
    case True
    then show ?thesis by (subst (1 2) drain.simps) (auto simp: Let_def)
  next
    case False
    then show ?thesis using 1 lossy_prefix [of p rest] append_utf8_acc [of out "0xFFFD"]
      by (subst (1 2) drain.simps) (auto simp: Let_def)
  qed
qed

text \<open>Text the lossy decoder passes through, whatever follows it.\<close>

definition utf8_valid :: "string \<Rightarrow> bool" where
  "utf8_valid out \<longleftrightarrow> (\<forall>rest. append_utf8_lossy [] (out @ rest) = out @ append_utf8_lossy [] rest)"

lemma utf8_validD: "utf8_valid out \<Longrightarrow> append_utf8_lossy [] out = out"
  by (metis append.right_neutral lossy_Nil utf8_valid_def)

lemma utf8_valid_Nil [simp]: "utf8_valid []"
  by (simp add: utf8_valid_def)

lemma utf8_valid_append: "utf8_valid a \<Longrightarrow> utf8_valid b \<Longrightarrow> utf8_valid (a @ b)"
  by (simp add: utf8_valid_def)

lemma utf8_valid_replacement: "utf8_valid (append_utf8 [] 0xFFFD)"
  by (simp add: utf8_valid_def lossy_replacement)

lemma utf8_valid_complete:
  assumes "p \<noteq> []" and "uc_kind (classify_utf8_prefix p) = kComplete"
  shows "utf8_valid (take (uc_length (classify_utf8_prefix p)) p)"
proof -
  let ?n = "uc_length (classify_utf8_prefix p)"
  have n: "0 < ?n" "?n \<le> length p" by (rule classify_length [OF assms(1)], rule classify_le [OF assms(1)])
  then have "take ?n p @ rest \<noteq> []" for rest using assms(1) by simp
  then show ?thesis using lossy_step classify_complete [OF assms] assms(2) n by (simp add: utf8_valid_def Let_def)
qed

lemma drain_valid: "utf8_valid out \<Longrightarrow> utf8_valid (fst (drain out p))"
proof (induction out p rule: drain.induct)
  case (1 out p)
  then show ?case
    using utf8_valid_complete [of p] utf8_valid_replacement append_utf8_acc [of out "0xFFFD"]
    by (subst drain.simps) (simp add: Let_def utf8_valid_append)
qed

lemma lossy_incomplete: "carry_ok p \<Longrightarrow> append_utf8_lossy [] p = (if p = [] then [] else append_utf8 [] 0xFFFD)"
  using lossy_step [of p] classify_incomplete(1) [of p] by (auto simp: carry_ok_def Let_def)

lemma finish_lossy: "carry_ok (ds_pending ds) \<Longrightarrow> fst (finish ds) = append_utf8_lossy [] (ds_pending ds)"
  by (simp add: finish_def lossy_incomplete)

lemma push_frame: "ds_tokenizer (snd (push ds tid)) = ds_tokenizer ds \<and> ds_skip_special_tokens (snd (push ds tid)) = ds_skip_special_tokens ds"
  by (simp add: push_def Let_def split: option.splits prod.splits)

lemma push_cases:
  assumes "carry_ok (ds_pending ds)"
  shows "case token_bytes (ds_tokenizer ds) tid of
      None \<Rightarrow> push ds tid = (InvalidArgumentError, ds)
    | Some token \<Rightarrow> \<exists>out p. push ds tid = (Inr out, ds\<lparr>ds_pending := p\<rparr>) \<and> carry_ok p \<and>
        (\<forall>rest. append_utf8_lossy [] (ds_pending ds @
            (if ds_skip_special_tokens ds \<and> is_special (ds_tokenizer ds) tid then [] else token) @ rest) =
          out @ append_utf8_lossy [] (p @ rest))"
proof (cases "token_bytes (ds_tokenizer ds) tid")
  case None
  then show ?thesis by (simp add: push_def)
next
  case (Some token)
  let ?d = "drain [] (ds_pending ds @ token)"
  show ?thesis
  proof (cases "ds_skip_special_tokens ds \<and> is_special (ds_tokenizer ds) tid")
    case True
    then have "push ds tid = (Inr [], ds\<lparr>ds_pending := ds_pending ds\<rparr>)" using Some by (simp add: push_def)
    then show ?thesis using True Some assms by (auto intro!: exI [of _ "ds_pending ds"])
  next
    case False
    then have p: "push ds tid = (Inr (fst ?d), ds\<lparr>ds_pending := snd ?d\<rparr>)"
      using Some by (auto simp: push_def Let_def split: prod.splits)
    have l: "append_utf8_lossy [] (ds_pending ds @ token @ rest) = fst ?d @ append_utf8_lossy [] (snd ?d @ rest)" for rest
      using drain_lossy [of "[]" "ds_pending ds @ token" rest] by simp
    show ?thesis using False Some p l drain_carry [of "[]" "ds_pending ds @ token"] by auto
  qed
qed

lemma push_all_decode:
  assumes "carry_ok (ds_pending ds)"
  shows "(case push_all ds ids of (r, ds') \<Rightarrow> bind_ok r (\<lambda>text. Inr (text @ fst (finish ds')))) =
    bind_ok (decode_bytes (ds_tokenizer ds) ids (ds_skip_special_tokens ds))
      (\<lambda>bytes. Inr (append_utf8_lossy [] (ds_pending ds @ bytes)))"
  using assms
proof (induction ids arbitrary: ds)
  case Nil
  then show ?case by (simp add: finish_lossy)
next
  case (Cons tid ids)
  note c = push_cases [OF Cons.prems, of tid]
  show ?case
  proof (cases "token_bytes (ds_tokenizer ds) tid")
    case None
    then show ?thesis using c by simp
  next
    case (Some token)
    then obtain out p where p: "push ds tid = (Inr out, ds\<lparr>ds_pending := p\<rparr>)" and cp: "carry_ok p"
      and l: "\<And>rest. append_utf8_lossy [] (ds_pending ds @
            (if ds_skip_special_tokens ds \<and> is_special (ds_tokenizer ds) tid then [] else token) @ rest) =
          out @ append_utf8_lossy [] (p @ rest)" using c by auto
    note ih = Cons.IH [of "ds\<lparr>ds_pending := p\<rparr>"]
    obtain r ds' where r: "push_all (ds\<lparr>ds_pending := p\<rparr>) ids = (r, ds')" by (cases "push_all (ds\<lparr>ds_pending := p\<rparr>) ids")
    show ?thesis
    proof (cases "decode_bytes (ds_tokenizer ds) ids (ds_skip_special_tokens ds)")
      case (Inl e)
      then show ?thesis using ih cp r p Some by (cases r) auto
    next
      case (Inr bytes)
      then show ?thesis using ih cp r p Some l [of bytes] by (cases r) (auto split: if_splits)
    qed
  qed
qed

section \<open>Properties\<close>

text \<open>C22. Streaming is batch decoding: for every tokenizer, id sequence and skip flag, the concatenation of
  what \<open>push\<close> emits for each id and of what \<open>finish\<close> emits at the end is the text (or the failure) that
  \<open>Tokenizer::decode\<close> returns for the whole sequence, however the tokens cut the codepoints.\<close>

theorem streaming_equals_batch: "stream_decode tk ids skip = decode tk ids skip"
  using push_all_decode [of "DetokenizerStream_ctor tk skip" ids]
  by (simp add: stream_decode_def decode_def DetokenizerStream_ctor_def)

text \<open>The stream's invariant: if the carry is empty or an incomplete sequence, it stays so after a
  \<open>push\<close>, it has at most three bytes, the text emitted is valid UTF-8 (the lossy decoder leaves it as it
  is), and an id outside the vocabulary is refused with the stream unchanged.\<close>

theorem push_invariant:
  assumes "carry_ok (ds_pending ds)" and "push ds tid = (r, ds')"
  shows "carry_ok (ds_pending ds') \<and> length (ds_pending ds') \<le> 3 \<and>
    (if tid < 0 \<or> int (length (tk_id_to_bytes (ds_tokenizer ds))) \<le> tid then r = InvalidArgumentError \<and> ds' = ds
     else \<exists>out. r = Inr out \<and> append_utf8_lossy [] out = out)"
proof -
  have k: "carry_ok (ds_pending ds')" using push_cases [OF assms(1), of tid] assms by (auto split: option.splits)
  have v: "drain [] p = (out, q) \<Longrightarrow> append_utf8_lossy [] out = out" for p out q
    using drain_valid [of "[]" p] by (simp add: utf8_validD)
  have "\<exists>out. r = Inr out \<and> append_utf8_lossy [] out = out" if "\<not> (tid < 0 \<or> int (length (tk_id_to_bytes (ds_tokenizer ds))) \<le> tid)"
    using that assms(2) v by (auto simp: push_def token_bytes_def Let_def split: if_splits prod.splits)
  then show ?thesis using k carry_length [OF k] assms(2) by (auto simp: push_def token_bytes_def)
qed

text \<open>A vocabulary of the two halves of a two-byte codepoint.\<close>

definition halves_tokenizer :: Tokenizer where
  "halves_tokenizer =
     \<lparr>tk_normalize_nfc = False, tk_split_pattern = [], tk_split_spec = \<lparr>max_digit_run = 1\<rparr>, tk_ignore_merges = False,
      tk_template_prefix = [], tk_template_suffix = [], tk_token_to_id = Map.empty, tk_id_to_token = [''a'', ''b''],
      tk_id_to_bytes = [[char_of (0xC3 :: nat)], [char_of (0xA9 :: nat)]],
      tk_merge_ranks = Map.empty, tk_added_tokens = [], tk_added_index = Map.empty, tk_added_buckets = Map.empty\<rparr>"

theorem push_invariant_witness:
  "\<exists>out ds'. push (DetokenizerStream_ctor halves_tokenizer False) 0 = (Inr out, ds') \<and> carry_ok (ds_pending ds') \<and>
     length (ds_pending ds') \<le> 3 \<and> append_utf8_lossy [] out = out"
proof -
  obtain r ds' where p: "push (DetokenizerStream_ctor halves_tokenizer False) 0 = (r, ds')" by fastforce
  show ?thesis using push_invariant [OF _ p] p by (auto simp: DetokenizerStream_ctor_def halves_tokenizer_def)
qed

end
