(* ===== verification/Sampling_Params.thy ===== *)
theory Sampling_Params
  imports Prelude Complex_Main "HOL-Library.Word"
begin

unbundle bit_operations_syntax

text \<open>
  Sampling configuration and randomness: \<open>src/src/sampling/params.{h,cpp}\<close> (the request's knobs and their
  validation) and \<open>src/src/sampling/philox.h\<close> (the counter-based generator). A C++ \<open>float\<close> is its value:
  a finite number, an infinity or not-a-number; validation only compares it.
\<close>

section \<open>Parameters\<close>

datatype Float = Finite rat | Infinity bool | NaN

definition isfinite :: "Float \<Rightarrow> bool" where
  "isfinite x = (case x of Finite _ \<Rightarrow> True | _ \<Rightarrow> False)"

text \<open>\<open>x < y\<close> of IEEE 754; the flag of an infinity says that it is negative.\<close>

fun float_less :: "Float \<Rightarrow> Float \<Rightarrow> bool" where
  "float_less (Finite a) (Finite b) = (a < b)"
| "float_less (Infinity n) (Finite b) = n"
| "float_less (Finite a) (Infinity n) = (\<not> n)"
| "float_less (Infinity n) (Infinity n') = (n \<and> \<not> n')"
| "float_less NaN y = False"
| "float_less x NaN = False"

definition float_le :: "Float \<Rightarrow> Float \<Rightarrow> bool" where
  "float_le x y \<longleftrightarrow> float_less x y \<or> (x = y \<and> x \<noteq> NaN)"

record SamplingParams =
  temperature :: Float
  top_k :: int
  top_p :: Float
  repetition_penalty :: Float
  presence_penalty :: Float
  frequency_penalty :: Float
  seed :: "64 word option"
  max_tokens :: int
  stop_token_ids :: "int list"
  stop_strings :: "string list"
  logprobs :: int

definition kMaxLogprobs :: int where
  "kMaxLogprobs = 20"

definition default_params :: SamplingParams where
  "default_params = \<lparr>temperature = Finite 1, top_k = 0, top_p = Finite 1, repetition_penalty = Finite 1,
     presence_penalty = Finite 0, frequency_penalty = Finite 0, seed = None, max_tokens = 0,
     stop_token_ids = [], stop_strings = [], logprobs = 0\<rparr>"

definition Greedy :: "int \<Rightarrow> SamplingParams" where
  "Greedy n = default_params\<lparr>temperature := Finite 0, max_tokens := n\<rparr>"

definition ValidateSamplingParams :: "SamplingParams \<Rightarrow> unit status_or" where
  "ValidateSamplingParams params =
     (if \<not> isfinite (temperature params) \<or> float_less (temperature params) (Finite 0) then InvalidArgumentError
      else if top_k params < 0 then InvalidArgumentError
      else if \<not> isfinite (top_p params) \<or> float_le (top_p params) (Finite 0) \<or> float_less (Finite 1) (top_p params)
        then InvalidArgumentError
      else if \<not> isfinite (repetition_penalty params) \<or> float_le (repetition_penalty params) (Finite 0)
        then InvalidArgumentError
      else if \<not> isfinite (presence_penalty params) \<or> float_less (presence_penalty params) (Finite (- 2)) \<or>
          float_less (Finite 2) (presence_penalty params) then InvalidArgumentError
      else if \<not> isfinite (frequency_penalty params) \<or> float_less (frequency_penalty params) (Finite (- 2)) \<or>
          float_less (Finite 2) (frequency_penalty params) then InvalidArgumentError
      else if max_tokens params \<le> 0 then InvalidArgumentError
      else if list_ex (\<lambda>i. i < 0) (stop_token_ids params) then InvalidArgumentError
      else if list_ex (\<lambda>s. s = []) (stop_strings params) then InvalidArgumentError
      else if logprobs params < 0 \<or> kMaxLogprobs < logprobs params then InvalidArgumentError
      else Inr ())"

text \<open>What a valid request satisfies, for the components that rely on it.\<close>

lemma valid_params:
  "ValidateSamplingParams params = Inr () \<Longrightarrow> 0 < max_tokens params"
  "ValidateSamplingParams params = Inr () \<Longrightarrow> [] \<notin> set (stop_strings params)"
  "ValidateSamplingParams params = Inr () \<Longrightarrow> \<forall>i\<in>set (stop_token_ids params). 0 \<le> i"
  by (simp_all add: ValidateSamplingParams_def not_less not_le list_ex_iff split: if_split_asm)

section \<open>The Philox generator\<close>

type_synonym Philox4x32Block = "32 word \<times> 32 word \<times> 32 word \<times> 32 word"
type_synonym PhiloxKey = "32 word \<times> 32 word"

text \<open>The high and the low half of the 64-bit product.\<close>

definition MulHiLo32 :: "32 word \<Rightarrow> 32 word \<Rightarrow> 32 word \<times> 32 word" where
  "MulHiLo32 a b = (let product = (ucast a * ucast b :: 64 word) in (ucast (drop_bit 32 product), ucast product))"

definition Philox4x32Round :: "Philox4x32Block \<Rightarrow> PhiloxKey \<Rightarrow> Philox4x32Block" where
  "Philox4x32Round ctr key =
     (case (ctr, key) of ((c0, c1, c2, c3), (k0, k1)) \<Rightarrow>
        let (hi0, lo0) = MulHiLo32 0xD2511F53 c0; (hi1, lo1) = MulHiLo32 0xCD9E8D57 c2 in
        (hi1 XOR c1 XOR k0, lo1, hi0 XOR c3 XOR k1, lo0))"

definition BumpKey :: "PhiloxKey \<Rightarrow> PhiloxKey" where
  "BumpKey key = (fst key + 0x9E3779B9, snd key + 0xBB67AE85)"

definition Philox4x32_10 :: "PhiloxKey \<Rightarrow> Philox4x32Block \<Rightarrow> Philox4x32Block" where
  "Philox4x32_10 key ctr =
     snd (fold (\<lambda>round (key, ctr).
         let key' = (if 0 < round then BumpKey key else key) in (key', Philox4x32Round ctr key'))
       [0..<10] (key, ctr))"

text \<open>The 53 random bits. The code multiplies them by \<open>2\<^sup>-\<^sup>5\<^sup>3\<close>, exactly in a double.\<close>

definition philox_bits :: "64 word \<Rightarrow> 64 word \<Rightarrow> 32 word \<Rightarrow> 64 word" where
  "philox_bits s step draw =
     (let key = (ucast (s AND 0xFFFFFFFF) :: 32 word, ucast (drop_bit 32 s) :: 32 word);
          ctr = (ucast (step AND 0xFFFFFFFF), ucast (drop_bit 32 step), draw, 0) in
      case Philox4x32_10 key ctr of (o0, o1, o2, o3) \<Rightarrow>
        drop_bit 11 (push_bit 32 (ucast o1) OR ucast o0))"

definition PhiloxUniformDouble :: "64 word \<Rightarrow> 64 word \<Rightarrow> 32 word \<Rightarrow> rat" where
  "PhiloxUniformDouble s step draw = of_nat (unat (philox_bits s step draw)) / 9007199254740992"

section \<open>The generator is a bijection of the counter\<close>

lemma mul_odd_inj:
  fixes a m i :: "32 word"
  assumes "i * m = 1" and "m * a = m * b"
  shows "a = b"
proof -
  have "i * (m * a) = i * (m * b)" using assms(2) by simp
  then show ?thesis using assms(1) by (simp add: mult.assoc [symmetric])
qed

lemma MulHiLo32_lo: "snd (MulHiLo32 a b) = a * b"
proof -
  have "uint a < 2 ^ 32" "uint b < 2 ^ 32" "0 \<le> uint a" "0 \<le> uint b" using uint_bounded [of a] uint_bounded [of b] by simp_all
  then have m: "uint a mod 18446744073709551616 = uint a" "uint b mod 18446744073709551616 = uint b" by simp_all
  have "(ucast (ucast a * ucast b :: 64 word) :: 32 word) = a * b"
    by (rule word_uint_eqI) (simp add: uint_word_ariths unsigned_ucast_eq take_bit_eq_mod m mod_mod_cancel)
  then show ?thesis by (simp add: MulHiLo32_def Let_def)
qed

lemma MulHiLo32_inj:
  "snd (MulHiLo32 0xD2511F53 a) = snd (MulHiLo32 0xD2511F53 b) \<Longrightarrow> a = b"
  "snd (MulHiLo32 0xCD9E8D57 a) = snd (MulHiLo32 0xCD9E8D57 b) \<Longrightarrow> a = b"
proof -
  have "0x991a7cdb * 0xD2511F53 = (1 :: 32 word)" "0x6d7cae67 * 0xCD9E8D57 = (1 :: 32 word)" by simp_all
  note inv = this
  show "snd (MulHiLo32 0xD2511F53 a) = snd (MulHiLo32 0xD2511F53 b) \<Longrightarrow> a = b"
    unfolding MulHiLo32_lo by (rule mul_odd_inj [OF inv(1)])
  show "snd (MulHiLo32 0xCD9E8D57 a) = snd (MulHiLo32 0xCD9E8D57 b) \<Longrightarrow> a = b"
    unfolding MulHiLo32_lo by (rule mul_odd_inj [OF inv(2)])
qed

lemma xor_cancel:
  fixes x a b k :: "32 word"
  assumes "x XOR a XOR k = x XOR b XOR k"
  shows "a = b"
proof -
  have "x XOR (x XOR (a XOR k)) = x XOR (x XOR (b XOR k))" using arg_cong [OF assms, of "\<lambda>y. x XOR y"] .
  then have "a XOR k = b XOR k" by (simp flip: xor.assoc)
  from arg_cong [OF this, of "\<lambda>y. y XOR k"] show ?thesis by (simp add: xor.assoc)
qed

lemma Philox4x32Round_inj: "Philox4x32Round c key = Philox4x32Round c' key \<Longrightarrow> c = c'"
proof -
  obtain c0 c1 c2 c3 where c: "c = (c0, c1, c2, c3)" by (rule prod_cases4)
  obtain d0 d1 d2 d3 where d: "c' = (d0, d1, d2, d3)" by (rule prod_cases4)
  obtain k0 k1 where k: "key = (k0, k1)" by (rule prod.exhaust)
  assume "Philox4x32Round c key = Philox4x32Round c' key"
  then have lo: "snd (MulHiLo32 0xCD9E8D57 c2) = snd (MulHiLo32 0xCD9E8D57 d2)" "snd (MulHiLo32 0xD2511F53 c0) = snd (MulHiLo32 0xD2511F53 d0)"
    and hi: "fst (MulHiLo32 0xCD9E8D57 c2) XOR c1 XOR k0 = fst (MulHiLo32 0xCD9E8D57 d2) XOR d1 XOR k0"
      "fst (MulHiLo32 0xD2511F53 c0) XOR c3 XOR k1 = fst (MulHiLo32 0xD2511F53 d0) XOR d3 XOR k1"
    by (simp_all only: c d k Philox4x32Round_def split_beta Let_def prod.case prod.inject fst_conv snd_conv)
  have e: "c2 = d2" "c0 = d0" by (rule MulHiLo32_inj(2) [OF lo(1)], rule MulHiLo32_inj(1) [OF lo(2)])
  have "c1 = d1" "c3 = d3" by (rule xor_cancel [OF hi(1) [unfolded e]], rule xor_cancel [OF hi(2) [unfolded e]])
  then show ?thesis by (simp only: c d e)
qed

lemma keyed_fold_inj:
  assumes "\<And>k c c'. R c k = R c' k \<Longrightarrow> c = c'"
  shows "snd (fold (\<lambda>r (k, c). let k' = g r k in (k', R c k')) rs (key, c)) =
    snd (fold (\<lambda>r (k, c). let k' = g r k in (k', R c k')) rs (key, c')) \<Longrightarrow> c = c'"
proof (induction rs arbitrary: key c c')
  case (Cons r rs)
  then have "R c (g r key) = R c' (g r key)" by (simp add: Let_def)
  then show ?case by (rule assms)
qed simp

lemma Philox_inj: "Philox4x32_10 key c = Philox4x32_10 key c' \<Longrightarrow> c = c'"
  unfolding Philox4x32_10_def
  by (rule keyed_fold_inj [where R = Philox4x32Round and g = "\<lambda>r k. if 0 < r then BumpKey k else k", OF Philox4x32Round_inj])

lemma step_words_inj:
  fixes a b :: "64 word"
  assumes "(ucast (a AND 0xFFFFFFFF) :: 32 word) = ucast (b AND 0xFFFFFFFF)" and "(ucast (drop_bit 32 a) :: 32 word) = ucast (drop_bit 32 b)"
  shows "a = b"
proof (rule bit_word_eqI)
  fix n assume n: "n < LENGTH(64)"
  have m: "(0xFFFFFFFF :: 64 word) = mask 32" by (simp add: mask_eq_exp_minus_1)
  have lo: "bit (ucast (a AND 0xFFFFFFFF) :: 32 word) k = bit (ucast (b AND 0xFFFFFFFF) :: 32 word) k" for k using assms(1) by simp
  have hi: "bit (ucast (drop_bit 32 a) :: 32 word) k = bit (ucast (drop_bit 32 b) :: 32 word) k" for k using assms(2) by simp
  show "bit a n = bit b n"
  proof (cases "n < 32")
    case True
    then show ?thesis using lo [of n] by (simp add: m bit_ucast_iff bit_and_iff bit_mask_iff)
  next
    case False
    have "n - 32 < 32" using n by simp
    then show ?thesis using False hi [of "n - 32"] n by (simp add: bit_ucast_iff bit_drop_bit_eq)
  qed
qed

text \<open>The generator's published answer for the all-zero key and counter.\<close>

lemma philox_known_answer:
  "Philox4x32_10 (0, 0) (0, 0, 0, 0) = (0x6627e8d5, 0xe169c58d, 0xbc57ac4c, 0x9b00dbd8)"
  unfolding Philox4x32_10_def by (simp add: upt_rec Let_def MulHiLo32_def Philox4x32Round_def BumpKey_def)

section \<open>Properties\<close>

text \<open>The counter of a draw, and its block.\<close>

definition philox_block :: "64 word \<Rightarrow> 64 word \<Rightarrow> 32 word \<Rightarrow> Philox4x32Block" where
  "philox_block s step draw =
     Philox4x32_10 (ucast (s AND 0xFFFFFFFF), ucast (drop_bit 32 s))
       (ucast (step AND 0xFFFFFFFF), ucast (drop_bit 32 step), draw, 0)"

lemma philox_bits_less: "unat (philox_bits s step draw) < 2 ^ 53"
proof -
  obtain o0 o1 o2 o3 where o: "Philox4x32_10 (ucast (s AND 0xFFFFFFFF), ucast (drop_bit 32 s))
       (ucast (step AND 0xFFFFFFFF), ucast (drop_bit 32 step), draw, 0) = (o0, o1, o2, o3)" by (metis surj_pair)
  let ?w = "push_bit 32 (ucast o1) OR ucast o0 :: 64 word"
  have "unat (drop_bit 11 ?w) = unat ?w div 2 ^ 11" unfolding unat_drop_bit_eq by (rule drop_bit_eq_div)
  moreover have "unat ?w < 2 ^ 64" using unsigned_less [of ?w] by simp
  ultimately show ?thesis by (simp add: philox_bits_def o)
qed

text \<open>Every draw of one seed has its own random block: two \<open>(step, draw)\<close> coordinates with one block are the
  same, so no randomness is reused within a request, whatever the other requests of the batch do; and the
  variate lies in \<open>[0, 1)\<close>.\<close>

theorem philox_draws_distinct:
  "(philox_block s step draw = philox_block s step' draw') = (step = step' \<and> draw = draw') \<and>
   0 \<le> PhiloxUniformDouble s step draw \<and> PhiloxUniformDouble s step draw < 1"
proof -
  have "step = step' \<and> draw = draw'" if "philox_block s step draw = philox_block s step' draw'"
    using Philox_inj [OF that [unfolded philox_block_def]] by (auto intro: step_words_inj)
  moreover have "of_nat (unat (philox_bits s step draw)) < (of_nat (2 ^ 53) :: rat)"
    unfolding of_nat_less_iff by (rule philox_bits_less)
  then have "of_nat (unat (philox_bits s step draw)) < (9007199254740992 :: rat)" unfolding of_nat_power by simp
  moreover have "0 \<le> PhiloxUniformDouble s step draw" unfolding PhiloxUniformDouble_def
    by (intro divide_nonneg_nonneg of_nat_0_le_iff) simp
  ultimately show ?thesis by (auto simp: PhiloxUniformDouble_def [of s step draw])
qed

end
