(* ===== verification/Stop.thy ===== *)
theory Stop
  imports Detokenize Sampling_Params "HOL-Library.Sublist"
begin

text \<open>
  Stop conditions, \<open>src/src/engine/stop.{h,cpp}\<close>: the streaming stop-string matcher and the per-request
  checker that the generation loops drive. The matcher's specification speaks of the whole text fed so
  far: what was emitted and what is held back make up that text, and a match cuts it at the earliest
  occurrence of a stop string.
\<close>

section \<open>The matcher\<close>

datatype FinishReason = FinishReason_kStop | FinishReason_kLength

definition FinishReasonName :: "FinishReason \<Rightarrow> string" where
  "FinishReasonName reason = (case reason of FinishReason_kStop \<Rightarrow> ''stop'' | FinishReason_kLength \<Rightarrow> ''length'')"

datatype StopTrigger = kNone | kEosId | kStopTokenId | kStopString | kMaxTokens

record StopStringMatcher =
  sm_stops :: "string list"
  sm_held :: string
  sm_matched :: bool

record FeedResult =
  fr_emit :: string
  fr_matched :: "string option"

definition StopStringMatcher_ctor :: "string list \<Rightarrow> StopStringMatcher" where
  "StopStringMatcher_ctor stops = \<lparr>sm_stops = stops, sm_held = [], sm_matched = False\<rparr>"

definition has_stops :: "StopStringMatcher \<Rightarrow> bool" where
  "has_stops m \<longleftrightarrow> sm_stops m \<noteq> []"

definition LongestPrefixOverlap :: "string \<Rightarrow> string \<Rightarrow> nat" where
  "LongestPrefixOverlap text stop =
     (let max_len = min (length text) (length stop - 1) in
      case find (\<lambda>len. drop (length text - len) text = take len stop) (rev [1..<max_len + 1]) of
        Some len \<Rightarrow> len
      | None \<Rightarrow> 0)"

text \<open>\<open>std::string::find\<close>.\<close>

definition occurs_at :: "string \<Rightarrow> string \<Rightarrow> nat \<Rightarrow> bool" where
  "occurs_at stop text p \<longleftrightarrow> p + length stop \<le> length text \<and> take (length stop) (drop p text) = stop"

definition string_find :: "string \<Rightarrow> string \<Rightarrow> nat option" where
  "string_find text stop = find (occurs_at stop text) [0..<length text + 1]"

definition best_stop :: "string \<Rightarrow> string list \<Rightarrow> (nat \<times> string) option" where
  "best_stop text stops =
     fold (\<lambda>stop best.
         case string_find text stop of
           None \<Rightarrow> best
         | Some pos \<Rightarrow> (case best of None \<Rightarrow> Some (pos, stop) | Some (best_pos, _) \<Rightarrow> if pos < best_pos then Some (pos, stop) else best))
       stops None"

definition Feed :: "StopStringMatcher \<Rightarrow> string \<Rightarrow> FeedResult \<times> StopStringMatcher" where
  "Feed m chunk =
     (if sm_matched m \<or> sm_stops m = [] then (\<lparr>fr_emit = chunk, fr_matched = None\<rparr>, m)
      else
        let held = sm_held m @ chunk in
        case best_stop held (sm_stops m) of
          Some (best_pos, stop) \<Rightarrow>
            (\<lparr>fr_emit = take best_pos held, fr_matched = Some stop\<rparr>, m\<lparr>sm_held := [], sm_matched := True\<rparr>)
        | None \<Rightarrow>
            let hold = fold (\<lambda>stop hold. max hold (LongestPrefixOverlap held stop)) (sm_stops m) 0;
                emit_len = length held - hold in
            (\<lparr>fr_emit = take emit_len held, fr_matched = None\<rparr>, m\<lparr>sm_held := drop emit_len held\<rparr>))"

definition Flush :: "StopStringMatcher \<Rightarrow> string \<times> StopStringMatcher" where
  "Flush m = (sm_held m, m\<lparr>sm_held := []\<rparr>)"

section \<open>The checker\<close>

record StopChecker =
  sc_eos_ids :: "int list"
  sc_stop_token_ids :: "int list"
  sc_max_tokens :: int
  sc_detok :: "DetokenizerStream option"
  sc_matcher :: StopStringMatcher
  sc_trigger :: StopTrigger

record StepResult =
  sr_text_delta :: string
  sr_finished :: bool
  sr_finish_reason :: FinishReason
  sr_trigger :: StopTrigger
  sr_matched_stop :: string

definition StopChecker_Create ::
  "SamplingParams \<Rightarrow> int list \<Rightarrow> Tokenizer option \<Rightarrow> bool \<Rightarrow> StopChecker status_or" where
  "StopChecker_Create params eos_ids tokenizer skip_special_tokens =
     (if stop_strings params \<noteq> [] \<and> tokenizer = None then InvalidArgumentError
      else Inr \<lparr>sc_eos_ids = eos_ids, sc_stop_token_ids = stop_token_ids params, sc_max_tokens = max_tokens params,
                sc_detok = map_option (\<lambda>tk. DetokenizerStream_ctor tk skip_special_tokens) tokenizer,
                sc_matcher = StopStringMatcher_ctor (stop_strings params), sc_trigger = kNone\<rparr>)"

definition IsEos :: "StopChecker \<Rightarrow> int \<Rightarrow> bool" where
  "IsEos sc tid \<longleftrightarrow> tid \<in> set (sc_eos_ids sc)"

definition IsStopTokenId :: "StopChecker \<Rightarrow> int \<Rightarrow> bool" where
  "IsStopTokenId sc tid \<longleftrightarrow> tid \<in> set (sc_stop_token_ids sc)"

text \<open>The detokenizer's part of \<open>Observe\<close>: the token's text, empty without a tokenizer.\<close>

definition observe_text :: "StopChecker \<Rightarrow> int \<Rightarrow> string status_or \<times> StopChecker" where
  "observe_text sc tid =
     (case sc_detok sc of
        None \<Rightarrow> (Inr [], sc)
      | Some ds \<Rightarrow> (case push ds tid of (r, ds') \<Rightarrow> (r, sc\<lparr>sc_detok := Some ds'\<rparr>)))"

definition Observe :: "StopChecker \<Rightarrow> int \<Rightarrow> int \<Rightarrow> StepResult status_or \<times> StopChecker" where
  "Observe sc tid produced_count =
     (case observe_text sc tid of
        (Inl e, sc1) \<Rightarrow> (Inl e, sc1)
      | (Inr delta, sc1) \<Rightarrow>
          let id_trigger = (if IsEos sc1 tid then kEosId else if IsStopTokenId sc1 tid then kStopTokenId else kNone) in
          if id_trigger \<noteq> kNone then
            (case Flush (sc_matcher sc1) of (held, matcher) \<Rightarrow>
               (Inr \<lparr>sr_text_delta = held @ delta, sr_finished = True, sr_finish_reason = FinishReason_kStop,
                     sr_trigger = id_trigger, sr_matched_stop = []\<rparr>,
                sc1\<lparr>sc_matcher := matcher, sc_trigger := id_trigger\<rparr>))
          else
            (case (if has_stops (sc_matcher sc1) then Feed (sc_matcher sc1) delta
                   else (\<lparr>fr_emit = delta, fr_matched = None\<rparr>, sc_matcher sc1)) of
               (fed, matcher) \<Rightarrow>
                 let sc2 = sc1\<lparr>sc_matcher := matcher\<rparr> in
                 case fr_matched fed of
                   Some stop \<Rightarrow>
                     (Inr \<lparr>sr_text_delta = fr_emit fed, sr_finished = True, sr_finish_reason = FinishReason_kStop,
                           sr_trigger = kStopString, sr_matched_stop = stop\<rparr>, sc2\<lparr>sc_trigger := kStopString\<rparr>)
                 | None \<Rightarrow>
                     if sc_max_tokens sc2 \<le> produced_count then
                       (Inr \<lparr>sr_text_delta = fr_emit fed, sr_finished = True, sr_finish_reason = FinishReason_kLength,
                             sr_trigger = kMaxTokens, sr_matched_stop = []\<rparr>, sc2\<lparr>sc_trigger := kMaxTokens\<rparr>)
                     else
                       (Inr \<lparr>sr_text_delta = fr_emit fed, sr_finished = False, sr_finish_reason = FinishReason_kLength,
                             sr_trigger = kNone, sr_matched_stop = []\<rparr>, sc2)))"

definition StopChecker_Finish :: "StopChecker \<Rightarrow> string \<times> StopChecker" where
  "StopChecker_Finish sc =
     (if sc_trigger sc = kStopString then ([], sc)
      else
        case Flush (sc_matcher sc) of (held, matcher) \<Rightarrow>
          let sc1 = sc\<lparr>sc_matcher := matcher\<rparr> in
          case sc_detok sc1 of
            None \<Rightarrow> (held, sc1)
          | Some ds \<Rightarrow> (case finish ds of (residue, ds') \<Rightarrow> (held @ residue, sc1\<lparr>sc_detok := Some ds'\<rparr>)))"

section \<open>Occurrences\<close>

lemma occurs_at_append: "occurs_at s t p \<Longrightarrow> occurs_at s (t @ u) p"
  by (simp add: occurs_at_def)

lemma occurs_at_shift: "occurs_at s (a @ t) (length a + p) \<longleftrightarrow> occurs_at s t p"
  by (simp add: occurs_at_def)

lemma find_upt: "find P [0..<n] = Some p \<longleftrightarrow> p < n \<and> P p \<and> (\<forall>q<p. \<not> P q)"
  by (auto simp: find_Some_iff)

lemma string_find_Some: "string_find text s = Some p \<longleftrightarrow> occurs_at s text p \<and> (\<forall>q<p. \<not> occurs_at s text q)"
  unfolding string_find_def find_upt by (auto simp: occurs_at_def)

lemma string_find_None: "string_find text s = None \<longleftrightarrow> (\<forall>p. \<not> occurs_at s text p)"
  unfolding string_find_def find_None_iff by (auto simp: occurs_at_def)

text \<open>The cut a match makes: the earliest occurrence of a stop string, of the first listed on a tie.\<close>

definition earliest :: "string list \<Rightarrow> string \<Rightarrow> nat \<Rightarrow> string \<Rightarrow> bool" where
  "earliest stops text p s \<longleftrightarrow>
     (\<exists>i<length stops. stops ! i = s \<and> occurs_at s text p \<and> (\<forall>j<i. \<not> occurs_at (stops ! j) text p)) \<and>
     (\<forall>s'\<in>set stops. \<forall>q<p. \<not> occurs_at s' text q)"

definition stop_free :: "string list \<Rightarrow> string \<Rightarrow> bool" where
  "stop_free stops text \<longleftrightarrow> (\<forall>s\<in>set stops. \<forall>p. \<not> occurs_at s text p)"

lemma best_stop_spec:
  "case best_stop text stops of None \<Rightarrow> stop_free stops text | Some (p, s) \<Rightarrow> earliest stops text p s"
proof (induction stops rule: rev_induct)
  case Nil
  then show ?case by (simp add: best_stop_def stop_free_def)
next
  case (snoc s stops)
  have step: "best_stop text (stops @ [s]) =
    (case string_find text s of
       None \<Rightarrow> best_stop text stops
     | Some p \<Rightarrow> (case best_stop text stops of None \<Rightarrow> Some (p, s) | Some (bp, _) \<Rightarrow> if p < bp then Some (p, s) else best_stop text stops))"
    unfolding best_stop_def by simp
  have keep: "earliest (stops @ [s]) text p s'" if e: "earliest stops text p s'" and n: "\<forall>q<p. \<not> occurs_at s text q" for p s'
  proof -
    obtain i where i: "i < length stops" "stops ! i = s'" "occurs_at s' text p" "\<forall>j<i. \<not> occurs_at (stops ! j) text p"
      using e unfolding earliest_def by (elim conjE exE)
    then have "\<forall>j<i. \<not> occurs_at ((stops @ [s]) ! j) text p" by (simp add: nth_append)
    then show ?thesis using i e n by (auto simp: earliest_def nth_append intro!: exI [of _ i])
  qed
  have new: "earliest (stops @ [s]) text p s" if p: "occurs_at s text p" "\<forall>q<p. \<not> occurs_at s text q"
    and o: "\<forall>s'\<in>set stops. \<forall>q\<le>p. \<not> occurs_at s' text q" for p
  proof -
    have "\<forall>j<length stops. \<not> occurs_at ((stops @ [s]) ! j) text p" using o by (simp add: nth_append)
    then show ?thesis using p o by (auto simp: earliest_def intro!: exI [of _ "length stops"])
  qed
  show ?case
  proof (cases "string_find text s")
    case None
    then have n: "\<forall>p. \<not> occurs_at s text p" using string_find_None [of "text" s] by blast
    show ?thesis using snoc keep n unfolding step None by (auto simp: stop_free_def split: option.splits)
  next
    case (Some p)
    then have p: "occurs_at s text p" "\<forall>q<p. \<not> occurs_at s text q" by (simp_all add: string_find_Some)
    show ?thesis
    proof (cases "best_stop text stops")
      case None
      then have "\<forall>s'\<in>set stops. \<forall>q\<le>p. \<not> occurs_at s' text q" using snoc by (auto simp: stop_free_def)
      then show ?thesis using new [OF p] None Some unfolding step by simp
    next
      case (Some b)
      obtain bp bs where b: "b = (bp, bs)" by force
      have e: "earliest stops text bp bs" using snoc Some b by simp
      show ?thesis
      proof (cases "p < bp")
        case True
        then have "\<forall>s'\<in>set stops. \<forall>q\<le>p. \<not> occurs_at s' text q" using e by (auto simp: earliest_def)
        then show ?thesis using new [OF p] True \<open>string_find text s = Some p\<close> Some b unfolding step by simp
      next
        case False
        then show ?thesis using keep [OF e] p(2) \<open>string_find text s = Some p\<close> Some b unfolding step by simp
      qed
    qed
  qed
qed

section \<open>The held tail\<close>

text \<open>A tail of the text that is a proper prefix of a stop string.\<close>

definition overlaps :: "string \<Rightarrow> string \<Rightarrow> nat \<Rightarrow> bool" where
  "overlaps text s l \<longleftrightarrow> l \<le> length text \<and> l < length s \<and> drop (length text - l) text = take l s"

lemma find_down:
  fixes P :: "nat \<Rightarrow> bool"
  defines "r m \<equiv> case find P (rev [1..<m + 1]) of Some l \<Rightarrow> l | None \<Rightarrow> 0"
  shows "r m \<le> m \<and> (r m = 0 \<or> P (r m)) \<and> (\<forall>l. 1 \<le> l \<and> l \<le> m \<and> P l \<longrightarrow> l \<le> r m)"
proof (induction m)
  case 0
  then show ?case by (simp add: r_def)
next
  case (Suc m)
  have "r (Suc m) = (if P (Suc m) then Suc m else r m)" by (simp add: r_def)
  then show ?case using Suc by (auto simp: le_Suc_eq)
qed

lemma LongestPrefixOverlap_spec:
  assumes "s \<noteq> []"
  shows "overlaps text s (LongestPrefixOverlap text s) \<and> (\<forall>l. overlaps text s l \<longrightarrow> l \<le> LongestPrefixOverlap text s)"
proof -
  define m where "m = min (length text) (length s - 1)"
  define P where "P l \<longleftrightarrow> drop (length text - l) text = take l s" for l
  define r where "r = LongestPrefixOverlap text s"
  have "r = (case find P (rev [1..<m + 1]) of Some l \<Rightarrow> l | None \<Rightarrow> 0)"
    unfolding r_def LongestPrefixOverlap_def m_def P_def Let_def by (simp split: option.split)
  then have f: "r \<le> m \<and> (r = 0 \<or> P r) \<and> (\<forall>l. 1 \<le> l \<and> l \<le> m \<and> P l \<longrightarrow> l \<le> r)" using find_down [of P m] by simp
  have "length s - 1 < length s" using assms by simp
  then have ov: "overlaps text s l \<longleftrightarrow> l \<le> m \<and> P l" for l unfolding overlaps_def m_def P_def by linarith
  have "P 0" by (simp add: P_def)
  then have "overlaps text s r" using f ov by metis
  moreover have "l \<le> r" if "overlaps text s l" for l using f that ov [of l] by (cases "l = 0") simp_all
  ultimately show ?thesis by (simp add: r_def)
qed

text \<open>What \<open>Feed\<close> holds back: the longest such tail over all stop strings.\<close>

definition holds_back :: "string list \<Rightarrow> string \<Rightarrow> nat \<Rightarrow> bool" where
  "holds_back stops text n \<longleftrightarrow>
     n \<le> length text \<and> (\<forall>s\<in>set stops. \<forall>l. overlaps text s l \<longrightarrow> l \<le> n) \<and> (n = 0 \<or> (\<exists>s\<in>set stops. overlaps text s n))"

lemma hold_spec:
  assumes "[] \<notin> set stops"
  shows "holds_back stops text (fold (\<lambda>s hold. max hold (LongestPrefixOverlap text s)) stops 0)"
  using assms
proof (induction stops rule: rev_induct)
  case Nil
  then show ?case by (simp add: holds_back_def)
next
  case (snoc s stops)
  define h where "h = fold (\<lambda>s hold. max hold (LongestPrefixOverlap text s)) stops 0"
  define r where "r = LongestPrefixOverlap text s"
  have h: "h \<le> length text" "\<forall>s\<in>set stops. \<forall>l. overlaps text s l \<longrightarrow> l \<le> h" "h = 0 \<or> (\<exists>s\<in>set stops. overlaps text s h)"
    using snoc by (simp_all add: holds_back_def h_def)
  have r: "overlaps text s r" "\<forall>l. overlaps text s l \<longrightarrow> l \<le> r"
    using LongestPrefixOverlap_spec [of s "text"] snoc.prems by (auto simp: r_def)
  then have "r \<le> length text" by (simp add: overlaps_def)
  then have "holds_back (stops @ [s]) text (max h r)"
    using h r by (auto simp: holds_back_def max_def intro: order_trans)
  then show ?case by (simp add: h_def r_def)
qed

section \<open>The matcher's invariant\<close>

text \<open>After the text has been fed without a match: what was emitted and what is held make it up, no stop
  string occurs in it, and the held tail is the longest that can still start one.\<close>

definition matching :: "StopStringMatcher \<Rightarrow> string \<Rightarrow> string \<Rightarrow> bool" where
  "matching m out text \<longleftrightarrow>
     \<not> sm_matched m \<and> sm_stops m \<noteq> [] \<and> [] \<notin> set (sm_stops m) \<and> text = out @ sm_held m \<and>
     stop_free (sm_stops m) text \<and> holds_back (sm_stops m) text (length (sm_held m))"

lemma occurs_later:
  assumes "matching m out text" and "s \<in> set (sm_stops m)" and "occurs_at s (text @ chunk) p"
  shows "length out \<le> p"
proof (rule ccontr)
  assume "\<not> length out \<le> p"
  then have p: "p < length text" "length text - p > length (sm_held m)" using assms(1) by (auto simp: matching_def)
  have n: "\<not> occurs_at s text p" using assms(1,2) by (auto simp: matching_def stop_free_def)
  have o: "take (length s) (drop p (text @ chunk)) = s" using assms(3) by (simp add: occurs_at_def)
  have l: "length text - p < length s"
  proof (rule ccontr)
    assume "\<not> length text - p < length s"
    then have "occurs_at s text p" using o p(1) by (simp add: occurs_at_def)
    then show False using n by simp
  qed
  have "take (length text - p) s = drop p text"
    using arg_cong [OF o, of "take (length text - p)"] l p(1) by simp
  then have "overlaps text s (length text - p)" using l p(1) by (simp add: overlaps_def)
  then have "length text - p \<le> length (sm_held m)" using assms(1,2) by (auto simp: matching_def holds_back_def)
  then show False using p(2) by simp
qed

lemma overlaps_later:
  assumes "matching m out text" and "s \<in> set (sm_stops m)" and "overlaps (text @ chunk) s l"
  shows "l \<le> length (sm_held m @ chunk)"
proof (rule ccontr)
  let ?t = "text @ chunk"
  assume n: "\<not> l \<le> length (sm_held m @ chunk)"
  have l: "l \<le> length ?t" "l < length s" "drop (length ?t - l) ?t = take l s" using assms(3) by (simp_all add: overlaps_def)
  let ?k = "l - length chunk"
  have k: "length (sm_held m) < ?k" "?k \<le> length text" using n l(1) by simp_all
  have "length ?t - l = length text - ?k" using k n by simp
  then have "drop (length text - ?k) text = take ?k (take l s)"
    using arg_cong [OF l(3), of "take ?k"] k by simp
  then have "overlaps text s ?k" using k l(2) by (simp add: overlaps_def min_absorb1)
  then have "?k \<le> length (sm_held m)" using assms(1,2) by (auto simp: matching_def holds_back_def)
  then show False using k by simp
qed

lemma overlaps_suffix: "l \<le> length b \<Longrightarrow> overlaps (a @ b) s l \<longleftrightarrow> overlaps b s l"
  by (simp add: overlaps_def)

lemma earliest_shift:
  assumes "\<And>s p. s \<in> set stops \<Longrightarrow> occurs_at s (a @ t) p \<Longrightarrow> length a \<le> p" and "earliest stops t p s"
  shows "earliest stops (a @ t) (length a + p) s"
proof -
  obtain i where "i < length stops" "stops ! i = s" "occurs_at s t p" "\<forall>j<i. \<not> occurs_at (stops ! j) t p"
    using assms(2) unfolding earliest_def by (elim conjE exE)
  moreover have "\<not> occurs_at s' (a @ t) q" if "s' \<in> set stops" "q < length a + p" for s' q
  proof
    assume o: "occurs_at s' (a @ t) q"
    then have "length a \<le> q" using assms(1) that(1) by blast
    then obtain r where "q = length a + r" using le_Suc_ex by blast
    then have "occurs_at s' t r" "r < p" using o that(2) by (simp_all add: occurs_at_shift)
    then show False using assms(2) that(1) unfolding earliest_def by blast
  qed
  ultimately show ?thesis unfolding earliest_def by (blast intro: occurs_at_shift [THEN iffD2] dest: occurs_at_shift [THEN iffD1])
qed

lemma Feed_step:
  assumes "matching m out text" and "Feed m chunk = (r, m')"
  shows "case fr_matched r of
      None \<Rightarrow> matching m' (out @ fr_emit r) (text @ chunk) \<and> sm_stops m' = sm_stops m
    | Some s \<Rightarrow> earliest (sm_stops m) (text @ chunk) (length (out @ fr_emit r)) s \<and>
        out @ fr_emit r = take (length (out @ fr_emit r)) (text @ chunk)"
proof -
  let ?h = "sm_held m @ chunk"
  let ?stops = "sm_stops m"
  have t: "text @ chunk = out @ ?h" and go: "\<not> (sm_matched m \<or> ?stops = [])" and ne: "[] \<notin> set ?stops"
    using assms(1) by (simp_all add: matching_def)
  have later: "s \<in> set ?stops \<Longrightarrow> occurs_at s (out @ ?h) p \<Longrightarrow> length out \<le> p" for s p
    using occurs_later [OF assms(1), of s chunk p] by (simp only: t)
  show ?thesis
  proof (cases "best_stop ?h ?stops")
    case (Some b)
    obtain p s where b: "b = (p, s)" by force
    have e: "earliest ?stops ?h p s" using best_stop_spec [of ?stops ?h] Some b by simp
    then have "occurs_at s ?h p" unfolding earliest_def by blast
    then have p: "p \<le> length ?h" by (simp add: occurs_at_def)
    have r: "r = \<lparr>fr_emit = take p ?h, fr_matched = Some s\<rparr>" using assms(2) Some b go by (simp add: Feed_def Let_def)
    have l: "length (out @ take p ?h) = length out + p" using p by simp
    have "earliest ?stops (out @ ?h) (length out + p) s" by (rule earliest_shift [OF later e])
    moreover have "out @ take p ?h = take (length out + p) (out @ ?h)" by simp
    ultimately show ?thesis unfolding t r FeedResult.simps option.case l by (rule conjI)
  next
    case None
    then have free: "stop_free ?stops ?h" using best_stop_spec [of ?stops ?h] by simp
    define n where "n = fold (\<lambda>s hold. max hold (LongestPrefixOverlap ?h s)) ?stops 0"
    have hb: "holds_back ?stops ?h n" unfolding n_def by (rule hold_spec [OF ne])
    then have n: "n \<le> length ?h" by (simp add: holds_back_def)
    have r: "r = \<lparr>fr_emit = take (length ?h - n) ?h, fr_matched = None\<rparr>" and m': "m' = m\<lparr>sm_held := drop (length ?h - n) ?h\<rparr>"
      using assms(2) None go by (auto simp: Feed_def Let_def n_def)
    have "stop_free ?stops (out @ ?h)"
      unfolding stop_free_def
    proof (intro ballI allI notI)
      fix s p assume s: "s \<in> set ?stops" and o: "occurs_at s (out @ ?h) p"
      obtain q where "p = length out + q" using later [OF s o] le_Suc_ex by blast
      then have "occurs_at s ?h q" using o by (simp only: occurs_at_shift)
      then show False using free s by (auto simp: stop_free_def)
    qed
    moreover have "holds_back ?stops (out @ ?h) n"
      unfolding holds_back_def
    proof (intro conjI ballI allI impI)
      show "n \<le> length (out @ ?h)" using n by simp
    next
      fix s l assume s: "s \<in> set ?stops" and o: "overlaps (out @ ?h) s l"
      then have l: "l \<le> length ?h" using overlaps_later [OF assms(1) s, of chunk l] by (simp only: t)
      then have "overlaps ?h s l" using o by (simp only: overlaps_suffix)
      then show "l \<le> n" using hb s by (auto simp: holds_back_def)
    next
      show "n = 0 \<or> (\<exists>s\<in>set ?stops. overlaps (out @ ?h) s n)"
        using hb by (simp only: holds_back_def overlaps_suffix [OF n])
    qed
    moreover have l: "length (drop (length ?h - n) ?h) = n" unfolding length_drop using n by simp
    moreover have "out @ ?h = (out @ take (length ?h - n) ?h) @ drop (length ?h - n) ?h"
      unfolding append_assoc append_take_drop_id ..
    moreover have f: "sm_held m' = drop (length ?h - n) ?h" "sm_matched m' = sm_matched m" "sm_stops m' = sm_stops m"
      "fr_emit r = take (length ?h - n) ?h" "fr_matched r = None" by (simp_all add: m' r)
    ultimately have "matching m' (out @ fr_emit r) (out @ ?h)"
      unfolding matching_def f l using go ne by blast
    then show ?thesis unfolding t by (simp only: f option.case simp_thms)
  qed
qed

section \<open>Feeding a stream\<close>

text \<open>The chunks are fed in order until one completes a stop string.\<close>

fun feed_until :: "StopStringMatcher \<Rightarrow> string list \<Rightarrow> string \<times> string option \<times> StopStringMatcher" where
  "feed_until m [] = ([], None, m)"
| "feed_until m (chunk # chunks) =
     (case Feed m chunk of (r, m') \<Rightarrow>
        case fr_matched r of
          Some s \<Rightarrow> (fr_emit r, Some s, m')
        | None \<Rightarrow> (case feed_until m' chunks of (out, s, m'') \<Rightarrow> (fr_emit r @ out, s, m'')))"

lemma feed_until_spec:
  assumes "matching m out text" and "feed_until m chunks = (e, r, m')"
  shows "case r of
      None \<Rightarrow> matching m' (out @ e) (text @ concat chunks) \<and> sm_stops m' = sm_stops m
    | Some s \<Rightarrow> \<exists>k<length chunks. stop_free (sm_stops m) (text @ concat (take k chunks)) \<and>
        earliest (sm_stops m) (text @ concat (take (Suc k) chunks)) (length (out @ e)) s \<and>
        out @ e = take (length (out @ e)) (text @ concat (take (Suc k) chunks))"
  using assms
proof (induction chunks arbitrary: m out "text" e r m')
  case Nil
  then show ?case by simp
next
  case (Cons chunk chunks)
  obtain f m1 where f: "Feed m chunk = (f, m1)" by force
  note st = Feed_step [OF Cons.prems(1) f]
  show ?case
  proof (cases "fr_matched f")
    case (Some s)
    have "stop_free (sm_stops m) text" using Cons.prems(1) unfolding matching_def by (elim conjE)
    moreover have e: "e = fr_emit f" "r = Some s" using Cons.prems(2) f Some by simp_all
    moreover have "earliest (sm_stops m) (text @ chunk) (length (out @ fr_emit f)) s"
      "out @ fr_emit f = take (length (out @ fr_emit f)) (text @ chunk)"
      using st unfolding Some option.case by (rule conjunct1, rule conjunct2)
    ultimately show ?thesis unfolding e option.case
      by (intro exI [of _ 0] conjI) (simp_all only: take_0 take_Suc_Cons concat.simps append_Nil2 length_Cons zero_less_Suc)
  next
    case None
    then have m1: "matching m1 (out @ fr_emit f) (text @ chunk)" "sm_stops m1 = sm_stops m" using st by simp_all
    obtain e' r' m'' where r: "feed_until m1 chunks = (e', r', m'')" by (metis surj_pair)
    then have e: "e = fr_emit f @ e'" "r = r'" "m' = m''" using Cons.prems(2) f None by simp_all
    note IH = Cons.IH [OF m1(1) r]
    show ?thesis
    proof (cases r')
      case None
      then show ?thesis using IH m1(2) by (simp add: e)
    next
      case (Some s)
      then obtain k where k: "k < length chunks" "stop_free (sm_stops m) ((text @ chunk) @ concat (take k chunks))"
        "earliest (sm_stops m) ((text @ chunk) @ concat (take (Suc k) chunks)) (length ((out @ fr_emit f) @ e')) s"
        "(out @ fr_emit f) @ e' = take (length ((out @ fr_emit f) @ e')) ((text @ chunk) @ concat (take (Suc k) chunks))"
        using IH unfolding m1(2) by (simp only: option.case) blast
      show ?thesis unfolding e Some option.case
        using k by (intro exI [of _ "Suc k"]) (simp only: append_assoc take_Suc_Cons concat.simps length_Cons Suc_less_eq simp_thms)
    qed
  qed
qed

lemma matching_init: "stops \<noteq> [] \<Longrightarrow> [] \<notin> set stops \<Longrightarrow> matching (StopStringMatcher_ctor stops) [] []"
  by (auto simp: matching_def StopStringMatcher_ctor_def stop_free_def occurs_at_def holds_back_def overlaps_def)

lemma earliest_unique: "earliest stops text p s \<Longrightarrow> earliest stops text p' s' \<Longrightarrow> p = p' \<and> s = s'"
  unfolding earliest_def by (metis linorder_neqE_nat nth_mem)

text \<open>An occurrence inside an occurrence is an occurrence inside the string.\<close>

lemma occurs_inside:
  assumes "occurs_at s text p" and "occurs_at s' text q" and "q \<le> p" and "p + length s \<le> q + length s'"
  shows "occurs_at s s' (p - q)"
proof -
  have s': "s' = take (length s') (drop q text)" using assms(2) by (simp add: occurs_at_def)
  have "take (length s) (drop (p - q) s') = take (length s) (drop (p - q) (take (length s') (drop q text)))"
    using s' by (rule arg_cong)
  also have "\<dots> = take (length s) (drop p text)" using assms(3,4) by (simp add: drop_take min_absorb1)
  also have "\<dots> = s" using assms(1) by (simp add: occurs_at_def)
  finally show ?thesis using assms(3,4) by (simp add: occurs_at_def)
qed

definition no_containment :: "string list \<Rightarrow> bool" where
  "no_containment stops \<longleftrightarrow> (\<forall>s\<in>set stops. \<forall>s'\<in>set stops. s \<noteq> s' \<longrightarrow> (\<forall>p. \<not> occurs_at s s' p))"

lemma occurs_at_prefix: "occurs_at s (t @ u) p \<Longrightarrow> p + length s \<le> length t \<Longrightarrow> occurs_at s t p"
  by (simp add: occurs_at_def)

lemma earliest_extend:
  assumes "earliest stops t p s" and "no_containment stops"
  shows "earliest stops (t @ u) p s"
proof -
  obtain i where i: "i < length stops" "stops ! i = s" "occurs_at s t p" "\<forall>j<i. \<not> occurs_at (stops ! j) t p"
    and before: "\<forall>s'\<in>set stops. \<forall>q<p. \<not> occurs_at s' t q" using assms(1) unfolding earliest_def by (elim conjE exE)
  have s: "s \<in> set stops" using i(1,2) by auto
  have o: "occurs_at s (t @ u) p" by (rule occurs_at_append [OF i(3)])
  have new: "occurs_at s' t q" if s': "s' \<in> set stops" and q: "q \<le> p" and o': "occurs_at s' (t @ u) q" for s' q
  proof (cases "q + length s' \<le> length t")
    case True
    then show ?thesis by (rule occurs_at_prefix [OF o'])
  next
    case False
    then have le: "p + length s \<le> q + length s'" using i(3) by (simp add: occurs_at_def)
    have "occurs_at s s' (p - q)" by (rule occurs_inside [OF o o' q le])
    then have "s = s'" using assms(2) s s' unfolding no_containment_def by blast
    then have "q = p" using le q by simp
    then show ?thesis using i(3) \<open>s = s'\<close> by simp
  qed
  have "\<not> occurs_at (stops ! j) (t @ u) p" if "j < i" for j using new [of "stops ! j" p] i(1,4) that by auto
  moreover have "\<not> occurs_at s' (t @ u) q" if "s' \<in> set stops" "q < p" for s' q using new [of s' q] before that by auto
  ultimately show ?thesis using i(1,2) o unfolding earliest_def by blast
qed

text \<open>The reference: the whole text is cut at its earliest stop string.\<close>

definition cut_text :: "string list \<Rightarrow> string \<Rightarrow> string \<times> string option" where
  "cut_text stops text = (case best_stop text stops of None \<Rightarrow> (text, None) | Some (p, s) \<Rightarrow> (take p text, Some s))"

lemma cut_text_earliest: "earliest stops text p s \<Longrightarrow> cut_text stops text = (take p text, Some s)"
proof -
  assume e: "earliest stops text p s"
  then have "\<not> stop_free stops text" unfolding earliest_def stop_free_def by (metis nth_mem)
  then obtain p' s' where b: "best_stop text stops = Some (p', s')" and "earliest stops text p' s'"
    using best_stop_spec [of stops "text"] by (cases "best_stop text stops") auto
  then show ?thesis using earliest_unique [OF e] by (simp add: cut_text_def)
qed

lemma cut_text_free: "stop_free stops text \<Longrightarrow> cut_text stops text = (text, None)"
proof -
  assume f: "stop_free stops text"
  have "best_stop text stops = None"
  proof (rule ccontr)
    assume "best_stop text stops \<noteq> None"
    then obtain p s where "earliest stops text p s" using best_stop_spec [of stops "text"] by auto
    then show False using f unfolding earliest_def stop_free_def by (metis nth_mem)
  qed
  then show ?thesis by (simp add: cut_text_def)
qed

section \<open>A generation under the checker\<close>

text \<open>The tokens of a generation are observed in order, counted from one, until a step finishes. The result
  is the delivered text, the number of tokens used and the trigger.\<close>

fun observe_all :: "StopChecker \<Rightarrow> int list \<Rightarrow> nat \<Rightarrow> (string \<times> nat \<times> StopTrigger) status_or \<times> StopChecker" where
  "observe_all sc [] n = (Inr ([], n, kNone), sc)"
| "observe_all sc (tid # tids) n =
     (case Observe sc tid (int n + 1) of
        (Inl e, sc') \<Rightarrow> (Inl e, sc')
      | (Inr r, sc') \<Rightarrow>
          if sr_finished r then (Inr (sr_text_delta r, n + 1, sr_trigger r), sc')
          else (case observe_all sc' tids (n + 1) of
                  (x, sc'') \<Rightarrow> (bind_ok x (\<lambda>(text, m, t). Inr (sr_text_delta r @ text, m, t)), sc'')))"

text \<open>The checker's state while it runs: \<open>fed\<close> is the detokenized text so far.\<close>

definition observing :: "StopChecker \<Rightarrow> string \<Rightarrow> string \<Rightarrow> bool" where
  "observing sc out fed \<longleftrightarrow>
     (if sm_stops (sc_matcher sc) = [] then out = fed \<and> sm_held (sc_matcher sc) = []
      else matching (sc_matcher sc) out fed)"

lemma observing_flush: "observing sc out fed \<Longrightarrow> out @ sm_held (sc_matcher sc) = fed"
  by (auto simp: observing_def matching_def split: if_splits)

lemma Observe_cases:
  assumes "observing sc out fed" and "sc_detok sc = Some ds" and "push ds tid = (Inr delta, ds')"
  obtains r sc' where "Observe sc tid k = (Inr r, sc')"
    and "sc_detok sc' = Some ds'" and "sm_stops (sc_matcher sc') = sm_stops (sc_matcher sc)"
    and "sc_max_tokens sc' = sc_max_tokens sc" and "sc_eos_ids sc' = sc_eos_ids sc" and "sc_stop_token_ids sc' = sc_stop_token_ids sc"
    and "sr_finished r \<longleftrightarrow> sr_trigger r \<noteq> kNone" and "sr_finished r \<Longrightarrow> sc_trigger sc' = sr_trigger r"
    and "\<not> sr_finished r \<Longrightarrow> sc_trigger sc' = sc_trigger sc"
    and "case sr_trigger r of
        kNone \<Rightarrow> observing sc' (out @ sr_text_delta r) (fed @ delta) \<and> k < sc_max_tokens sc \<and> \<not> IsEos sc tid \<and> \<not> IsStopTokenId sc tid
      | kEosId \<Rightarrow> IsEos sc tid \<and> out @ sr_text_delta r = fed @ delta \<and> sm_held (sc_matcher sc') = []
      | kStopTokenId \<Rightarrow> IsStopTokenId sc tid \<and> \<not> IsEos sc tid \<and> out @ sr_text_delta r = fed @ delta \<and> sm_held (sc_matcher sc') = []
      | kStopString \<Rightarrow> earliest (sm_stops (sc_matcher sc)) (fed @ delta) (length (out @ sr_text_delta r)) (sr_matched_stop r) \<and>
          out @ sr_text_delta r = take (length (out @ sr_text_delta r)) (fed @ delta)
      | kMaxTokens \<Rightarrow> observing sc' (out @ sr_text_delta r) (fed @ delta) \<and> sc_max_tokens sc \<le> k"
proof -
  let ?sc1 = "sc\<lparr>sc_detok := Some ds'\<rparr>"
  have ot: "observe_text sc tid = (Inr delta, ?sc1)" by (simp add: observe_text_def assms)
  have fl: "out @ sm_held (sc_matcher sc) = fed" by (rule observing_flush [OF assms(1)])
  show thesis
  proof (cases "IsEos sc tid \<or> IsStopTokenId sc tid")
    case True
    let ?t = "if IsEos sc tid then kEosId else kStopTokenId"
    let ?r = "\<lparr>sr_text_delta = sm_held (sc_matcher sc) @ delta, sr_finished = True, sr_finish_reason = FinishReason_kStop,
                     sr_trigger = ?t, sr_matched_stop = []\<rparr>"
    let ?sc' = "?sc1\<lparr>sc_matcher := (sc_matcher sc)\<lparr>sm_held := []\<rparr>, sc_trigger := ?t\<rparr>"
    have e: "IsEos ?sc1 tid = IsEos sc tid" "IsStopTokenId ?sc1 tid = IsStopTokenId sc tid"
      by (simp_all add: IsEos_def IsStopTokenId_def)
    have "Observe sc tid k = (Inr ?r, ?sc')" using True by (elim disjE) (simp_all add: Observe_def ot Flush_def Let_def e)
    then show thesis using that [of ?r ?sc'] True by (cases "IsEos sc tid") (simp_all add: fl [symmetric])
  next
    case False
    have n: "\<not> IsEos ?sc1 tid" "\<not> IsStopTokenId ?sc1 tid" using False by (simp_all add: IsEos_def IsStopTokenId_def)
    obtain fr m' where f: "(if has_stops (sc_matcher sc) then Feed (sc_matcher sc) delta
        else (\<lparr>fr_emit = delta, fr_matched = None\<rparr>, sc_matcher sc)) = (fr, m')" by (metis surj_pair)
    have spec: "case fr_matched fr of
        None \<Rightarrow> (if sm_stops m' = [] then out @ fr_emit fr = fed @ delta \<and> sm_held m' = []
                 else matching m' (out @ fr_emit fr) (fed @ delta)) \<and> sm_stops m' = sm_stops (sc_matcher sc)
      | Some s \<Rightarrow> earliest (sm_stops (sc_matcher sc)) (fed @ delta) (length (out @ fr_emit fr)) s \<and>
          out @ fr_emit fr = take (length (out @ fr_emit fr)) (fed @ delta) \<and> sm_stops m' = sm_stops (sc_matcher sc)"
    proof (cases "sm_stops (sc_matcher sc) = []")
      case True
      then show ?thesis using f assms(1) by (auto simp: has_stops_def observing_def)
    next
      case False
      then have F: "Feed (sc_matcher sc) delta = (fr, m')" and M: "matching (sc_matcher sc) out fed"
        using f assms(1) by (simp_all add: has_stops_def observing_def)
      have "sm_stops m' = sm_stops (sc_matcher sc)" using F by (auto simp: Feed_def Let_def split: if_splits option.splits prod.splits)
      then show ?thesis using Feed_step [OF M F] False
        by (cases "fr_matched fr") (simp_all only: option.case if_False simp_thms)
    qed
    show thesis
    proof (cases "fr_matched fr")
      case (Some s)
      let ?r = "\<lparr>sr_text_delta = fr_emit fr, sr_finished = True, sr_finish_reason = FinishReason_kStop,
                           sr_trigger = kStopString, sr_matched_stop = s\<rparr>"
      let ?sc' = "?sc1\<lparr>sc_matcher := m', sc_trigger := kStopString\<rparr>"
      have "Observe sc tid k = (Inr ?r, ?sc')" using n f Some by (cases "has_stops (sc_matcher sc)") (auto simp: Observe_def ot Let_def)
      then show thesis using that [of ?r ?sc'] spec Some by simp
    next
      case None
      show thesis
      proof (cases "sc_max_tokens sc \<le> k")
        case True
        let ?r = "\<lparr>sr_text_delta = fr_emit fr, sr_finished = True, sr_finish_reason = FinishReason_kLength,
                             sr_trigger = kMaxTokens, sr_matched_stop = []\<rparr>"
        let ?sc' = "?sc1\<lparr>sc_matcher := m', sc_trigger := kMaxTokens\<rparr>"
        have "Observe sc tid k = (Inr ?r, ?sc')" using n f None True by (cases "has_stops (sc_matcher sc)") (auto simp: Observe_def ot Let_def)
        then show thesis using that [of ?r ?sc'] spec None True by (simp add: observing_def)
      next
        case False
        let ?r = "\<lparr>sr_text_delta = fr_emit fr, sr_finished = False, sr_finish_reason = FinishReason_kLength,
                             sr_trigger = kNone, sr_matched_stop = []\<rparr>"
        let ?sc' = "?sc1\<lparr>sc_matcher := m'\<rparr>"
        have "Observe sc tid k = (Inr ?r, ?sc')" using n f None False by (cases "has_stops (sc_matcher sc)") (auto simp: Observe_def ot Let_def)
        then show thesis using that [of ?r ?sc'] spec None False \<open>\<not> (IsEos sc tid \<or> IsStopTokenId sc tid)\<close> by (simp add: observing_def)
      qed
    qed
  qed
qed

lemma observing_free:
  "observing sc out fed \<Longrightarrow> stop_free (sm_stops (sc_matcher sc)) fed \<and>
     holds_back (sm_stops (sc_matcher sc)) fed (length (sm_held (sc_matcher sc)))"
  unfolding observing_def
proof (cases "sm_stops (sc_matcher sc) = []")
  case False
  moreover assume "if sm_stops (sc_matcher sc) = [] then out = fed \<and> sm_held (sc_matcher sc) = [] else matching (sc_matcher sc) out fed"
  ultimately have "matching (sc_matcher sc) out fed" by simp
  then show ?thesis unfolding matching_def by blast
qed (simp add: stop_free_def holds_back_def)

text \<open>What a session delivers, with the detokenizer's stream as the reference, and why it ended. Unless a stop
  id ended it, the text streamed so far has no stop string in it when none matched, and the part held back is
  the longest tail that can still start one.\<close>

definition delivered :: "string list \<Rightarrow> StopTrigger \<Rightarrow> string \<Rightarrow> string \<Rightarrow> string \<Rightarrow> bool" where
  "delivered stops t out held fed \<longleftrightarrow>
     (if t = kStopString then (\<exists>s. earliest stops fed (length out) s) \<and> out = take (length out) fed
      else out @ held = fed \<and>
        (t = kNone \<or> t = kMaxTokens \<longrightarrow> stop_free stops fed \<and> holds_back stops fed (length held)))"

text \<open>Before its last token a session had streamed no stop string.\<close>

definition clean_before :: "string list \<Rightarrow> DetokenizerStream \<Rightarrow> int list \<Rightarrow> string \<Rightarrow> bool" where
  "clean_before stops ds tids fed \<longleftrightarrow>
     (tids \<noteq> [] \<longrightarrow> (\<exists>before ds'. push_all ds (butlast tids) = (Inr before, ds') \<and> stop_free stops (fed @ before)))"

lemma clean_before_Cons:
  assumes "push ds tid = (Inr delta, ds1)" and "stop_free stops fed" and "clean_before stops ds1 tids (fed @ delta)"
  shows "clean_before stops ds (tid # tids) fed"
proof (cases "tids = []")
  case False
  then obtain before ds' where "push_all ds1 (butlast tids) = (Inr before, ds')" "stop_free stops ((fed @ delta) @ before)"
    using assms(3) unfolding clean_before_def by blast
  then have "push_all ds (butlast (tid # tids)) = (Inr (delta @ before), ds') \<and> stop_free stops (fed @ delta @ before)"
    using False assms(1) by simp
  then show ?thesis unfolding clean_before_def by blast
qed (use assms(2) in \<open>simp add: clean_before_def\<close>)

definition reason_ok :: "StopChecker \<Rightarrow> StopTrigger \<Rightarrow> int list \<Rightarrow> nat \<Rightarrow> nat \<Rightarrow> bool" where
  "reason_ok sc t tids k m \<longleftrightarrow>
     (\<forall>i<k - 1. \<not> IsEos sc (tids ! i) \<and> \<not> IsStopTokenId sc (tids ! i)) \<and> (0 < k \<longrightarrow> int m \<le> sc_max_tokens sc) \<and>
     (t = kNone \<longrightarrow> k = length tids) \<and> (t = kEosId \<longrightarrow> 0 < k \<and> IsEos sc (tids ! (k - 1))) \<and>
     (t = kStopTokenId \<longrightarrow> 0 < k \<and> IsStopTokenId sc (tids ! (k - 1))) \<and> (t = kMaxTokens \<longrightarrow> int m = sc_max_tokens sc)"

lemma reason_ok_Cons:
  assumes "reason_ok sc t tids k m" and "\<not> IsEos sc tid" and "\<not> IsStopTokenId sc tid" and "int m \<le> sc_max_tokens sc"
  shows "reason_ok sc t (tid # tids) (Suc k) m"
  using assms by (auto simp: reason_ok_def nth_Cons split: nat.splits)

lemma observe_all_spec:
  assumes "observing sc out fed" and "sc_detok sc = Some ds" and "int n < sc_max_tokens sc"
    and "sc_trigger sc = kNone" and "observe_all sc tids n = (Inr (e, m, t), sc')"
  shows "\<exists>k fed' ds'. k \<le> length tids \<and> m = n + k \<and> push_all ds (take k tids) = (Inr fed', ds') \<and> sc_detok sc' = Some ds' \<and>
      sc_trigger sc' = t \<and> reason_ok sc t tids k m \<and> clean_before (sm_stops (sc_matcher sc)) ds (take k tids) fed \<and>
      delivered (sm_stops (sc_matcher sc)) t (out @ e) (sm_held (sc_matcher sc')) (fed @ fed')"
  using assms
proof (induction tids arbitrary: sc out fed ds n e)
  case Nil
  then show ?case using observing_flush [OF Nil(1)] observing_free [OF Nil(1)]
    by (intro exI [of _ 0]) (auto simp: reason_ok_def delivered_def clean_before_def)
next
  case (Cons tid tids)
  obtain x ds1 where p: "push ds tid = (x, ds1)" by force
  show ?case
  proof (cases x)
    case (Inl err)
    then have "observe_text sc tid = (Inl err, sc\<lparr>sc_detok := Some ds1\<rparr>)" using p Cons.prems(2) by (simp add: observe_text_def)
    then show ?thesis using Cons.prems(5) by (simp add: Observe_def)
  next
    case (Inr delta)
    note n = Cons.prems(3)
    obtain r sc1 where o: "Observe sc tid (int n + 1) = (Inr r, sc1)"
      and f: "sc_detok sc1 = Some ds1" "sm_stops (sc_matcher sc1) = sm_stops (sc_matcher sc)"
        "sc_max_tokens sc1 = sc_max_tokens sc" "sc_eos_ids sc1 = sc_eos_ids sc" "sc_stop_token_ids sc1 = sc_stop_token_ids sc"
      and fin: "sr_finished r \<longleftrightarrow> sr_trigger r \<noteq> kNone" "sr_finished r \<Longrightarrow> sc_trigger sc1 = sr_trigger r"
        "\<not> sr_finished r \<Longrightarrow> sc_trigger sc1 = sc_trigger sc"
      and sp: "case sr_trigger r of
        kNone \<Rightarrow> observing sc1 (out @ sr_text_delta r) (fed @ delta) \<and> int n + 1 < sc_max_tokens sc \<and> \<not> IsEos sc tid \<and> \<not> IsStopTokenId sc tid
      | kEosId \<Rightarrow> IsEos sc tid \<and> out @ sr_text_delta r = fed @ delta \<and> sm_held (sc_matcher sc1) = []
      | kStopTokenId \<Rightarrow> IsStopTokenId sc tid \<and> \<not> IsEos sc tid \<and> out @ sr_text_delta r = fed @ delta \<and> sm_held (sc_matcher sc1) = []
      | kStopString \<Rightarrow> earliest (sm_stops (sc_matcher sc)) (fed @ delta) (length (out @ sr_text_delta r)) (sr_matched_stop r) \<and>
          out @ sr_text_delta r = take (length (out @ sr_text_delta r)) (fed @ delta)
      | kMaxTokens \<Rightarrow> observing sc1 (out @ sr_text_delta r) (fed @ delta) \<and> sc_max_tokens sc \<le> int n + 1"
      by (rule Observe_cases [OF Cons.prems(1,2) p [unfolded Inr], of "int n + 1"]) blast
    have eq: "IsEos sc1 = IsEos sc" "IsStopTokenId sc1 = IsStopTokenId sc" using f by (simp_all add: IsEos_def IsStopTokenId_def fun_eq_iff)
    show ?thesis
    proof (cases "sr_trigger r = kNone")
      case False
      then have e: "e = sr_text_delta r" "m = n + 1" "t = sr_trigger r" "sc' = sc1" using Cons.prems(5) o fin by simp_all
      have pa: "push_all ds (take 1 (tid # tids)) = (Inr delta, ds1)" using p Inr by simp
      have "delivered (sm_stops (sc_matcher sc)) t (out @ e) (sm_held (sc_matcher sc')) (fed @ delta)"
      proof (cases "sr_trigger r")
        case kStopString
        then show ?thesis using sp unfolding delivered_def e kStopString StopTrigger.case if_P [OF refl] by blast
      next
        case kMaxTokens
        then have "observing sc1 (out @ sr_text_delta r) (fed @ delta)" using sp by simp
        from observing_flush [OF this] observing_free [OF this] kMaxTokens show ?thesis
          unfolding delivered_def e f by (simp only: StopTrigger.distinct if_False simp_thms)
      qed (use sp False in \<open>simp_all add: delivered_def e\<close>)
      moreover have "reason_ok sc t (tid # tids) 1 m" using sp n False by (cases "sr_trigger r") (simp_all add: reason_ok_def e)
      moreover have "clean_before (sm_stops (sc_matcher sc)) ds (take 1 (tid # tids)) fed"
        using observing_free [OF Cons.prems(1)] by (simp add: clean_before_def)
      ultimately show ?thesis using pa e f(1) fin(1,2) False
        by (intro exI [of _ 1] exI [of _ delta] exI [of _ ds1]) (simp del: take_Suc_Cons)
    next
      case True
      then have ob: "observing sc1 (out @ sr_text_delta r) (fed @ delta)" "int (n + 1) < sc_max_tokens sc1"
        "\<not> IsEos sc tid" "\<not> IsStopTokenId sc tid" "sc_trigger sc1 = kNone"
        using sp fin f(3) Cons.prems(4) by simp_all
      obtain y sc2 where y: "observe_all sc1 tids (n + 1) = (y, sc2)" by force
      then obtain e' where y': "y = Inr (e', m, t)" "e = sr_text_delta r @ e'" "sc2 = sc'"
        using Cons.prems(5) o True fin by (cases y) auto
      from Cons.IH [OF ob(1) f(1) ob(2,5) y [unfolded y']]
      obtain k fed' ds' where IH: "k \<le> length tids" "m = n + 1 + k" "push_all ds1 (take k tids) = (Inr fed', ds')"
        "sc_detok sc' = Some ds'" "sc_trigger sc' = t" "reason_ok sc1 t tids k m"
        "clean_before (sm_stops (sc_matcher sc1)) ds1 (take k tids) (fed @ delta)"
        "delivered (sm_stops (sc_matcher sc1)) t ((out @ sr_text_delta r) @ e') (sm_held (sc_matcher sc')) ((fed @ delta) @ fed')"
        by (elim exE conjE)
      have pa: "push_all ds (take (Suc k) (tid # tids)) = (Inr (delta @ fed'), ds')" using p Inr IH(3) by simp
      have rk: "reason_ok sc t tids k m" using IH(6) f(3) by (simp add: reason_ok_def eq)
      then have mx: "int m \<le> sc_max_tokens sc" using IH(2) ob(2) f(3) by (cases "k = 0") (auto simp: reason_ok_def)
      have "delivered (sm_stops (sc_matcher sc)) t (out @ e) (sm_held (sc_matcher sc')) (fed @ delta @ fed')"
        using IH(8) by (simp only: f y'(2) append_assoc)
      moreover have "clean_before (sm_stops (sc_matcher sc)) ds (take (Suc k) (tid # tids)) fed"
        using clean_before_Cons [OF p [unfolded Inr] conjunct1 [OF observing_free [OF Cons.prems(1)]] IH(7) [unfolded f]] by simp
      ultimately show ?thesis using pa reason_ok_Cons [OF rk ob(3,4) mx] IH(1,2,4,5)
        by (intro exI [of _ "Suc k"] exI [of _ "delta @ fed'"] exI [of _ ds']) (simp del: take_Suc_Cons push_all.simps)
    qed
  qed
qed

lemma matching_text: "matching m out text \<Longrightarrow> out @ sm_held m = text \<and> stop_free (sm_stops m) text"
  unfolding matching_def by (elim conjE) (rule conjI, rule sym)

lemma observing_init:
  assumes "[] \<notin> set (stop_strings params)" and "StopChecker_Create params eos_ids tokenizer skip = Inr sc"
  shows "observing sc [] []"
  using assms matching_init [of "stop_strings params"]
  by (auto simp: StopChecker_Create_def observing_def StopStringMatcher_ctor_def split: if_splits)

lemma push_all_append:
  "push_all ds xs = (Inr a, ds') \<Longrightarrow> push_all ds (xs @ ys) = (case push_all ds' ys of (r, ds'') \<Rightarrow> (bind_ok r (\<lambda>b. Inr (a @ b)), ds''))"
proof (induction xs arbitrary: ds a)
  case Nil
  then show ?case by (cases "push_all ds' ys"; cases "fst (push_all ds' ys)") auto
next
  case (Cons x xs)
  obtain b d1 where b: "push ds x = (Inr b, d1)" using Cons.prems by (auto split: prod.splits sum.splits)
  then obtain c where "push_all d1 xs = (Inr c, ds')" "a = b @ c" using Cons.prems by (auto split: prod.splits elim!: bind_okE)
  then show ?case using Cons.IH [of d1 c] b by (cases "push_all ds' ys"; cases "fst (push_all ds' ys)") auto
qed

section \<open>Properties\<close>

text \<open>The streaming matcher cuts the text it is fed. Whatever the chunks: without a match nothing is lost, no
  stop string occurs in the text, and what was emitted plus the flushed tail is the text; at the first chunk that
  completes a stop string, everything before its earliest occurrence has been emitted and nothing after it.\<close>

theorem matcher_cuts_text:
  assumes "stops \<noteq> []" and "[] \<notin> set stops" and "feed_until (StopStringMatcher_ctor stops) chunks = (emitted, r, m)"
  shows "case r of
      None \<Rightarrow> stop_free stops (concat chunks) \<and> emitted @ fst (Flush m) = concat chunks
    | Some s \<Rightarrow> \<exists>k<length chunks. stop_free stops (concat (take k chunks)) \<and>
        earliest stops (concat (take (Suc k) chunks)) (length emitted) s \<and>
        emitted = take (length emitted) (concat (take (Suc k) chunks))"
proof -
  note sp = feed_until_spec [OF matching_init [OF assms(1,2)] assms(3)]
  have st: "sm_stops (StopStringMatcher_ctor stops) = stops" by (simp add: StopStringMatcher_ctor_def)
  show ?thesis
  proof (cases r)
    case None
    then have "matching m ([] @ emitted) ([] @ concat chunks)" "sm_stops m = stops"
      using sp unfolding st by (simp_all only: option.case)
    from matching_text [OF this(1)] this(2) None show ?thesis by (simp add: Flush_def)
  next
    case (Some s)
    then show ?thesis using sp unfolding st by (simp only: option.case append_Nil)
  qed
qed

theorem matcher_cuts_text_witness:
  "feed_until (StopStringMatcher_ctor [''end'', ''xx'']) [''a e'', ''n'', ''d!'' ] =
     (''a '', Some ''end'', \<lparr>sm_stops = [''end'', ''xx''], sm_held = [], sm_matched = True\<rparr>) \<and>
   (\<exists>k<length [''a e'', ''n'', ''d!'']. stop_free [''end'', ''xx''] (concat (take k [''a e'', ''n'', ''d!''])) \<and>
        earliest [''end'', ''xx''] (concat (take (Suc k) [''a e'', ''n'', ''d!''])) (length ''a '') ''end'' \<and>
        ''a '' = take (length ''a '') (concat (take (Suc k) [''a e'', ''n'', ''d!''])))"
proof -
  have f: "feed_until (StopStringMatcher_ctor [''end'', ''xx'']) [''a e'', ''n'', ''d!'' ] =
     (''a '', Some ''end'', \<lparr>sm_stops = [''end'', ''xx''], sm_held = [], sm_matched = True\<rparr>)" by code_simp
  have s: "[''end'', ''xx''] \<noteq> []" "[] \<notin> set [''end'', ''xx'']" by simp_all
  from matcher_cuts_text [OF s f] f show ?thesis unfolding option.case by blast
qed

text \<open>Chunking does not matter: when no stop string contains another, streaming the text in any chunks gives
  what cutting the whole text at its earliest stop string gives.\<close>

theorem matcher_chunking_irrelevant:
  assumes "stops \<noteq> []" and "[] \<notin> set stops" and "no_containment stops"
    and "feed_until (StopStringMatcher_ctor stops) chunks = (emitted, r, m)"
  shows "(emitted @ (if r = None then fst (Flush m) else []), r) = cut_text stops (concat chunks)"
proof -
  note sp = feed_until_spec [OF matching_init [OF assms(1,2)] assms(4)]
  have st: "sm_stops (StopStringMatcher_ctor stops) = stops" by (simp add: StopStringMatcher_ctor_def)
  show ?thesis
  proof (cases r)
    case None
    then have "matching m ([] @ emitted) ([] @ concat chunks)" "sm_stops m = stops"
      using sp unfolding st by (simp_all only: option.case)
    from matching_text [OF this(1)] this(2) have "stop_free stops (concat chunks)" "emitted @ fst (Flush m) = concat chunks"
      by (simp_all add: Flush_def)
    then show ?thesis using None cut_text_free [of stops "concat chunks"] by simp
  next
    case (Some s)
    then obtain k where k: "earliest stops (concat (take (Suc k) chunks)) (length emitted) s"
      "emitted = take (length emitted) (concat (take (Suc k) chunks))"
      using sp unfolding st by (simp only: option.case append_Nil) blast
    have c: "concat chunks = concat (take (Suc k) chunks) @ concat (drop (Suc k) chunks)"
      by (simp only: concat_append [symmetric] append_take_drop_id)
    have "earliest stops (concat chunks) (length emitted) s" unfolding c by (rule earliest_extend [OF k(1) assms(3)])
    moreover have "take (length emitted) (concat chunks) = emitted"
    proof -
      have "length emitted \<le> length (concat (take (Suc k) chunks))" using arg_cong [OF k(2), of length] by simp
      then show ?thesis unfolding c using k(2) by simp
    qed
    ultimately show ?thesis using Some cut_text_earliest by simp
  qed
qed

theorem matcher_chunking_irrelevant_witness:
  "cut_text [''end''] ''a end!'' = (''a '', Some ''end'')"
proof -
  have f: "feed_until (StopStringMatcher_ctor [''end'']) [''a e'', ''nd!'' ] =
     (''a '', Some ''end'', \<lparr>sm_stops = [''end''], sm_held = [], sm_matched = True\<rparr>)" by code_simp
  show ?thesis using matcher_chunking_irrelevant [OF _ _ _ f] by (simp add: no_containment_def)
qed

text \<open>With a stop string inside another the chunks decide where the text is cut.\<close>

lemma chunking_matters:
  "fst (feed_until (StopStringMatcher_ctor [''abcd'', ''bc'']) [''abcd'']) = [] \<and>
   fst (feed_until (StopStringMatcher_ctor [''abcd'', ''bc'']) [''abc'', ''d'']) = ''a''"
  by code_simp

text \<open>A matcher that has matched still emits what it is fed.\<close>

lemma spent_matcher_emits: "sm_matched m \<Longrightarrow> Feed m chunk = (\<lparr>fr_emit = chunk, fr_matched = None\<rparr>, m)"
  by (simp add: Feed_def)

text \<open>C24. What a request delivers: for a validated request with a tokenizer, the text of the observed steps and of
  \<open>Finish\<close> is the batch decoding of the tokens used. The streamed part of it contained no stop string before the
  last token; when the trigger is a stop string, the delivered text is cut at the earliest occurrence of one;
  when the tokens run out or reach the maximum, the streamed part contains none, and the steps have delivered all
  of it but the longest tail that could still start one. Not more than \<open>max_tokens\<close> tokens are used, no
  earlier token was a stop id, and the trigger names the condition that held.\<close>

theorem generation_text:
  assumes "ValidateSamplingParams params = Inr ()" and "StopChecker_Create params eos_ids (Some tk) skip = Inr sc"
    and "observe_all sc ids 0 = (Inr (text, n, t), sc')"
  shows "n \<le> length ids \<and> int n \<le> max_tokens params \<and>
    (\<exists>fed ds' full. push_all (DetokenizerStream_ctor tk skip) (take n ids) = (Inr fed, ds') \<and>
       decode tk (take n ids) skip = Inr full \<and> full = fed @ fst (finish ds') \<and>
       clean_before (stop_strings params) (DetokenizerStream_ctor tk skip) (take n ids) [] \<and>
       (if t = kStopString then fst (StopChecker_Finish sc') = [] \<and>
          (\<exists>s. earliest (stop_strings params) fed (length text) s \<and> occurs_at s full (length text)) \<and>
          text = take (length text) full
        else text @ fst (StopChecker_Finish sc') = full) \<and>
       (t = kNone \<or> t = kMaxTokens \<longrightarrow> stop_free (stop_strings params) fed \<and>
          (\<exists>h. holds_back (stop_strings params) fed h \<and> text = take (length fed - h) fed))) \<and>
    (\<forall>i<n - 1. ids ! i \<notin> set eos_ids \<union> set (stop_token_ids params)) \<and>
    (t = kNone \<longrightarrow> n = length ids) \<and> (t = kMaxTokens \<longrightarrow> int n = max_tokens params) \<and>
    (t = kEosId \<longrightarrow> ids ! (n - 1) \<in> set eos_ids) \<and> (t = kStopTokenId \<longrightarrow> ids ! (n - 1) \<in> set (stop_token_ids params))"
proof -
  let ?ds = "DetokenizerStream_ctor tk skip"
  have sc: "sc = \<lparr>sc_eos_ids = eos_ids, sc_stop_token_ids = stop_token_ids params, sc_max_tokens = max_tokens params,
      sc_detok = Some ?ds, sc_matcher = StopStringMatcher_ctor (stop_strings params), sc_trigger = kNone\<rparr>"
    using assms(2) by (simp add: StopChecker_Create_def split: if_splits)
  have ob: "observing sc [] []" by (rule observing_init [OF valid_params(2) [OF assms(1)] assms(2)])
  have pos: "int 0 < sc_max_tokens sc" using valid_params(1) [OF assms(1)] by (simp add: sc)
  have d: "sc_detok sc = Some ?ds" "sc_trigger sc = kNone" by (simp_all add: sc)
  obtain k fed ds' where k: "k \<le> length ids" "n = 0 + k" "push_all ?ds (take k ids) = (Inr fed, ds')" "sc_detok sc' = Some ds'"
    "sc_trigger sc' = t" "reason_ok sc t ids k n"
    "clean_before (sm_stops (sc_matcher sc)) ?ds (take k ids) []"
    "delivered (sm_stops (sc_matcher sc)) t ([] @ text) (sm_held (sc_matcher sc')) ([] @ fed)"
    using observe_all_spec [OF ob d(1) pos d(2) assms(3)] by (elim exE conjE)
  have dec: "decode tk (take n ids) skip = Inr (fed @ fst (finish ds'))"
    using push_all_decode [of ?ds "take k ids"] k(2,3) by (simp add: DetokenizerStream_ctor_def decode_def)
  have st: "sm_stops (sc_matcher sc) = stop_strings params" by (simp add: sc StopStringMatcher_ctor_def)
  let ?full = "fed @ fst (finish ds')"
  have full: "if t = kStopString then fst (StopChecker_Finish sc') = [] \<and>
        (\<exists>s. earliest (stop_strings params) fed (length text) s \<and> occurs_at s ?full (length text)) \<and>
        text = take (length text) ?full
      else text @ fst (StopChecker_Finish sc') = ?full"
  proof (cases "t = kStopString")
    case True
    then obtain s where e: "earliest (stop_strings params) fed (length text) s" and tk: "text = take (length text) fed"
      using k(8) unfolding delivered_def st by auto
    have o: "occurs_at s fed (length text)" using e unfolding earliest_def by blast
    then have "length text \<le> length fed" by (simp add: occurs_at_def)
    then have "text = take (length text) ?full" using tk by simp
    then show ?thesis using True k(5) e occurs_at_append [OF o] by (auto simp: StopChecker_Finish_def)
  next
    case False
    then have "text @ sm_held (sc_matcher sc') = fed" using k(8) by (simp add: delivered_def)
    then show ?thesis using False k(4,5) by (auto simp: StopChecker_Finish_def Flush_def split: prod.splits)
  qed
  have held: "stop_free (stop_strings params) fed \<and> (\<exists>h. holds_back (stop_strings params) fed h \<and> text = take (length fed - h) fed)"
    if "t = kNone \<or> t = kMaxTokens"
  proof -
    have "text @ sm_held (sc_matcher sc') = fed" "stop_free (stop_strings params) fed"
      "holds_back (stop_strings params) fed (length (sm_held (sc_matcher sc')))"
      using k(8) that unfolding delivered_def st by auto
    moreover have "text = take (length fed - length (sm_held (sc_matcher sc'))) fed" using calculation(1) by auto
    ultimately show ?thesis by blast
  qed
  have n: "int n \<le> max_tokens params" using k(2,6) valid_params(1) [OF assms(1)] by (cases "k = 0") (auto simp: reason_ok_def sc)
  have ids: "(\<forall>i<n - 1. ids ! i \<notin> set eos_ids \<union> set (stop_token_ids params)) \<and>
    (t = kNone \<longrightarrow> n = length ids) \<and> (t = kMaxTokens \<longrightarrow> int n = max_tokens params) \<and>
    (t = kEosId \<longrightarrow> ids ! (n - 1) \<in> set eos_ids) \<and> (t = kStopTokenId \<longrightarrow> ids ! (n - 1) \<in> set (stop_token_ids params))"
    using k(2,6) by (auto simp: reason_ok_def sc IsEos_def IsStopTokenId_def)
  have nk: "n = k" using k(2) by simp
  show ?thesis using dec full held n ids k(1,3,7) unfolding nk st by blast
qed

text \<open>A vocabulary of three pieces and a stop string that only the second and third complete, at the end of one
  token and the start of the next.\<close>

definition pieces_tokenizer :: Tokenizer where
  "pieces_tokenizer = halves_tokenizer\<lparr>tk_id_to_token := [''ab'', ''cd'', ''e''], tk_id_to_bytes := [''ab'', ''cd'', ''e'']\<rparr>"

definition sample_params :: SamplingParams where
  "sample_params = (Greedy 5)\<lparr>stop_token_ids := [7], stop_strings := [''zz'', ''bc'']\<rparr>"

theorem generation_text_witness:
  "\<exists>sc sc' fed. StopChecker_Create sample_params [9] (Some pieces_tokenizer) False = Inr sc \<and>
     observe_all sc [2, 0, 1, 2] 0 = (Inr (''ea'', 3, kStopString), sc') \<and>
     decode pieces_tokenizer [2, 0, 1] False = Inr ''eabcd'' \<and>
     (\<exists>s. earliest [''zz'', ''bc''] fed 2 s) \<and> prefix fed ''eabcd'' \<and>
     clean_before [''zz'', ''bc''] (DetokenizerStream_ctor pieces_tokenizer False) [2, 0, 1] []"
proof -
  have v: "ValidateSamplingParams sample_params = Inr ()" by code_simp
  have c: "case StopChecker_Create sample_params [9] (Some pieces_tokenizer) False of
      Inr sc \<Rightarrow> (case observe_all sc [2, 0, 1, 2] 0 of
        (Inr (text, n, t), sc') \<Rightarrow> text = ''ea'' \<and> n = 3 \<and> t = kStopString | _ \<Rightarrow> False) | _ \<Rightarrow> False"
    by code_simp
  have d: "decode pieces_tokenizer [2, 0, 1] False = Inr ''eabcd''" by code_simp
  obtain sc where sc: "StopChecker_Create sample_params [9] (Some pieces_tokenizer) False = Inr sc"
    using c by (cases "StopChecker_Create sample_params [9] (Some pieces_tokenizer) False") simp_all
  obtain x sc' where x: "observe_all sc [2, 0, 1, 2] 0 = (x, sc')" by force
  then have ob: "observe_all sc [2, 0, 1, 2] 0 = (Inr (''ea'', 3, kStopString), sc')"
    using c unfolding sc by (cases x) auto
  have ss: "stop_strings sample_params = [''zz'', ''bc'']" "take 3 [2, 0, 1, 2 :: int] = [2, 0, 1]" "length ''ea'' = 2"
    by (simp_all add: sample_params_def)
  from generation_text [OF v sc ob, unfolded ss if_P [OF refl]] obtain fed full where
    "decode pieces_tokenizer [2, 0, 1] False = Inr full" "prefix fed full" "\<exists>s. earliest [''zz'', ''bc''] fed 2 s"
    "clean_before [''zz'', ''bc''] (DetokenizerStream_ctor pieces_tokenizer False) [2, 0, 1] []"
    by (elim exE conjE) (metis prefixI)
  then show ?thesis using sc ob d by auto
qed

end
