(* ===== verification/Float_Arith.thy ===== *)
theory Float_Arith
  imports Sampling_Params
begin

text \<open>
  The C++ floating-point arithmetic the sampler and the planners use: IEEE 754 binary formats with
  round-to-nearest-even, on the values of \<open>Float\<close>. An operation is the exact rational result, rounded.
  A zero has no sign here: the code never divides by a zero and never inspects the sign of one.
\<close>

section \<open>Rounding\<close>

record FloatFormat =
  ff_prec :: nat
  ff_qmin :: int
  ff_emax :: int

definition binary32 :: FloatFormat where
  "binary32 = \<lparr>ff_prec = 24, ff_qmin = - 149, ff_emax = 128\<rparr>"

definition binary64 :: FloatFormat where
  "binary64 = \<lparr>ff_prec = 53, ff_qmin = - 1074, ff_emax = 1024\<rparr>"

definition format_ok :: "FloatFormat \<Rightarrow> bool" where
  "format_ok f \<longleftrightarrow> 0 < ff_prec f \<and> ff_qmin f \<le> 0 \<and> int (ff_prec f) \<le> ff_emax f"

lemma formats_ok [simp]: "format_ok binary32" "format_ok binary64"
  by (simp_all add: format_ok_def binary32_def binary64_def)

abbreviation two_to :: "int \<Rightarrow> rat" where
  "two_to n \<equiv> 2 powi n"

text \<open>The exponent of the leading bit, of an integer and of a rational.\<close>

function ilog_int :: "int \<Rightarrow> int" where
  "ilog_int n = (if n \<le> 1 then 0 else 1 + ilog_int (n div 2))"
  by auto

termination
  by (relation "measure nat") auto

declare ilog_int.simps [simp del]

definition ilog2 :: "rat \<Rightarrow> int" where
  "ilog2 x = (case quotient_of x of (n, d) \<Rightarrow>
     let e = ilog_int n - ilog_int d in if two_to e \<le> x then e else e - 1)"

definition round_even :: "rat \<Rightarrow> int" where
  "round_even x =
     (let f = \<lfloor>x\<rfloor>; r = x - of_int f in
      if r < 1 / 2 then f else if 1 / 2 < r then f + 1 else if even f then f else f + 1)"

text \<open>The weight of the last bit kept for a magnitude \<open>x\<close>, and \<open>x\<close> rounded to it.\<close>

definition quantum :: "FloatFormat \<Rightarrow> rat \<Rightarrow> int" where
  "quantum f x = max (ilog2 x - int (ff_prec f) + 1) (ff_qmin f)"

definition round_mag :: "FloatFormat \<Rightarrow> rat \<Rightarrow> rat" where
  "round_mag f x = of_int (round_even (x / two_to (quantum f x))) * two_to (quantum f x)"

definition round_to :: "FloatFormat \<Rightarrow> rat \<Rightarrow> Float" where
  "round_to f x =
     (if x = 0 then Finite 0
      else let m = round_mag f \<bar>x\<bar> in
        if two_to (ff_emax f) \<le> m then Infinity (x < 0) else Finite (if x < 0 then - m else m))"

section \<open>Operations\<close>

fun fadd :: "FloatFormat \<Rightarrow> Float \<Rightarrow> Float \<Rightarrow> Float" where
  "fadd f (Finite a) (Finite b) = round_to f (a + b)"
| "fadd f (Infinity m) (Infinity n) = (if m = n then Infinity m else NaN)"
| "fadd f (Infinity m) (Finite b) = Infinity m"
| "fadd f (Finite a) (Infinity n) = Infinity n"
| "fadd f NaN y = NaN"
| "fadd f x NaN = NaN"

fun fneg :: "Float \<Rightarrow> Float" where
  "fneg (Finite a) = Finite (- a)"
| "fneg (Infinity m) = Infinity (\<not> m)"
| "fneg NaN = NaN"

definition fsub :: "FloatFormat \<Rightarrow> Float \<Rightarrow> Float \<Rightarrow> Float" where
  "fsub f x y = fadd f x (fneg y)"

fun fmul :: "FloatFormat \<Rightarrow> Float \<Rightarrow> Float \<Rightarrow> Float" where
  "fmul f (Finite a) (Finite b) = round_to f (a * b)"
| "fmul f (Infinity m) (Infinity n) = Infinity (m \<noteq> n)"
| "fmul f (Infinity m) (Finite b) = (if b = 0 then NaN else Infinity (m \<noteq> (b < 0)))"
| "fmul f (Finite a) (Infinity n) = (if a = 0 then NaN else Infinity (n \<noteq> (a < 0)))"
| "fmul f NaN y = NaN"
| "fmul f x NaN = NaN"

fun fdiv :: "FloatFormat \<Rightarrow> Float \<Rightarrow> Float \<Rightarrow> Float" where
  "fdiv f (Finite a) (Finite b) =
     (if b = 0 then (if a = 0 then NaN else Infinity (a < 0)) else round_to f (a / b))"
| "fdiv f (Infinity m) (Infinity n) = NaN"
| "fdiv f (Infinity m) (Finite b) = Infinity (m \<noteq> (b < 0))"
| "fdiv f (Finite a) (Infinity n) = Finite 0"
| "fdiv f NaN y = NaN"
| "fdiv f x NaN = NaN"

text \<open>Conversions: to the wider format exactly, to the narrower one with rounding.\<close>

definition to_float :: "Float \<Rightarrow> Float" where
  "to_float x = (case x of Finite a \<Rightarrow> round_to binary32 a | _ \<Rightarrow> x)"

definition float_eq :: "Float \<Rightarrow> Float \<Rightarrow> bool" where
  "float_eq x y \<longleftrightarrow> x = y \<and> x \<noteq> NaN"

text \<open>\<open>std::max(a, b)\<close> is \<open>a < b ? b : a\<close>.\<close>

definition float_max :: "Float \<Rightarrow> Float \<Rightarrow> Float" where
  "float_max a b = (if float_less a b then b else a)"

section \<open>Leading bits\<close>

lemma two_to_pos [simp]: "0 < two_to n" "two_to n \<noteq> 0" "0 \<le> two_to n" "\<not> two_to n < 0"
  by (simp_all add: less_imp_le not_less)

lemma two_to_mono: "m \<le> n \<Longrightarrow> two_to m \<le> two_to n"
  by (rule power_int_increasing) auto

lemma two_to_less: "two_to m < two_to n \<Longrightarrow> m < n"
  using two_to_mono [of n m] by (meson linorder_not_le)

lemma two_to_less_iff: "two_to m < two_to n \<longleftrightarrow> m < n"
  using two_to_less power_int_strict_increasing [of m n "2::rat"] by auto

lemma two_to_add: "two_to (m + n) = two_to m * two_to n"
  by (simp add: power_int_add)

lemma ilog_int_bounds: "1 \<le> n \<Longrightarrow> 0 \<le> ilog_int n \<and> 2 ^ nat (ilog_int n) \<le> n \<and> n < 2 * 2 ^ nat (ilog_int n)"
proof (induction n rule: ilog_int.induct)
  case (1 n)
  show ?case
  proof (cases "n \<le> 1")
    case True
    then show ?thesis using 1(2) by (subst (1 2 3) ilog_int.simps) auto
  next
    case False
    then have "0 \<le> ilog_int (n div 2)" "2 ^ nat (ilog_int (n div 2)) \<le> n div 2" "n div 2 < 2 * 2 ^ nat (ilog_int (n div 2))"
      using 1(1) by auto
    moreover have "ilog_int n = 1 + ilog_int (n div 2)" using False by (subst ilog_int.simps) simp
    moreover have "2 * k \<le> n \<and> n < 4 * k" if "k \<le> n div 2" "n div 2 < 2 * k" for k :: int using that by linarith
    ultimately show ?thesis by (simp add: nat_add_distrib)
  qed
qed

lemma ilog_int_two_to:
  assumes "1 \<le> n"
  shows "two_to (ilog_int n) \<le> of_int n" and "of_int n < two_to (ilog_int n + 1)"
proof -
  note b = ilog_int_bounds [OF assms]
  have e: "two_to (ilog_int n) = of_int (2 ^ nat (ilog_int n))" using b by (simp add: power_int_nonneg_exp)
  show "two_to (ilog_int n) \<le> of_int n" using b unfolding e by (simp only: of_int_le_iff)
  have "of_int n < (of_int (2 * 2 ^ nat (ilog_int n)) :: rat)" using b by (simp only: of_int_less_iff)
  then show "of_int n < two_to (ilog_int n + 1)" using e by (simp add: power_int_add)
qed

lemma ilog2_bounds:
  assumes "0 < x"
  shows "two_to (ilog2 x) \<le> x" and "x < two_to (ilog2 x + 1)"
proof -
  obtain n d where q: "quotient_of x = (n, d)" by (metis surj_pair)
  have d: "0 < d" by (rule quotient_of_denom_pos [OF q])
  have x: "x = of_int n / of_int d" by (rule quotient_of_div [OF q])
  have n: "0 < n" using assms d by (simp add: x zero_less_divide_iff)
  let ?e = "ilog_int n - ilog_int d"
  note bn = ilog_int_two_to [of n] and bd = ilog_int_two_to [of d]
  have dq: "0 < (of_int d :: rat)" using d by simp
  have up: "x < two_to (?e + 1)"
  proof -
    have "of_int n < two_to (ilog_int n + 1)" using bn n by simp
    also have "\<dots> = two_to (?e + 1) * two_to (ilog_int d)" by (simp add: two_to_add [symmetric])
    also have "\<dots> \<le> two_to (?e + 1) * of_int d" using bd d by (intro mult_left_mono) auto
    finally show ?thesis using dq by (simp add: x pos_divide_less_eq)
  qed
  have lo: "two_to (?e - 1) \<le> x"
  proof -
    have "two_to (?e - 1) * of_int d \<le> two_to (?e - 1) * two_to (ilog_int d + 1)" using bd d by (intro mult_left_mono) auto
    also have "\<dots> = two_to (ilog_int n)" by (simp add: two_to_add [symmetric])
    also have "\<dots> \<le> of_int n" using bn n by simp
    finally show ?thesis using dq by (simp add: x pos_le_divide_eq)
  qed
  show "two_to (ilog2 x) \<le> x" using lo by (simp add: ilog2_def q Let_def)
  show "x < two_to (ilog2 x + 1)" using up by (simp add: ilog2_def q Let_def)
qed

lemma ilog2_eqI:
  assumes "two_to e \<le> x" and "x < two_to (e + 1)"
  shows "ilog2 x = e"
proof -
  have "0 < x" using assms(1) two_to_pos(1) by (rule less_le_trans [rotated])
  note b = ilog2_bounds [OF this]
  have "ilog2 x < e + 1" "e < ilog2 x + 1"
    using b assms two_to_less [of "ilog2 x" "e + 1"] two_to_less [of e "ilog2 x + 1"] by (meson order.strict_trans1)+
  then show ?thesis by simp
qed

lemma ilog2_mono:
  assumes "0 < x" and "x \<le> y"
  shows "ilog2 x \<le> ilog2 y"
proof -
  have "two_to (ilog2 x) < two_to (ilog2 y + 1)"
    using ilog2_bounds [of x] ilog2_bounds [of y] assms by linarith
  then show ?thesis using two_to_less by fastforce
qed

section \<open>Rounding is monotone and exact on representable numbers\<close>

lemma round_even_int [simp]: "round_even (of_int n) = n"
  by (simp add: round_even_def)

lemma round_even_mono:
  assumes "x \<le> y"
  shows "round_even x \<le> round_even y"
proof (cases "\<lfloor>x\<rfloor> = \<lfloor>y\<rfloor>")
  case True
  then show ?thesis using assms by (auto simp: round_even_def Let_def)
next
  case False
  then have "\<lfloor>x\<rfloor> + 1 \<le> \<lfloor>y\<rfloor>" using floor_mono [OF assms] by simp
  moreover have "round_even x \<le> \<lfloor>x\<rfloor> + 1" "\<lfloor>y\<rfloor> \<le> round_even y" by (auto simp: round_even_def Let_def)
  ultimately show ?thesis by simp
qed

lemma round_even_le: "x \<le> of_int n \<Longrightarrow> round_even x \<le> n"
  using round_even_mono [of x "of_int n"] by simp

lemma round_even_ge: "of_int n \<le> x \<Longrightarrow> n \<le> round_even x"
  using round_even_mono [of "of_int n" x] by simp

lemma round_mag_nonneg: "0 \<le> x \<Longrightarrow> 0 \<le> round_mag f x"
  using round_even_ge [of 0 "x / two_to (quantum f x)"] by (simp add: round_mag_def)

lemma quantum_ge: "ff_qmin f \<le> quantum f x" "ilog2 x + 1 \<le> quantum f x + int (ff_prec f)"
  by (auto simp: quantum_def)

lemma round_mag_upper:
  assumes "0 < x"
  shows "round_mag f x \<le> two_to (quantum f x + int (ff_prec f))"
proof -
  let ?q = "quantum f x"
  have "x \<le> two_to (?q + int (ff_prec f))"
    using ilog2_bounds(2) [OF assms] two_to_mono [OF quantum_ge(2) [of x f]] by linarith
  then have "x / two_to ?q \<le> of_int (2 ^ ff_prec f)" by (simp add: two_to_add divide_le_eq mult.commute)
  then have "round_even (x / two_to ?q) \<le> 2 ^ ff_prec f" by (rule round_even_le)
  then have "of_int (round_even (x / two_to ?q)) * two_to ?q \<le> of_int (2 ^ ff_prec f) * two_to ?q"
    by (intro mult_right_mono) (simp_all only: of_int_le_iff two_to_pos)
  then show ?thesis by (simp add: round_mag_def two_to_add mult.commute)
qed

lemma round_mag_lower:
  assumes "0 < x" and "0 < ff_prec f" and "quantum f x = ilog2 x - int (ff_prec f) + 1"
  shows "two_to (ilog2 x) \<le> round_mag f x"
proof -
  let ?q = "quantum f x"
  have e: "two_to (ilog2 x) = of_int (2 ^ (ff_prec f - 1)) * two_to ?q"
    using assms(2,3) by (simp add: two_to_add [symmetric] power_int_of_nat [symmetric] del: power_int_of_nat)
  then have "of_int (2 ^ (ff_prec f - 1)) \<le> x / two_to ?q"
    using ilog2_bounds(1) [OF assms(1)] by (simp add: le_divide_eq)
  then have "2 ^ (ff_prec f - 1) \<le> round_even (x / two_to ?q)" by (rule round_even_ge)
  then show ?thesis unfolding e round_mag_def by (intro mult_right_mono) (simp_all only: of_int_le_iff two_to_pos)
qed

lemma round_mag_mono:
  assumes "0 < x" and "x \<le> y" and "format_ok f"
  shows "round_mag f x \<le> round_mag f y"
proof (cases "quantum f x = quantum f y")
  case True
  have "round_even (x / two_to (quantum f y)) \<le> round_even (y / two_to (quantum f y))"
    using assms(2) by (intro round_even_mono divide_right_mono) simp_all
  then show ?thesis by (simp add: round_mag_def True)
next
  case False
  have "ilog2 x \<le> ilog2 y" using assms by (simp add: ilog2_mono)
  then have q: "quantum f x + 1 \<le> quantum f y" "quantum f y = ilog2 y - int (ff_prec f) + 1"
    using False by (auto simp: quantum_def max_def split: if_splits)
  have "round_mag f x \<le> two_to (quantum f x + int (ff_prec f))" using assms by (simp add: round_mag_upper)
  also have "\<dots> \<le> two_to (ilog2 y)" using q by (intro two_to_mono) simp
  also have "\<dots> \<le> round_mag f y" using assms q by (intro round_mag_lower) (simp_all add: format_ok_def)
  finally show ?thesis .
qed

definition representable :: "FloatFormat \<Rightarrow> rat \<Rightarrow> bool" where
  "representable f x \<longleftrightarrow> (\<exists>n k. \<bar>n\<bar> < 2 ^ ff_prec f \<and> ff_qmin f \<le> k \<and> x = of_int n * two_to k) \<and> \<bar>x\<bar> < two_to (ff_emax f)"

lemma round_mag_exact:
  assumes "0 < x" and "representable f x"
  shows "round_mag f x = x"
proof -
  obtain n k where nk: "\<bar>n\<bar> < 2 ^ ff_prec f" "ff_qmin f \<le> k" "x = of_int n * two_to k"
    using assms(2) by (auto simp: representable_def)
  have n: "0 < n" using assms(1) by (simp add: nk zero_less_mult_iff)
  have "x < two_to (k + int (ff_prec f))"
  proof -
    have "(of_int n :: rat) < of_int (2 ^ ff_prec f)" using nk(1) n by (simp only: of_int_less_iff)
    then show ?thesis by (simp add: nk(3) two_to_add mult.commute)
  qed
  then have "two_to (ilog2 x) < two_to (k + int (ff_prec f))" using ilog2_bounds(1) [OF assms(1)] by linarith
  then have "ilog2 x < k + int (ff_prec f)" by (rule two_to_less)
  then have q: "quantum f x \<le> k" using nk(2) by (simp add: quantum_def)
  have "x / two_to (quantum f x) = of_int (n * 2 ^ nat (k - quantum f x))"
    using q by (simp add: nk(3) power_int_nonneg_exp [symmetric] power_int_diff)
  then have "round_even (x / two_to (quantum f x)) = n * 2 ^ nat (k - quantum f x)" by (simp only: round_even_int)
  then show ?thesis using q by (simp add: round_mag_def nk(3) power_int_nonneg_exp [symmetric] power_int_diff)
qed

lemma representable_abs:
  assumes "representable f x"
  shows "representable f \<bar>x\<bar>"
proof -
  obtain n k where nk: "\<bar>n\<bar> < 2 ^ ff_prec f" "ff_qmin f \<le> k" "x = of_int n * two_to k" "\<bar>x\<bar> < two_to (ff_emax f)"
    using assms by (auto simp: representable_def)
  then have "\<bar>x\<bar> = of_int \<bar>n\<bar> * two_to k" by (simp add: abs_mult)
  then show ?thesis using nk unfolding representable_def by (intro conjI exI [of _ "\<bar>n\<bar>"] exI [of _ k]) simp_all
qed

lemma round_to_exact:
  assumes "representable f x"
  shows "round_to f x = Finite x"
proof (cases "x = 0")
  case False
  then have "round_mag f \<bar>x\<bar> = \<bar>x\<bar>" using round_mag_exact [OF _ representable_abs [OF assms]] by simp
  moreover have "\<bar>x\<bar> < two_to (ff_emax f)" using assms by (simp add: representable_def)
  ultimately show ?thesis using False by (simp add: round_to_def Let_def)
qed (simp add: round_to_def)

lemma representable_int:
  assumes "\<bar>n\<bar> < 2 ^ ff_prec f" and "format_ok f"
  shows "representable f (of_int n)"
proof -
  have "\<bar>of_int n :: rat\<bar> < of_int (2 ^ ff_prec f)" using assms(1) by (simp only: of_int_abs [symmetric] of_int_less_iff)
  also have "\<dots> = two_to (int (ff_prec f))" by simp
  also have "\<dots> \<le> two_to (ff_emax f)" using assms(2) by (intro two_to_mono) (simp add: format_ok_def)
  finally show ?thesis
    using assms unfolding representable_def format_ok_def by (intro conjI exI [of _ n] exI [of _ 0]) simp_all
qed

lemma representable_two_to:
  "ff_qmin f \<le> k \<Longrightarrow> k < ff_emax f \<Longrightarrow> format_ok f \<Longrightarrow> representable f (two_to k)"
  unfolding representable_def format_ok_def by (intro conjI exI [of _ 1] exI [of _ k]) (simp_all add: two_to_less_iff)

lemma rep64: "- 1074 \<le> k \<Longrightarrow> k < 1024 \<Longrightarrow> representable binary64 (two_to k)" "representable binary64 0"
  using representable_two_to [of binary64 k] representable_int [of 0 binary64] by (simp_all add: binary64_def format_ok_def)

text \<open>What the clients use: a result between representable bounds stays between them.\<close>

lemma round_to_between:
  assumes "a \<le> x" and "x \<le> b" and "0 \<le> a" and "representable f a" and "representable f b" and "format_ok f"
  shows "\<exists>y. round_to f x = Finite y \<and> a \<le> y \<and> y \<le> b"
proof (cases "x = 0")
  case True
  then show ?thesis using assms by (auto simp: round_to_def)
next
  case False
  then have x: "0 < x" "0 < b" using assms by auto
  have ub: "round_mag f x \<le> b" using round_mag_mono [OF x(1) assms(2,6)] round_mag_exact [OF x(2) assms(5)] by simp
  have lb: "a \<le> round_mag f x"
  proof (cases "a = 0")
    case True
    then show ?thesis using round_mag_nonneg [of x f] x by simp
  next
    case False
    then show ?thesis using round_mag_mono [of a x f] round_mag_exact [of a f] assms by simp
  qed
  have "b < two_to (ff_emax f)" using assms(5) x by (simp add: representable_def)
  then show ?thesis using x ub lb by (auto simp: round_to_def Let_def)
qed

lemma round_to_neg: "round_to f (- x) = fneg (round_to f x)"
  by (auto simp: round_to_def Let_def)

lemma round_to_nonneg: "0 \<le> x \<Longrightarrow> round_to f x = Infinity False \<or> (\<exists>y\<ge>0. round_to f x = Finite y)"
  using round_mag_nonneg [of x f] by (auto simp: round_to_def Let_def)

lemma round_to_nonpos: "x \<le> 0 \<Longrightarrow> round_to f x = Infinity True \<or> (\<exists>y\<le>0. round_to f x = Finite y)"
  using round_mag_nonneg [of "- x" f] by (auto simp: round_to_def Let_def abs_if)

lemma round_to_not_NaN [simp]: "round_to f x \<noteq> NaN"
  by (simp add: round_to_def Let_def)

lemma round_to_overflow:
  assumes "two_to (ff_emax f) \<le> x" and "format_ok f"
  shows "round_to f x = Infinity False"
proof -
  have x: "0 < x" using assms(1) two_to_pos(1) by (rule less_le_trans [rotated])
  have "two_to (ff_emax f) < two_to (ilog2 x + 1)" using ilog2_bounds(2) [OF x] assms(1) by linarith
  then have e: "ff_emax f \<le> ilog2 x" using two_to_less by fastforce
  then have "quantum f x = ilog2 x - int (ff_prec f) + 1" using assms(2) by (auto simp: quantum_def format_ok_def)
  then have "two_to (ilog2 x) \<le> round_mag f x" using x assms(2) by (intro round_mag_lower) (simp_all add: format_ok_def)
  then have "two_to (ff_emax f) \<le> round_mag f x" using two_to_mono [OF e] by linarith
  then show ?thesis using x by (simp add: round_to_def Let_def)
qed

lemma NaN_operand [simp]: "fadd f x NaN = NaN" "fmul f x NaN = NaN" "fdiv f x NaN = NaN"
  by (cases x; simp)+

end
