(* ===== verification/Sampler.thy ===== *)
theory Sampler
  imports Float_Arith Parallel
begin

text \<open>
  Token selection: the pipeline stages of \<open>src/src/sampling/stages.cpp\<close>, the per-request sampler of
  \<open>sampler.{h,cpp}\<close> and the batched sampler of \<open>batched_sampler.{h,cpp}\<close>. The vector exponential
  (one of three instruction-set variants behind \<open>kernels::ExpF32\<close>), the libm logarithm, the order in
  which a hash container is traversed and the entropy of an unseeded request are parameters. The
  scratch buffers are overwritten before they are read and do not appear.
\<close>

section \<open>Parameters and results\<close>

record SamplerEnv =
  exp32 :: "Float \<Rightarrow> Float"
  log64 :: "Float \<Rightarrow> Float"
  hash_order :: "int list \<Rightarrow> int list"

record TokenLogprob =
  tl_id :: int
  tl_logprob :: Float

record StepLogprobs =
  sl_chosen_logprob :: Float
  sl_top :: "TokenLogprob list"

record SampleResult =
  smr_token :: int
  smr_logprobs :: "StepLogprobs option"

record SampleContext =
  sx_prompt_ids :: "int list"
  sx_generated_ids :: "int list"

record Sampler =
  smp_params :: SamplingParams
  smp_seed :: "64 word"

record BatchRow =
  br_sampler :: "Sampler option"
  br_context :: SampleContext

text \<open>\<open>entropy\<close> is what the nondeterministic source returns.\<close>

definition ResolveSeed :: "64 word \<Rightarrow> SamplingParams \<Rightarrow> 64 word" where
  "ResolveSeed entropy params = (case seed params of Some s \<Rightarrow> s | None \<Rightarrow> entropy)"

definition Sampler_Create :: "64 word \<Rightarrow> SamplingParams \<Rightarrow> Sampler status_or" where
  "Sampler_Create entropy params =
     bind_ok (ValidateSamplingParams params) (\<lambda>_. Inr \<lparr>smp_params = params, smp_seed = ResolveSeed entropy params\<rparr>)"

section \<open>Stages\<close>

fun check_finite_loop :: "Float list \<Rightarrow> bool \<Rightarrow> unit status_or" where
  "check_finite_loop [] any_finite = (if any_finite then Inr () else Inl (Status kInternal))"
| "check_finite_loop (x # xs) any_finite =
     (if x = NaN then Inl (Status kInternal)
      else if x = Infinity False then Inl (Status kInternal)
      else check_finite_loop xs (any_finite \<or> isfinite x))"

definition CheckFinite :: "Float list \<Rightarrow> unit status_or" where
  "CheckFinite logits = check_finite_loop logits False"

definition validate_ids :: "int \<Rightarrow> int list \<Rightarrow> unit status_or" where
  "validate_ids vocab ids = (if list_ex (\<lambda>i. i < 0 \<or> vocab \<le> i) ids then InvalidArgumentError else Inr ())"

text \<open>A loop over a hash container: each of its keys once, in the container's order.\<close>

definition update_ids :: "(int \<Rightarrow> Float \<Rightarrow> Float) \<Rightarrow> int list \<Rightarrow> Float list \<Rightarrow> Float list" where
  "update_ids f ids logits = fold (\<lambda>i xs. xs[nat i := f i (xs ! nat i)]) ids logits"

definition repeat_penalty :: "Float \<Rightarrow> Float \<Rightarrow> Float" where
  "repeat_penalty r x = (if float_less x (Finite 0) then fmul binary32 x r else fdiv binary32 x r)"

definition ApplyPenalties ::
  "SamplerEnv \<Rightarrow> Float list \<Rightarrow> int list \<Rightarrow> int list \<Rightarrow> Float \<Rightarrow> Float \<Rightarrow> Float \<Rightarrow> Float list status_or" where
  "ApplyPenalties env logits prompt_ids generated_ids rep pres freq =
     (let repetition = \<not> float_eq rep (Finite 1); presence = \<not> float_eq pres (Finite 0);
          frequency = \<not> float_eq freq (Finite 0); vocab = int (length logits) in
      if \<not> repetition \<and> \<not> presence \<and> \<not> frequency then Inr logits
      else
        bind_ok (validate_ids vocab generated_ids) (\<lambda>_.
        bind_ok (validate_ids vocab prompt_ids) (\<lambda>_.
        let seen = hash_order env (remdups (generated_ids @ prompt_ids));
            counts = hash_order env (remdups generated_ids);
            xs1 = (if repetition then update_ids (\<lambda>_. repeat_penalty rep) seen logits else logits);
            xs2 = (if frequency then update_ids (\<lambda>i x. fsub binary32 x (fmul binary32 freq
                     (round_to binary32 (of_nat (count_list generated_ids i))))) counts xs1 else xs1);
            xs3 = (if presence then update_ids (\<lambda>_ x. fsub binary32 x pres) counts xs2 else xs2) in
        Inr xs3)))"

definition ApplyTemperature :: "Float list \<Rightarrow> Float \<Rightarrow> Float list" where
  "ApplyTemperature logits temp = map (\<lambda>x. fdiv binary32 x temp) logits"

text \<open>The standard library's sorts, by a comparison: insertion of each element before the first one
  that does not come before it.\<close>

fun insert_by :: "('a \<Rightarrow> 'a \<Rightarrow> bool) \<Rightarrow> 'a \<Rightarrow> 'a list \<Rightarrow> 'a list" where
  "insert_by lt x [] = [x]"
| "insert_by lt x (y # ys) = (if lt y x then y # insert_by lt x ys else x # y # ys)"

definition sort_by :: "('a \<Rightarrow> 'a \<Rightarrow> bool) \<Rightarrow> 'a list \<Rightarrow> 'a list" where
  "sort_by lt xs = foldr (insert_by lt) xs []"

definition topk_threshold :: "Float list \<Rightarrow> int \<Rightarrow> Float" where
  "topk_threshold logits k = sort_by (\<lambda>a b. float_less b a) logits ! nat (k - 1)"

definition ApplyTopK :: "Float list \<Rightarrow> int \<Rightarrow> Float list" where
  "ApplyTopK logits k =
     (if k \<le> 0 \<or> int (length logits) \<le> k then logits
      else map (\<lambda>x. if float_less x (topk_threshold logits k) then Infinity True else x) logits)"

definition max_logit :: "Float list \<Rightarrow> Float" where
  "max_logit logits = foldl float_max (Infinity True) logits"

definition exp_shifted :: "SamplerEnv \<Rightarrow> Float list \<Rightarrow> Float list" where
  "exp_shifted env logits = map (\<lambda>x. exp32 env (fsub binary32 x (max_logit logits))) logits"

definition sum64 :: "Float list \<Rightarrow> Float" where
  "sum64 ws = foldl (fadd binary64) (Finite 0) ws"

definition Softmax :: "SamplerEnv \<Rightarrow> Float list \<Rightarrow> Float list" where
  "Softmax env logits =
     (let ws = exp_shifted env logits; inv = fdiv binary64 (Finite 1) (sum64 ws) in
      map (\<lambda>w. fmul binary64 w inv) ws)"

definition by_prob :: "Float list \<Rightarrow> int \<Rightarrow> int \<Rightarrow> bool" where
  "by_prob ps a b =
     (let pa = ps ! nat a; pb = ps ! nat b in if \<not> float_eq pa pb then float_less pb pa else a < b)"

fun nucleus :: "Float list \<Rightarrow> Float \<Rightarrow> int list \<Rightarrow> Float \<Rightarrow> nat \<Rightarrow> nat" where
  "nucleus probs threshold [] cumulative kept = kept"
| "nucleus probs threshold (i # is) cumulative kept =
     (let cumulative' = fadd binary64 cumulative (probs ! nat i) in
      if float_le threshold cumulative' then kept + 1 else nucleus probs threshold is cumulative' (kept + 1))"

definition ApplyTopP :: "Float list \<Rightarrow> Float \<Rightarrow> Float list" where
  "ApplyTopP probs p =
     (if float_le (Finite 1) p then probs
      else
        let order = sort_by (by_prob probs) (filter (\<lambda>v. float_less (Finite 0) (probs ! nat v)) [0..int (length probs) - 1]);
            kept = nucleus probs p order (Finite 0) 0 in
        fold (\<lambda>i ps. ps[nat i := Finite 0]) (drop kept order) probs)"

fun last_positive :: "Float list \<Rightarrow> int \<Rightarrow> int \<Rightarrow> int" where
  "last_positive [] v best = best"
| "last_positive (p # ps) v best = last_positive ps (v + 1) (if float_less (Finite 0) p then v else best)"

fun cdf_scan :: "Float list \<Rightarrow> Float \<Rightarrow> int \<Rightarrow> Float \<Rightarrow> int option" where
  "cdf_scan [] target v cumulative = None"
| "cdf_scan (p # ps) target v cumulative =
     (let cumulative' = fadd binary64 cumulative p in
      if float_less target cumulative' \<and> float_less (Finite 0) p then Some v
      else cdf_scan ps target (v + 1) cumulative')"

definition SelectByCdf :: "Float list \<Rightarrow> Float \<Rightarrow> int" where
  "SelectByCdf probs u =
     (let target = fmul binary64 u (sum64 probs) in
      case cdf_scan probs target 0 (Finite 0) of Some v \<Rightarrow> v | None \<Rightarrow> last_positive probs 0 (- 1))"

definition LogSoftmax :: "SamplerEnv \<Rightarrow> Float list \<Rightarrow> Float list" where
  "LogSoftmax env logits =
     (let log_z = log64 env (sum64 (exp_shifted env logits)) in
      map (\<lambda>x. if isfinite x then fsub binary64 (fsub binary64 x (max_logit logits)) log_z else Infinity True) logits)"

text \<open>Reading the chosen token's entry is unchecked.\<close>

definition ExtractLogprobs :: "Float list \<Rightarrow> int \<Rightarrow> int \<Rightarrow> StepLogprobs status_or" where
  "ExtractLogprobs lp chosen top_n =
     (if chosen < 0 \<or> int (length lp) \<le> chosen then Inl OutOfBounds
      else
        let n = min (nat (max top_n 0)) (length lp);
            order = take n (sort_by (by_prob lp) [0..int (length lp) - 1]);
            finite = takeWhile (\<lambda>i. isfinite (lp ! nat i)) order in
        Inr \<lparr>sl_chosen_logprob = to_float (lp ! nat chosen),
             sl_top = map (\<lambda>i. \<lparr>tl_id = i, tl_logprob = to_float (lp ! nat i)\<rparr>) finite\<rparr>)"

section \<open>The sampler\<close>

definition PenaltiesActive :: "SamplingParams \<Rightarrow> bool" where
  "PenaltiesActive params \<longleftrightarrow> \<not> float_eq (repetition_penalty params) (Finite 1) \<or>
     \<not> float_eq (presence_penalty params) (Finite 0) \<or> \<not> float_eq (frequency_penalty params) (Finite 0)"

fun argmax_loop :: "Float list \<Rightarrow> int \<Rightarrow> int \<Rightarrow> Float \<Rightarrow> int \<times> Float" where
  "argmax_loop [] v best best_val = (best, best_val)"
| "argmax_loop (x # xs) v best best_val =
     (if float_less best_val x then argmax_loop xs (v + 1) v x else argmax_loop xs (v + 1) best best_val)"

definition ArgmaxRow :: "Float list \<Rightarrow> int status_or" where
  "ArgmaxRow logits =
     (if logits = [] then InvalidArgumentError
      else case argmax_loop (tl logits) 1 0 (hd logits) of (best, best_val) \<Rightarrow>
        if best_val = NaN then Inl (Status kInternal) else Inr best)"

definition SampleGreedy ::
  "SamplerEnv \<Rightarrow> Float list \<Rightarrow> SampleContext \<Rightarrow> SamplingParams \<Rightarrow> bool \<Rightarrow> SampleResult status_or" where
  "SampleGreedy env logits context params want_logprobs =
     (let penalties = PenaltiesActive params in
      if \<not> penalties \<and> \<not> want_logprobs then
        bind_ok (ArgmaxRow logits) (\<lambda>t. Inr \<lparr>smr_token = t, smr_logprobs = None\<rparr>)
      else if logits = [] then InvalidArgumentError
      else
        bind_ok (if penalties then ApplyPenalties env logits (sx_prompt_ids context) (sx_generated_ids context)
                   (repetition_penalty params) (presence_penalty params) (frequency_penalty params)
                 else Inr logits) (\<lambda>row.
        bind_ok (ArgmaxRow row) (\<lambda>t.
        if want_logprobs then
          bind_ok (CheckFinite row) (\<lambda>_.
          bind_ok (ExtractLogprobs (LogSoftmax env row) t (logprobs params)) (\<lambda>lps.
          Inr \<lparr>smr_token = t, smr_logprobs = Some lps\<rparr>))
        else Inr \<lparr>smr_token = t, smr_logprobs = None\<rparr>)))"

text \<open>The logits the softmax sees: penalties, then temperature.\<close>

definition scaled_logits ::
  "SamplerEnv \<Rightarrow> Float list \<Rightarrow> SampleContext \<Rightarrow> SamplingParams \<Rightarrow> Float list status_or" where
  "scaled_logits env logits context params =
     bind_ok (ApplyPenalties env logits (sx_prompt_ids context) (sx_generated_ids context)
        (repetition_penalty params) (presence_penalty params) (frequency_penalty params)) (\<lambda>work.
     Inr (ApplyTemperature work (temperature params)))"

definition draw_token :: "SamplerEnv \<Rightarrow> Float list \<Rightarrow> SamplingParams \<Rightarrow> 64 word \<Rightarrow> 64 word \<Rightarrow> int" where
  "draw_token env work params s step =
     (let probs = ApplyTopP (Softmax env (ApplyTopK work (top_k params))) (top_p params) in
      SelectByCdf probs (Finite (PhiloxUniformDouble s step 0)))"

definition SampleStochastic ::
  "SamplerEnv \<Rightarrow> Float list \<Rightarrow> SampleContext \<Rightarrow> SamplingParams \<Rightarrow> 64 word \<Rightarrow> 64 word \<Rightarrow> bool \<Rightarrow> SampleResult status_or" where
  "SampleStochastic env logits context params s step want_logprobs =
     (if logits = [] then InvalidArgumentError
      else
        bind_ok (CheckFinite logits) (\<lambda>_.
        bind_ok (scaled_logits env logits context params) (\<lambda>work.
        let t = draw_token env work params s step in
        if want_logprobs then
          bind_ok (ExtractLogprobs (LogSoftmax env work) t (logprobs params)) (\<lambda>lps.
          Inr \<lparr>smr_token = t, smr_logprobs = Some lps\<rparr>)
        else Inr \<lparr>smr_token = t, smr_logprobs = None\<rparr>)))"

definition SampleRow ::
  "SamplerEnv \<Rightarrow> Float list \<Rightarrow> SampleContext \<Rightarrow> SamplingParams \<Rightarrow> 64 word \<Rightarrow> bool \<Rightarrow> SampleResult status_or" where
  "SampleRow env logits context params s want_logprobs =
     (if float_eq (temperature params) (Finite 0) then SampleGreedy env logits context params want_logprobs
      else SampleStochastic env logits context params s (of_nat (length (sx_generated_ids context))) want_logprobs)"

definition SampleWithLogprobsImpl ::
  "SamplerEnv \<Rightarrow> Sampler \<Rightarrow> Float list \<Rightarrow> SampleContext \<Rightarrow> bool \<Rightarrow> SampleResult status_or" where
  "SampleWithLogprobsImpl env smp logits context want_logprobs =
     SampleRow env logits context (smp_params smp) (smp_seed smp) want_logprobs"

definition Sample :: "SamplerEnv \<Rightarrow> Sampler \<Rightarrow> Float list \<Rightarrow> SampleContext \<Rightarrow> int status_or" where
  "Sample env smp logits context =
     bind_ok (SampleWithLogprobsImpl env smp logits context False) (\<lambda>r. Inr (smr_token r))"

definition SampleWithLogprobs :: "SamplerEnv \<Rightarrow> Sampler \<Rightarrow> Float list \<Rightarrow> SampleContext \<Rightarrow> SampleResult status_or" where
  "SampleWithLogprobs env smp logits context =
     SampleWithLogprobsImpl env smp logits context (0 < logprobs (smp_params smp))"

section \<open>The batched sampler\<close>

type_synonym BatchSlots = "SampleResult list \<times> unit status_or list"

text \<open>One row of the parallel region: it writes its own slots only. An outcome that is not a \<open>Status\<close>
  is not a value the row can store.\<close>

definition sample_item :: "SamplerEnv \<Rightarrow> Float list \<Rightarrow> int \<Rightarrow> BatchRow list \<Rightarrow> int \<Rightarrow> BatchSlots \<Rightarrow> BatchSlots status_or" where
  "sample_item env logits vocab rows i slots =
     (case (slots, br_sampler (rows ! nat i)) of ((out, row_status), Some smp) \<Rightarrow>
        let row_logits = take (nat vocab) (drop (nat (i * vocab)) logits) in
        (case SampleRow env row_logits (br_context (rows ! nat i)) (smp_params smp) (smp_seed smp)
                (0 < logprobs (smp_params smp)) of
           Inr r \<Rightarrow> Inr (out[nat i := r], row_status[nat i := Inr ()])
         | Inl (Status c) \<Rightarrow> Inr (out, row_status[nat i := Inl (Status c)])
         | Inl e \<Rightarrow> Inl e)
      | (_, None) \<Rightarrow> Inl OutOfBounds)"

definition BatchedSampler_Sample ::
  "SamplerEnv \<Rightarrow> nat list \<Rightarrow> Float list \<Rightarrow> int \<Rightarrow> BatchRow list \<Rightarrow> BatchSlots \<Rightarrow> BatchSlots status_or" where
  "BatchedSampler_Sample env ord logits vocab rows slots =
     (if vocab \<le> 0 then InvalidArgumentError
      else if length (fst slots) \<noteq> length rows then InvalidArgumentError
      else if length (snd slots) \<noteq> length rows then InvalidArgumentError
      else if int (length logits) \<noteq> int (length rows) * vocab then InvalidArgumentError
      else if list_ex (\<lambda>r. br_sampler r = None) rows then InvalidArgumentError
      else if rows = [] then Inr slots
      else parallel_for ord (int (length rows)) 1
        (\<lambda>b e. fold_ok (sample_item env logits vocab rows) [b..e - 1]) slots)"

end
