(* ===== verification/Sequence.thy ===== *)
theory Sequence
  imports Stop Paged_Cache Sampler
begin

text \<open>
  A request's execution state and its output: \<open>src/src/runtime/request.h\<close>, \<open>sequence.cpp\<close>,
  and \<open>channel.{h,cpp}\<close>. The channel is shared by
  the engine and one client; its mutex makes each operation atomic, so a run is an interleaving of
  whole operations. The locale \<open>output_stream\<close> is the contract the engine and the client rely on.
\<close>

section \<open>Sequence states\<close>

datatype SeqState = kWaiting | kRunning | kPreempted | kFinished | kCancelled | kFailed

definition SeqStateName :: "SeqState \<Rightarrow> string" where
  "SeqStateName state =
     (case state of kWaiting \<Rightarrow> ''waiting'' | kRunning \<Rightarrow> ''running'' | kPreempted \<Rightarrow> ''preempted''
      | kFinished \<Rightarrow> ''finished'' | kCancelled \<Rightarrow> ''cancelled'' | kFailed \<Rightarrow> ''failed'')"

definition IsLegalTransition :: "SeqState \<Rightarrow> SeqState \<Rightarrow> bool" where
  "IsLegalTransition from_state to_state =
     (case from_state of
        kWaiting \<Rightarrow> to_state = kRunning \<or> to_state = kCancelled
      | kRunning \<Rightarrow> to_state = kRunning \<or> to_state = kFinished \<or> to_state = kPreempted \<or> to_state = kCancelled \<or> to_state = kFailed
      | kPreempted \<Rightarrow> to_state = kRunning \<or> to_state = kCancelled
      | _ \<Rightarrow> False)"

record FinishInfo =
  fi_terminal :: SeqState
  fi_finish_reason :: FinishReason
  fi_stop_trigger :: StopTrigger
  fi_matched_stop :: string
  fi_error :: "failure option"

text \<open>A \<open>FinishInfo\<close> with its default members.\<close>

definition default_finish_info :: FinishInfo where
  "default_finish_info = \<lparr>fi_terminal = kFinished, fi_finish_reason = FinishReason_kLength, fi_stop_trigger = StopTrigger.kNone,
     fi_matched_stop = [], fi_error = None\<rparr>"

section \<open>The output channel\<close>

record OutputItem =
  oi_token_id :: int
  oi_text_delta :: string
  oi_logprobs :: "StepLogprobs option"

record OutputChannel =
  oc_queue :: "OutputItem list"
  oc_closed :: bool
  oc_finish :: "FinishInfo option"

definition OutputChannel_ctor :: "OutputChannel" where
  "OutputChannel_ctor = \<lparr>oc_queue = [], oc_closed = False, oc_finish = None\<rparr>"

definition Push :: "OutputChannel \<Rightarrow> OutputItem \<Rightarrow> OutputChannel status_or" where
  "Push c item = (if oc_closed c then Inl CheckFailed else Inr (c\<lparr>oc_queue := oc_queue c @ [item]\<rparr>))"

definition Close :: "OutputChannel \<Rightarrow> FinishInfo \<Rightarrow> OutputChannel \<times> bool" where
  "Close c info = (if oc_closed c then (c, False) else (c\<lparr>oc_closed := True, oc_finish := Some info\<rparr>, True))"

definition TryNext :: "OutputChannel \<Rightarrow> OutputItem option \<times> OutputChannel" where
  "TryNext c = (if oc_queue c = [] then (None, c) else (Some (hd (oc_queue c)), c\<lparr>oc_queue := tl (oc_queue c)\<rparr>))"

text \<open>The blocking operations: \<open>None\<close> is a call that waits, for an item or for the close.\<close>

definition Next :: "OutputChannel \<Rightarrow> (OutputItem option \<times> OutputChannel) option" where
  "Next c =
     (if oc_queue c = [] \<and> \<not> oc_closed c then None
      else if oc_queue c = [] then Some (None, c)
      else Some (Some (hd (oc_queue c)), c\<lparr>oc_queue := tl (oc_queue c)\<rparr>))"

definition AwaitFinish :: "OutputChannel \<Rightarrow> FinishInfo status_or option" where
  "AwaitFinish c =
     (if \<not> oc_closed c then None
      else case oc_finish c of None \<Rightarrow> Some (Inl CheckFailed) | Some info \<Rightarrow> Some (Inr info))"

definition channel_closed :: "OutputChannel \<Rightarrow> bool" where
  "channel_closed c = oc_closed c"

definition channel_finish :: "OutputChannel \<Rightarrow> FinishInfo option" where
  "channel_finish c = oc_finish c"

definition channel_size :: "OutputChannel \<Rightarrow> int" where
  "channel_size c = int (length (oc_queue c))"

section \<open>Requests and sequences\<close>

record Request =
  rq_id :: int
  rq_prompt_ids :: "int list"
  rq_params :: SamplingParams
  rq_eos_ids :: "int list"
  rq_tokenizer :: "Tokenizer option"
  rq_skip_special_tokens :: bool
  rq_arrival_index :: int

record Sequence =
  sq_state :: SeqState
  sq_request :: Request
  sq_generated_ids :: "int list"
  sq_cache :: "PagedKvCache option"
  sq_sampler :: Sampler
  sq_stop :: StopChecker
  sq_num_computed_tokens :: int
  sq_finish_reason :: FinishReason
  sq_stop_trigger :: StopTrigger
  sq_matched_stop :: string
  sq_error :: "failure option"

text \<open>\<open>Create\<close> also makes the sequence's channel.\<close>

definition Sequence_Create :: "64 word \<Rightarrow> Request \<Rightarrow> (Sequence \<times> OutputChannel) status_or" where
  "Sequence_Create entropy request =
     bind_ok (Sampler_Create entropy (rq_params request)) (\<lambda>sampler.
     bind_ok (StopChecker_Create (rq_params request) (rq_eos_ids request) (rq_tokenizer request)
                (rq_skip_special_tokens request)) (\<lambda>stop.
     Inr (\<lparr>sq_state = kWaiting, sq_request = request, sq_generated_ids = [], sq_cache = Some PagedKvCache_ctor,
           sq_sampler = sampler, sq_stop = stop, sq_num_computed_tokens = 0, sq_finish_reason = FinishReason_kLength,
           sq_stop_trigger = StopTrigger.kNone, sq_matched_stop = [], sq_error = None\<rparr>, OutputChannel_ctor)))"

definition Transition :: "Sequence \<Rightarrow> SeqState \<Rightarrow> Sequence status_or" where
  "Transition s next_state =
     (if \<not> IsLegalTransition (sq_state s) next_state then Inl CheckFailed else Inr (s\<lparr>sq_state := next_state\<rparr>))"

definition is_terminal :: "Sequence \<Rightarrow> bool" where
  "is_terminal s \<longleftrightarrow> sq_state s = kFinished \<or> sq_state s = kCancelled \<or> sq_state s = kFailed"

definition num_generated :: "Sequence \<Rightarrow> int" where
  "num_generated s = int (length (sq_generated_ids s))"

definition AppendGenerated :: "Sequence \<Rightarrow> int \<Rightarrow> Sequence" where
  "AppendGenerated s tid =
     s\<lparr>sq_generated_ids := sq_generated_ids s @ [tid], sq_num_computed_tokens := sq_num_computed_tokens s + 1\<rparr>"

definition ReleaseCache :: "'f BlockPool \<Rightarrow> Sequence \<Rightarrow> ('f BlockPool \<times> Sequence) status_or" where
  "ReleaseCache p s =
     bind_ok (case sq_cache s of None \<Rightarrow> Inr p | Some c \<Rightarrow> Paged_destroy p c) (\<lambda>p'.
     Inr (p', s\<lparr>sq_cache := None, sq_num_computed_tokens := 0\<rparr>))"

definition EnsureCache :: "Sequence \<Rightarrow> Sequence" where
  "EnsureCache s = (case sq_cache s of None \<Rightarrow> s\<lparr>sq_cache := Some PagedKvCache_ctor\<rparr> | Some _ \<Rightarrow> s)"

definition set_finish :: "Sequence \<Rightarrow> FinishReason \<Rightarrow> StopTrigger \<Rightarrow> string \<Rightarrow> Sequence" where
  "set_finish s reason trigger matched_stop =
     s\<lparr>sq_finish_reason := reason, sq_stop_trigger := trigger, sq_matched_stop := matched_stop\<rparr>"

definition set_error :: "Sequence \<Rightarrow> failure \<Rightarrow> Sequence" where
  "set_error s err = s\<lparr>sq_error := Some err\<rparr>"

definition MakeFinishInfo :: "Sequence \<Rightarrow> FinishInfo status_or" where
  "MakeFinishInfo s =
     (if \<not> is_terminal s then Inl CheckFailed
      else Inr \<lparr>fi_terminal = sq_state s, fi_finish_reason = sq_finish_reason s, fi_stop_trigger = sq_stop_trigger s,
                fi_matched_stop = sq_matched_stop s, fi_error = sq_error s\<rparr>)"

section \<open>The contract of a stream\<close>

text \<open>What a producer does to a stream, and a consumer, in any interleaving.\<close>

datatype ('a, 'i) stream_event = PushEv 'a | CloseEv 'i | TakeEv

text \<open>A run: the stream, what was pushed and what was taken. A push after the end is refused.\<close>

fun stream_run ::
  "('c \<Rightarrow> 'a \<Rightarrow> 'c status_or) \<Rightarrow> ('c \<Rightarrow> 'i \<Rightarrow> 'c \<times> bool) \<Rightarrow> ('c \<Rightarrow> 'a option \<times> 'c) \<Rightarrow> 'c \<times> 'a list \<times> 'a list
    \<Rightarrow> ('a, 'i) stream_event list \<Rightarrow> 'c \<times> 'a list \<times> 'a list" where
  "stream_run put_item close_with take_item (c, pushed, taken) [] = (c, pushed, taken)"
| "stream_run put_item close_with take_item (c, pushed, taken) (PushEv x # es) =
     (case put_item c x of Inl _ \<Rightarrow> stream_run put_item close_with take_item (c, pushed, taken) es
      | Inr c' \<Rightarrow> stream_run put_item close_with take_item (c', pushed @ [x], taken) es)"
| "stream_run put_item close_with take_item (c, pushed, taken) (CloseEv i # es) =
     stream_run put_item close_with take_item (fst (close_with c i), pushed, taken) es"
| "stream_run put_item close_with take_item (c, pushed, taken) (TakeEv # es) =
     (case take_item c of (None, c') \<Rightarrow> stream_run put_item close_with take_item (c', pushed, taken) es
      | (Some x, c') \<Rightarrow> stream_run put_item close_with take_item (c', pushed, taken @ [x]) es)"

text \<open>The first event that ends the stream, and what is pushed before it.\<close>

fun first_close :: "('a, 'i) stream_event list \<Rightarrow> 'i option" where
  "first_close [] = None"
| "first_close (CloseEv i # es) = Some i"
| "first_close (e # es) = first_close es"

fun pushed_before :: "('a, 'i) stream_event list \<Rightarrow> 'a list" where
  "pushed_before [] = []"
| "pushed_before (CloseEv i # es) = []"
| "pushed_before (PushEv x # es) = x # pushed_before es"
| "pushed_before (TakeEv # es) = pushed_before es"

locale output_stream =
  fixes put_item :: "'c \<Rightarrow> 'a \<Rightarrow> 'c status_or"
    and close_with :: "'c \<Rightarrow> 'i \<Rightarrow> 'c \<times> bool"
    and take_item :: "'c \<Rightarrow> 'a option \<times> 'c"
    and buffered :: "'c \<Rightarrow> 'a list"
    and ended :: "'c \<Rightarrow> 'i option"
    and inv :: "'c \<Rightarrow> bool"
  assumes put_open: "inv c \<Longrightarrow> ended c = None \<Longrightarrow>
      \<exists>c'. put_item c x = Inr c' \<and> inv c' \<and> buffered c' = buffered c @ [x] \<and> ended c' = None"
    and put_ended: "inv c \<Longrightarrow> ended c \<noteq> None \<Longrightarrow> put_item c x = Inl CheckFailed"
    and close_open: "inv c \<Longrightarrow> ended c = None \<Longrightarrow>
      \<exists>c'. close_with c i = (c', True) \<and> inv c' \<and> buffered c' = buffered c \<and> ended c' = Some i"
    and close_ended: "inv c \<Longrightarrow> ended c \<noteq> None \<Longrightarrow> close_with c i = (c, False)"
    and take_some: "inv c \<Longrightarrow> buffered c = x # xs \<Longrightarrow>
      \<exists>c'. take_item c = (Some x, c') \<and> inv c' \<and> buffered c' = xs \<and> ended c' = ended c"
    and take_none: "inv c \<Longrightarrow> buffered c = [] \<Longrightarrow> take_item c = (None, c)"
begin

lemma run_spec:
  assumes "inv c" and "taken @ buffered c = pushed" and "stream_run put_item close_with take_item (c, pushed, taken) es = (c', pushed', taken')"
  shows "inv c' \<and> taken' @ buffered c' = pushed' \<and>
    pushed' = pushed @ (if ended c = None then pushed_before es else []) \<and>
    ended c' = (case ended c of Some i \<Rightarrow> Some i | None \<Rightarrow> first_close es)"
  using assms
proof (induction es arbitrary: c pushed taken)
  case Nil
  then show ?case by (simp split: option.split)
next
  case (Cons e es)
  show ?case
  proof (cases e)
    case (PushEv x)
    show ?thesis
    proof (cases "ended c")
      case None
      then obtain d where "put_item c x = Inr d" "inv d" "buffered d = buffered c @ [x]" "ended d = None"
        using put_open Cons.prems(1) by blast
      then show ?thesis using Cons.IH [of d "taken" "pushed @ [x]"] Cons.prems None PushEv by (auto simp: append_assoc [symmetric] simp del: append_assoc)
    next
      case (Some i)
      then show ?thesis using Cons.IH [of c "taken" pushed] Cons.prems PushEv put_ended [of c x] by simp
    qed
  next
    case (CloseEv i)
    show ?thesis
    proof (cases "ended c")
      case None
      then obtain d where "close_with c i = (d, True)" "inv d" "buffered d = buffered c" "ended d = Some i"
        using close_open Cons.prems(1) by blast
      then show ?thesis using Cons.IH [of d "taken" pushed] Cons.prems None CloseEv by simp
    next
      case (Some j)
      then show ?thesis using Cons.IH [of c "taken" pushed] Cons.prems CloseEv close_ended [of c i] by simp
    qed
  next
    case TakeEv
    show ?thesis
    proof (cases "buffered c")
      case Nil
      then show ?thesis using Cons.IH [of c "taken" pushed] Cons.prems TakeEv take_none by (simp split: option.splits)
    next
      case (Cons x xs)
      then obtain d where "take_item c = (Some x, d)" "inv d" "buffered d = xs" "ended d = ended c"
        using take_some Cons.prems(1) by blast
      then show ?thesis using Cons.IH [of d "taken @ [x]" pushed] Cons.prems TakeEv Cons by (auto split: option.splits)
    qed
  qed
qed

end

section \<open>The channel implements it\<close>

definition channel_ok :: "OutputChannel \<Rightarrow> bool" where
  "channel_ok c \<longleftrightarrow> (oc_closed c \<longleftrightarrow> oc_finish c \<noteq> None)"

interpretation chan: output_stream Push Close TryNext oc_queue oc_finish channel_ok
  by unfold_locales (auto simp: Push_def Close_def TryNext_def channel_ok_def)

section \<open>Properties\<close>

definition channel_run ::
  "OutputChannel \<Rightarrow> (OutputItem, FinishInfo) stream_event list \<Rightarrow> OutputChannel \<times> OutputItem list \<times> OutputItem list" where
  "channel_run c es = stream_run Push Close TryNext (c, [], []) es"

text \<open>C28. 
  The output stream of a request. However the engine's pushes and closes and the client's polls
  interleave, what the client has taken followed by what is buffered is what the engine pushed before
  the first close, in order: nothing is lost, duplicated or reordered, nothing pushed later gets in, the
  first close decides the outcome, and a client that then waits is given that outcome.
\<close>

theorem channel_fifo:
  assumes "channel_run OutputChannel_ctor es = (c, pushed, taken)"
  shows "taken @ oc_queue c = pushed \<and> pushed = pushed_before es \<and> channel_finish c = first_close es \<and>
    (channel_closed c \<longleftrightarrow> first_close es \<noteq> None) \<and>
    (\<forall>i. first_close es = Some i \<longrightarrow> AwaitFinish c = Some (Inr i) \<and>
       Next c = Some (if oc_queue c = [] then (None, c) else (Some (hd (oc_queue c)), c\<lparr>oc_queue := tl (oc_queue c)\<rparr>)))"
proof -
  have "channel_ok (OutputChannel_ctor :: OutputChannel)" "oc_queue (OutputChannel_ctor :: OutputChannel) = []"
    "oc_finish (OutputChannel_ctor :: OutputChannel) = None"
    by (simp_all add: channel_ok_def OutputChannel_ctor_def)
  with chan.run_spec [of OutputChannel_ctor "[]" "[]" es c pushed "taken"] assms
  have "channel_ok c" "taken @ oc_queue c = pushed" "pushed = pushed_before es" "oc_finish c = first_close es"
    by (simp_all add: channel_run_def)
  then show ?thesis
    by (auto simp: channel_ok_def channel_finish_def channel_closed_def AwaitFinish_def Next_def)
qed

definition plain_item :: "int \<Rightarrow> OutputItem" where
  "plain_item t = \<lparr>oi_token_id = t, oi_text_delta = [], oi_logprobs = None\<rparr>"

theorem channel_fifo_witness:
  "case channel_run OutputChannel_ctor
      [PushEv (plain_item 1), TakeEv, PushEv (plain_item 2), CloseEv default_finish_info, PushEv (plain_item 3)] of
     (c, pushed, taken) \<Rightarrow> taken @ oc_queue c = [plain_item 1, plain_item 2] \<and> AwaitFinish c = Some (Inr default_finish_info)"
proof -
  let ?es = "[PushEv (plain_item 1), TakeEv, PushEv (plain_item 2), CloseEv default_finish_info, PushEv (plain_item 3)]"
  obtain c pushed "taken" where r: "channel_run OutputChannel_ctor ?es = (c, pushed, taken)" by (metis prod_cases3)
  from channel_fifo [OF r] show ?thesis by (simp add: r)
qed

text \<open>C29. 
  A sequence's life. Whatever transitions the engine asks for, the checks let through a path that starts
  at \<open>kWaiting\<close>, enters \<open>kPreempted\<close> only from \<open>kRunning\<close>, and ends at the first terminal state: no
  transition leaves \<open>kFinished\<close>, \<open>kCancelled\<close> or \<open>kFailed\<close>, so a finish report is made at most once.
\<close>

theorem terminal_states_final:
  assumes "Transition s next_state = Inr s'"
  shows "\<not> is_terminal s \<and> s' = s\<lparr>sq_state := next_state\<rparr> \<and> next_state \<noteq> kWaiting \<and>
    (next_state = kPreempted \<or> next_state = kFinished \<or> next_state = kFailed \<longrightarrow> sq_state s = kRunning) \<and>
    (is_terminal s' \<longrightarrow> (\<forall>st. Transition s' st = Inl CheckFailed) \<and> (\<exists>i. MakeFinishInfo s' = Inr i \<and> fi_terminal i = next_state))"
  using assms
  by (auto simp: Transition_def IsLegalTransition_def is_terminal_def MakeFinishInfo_def split: SeqState.splits if_split_asm)

definition sample_request :: Request where
  "sample_request = \<lparr>rq_id = 1, rq_prompt_ids = [0], rq_params = Greedy 4, rq_eos_ids = [], rq_tokenizer = None,
     rq_skip_special_tokens = True, rq_arrival_index = 0\<rparr>"

theorem terminal_states_final_witness:
  "case Sequence_Create 7 sample_request of
     Inr (s, c :: OutputChannel) \<Rightarrow> \<not> is_terminal s \<and> (\<exists>s'. Transition s kCancelled = Inr s' \<and> Transition s' kRunning = Inl CheckFailed)
   | _ \<Rightarrow> False"
proof -
  obtain s and c :: "OutputChannel" where c: "Sequence_Create 7 sample_request = Inr (s, c)" and w: "sq_state s = kWaiting"
    by (simp add: Sequence_Create_def sample_request_def Sampler_Create_def ValidateSamplingParams_def Greedy_def default_params_def
        isfinite_def float_le_def kMaxLogprobs_def StopChecker_Create_def Let_def)
  have t: "Transition s kCancelled = Inr (s\<lparr>sq_state := kCancelled\<rparr>)"
    using w by (simp add: Transition_def IsLegalTransition_def)
  from terminal_states_final [OF t] show ?thesis by (simp add: c t) (simp add: is_terminal_def)
qed

end
