(* ===== verification/Batch.thy ===== *)
theory Batch
  imports Sequence
begin

text \<open>
  Ragged batches, \<open>src/src/engine/batch.{h,cpp}\<close>: the descriptors the runtime fills, one per sequence, and
  the flattened inputs of one model forward. A cache and a sampler are pointers in the code; here a null
  pointer is \<open>None\<close> and the forward is given the caches by value and returns them. A cast to
  \<open>int32\<close> is \<open>int32_cast\<close>, and so is an addition in one: past \<open>INT32_MAX\<close> the signed sum of the code is
  undefined, the model wraps it, and the theorems bound the token count of the batch.
\<close>

section \<open>Descriptors and requests\<close>

datatype LogitsMode = kLast | kAll

text \<open>\<open>model::ForwardRequest\<close> without the caches and the hook; \<open>fr_cu_seqlens\<close> is empty on the
  single-sequence path.\<close>

record ForwardRequest =
  fr_token_ids :: "int list"
  fr_positions :: "int list"
  fr_cu_seqlens :: "int list"
  fr_logits_mode :: LogitsMode

record BatchSeqInput =
  bs_token_ids :: "int list"
  bs_cache :: "PagedKvCache option"
  bs_sampler :: "Sampler option"
  bs_context :: SampleContext

record BatchInputs =
  bi_token_ids :: "int list"
  bi_positions :: "int list"
  bi_cu_seqlens :: "int list"
  bi_caches :: "PagedKvCache list"
  bi_sample_rows :: "BatchRow list"

definition num_seqs :: "BatchInputs \<Rightarrow> int" where
  "num_seqs b = int (length (bi_caches b))"

definition num_tokens :: "BatchInputs \<Rightarrow> int" where
  "num_tokens b = int (length (bi_token_ids b))"

definition MakeForwardRequest :: "BatchInputs \<Rightarrow> LogitsMode \<Rightarrow> ForwardRequest" where
  "MakeForwardRequest b mode =
     \<lparr>fr_token_ids = bi_token_ids b, fr_positions = bi_positions b, fr_cu_seqlens = bi_cu_seqlens b, fr_logits_mode = mode\<rparr>"

section \<open>The assembler\<close>

text \<open>The staging after the sequences before \<open>s\<close>, extended by \<open>s\<close>.\<close>

definition stage_sequence :: "BatchSeqInput \<Rightarrow> PagedKvCache \<Rightarrow> int \<Rightarrow> BatchInputs \<Rightarrow> BatchInputs" where
  "stage_sequence s cache running b =
     \<lparr>bi_token_ids = bi_token_ids b @ bs_token_ids s,
      bi_positions = bi_positions b @ map (\<lambda>t. int32_cast (Paged_length cache + int t)) [0..<length (bs_token_ids s)],
      bi_cu_seqlens = bi_cu_seqlens b @ [running], bi_caches = bi_caches b @ [cache],
      bi_sample_rows = bi_sample_rows b @ [\<lparr>br_sampler = bs_sampler s, br_context = bs_context s\<rparr>]\<rparr>"

fun flatten_loop :: "bool \<Rightarrow> BatchSeqInput list \<Rightarrow> int \<Rightarrow> BatchInputs \<Rightarrow> BatchInputs \<times> unit status_or" where
  "flatten_loop is_decode [] running b = (b, Inr ())"
| "flatten_loop is_decode (s # ss) running b =
     (case bs_cache s of
        None \<Rightarrow> (b, InvalidArgumentError)
      | Some cache \<Rightarrow>
          if bs_sampler s = None then (b, InvalidArgumentError)
          else if length (bs_token_ids s) < 1 then (b, InvalidArgumentError)
          else if is_decode \<and> length (bs_token_ids s) \<noteq> 1 then (b, InvalidArgumentError)
          else
            let running' = int32_cast (running + int32_cast (int (length (bs_token_ids s)))) in
            flatten_loop is_decode ss running' (stage_sequence s cache running' b))"

definition Flatten :: "BatchSeqInput list \<Rightarrow> bool \<Rightarrow> BatchInputs \<times> unit status_or" where
  "Flatten seqs is_decode =
     flatten_loop is_decode seqs 0
       \<lparr>bi_token_ids = [], bi_positions = [], bi_cu_seqlens = [0], bi_caches = [], bi_sample_rows = []\<rparr>"

definition AssemblePrefill :: "BatchSeqInput list \<Rightarrow> BatchInputs \<times> unit status_or" where
  "AssemblePrefill seqs = Flatten seqs False"

definition AssembleDecode :: "BatchSeqInput list \<Rightarrow> BatchInputs \<times> unit status_or" where
  "AssembleDecode seqs = Flatten seqs True"

section \<open>The layout\<close>

text \<open>What the assembler accepts.\<close>

definition seq_input_ok :: "bool \<Rightarrow> BatchSeqInput \<Rightarrow> bool" where
  "seq_input_ok is_decode s \<longleftrightarrow> bs_cache s \<noteq> None \<and> bs_sampler s \<noteq> None \<and> bs_token_ids s \<noteq> [] \<and>
     (is_decode \<longrightarrow> length (bs_token_ids s) = 1)"

text \<open>The positions fit 32-bit positions, and the tokens of all the sequences together the 32-bit offsets.\<close>

definition seq_input_fits :: "BatchSeqInput \<Rightarrow> bool" where
  "seq_input_fits s \<longleftrightarrow> (case bs_cache s of None \<Rightarrow> True | Some c \<Rightarrow>
     0 \<le> Paged_length c \<and> Paged_length c + int (length (bs_token_ids s)) \<le> INT32_MAX)"

definition batch_fits :: "BatchSeqInput list \<Rightarrow> bool" where
  "batch_fits ss \<longleftrightarrow> int (length (concat (map bs_token_ids ss))) \<le> INT32_MAX"

definition seq_positions :: "BatchSeqInput \<Rightarrow> int list" where
  "seq_positions s = map (\<lambda>t. Paged_length (the (bs_cache s)) + int t) [0..<length (bs_token_ids s)]"

lemma flatten_loop_ok:
  assumes "\<forall>s\<in>set ss. seq_input_ok d s" and "\<forall>s\<in>set ss. seq_input_fits s"
    and "0 \<le> running" and "running + int (length (concat (map bs_token_ids ss))) \<le> INT32_MAX"
  shows "flatten_loop d ss running b =
    (\<lparr>bi_token_ids = bi_token_ids b @ concat (map bs_token_ids ss), bi_positions = bi_positions b @ concat (map seq_positions ss),
      bi_cu_seqlens = bi_cu_seqlens b @ map (\<lambda>i. running + int (length (concat (map bs_token_ids (take (Suc i) ss))))) [0..<length ss],
      bi_caches = bi_caches b @ map (the \<circ> bs_cache) ss,
      bi_sample_rows = bi_sample_rows b @ map (\<lambda>s. \<lparr>br_sampler = bs_sampler s, br_context = bs_context s\<rparr>) ss\<rparr>, Inr ())"
  using assms
proof (induction ss arbitrary: running b)
  case (Cons s ss)
  obtain c where c: "bs_cache s = Some c" using Cons.prems(1) by (auto simp: seq_input_ok_def)
  let ?n = "length (bs_token_ids s)"
  have fits: "0 \<le> Paged_length c" "Paged_length c + int ?n \<le> INT32_MAX" using Cons.prems(2) c by (auto simp: seq_input_fits_def)
  have cast: "int32_cast (int ?n) = int ?n" using fits by (intro int32_cast_id) auto
  have pos: "map (\<lambda>t. int32_cast (Paged_length c + int t)) [0..<?n] = seq_positions s"
    using fits c by (auto simp: seq_positions_def intro!: int32_cast_id)
  have sum: "int32_cast (running + int ?n) = running + int ?n" using Cons.prems(3,4) by (intro int32_cast_id) auto
  have st: "flatten_loop d (s # ss) running b = flatten_loop d ss (running + int ?n) (stage_sequence s c (running + int ?n) b)"
    using Cons.prems(1) c by (auto simp: seq_input_ok_def cast sum Let_def Suc_le_eq)
  have idx: "map (\<lambda>i. running + int (length (concat (map bs_token_ids (take (Suc i) (s # ss)))))) [0..<length (s # ss)] =
      (running + int ?n) # map (\<lambda>i. running + int ?n + int (length (concat (map bs_token_ids (take (Suc i) ss))))) [0..<length ss]"
    by (simp add: upt_conv_Cons map_Suc_upt [symmetric] del: upt_Suc) 
  show ?case using Cons.IH [of "running + int ?n" "stage_sequence s c (running + int ?n) b"] Cons.prems
    unfolding st idx by (simp add: stage_sequence_def pos c)
qed (cases b, simp)

lemma flatten_loop_error:
  assumes "\<not> (\<forall>s\<in>set ss. seq_input_ok d s)"
  shows "snd (flatten_loop d ss running b) = InvalidArgumentError"
  using assms
proof (induction ss arbitrary: running b)
  case (Cons s ss)
  then show ?case by (cases "bs_cache s") (auto simp: seq_input_ok_def Let_def Suc_le_eq)
qed simp

lemma Flatten_ok:
  assumes "\<forall>s\<in>set ss. seq_input_ok d s" and "\<forall>s\<in>set ss. seq_input_fits s" and "batch_fits ss"
  shows "Flatten ss d =
    (\<lparr>bi_token_ids = concat (map bs_token_ids ss), bi_positions = concat (map seq_positions ss),
      bi_cu_seqlens = 0 # map (\<lambda>i. int (length (concat (map bs_token_ids (take (Suc i) ss))))) [0..<length ss],
      bi_caches = map (the \<circ> bs_cache) ss,
      bi_sample_rows = map (\<lambda>s. \<lparr>br_sampler = bs_sampler s, br_context = bs_context s\<rparr>) ss\<rparr>, Inr ())"
  using flatten_loop_ok [OF assms(1,2), of 0] assms(3) by (simp add: Flatten_def batch_fits_def)

lemma concat_slice:
  assumes "b < length xss"
  shows "take (length (xss ! b)) (drop (length (concat (take b xss))) (concat xss)) = xss ! b"
proof -
  have "concat xss = concat (take b xss) @ xss ! b @ concat (drop (Suc b) xss)"
    using id_take_nth_drop [OF assms] by (metis concat.simps(2) concat_append)
  then show ?thesis by simp
qed

text \<open>What a pass reads back of the flattened inputs.\<close>

lemma Flatten_inputs:
  assumes "\<forall>s\<in>set ss. seq_input_ok d s" and "\<forall>s\<in>set ss. seq_input_fits s" and "batch_fits ss"
  obtains b where "Flatten ss d = (b, Inr ())" and "bi_token_ids b = concat (map bs_token_ids ss)"
    and "bi_positions b = concat (map seq_positions ss)" and "bi_caches b = map (the \<circ> bs_cache) ss"
    and "bi_sample_rows b = map (\<lambda>s. \<lparr>br_sampler = bs_sampler s, br_context = bs_context s\<rparr>) ss"
    and "length (bi_cu_seqlens b) = Suc (length ss)"
    and "\<And>k. k \<le> length ss \<Longrightarrow> bi_cu_seqlens b ! k = int (length (concat (take k (map bs_token_ids ss))))"
proof -
  let ?b = "fst (Flatten ss d)"
  have f: "Flatten ss d = (?b, Inr ())" "bi_cu_seqlens ?b = 0 # map (\<lambda>i. int (length (concat (map bs_token_ids (take (Suc i) ss))))) [0..<length ss]"
    by (simp_all add: Flatten_ok [OF assms])
  have "bi_cu_seqlens ?b ! k = int (length (concat (take k (map bs_token_ids ss))))" if "k \<le> length ss" for k
    using that by (cases k) (simp_all add: f(2) take_map)
  then show thesis using that [OF f(1)] by (simp add: Flatten_ok [OF assms])
qed

lemma length_seq_positions [simp]: "length (seq_positions s) = length (bs_token_ids s)"
  by (simp add: seq_positions_def)

text \<open>C33. 
  The ragged layout, for batches whose tokens and positions fit 32 bits. When every descriptor has a cache, a sampler and the tokens its pass wants, assembly
  succeeds, and between two neighbouring offsets lie exactly that sequence's tokens and the consecutive
  positions after its cache, with its cache and its sampler at the same index; otherwise assembly is refused.
\<close>

theorem flatten_layout:
  assumes "\<forall>s\<in>set ss. seq_input_fits s" and "batch_fits ss"
  shows "if \<forall>s\<in>set ss. seq_input_ok d s
    then \<exists>b. Flatten ss d = (b, Inr ()) \<and> num_seqs b = int (length ss) \<and> bi_cu_seqlens b ! length ss = num_tokens b \<and>
      (\<forall>k<length ss. let lo = nat (bi_cu_seqlens b ! k); n = nat (bi_cu_seqlens b ! Suc k) - lo in
         take n (drop lo (bi_token_ids b)) = bs_token_ids (ss ! k) \<and>
         take n (drop lo (bi_positions b)) = seq_positions (ss ! k) \<and>
         bi_caches b ! k = the (bs_cache (ss ! k)) \<and> br_sampler (bi_sample_rows b ! k) = bs_sampler (ss ! k))
    else snd (Flatten ss d) = InvalidArgumentError"
proof (cases "\<forall>s\<in>set ss. seq_input_ok d s")
  case True
  obtain b where b: "Flatten ss d = (b, Inr ())" "bi_token_ids b = concat (map bs_token_ids ss)"
    "bi_positions b = concat (map seq_positions ss)" "bi_caches b = map (the \<circ> bs_cache) ss"
    "bi_sample_rows b = map (\<lambda>s. \<lparr>br_sampler = bs_sampler s, br_context = bs_context s\<rparr>) ss"
    "\<And>k. k \<le> length ss \<Longrightarrow> bi_cu_seqlens b ! k = int (length (concat (take k (map bs_token_ids ss))))"
    by (rule Flatten_inputs [OF True assms]) blast
  have lp: "length (concat (take k (map seq_positions ss))) = length (concat (take k (map bs_token_ids ss)))" for k
    by (simp add: length_concat take_map comp_def)
  have slice: "nat (bi_cu_seqlens b ! Suc k) - nat (bi_cu_seqlens b ! k) = length (bs_token_ids (ss ! k))"
    "nat (bi_cu_seqlens b ! k) = length (concat (take k (map bs_token_ids ss)))" if "k < length ss" for k
    using that b(6) [of k] b(6) [of "Suc k"] by (simp_all add: take_Suc_conv_app_nth)
  have "take (length (bs_token_ids (ss ! k))) (drop (length (concat (take k (map bs_token_ids ss)))) (bi_token_ids b)) = bs_token_ids (ss ! k)"
    "take (length (bs_token_ids (ss ! k))) (drop (length (concat (take k (map bs_token_ids ss)))) (bi_positions b)) = seq_positions (ss ! k)"
    if "k < length ss" for k
    using concat_slice [of k "map bs_token_ids ss"] concat_slice [of k "map seq_positions ss"] that unfolding lp b(2,3) by simp_all
  then show ?thesis using True b slice by (auto simp: Let_def num_seqs_def num_tokens_def)
next
  case False
  then show ?thesis using flatten_loop_error [OF False] by (auto simp: Flatten_def)
qed

definition sample_input :: "int list \<Rightarrow> BatchSeqInput" where
  "sample_input ts = \<lparr>bs_token_ids = ts, bs_cache = Some PagedKvCache_ctor,
     bs_sampler = Some \<lparr>smp_params = default_params, smp_seed = 0\<rparr>, bs_context = \<lparr>sx_prompt_ids = ts, sx_generated_ids = []\<rparr>\<rparr>"

theorem flatten_layout_witness:
  "\<exists>b. Flatten [sample_input [5, 6], sample_input [7]] False = (b, Inr ()) \<and> bi_cu_seqlens b ! 2 = num_tokens b"
proof -
  have "\<forall>s\<in>set [sample_input [5, 6], sample_input [7]]. seq_input_fits s"
    by (simp add: seq_input_fits_def sample_input_def PagedKvCache_ctor_def Paged_length_def BlockTable_ctor_def INT32_MAX_def)
  moreover have "batch_fits [sample_input [5, 6], sample_input [7]]" by (simp add: batch_fits_def sample_input_def INT32_MAX_def)
  ultimately show ?thesis using flatten_layout [of "[sample_input [5, 6], sample_input [7]]" False]
    by (auto simp: seq_input_ok_def sample_input_def numeral_2_eq_2 split: if_splits)
qed

text \<open>Past \<open>INT32_MAX\<close> the last offset is not the token count: with \<open>running\<close> at its maximum one more token makes it
  negative.\<close>

lemma flatten_offset_overflow:
  "bi_cu_seqlens (fst (flatten_loop False [sample_input [7]] INT32_MAX
     \<lparr>bi_token_ids = [], bi_positions = [], bi_cu_seqlens = [], bi_caches = [], bi_sample_rows = []\<rparr>)) = [- 2147483648]"
  by code_simp

end
