(* ===== verification/Scheduler.thy ===== *)
theory Scheduler
  imports Block_Pool "HOL-Library.Sublist"
begin

text \<open>
  The scheduling policy, \<open>src/src/scheduler/scheduler.{h,cpp}\<close>: a pure function from the descriptors of
  the running and waiting sequences and a snapshot of the pool to the sequences to prefill, decode and
  preempt. The three passes of \<open>Schedule\<close> are decode-first, preempt-to-fit and first-come-first-served
  admission. Counts are unbounded integers: the code keeps them in \<open>int64\<close> and they are token counts.
\<close>

section \<open>Inputs and outputs\<close>

record PoolSnapshot =
  snap_free_blocks :: int
  snap_total_blocks :: int
  snap_block_size :: int

record SeqDesc =
  sd_id :: int
  sd_arrival_index :: int
  sd_num_computed_tokens :: int
  sd_num_prompt_tokens :: int
  sd_blocks_held :: int

record SchedulerConfig =
  max_num_seqs :: int
  max_num_batched_tokens :: int

record ScheduleInputs =
  si_waiting :: "SeqDesc list"
  si_running :: "SeqDesc list"
  si_pool :: PoolSnapshot
  si_config :: SchedulerConfig

record Prefill =
  pf_id :: int
  pf_num_tokens :: int

record SchedulerOutput =
  so_prefill :: "Prefill list"
  so_decode :: "int list"
  so_preempt :: "int list"

definition BlocksNeeded :: "int \<Rightarrow> int \<Rightarrow> int \<Rightarrow> int" where
  "BlocksNeeded cur_tokens add_tokens bs =
     (let before = c_div (cur_tokens + bs - 1) bs;
          after = c_div (cur_tokens + add_tokens + bs - 1) bs in
      after - before)"

section \<open>The policy\<close>

definition decode_need :: "int \<Rightarrow> SeqDesc \<Rightarrow> int status_or" where
  "decode_need bs s =
     (if \<not> 0 \<le> sd_num_computed_tokens s then Inl CheckFailed
      else if \<not> 0 \<le> sd_blocks_held s then Inl CheckFailed
      else Inr (BlocksNeeded (sd_num_computed_tokens s) 1 bs))"

text \<open>Pass 1: the blocks the whole decode set needs.\<close>

fun decode_demand :: "int \<Rightarrow> SeqDesc list \<Rightarrow> int \<Rightarrow> int status_or" where
  "decode_demand bs [] demand = Inr demand"
| "decode_demand bs (s # ss) demand =
     (case decode_need bs s of Inl e \<Rightarrow> Inl e | Inr n \<Rightarrow> decode_demand bs ss (demand + n))"

text \<open>Pass 2: the scan for the victim, and the loop that evicts.\<close>

definition pick_victim :: "SeqDesc list \<Rightarrow> nat" where
  "pick_victim decoding =
     fold (\<lambda>i victim. if sd_arrival_index (decoding ! i) \<ge> sd_arrival_index (decoding ! victim) then i else victim)
       [1..<length decoding] 0"

lemma pick_victim_fold:
  assumes "victim < n" and "n \<le> length ds"
    and "\<forall>i<n. sd_arrival_index (ds ! i) \<le> sd_arrival_index (ds ! victim)"
  shows "let v = fold (\<lambda>i v. if sd_arrival_index (ds ! i) \<ge> sd_arrival_index (ds ! v) then i else v) [n..<length ds] victim in
    v < length ds \<and> (\<forall>i<length ds. sd_arrival_index (ds ! i) \<le> sd_arrival_index (ds ! v))"
  using assms
proof (induction "length ds - n" arbitrary: n victim)
  case (Suc x)
  let ?v = "if sd_arrival_index (ds ! n) \<ge> sd_arrival_index (ds ! victim) then n else victim"
  have u: "[n..<length ds] = n # [Suc n..<length ds]" using Suc.hyps(2) by (simp add: upt_conv_Cons)
  have "x = length ds - Suc n" "?v < Suc n" "Suc n \<le> length ds"
    using Suc by auto
  moreover have "\<forall>i<Suc n. sd_arrival_index (ds ! i) \<le> sd_arrival_index (ds ! ?v)"
    using Suc.prems(3) by (auto simp: less_Suc_eq intro: order_trans)
  ultimately show ?case using Suc.hyps(1) [of "Suc n" ?v] by (simp add: u Let_def)
qed simp

lemma pick_victim_max:
  assumes "ds \<noteq> []"
  shows "pick_victim ds < length ds"
    and "s \<in> set ds \<Longrightarrow> sd_arrival_index s \<le> sd_arrival_index (ds ! pick_victim ds)"
  using pick_victim_fold [of 0 1 ds] assms by (auto simp: pick_victim_def Let_def in_set_conv_nth Suc_le_eq)

function preempt_to_fit ::
  "int \<Rightarrow> SeqDesc list \<Rightarrow> int \<Rightarrow> int \<Rightarrow> int list \<Rightarrow> (SeqDesc list \<times> int \<times> int \<times> int list) status_or" where
  "preempt_to_fit bs decoding demand free_blk preempt =
     (if demand > free_blk \<and> decoding \<noteq> [] then
        let victim = pick_victim decoding; v = decoding ! victim in
        case decode_need bs v of
          Inl e \<Rightarrow> Inl e
        | Inr n \<Rightarrow> preempt_to_fit bs (take victim decoding @ drop (Suc victim) decoding) (demand - n)
                     (free_blk + sd_blocks_held v) (preempt @ [sd_id v])
      else Inr (decoding, demand, free_blk, preempt))"
  by pat_completeness auto

termination
  by (relation "measure (\<lambda>(bs, ds, _). length ds)") (auto simp: min_def dest: pick_victim_max)

declare preempt_to_fit.simps [simp del]

text \<open>Pass 3: admission stops at the first sequence that does not fit.\<close>

fun admit ::
  "SchedulerConfig \<Rightarrow> int \<Rightarrow> SeqDesc list \<Rightarrow> int \<Rightarrow> int \<Rightarrow> int \<Rightarrow> Prefill list \<Rightarrow> Prefill list status_or" where
  "admit cfg bs [] num_scheduled tokens_so_far free_blk prefill = Inr prefill"
| "admit cfg bs (s # ss) num_scheduled tokens_so_far free_blk prefill =
     (if \<not> 0 \<le> sd_num_prompt_tokens s then Inl CheckFailed
      else if num_scheduled \<ge> max_num_seqs cfg then Inr prefill
      else if tokens_so_far + sd_num_prompt_tokens s > max_num_batched_tokens cfg then Inr prefill
      else
        let need = BlocksNeeded 0 (sd_num_prompt_tokens s) bs in
        if need > free_blk then Inr prefill
        else admit cfg bs ss (num_scheduled + 1) (tokens_so_far + sd_num_prompt_tokens s) (free_blk - need)
               (prefill @ [\<lparr>pf_id = sd_id s, pf_num_tokens = sd_num_prompt_tokens s\<rparr>]))"

definition Schedule :: "ScheduleInputs \<Rightarrow> SchedulerOutput status_or" where
  "Schedule inputs =
     (let bs = snap_block_size (si_pool inputs); cfg = si_config inputs in
      if \<not> 0 < bs then Inl CheckFailed
      else if \<not> 0 < max_num_seqs cfg then Inl CheckFailed
      else if \<not> 0 < max_num_batched_tokens cfg then Inl CheckFailed
      else
        let decoding = si_running inputs; free_blk = snap_free_blocks (si_pool inputs) in
        if \<not> 0 \<le> free_blk then Inl CheckFailed
        else case decode_demand bs decoding 0 of
          Inl e \<Rightarrow> Inl e
        | Inr demand \<Rightarrow>
        (case preempt_to_fit bs decoding demand free_blk [] of
          Inl e \<Rightarrow> Inl e
        | Inr (decoding', demand', free', preempt) \<Rightarrow>
        (case admit cfg bs (si_waiting inputs) (int (length decoding')) 0 (free' - demand') [] of
          Inl e \<Rightarrow> Inl e
        | Inr prefill \<Rightarrow> Inr \<lparr>so_prefill = prefill, so_decode = map sd_id decoding', so_preempt = preempt\<rparr>)))"

section \<open>Well-formed inputs and demands\<close>

definition desc_ok :: "SeqDesc \<Rightarrow> bool" where
  "desc_ok s \<longleftrightarrow> 0 \<le> sd_num_computed_tokens s \<and> 0 \<le> sd_num_prompt_tokens s \<and> 0 \<le> sd_blocks_held s"

definition inputs_ok :: "ScheduleInputs \<Rightarrow> bool" where
  "inputs_ok i \<longleftrightarrow> 0 < snap_block_size (si_pool i) \<and> 0 \<le> snap_free_blocks (si_pool i) \<and>
     0 < max_num_seqs (si_config i) \<and> 0 < max_num_batched_tokens (si_config i) \<and>
     (\<forall>s\<in>set (si_running i) \<union> set (si_waiting i). desc_ok s)"

definition dneed :: "int \<Rightarrow> SeqDesc \<Rightarrow> int" where
  "dneed bs s = BlocksNeeded (sd_num_computed_tokens s) 1 bs"

definition pneed :: "int \<Rightarrow> SeqDesc \<Rightarrow> int" where
  "pneed bs s = BlocksNeeded 0 (sd_num_prompt_tokens s) bs"

lemma BlocksNeeded_eq:
  "0 < bs \<Longrightarrow> 0 \<le> c \<Longrightarrow> 0 \<le> a \<Longrightarrow> BlocksNeeded c a bs = ceil_div (c + a) bs - ceil_div c bs"
  by (simp add: BlocksNeeded_def ceil_div_def)

lemma BlocksNeeded_bounds:
  assumes "0 < bs" "0 \<le> c" "0 \<le> a"
  shows "0 \<le> BlocksNeeded c a bs"
  using ceil_div_mono [of bs c "c + a"] assms by (simp add: BlocksNeeded_eq)

lemma dneed_bounds:
  assumes "0 < bs" "desc_ok s"
  shows "0 \<le> dneed bs s" and "dneed bs s \<le> 1"
  using BlocksNeeded_bounds [of bs "sd_num_computed_tokens s" 1] ceil_div_Suc [of bs "sd_num_computed_tokens s"] assms
  by (auto simp: dneed_def desc_ok_def BlocksNeeded_eq)

lemma decode_need_ok: "desc_ok s \<Longrightarrow> decode_need bs s = Inr (dneed bs s)"
  by (simp add: decode_need_def desc_ok_def dneed_def)

lemma decode_demand_ok:
  "\<forall>s\<in>set ss. desc_ok s \<Longrightarrow> decode_demand bs ss d = Inr (d + sum_list (map (dneed bs) ss))"
  by (induction ss arbitrary: d) (simp_all add: decode_need_ok)

section \<open>Preemption\<close>

lemma remove_nth:
  assumes "v < length ds"
  shows "mset ds = add_mset (ds ! v) (mset (take v ds @ drop (Suc v) ds))"
    and "sum_list (map f (take v ds @ drop (Suc v) ds)) = sum_list (map f ds) - (f (ds ! v) :: int)"
    and "subseq (take v ds @ drop (Suc v) ds) ds"
proof -
  have ds: "ds = take v ds @ ds ! v # drop (Suc v) ds" by (rule id_take_nth_drop [OF assms])
  have "mset ds = mset (take v ds @ ds ! v # drop (Suc v) ds)" using ds by simp
  then show "mset ds = add_mset (ds ! v) (mset (take v ds @ drop (Suc v) ds))" by simp
  have "sum_list (map f ds) = sum_list (map f (take v ds @ ds ! v # drop (Suc v) ds))" using ds by simp
  then show "sum_list (map f (take v ds @ drop (Suc v) ds)) = sum_list (map f ds) - f (ds ! v)" by simp
  have "subseq (take v ds @ drop (Suc v) ds) (take v ds @ ds ! v # drop (Suc v) ds)"
    by (intro list_emb_append_mono list_emb_Cons) auto
  then show "subseq (take v ds @ drop (Suc v) ds) ds" using ds by simp
qed

text \<open>What the eviction loop leaves: the victims \<open>vs\<close>, in eviction order, and the survivors.\<close>

definition evicts :: "int \<Rightarrow> SeqDesc list \<Rightarrow> int \<Rightarrow> SeqDesc list \<Rightarrow> SeqDesc list \<Rightarrow> bool" where
  "evicts bs ds free_blk ds' vs \<longleftrightarrow>
     mset ds = mset ds' + mset vs \<and> subseq ds' ds \<and>
     (\<forall>v\<in>set vs. \<forall>s\<in>set ds'. sd_arrival_index s \<le> sd_arrival_index v) \<and>
     sorted_wrt (\<lambda>a b. sd_arrival_index b \<le> sd_arrival_index a) vs \<and>
     (sum_list (map (dneed bs) ds') \<le> free_blk + sum_list (map sd_blocks_held vs) \<or> ds' = []) \<and>
     (vs \<noteq> [] \<longrightarrow> free_blk + sum_list (map sd_blocks_held (butlast vs)) <
        sum_list (map (dneed bs) ds') + dneed bs (last vs))"

lemma preempt_to_fit_ok:
  assumes "\<forall>s\<in>set ds. desc_ok s"
  shows "\<exists>ds' vs. preempt_to_fit bs ds (sum_list (map (dneed bs) ds)) free_blk pre =
      Inr (ds', sum_list (map (dneed bs) ds'), free_blk + sum_list (map sd_blocks_held vs), pre @ map sd_id vs) \<and>
    evicts bs ds free_blk ds' vs"
  using assms
proof (induction "length ds" arbitrary: ds free_blk pre rule: less_induct)
  case less
  let ?d = "sum_list (map (dneed bs) ds)"
  show ?case
  proof (cases "?d > free_blk \<and> ds \<noteq> []")
    case False
    then show ?thesis
      by (intro exI [of _ ds] exI [of _ "[]"]) (subst preempt_to_fit.simps, auto simp: evicts_def)
  next
    case True
    define v where "v = pick_victim ds"
    have v: "v < length ds" and mx: "\<And>s. s \<in> set ds \<Longrightarrow> sd_arrival_index s \<le> sd_arrival_index (ds ! v)"
      using pick_victim_max [of ds] True by (auto simp: v_def)
    let ?r = "take v ds @ drop (Suc v) ds"
    note rm = remove_nth [OF v]
    have sub: "set ?r \<subseteq> set ds" using rm(1) by (metis set_mset_mset set_mset_add_mset_insert subset_insertI)
    have ok: "desc_ok (ds ! v)" "\<forall>s\<in>set ?r. desc_ok s" using less.prems v sub by auto
    have lr: "length ?r < length ds" using v by simp
    have dr: "sum_list (map (dneed bs) ?r) = ?d - dneed bs (ds ! v)" by (rule rm(2))
    from less.hyps [OF lr ok(2), of "free_blk + sd_blocks_held (ds ! v)" "pre @ [sd_id (ds ! v)]"]
    obtain ds' vs where IH: "preempt_to_fit bs ?r (?d - dneed bs (ds ! v)) (free_blk + sd_blocks_held (ds ! v)) (pre @ [sd_id (ds ! v)]) =
        Inr (ds', sum_list (map (dneed bs) ds'), free_blk + sd_blocks_held (ds ! v) + sum_list (map sd_blocks_held vs),
          (pre @ [sd_id (ds ! v)]) @ map sd_id vs)"
      and e: "evicts bs ?r (free_blk + sd_blocks_held (ds ! v)) ds' vs" unfolding dr by blast
    have step: "preempt_to_fit bs ds ?d free_blk pre =
        preempt_to_fit bs ?r (?d - dneed bs (ds ! v)) (free_blk + sd_blocks_held (ds ! v)) (pre @ [sd_id (ds ! v)])"
      using True by (subst preempt_to_fit.simps) (simp add: v_def [symmetric] decode_need_ok [OF ok(1)] Let_def)
    have ms: "mset ?r = mset ds' + mset vs" using e by (simp add: evicts_def)
    then have vsr: "set vs \<subseteq> set ds" "set ds' \<subseteq> set ds" using sub by (metis set_mset_mset set_mset_union Un_subset_iff)+
    have "evicts bs ds free_blk ds' (ds ! v # vs)"
      unfolding evicts_def
    proof (intro conjI)
      show "mset ds = mset ds' + mset (ds ! v # vs)" using rm(1) ms by simp
      show "subseq ds' ds" using e rm(3) subseq_order.order_trans unfolding evicts_def by blast
      show "\<forall>x\<in>set (ds ! v # vs). \<forall>s\<in>set ds'. sd_arrival_index s \<le> sd_arrival_index x"
        using e mx vsr by (auto simp: evicts_def)
      show "sorted_wrt (\<lambda>a b. sd_arrival_index b \<le> sd_arrival_index a) (ds ! v # vs)"
        using e mx vsr by (auto simp: evicts_def)
      show "sum_list (map (dneed bs) ds') \<le> free_blk + sum_list (map sd_blocks_held (ds ! v # vs)) \<or> ds' = []"
        using e by (auto simp: evicts_def)
      show "ds ! v # vs \<noteq> [] \<longrightarrow> free_blk + sum_list (map sd_blocks_held (butlast (ds ! v # vs))) <
        sum_list (map (dneed bs) ds') + dneed bs (last (ds ! v # vs))"
      proof (cases "vs = []")
        case True2: True
        then have "sum_list (map (dneed bs) ds') = ?d - dneed bs (ds ! v)"
          using ms dr by (metis mset_map sum_mset_sum_list mset.simps(1) add.right_neutral)
        then show ?thesis using True True2 by simp
      next
        case False
        then show ?thesis using e by (auto simp: evicts_def)
      qed
    qed
    then show ?thesis using step IH by (intro exI [of _ ds'] exI [of _ "ds ! v # vs"]) (simp add: add.assoc)
  qed
qed

section \<open>Admission\<close>

definition to_prefill :: "SeqDesc \<Rightarrow> Prefill" where
  "to_prefill s = \<lparr>pf_id = sd_id s, pf_num_tokens = sd_num_prompt_tokens s\<rparr>"

text \<open>\<open>k\<close> waiting sequences are admitted: all of them fit together, and the next one would not.\<close>

definition admits :: "SchedulerConfig \<Rightarrow> int \<Rightarrow> SeqDesc list \<Rightarrow> int \<Rightarrow> int \<Rightarrow> int \<Rightarrow> nat \<Rightarrow> bool" where
  "admits cfg bs ws n toks free_blk k \<longleftrightarrow> k \<le> length ws \<and>
     (0 < k \<longrightarrow> n + int k \<le> max_num_seqs cfg \<and>
        toks + sum_list (map sd_num_prompt_tokens (take k ws)) \<le> max_num_batched_tokens cfg \<and>
        sum_list (map (pneed bs) (take k ws)) \<le> free_blk) \<and>
     (k < length ws \<longrightarrow> max_num_seqs cfg \<le> n + int k \<or>
        max_num_batched_tokens cfg < toks + sum_list (map sd_num_prompt_tokens (take (Suc k) ws)) \<or>
        free_blk < sum_list (map (pneed bs) (take (Suc k) ws)))"

lemma admit_ok:
  assumes "\<forall>s\<in>set ws. desc_ok s" and "0 < bs"
  shows "\<exists>k. admit cfg bs ws n toks free_blk pre = Inr (pre @ map to_prefill (take k ws)) \<and> admits cfg bs ws n toks free_blk k"
  using assms
proof (induction ws arbitrary: n toks free_blk pre)
  case (Cons s ws)
  let ?p = "sd_num_prompt_tokens s" and ?need = "pneed bs s"
  have s: "0 \<le> ?p" using Cons.prems by (simp add: desc_ok_def)
  consider "max_num_seqs cfg \<le> n \<or> max_num_batched_tokens cfg < toks + ?p \<or> free_blk < ?need"
    | "n < max_num_seqs cfg" "toks + ?p \<le> max_num_batched_tokens cfg" "?need \<le> free_blk" by linarith
  then show ?case
  proof cases
    case 1
    then show ?thesis using s by (intro exI [of _ 0]) (auto simp: admits_def pneed_def Let_def)
  next
    case 2
    obtain k where k: "admit cfg bs ws (n + 1) (toks + ?p) (free_blk - ?need) (pre @ [to_prefill s]) =
        Inr ((pre @ [to_prefill s]) @ map to_prefill (take k ws))"
      "admits cfg bs ws (n + 1) (toks + ?p) (free_blk - ?need) k"
      using Cons.IH [of "n + 1" "toks + ?p" "free_blk - ?need" "pre @ [to_prefill s]"] Cons.prems by auto
    have "admits cfg bs (s # ws) n toks free_blk (Suc k)"
      using k(2) 2 by (cases "k = 0") (auto simp: admits_def)
    moreover have "admit cfg bs (s # ws) n toks free_blk pre = Inr (pre @ map to_prefill (take (Suc k) (s # ws)))"
      using k(1) 2 s by (simp add: pneed_def Let_def to_prefill_def)
    ultimately show ?thesis by blast
  qed
qed (simp add: admits_def)

lemma Schedule_ok:
  assumes "inputs_ok i"
  obtains ds vs k where
    "Schedule i = Inr \<lparr>so_prefill = map to_prefill (take k (si_waiting i)), so_decode = map sd_id ds, so_preempt = map sd_id vs\<rparr>"
    and "evicts (snap_block_size (si_pool i)) (si_running i) (snap_free_blocks (si_pool i)) ds vs"
    and "admits (si_config i) (snap_block_size (si_pool i)) (si_waiting i) (int (length ds)) 0
      (snap_free_blocks (si_pool i) + sum_list (map sd_blocks_held vs) -
        sum_list (map (dneed (snap_block_size (si_pool i))) ds)) k"
proof -
  let ?bs = "snap_block_size (si_pool i)" and ?f = "snap_free_blocks (si_pool i)"
  have run: "\<forall>s\<in>set (si_running i). desc_ok s" and wait: "\<forall>s\<in>set (si_waiting i). desc_ok s" and bs: "0 < ?bs"
    using assms by (auto simp: inputs_ok_def)
  obtain ds vs where p: "preempt_to_fit ?bs (si_running i) (sum_list (map (dneed ?bs) (si_running i))) ?f [] =
      Inr (ds, sum_list (map (dneed ?bs) ds), ?f + sum_list (map sd_blocks_held vs), [] @ map sd_id vs)"
    and e: "evicts ?bs (si_running i) ?f ds vs" using preempt_to_fit_ok [OF run] by blast
  obtain k where a: "admit (si_config i) ?bs (si_waiting i) (int (length ds)) 0
      (?f + sum_list (map sd_blocks_held vs) - sum_list (map (dneed ?bs) ds)) [] = Inr ([] @ map to_prefill (take k (si_waiting i)))"
    and ad: "admits (si_config i) ?bs (si_waiting i) (int (length ds)) 0
      (?f + sum_list (map sd_blocks_held vs) - sum_list (map (dneed ?bs) ds)) k"
    using admit_ok [OF wait bs] by blast
  show thesis
    by (rule that [OF _ e ad]) (use assms p a decode_demand_ok [OF run, of ?bs 0] in \<open>simp add: Schedule_def Let_def inputs_ok_def\<close>)
qed

section \<open>Properties\<close>

lemma evicts_members:
  assumes "evicts bs ds free_blk ds' vs"
  shows "set ds = set ds' \<union> set vs"
  using assms unfolding evicts_def by (metis set_mset_mset set_mset_union)

text \<open>A snapshot that accounts for every block: what is not free is held by the running sequences, and no
  sequence needs more than the pool has.\<close>

definition accounted :: "ScheduleInputs \<Rightarrow> bool" where
  "accounted i \<longleftrightarrow>
     snap_free_blocks (si_pool i) = snap_total_blocks (si_pool i) - sum_list (map sd_blocks_held (si_running i)) \<and>
     (\<forall>d\<in>set (si_running i). sd_blocks_held d + dneed (snap_block_size (si_pool i)) d \<le> snap_total_blocks (si_pool i)) \<and>
     (\<forall>w\<in>set (si_waiting i). sd_num_prompt_tokens w \<le> max_num_batched_tokens (si_config i) \<and>
        sd_num_prompt_tokens w \<le> snap_total_blocks (si_pool i) * snap_block_size (si_pool i))"

lemma evicts_progress:
  assumes e: "evicts bs rd (nb - sum_list (map sd_blocks_held rd)) ds vs" and "rd \<noteq> []"
    and fits: "\<forall>d\<in>set rd. sd_blocks_held d + dneed bs d \<le> nb"
  shows "ds \<noteq> []"
proof
  assume "ds = []"
  then have vs: "mset vs = mset rd" "vs \<noteq> []" using e assms(2) by (auto simp: evicts_def)
  have "nb - sum_list (map sd_blocks_held rd) + sum_list (map sd_blocks_held (butlast vs)) < dneed bs (last vs)"
    using e vs(2) \<open>ds = []\<close> by (simp add: evicts_def)
  moreover have "sum_list (map sd_blocks_held rd) = sum_list (map sd_blocks_held vs)"
    using vs(1) by (metis mset_map sum_mset_sum_list)
  moreover have "sum_list (map sd_blocks_held vs) = sum_list (map sd_blocks_held (butlast vs)) + sd_blocks_held (last vs)"
    using vs(2) by (induction vs rule: rev_induct) auto
  moreover have "last vs \<in> set rd" using vs by (metis last_in_set set_mset_mset)
  ultimately show False using fits by fastforce
qed

lemma Schedule_progress:
  assumes iok: "inputs_ok i" and acc: "accounted i"
  obtains ds vs k where
    "Schedule i = Inr \<lparr>so_prefill = map to_prefill (take k (si_waiting i)), so_decode = map sd_id ds, so_preempt = map sd_id vs\<rparr>"
    and "mset (si_running i) = mset ds + mset vs"
    and "si_running i \<noteq> [] \<Longrightarrow> ds \<noteq> []" and "si_running i = [] \<Longrightarrow> si_waiting i \<noteq> [] \<Longrightarrow> k \<noteq> 0"
    and "k \<le> length (si_waiting i)" and "0 < k \<longrightarrow> int (length ds) + int k \<le> max_num_seqs (si_config i) \<and>
      sum_list (map sd_num_prompt_tokens (take k (si_waiting i))) \<le> max_num_batched_tokens (si_config i)"
proof -
  let ?bs = "snap_block_size (si_pool i)" and ?total = "snap_total_blocks (si_pool i)"
  obtain ds vs k where
    s: "Schedule i = Inr \<lparr>so_prefill = map to_prefill (take k (si_waiting i)), so_decode = map sd_id ds, so_preempt = map sd_id vs\<rparr>"
    and e: "evicts ?bs (si_running i) (snap_free_blocks (si_pool i)) ds vs"
    and a: "admits (si_config i) ?bs (si_waiting i) (int (length ds)) 0
      (snap_free_blocks (si_pool i) + sum_list (map sd_blocks_held vs) - sum_list (map (dneed ?bs) ds)) k"
    by (rule Schedule_ok [OF iok])
  have ms: "mset (si_running i) = mset ds + mset vs" using e by (simp add: evicts_def)
  have "ds \<noteq> []" if "si_running i \<noteq> []"
    by (rule evicts_progress [of ?bs "si_running i" ?total]) (use e acc that in \<open>simp_all add: accounted_def\<close>)
  moreover have "k \<noteq> 0" if r: "si_running i = []" "si_waiting i \<noteq> []"
  proof
    assume "k = 0"
    have dv: "ds = []" "vs = []" using ms r(1) by auto
    have free: "snap_free_blocks (si_pool i) = ?total" using acc r(1) by (simp add: accounted_def)
    obtain w ws where w: "si_waiting i = w # ws" using r(2) by (cases "si_waiting i") auto
    have wo: "desc_ok w" "sd_num_prompt_tokens w \<le> max_num_batched_tokens (si_config i)" "sd_num_prompt_tokens w \<le> ?total * ?bs" "0 < ?bs"
      "0 < max_num_seqs (si_config i)"
      using iok acc w by (auto simp: inputs_ok_def accounted_def)
    have "pneed ?bs w = ceil_div (sd_num_prompt_tokens w) ?bs"
      using BlocksNeeded_eq [OF wo(4), of 0 "sd_num_prompt_tokens w"] wo(1,4) by (simp add: pneed_def desc_ok_def)
    then have "pneed ?bs w \<le> ?total" using ceil_div_le_iff [OF wo(4)] wo(3) by simp
    then show False using a wo(2,5) by (simp add: admits_def dv free \<open>k = 0\<close> w)
  qed
  moreover have "k \<le> length (si_waiting i)" "0 < k \<longrightarrow> int (length ds) + int k \<le> max_num_seqs (si_config i) \<and>
      sum_list (map sd_num_prompt_tokens (take k (si_waiting i))) \<le> max_num_batched_tokens (si_config i)"
    using a by (simp_all add: admits_def)
  ultimately show thesis using that [OF s ms] by blast
qed

text \<open>C16. Every schedule is feasible: the running sequences are split into those to decode, in their
  order, and those to preempt; the admitted sequences are a prefix of the waiting queue, each with its
  whole prompt; the blocks the decodes and prefills need are covered by the free blocks and those the
  victims give back; and an admission respects the batch width and the token budget.\<close>

theorem schedule_feasible:
  assumes "inputs_ok i"
  shows "\<exists>ds vs k. Schedule i = Inr \<lparr>so_prefill = map to_prefill (take k (si_waiting i)),
        so_decode = map sd_id ds, so_preempt = map sd_id vs\<rparr> \<and>
    mset (si_running i) = mset ds + mset vs \<and> subseq ds (si_running i) \<and>
    sum_list (map (dneed (snap_block_size (si_pool i))) ds) +
      sum_list (map (pneed (snap_block_size (si_pool i))) (take k (si_waiting i))) \<le>
      snap_free_blocks (si_pool i) + sum_list (map sd_blocks_held vs) \<and>
    (0 < k \<longrightarrow> int (length ds) + int k \<le> max_num_seqs (si_config i) \<and>
      sum_list (map sd_num_prompt_tokens (take k (si_waiting i))) \<le> max_num_batched_tokens (si_config i))"
proof -
  from Schedule_ok [OF assms] obtain ds vs k where
    s: "Schedule i = Inr \<lparr>so_prefill = map to_prefill (take k (si_waiting i)), so_decode = map sd_id ds, so_preempt = map sd_id vs\<rparr>"
    and e: "evicts (snap_block_size (si_pool i)) (si_running i) (snap_free_blocks (si_pool i)) ds vs"
    and a: "admits (si_config i) (snap_block_size (si_pool i)) (si_waiting i) (int (length ds)) 0
      (snap_free_blocks (si_pool i) + sum_list (map sd_blocks_held vs) -
        sum_list (map (dneed (snap_block_size (si_pool i))) ds)) k" .
  have "\<forall>v\<in>set vs. 0 \<le> sd_blocks_held v"
    using evicts_members [OF e] assms by (auto simp: inputs_ok_def desc_ok_def)
  then have "0 \<le> sum_list (map sd_blocks_held vs)" by (intro sum_list_nonneg) auto
  then have "sum_list (map (dneed (snap_block_size (si_pool i))) ds) \<le>
      snap_free_blocks (si_pool i) + sum_list (map sd_blocks_held vs)"
    using e assms by (auto simp: evicts_def inputs_ok_def)
  then show ?thesis
    using s e a by (intro exI [of _ ds] exI [of _ vs] exI [of _ k]) (cases "k = 0"; simp add: evicts_def admits_def)
qed

text \<open>A two-sequence pool under pressure: the younger sequence is evicted and a waiting one admitted.\<close>

definition sample_desc :: "int \<Rightarrow> int \<Rightarrow> int \<Rightarrow> int \<Rightarrow> int \<Rightarrow> SeqDesc" where
  "sample_desc i arrival computed prompt held = \<lparr>sd_id = i, sd_arrival_index = arrival,
     sd_num_computed_tokens = computed, sd_num_prompt_tokens = prompt, sd_blocks_held = held\<rparr>"

definition sample_inputs :: ScheduleInputs where
  "sample_inputs = \<lparr>si_waiting = [sample_desc 3 7 0 8 0, sample_desc 4 8 0 9 0],
     si_running = [sample_desc 1 5 8 0 1, sample_desc 2 6 16 0 2],
     si_pool = \<lparr>snap_free_blocks = 0, snap_total_blocks = 3, snap_block_size = 8\<rparr>,
     si_config = \<lparr>max_num_seqs = 4, max_num_batched_tokens = 64\<rparr>\<rparr>"

lemma sample_inputs_ok: "inputs_ok sample_inputs" by code_simp

lemma sample_schedule:
  "Schedule sample_inputs = Inr \<lparr>so_prefill = [\<lparr>pf_id = 3, pf_num_tokens = 8\<rparr>], so_decode = [1], so_preempt = [2]\<rparr>"
  by (simp add: Schedule_def sample_inputs_def sample_desc_def decode_need_def BlocksNeeded_def preempt_to_fit.simps
      pick_victim_def Let_def)

theorem schedule_feasible_witness:
  "Schedule sample_inputs = Inr \<lparr>so_prefill = [\<lparr>pf_id = 3, pf_num_tokens = 8\<rparr>], so_decode = [1], so_preempt = [2]\<rparr> \<and>
   (\<exists>ds vs. map sd_id ds = [1] \<and> map sd_id vs = [2] \<and> mset (si_running sample_inputs) = mset ds + mset vs)"
proof -
  obtain ds vs k where "Schedule sample_inputs = Inr \<lparr>so_prefill = map to_prefill (take k (si_waiting sample_inputs)),
        so_decode = map sd_id ds, so_preempt = map sd_id vs\<rparr>" "mset (si_running sample_inputs) = mset ds + mset vs"
    using schedule_feasible [OF sample_inputs_ok] by (elim exE conjE)
  then show ?thesis using sample_schedule by auto
qed

text \<open>C18. The policy: victims are the latest arrivals, evicted latest first, and only as many as needed
  (without the last eviction the decode set would not have fitted); admission is first-come
  first-served and greedy (the first sequence left waiting would have broken the batch width, the token
  budget or the block budget).\<close>

theorem schedule_policy:
  assumes "inputs_ok i"
  shows "\<exists>ds vs k. Schedule i = Inr \<lparr>so_prefill = map to_prefill (take k (si_waiting i)),
        so_decode = map sd_id ds, so_preempt = map sd_id vs\<rparr> \<and>
    mset (si_running i) = mset ds + mset vs \<and>
    (\<forall>v\<in>set vs. \<forall>s\<in>set ds. sd_arrival_index s \<le> sd_arrival_index v) \<and>
    sorted_wrt (\<lambda>a b. sd_arrival_index b \<le> sd_arrival_index a) vs \<and>
    (vs \<noteq> [] \<longrightarrow> snap_free_blocks (si_pool i) + sum_list (map sd_blocks_held (butlast vs)) <
      sum_list (map (dneed (snap_block_size (si_pool i))) (last vs # ds))) \<and>
    (k < length (si_waiting i) \<longrightarrow>
      max_num_seqs (si_config i) \<le> int (length ds) + int k \<or>
      max_num_batched_tokens (si_config i) < sum_list (map sd_num_prompt_tokens (take (Suc k) (si_waiting i))) \<or>
      snap_free_blocks (si_pool i) + sum_list (map sd_blocks_held vs) <
        sum_list (map (dneed (snap_block_size (si_pool i))) ds) +
        sum_list (map (pneed (snap_block_size (si_pool i))) (take (Suc k) (si_waiting i))))"
proof -
  from Schedule_ok [OF assms] obtain ds vs k where
    s: "Schedule i = Inr \<lparr>so_prefill = map to_prefill (take k (si_waiting i)), so_decode = map sd_id ds, so_preempt = map sd_id vs\<rparr>"
    and e: "evicts (snap_block_size (si_pool i)) (si_running i) (snap_free_blocks (si_pool i)) ds vs"
    and a: "admits (si_config i) (snap_block_size (si_pool i)) (si_waiting i) (int (length ds)) 0
      (snap_free_blocks (si_pool i) + sum_list (map sd_blocks_held vs) -
        sum_list (map (dneed (snap_block_size (si_pool i))) ds)) k" .
  show ?thesis
    using s e a by (intro exI [of _ ds] exI [of _ vs] exI [of _ k]) (simp add: evicts_def admits_def, linarith)
qed

theorem schedule_policy_witness:
  "inputs_ok sample_inputs \<and> (\<exists>(ds :: SeqDesc list) (vs :: SeqDesc list). map sd_id ds = [1] \<and> map sd_id vs = [2] \<and>
     (\<forall>v\<in>set vs. \<forall>s\<in>set ds. sd_arrival_index s \<le> sd_arrival_index v))"
proof -
  obtain ds vs :: "SeqDesc list" and k where "Schedule sample_inputs = Inr \<lparr>so_prefill = map to_prefill (take k (si_waiting sample_inputs)),
        so_decode = map sd_id ds, so_preempt = map sd_id vs\<rparr>"
    "\<forall>v\<in>set vs. \<forall>s\<in>set ds. sd_arrival_index s \<le> sd_arrival_index v"
    using schedule_policy [OF sample_inputs_ok] by blast
  then show ?thesis using sample_schedule sample_inputs_ok by auto
qed

text \<open>C17. No starvation: with a free block, or with at least two running sequences that each hold one, every
  step decodes a sequence that arrived no later than any other running one.\<close>

theorem oldest_sequence_decodes:
  assumes "inputs_ok i" and "si_running i \<noteq> []"
    and "1 \<le> snap_free_blocks (si_pool i) \<or> 2 \<le> length (si_running i) \<and> (\<forall>s\<in>set (si_running i). 1 \<le> sd_blocks_held s)"
  shows "\<exists>out. Schedule i = Inr out \<and> (\<exists>s\<in>set (si_running i). sd_id s \<in> set (so_decode out) \<and>
    (\<forall>s'\<in>set (si_running i). sd_arrival_index s \<le> sd_arrival_index s'))"
proof -
  let ?bs = "snap_block_size (si_pool i)"
  from Schedule_ok [OF assms(1)] obtain ds vs k where
    s: "Schedule i = Inr \<lparr>so_prefill = map to_prefill (take k (si_waiting i)), so_decode = map sd_id ds, so_preempt = map sd_id vs\<rparr>"
    and e: "evicts ?bs (si_running i) (snap_free_blocks (si_pool i)) ds vs" .
  note mem = evicts_members [OF e]
  have ok: "\<forall>s\<in>set (si_running i). desc_ok s" "0 < ?bs" "0 \<le> snap_free_blocks (si_pool i)"
    using assms(1) by (auto simp: inputs_ok_def)
  have "ds \<noteq> []"
  proof
    assume ds: "ds = []"
    then have vs: "vs \<noteq> []" using mem assms(2) by auto
    then have b: "desc_ok (last vs)" using mem ok(1) by auto
    have sm: "snap_free_blocks (si_pool i) + sum_list (map sd_blocks_held (butlast vs)) < dneed ?bs (last vs)"
      using e vs ds by (simp add: evicts_def)
    have "\<forall>x\<in>set (butlast vs). 0 \<le> sd_blocks_held x" using mem ok(1) by (auto simp: desc_ok_def dest!: in_set_butlastD)
    then have nn: "0 \<le> sum_list (map sd_blocks_held (butlast vs))" by (intro sum_list_nonneg) auto
    have z: "snap_free_blocks (si_pool i) = 0" "sum_list (map sd_blocks_held (butlast vs)) \<le> 0"
      using sm dneed_bounds(2) [OF ok(2) b] nn ok(3) by linarith+
    then have two: "2 \<le> length (si_running i)" and h: "\<forall>s\<in>set (si_running i). 1 \<le> sd_blocks_held s" using assms(3) by auto
    have "length vs = length (si_running i)" using e ds unfolding evicts_def by (metis add_0 mset.simps(1) size_mset)
    then obtain x where x: "x \<in> set (butlast vs)" using two by (cases "butlast vs") (auto simp: butlast_conv_take)
    have "sd_blocks_held x \<le> sum_list (map sd_blocks_held (butlast vs))"
      using x \<open>\<forall>x\<in>set (butlast vs). 0 \<le> sd_blocks_held x\<close> by (intro member_le_sum_list) auto
    moreover have "1 \<le> sd_blocks_held x" using h mem x by (auto dest!: in_set_butlastD)
    ultimately show False using z(2) by linarith
  qed
  then obtain m where m: "m \<in> set ds" "\<forall>s\<in>set ds. sd_arrival_index m \<le> sd_arrival_index s"
    using ex_min_if_finite [of "sd_arrival_index ` set ds"] by (fastforce simp: not_less)
  moreover have "\<forall>v\<in>set vs. sd_arrival_index m \<le> sd_arrival_index v" using e m(1) by (auto simp: evicts_def)
  ultimately show ?thesis using s mem by (intro exI conjI) (assumption, force)
qed

theorem oldest_sequence_decodes_witness:
  "\<exists>out. Schedule sample_inputs = Inr out \<and> 1 \<in> set (so_decode out) \<and>
    (\<exists>s\<in>set (si_running sample_inputs). sd_id s \<in> set (so_decode out) \<and> sd_arrival_index s \<le> 5)"
proof -
  have "si_running sample_inputs \<noteq> []"
    "2 \<le> length (si_running sample_inputs) \<and> (\<forall>s\<in>set (si_running sample_inputs). 1 \<le> sd_blocks_held s)" by code_simp+
  from oldest_sequence_decodes [OF sample_inputs_ok this(1) disjI2 [OF this(2)]]
  have "\<exists>out. Schedule sample_inputs = Inr out \<and> (\<exists>s\<in>set (si_running sample_inputs). sd_id s \<in> set (so_decode out) \<and>
    (\<forall>s'\<in>set (si_running sample_inputs). sd_arrival_index s \<le> sd_arrival_index s'))" .
  moreover note sample_schedule
  moreover have "sample_desc 1 5 8 0 1 \<in> set (si_running sample_inputs)" "sd_arrival_index (sample_desc 1 5 8 0 1) = 5" by code_simp+
  ultimately show ?thesis by fastforce
qed

text \<open>The scheduler and the pool count blocks the same way: for a pool of the snapshot's block size the
  scheduler's demand is exactly what \<open>BlockPool::blocks_needed\<close> returns.\<close>

theorem scheduler_agrees_with_pool:
  assumes "pool_block_size p = bs" and "0 < bs" and "0 \<le> c" and "0 \<le> a"
  shows "blocks_needed p c a = Inr (BlocksNeeded c a bs)"
  using assms by (simp add: blocks_needed_def BlocksNeeded_def Let_def)

theorem scheduler_agrees_with_pool_witness:
  "blocks_needed small_pool 7 2 = Inr (BlocksNeeded 7 2 8) \<and> BlocksNeeded 7 2 8 = 1"
proof -
  have "pool_block_size small_pool = 8" by code_simp
  then have "blocks_needed small_pool 7 2 = Inr (BlocksNeeded 7 2 8)" by (rule scheduler_agrees_with_pool) simp_all
  moreover have "BlocksNeeded 7 2 8 = 1" by code_simp
  ultimately show ?thesis by simp
qed

text \<open>Preemption can reward a later arrival: the blocks a victim gives back are offered to the waiting
  queue of the same step, so a sequence that arrived after the victim is admitted in its place.\<close>

theorem preemption_admits_later_arrival:
  "Schedule sample_inputs = Inr \<lparr>so_prefill = [\<lparr>pf_id = 3, pf_num_tokens = 8\<rparr>], so_decode = [1], so_preempt = [2]\<rparr> \<and>
   sd_arrival_index (si_running sample_inputs ! 1) < sd_arrival_index (si_waiting sample_inputs ! 0)"
  using sample_schedule by (simp add: sample_inputs_def sample_desc_def)

end
