(* ===== verification/Engine.thy ===== *)
theory Engine
  imports Batch Scheduler "HOL-Library.AList"
begin

text \<open>
  The continuously batched runtime, \<open>src/src/runtime/engine.{h,cpp}\<close>: the command queue of the clients, the
  step loop of the engine thread, preemption, fault recovery and teardown. The engine thread is the only
  mutator of the sequences and each client call is one critical section, so a run is a sequence of
  submissions, cancellations and steps. The model (an abstract class in the code), the traversal order of
  the request map and the thread schedule of the batched sampler are parameters. A request's channel,
  shared by its sequence and its handle, is kept in a store indexed by the request id. A pointer to an
  entry is its id.
\<close>

section \<open>State\<close>

record EngineConfig =
  ec_max_num_seqs :: int
  ec_max_num_batched_tokens :: int
  ec_max_model_len :: int

text \<open>The logits tensor: its extents and its values. The model's own state is \<open>'m\<close>.\<close>

type_synonym Logits = "int list \<times> Float list"

record ('f, 'm) ModelIface =
  mi_forward :: "'m \<Rightarrow> ForwardRequest \<Rightarrow> 'f BlockPool \<Rightarrow> PagedKvCache list \<Rightarrow>
    Logits status_or \<times> 'm \<times> 'f BlockPool \<times> PagedKvCache list"
  mi_vocab_size :: int
  mi_max_position_embeddings :: int
  mi_cache_geometry :: CacheGeometry

record ('f, 'm) EngineEnv =
  ev_model :: "('f, 'm) ModelIface"
  ev_sampler :: SamplerEnv
  ev_chunk_order :: "nat \<Rightarrow> nat list"
  ev_request_order :: "int list \<Rightarrow> int list"

record Entry =
  en_seq :: Sequence
  en_cancel_requested :: bool

datatype Command = SubmitCmd Entry | CancelCmd int

record ('f, 'm) Engine =
  eg_model :: 'm
  eg_pool :: "'f BlockPool"
  eg_config :: EngineConfig
  eg_max_model_len :: int
  eg_commands :: "Command list"
  eg_next_id :: int
  eg_next_arrival :: int
  eg_stop_requested :: bool
  eg_requests :: "(int \<times> Entry) list"
  eg_waiting :: "int list"
  eg_running :: "int list"
  eg_preemption_count :: int
  eg_channels :: "int \<Rightarrow> OutputChannel option"

definition entry_id :: "Entry \<Rightarrow> int" where
  "entry_id en = rq_id (sq_request (en_seq en))"

text \<open>\<open>requests_.at(id)\<close>, the write through the entry's pointer, and the erasure, which destroys the sequence
  and so its cache.\<close>

definition at_request :: "('f, 'm) Engine \<Rightarrow> int \<Rightarrow> Entry status_or" where
  "at_request e i = (case map_of (eg_requests e) i of None \<Rightarrow> Inl OutOfBounds | Some en \<Rightarrow> Inr en)"

definition put_request :: "('f, 'm) Engine \<Rightarrow> int \<Rightarrow> Entry \<Rightarrow> ('f, 'm) Engine" where
  "put_request e i en = e\<lparr>eg_requests := AList.update i en (eg_requests e)\<rparr>"

definition put_seq :: "('f, 'm) Engine \<Rightarrow> int \<Rightarrow> Entry \<Rightarrow> Sequence \<Rightarrow> ('f, 'm) Engine" where
  "put_seq e i en s = put_request e i (en\<lparr>en_seq := s\<rparr>)"

definition erase_request :: "int \<Rightarrow> ('f, 'm) Engine \<Rightarrow> ('f, 'm) Engine status_or" where
  "erase_request i e =
     (case map_of (eg_requests e) i of
        None \<Rightarrow> Inr e
      | Some en \<Rightarrow>
          bind_ok (ReleaseCache (eg_pool e) (en_seq en)) (\<lambda>(p, s).
          Inr (e\<lparr>eg_pool := p, eg_requests := AList.delete i (eg_requests e)\<rparr>)))"

definition push_item :: "('f, 'm) Engine \<Rightarrow> int \<Rightarrow> OutputItem \<Rightarrow> ('f, 'm) Engine status_or" where
  "push_item e i item =
     (case eg_channels e i of
        None \<Rightarrow> Inl OutOfBounds
      | Some c \<Rightarrow> bind_ok (Push c item) (\<lambda>c'. Inr (e\<lparr>eg_channels := (eg_channels e)(i \<mapsto> c')\<rparr>)))"

definition close_channel :: "('f, 'm) Engine \<Rightarrow> int \<Rightarrow> FinishInfo \<Rightarrow> ('f, 'm) Engine status_or" where
  "close_channel e i info =
     (case eg_channels e i of
        None \<Rightarrow> Inl OutOfBounds
      | Some c \<Rightarrow> Inr (e\<lparr>eg_channels := (eg_channels e)(i \<mapsto> fst (Close c info))\<rparr>))"

section \<open>Construction and the client side\<close>

definition Engine_Create :: "('f, 'm) EngineEnv \<Rightarrow> 'm \<Rightarrow> 'f BlockPool \<Rightarrow> EngineConfig \<Rightarrow> ('f, 'm) Engine status_or" where
  "Engine_Create env m p config =
     (if ec_max_num_seqs config \<le> 0 then InvalidArgumentError
      else if ec_max_num_batched_tokens config \<le> 0 then InvalidArgumentError
      else if ec_max_model_len config < 0 then InvalidArgumentError
      else
        let pg = pool_geom p; mg = mi_cache_geometry (ev_model env) in
        if num_layers pg \<noteq> num_layers mg \<or> num_kv_heads pg \<noteq> num_kv_heads mg \<or> head_dim pg \<noteq> head_dim mg \<or>
          dtype pg \<noteq> dtype mg then InvalidArgumentError
        else if 0 < ec_max_model_len config \<and> pool_num_blocks p * pool_block_size p < ec_max_model_len config
          then InvalidArgumentError
        else
          Inr \<lparr>eg_model = m, eg_pool = p, eg_config = config,
               eg_max_model_len = (if ec_max_model_len config = 0 then mi_max_position_embeddings (ev_model env)
                                   else ec_max_model_len config),
               eg_commands = [], eg_next_id = 1, eg_next_arrival = 0, eg_stop_requested = False, eg_requests = [],
               eg_waiting = [], eg_running = [], eg_preemption_count = 0, eg_channels = (\<lambda>_. None)\<rparr>)"

text \<open>The sum is a 64-bit one; \<open>max_tokens\<close> is whatever positive number the client gave.\<close>

definition int64_wrap :: "int \<Rightarrow> int" where
  "int64_wrap x = (x + 9223372036854775808) mod 18446744073709551616 - 9223372036854775808"

definition peak_length :: "Request \<Rightarrow> int" where
  "peak_length request =
     int64_wrap (int (length (rq_prompt_ids request)) +
       (if 0 < max_tokens (rq_params request) then max_tokens (rq_params request) - 1 else 0))"

definition Submit ::
  "('f, 'm) Engine \<Rightarrow> 64 word \<Rightarrow> Request \<Rightarrow> (('f, 'm) Engine \<times> int) status_or" where
  "Submit e entropy request =
     (if rq_prompt_ids request = [] then InvalidArgumentError
      else
        let peak = peak_length request in
        if ec_max_num_batched_tokens (eg_config e) < peak then InvalidArgumentError
        else if 0 < eg_max_model_len e \<and> eg_max_model_len e < peak then ResourceExhaustedError
        else if pool_num_blocks (eg_pool e) * pool_block_size (eg_pool e) < peak then ResourceExhaustedError
        else
          bind_ok (Sequence_Create entropy request) (\<lambda>(s, channel).
          if eg_stop_requested e then FailedPreconditionError
          else
            let i = eg_next_id e;
                s' = s\<lparr>sq_request := request\<lparr>rq_id := i, rq_arrival_index := eg_next_arrival e\<rparr>\<rparr> in
            Inr (e\<lparr>eg_next_id := i + 1, eg_next_arrival := eg_next_arrival e + 1,
                   eg_commands := eg_commands e @ [SubmitCmd \<lparr>en_seq = s', en_cancel_requested = False\<rparr>],
                   eg_channels := (eg_channels e)(i \<mapsto> channel)\<rparr>, i)))"

definition Cancel :: "('f, 'm) Engine \<Rightarrow> int \<Rightarrow> ('f, 'm) Engine" where
  "Cancel e i = e\<lparr>eg_commands := eg_commands e @ [CancelCmd i]\<rparr>"

section \<open>Draining, cancellation and scheduling\<close>

definition apply_command :: "Command \<Rightarrow> ('f, 'm) Engine \<Rightarrow> ('f, 'm) Engine" where
  "apply_command cmd e =
     (case cmd of
        SubmitCmd en \<Rightarrow>
          let e1 = e\<lparr>eg_waiting := eg_waiting e @ [entry_id en]\<rparr> in
          (case map_of (eg_requests e) (entry_id en) of
             None \<Rightarrow> e1\<lparr>eg_requests := eg_requests e @ [(entry_id en, en)]\<rparr>
           | Some _ \<Rightarrow> e1)
      | CancelCmd i \<Rightarrow>
          (case map_of (eg_requests e) i of
             None \<Rightarrow> e
           | Some en \<Rightarrow> put_request e i (en\<lparr>en_cancel_requested := True\<rparr>)))"

definition DrainCommands :: "('f, 'm) Engine \<Rightarrow> ('f, 'm) Engine" where
  "DrainCommands e = fold apply_command (eg_commands e) (e\<lparr>eg_commands := []\<rparr>)"

definition CloseCancelled :: "('f, 'm) Engine \<Rightarrow> Entry \<Rightarrow> (('f, 'm) Engine \<times> Entry) status_or" where
  "CloseCancelled e en =
     bind_ok (Transition (en_seq en) kCancelled) (\<lambda>s.
     bind_ok (close_channel e (entry_id en) (default_finish_info\<lparr>fi_terminal := kCancelled\<rparr>)) (\<lambda>e'.
     Inr (e', en\<lparr>en_seq := s\<rparr>)))"

definition cancel_one :: "int \<Rightarrow> ('f, 'm) Engine \<times> int list \<Rightarrow> (('f, 'm) Engine \<times> int list) status_or" where
  "cancel_one i st =
     (case st of (e, retired) \<Rightarrow>
        bind_ok (at_request e i) (\<lambda>en.
        if en_cancel_requested en \<and> \<not> is_terminal (en_seq en) then
          bind_ok (CloseCancelled e en) (\<lambda>(e', en'). Inr (put_request e' i en', retired @ [i]))
        else Inr (e, retired)))"

definition retire_one :: "int \<Rightarrow> ('f, 'm) Engine \<Rightarrow> ('f, 'm) Engine status_or" where
  "retire_one i e = erase_request i (e\<lparr>eg_waiting := removeAll i (eg_waiting e), eg_running := removeAll i (eg_running e)\<rparr>)"

definition RetireCancelled :: "('f, 'm) EngineEnv \<Rightarrow> ('f, 'm) Engine \<Rightarrow> ('f, 'm) Engine status_or" where
  "RetireCancelled env e =
     bind_ok (fold_ok cancel_one (ev_request_order env (map fst (eg_requests e))) (e, [])) (\<lambda>(e', retired).
     fold_ok retire_one retired e')"

text \<open>\<open>map\<close> with a fallible function.\<close>

fun map_ok :: "('a \<Rightarrow> 'b status_or) \<Rightarrow> 'a list \<Rightarrow> 'b list status_or" where
  "map_ok f [] = Inr []"
| "map_ok f (x # xs) = bind_ok (f x) (\<lambda>y. bind_ok (map_ok f xs) (\<lambda>ys. Inr (y # ys)))"

definition waiting_desc :: "('f, 'm) Engine \<Rightarrow> int \<Rightarrow> SeqDesc status_or" where
  "waiting_desc e i =
     bind_ok (at_request e i) (\<lambda>en. let s = en_seq en in
     Inr \<lparr>sd_id = i, sd_arrival_index = rq_arrival_index (sq_request s), sd_num_computed_tokens = 0,
          sd_num_prompt_tokens = int (length (rq_prompt_ids (sq_request s))) + num_generated s, sd_blocks_held = 0\<rparr>)"

text \<open>The sequence's cache, which the code dereferences unchecked.\<close>

definition cache_of :: "Sequence \<Rightarrow> PagedKvCache status_or" where
  "cache_of s = (case sq_cache s of None \<Rightarrow> Inl OutOfBounds | Some c \<Rightarrow> Inr c)"

definition running_desc :: "('f, 'm) Engine \<Rightarrow> int \<Rightarrow> SeqDesc status_or" where
  "running_desc e i =
     bind_ok (at_request e i) (\<lambda>en. let s = en_seq en in
     bind_ok (cache_of s) (\<lambda>c.
     Inr \<lparr>sd_id = i, sd_arrival_index = rq_arrival_index (sq_request s), sd_num_computed_tokens = Paged_length c,
          sd_num_prompt_tokens = 0, sd_blocks_held = int (length (tab_blocks (pg_table c)))\<rparr>))"

definition ScheduleStep :: "('f, 'm) Engine \<Rightarrow> SchedulerOutput status_or" where
  "ScheduleStep e =
     bind_ok (map_ok (waiting_desc e) (eg_waiting e)) (\<lambda>waiting_descs.
     bind_ok (map_ok (running_desc e) (eg_running e)) (\<lambda>running_descs.
     Schedule \<lparr>si_waiting = waiting_descs, si_running = running_descs,
       si_pool = \<lparr>snap_free_blocks = free_blocks (eg_pool e), snap_total_blocks = pool_num_blocks (eg_pool e),
                  snap_block_size = pool_block_size (eg_pool e)\<rparr>,
       si_config = \<lparr>max_num_seqs = ec_max_num_seqs (eg_config e),
                    max_num_batched_tokens = ec_max_num_batched_tokens (eg_config e)\<rparr>\<rparr>))"

definition PreemptSequence :: "int \<Rightarrow> ('f, 'm) Engine \<Rightarrow> ('f, 'm) Engine status_or" where
  "PreemptSequence i e =
     bind_ok (at_request e i) (\<lambda>en.
     bind_ok (ReleaseCache (eg_pool e) (en_seq en)) (\<lambda>(p, s).
     bind_ok (Transition s kPreempted) (\<lambda>s'.
     Inr ((put_seq e i en s')\<lparr>eg_pool := p, eg_running := removeAll i (eg_running e),
          eg_waiting := i # eg_waiting e, eg_preemption_count := eg_preemption_count e + 1\<rparr>))))"

definition admit_sequence :: "int \<Rightarrow> ('f, 'm) Engine \<Rightarrow> ('f, 'm) Engine status_or" where
  "admit_sequence i e =
     bind_ok (at_request e i) (\<lambda>en.
     bind_ok (Transition (EnsureCache (en_seq en)) kRunning) (\<lambda>s.
     Inr ((put_seq e i en s)\<lparr>eg_waiting := removeAll i (eg_waiting e), eg_running := eg_running e @ [i]\<rparr>)))"

section \<open>Delivery\<close>

definition fail_sequence :: "Sequence \<Rightarrow> failure \<Rightarrow> Sequence status_or" where
  "fail_sequence s err = Transition (set_error s err) kFailed"

definition fail_entry :: "('f, 'm) Engine \<Rightarrow> int \<Rightarrow> Entry \<Rightarrow> Sequence \<Rightarrow> failure \<Rightarrow> ('f, 'm) Engine status_or" where
  "fail_entry e i en s err = bind_ok (fail_sequence s err) (\<lambda>s'. Inr (put_seq e i en s'))"

definition DeliverSampled :: "('f, 'm) Engine \<Rightarrow> int \<Rightarrow> SampleResult \<Rightarrow> ('f, 'm) Engine status_or" where
  "DeliverSampled e i r =
     bind_ok (at_request e i) (\<lambda>en.
     let s1 = AppendGenerated (en_seq en) (smr_token r) in
     case Observe (sq_stop s1) (smr_token r) (num_generated s1) of
       (Inl (Status c), stop) \<Rightarrow> fail_entry e i en (s1\<lparr>sq_stop := stop\<rparr>) (Status c)
     | (Inl err, stop) \<Rightarrow> Inl err
     | (Inr step, stop) \<Rightarrow>
         let (rest, stop') = (if sr_finished step then StopChecker_Finish stop else ([], stop));
             s2 = s1\<lparr>sq_stop := stop'\<rparr>;
             s3 = (if sr_finished step then set_finish s2 (sr_finish_reason step) (sr_trigger step) (sr_matched_stop step) else s2);
             item = \<lparr>oi_token_id = smr_token r, oi_text_delta = sr_text_delta step @ rest, oi_logprobs = smr_logprobs r\<rparr> in
         bind_ok (push_item e i item) (\<lambda>e'.
         bind_ok (if sr_finished step then Transition s3 kFinished else Inr s3) (\<lambda>s4.
         Inr (put_seq e' i en s4))))"

definition sample_context :: "Sequence \<Rightarrow> SampleContext" where
  "sample_context s = \<lparr>sx_prompt_ids = rq_prompt_ids (sq_request s), sx_generated_ids = sq_generated_ids s\<rparr>"

text \<open>The tokens a sequence feeds: all it has in a prefill, the last sampled one in a decode.\<close>

definition feed_tokens :: "bool \<Rightarrow> Sequence \<Rightarrow> int list status_or" where
  "feed_tokens prefill s =
     (if prefill then Inr (rq_prompt_ids (sq_request s) @ sq_generated_ids s)
      else if sq_generated_ids s = [] then Inl OutOfBounds else Inr [last (sq_generated_ids s)])"

definition pass_input :: "bool \<Rightarrow> ('f, 'm) Engine \<Rightarrow> int \<Rightarrow> BatchSeqInput status_or" where
  "pass_input prefill e i =
     bind_ok (at_request e i) (\<lambda>en.
     bind_ok (feed_tokens prefill (en_seq en)) (\<lambda>ts.
     Inr \<lparr>bs_token_ids = ts, bs_cache = sq_cache (en_seq en), bs_sampler = Some (sq_sampler (en_seq en)),
          bs_context = sample_context (en_seq en)\<rparr>))"

definition BuildPassInputs :: "bool \<Rightarrow> ('f, 'm) Engine \<Rightarrow> int list \<Rightarrow> BatchSeqInput list status_or" where
  "BuildPassInputs prefill e pass_entries = map_ok (pass_input prefill e) pass_entries"

definition LastRow :: "Logits \<Rightarrow> Float list status_or" where
  "LastRow logits =
     (case logits of (extents, values) \<Rightarrow>
        if extents = [] \<or> last extents \<le> 0 then Inl CheckFailed
        else let vocab = nat (last extents) in Inr (drop ((length values div vocab - 1) * vocab) values))"

text \<open>What a forward does to the members' caches, which it was given through pointers.\<close>

definition store_cache :: "int \<times> PagedKvCache \<Rightarrow> ('f, 'm) Engine \<Rightarrow> ('f, 'm) Engine" where
  "store_cache ic e =
     (case ic of (i, c) \<Rightarrow>
        case map_of (eg_requests e) i of None \<Rightarrow> e | Some en \<Rightarrow> put_seq e i en ((en_seq en)\<lparr>sq_cache := Some c\<rparr>))"

definition run_forward ::
  "('f, 'm) EngineEnv \<Rightarrow> ('f, 'm) Engine \<Rightarrow> int list \<Rightarrow> ForwardRequest \<Rightarrow> PagedKvCache list \<Rightarrow> Logits status_or \<times> ('f, 'm) Engine" where
  "run_forward env e ids req caches =
     (case mi_forward (ev_model env) (eg_model e) req (eg_pool e) caches of
        (r, m, p, caches') \<Rightarrow> (r, fold store_cache (zip ids caches') (e\<lparr>eg_model := m, eg_pool := p\<rparr>)))"

section \<open>The fallback path\<close>

text \<open>One member alone; \<open>False\<close> is a decode that found the pool exhausted.\<close>

definition ExecuteAndDeliver ::
  "('f, 'm) EngineEnv \<Rightarrow> bool \<Rightarrow> int \<Rightarrow> ('f, 'm) Engine \<Rightarrow> (('f, 'm) Engine \<times> bool) status_or" where
  "ExecuteAndDeliver env prefill i e =
     bind_ok (at_request e i) (\<lambda>en. let s = en_seq en in
     bind_ok (cache_of s) (\<lambda>cache.
     bind_ok (feed_tokens prefill s) (\<lambda>ts.
     let positions = (if prefill then map (\<lambda>t. int32_cast (int t)) [0..<length ts] else [int32_cast (Paged_length cache)]);
         req = \<lparr>fr_token_ids = ts, fr_positions = positions, fr_cu_seqlens = [], fr_logits_mode = kLast\<rparr> in
     case run_forward env e [i] req [cache] of (r, e1) \<Rightarrow>
     bind_ok (at_request e1 i) (\<lambda>en1. let s1 = en_seq en1 in
     case r of
       Inl (Status c) \<Rightarrow>
         if \<not> prefill \<and> IsResourceExhausted (Status c) then Inr (e1, False)
         else bind_ok (fail_entry e1 i en1 s1 (Status c)) (\<lambda>e2. Inr (e2, True))
     | Inl err \<Rightarrow> Inl err
     | Inr logits \<Rightarrow>
         bind_ok (LastRow logits) (\<lambda>last_row.
         case SampleWithLogprobs (ev_sampler env) (sq_sampler s1) last_row (sample_context s1) of
           Inl (Status c) \<Rightarrow> bind_ok (fail_entry e1 i en1 s1 (Status c)) (\<lambda>e2. Inr (e2, True))
         | Inl err \<Rightarrow> Inl err
         | Inr next_token \<Rightarrow> bind_ok (DeliverSampled e1 i next_token) (\<lambda>e2. Inr (e2, True)))))))"

text \<open>The id 0 is no sequence.\<close>

fun pick_loop :: "('f, 'm) Engine \<Rightarrow> int \<Rightarrow> int list \<Rightarrow> int \<Rightarrow> int \<Rightarrow> int status_or" where
  "pick_loop e exclude [] victim victim_arrival = Inr victim"
| "pick_loop e exclude (i # is) victim victim_arrival =
     (if i = exclude then pick_loop e exclude is victim victim_arrival
      else bind_ok (at_request e i) (\<lambda>en.
        let s = en_seq en; arrival = rq_arrival_index (sq_request s) in
        if sq_state s \<noteq> kRunning then pick_loop e exclude is victim victim_arrival
        else if victim = 0 \<or> victim_arrival < arrival then pick_loop e exclude is i arrival
        else pick_loop e exclude is victim victim_arrival))"

definition PickPreemptionVictim :: "('f, 'm) Engine \<Rightarrow> int \<Rightarrow> int status_or" where
  "PickPreemptionVictim e exclude = pick_loop e exclude (eg_running e) 0 0"

text \<open>The loop that retries a member ends because every round takes a sequence out of \<open>running_\<close>.\<close>

lemma put_seq_simps [simp]:
  "eg_running (put_seq e i en s) = eg_running e" "eg_waiting (put_seq e i en s) = eg_waiting e"
  "eg_pool (put_seq e i en s) = eg_pool e" "eg_channels (put_seq e i en s) = eg_channels e"
  "eg_config (put_seq e i en s) = eg_config e" "eg_max_model_len (put_seq e i en s) = eg_max_model_len e"
  "eg_commands (put_seq e i en s) = eg_commands e" "eg_next_id (put_seq e i en s) = eg_next_id e"
  "eg_next_arrival (put_seq e i en s) = eg_next_arrival e" "eg_stop_requested (put_seq e i en s) = eg_stop_requested e"
  "eg_model (put_seq e i en s) = eg_model e" "eg_preemption_count (put_seq e i en s) = eg_preemption_count e"
  "map_of (eg_requests (put_seq e i en s)) = (map_of (eg_requests e))(i \<mapsto> en\<lparr>en_seq := s\<rparr>)"
  by (simp_all add: put_seq_def put_request_def update_conv')

lemma fold_store_cache_running [simp]: "eg_running (fold store_cache ics e) = eg_running e"
  by (induction ics arbitrary: e) (auto simp: store_cache_def split: option.splits)

lemma push_item_running: "push_item e i item = Inr e' \<Longrightarrow> eg_running e' = eg_running e"
  by (auto simp: push_item_def split: option.splits elim!: bind_okE)

lemma DeliverSampled_running: "DeliverSampled e i r = Inr e' \<Longrightarrow> eg_running e' = eg_running e"
  by (auto simp: DeliverSampled_def Let_def fail_entry_def push_item_running split: prod.splits sum.splits failure.splits if_splits
      elim!: bind_okE dest: push_item_running)

lemma ExecuteAndDeliver_running: "ExecuteAndDeliver env prefill i e = Inr (e', b) \<Longrightarrow> eg_running e' = eg_running e"
  by (auto simp: ExecuteAndDeliver_def Let_def run_forward_def fail_entry_def split: prod.splits sum.splits failure.splits if_splits
      elim!: bind_okE dest!: DeliverSampled_running)

lemma pick_loop_member: "pick_loop e x is v a = Inr w \<Longrightarrow> w \<in> insert v (set is)"
proof (induction "is" arbitrary: v a)
  case (Cons i "is")
  obtain v' a' where "pick_loop e x is v' a' = Inr w" "v' = v \<or> v' = i"
    using Cons.prems by (auto simp: Let_def split: if_splits elim!: bind_okE)
  then show ?case using Cons.IH by fastforce
qed simp

lemma PreemptSequence_running: "PreemptSequence i e = Inr e' \<Longrightarrow> eg_running e' = removeAll i (eg_running e)"
  by (auto simp: PreemptSequence_def elim!: bind_okE)

lemma preempt_shrinks:
  assumes "ExecuteAndDeliver env prefill i e = Inr (e', b)" and "PickPreemptionVictim e' i = Inr v" and "v \<noteq> 0"
    and "PreemptSequence v e' = Inr e''"
  shows "length (eg_running e'') < length (eg_running e)"
proof -
  have "v \<in> set (eg_running e')" using pick_loop_member [of e' i "eg_running e'" 0 0 v] assms(2,3) by (simp add: PickPreemptionVictim_def)
  then show ?thesis using ExecuteAndDeliver_running [OF assms(1)] PreemptSequence_running [OF assms(4)]
    by (simp add: length_removeAll_less)
qed

function recover_member ::
  "('f, 'm) EngineEnv \<Rightarrow> bool \<Rightarrow> int \<Rightarrow> ('f, 'm) Engine \<Rightarrow> ('f, 'm) Engine status_or" where
  "recover_member env prefill i e =
     (case ExecuteAndDeliver env prefill i e of
        Inl err \<Rightarrow> Inl err
      | Inr (e', True) \<Rightarrow> Inr e'
      | Inr (e', False) \<Rightarrow>
          (case PickPreemptionVictim e' i of
             Inl err \<Rightarrow> Inl err
           | Inr victim \<Rightarrow>
               if victim = 0 then bind_ok (at_request e' i) (\<lambda>en. fail_entry e' i en (en_seq en) (Status kResourceExhausted))
               else (case PreemptSequence victim e' of Inl err \<Rightarrow> Inl err | Inr e'' \<Rightarrow> recover_member env prefill i e'')))"
  by pat_completeness auto

termination
  by (relation "measure (\<lambda>(env, prefill, i, e). length (eg_running e))") (auto dest: preempt_shrinks)

declare recover_member.simps [simp del]

definition rollback_cache :: "int \<Rightarrow> int \<Rightarrow> ('f, 'm) Engine \<Rightarrow> ('f, 'm) Engine status_or" where
  "rollback_cache i len e =
     bind_ok (at_request e i) (\<lambda>en.
     bind_ok (cache_of (en_seq en)) (\<lambda>c.
     case Paged_truncate (eg_pool e) c len of
       Inl (Status _) \<Rightarrow> Inr e
     | Inl err \<Rightarrow> Inl err
     | Inr (p, c') \<Rightarrow> Inr ((put_seq e i en ((en_seq en)\<lparr>sq_cache := Some c'\<rparr>))\<lparr>eg_pool := p\<rparr>)))"

definition recover_one ::
  "('f, 'm) EngineEnv \<Rightarrow> bool \<Rightarrow> int \<times> int \<Rightarrow> ('f, 'm) Engine \<Rightarrow> ('f, 'm) Engine status_or" where
  "recover_one env prefill member e =
     (case member of (i, len) \<Rightarrow>
        bind_ok (at_request e i) (\<lambda>en.
        if sq_state (en_seq en) \<noteq> kRunning then Inr e
        else bind_ok (rollback_cache i len e) (recover_member env prefill i)))"

definition RecoverForwardFailure ::
  "('f, 'm) EngineEnv \<Rightarrow> bool \<Rightarrow> (int \<times> int) list \<Rightarrow> ('f, 'm) Engine \<Rightarrow> ('f, 'm) Engine status_or" where
  "RecoverForwardFailure env prefill members e = fold_ok (recover_one env prefill) members e"

section \<open>The step\<close>

definition deliver_row ::
  "int \<times> SampleResult \<times> unit status_or \<Rightarrow> ('f, 'm) Engine \<Rightarrow> ('f, 'm) Engine status_or" where
  "deliver_row outcome e =
     (case outcome of
        (i, r, Inr ()) \<Rightarrow> DeliverSampled e i r
      | (i, r, Inl err) \<Rightarrow> bind_ok (at_request e i) (\<lambda>en. fail_entry e i en (en_seq en) err))"

definition RunBatchPass :: "('f, 'm) EngineEnv \<Rightarrow> bool \<Rightarrow> int list \<Rightarrow> ('f, 'm) Engine \<Rightarrow> ('f, 'm) Engine status_or" where
  "RunBatchPass env prefill pass_entries e =
     (if pass_entries = [] then Inr e
      else
        bind_ok (BuildPassInputs prefill e pass_entries) (\<lambda>seqs.
        case (if prefill then AssemblePrefill seqs else AssembleDecode seqs) of
          (inputs, Inl _) \<Rightarrow> Inl CheckFailed
        | (inputs, Inr ()) \<Rightarrow>
            let pre_len = map Paged_length (bi_caches inputs) in
            (case run_forward env e pass_entries (MakeForwardRequest inputs kLast) (bi_caches inputs) of
               (Inl (Status _), e1) \<Rightarrow> RecoverForwardFailure env prefill (zip pass_entries pre_len) e1
             | (Inl err, e1) \<Rightarrow> Inl err
             | (Inr (extents, values), e1) \<Rightarrow>
                 let n = length pass_entries; vocab = mi_vocab_size (ev_model env) in
                 if int (length values) \<noteq> int n * vocab then Inl CheckFailed
                 else
                   (case BatchedSampler_Sample (ev_sampler env) (ev_chunk_order env n) values vocab (bi_sample_rows inputs)
                           (replicate n \<lparr>smr_token = 0, smr_logprobs = None\<rparr>, replicate n (Inr ())) of
                      Inl (Status _) \<Rightarrow> Inl CheckFailed
                    | Inl err \<Rightarrow> Inl err
                    | Inr (results, row_status) \<Rightarrow> fold_ok deliver_row (zip pass_entries (zip results row_status)) e1))))"

definition retire_terminal :: "int \<Rightarrow> ('f, 'm) Engine \<times> int list \<Rightarrow> (('f, 'm) Engine \<times> int list) status_or" where
  "retire_terminal i st =
     (case st of (e, retired) \<Rightarrow>
        bind_ok (at_request e i) (\<lambda>en.
        if is_terminal (en_seq en) then
          bind_ok (MakeFinishInfo (en_seq en)) (\<lambda>info.
          bind_ok (close_channel e i info) (\<lambda>e'. Inr (e', retired @ [i])))
        else Inr (e, retired)))"

definition retire_running :: "int \<Rightarrow> ('f, 'm) Engine \<Rightarrow> ('f, 'm) Engine status_or" where
  "retire_running i e = erase_request i (e\<lparr>eg_running := removeAll i (eg_running e)\<rparr>)"

definition RetireTerminal :: "('f, 'm) Engine \<Rightarrow> ('f, 'm) Engine status_or" where
  "RetireTerminal e =
     bind_ok (fold_ok retire_terminal (eg_running e) (e, [])) (\<lambda>(e', retired). fold_ok retire_running retired e')"

definition still_running :: "('f, 'm) Engine \<Rightarrow> int \<Rightarrow> bool status_or" where
  "still_running e i = bind_ok (at_request e i) (\<lambda>en. Inr (sq_state (en_seq en) = kRunning))"

definition decode_members :: "('f, 'm) Engine \<Rightarrow> int list \<Rightarrow> int list status_or" where
  "decode_members e ids = bind_ok (map_ok (still_running e) ids) (\<lambda>bs. Inr (map fst (filter snd (zip ids bs))))"

definition Step :: "('f, 'm) EngineEnv \<Rightarrow> ('f, 'm) Engine \<Rightarrow> (bool \<times> ('f, 'm) Engine) status_or" where
  "Step env e =
     bind_ok (RetireCancelled env (DrainCommands e)) (\<lambda>e1.
     if eg_waiting e1 = [] \<and> eg_running e1 = [] then Inr (False, e1)
     else
       bind_ok (ScheduleStep e1) (\<lambda>out.
       bind_ok (fold_ok PreemptSequence (so_preempt out) e1) (\<lambda>e2.
       bind_ok (fold_ok admit_sequence (map pf_id (so_prefill out)) e2) (\<lambda>e3.
       bind_ok (RunBatchPass env True (map pf_id (so_prefill out)) e3) (\<lambda>e4.
       bind_ok (decode_members e4 (so_decode out)) (\<lambda>ids.
       bind_ok (RunBatchPass env False ids e4) (\<lambda>e5.
       bind_ok (RetireTerminal e5) (\<lambda>e6. Inr (True, e6)))))))))"

section \<open>Teardown\<close>

definition shutdown_command :: "Command \<Rightarrow> ('f, 'm) Engine \<Rightarrow> ('f, 'm) Engine status_or" where
  "shutdown_command cmd e =
     (case cmd of
        SubmitCmd en \<Rightarrow>
          bind_ok (CloseCancelled e en) (\<lambda>(e', en').
          bind_ok (ReleaseCache (eg_pool e') (en_seq en')) (\<lambda>(p, _). Inr (e'\<lparr>eg_pool := p\<rparr>)))
      | CancelCmd _ \<Rightarrow> Inr e)"

definition shutdown_request :: "int \<Rightarrow> ('f, 'm) Engine \<Rightarrow> ('f, 'm) Engine status_or" where
  "shutdown_request i e =
     bind_ok (at_request e i) (\<lambda>en.
     if is_terminal (en_seq en) then Inr e
     else bind_ok (CloseCancelled e en) (\<lambda>(e', en'). Inr (put_request e' i en')))"

definition Shutdown :: "('f, 'm) EngineEnv \<Rightarrow> ('f, 'm) Engine \<Rightarrow> ('f, 'm) Engine status_or" where
  "Shutdown env e =
     bind_ok (fold_ok shutdown_command (eg_commands e) (e\<lparr>eg_commands := []\<rparr>)) (\<lambda>e1.
     let ids = ev_request_order env (map fst (eg_requests e1)) in
     bind_ok (fold_ok shutdown_request ids e1) (\<lambda>e2.
     bind_ok (fold_ok erase_request ids e2) (\<lambda>e3. Inr (e3\<lparr>eg_waiting := [], eg_running := []\<rparr>))))"

definition Stop :: "('f, 'm) EngineEnv \<Rightarrow> ('f, 'm) Engine \<Rightarrow> ('f, 'm) Engine status_or" where
  "Stop env e = Shutdown env (e\<lparr>eg_stop_requested := True\<rparr>)"

text \<open>What a handle does with its channel.\<close>

definition try_next_token :: "('f, 'm) Engine \<Rightarrow> int \<Rightarrow> (OutputItem option \<times> ('f, 'm) Engine) status_or" where
  "try_next_token e i =
     (case eg_channels e i of
        None \<Rightarrow> Inl CheckFailed
      | Some c \<Rightarrow> (case TryNext c of (item, c') \<Rightarrow> Inr (item, e\<lparr>eg_channels := (eg_channels e)(i \<mapsto> c')\<rparr>)))"

definition await_completion :: "('f, 'm) Engine \<Rightarrow> int \<Rightarrow> FinishInfo status_or option" where
  "await_completion e i = (case eg_channels e i of None \<Rightarrow> Some (Inl CheckFailed) | Some c \<Rightarrow> AwaitFinish c)"

end
