(* ===== verification/Sampler_Correctness.thy ===== *)
theory Sampler_Correctness
  imports Sampler
begin

text \<open>
  What the sampler promises: greedy selection is the first maximum, a drawn token is a real token that
  the filters kept, the penalties do not depend on the traversal of a hash container, asking for
  logprobs does not move the token, and the batched sampler is the single one row by row.
\<close>

section \<open>The order on values that are not NaN\<close>

lemma float_less_irrefl [simp]: "\<not> float_less x x"
  by (cases x) auto

lemma float_less_NaN [simp]: "\<not> float_less x NaN" "\<not> float_less NaN x"
  by (cases x; simp)+

lemma float_less_asym: "float_less x y \<Longrightarrow> \<not> float_less y x"
  by (cases x; cases y) auto

lemma float_less_trans: "float_less x y \<Longrightarrow> float_less y z \<Longrightarrow> float_less x z"
  by (cases x; cases y; cases z) auto

lemma float_not_less_trans: "y \<noteq> NaN \<Longrightarrow> \<not> float_less y x \<Longrightarrow> \<not> float_less z y \<Longrightarrow> \<not> float_less z x"
  by (cases x; cases y; cases z) auto

lemma float_less_total: "x \<noteq> NaN \<Longrightarrow> y \<noteq> NaN \<Longrightarrow> \<not> float_less x y \<Longrightarrow> \<not> float_less y x \<Longrightarrow> x = y"
  by (cases x; cases y) auto

lemma float_less_not_less: "z \<noteq> NaN \<Longrightarrow> float_less x y \<Longrightarrow> \<not> float_less z y \<Longrightarrow> float_less x z"
  by (cases x; cases y; cases z) auto

lemma float_below_less: "b \<noteq> NaN \<Longrightarrow> \<not> float_less a b \<Longrightarrow> float_less a x \<Longrightarrow> float_less b x"
  by (cases a; cases b; cases x) auto

lemma isfinite_iff: "isfinite x \<longleftrightarrow> (\<exists>a. x = Finite a)"
  by (simp add: isfinite_def split: Float.split)

section \<open>Sorting by a comparison\<close>

lemma mset_insert_by [simp]: "mset (insert_by lt x ys) = add_mset x (mset ys)"
  by (induction ys) auto

lemma mset_sort_by [simp]: "mset (sort_by lt xs) = mset xs"
  by (induction xs) (simp_all add: sort_by_def)

lemma set_sort_by [simp]: "set (sort_by lt xs) = set xs"
  by (rule mset_eq_setD) simp

lemma length_sort_by [simp]: "length (sort_by lt xs) = length xs"
  by (rule mset_eq_length) simp

lemma set_insert_by: "set (insert_by lt x ys) = insert x (set ys)"
  by (induction ys) auto

lemma sorted_insert_by:
  assumes "sorted_wrt (\<lambda>a b. \<not> lt b a) ys"
    and asym: "\<And>a b. lt a b \<Longrightarrow> \<not> lt b a"
    and trans: "\<And>a b c. a \<in> insert x (set ys) \<Longrightarrow> b \<in> insert x (set ys) \<Longrightarrow> c \<in> insert x (set ys) \<Longrightarrow>
      \<not> lt b a \<Longrightarrow> \<not> lt c b \<Longrightarrow> \<not> lt c a"
  shows "sorted_wrt (\<lambda>a b. \<not> lt b a) (insert_by lt x ys)"
  using assms(1,3)
proof (induction ys)
  case (Cons y ys)
  show ?case
  proof (cases "lt y x")
    case True
    then show ?thesis using Cons asym by (auto simp: set_insert_by)
  next
    case False
    have "\<not> lt z x" if "z \<in> set ys" for z using Cons.prems(2) [of x y z] Cons.prems(1) False that by auto
    then show ?thesis using Cons.prems False by auto
  qed
qed simp

lemma sorted_sort_by:
  assumes asym: "\<And>a b. lt a b \<Longrightarrow> \<not> lt b a"
    and trans: "\<And>a b c. a \<in> set xs \<Longrightarrow> b \<in> set xs \<Longrightarrow> c \<in> set xs \<Longrightarrow> \<not> lt b a \<Longrightarrow> \<not> lt c b \<Longrightarrow> \<not> lt c a"
  shows "sorted_wrt (\<lambda>a b. \<not> lt b a) (sort_by lt xs)"
  using trans
proof (induction xs)
  case (Cons x xs)
  have t: "\<not> lt c a" if "a \<in> set xs" "b \<in> set xs" "c \<in> set xs" "\<not> lt b a" "\<not> lt c b" for a b c
    using Cons.prems [of a b c] that by simp
  have IH: "sorted_wrt (\<lambda>a b. \<not> lt b a) (sort_by lt xs)" by (rule Cons.IH) (rule t)
  have st: "sort_by lt (x # xs) = insert_by lt x (sort_by lt xs)" by (simp add: sort_by_def)
  have "insert x (set (sort_by lt xs)) = set (x # xs)" by simp
  then show ?case unfolding st using IH asym Cons.prems by (intro sorted_insert_by) blast+
qed (simp add: sort_by_def)

section \<open>Greedy selection\<close>

lemma argmax_loop_spec:
  assumes "NaN \<notin> set (pre @ xs)" and "best < length pre"
    and "\<forall>j<length pre. \<not> float_less (pre ! best) (pre ! j)" and "\<forall>j<best. float_less (pre ! j) (pre ! best)"
  shows "\<exists>i<length (pre @ xs). argmax_loop xs (int (length pre)) (int best) (pre ! best) = (int i, (pre @ xs) ! i) \<and>
    (\<forall>j<length (pre @ xs). \<not> float_less ((pre @ xs) ! i) ((pre @ xs) ! j)) \<and> (\<forall>j<i. float_less ((pre @ xs) ! j) ((pre @ xs) ! i))"
  using assms
proof (induction xs arbitrary: pre best)
  case Nil
  then show ?case by (intro exI [of _ best]) simp
next
  case (Cons x xs)
  let ?pre = "pre @ [x]" and ?b = "if float_less (pre ! best) x then length pre else best"
  have b: "?b < length ?pre" "?pre ! ?b = (if float_less (pre ! best) x then x else pre ! best)"
    using Cons.prems(2) by (simp_all add: nth_append)
  have jn: "pre ! j \<noteq> NaN" if "j < length pre" for j using Cons.prems(1) nth_mem [OF that] by fastforce
  have le: "\<not> float_less (?pre ! ?b) (?pre ! j)" if "j < length ?pre" for j
  proof (cases "j < length pre")
    case True
    then have le: "\<not> float_less (pre ! best) (pre ! j)" using Cons.prems(3) by blast
    have "\<not> float_less x (pre ! j)" if "float_less (pre ! best) x"
      using le that float_less_trans by blast
    then show ?thesis using le True by (simp only: b(2)) (simp add: nth_append)
  next
    case False
    then have "?pre ! j = x" using that by (simp add: nth_append)
    then show ?thesis by (simp only: b(2)) simp
  qed
  have lt: "float_less (?pre ! j) (?pre ! ?b)" if "j < ?b" for j
  proof (cases "float_less (pre ! best) x")
    case True
    then have j: "j < length pre" using that by simp
    then have "float_less (pre ! j) x" using float_below_less [OF jn _ True] Cons.prems(3) by blast
    then show ?thesis using True j by (simp only: b(2)) (simp add: nth_append)
  next
    case False
    then have "j < best" using that by simp
    then show ?thesis using False Cons.prems(2,4) by (simp only: b(2)) (simp add: nth_append)
  qed
  have app: "?pre @ xs = pre @ x # xs" by simp
  have nn: "NaN \<notin> set (?pre @ xs)" using Cons.prems(1) by simp
  have step: "argmax_loop (x # xs) (int (length pre)) (int best) (pre ! best) =
      argmax_loop xs (int (length ?pre)) (int ?b) (?pre ! ?b)"
    by (simp only: b(2)) (simp add: add.commute)
  have "\<forall>j<length ?pre. \<not> float_less (?pre ! ?b) (?pre ! j)" "\<forall>j<?b. float_less (?pre ! j) (?pre ! ?b)"
    using le lt by blast+
  from Cons.IH [OF nn b(1) this] show ?case unfolding step app .
qed

lemma ArgmaxRow_ok:
  assumes "logits \<noteq> []" and "NaN \<notin> set logits"
  obtains i where "i < length logits" and "ArgmaxRow logits = Inr (int i)"
    and "\<forall>j<length logits. \<not> float_less (logits ! i) (logits ! j)" and "\<forall>j<i. float_less (logits ! j) (logits ! i)"
proof -
  have l: "logits = [hd logits] @ tl logits" using assms(1) by simp
  have "\<exists>i<length logits. argmax_loop (tl logits) 1 0 (hd logits) = (int i, logits ! i) \<and>
    (\<forall>j<length logits. \<not> float_less (logits ! i) (logits ! j)) \<and> (\<forall>j<i. float_less (logits ! j) (logits ! i))"
    using argmax_loop_spec [of "[hd logits]" "tl logits" 0] assms by (simp flip: l)
  then obtain i where i: "i < length logits" "argmax_loop (tl logits) 1 0 (hd logits) = (int i, logits ! i)"
    "\<forall>j<length logits. \<not> float_less (logits ! i) (logits ! j)" "\<forall>j<i. float_less (logits ! j) (logits ! i)" by blast
  moreover have "logits ! i \<noteq> NaN" using i(1) assms(2) by (metis nth_mem)
  ultimately show thesis using that assms(1) by (simp add: ArgmaxRow_def)
qed

section \<open>The distribution\<close>

text \<open>What the code relies on of the vector exponential (\<open>kernels/exp.h\<close>) on arguments up to zero: at
  most two units off the true value, exactly zero at minus infinity, NaN at NaN.\<close>

definition exp_contract :: "SamplerEnv \<Rightarrow> bool" where
  "exp_contract env \<longleftrightarrow>
     (\<forall>a\<le>0. \<exists>z. exp32 env (Finite a) = Finite z \<and> 0 \<le> z \<and> z \<le> 2 \<and> (a = 0 \<longrightarrow> 1 / 2 \<le> z)) \<and>
     exp32 env (Infinity True) = Finite 0 \<and> exp32 env NaN = NaN"

text \<open>A row that has a softmax: no NaN, no \<open>+inf\<close>, and some finite logit.\<close>

definition row_ok :: "Float list \<Rightarrow> bool" where
  "row_ok xs \<longleftrightarrow> NaN \<notin> set xs \<and> Infinity False \<notin> set xs \<and> (\<exists>x\<in>set xs. isfinite x)"

lemma check_finite_loop_ok:
  "check_finite_loop xs any = Inr () \<longleftrightarrow> NaN \<notin> set xs \<and> Infinity False \<notin> set xs \<and> (any \<or> (\<exists>x\<in>set xs. isfinite x))"
  by (induction xs arbitrary: any) auto

lemma CheckFinite_iff: "CheckFinite xs = Inr () \<longleftrightarrow> row_ok xs"
  by (simp add: CheckFinite_def check_finite_loop_ok row_ok_def)

lemma foldl_max:
  assumes "NaN \<notin> set xs" and "a \<noteq> NaN"
  shows "foldl float_max a xs \<in> insert a (set xs) \<and> foldl float_max a xs \<noteq> NaN \<and>
    (\<forall>x\<in>insert a (set xs). \<not> float_less (foldl float_max a xs) x)"
  using assms
proof (induction xs arbitrary: a)
  case (Cons x xs)
  let ?a = "float_max a x"
  have n: "?a \<noteq> NaN" "?a \<in> {a, x}" using Cons.prems by (auto simp: float_max_def)
  have IH: "foldl float_max ?a xs \<in> insert ?a (set xs)" "foldl float_max ?a xs \<noteq> NaN"
    "\<And>y. y \<in> insert ?a (set xs) \<Longrightarrow> \<not> float_less (foldl float_max ?a xs) y"
    using Cons.IH [OF _ n(1)] Cons.prems(1) by auto
  have ge: "\<not> float_less ?a a" "\<not> float_less ?a x" by (auto simp: float_max_def dest: float_less_asym)
  have "\<not> float_less (foldl float_max ?a xs) y" if "y \<in> {a, x}" for y
    using IH(3) [of ?a] ge that float_not_less_trans [OF n(1)] by blast
  then show ?case using IH n by auto
qed simp

lemma max_logit_ok:
  assumes "row_ok xs"
  obtains m where "max_logit xs = Finite m" and "Finite m \<in> set xs"
    and "\<And>x. x \<in> set xs \<Longrightarrow> x = Infinity True \<or> (\<exists>a\<le>m. x = Finite a)"
proof -
  have nan: "NaN \<notin> set xs" and inf: "Infinity False \<notin> set xs" and fin: "\<exists>x\<in>set xs. isfinite x"
    using assms by (auto simp: row_ok_def)
  note mx = foldl_max [OF nan, of "Infinity True", folded max_logit_def]
  obtain x where "x \<in> set xs" "isfinite x" using fin by blast
  then obtain b where b: "Finite b \<in> set xs" by (auto simp: isfinite_iff)
  have ge: "\<not> float_less (max_logit xs) x" if "x \<in> set xs" for x using mx that by blast
  have "max_logit xs \<noteq> Infinity True" using ge [OF b] by (cases "max_logit xs") auto
  then have mem: "max_logit xs \<in> set xs" using mx by blast
  then have "max_logit xs \<noteq> Infinity n" "max_logit xs \<noteq> NaN" for n
    using inf nan \<open>max_logit xs \<noteq> Infinity True\<close> by (metis (full_types))+
  then obtain m where m: "max_logit xs = Finite m" by (metis Float.exhaust)
  have le: "x = Infinity True \<or> (\<exists>a\<le>m. x = Finite a)" if "x \<in> set xs" for x
  proof (cases x)
    case (Finite a)
    then show ?thesis using ge [OF that] by (simp add: m not_less)
  next
    case (Infinity n)
    then show ?thesis using inf that by (cases n) auto
  next
    case NaN
    then show ?thesis using nan that by simp
  qed
  show thesis by (rule that [OF m _ le]) (use mem m in simp_all)
qed

lemma exp_shifted_ok:
  assumes "row_ok xs" and "exp_contract env" and "i < length xs"
  shows "\<exists>z. exp_shifted env xs ! i = Finite z \<and> 0 \<le> z \<and> z \<le> 2 \<and> (xs ! i = max_logit xs \<longrightarrow> 1 / 2 \<le> z) \<and>
    (\<not> isfinite (xs ! i) \<longrightarrow> z = 0)"
proof -
  obtain m where m: "max_logit xs = Finite m" "\<And>x. x \<in> set xs \<Longrightarrow> x = Infinity True \<or> (\<exists>a\<le>m. x = Finite a)"
    using max_logit_ok [OF assms(1)] by metis
  have e: "exp_shifted env xs ! i = exp32 env (fsub binary32 (xs ! i) (Finite m))"
    using assms(3) m(1) by (simp add: exp_shifted_def)
  consider "xs ! i = Infinity True" | a where "a \<le> m" "xs ! i = Finite a" using m(2) assms(3) nth_mem by blast
  then show ?thesis
  proof cases
    case 1
    then show ?thesis using assms(2) by (simp add: e fsub_def exp_contract_def m(1))
  next
    case 2
    have "(a \<noteq> m \<and> round_to binary32 (a - m) = Infinity True) \<or>
        (\<exists>y\<le>0. round_to binary32 (a - m) = Finite y \<and> (a = m \<longrightarrow> y = 0))"
      using round_to_nonpos [of "a - m" binary32] 2(1) by (cases "a = m") (auto simp: round_to_def)
    then show ?thesis using assms(2) 2 by (auto simp: e fsub_def exp_contract_def m(1) isfinite_def)
  qed
qed

lemma sum64_bounds:
  assumes "\<forall>w\<in>set ws. \<exists>z. w = Finite z \<and> 0 \<le> z \<and> z \<le> 2" and "0 \<le> s" and "s \<le> 2 * of_nat n" and "n + length ws \<le> 2 ^ 31"
  shows "\<exists>t. foldl (fadd binary64) (Finite s) ws = Finite t \<and> 0 \<le> t \<and> t \<le> 2 ^ 32 \<and>
    (1 / 2 \<le> s \<or> (\<exists>z\<ge>1 / 2. Finite z \<in> set ws) \<longrightarrow> 1 / 2 \<le> t)"
  using assms
proof (induction ws arbitrary: s n)
  case Nil
  have "of_nat n \<le> (of_nat (2 ^ 31) :: rat)" using Nil.prems(4) by (simp only: of_nat_le_iff)
  then have "s \<le> 2 ^ 32" using Nil.prems(3) by simp
  then show ?case using Nil by simp
next
  case (Cons w ws)
  then obtain z where z: "w = Finite z" "0 \<le> z" "z \<le> 2" by auto
  have rep: "representable binary64 (of_int (2 * int (n + 1)))"
    using Cons.prems(4) by (intro representable_int formats_ok) (simp add: binary64_def)
  have half: "representable binary64 (two_to (- 1))" by (rule representable_two_to) (simp_all add: binary64_def format_ok_def)
  have zero: "representable binary64 0" using representable_int [of 0 binary64] by simp
  have ub: "s + z \<le> of_int (2 * int (n + 1))" using Cons.prems(3) z by simp
  obtain y where y: "round_to binary64 (s + z) = Finite y" "0 \<le> y" "y \<le> of_int (2 * int (n + 1))"
    using round_to_between [of 0 "s + z" "of_int (2 * int (n + 1))" binary64] Cons.prems(2) z ub rep zero by auto
  have h: "1 / 2 \<le> y" if "1 / 2 \<le> s \<or> 1 / 2 \<le> z"
  proof -
    have "two_to (- 1) \<le> s + z" using that z Cons.prems(2) by auto
    from round_to_between [OF this ub _ half rep] y(1) show ?thesis by auto
  qed
  have "\<exists>t. foldl (fadd binary64) (Finite y) ws = Finite t \<and> 0 \<le> t \<and> t \<le> 2 ^ 32 \<and>
    (1 / 2 \<le> y \<or> (\<exists>z\<ge>1 / 2. Finite z \<in> set ws) \<longrightarrow> 1 / 2 \<le> t)"
    using Cons.prems y by (intro Cons.IH [of y "n + 1"]) auto
  then show ?case using z y h by auto
qed

text \<open>The probabilities of a row: finite, not negative, positive at the maximum, zero where masked.\<close>

lemma Softmax_ok:
  assumes "row_ok xs" and "exp_contract env" and "length xs \<le> 2 ^ 31"
  shows "length (Softmax env xs) = length xs"
    and "i < length xs \<Longrightarrow> \<exists>p\<ge>0. Softmax env xs ! i = Finite p \<and> (xs ! i = max_logit xs \<longrightarrow> 0 < p) \<and> (\<not> isfinite (xs ! i) \<longrightarrow> p = 0)"
proof -
  let ?ws = "exp_shifted env xs"
  have len: "length ?ws = length xs" by (simp add: exp_shifted_def)
  show "length (Softmax env xs) = length xs" by (simp add: Softmax_def Let_def len)
  note w = exp_shifted_ok [OF assms(1,2)]
  have all: "\<forall>w\<in>set ?ws. \<exists>z. w = Finite z \<and> 0 \<le> z \<and> z \<le> 2"
    using w len by (metis in_set_conv_nth)
  obtain m where m: "max_logit xs = Finite m" "Finite m \<in> set xs" using max_logit_ok [OF assms(1)] by metis
  then obtain j where "j < length xs" "xs ! j = max_logit xs" by (metis in_set_conv_nth)
  then have "\<exists>z\<ge>1 / 2. Finite z \<in> set ?ws" using w len nth_mem by metis
  then obtain t where t: "sum64 ?ws = Finite t" "1 / 2 \<le> t" "t \<le> 2 ^ 32"
    using sum64_bounds [OF all, of 0 0] assms(3) len by (auto simp: sum64_def)
  have rep: "representable binary64 (two_to (- 32))" "representable binary64 (two_to 1)" "representable binary64 (two_to (- 40))"
    "representable binary64 (two_to 2)" "representable binary64 0"
    by (rule rep64; simp)+
  have "two_to (- 32) \<le> 1 / t" "1 / t \<le> two_to 1" using t(2,3) by (auto simp: power_int_minus field_simps)
  from round_to_between [OF this _ rep(1,2)] obtain v where v: "round_to binary64 (1 / t) = Finite v" "two_to (- 32) \<le> v" "v \<le> 2"
    by auto
  have inv: "fdiv binary64 (Finite 1) (sum64 ?ws) = Finite v" using t v by simp
  show "\<exists>p\<ge>0. Softmax env xs ! i = Finite p \<and> (xs ! i = max_logit xs \<longrightarrow> 0 < p) \<and> (\<not> isfinite (xs ! i) \<longrightarrow> p = 0)"
    if i: "i < length xs"
  proof -
    obtain z where z: "?ws ! i = Finite z" "0 \<le> z" "z \<le> 2" "xs ! i = max_logit xs \<longrightarrow> 1 / 2 \<le> z" "\<not> isfinite (xs ! i) \<longrightarrow> z = 0"
      using w [OF i] by blast
    have e: "Softmax env xs ! i = round_to binary64 (z * v)" using i z(1) len by (simp add: Softmax_def Let_def inv)
    have v0: "0 < v" using v(2) two_to_pos(1) by (rule less_le_trans [rotated])
    have "z * v \<le> two_to 2" using mult_mono [of z 2 v 2] z v v0 by simp
    then obtain p where p: "round_to binary64 (z * v) = Finite p" "0 \<le> p"
      using round_to_between [OF _ _ _ rep(5,4), of "z * v"] z v0 by auto
    have "0 < p" if "xs ! i = max_logit xs"
    proof -
      have "1 / 2 * two_to (- 32) \<le> z * v" using that z(4) v(2) v0 by (intro mult_mono) auto
      moreover have "two_to (- 40) \<le> 1 / 2 * two_to (- 32)" by (simp add: power_int_minus)
      ultimately have "two_to (- 40) \<le> z * v" by linarith
      from round_to_between [OF this \<open>z * v \<le> two_to 2\<close> _ rep(3,4)] p(1) have "two_to (- 40) \<le> p" by auto
      then show ?thesis using two_to_pos(1) by (rule less_le_trans [rotated])
    qed
    moreover have "p = 0" if "\<not> isfinite (xs ! i)" using that z(5) p(1) by (simp add: round_to_def)
    ultimately show ?thesis using p e by auto
  qed
qed

section \<open>The filters\<close>

lemma fold_zero_at:
  "length (fold (\<lambda>i ps. ps[nat i := Finite 0]) is ps) = length ps"
  "j < length ps \<Longrightarrow> fold (\<lambda>i ps. ps[nat i := Finite 0]) is ps ! j = (if \<exists>i\<in>set is. nat i = j then Finite 0 else ps ! j)"
  by (induction "is" arbitrary: ps) (auto simp: nth_list_update)

lemma nucleus_pos: "is \<noteq> [] \<Longrightarrow> k < nucleus probs thr is c k"
proof (induction "is" arbitrary: c k)
  case (Cons i "is")
  have "k + 1 \<le> nucleus probs thr is c' (k + 1)" for c'
    using Cons.IH [of "k + 1" c'] by (cases "is") (auto simp: less_imp_le)
  then show ?case by (auto simp: Let_def intro: Suc_le_lessD)
qed simp

text \<open>The nucleus only removes mass, and keeps some.\<close>

lemma ApplyTopP_ok:
  assumes "\<exists>j<length ps. float_less (Finite 0) (ps ! j)"
  shows "length (ApplyTopP ps p) = length ps"
    and "j < length ps \<Longrightarrow> float_less (Finite 0) (ApplyTopP ps p ! j) \<Longrightarrow> float_less (Finite 0) (ps ! j)"
    and "\<exists>j<length ps. float_less (Finite 0) (ApplyTopP ps p ! j)"
proof -
  let ?pos = "filter (\<lambda>v. float_less (Finite 0) (ps ! nat v)) [0..int (length ps) - 1]"
  let ?ord = "sort_by (by_prob ps) ?pos"
  let ?k = "nucleus ps p ?ord (Finite 0) 0"
  have z: "float_le (Finite 1) p \<Longrightarrow> ApplyTopP ps p = ps"
    "\<not> float_le (Finite 1) p \<Longrightarrow> ApplyTopP ps p = fold (\<lambda>i ps. ps[nat i := Finite 0]) (drop ?k ?ord) ps"
    by (simp_all add: ApplyTopP_def Let_def)
  show "length (ApplyTopP ps p) = length ps" using z fold_zero_at(1) by (cases "float_le (Finite 1) p") simp_all
  show "float_less (Finite 0) (ps ! j)" if "j < length ps" "float_less (Finite 0) (ApplyTopP ps p ! j)"
    using that z by (cases "float_le (Finite 1) p") (auto simp: fold_zero_at split: if_splits)
  show "\<exists>j<length ps. float_less (Finite 0) (ApplyTopP ps p ! j)"
  proof (cases "float_le (Finite 1) p")
    case True
    then show ?thesis using assms z by simp
  next
    case False
    obtain j where j: "j < length ps" "float_less (Finite 0) (ps ! j)" using assms by blast
    then have "int j \<in> set ?pos" by simp
    then obtain i rest where oi: "?ord = i # rest" by (metis set_sort_by list.exhaust empty_iff list.set(1))
    then have "i \<in> set ?pos" using set_sort_by [of "by_prob ps" ?pos] by (metis list.set_intros(1))
    then have i: "0 \<le> i" "nat i < length ps" "float_less (Finite 0) (ps ! nat i)" by auto
    have d: "distinct ?ord" by (metis mset_sort_by mset_eq_imp_distinct_iff distinct_filter distinct_upto)
    have "0 < ?k" using nucleus_pos [of ?ord 0] oi by simp
    then have "set (drop ?k ?ord) \<subseteq> set rest" using oi by (cases ?k) (auto dest: in_set_dropD)
    then have "\<not> (\<exists>i'\<in>set (drop ?k ?ord). nat i' = nat i)"
      using d oi i(1) set_sort_by [of "by_prob ps" ?pos] by (auto simp: eq_nat_nat_iff)
    then have "ApplyTopP ps p ! nat i = ps ! nat i" using z(2) [OF False] i(2) by (simp add: fold_zero_at)
    then show ?thesis using i by auto
  qed
qed

lemma last_positive_ok:
  "last_positive ps v best = (if \<exists>p\<in>set ps. float_less (Finite 0) p then last_positive ps v (- 1) else best) \<and>
   ((\<exists>p\<in>set ps. float_less (Finite 0) p) \<longrightarrow>
     (\<exists>j<length ps. last_positive ps v (- 1) = v + int j \<and> float_less (Finite 0) (ps ! j)))"
proof (induction ps arbitrary: v best)
  case (Cons p ps)
  show ?case
  proof (cases "\<exists>q\<in>set ps. float_less (Finite 0) q")
    case True
    then have "\<exists>j<length ps. last_positive ps (v + 1) (- 1) = v + 1 + int j \<and> float_less (Finite 0) (ps ! j)" using Cons by blast
    then obtain j where j: "j < length ps" "last_positive ps (v + 1) (- 1) = v + 1 + int j" "float_less (Finite 0) (ps ! j)" by blast
    have r: "last_positive ps (v + 1) c = v + 1 + int j" for c using Cons [of "v + 1" c] True j(2) by simp
    show ?thesis using True j r by (auto intro!: exI [of _ "Suc j"])
  next
    case False
    then have r: "last_positive ps (v + 1) c = c" for c using Cons [of "v + 1" c] by simp
    show ?thesis using False r by (auto intro!: exI [of _ 0])
  qed
qed simp

lemma cdf_scan_ok:
  "cdf_scan ps target v c = Some w \<Longrightarrow> \<exists>j<length ps. w = v + int j \<and> float_less (Finite 0) (ps ! j)"
proof (induction ps arbitrary: v c)
  case (Cons p ps)
  show ?case
  proof (cases "float_less target (fadd binary64 c p) \<and> float_less (Finite 0) p")
    case True
    then show ?thesis using Cons.prems by (auto simp: Let_def)
  next
    case False
    then have "cdf_scan ps target (v + 1) (fadd binary64 c p) = Some w" using Cons.prems by (simp add: Let_def split: if_splits)
    then obtain j where "j < length ps" "w = v + 1 + int j" "float_less (Finite 0) (ps ! j)" using Cons.IH by blast
    then show ?thesis by (intro exI [of _ "Suc j"]) simp
  qed
qed simp

lemma SelectByCdf_ok:
  assumes "\<exists>j<length ps. float_less (Finite 0) (ps ! j)"
  obtains j where "j < length ps" and "SelectByCdf ps u = int j" and "float_less (Finite 0) (ps ! j)"
proof (cases "cdf_scan ps (fmul binary64 u (sum64 ps)) 0 (Finite 0)")
  case None
  have "\<exists>p\<in>set ps. float_less (Finite 0) p" using assms nth_mem by blast
  then show thesis using last_positive_ok [of ps 0 "- 1"] None that by (auto simp: SelectByCdf_def Let_def)
next
  case (Some w)
  then show thesis using cdf_scan_ok [OF Some] that by (auto simp: SelectByCdf_def Let_def)
qed

text \<open>Top-k keeps the logits that fewer than \<open>k\<close> others exceed, the maximum among them.\<close>

lemma topk_threshold_ok:
  assumes "NaN \<notin> set xs" and "0 < k" and "k < int (length xs)"
  shows "topk_threshold xs k \<in> set xs"
    and "\<not> float_less x (topk_threshold xs k) \<Longrightarrow> x \<noteq> NaN \<Longrightarrow> int (length (filter (float_less x) xs)) < k"
proof -
  let ?s = "sort_by (\<lambda>a b. float_less b a) xs" and ?n = "nat (k - 1)"
  have n: "?n < length ?s" using assms by simp
  show t: "topk_threshold xs k \<in> set xs" using nth_mem [OF n] by (simp add: topk_threshold_def)
  show "int (length (filter (float_less x) xs)) < k" if x: "\<not> float_less x (topk_threshold xs k)" "x \<noteq> NaN"
  proof -
    have sd: "sorted_wrt (\<lambda>a b. \<not> float_less a b) ?s"
    proof (rule sorted_sort_by)
      show "\<not> float_less a c" if "b \<in> set xs" "\<not> float_less a b" "\<not> float_less b c" for a b c
      proof -
        have "b \<noteq> NaN" using that(1) assms(1) by auto
        from float_not_less_trans [OF this that(3,2)] show ?thesis .
      qed
    qed (rule float_less_asym)
    have "\<not> float_less x y" if y: "y \<in> set (drop ?n ?s)" for y
    proof -
      obtain i where "i < length (drop ?n ?s)" "drop ?n ?s ! i = y" using y unfolding in_set_conv_nth by blast
      then have i: "?n + i < length ?s" "y = ?s ! (?n + i)" using n by auto
      have "\<not> float_less (?s ! ?n) y"
        using sorted_wrt_nth_less [OF sd, of ?n "?n + i"] i by (cases "i = 0") simp_all
      then have "\<not> float_less (topk_threshold xs k) y" by (simp only: topk_threshold_def not_False_eq_True)
      moreover have "topk_threshold xs k \<noteq> NaN" using t assms(1) by auto
      ultimately show ?thesis using x(1) float_not_less_trans by blast
    qed
    then have "filter (float_less x) (drop ?n ?s) = []" by simp
    moreover have "filter (float_less x) ?s = filter (float_less x) (take ?n ?s) @ filter (float_less x) (drop ?n ?s)"
      unfolding filter_append [symmetric] append_take_drop_id ..
    ultimately have "filter (float_less x) ?s = filter (float_less x) (take ?n ?s)" by (simp only: append_Nil2)
    then have "length (filter (float_less x) ?s) \<le> ?n" using length_filter_le [of "float_less x" "take ?n ?s"] by simp
    moreover have "mset (filter (float_less x) ?s) = mset (filter (float_less x) xs)" by simp
    then have "length (filter (float_less x) ?s) = length (filter (float_less x) xs)" by (rule mset_eq_length)
    ultimately show ?thesis using assms(2) by simp
  qed
qed

lemma ApplyTopK_ok:
  assumes "row_ok xs"
  shows "row_ok (ApplyTopK xs k)" and "length (ApplyTopK xs k) = length xs"
    and "i < length xs \<Longrightarrow> isfinite (ApplyTopK xs k ! i) \<Longrightarrow>
      ApplyTopK xs k ! i = xs ! i \<and> (0 < k \<longrightarrow> int (length (filter (float_less (xs ! i)) xs)) < k)"
proof -
  have nan: "NaN \<notin> set xs" using assms by (simp add: row_ok_def)
  obtain m where m: "max_logit xs = Finite m" "Finite m \<in> set xs"
    "\<And>x. x \<in> set xs \<Longrightarrow> x = Infinity True \<or> (\<exists>a\<le>m. x = Finite a)" using max_logit_ok [OF assms] by metis
  show "length (ApplyTopK xs k) = length xs" by (simp add: ApplyTopK_def)
  have short: "int (length (filter (float_less x) xs)) < k" if "x \<in> set xs" "int (length xs) \<le> k" for x
  proof -
    have "length (filter (float_less x) xs) < length xs" using that(1) by (intro length_filter_less) auto
    then show ?thesis using that(2) by simp
  qed
  show "row_ok (ApplyTopK xs k)"
  proof (cases "k \<le> 0 \<or> int (length xs) \<le> k")
    case True
    then show ?thesis using assms by (simp add: ApplyTopK_def)
  next
    case False
    then have "topk_threshold xs k \<in> set xs" using topk_threshold_ok(1) [OF nan, of k] by simp
    then have "\<not> float_less (Finite m) (topk_threshold xs k)" using m(3) by fastforce
    then show ?thesis using False assms m(2) by (auto simp: ApplyTopK_def row_ok_def isfinite_iff intro!: bexI [of _ "Finite m"])
  qed
  show "ApplyTopK xs k ! i = xs ! i \<and> (0 < k \<longrightarrow> int (length (filter (float_less (xs ! i)) xs)) < k)"
    if i: "i < length xs" "isfinite (ApplyTopK xs k ! i)"
  proof (cases "k \<le> 0 \<or> int (length xs) \<le> k")
    case True
    then show ?thesis using short [of "xs ! i"] i(1) by (auto simp: ApplyTopK_def)
  next
    case False
    then have "\<not> float_less (xs ! i) (topk_threshold xs k)" using i by (auto simp: ApplyTopK_def isfinite_iff split: if_splits)
    moreover have "xs ! i \<noteq> NaN" using nan i(1) nth_mem by metis
    ultimately show ?thesis using topk_threshold_ok(2) [OF nan, of k "xs ! i"] False i(1) by (simp add: ApplyTopK_def)
  qed
qed

lemma draw_token_ok:
  assumes "row_ok work" and "exp_contract env" and "length work \<le> 2 ^ 31"
  obtains i where "i < length work" and "draw_token env work params s step = int i" and "isfinite (work ! i)"
    and "0 < top_k params \<longrightarrow> int (length (filter (float_less (work ! i)) work)) < top_k params"
proof -
  let ?w = "ApplyTopK work (top_k params)"
  note k = ApplyTopK_ok [OF assms(1), where k = "top_k params"]
  note sm = Softmax_ok [OF k(1) assms(2), unfolded k(2), OF assms(3)]
  let ?p = "Softmax env ?w"
  obtain m where m: "max_logit ?w = Finite m" "Finite m \<in> set ?w" using max_logit_ok [OF k(1)] by metis
  then obtain j where j: "j < length work" "?w ! j = max_logit ?w" using k(2) by (metis in_set_conv_nth)
  then have "\<exists>j<length ?p. float_less (Finite 0) (?p ! j)" using sm(2) [OF j(1)] sm(1) by auto
  note tp = ApplyTopP_ok [OF this, where p = "top_p params", unfolded sm(1)]
  obtain i where i: "i < length work" "SelectByCdf (ApplyTopP ?p (top_p params)) (Finite (PhiloxUniformDouble s step 0)) = int i"
    "float_less (Finite 0) (ApplyTopP ?p (top_p params) ! i)"
    using SelectByCdf_ok [of "ApplyTopP ?p (top_p params)"] tp(1,3) by metis
  have "float_less (Finite 0) (?p ! i)" using tp(2) i by blast
  then have "isfinite (?w ! i)" using sm(2) [OF i(1)] by (metis float_less_irrefl)
  then show thesis using that i k(3) [OF i(1)] by (auto simp: draw_token_def Let_def)
qed

section \<open>Penalties\<close>

lemma length_update_ids [simp]: "length (update_ids f ids xs) = length xs"
  by (induction ids arbitrary: xs) (simp_all add: update_ids_def)

lemma update_ids_nth:
  assumes "distinct ids" and "\<forall>i\<in>set ids. 0 \<le> i" and "j < length xs"
  shows "update_ids f ids xs ! j = (if int j \<in> set ids then f (int j) (xs ! j) else xs ! j)"
  using assms
proof (induction ids arbitrary: xs)
  case (Cons i ids)
  have u: "update_ids f (i # ids) xs = update_ids f ids (xs[nat i := f i (xs ! nat i)])" by (simp add: update_ids_def)
  show ?case using Cons by (auto simp: u nth_list_update)
qed (simp add: update_ids_def)

lemma update_ids_perm:
  assumes "mset ids = mset ids'" and "distinct ids" and "\<forall>i\<in>set ids. 0 \<le> i"
  shows "update_ids f ids xs = update_ids f ids' xs"
proof (rule nth_equalityI)
  have "set ids' = set ids" "distinct ids'" using assms(1,2) by (metis mset_eq_setD, metis mset_eq_imp_distinct_iff)
  then show "update_ids f ids xs ! j = update_ids f ids' xs ! j" if "j < length (update_ids f ids xs)" for j
    using that assms by (simp add: update_ids_nth)
qed simp

lemma ApplyPenalties_length: "ApplyPenalties env xs ps gs r p f = Inr ys \<Longrightarrow> length ys = length xs"
  by (auto simp: ApplyPenalties_def Let_def elim!: bind_okE split: if_splits)

lemma scaled_logits_length: "scaled_logits env xs cx params = Inr ys \<Longrightarrow> length ys = length xs"
  by (auto simp: scaled_logits_def ApplyTemperature_def dest: ApplyPenalties_length elim!: bind_okE)

lemma validate_ids_ok: "validate_ids v ids = Inr () \<longleftrightarrow> (\<forall>i\<in>set ids. 0 \<le> i \<and> i < v)"
proof -
  have "list_ex (\<lambda>i. i < 0 \<or> v \<le> i) ids \<longleftrightarrow> \<not> (\<forall>i\<in>set ids. 0 \<le> i \<and> i < v)" by (auto simp: list_ex_iff not_le not_less)
  then show ?thesis by (simp add: validate_ids_def)
qed

text \<open>A traversal visits every key once.\<close>

definition hash_ok :: "SamplerEnv \<Rightarrow> bool" where
  "hash_ok env \<longleftrightarrow> (\<forall>ids. mset (hash_order env ids) = mset ids)"

section \<open>The batch\<close>

definition row_outcome :: "SamplerEnv \<Rightarrow> Float list \<Rightarrow> int \<Rightarrow> BatchRow list \<Rightarrow> int \<Rightarrow> SampleResult status_or" where
  "row_outcome env logits vocab rows i =
     SampleWithLogprobs env (the (br_sampler (rows ! nat i))) (take (nat vocab) (drop (nat (i * vocab)) logits)) (br_context (rows ! nat i))"

definition rows_ok :: "SamplerEnv \<Rightarrow> Float list \<Rightarrow> int \<Rightarrow> BatchRow list \<Rightarrow> bool" where
  "rows_ok env logits vocab rows \<longleftrightarrow>
     (\<forall>i<length rows. br_sampler (rows ! i) \<noteq> None \<and>
        (case row_outcome env logits vocab rows (int i) of Inl (Status c) \<Rightarrow> True | Inl _ \<Rightarrow> False | Inr _ \<Rightarrow> True))"

definition slots_ok :: "SamplerEnv \<Rightarrow> Float list \<Rightarrow> int \<Rightarrow> BatchRow list \<Rightarrow> BatchSlots \<Rightarrow> bool" where
  "slots_ok env logits vocab rows slots \<longleftrightarrow>
     rows_ok env logits vocab rows \<and> length (fst slots) = length rows \<and> length (snd slots) = length rows"

definition store_outcome :: "SamplerEnv \<Rightarrow> Float list \<Rightarrow> int \<Rightarrow> BatchRow list \<Rightarrow> int \<Rightarrow> BatchSlots \<Rightarrow> BatchSlots" where
  "store_outcome env logits vocab rows i slots =
     (case row_outcome env logits vocab rows i of
        Inr r \<Rightarrow> ((fst slots)[nat i := r], (snd slots)[nat i := Inr ()])
      | Inl e \<Rightarrow> (fst slots, (snd slots)[nat i := Inl e]))"

lemma sample_item_ok:
  assumes "slots_ok env logits vocab rows slots" and "0 \<le> i" and "i < int (length rows)"
  shows "sample_item env logits vocab rows i slots = Inr (store_outcome env logits vocab rows i slots)"
proof -
  have ro: "br_sampler (rows ! nat i) \<noteq> None"
    "case row_outcome env logits vocab rows i of Inl (Status c) \<Rightarrow> True | Inl _ \<Rightarrow> False | Inr _ \<Rightarrow> True"
    using assms by (auto simp: slots_ok_def rows_ok_def dest!: spec [of _ "nat i"])
  then obtain smp where smp: "br_sampler (rows ! nat i) = Some smp" by blast
  then show ?thesis using ro(2)
    by (cases slots) (auto simp: sample_item_def store_outcome_def row_outcome_def SampleWithLogprobs_def SampleWithLogprobsImpl_def
        Let_def split: sum.splits failure.splits)
qed

interpretation sampling: commuting_items "sample_item env logits vocab rows" "store_outcome env logits vocab rows"
  "\<lambda>_. int (length rows)" "slots_ok env logits vocab rows" for env logits vocab rows
proof
  show "sample_item env logits vocab rows i s = Inr (store_outcome env logits vocab rows i s)"
    if "slots_ok env logits vocab rows s" "0 \<le> i" "i < int (length rows)" for s i using that by (rule sample_item_ok)
  show "slots_ok env logits vocab rows (store_outcome env logits vocab rows i s) \<and> int (length rows) = int (length rows)"
    if "slots_ok env logits vocab rows s" for s i
    using that by (auto simp: slots_ok_def store_outcome_def split: sum.split)
  show "store_outcome env logits vocab rows i (store_outcome env logits vocab rows j s) =
      store_outcome env logits vocab rows j (store_outcome env logits vocab rows i s)"
    if "0 \<le> i" "0 \<le> j" "i \<noteq> j" for s i j
    using that by (auto simp: store_outcome_def list_update_swap eq_nat_nat_iff split: sum.split)
qed

lemma fold_store_outcome:
  assumes "length (fst slots) = n" "length (snd slots) = n" and "distinct is" and "\<forall>i\<in>set is. 0 \<le> i" and "b < n"
  shows "fst (fold (store_outcome env logits vocab rows) is slots) ! b =
      (if int b \<in> set is then (case row_outcome env logits vocab rows (int b) of Inr r \<Rightarrow> r | Inl _ \<Rightarrow> fst slots ! b) else fst slots ! b) \<and>
    snd (fold (store_outcome env logits vocab rows) is slots) ! b =
      (if int b \<in> set is then (case row_outcome env logits vocab rows (int b) of Inr _ \<Rightarrow> Inr () | Inl e \<Rightarrow> Inl e) else snd slots ! b)"
  using assms
proof (induction "is" arbitrary: slots)
  case (Cons i "is")
  have st: "fst (store_outcome env logits vocab rows i slots) ! b =
      (if int b = i then (case row_outcome env logits vocab rows (int b) of Inr r \<Rightarrow> r | Inl _ \<Rightarrow> fst slots ! b) else fst slots ! b)"
    "snd (store_outcome env logits vocab rows i slots) ! b =
      (if int b = i then (case row_outcome env logits vocab rows (int b) of Inr _ \<Rightarrow> Inr () | Inl e \<Rightarrow> Inl e) else snd slots ! b)"
    "length (fst (store_outcome env logits vocab rows i slots)) = n" "length (snd (store_outcome env logits vocab rows i slots)) = n"
    using Cons.prems by (auto simp: store_outcome_def nth_list_update split: sum.split)
  have "distinct is" "\<forall>i\<in>set is. 0 \<le> i" "i \<notin> set is" using Cons.prems by auto
  from Cons.IH [OF st(3,4) this(1,2) Cons.prems(5)] this(3) st(1,2) show ?case by (auto split: sum.split)
qed simp

text \<open>Every schedule of the workers runs the rows as one loop would.\<close>

lemma BatchedSampler_sequential:
  assumes "0 < vocab" and "int (length logits) = int (length rows) * vocab" and "rows_ok env logits vocab rows"
    and "length (fst slots) = length rows" and "length (snd slots) = length rows"
    and "0 < T" and "region_order T (length rows) ord"
  shows "BatchedSampler_Sample env ord logits vocab rows slots =
    Inr (fold (store_outcome env logits vocab rows) [0..int (length rows) - 1] slots)"
proof (cases "rows = []")
  case True
  then show ?thesis using assms by (cases slots) (simp add: BatchedSampler_Sample_def)
next
  case False
  let ?n = "int (length rows)" and ?fin = "fold (store_outcome env logits vocab rows) [0..int (length rows) - 1] slots"
  have ok: "slots_ok env logits vocab rows slots" using assms by (simp add: slots_ok_def)
  have "CeilDiv ?n 1 = ?n" by (simp add: CeilDiv_def)
  then have run: "parallel_for ord ?n 1 (\<lambda>b e. fold_ok (sample_item env logits vocab rows) [b..e - 1]) slots = Inr ?fin"
    using assms(6,7) by (intro sampling.parallel_for_sequential [OF ok, of ?n 1 T]) simp_all
  have "\<not> list_ex (\<lambda>r. br_sampler r = None) rows"
    using assms(3) by (auto simp: list_ex_iff rows_ok_def in_set_conv_nth)
  then show ?thesis using assms(1,2,4,5) False run by (simp add: BatchedSampler_Sample_def)
qed

lemma length_fold_store_outcome:
  "length (fst (fold (store_outcome env logits vocab rows) is slots)) = length (fst slots) \<and>
   length (snd (fold (store_outcome env logits vocab rows) is slots)) = length (snd slots)"
  by (induction "is" arbitrary: slots) (auto simp: store_outcome_def split: sum.split)

section \<open>Properties\<close>

definition sampler_env_ok :: "SamplerEnv \<Rightarrow> bool" where
  "sampler_env_ok env \<longleftrightarrow> exp_contract env \<and> hash_ok env"

text \<open>An exponential that keeps the contract, for concrete runs.\<close>

definition step_exp_env :: SamplerEnv where
  "step_exp_env = \<lparr>exp32 = (\<lambda>x. case x of Finite a \<Rightarrow> (if a < - 80 then Finite 0 else Finite 1)
       | Infinity neg \<Rightarrow> (if neg then Finite 0 else Infinity False) | NaN \<Rightarrow> NaN),
     log64 = id, hash_order = id\<rparr>"

lemma step_exp_env_ok: "exp_contract step_exp_env" "hash_ok step_exp_env"
  by (auto simp: exp_contract_def hash_ok_def step_exp_env_def)

text \<open>C25. 
  Stochastic sampling returns a real token. For logits a softmax exists for, still so after penalties
  and temperature, \<open>Sample\<close> returns an index into the row whose logit is finite and, with top-k on,
  exceeded by fewer than \<open>k\<close> others: never the \<open>-1\<close> of an empty distribution, never a masked token.
\<close>

theorem drawn_token_valid:
  assumes "exp_contract env" and "\<not> float_eq (temperature (smp_params smp)) (Finite 0)"
    and "CheckFinite logits = Inr ()" and "length logits \<le> 2 ^ 31"
    and "scaled_logits env logits cx (smp_params smp) = Inr work" and "row_ok work"
  shows "\<exists>i<length logits. Sample env smp logits cx = Inr (int i) \<and> isfinite (work ! i) \<and>
    (0 < top_k (smp_params smp) \<longrightarrow> int (length (filter (float_less (work ! i)) work)) < top_k (smp_params smp))"
proof -
  have l: "length work = length logits" using assms(5) by (rule scaled_logits_length)
  have ne: "logits \<noteq> []" using assms(3) by (auto simp: CheckFinite_def)
  let ?step = "of_nat (length (sx_generated_ids cx)) :: 64 word"
  obtain i where i: "i < length work" "draw_token env work (smp_params smp) (smp_seed smp) ?step = int i" "isfinite (work ! i)"
    "0 < top_k (smp_params smp) \<longrightarrow> int (length (filter (float_less (work ! i)) work)) < top_k (smp_params smp)"
    using draw_token_ok [OF assms(6,1)] assms(4) l by metis
  then have "Sample env smp logits cx = Inr (int i)"
    using assms(2,3,5) ne by (simp add: Sample_def SampleWithLogprobsImpl_def SampleRow_def SampleStochastic_def Let_def)
  then show ?thesis using i l by auto
qed

definition sample_sampler :: "Float \<Rightarrow> int \<Rightarrow> Sampler" where
  "sample_sampler temp lp = \<lparr>smp_params = default_params\<lparr>temperature := temp, max_tokens := 4, top_k := 1, logprobs := lp\<rparr>, smp_seed = 7\<rparr>"

definition empty_context :: SampleContext where
  "empty_context = \<lparr>sx_prompt_ids = [0], sx_generated_ids = []\<rparr>"

lemma round_small_int: "\<bar>n\<bar> < 2 ^ 24 \<Longrightarrow> round_to binary32 (of_int n) = Finite (of_int n)"
  by (intro round_to_exact representable_int formats_ok) (simp add: binary32_def)

lemma default_no_penalties:
  "repetition_penalty (smp_params (sample_sampler t lp)) = Finite 1" "presence_penalty (smp_params (sample_sampler t lp)) = Finite 0"
  "frequency_penalty (smp_params (sample_sampler t lp)) = Finite 0" "temperature (smp_params (sample_sampler t lp)) = t"
  "top_k (smp_params (sample_sampler t lp)) = 1" "logprobs (smp_params (sample_sampler t lp)) = lp"
  "top_p (smp_params (sample_sampler t lp)) = Finite 1"
  by (simp_all add: sample_sampler_def default_params_def)

lemma scaled_default:
  "scaled_logits env xs cx (smp_params (sample_sampler t lp)) = Inr (map (\<lambda>x. fdiv binary32 x t) xs)"
  by (simp add: scaled_logits_def ApplyPenalties_def ApplyTemperature_def default_no_penalties float_eq_def Let_def)

theorem drawn_token_valid_witness:
  "\<exists>i<2. Sample step_exp_env (sample_sampler (Finite 1) 0) [Finite 1, Finite 2] empty_context = Inr (int i) \<and>
     length (filter (float_less ([Finite 1, Finite 2] ! i)) [Finite 1, Finite 2]) < 1"
proof -
  have r: "round_to binary32 1 = Finite 1" "round_to binary32 2 = Finite 2"
    using round_small_int [of 1] round_small_int [of 2] by simp_all
  have w: "scaled_logits step_exp_env [Finite 1, Finite 2] empty_context (smp_params (sample_sampler (Finite 1) 0)) =
      Inr [Finite 1, Finite 2]" by (simp add: scaled_default r)
  have ok: "row_ok [Finite 1, Finite 2]" by (simp add: row_ok_def isfinite_def)
  have "CheckFinite [Finite 1, Finite 2] = Inr ()" using ok by (simp add: CheckFinite_iff)
  from drawn_token_valid [OF step_exp_env_ok(1) _ this _ w ok] obtain i where i: "i < 2"
    "Sample step_exp_env (sample_sampler (Finite 1) 0) [Finite 1, Finite 2] empty_context = Inr (int i)"
    "length (filter (float_less ([Finite 1, Finite 2] ! i)) [Finite 1, Finite 2]) < 1"
    by (auto simp: default_no_penalties float_eq_def simp del: filter.simps nth_Cons_0)
  then show ?thesis by blast
qed

text \<open>
  Greedy sampling without penalties returns the first of the largest logits.
\<close>

theorem greedy_first_maximum:
  assumes "float_eq (temperature (smp_params smp)) (Finite 0)" and "\<not> PenaltiesActive (smp_params smp)"
    and "logits \<noteq> []" and "NaN \<notin> set logits"
  shows "\<exists>i<length logits. Sample env smp logits cx = Inr (int i) \<and>
    (\<forall>j<length logits. \<not> float_less (logits ! i) (logits ! j)) \<and> (\<forall>j<i. float_less (logits ! j) (logits ! i))"
proof -
  obtain i where i: "i < length logits" "ArgmaxRow logits = Inr (int i)"
    "\<forall>j<length logits. \<not> float_less (logits ! i) (logits ! j)" "\<forall>j<i. float_less (logits ! j) (logits ! i)"
    using ArgmaxRow_ok [OF assms(3,4)] .
  then have "Sample env smp logits cx = Inr (int i)"
    using assms(1,2) by (simp add: Sample_def SampleWithLogprobsImpl_def SampleRow_def SampleGreedy_def Let_def)
  then show ?thesis using i by blast
qed

theorem greedy_first_maximum_witness:
  "\<exists>i<3. Sample step_exp_env (sample_sampler (Finite 0) 0) [Finite 1, Finite 2, Finite 2] empty_context = Inr (int i) \<and> i = 1"
proof -
  have "\<not> PenaltiesActive (smp_params (sample_sampler (Finite 0) 0))" by (simp add: PenaltiesActive_def default_no_penalties float_eq_def)
  from greedy_first_maximum [OF _ this, of "[Finite 1, Finite 2, Finite 2]" step_exp_env empty_context]
  obtain i where "i < 3" "Sample step_exp_env (sample_sampler (Finite 0) 0) [Finite 1, Finite 2, Finite 2] empty_context = Inr (int i)"
    "\<forall>j<3. \<not> float_less ([Finite 1, Finite 2, Finite 2] ! i) ([Finite 1, Finite 2, Finite 2] ! j)"
    "\<forall>j<i. float_less ([Finite 1, Finite 2, Finite 2] ! j) ([Finite 1, Finite 2, Finite 2] ! i)"
    by (auto simp: default_no_penalties float_eq_def numeral_3_eq_3)
  moreover have "i = 0 \<or> i = 1 \<or> i = 2" using calculation(1) by auto
  ultimately show ?thesis by (auto dest: spec [of _ 1])
qed

text \<open>
  Asking for logprobs never changes the token: when \<open>SampleWithLogprobs\<close> succeeds, \<open>Sample\<close> on the same
  row and history succeeds with the same token, and logprobs come exactly when they were asked for.
\<close>

theorem logprobs_keep_token:
  assumes "SampleWithLogprobs env smp logits cx = Inr r"
  shows "Sample env smp logits cx = Inr (smr_token r) \<and> (smr_logprobs r \<noteq> None \<longleftrightarrow> 0 < logprobs (smp_params smp))"
  using assms
  by (auto simp: SampleWithLogprobs_def Sample_def SampleWithLogprobsImpl_def SampleRow_def SampleGreedy_def SampleStochastic_def
      Let_def elim!: bind_okE split: if_splits)

theorem logprobs_keep_token_witness:
  "\<exists>r. SampleWithLogprobs step_exp_env (sample_sampler (Finite 0) 0) [Finite 1, Finite 2] empty_context = Inr r \<and>
     Sample step_exp_env (sample_sampler (Finite 0) 0) [Finite 1, Finite 2] empty_context = Inr (smr_token r)"
proof -
  have "SampleWithLogprobs step_exp_env (sample_sampler (Finite 0) 0) [Finite 1, Finite 2] empty_context =
      Inr \<lparr>smr_token = 1, smr_logprobs = None\<rparr>"
    by (simp add: SampleWithLogprobs_def SampleWithLogprobsImpl_def SampleRow_def SampleGreedy_def Let_def PenaltiesActive_def
        default_no_penalties float_eq_def ArgmaxRow_def)
  from logprobs_keep_token [OF this] this show ?thesis by blast
qed

text \<open>
  The penalties do not depend on the order in which the hash containers of seen and counted tokens are
  traversed: for any two traversals the penalized logits, and any error, are the same.
\<close>

theorem penalties_order_independent:
  assumes "hash_ok env" and "hash_ok env'"
  shows "ApplyPenalties env logits ps gs rep pres freq = ApplyPenalties env' logits ps gs rep pres freq"
proof (cases "validate_ids (int (length logits)) gs = Inr () \<and> validate_ids (int (length logits)) ps = Inr ()")
  case True
  have perm: "update_ids f (hash_order env (remdups ids)) xs = update_ids f (hash_order env' (remdups ids)) xs"
    if "\<forall>i\<in>set ids. 0 \<le> i" for f ids xs
  proof (rule update_ids_perm)
    have m: "mset (hash_order env (remdups ids)) = mset (remdups ids)" "mset (hash_order env' (remdups ids)) = mset (remdups ids)"
      using assms by (simp_all add: hash_ok_def)
    show "mset (hash_order env (remdups ids)) = mset (hash_order env' (remdups ids))" using m by simp
    show "distinct (hash_order env (remdups ids))" using m(1) by (metis distinct_remdups mset_eq_imp_distinct_iff)
    show "\<forall>i\<in>set (hash_order env (remdups ids)). 0 \<le> i" using that mset_eq_setD [OF m(1)] by simp
  qed
  have "\<forall>i\<in>set gs. 0 \<le> i" "\<forall>i\<in>set (gs @ ps). 0 \<le> i" using True by (auto simp: validate_ids_ok)
  then show ?thesis using True by (simp only: ApplyPenalties_def Let_def perm)
next
  case False
  then show ?thesis by (cases "validate_ids (int (length logits)) gs"; cases "validate_ids (int (length logits)) ps")
      (auto simp: ApplyPenalties_def Let_def)
qed

theorem penalties_order_independent_witness:
  "ApplyPenalties step_exp_env [Finite 1, Finite 2] [0] [1, 0] (Finite 2) (Finite 0) (Finite 1) =
   ApplyPenalties (step_exp_env\<lparr>hash_order := rev\<rparr>) [Finite 1, Finite 2] [0] [1, 0] (Finite 2) (Finite 0) (Finite 1)"
  by (rule penalties_order_independent [OF step_exp_env_ok(2)]) (simp add: hash_ok_def)

text \<open>C26. 
  The batched sampler is the single-sequence sampler, row by row. For any number of worker threads and any
  interleaving of their chunks, slot \<open>b\<close> receives what \<open>Sampler::SampleWithLogprobs\<close> returns for row \<open>b\<close>, and a
  row that fails leaves its own status and no other trace.
\<close>

theorem batched_equals_single:
  assumes "0 < vocab" and "int (length logits) = int (length rows) * vocab" and "rows_ok env logits vocab rows"
    and "length (fst slots) = length rows" and "length (snd slots) = length rows"
    and "0 < T" and "region_order T (length rows) ord"
  shows "\<exists>out row_status. BatchedSampler_Sample env ord logits vocab rows slots = Inr (out, row_status) \<and>
    (\<forall>b<length rows. case row_outcome env logits vocab rows (int b) of
       Inr r \<Rightarrow> out ! b = r \<and> row_status ! b = Inr ()
     | Inl e \<Rightarrow> out ! b = fst slots ! b \<and> row_status ! b = Inl e)"
proof -
  let ?fin = "fold (store_outcome env logits vocab rows) [0..int (length rows) - 1] slots"
  have "case row_outcome env logits vocab rows (int b) of
       Inr r \<Rightarrow> fst ?fin ! b = r \<and> snd ?fin ! b = Inr ()
     | Inl e \<Rightarrow> fst ?fin ! b = fst slots ! b \<and> snd ?fin ! b = Inl e" if "b < length rows" for b
    using fold_store_outcome [OF assms(4,5), of "[0..int (length rows) - 1]" b env logits vocab rows] that
    by (auto split: sum.split)
  then show ?thesis using BatchedSampler_sequential [OF assms] by (intro exI [of _ "fst ?fin"] exI [of _ "snd ?fin"]) simp
qed

lemma all_less_two: "(\<forall>b<2. P b) \<longleftrightarrow> P 0 \<and> P (Suc 0)"
  by (auto simp: less_2_cases_iff)

definition two_rows :: "BatchRow list" where
  "two_rows = [\<lparr>br_sampler = Some (sample_sampler (Finite 0) 0), br_context = empty_context\<rparr>,
     \<lparr>br_sampler = Some (sample_sampler (Finite 0) 0), br_context = empty_context\<rparr>]"

lemma greedy_outcome:
  "SampleWithLogprobs env (sample_sampler (Finite 0) 0) row cx = bind_ok (ArgmaxRow row) (\<lambda>t. Inr \<lparr>smr_token = t, smr_logprobs = None\<rparr>)"
  by (simp add: SampleWithLogprobs_def SampleWithLogprobsImpl_def SampleRow_def SampleGreedy_def Let_def PenaltiesActive_def
      default_no_penalties float_eq_def)

theorem batched_equals_single_witness:
  "\<exists>out row_status. BatchedSampler_Sample step_exp_env [1, 0] [NaN, Finite 0, Finite 1, Finite 2] 2 two_rows
      (replicate 2 \<lparr>smr_token = 0, smr_logprobs = None\<rparr>, replicate 2 (Inr ())) = Inr (out, row_status) \<and>
     row_status ! 0 = Inl (Status kInternal) \<and> row_status ! 1 = Inr () \<and> smr_token (out ! 1) = 1"
proof -
  let ?l = "[NaN, Finite 0, Finite 1, Finite 2]"
  have o0: "row_outcome step_exp_env ?l 2 two_rows 0 = Inl (Status kInternal)"
    by (simp add: row_outcome_def two_rows_def greedy_outcome ArgmaxRow_def)
  have o1: "row_outcome step_exp_env ?l 2 two_rows 1 = Inr \<lparr>smr_token = 1, smr_logprobs = None\<rparr>"
    by (simp add: row_outcome_def two_rows_def greedy_outcome ArgmaxRow_def)
  have len: "length two_rows = 2" by (simp add: two_rows_def)
  have "rows_ok step_exp_env ?l 2 two_rows"
    unfolding rows_ok_def len using o0 o1 by (auto simp: less_2_cases_iff two_rows_def)
  moreover have "region_order 2 (length two_rows) [1, 0]"
    unfolding len by (auto simp: region_order_def less_2_cases_iff worker_chunks.simps)
  ultimately obtain out row_status where r: "BatchedSampler_Sample step_exp_env [1, 0] ?l 2 two_rows
      (replicate 2 \<lparr>smr_token = 0, smr_logprobs = None\<rparr>, replicate 2 (Inr ())) = Inr (out, row_status)"
    "\<forall>b<length two_rows. case row_outcome step_exp_env ?l 2 two_rows (int b) of
       Inr r \<Rightarrow> out ! b = r \<and> row_status ! b = Inr ()
     | Inl e \<Rightarrow> out ! b = fst (replicate 2 \<lparr>smr_token = 0, smr_logprobs = None\<rparr>, replicate 2 (Inr () :: unit status_or)) ! b \<and> row_status ! b = Inl e"
    using batched_equals_single [of 2 ?l two_rows step_exp_env
        "(replicate 2 \<lparr>smr_token = 0, smr_logprobs = None\<rparr>, replicate 2 (Inr ()))" 2 "[1, 0]"] len by fastforce
  then show ?thesis using o0 o1 len by (auto simp: all_less_two)
qed

text \<open>C27. 
  A valid temperature can leave no token. The row is checked before the temperature divides it: at the
  smallest normal temperature an ordinary logit overflows to \<open>+inf\<close>, every probability is NaN, and the
  sampler returns the token \<open>-1\<close>; with logprobs on it reads the log-probabilities at that index.
\<close>

theorem temperature_overflow_no_token:
  assumes "exp32 env NaN = NaN"
  shows "ValidateSamplingParams (smp_params (sample_sampler (Finite (two_to (- 126))) 1)) = Inr () \<and>
    CheckFinite [Finite 16, Finite 0] = Inr () \<and>
    Sample env (sample_sampler (Finite (two_to (- 126))) 1) [Finite 16, Finite 0] cx = Inr (- 1) \<and>
    SampleWithLogprobs env (sample_sampler (Finite (two_to (- 126))) 1) [Finite 16, Finite 0] cx = Inl OutOfBounds"
proof -
  let ?smp = "sample_sampler (Finite (two_to (- 126))) 1"
  have "two_to (ff_emax binary32) \<le> 16 / two_to (- 126)" by (simp add: binary32_def power_int_minus)
  then have inf: "round_to binary32 (16 / two_to (- 126)) = Infinity False" by (rule round_to_overflow) simp
  have z: "round_to binary32 0 = Finite 0" by (simp add: round_to_def)
  have w: "scaled_logits env [Finite 16, Finite 0] cx (smp_params ?smp) = Inr [Infinity False, Finite 0]"
  proof -
    have "fdiv binary32 (Finite 16) (Finite (two_to (- 126))) = Infinity False" using inf by (simp only: fdiv.simps two_to_pos if_False)
    moreover have "fdiv binary32 (Finite 0) (Finite (two_to (- 126))) = Finite 0" using z by (simp only: fdiv.simps two_to_pos if_False div_0)
    ultimately show ?thesis by (simp only: scaled_default list.map)
  qed
  have k: "ApplyTopK [Infinity False, Finite 0] 1 = [Infinity False, Infinity True]"
    by (simp add: ApplyTopK_def topk_threshold_def sort_by_def)
  have m: "max_logit [Infinity False, Infinity True] = Infinity False" by (simp add: max_logit_def float_max_def)
  have e: "exp_shifted env [Infinity False, Infinity True] = [NaN, exp32 env (Infinity True)]"
    using assms by (simp add: exp_shifted_def m fsub_def)
  have p: "Softmax env [Infinity False, Infinity True] = [NaN, NaN]" by (simp add: Softmax_def e sum64_def Let_def)
  have t: "draw_token env [Infinity False, Finite 0] (smp_params ?smp) s step = - 1" for s step
    by (simp add: draw_token_def default_no_penalties k p ApplyTopP_def float_le_def SelectByCdf_def sum64_def Let_def)
  have c: "CheckFinite [Finite 16, Finite 0] = Inr ()" by (simp add: CheckFinite_iff row_ok_def isfinite_def)
  have pos: "0 < two_to (- 126)" "\<not> two_to (- 126) < 0" by (rule two_to_pos)+
  have nz: "\<not> float_eq (Finite (two_to (- 126))) (Finite 0)" unfolding float_eq_def using pos(1) by auto
  have v: "ValidateSamplingParams (smp_params ?smp) = Inr ()"
    unfolding ValidateSamplingParams_def default_no_penalties using pos(2)
    by (simp add: sample_sampler_def default_params_def isfinite_def float_le_def kMaxLogprobs_def)
  have s: "SampleRow env [Finite 16, Finite 0] cx (smp_params ?smp) sd lp =
      (if lp then Inl OutOfBounds else Inr \<lparr>smr_token = - 1, smr_logprobs = None\<rparr>)" for sd lp
    unfolding SampleRow_def SampleStochastic_def default_no_penalties using nz c w t by (simp add: Let_def ExtractLogprobs_def)
  show ?thesis
    using v c s by (simp add: Sample_def SampleWithLogprobs_def SampleWithLogprobsImpl_def default_no_penalties)
qed

theorem temperature_overflow_no_token_witness:
  "Sample step_exp_env (sample_sampler (Finite (two_to (- 126))) 1) [Finite 16, Finite 0] empty_context = Inr (- 1)"
  using temperature_overflow_no_token [of step_exp_env empty_context] by (simp add: step_exp_env_def)

text \<open>Greedy selection without logprobs does not see a NaN behind the first logit, and picks \<open>+inf\<close>.\<close>

lemma greedy_accepts_nonfinite:
  "Sample env (sample_sampler (Finite 0) 0) [Finite 0, NaN] cx = Inr 0"
  "Sample env (sample_sampler (Finite 0) 0) [Finite 0, Infinity False] cx = Inr 1"
  "SampleWithLogprobs env (sample_sampler (Finite 0) 1) [Finite 0, NaN] cx = Inl (Status kInternal)"
  by (simp_all add: Sample_def SampleWithLogprobs_def SampleWithLogprobsImpl_def SampleRow_def SampleGreedy_def Let_def PenaltiesActive_def
      default_no_penalties float_eq_def ArgmaxRow_def CheckFinite_def)

end
