(* ===== verification/Engine_Inv.thy ===== *)
theory Engine_Inv
  imports Engine Sampler_Correctness
begin

text \<open>
  The invariant of the runtime and its preservation by every operation of the step loop: the request map
  and the two queues agree, every block of the pool that is in use belongs to exactly one live sequence,
  every live request has an open channel and no other channel is open, and a running sequence's cache
  holds exactly the positions its tokens say. \<open>phase\<close> tracks where a member of a pass stands: ready for
  it, fed by the forward, or left dirty by a forward that failed.
\<close>

section \<open>What the engine asks of the model\<close>

definition blocks_of :: "PagedKvCache list \<Rightarrow> int list" where
  "blocks_of cs = concat (map (\<lambda>c. tab_blocks (pg_table c)) cs)"

definition same_pool :: "'f BlockPool \<Rightarrow> 'f BlockPool \<Rightarrow> bool" where
  "same_pool p p' \<longleftrightarrow> pool_geom p' = pool_geom p \<and> pool_block_size p' = pool_block_size p \<and> pool_num_blocks p' = pool_num_blocks p"

definition idle_cache :: "int \<Rightarrow> PagedKvCache \<Rightarrow> bool" where
  "idle_cache bs c \<longleftrightarrow> table_wf bs (pg_table c) \<and> pg_next_layer c = 0"

text \<open>The number of tokens the request feeds member \<open>b\<close>.\<close>

definition fed_tokens :: "ForwardRequest \<Rightarrow> nat \<Rightarrow> int" where
  "fed_tokens req b =
     (if fr_cu_seqlens req = [] then int (length (fr_token_ids req))
      else fr_cu_seqlens req ! Suc b - fr_cu_seqlens req ! b)"

definition forward_input_ok :: "('f, 'm) ModelIface \<Rightarrow> ForwardRequest \<Rightarrow> 'f BlockPool \<Rightarrow> PagedKvCache list \<Rightarrow> int list \<Rightarrow> bool" where
  "forward_input_ok mi req p cs others \<longleftrightarrow>
     cs \<noteq> [] \<and> fr_logits_mode req = kLast \<and> length (fr_positions req) = length (fr_token_ids req) \<and>
     (if fr_cu_seqlens req = [] then length cs = 1 else length (fr_cu_seqlens req) = Suc (length cs)) \<and>
     (\<forall>b<length cs. 1 \<le> fed_tokens req b) \<and>
     pool_geom p = mi_cache_geometry mi \<and> slabs_wf p \<and> owned p (blocks_of cs @ others) \<and>
     (\<forall>c\<in>set cs. idle_cache (pool_block_size p) c)"

text \<open>What it leaves: its own sequences' tables, grown by the tokens fed, and one row of logits each; or an
  error, with what was committed before it. A single-sequence forward that fails leaves the cache alone
  (\<open>model.h\<close>). The blocks of the other sequences are not touched either way.\<close>

definition forward_output_ok ::
  "('f, 'm) ModelIface \<Rightarrow> ForwardRequest \<Rightarrow> 'f BlockPool \<Rightarrow> PagedKvCache list \<Rightarrow> int list \<Rightarrow>
   Logits status_or \<Rightarrow> 'f BlockPool \<Rightarrow> PagedKvCache list \<Rightarrow> bool" where
  "forward_output_ok mi req p cs others r p' cs' \<longleftrightarrow>
     same_pool p p' \<and> slabs_wf p' \<and> owned p' (blocks_of cs' @ others) \<and> length cs' = length cs \<and>
     (\<forall>c\<in>set cs'. table_wf (pool_block_size p) (pg_table c)) \<and>
     (case r of
        Inr (extents, values) \<Rightarrow>
          extents \<noteq> [] \<and> last extents = mi_vocab_size mi \<and> int (length values) = int (length cs) * mi_vocab_size mi \<and>
          (\<forall>b<length cs. Paged_length (cs' ! b) = Paged_length (cs ! b) + fed_tokens req b \<and> pg_next_layer (cs' ! b) = 0)
      | Inl (Status _) \<Rightarrow>
          (\<forall>b<length cs. Paged_length (cs ! b) \<le> Paged_length (cs' ! b)) \<and> (fr_cu_seqlens req = [] \<longrightarrow> cs' = cs)
      | Inl _ \<Rightarrow> False)"

definition forward_contract :: "('f, 'm) ModelIface \<Rightarrow> bool" where
  "forward_contract mi \<longleftrightarrow> 0 < mi_vocab_size mi \<and>
     (\<forall>m req p cs others r m' p' cs'. mi_forward mi m req p cs = (r, m', p', cs') \<longrightarrow>
        forward_input_ok mi req p cs others \<longrightarrow> forward_output_ok mi req p cs others r p' cs')"

definition env_wf :: "('f, 'm) EngineEnv \<Rightarrow> bool" where
  "env_wf env \<longleftrightarrow> forward_contract (ev_model env) \<and>
     (\<exists>T>0. \<forall>n. region_order T n (ev_chunk_order env n)) \<and> (\<forall>ids. mset (ev_request_order env ids) = mset ids)"

text \<open>A request whose sampling cannot read out of bounds: greedy, or without logprobs.\<close>

definition params_safe :: "SamplingParams \<Rightarrow> bool" where
  "params_safe params \<longleftrightarrow> float_eq (temperature params) (Finite 0) \<or> logprobs params = 0"

lemma argmax_loop_range: "argmax_loop xs v b x = (i, y) \<Longrightarrow> i = b \<or> (v \<le> i \<and> i < v + int (length xs))"
  by (induction xs arbitrary: v b x) (fastforce split: if_splits)+

lemma ArgmaxRow_range: "ArgmaxRow xs = Inr i \<Longrightarrow> 0 \<le> i \<and> i < int (length xs)"
  using argmax_loop_range [of "tl xs" 1 0 "hd xs"] by (cases xs) (fastforce simp: ArgmaxRow_def split: prod.splits if_splits)+

lemma stage_errors:
  "validate_ids v ids = Inl err \<Longrightarrow> err = Status kInvalidArgument"
  "ApplyPenalties env xs ps gs r p f = Inl err \<Longrightarrow> err = Status kInvalidArgument"
  "ArgmaxRow xs = Inl err \<Longrightarrow> \<exists>c. err = Status c"
  "CheckFinite xs = Inl err \<Longrightarrow> err = Status kInternal"
proof -
  show v: "validate_ids v ids = Inl err \<Longrightarrow> err = Status kInvalidArgument" for v ids err
    by (simp add: validate_ids_def split: if_splits)
  show "ApplyPenalties env xs ps gs r p f = Inl err \<Longrightarrow> err = Status kInvalidArgument"
    by (auto simp: ApplyPenalties_def Let_def bind_ok_def dest: v split: if_splits sum.splits)
  show "ArgmaxRow xs = Inl err \<Longrightarrow> \<exists>c. err = Status c" by (auto simp: ArgmaxRow_def split: if_splits prod.splits)
  have "check_finite_loop xs b = Inl err \<Longrightarrow> err = Status kInternal" for b
    by (induction xs arbitrary: b) (auto split: if_splits)
  then show "CheckFinite xs = Inl err \<Longrightarrow> err = Status kInternal" by (simp add: CheckFinite_def)
qed

lemma ExtractLogprobs_in_range: "0 \<le> t \<Longrightarrow> t < int (length lp) \<Longrightarrow> \<exists>r. ExtractLogprobs lp t n = Inr r"
  by (simp add: ExtractLogprobs_def Let_def)

lemma sample_safe:
  assumes "params_safe (smp_params smp)" and "SampleWithLogprobs env smp xs cx = Inl err"
  shows "\<exists>c. err = Status c"
proof (cases "float_eq (temperature (smp_params smp)) (Finite 0)")
  case True
  let ?p = "smp_params smp"
  have g: "SampleGreedy env xs cx ?p lp = Inl err \<Longrightarrow> \<exists>c. err = Status c" for lp
  proof (cases "\<not> PenaltiesActive ?p \<and> \<not> lp \<or> xs = []")
    case True
    then show "SampleGreedy env xs cx ?p lp = Inl err \<Longrightarrow> \<exists>c. err = Status c"
      by (auto simp: SampleGreedy_def Let_def bind_ok_def dest: stage_errors split: sum.splits if_splits)
  next
    case False
    assume a: "SampleGreedy env xs cx ?p lp = Inl err"
    let ?pen = "if PenaltiesActive ?p then ApplyPenalties env xs (sx_prompt_ids cx) (sx_generated_ids cx)
      (repetition_penalty ?p) (presence_penalty ?p) (frequency_penalty ?p) else Inr xs"
    show "\<exists>c. err = Status c"
    proof (cases ?pen)
      case (Inl e)
      then show ?thesis using a False by (auto simp: SampleGreedy_def Let_def dest: stage_errors split: if_splits)
    next
      case (Inr row)
      show ?thesis
      proof (cases "ArgmaxRow row")
        case (Inl e)
        then show ?thesis using a False Inr by (auto simp: SampleGreedy_def Let_def dest: stage_errors split: if_splits)
      next
        case t: (Inr t)
        have "0 \<le> t" "t < int (length (LogSoftmax env row))" using ArgmaxRow_range [OF t] by (simp_all add: LogSoftmax_def Let_def)
        then obtain r where r: "ExtractLogprobs (LogSoftmax env row) t (logprobs ?p) = Inr r" using ExtractLogprobs_in_range by blast
        show ?thesis
        proof (cases "CheckFinite row")
          case (Inl e)
          then show ?thesis using a False Inr t stage_errors(4) [OF Inl] by (auto simp: SampleGreedy_def Let_def split: if_splits)
        next
          case ok: (Inr u)
          then show ?thesis using a False Inr t r by (auto simp: SampleGreedy_def Let_def split: if_splits)
        qed
      qed
    qed
  qed
  then show ?thesis using assms(2) True by (auto simp: SampleWithLogprobs_def SampleWithLogprobsImpl_def SampleRow_def)
next
  case False
  then have lp: "logprobs (smp_params smp) = 0" using assms(1) by (simp add: params_safe_def)
  show ?thesis using assms(2) False unfolding SampleWithLogprobs_def SampleWithLogprobsImpl_def SampleRow_def
    by (auto simp: SampleStochastic_def scaled_logits_def lp Let_def bind_ok_def dest: stage_errors split: if_splits sum.splits)
qed

section \<open>Blocks and pools\<close>

definition seq_blocks :: "Sequence \<Rightarrow> int list" where
  "seq_blocks s = (case sq_cache s of None \<Rightarrow> [] | Some c \<Rightarrow> tab_blocks (pg_table c))"

type_synonym RequestMap = "int \<Rightarrow> Entry option"

definition live_blocks :: "RequestMap \<Rightarrow> int multiset" where
  "live_blocks m = (\<Sum>i\<in>dom m. mset (seq_blocks (en_seq (the (m i)))))"

text \<open>The pool's blocks in use are exactly \<open>M\<close>, each held once.\<close>

definition pool_holds :: "'f BlockPool \<Rightarrow> int multiset \<Rightarrow> bool" where
  "pool_holds p M \<longleftrightarrow> slabs_wf p \<and> (\<exists>bl. mset bl = M \<and> owned p bl)"

lemma pool_holds_owned: "pool_holds p (mset bl) \<longleftrightarrow> slabs_wf p \<and> owned p bl"
proof
  assume "pool_holds p (mset bl)"
  then obtain bl' where "slabs_wf p" "mset bl' = mset bl" "owned p bl'" by (auto simp: pool_holds_def)
  then show "slabs_wf p \<and> owned p bl" using owned_perm [of p bl' bl] by simp
qed (auto simp: pool_holds_def)

lemma same_pool_refl [simp]: "same_pool p p"
  by (simp add: same_pool_def)

lemma same_pool_trans: "same_pool p q \<Longrightarrow> same_pool q r \<Longrightarrow> same_pool p r"
  by (simp add: same_pool_def)

lemma data_same_pool: "pool_data p' = pool_data p \<Longrightarrow> same_pool p p'"
  by (simp add: same_pool_def pool_data_def)

lemma pool_holds_free:
  assumes "pool_holds p M"
  shows "free_blocks p = pool_num_blocks p - int (size M)" and "0 \<le> free_blocks p" and "0 < pool_block_size p" and "1 \<le> pool_num_blocks p"
proof -
  obtain bl where bl: "mset bl = M" "owned p bl" "slabs_wf p" using assms by (auto simp: pool_holds_def)
  note inv = ownedD(1) [OF bl(2)]
  show "free_blocks p = pool_num_blocks p - int (size M)"
    using owned_used [OF bl(2)] bl(1) by (auto simp: free_blocks_def)
  show "0 \<le> free_blocks p" using free_blocks_eq [OF inv] by simp
  show "0 < pool_block_size p" using pool_invD(1) [OF inv] .
  show "1 \<le> pool_num_blocks p" using bl(3) by (simp add: slabs_wf_def)
qed

lemma ReleaseCache_ok:
  assumes "pool_holds p (mset (seq_blocks s) + M)"
  obtains p' where "ReleaseCache p s = Inr (p', s\<lparr>sq_cache := None, sq_num_computed_tokens := 0\<rparr>)" and "pool_holds p' M" and "same_pool p p'"
proof (cases "sq_cache s")
  case None
  then have "ReleaseCache p s = Inr (p, s\<lparr>sq_cache := None, sq_num_computed_tokens := 0\<rparr>)" "pool_holds p M"
    using assms by (simp_all add: ReleaseCache_def seq_blocks_def)
  then show thesis using that same_pool_refl by blast
next
  case (Some c)
  obtain others where o: "mset others = M" by (metis ex_mset)
  then have "pool_holds p (mset (tab_blocks (pg_table c) @ others))" using assms Some by (simp add: seq_blocks_def)
  then have own: "owned p (tab_blocks (pg_table c) @ others)" and sw: "slabs_wf p" unfolding pool_holds_owned by blast+
  obtain p' where p': "FreeAll p (pg_table c) = Inr (p', \<lparr>tab_blocks = [], tab_num_tokens = 0\<rparr>)" "owned p' others" "pool_data p' = pool_data p"
    by (rule FreeAll_ok [OF own]) (rule that)
  have "slabs_wf p'" using slabs_wf_data [OF p'(3)] sw by simp
  then have "pool_holds p' (mset others)" using p'(2) by (simp only: pool_holds_owned simp_thms)
  then have "pool_holds p' M" by (simp only: o)
  moreover have "ReleaseCache p s = Inr (p', s\<lparr>sq_cache := None, sq_num_computed_tokens := 0\<rparr>)"
    using p'(1) Some by (simp add: ReleaseCache_def Paged_destroy_def)
  ultimately show thesis using that data_same_pool [OF p'(3)] by blast
qed

lemma truncate_holds:
  assumes "pool_holds p (mset (tab_blocks (pg_table c)) + M)" and "table_wf (pool_block_size p) (pg_table c)"
    and "0 \<le> n" and "n \<le> Paged_length c"
  obtains p' c' where "Paged_truncate p c n = Inr (p', c')" and "pool_holds p' (mset (tab_blocks (pg_table c')) + M)" and "same_pool p p'"
    and "idle_cache (pool_block_size p) c'" and "Paged_length c' = n"
proof -
  obtain others where o: "mset others = M" by (metis ex_mset)
  then have "pool_holds p (mset (tab_blocks (pg_table c) @ others))" using assms(1) by simp
  then have own: "owned p (tab_blocks (pg_table c) @ others)" and sw: "slabs_wf p" unfolding pool_holds_owned by blast+
  let ?t = "\<lparr>tab_blocks = take (nat (ceil_div n (pool_block_size p))) (tab_blocks (pg_table c)), tab_num_tokens = n\<rparr>"
  let ?c = "c\<lparr>pg_table := ?t, pg_pending_slots := [], pg_next_layer := 0\<rparr>"
  obtain p' where p': "Truncate p (pg_table c) n = Inr (p', ?t)" "owned p' (tab_blocks ?t @ others)"
    "table_wf (pool_block_size p) ?t" "pool_data p' = pool_data p"
    using Truncate_ok [OF own assms(2,3)] assms(4) by (auto simp: Paged_length_def)
  have "pool_holds p' (mset (tab_blocks ?t @ others))" using p'(2,4) sw slabs_wf_data [OF p'(4)] by (simp only: pool_holds_owned)
  then show thesis
    using that [of p' ?c] p' data_same_pool [OF p'(4)] o by (simp add: Paged_truncate_def idle_cache_def Paged_length_def)
qed

lemma live_blocks_split:
  assumes "finite (dom m)" and "m i = Some en"
  shows "live_blocks m = mset (seq_blocks (en_seq en)) + live_blocks (m(i := None))"
proof -
  have "live_blocks m = mset (seq_blocks (en_seq (the (m i)))) + (\<Sum>j\<in>dom m - {i}. mset (seq_blocks (en_seq (the (m j)))))"
    unfolding live_blocks_def using assms by (intro sum.remove) auto
  also have "(\<Sum>j\<in>dom m - {i}. mset (seq_blocks (en_seq (the (m j))))) = live_blocks (m(i := None))"
    unfolding live_blocks_def by (intro sum.cong) auto
  finally show ?thesis using assms(2) by simp
qed

lemma live_blocks_update:
  assumes "finite (dom m)"
  shows "live_blocks (m(i \<mapsto> en)) = mset (seq_blocks (en_seq en)) + live_blocks (m(i := None))"
  using live_blocks_split [of "m(i \<mapsto> en)" i en] assms by simp

text \<open>The blocks of the members of a pass, and the others'.\<close>

lemma live_blocks_members:
  assumes "finite (dom m)" and "distinct is" and "\<forall>i\<in>set is. \<exists>en c. m i = Some en \<and> sq_cache (en_seq en) = Some c \<and> cs i = c"
  shows "live_blocks m = mset (blocks_of (map cs is)) + live_blocks (m |` (- set is))"
  using assms(2,3)
proof (induction "is")
  case Nil
  have "m |` UNIV = m" by (simp add: restrict_map_def fun_eq_iff)
  then show ?case by (simp add: blocks_of_def)
next
  case (Cons i "is")
  then obtain en where en: "m i = Some en" "sq_cache (en_seq en) = Some (cs i)" "i \<notin> set is" by auto
  let ?r = "m |` (- set is)"
  have "live_blocks ?r = mset (seq_blocks (en_seq en)) + live_blocks (?r(i := None))"
    using en by (intro live_blocks_split finite_subset [OF _ assms(1)]) (auto simp: restrict_map_def split: if_splits)
  moreover have "?r(i := None) = m |` (- set (i # is))" by (auto simp: restrict_map_def fun_eq_iff)
  ultimately show ?case using Cons.IH Cons.prems en by (simp add: blocks_of_def seq_blocks_def)
qed

section \<open>The invariant\<close>

text \<open>\<open>Ready prefill\<close>: the cache holds what the pass expects, nothing for a prefill, all but the last token for
  a decode. \<open>Fed\<close>: it holds every token. \<open>Dirty prefill\<close>: at least what the pass found.\<close>

datatype phase = Ready bool | Fed | Dirty bool

definition seq_len :: "Sequence \<Rightarrow> int" where
  "seq_len s = int (length (rq_prompt_ids (sq_request s))) + num_generated s"

definition ready_len :: "bool \<Rightarrow> Sequence \<Rightarrow> int" where
  "ready_len prefill s = (if prefill then 0 else seq_len s - 1)"

fun phase_ok :: "phase \<Rightarrow> int \<Rightarrow> Sequence \<Rightarrow> PagedKvCache \<Rightarrow> bool" where
  "phase_ok (Ready prefill) bs s c \<longleftrightarrow> idle_cache bs c \<and> Paged_length c = ready_len prefill s \<and> (prefill \<or> sq_generated_ids s \<noteq> [])"
| "phase_ok Fed bs s c \<longleftrightarrow> idle_cache bs c \<and> Paged_length c = seq_len s"
| "phase_ok (Dirty prefill) bs s c \<longleftrightarrow> table_wf bs (pg_table c) \<and> ready_len prefill s \<le> Paged_length c \<and> (prefill \<or> sq_generated_ids s \<noteq> [])"

definition request_wf :: "int \<Rightarrow> int \<Rightarrow> Request \<Rightarrow> bool" where
  "request_wf budget capacity rq \<longleftrightarrow>
     rq_prompt_ids rq \<noteq> [] \<and> params_safe (rq_params rq) \<and> ValidateSamplingParams (rq_params rq) = Inr () \<and>
     int (length (rq_prompt_ids rq)) + max_tokens (rq_params rq) - 1 \<le> budget \<and>
     int (length (rq_prompt_ids rq)) + max_tokens (rq_params rq) - 1 \<le> capacity"

definition queued :: "SeqState \<Rightarrow> bool" where
  "queued st \<longleftrightarrow> st = kWaiting \<or> st = kPreempted"

definition seq_inv :: "int \<Rightarrow> int \<Rightarrow> int \<Rightarrow> phase \<Rightarrow> Sequence \<Rightarrow> bool" where
  "seq_inv bs budget capacity ph s \<longleftrightarrow>
     request_wf budget capacity (sq_request s) \<and> smp_params (sq_sampler s) = rq_params (sq_request s) \<and>
     (\<not> is_terminal s \<longrightarrow> num_generated s < max_tokens (rq_params (sq_request s)) \<and>
        sc_max_tokens (sq_stop s) = max_tokens (rq_params (sq_request s))) \<and>
     (sq_state s = kWaiting \<longrightarrow> sq_cache s = Some PagedKvCache_ctor \<and> sq_generated_ids s = []) \<and>
     (sq_state s = kPreempted \<longrightarrow> sq_cache s = None) \<and>
     (sq_state s = kRunning \<longrightarrow> (\<exists>c. sq_cache s = Some c \<and> phase_ok ph bs s c))"

definition open_channel :: "(int \<Rightarrow> OutputChannel option) \<Rightarrow> int \<Rightarrow> bool" where
  "open_channel ch i \<longleftrightarrow> (\<exists>c. ch i = Some c \<and> channel_ok c \<and> \<not> oc_closed c)"

definition request_map :: "('f, 'm) Engine \<Rightarrow> RequestMap" where
  "request_map e = map_of (eg_requests e)"

definition pending :: "('f, 'm) Engine \<Rightarrow> Entry list" where
  "pending e = List.map_filter (\<lambda>c. case c of SubmitCmd en \<Rightarrow> Some en | _ \<Rightarrow> None) (eg_commands e)"

definition seq_ok :: "('f, 'm) Engine \<Rightarrow> phase \<Rightarrow> Sequence \<Rightarrow> bool" where
  "seq_ok e ph s \<longleftrightarrow>
     seq_inv (pool_block_size (eg_pool e)) (ec_max_num_batched_tokens (eg_config e))
       (pool_num_blocks (eg_pool e) * pool_block_size (eg_pool e)) ph s"

definition live_ok :: "(int \<Rightarrow> phase) \<Rightarrow> ('f, 'm) Engine \<Rightarrow> int \<Rightarrow> Entry \<Rightarrow> bool" where
  "live_ok ph e i en \<longleftrightarrow>
     entry_id en = i \<and> seq_ok e (ph i) (en_seq en) \<and> (i \<in> set (eg_waiting e) \<longleftrightarrow> queued (sq_state (en_seq en))) \<and>
     open_channel (eg_channels e) i"

definition pending_entry_ok :: "('f, 'm) Engine \<Rightarrow> Entry \<Rightarrow> bool" where
  "pending_entry_ok e en \<longleftrightarrow>
     seq_ok e (Ready True) (en_seq en) \<and> sq_state (en_seq en) = kWaiting \<and> open_channel (eg_channels e) (entry_id en) \<and>
     entry_id en \<notin> dom (request_map e)"

text \<open>\<open>R\<close> holds the requests whose channel is closed and that are about to be erased.\<close>

definition engine_wf :: "('f, 'm) EngineEnv \<Rightarrow> (int \<Rightarrow> phase) \<Rightarrow> int set \<Rightarrow> ('f, 'm) Engine \<Rightarrow> bool" where
  "engine_wf env ph R e \<longleftrightarrow>
     0 < ec_max_num_seqs (eg_config e) \<and> 0 < ec_max_num_batched_tokens (eg_config e) \<and>
     ec_max_num_batched_tokens (eg_config e) \<le> INT32_MAX \<and>
     pool_geom (eg_pool e) = mi_cache_geometry (ev_model env) \<and>
     pool_holds (eg_pool e) (live_blocks (request_map e)) \<and>
     distinct (map fst (eg_requests e)) \<and>
     distinct (eg_waiting e @ eg_running e) \<and> set (eg_waiting e @ eg_running e) = dom (request_map e) \<and>
     (\<forall>i en. request_map e i = Some en \<longrightarrow> i \<notin> R \<longrightarrow> live_ok ph e i en) \<and>
     distinct (map entry_id (pending e)) \<and> (\<forall>en\<in>set (pending e). pending_entry_ok e en) \<and>
     (\<forall>i. eg_channels e i \<noteq> None \<longleftrightarrow> 1 \<le> i \<and> i < eg_next_id e) \<and> 1 \<le> eg_next_id e \<and>
     (\<forall>i c. eg_channels e i = Some c \<longrightarrow> channel_ok c \<and>
        (oc_closed c \<or> i \<in> dom (request_map e) - R \<or> i \<in> entry_id ` set (pending e)))"

text \<open>Tokens that live sequences may still produce.\<close>

definition seq_todo :: "Sequence \<Rightarrow> nat" where
  "seq_todo s = (if is_terminal s then 0 else nat (max_tokens (rq_params (sq_request s)) - num_generated s))"

definition todo :: "RequestMap \<Rightarrow> nat" where
  "todo m = (\<Sum>i\<in>dom m. seq_todo (en_seq (the (m i))))"

lemma todo_split:
  assumes "finite (dom m)" and "m i = Some en"
  shows "todo m = seq_todo (en_seq en) + todo (m(i := None))"
proof -
  have "todo m = seq_todo (en_seq (the (m i))) + (\<Sum>j\<in>dom m - {i}. seq_todo (en_seq (the (m j))))"
    unfolding todo_def using assms by (intro sum.remove) auto
  also have "(\<Sum>j\<in>dom m - {i}. seq_todo (en_seq (the (m j)))) = todo (m(i := None))"
    unfolding todo_def by (intro sum.cong) auto
  finally show ?thesis using assms(2) by simp
qed

lemma todo_update: "finite (dom m) \<Longrightarrow> todo (m(i \<mapsto> en)) = seq_todo (en_seq en) + todo (m(i := None))"
  using todo_split [of "m(i \<mapsto> en)" i en] by simp

lemma wfD:
  assumes "engine_wf env ph R e"
  shows "pool_holds (eg_pool e) (live_blocks (request_map e))" "distinct (map fst (eg_requests e))"
    "distinct (eg_waiting e @ eg_running e)" "set (eg_waiting e @ eg_running e) = dom (request_map e)"
    "request_map e i = Some en \<Longrightarrow> i \<notin> R \<Longrightarrow> live_ok ph e i en"
    "pool_geom (eg_pool e) = mi_cache_geometry (ev_model env)"
    "0 < ec_max_num_seqs (eg_config e)" "0 < ec_max_num_batched_tokens (eg_config e)" "ec_max_num_batched_tokens (eg_config e) \<le> INT32_MAX"
    "distinct (map entry_id (pending e))" "en \<in> set (pending e) \<Longrightarrow> pending_entry_ok e en"
    "eg_channels e i = Some c \<Longrightarrow> channel_ok c \<and> (oc_closed c \<or> i \<in> dom (request_map e) - R \<or> i \<in> entry_id ` set (pending e))"
    "eg_channels e i \<noteq> None \<longleftrightarrow> 1 \<le> i \<and> i < eg_next_id e" "1 \<le> eg_next_id e"
  using assms unfolding engine_wf_def by blast+

lemma finite_requests [simp]: "finite (dom (request_map e))"
  by (simp add: request_map_def finite_dom_map_of)

lemma put_seq_map [simp]: "request_map (put_seq e i en s) = (request_map e)(i \<mapsto> en\<lparr>en_seq := s\<rparr>)"
  by (simp add: request_map_def)

lemma put_seq_keys: "distinct (map fst (eg_requests e)) \<Longrightarrow> distinct (map fst (eg_requests (put_seq e i en s)))"
  by (simp add: put_seq_def put_request_def distinct_update)

lemma at_request_ok: "request_map e i = Some en \<Longrightarrow> at_request e i = Inr en"
  by (simp add: at_request_def request_map_def)

text \<open>One sequence changes: the invariant of the others carries over.\<close>

lemma wf_update:
  assumes wf: "engine_wf env ph R e" and i: "request_map e i = Some en" "i \<notin> R"
    and map: "request_map e' = (request_map e)(i \<mapsto> en\<lparr>en_seq := s'\<rparr>)" "distinct (map fst (eg_requests e'))"
    and same: "eg_config e' = eg_config e" "eg_commands e' = eg_commands e" "eg_next_id e' = eg_next_id e"
    and rq: "sq_request s' = sq_request (en_seq en)" and s': "seq_ok e ph' s'"
    and pool: "same_pool (eg_pool e) (eg_pool e')"
      "pool_holds (eg_pool e') (mset (seq_blocks s') + live_blocks ((request_map e)(i := None)))"
    and lists: "distinct (eg_waiting e' @ eg_running e')" "set (eg_waiting e' @ eg_running e') = set (eg_waiting e @ eg_running e)"
      "\<And>j. j \<noteq> i \<Longrightarrow> j \<in> set (eg_waiting e') \<longleftrightarrow> j \<in> set (eg_waiting e)" "i \<in> set (eg_waiting e') \<longleftrightarrow> queued (sq_state s')"
    and ch: "\<And>j. j \<noteq> i \<Longrightarrow> eg_channels e' j = eg_channels e j" "open_channel (eg_channels e') i"
  shows "engine_wf env (ph(i := ph')) R e'"
proof -
  have d: "dom (request_map e') = dom (request_map e)" using i map by auto
  have so: "seq_ok e' ph s \<longleftrightarrow> seq_ok e ph s" for ph s using pool(1) same(1) by (simp add: seq_ok_def same_pool_def)
  have pend: "pending e' = pending e" by (simp add: pending_def same(2))
  have oc: "open_channel (eg_channels e') j \<longleftrightarrow> open_channel (eg_channels e) j" if "j \<noteq> i" for j
    using ch(1) [OF that] by (simp add: open_channel_def)
  have live: "live_ok (ph(i := ph')) e' j en'" if j: "request_map e' j = Some en'" "j \<notin> R" for j en'
  proof (cases "j = i")
    case True
    then have "en' = en\<lparr>en_seq := s'\<rparr>" using j(1) map(1) by simp
    then show ?thesis using wfD(5) [OF wf i] s' lists(4) ch(2) rq so True by (simp add: live_ok_def entry_id_def)
  next
    case False
    then have "request_map e j = Some en'" using j(1) map(1) by simp
    from wfD(5) [OF wf this j(2)] show ?thesis using False lists(3) [OF False] oc [OF False] so by (simp add: live_ok_def)
  qed
  have pe: "pending_entry_ok e' en'" if "en' \<in> set (pending e)" for en'
  proof -
    have p: "pending_entry_ok e en'" using wfD(11) [OF wf that] .
    then have "entry_id en' \<noteq> i" using i(1) by (auto simp: pending_entry_ok_def)
    then show ?thesis using p oc so d by (simp add: pending_entry_ok_def)
  qed
  have chs: "channel_ok c \<and> (oc_closed c \<or> j \<in> dom (request_map e') - R \<or> j \<in> entry_id ` set (pending e'))"
    if "eg_channels e' j = Some c" for j c
  proof (cases "j = i")
    case True
    then show ?thesis using that ch(2) i d by (auto simp: open_channel_def)
  next
    case False
    then show ?thesis using that ch(1) wfD(12) [OF wf] d pend by auto
  qed
  have some: "eg_channels e' j \<noteq> None \<longleftrightarrow> 1 \<le> j \<and> j < eg_next_id e'" for j
  proof (cases "j = i")
    case True
    have "open_channel (eg_channels e) i" using wfD(5) [OF wf i] by (simp add: live_ok_def)
    then show ?thesis using True ch(2) wfD(13) [OF wf, of i] same(3) by (auto simp: open_channel_def)
  next
    case False
    then show ?thesis using ch(1) wfD(13) [OF wf, of j] same(3) by simp
  qed
  have "pool_holds (eg_pool e') (live_blocks (request_map e'))"
    using pool(2) live_blocks_update [OF finite_requests, of e i] by (simp add: map(1))
  then show ?thesis
    unfolding engine_wf_def same pend using wf pool(1) map(2) lists(1,2) d live pe chs some wfD(4) [OF wf]
    by (auto simp: engine_wf_def same_pool_def same pend)
qed

section \<open>Operations on one sequence\<close>

text \<open>The configuration, the commands and the ids are never touched by the step loop's inner operations.\<close>

definition same_frame :: "('f, 'm) Engine \<Rightarrow> ('f, 'm) Engine \<Rightarrow> bool" where
  "same_frame e e' \<longleftrightarrow> eg_config e' = eg_config e \<and> eg_commands e' = eg_commands e \<and> eg_next_id e' = eg_next_id e \<and>
     same_pool (eg_pool e) (eg_pool e') \<and> dom (request_map e') = dom (request_map e)"

lemma same_frame_refl [simp]: "same_frame e e"
  by (simp add: same_frame_def)

lemma same_frame_trans: "same_frame e f \<Longrightarrow> same_frame f g \<Longrightarrow> same_frame e g"
  by (auto simp: same_frame_def intro: same_pool_trans)

lemma wf_holds_split:
  assumes "engine_wf env ph R e" and "request_map e i = Some en"
  shows "pool_holds (eg_pool e) (mset (seq_blocks (en_seq en)) + live_blocks ((request_map e)(i := None)))"
  using wfD(1) [OF assms(1)] live_blocks_split [OF finite_requests assms(2)] by simp

lemma todo_at:
  assumes "request_map e i = Some en" and "request_map e' = (request_map e)(i \<mapsto> en')"
  shows "todo (request_map e') + seq_todo (en_seq en) = todo (request_map e) + seq_todo (en_seq en')"
  using todo_split [OF finite_requests assms(1)] todo_update [OF finite_requests, of e i en'] assms(2) by simp

lemma running_member:
  assumes wf: "engine_wf env ph R e" and i: "request_map e i = Some en" "i \<notin> R" and st: "\<not> queued (sq_state (en_seq en))"
  shows "i \<in> set (eg_running e)" and "i \<notin> set (eg_waiting e)"
proof -
  have "i \<in> set (eg_waiting e @ eg_running e)" using wfD(4) [OF wf] i(1) by auto
  moreover show "i \<notin> set (eg_waiting e)" using wfD(5) [OF wf i] st by (simp add: live_ok_def)
  ultimately show "i \<in> set (eg_running e)" by simp
qed

lemma PreemptSequence_ok:
  assumes wf: "engine_wf env ph R e" and i: "request_map e i = Some en" "i \<notin> R" and st: "sq_state (en_seq en) = kRunning"
  obtains e' s' where "PreemptSequence i e = Inr e'" and "engine_wf env ph R e'" and "same_frame e e'"
    and "request_map e' = (request_map e)(i \<mapsto> en\<lparr>en_seq := s'\<rparr>)" and "sq_state s' = kPreempted"
    and "eg_waiting e' = i # eg_waiting e" and "eg_running e' = removeAll i (eg_running e)"
    and "todo (request_map e') = todo (request_map e)" and "eg_channels e' = eg_channels e"
proof -
  let ?s = "en_seq en"
  let ?s' = "?s\<lparr>sq_cache := None, sq_num_computed_tokens := 0, sq_state := kPreempted\<rparr>"
  obtain p where p: "ReleaseCache (eg_pool e) ?s = Inr (p, ?s\<lparr>sq_cache := None, sq_num_computed_tokens := 0\<rparr>)"
    "pool_holds p (live_blocks ((request_map e)(i := None)))" "same_pool (eg_pool e) p"
    using ReleaseCache_ok [OF wf_holds_split [OF wf i(1)]] .
  let ?e = "(put_seq e i en ?s')\<lparr>eg_pool := p, eg_running := removeAll i (eg_running e),
          eg_waiting := i # eg_waiting e, eg_preemption_count := eg_preemption_count e + 1\<rparr>"
  have pre: "PreemptSequence i e = Inr ?e"
    using at_request_ok [OF i(1)] p(1) st by (simp add: PreemptSequence_def Transition_def IsLegalTransition_def)
  have m: "request_map ?e = (request_map e)(i \<mapsto> en\<lparr>en_seq := ?s'\<rparr>)" by (simp add: request_map_def)
  have run: "i \<in> set (eg_running e)" "i \<notin> set (eg_waiting e)" using running_member [OF wf i] st by (simp_all add: queued_def)
  have so: "seq_ok e (ph i) ?s" using wfD(5) [OF wf i] by (simp add: live_ok_def)
  have "engine_wf env (ph(i := ph i)) R ?e"
  proof (rule wf_update [OF wf i m])
    show "distinct (map fst (eg_requests ?e))" using put_seq_keys [OF wfD(2) [OF wf]] by simp
    show "seq_ok e (ph i) ?s'" using so st by (simp add: seq_ok_def seq_inv_def is_terminal_def num_generated_def)
    show "pool_holds (eg_pool ?e) (mset (seq_blocks ?s') + live_blocks ((request_map e)(i := None)))" using p(2) by (simp add: seq_blocks_def)
    show "distinct (eg_waiting ?e @ eg_running ?e)" using wfD(3) [OF wf] run by (auto simp: distinct_removeAll)
    show "set (eg_waiting ?e @ eg_running ?e) = set (eg_waiting e @ eg_running e)" using run by auto
    show "open_channel (eg_channels ?e) i" using wfD(5) [OF wf i] by (simp add: live_ok_def)
  qed (use p(3) in \<open>simp_all add: queued_def\<close>)
  moreover have "dom (request_map ?e) = dom (request_map e)" using m i(1) by auto
  moreover have "todo (request_map ?e) = todo (request_map e)"
    using todo_at [OF i(1) m] st by (simp add: seq_todo_def is_terminal_def num_generated_def)
  ultimately show thesis using that [OF pre _ _ m] p(3) by (simp add: same_frame_def)
qed

lemma EnsureCache_ok:
  assumes "seq_ok e ph s" and "queued (sq_state s)" and "0 < pool_block_size (eg_pool e)"
  shows "seq_ok e (Ready True) ((EnsureCache s)\<lparr>sq_state := kRunning\<rparr>)" and "sq_request (EnsureCache s) = sq_request s"
    and "mset (seq_blocks (EnsureCache s)) = mset (seq_blocks s)" and "sq_state (EnsureCache s) = sq_state s"
    and "sq_generated_ids (EnsureCache s) = sq_generated_ids s"
proof -
  have ctor: "idle_cache (pool_block_size (eg_pool e)) PagedKvCache_ctor" "Paged_length PagedKvCache_ctor = 0"
    using assms(3) by (simp_all add: idle_cache_def PagedKvCache_ctor_def BlockTable_ctor_def table_wf_def Paged_length_def)
  have c: "sq_cache (EnsureCache s) = Some PagedKvCache_ctor"
    using assms(1,2) by (auto simp: EnsureCache_def seq_ok_def seq_inv_def queued_def split: option.split)
  have o: "sq_request (EnsureCache s) = sq_request s" "sq_sampler (EnsureCache s) = sq_sampler s" "sq_stop (EnsureCache s) = sq_stop s"
    "sq_generated_ids (EnsureCache s) = sq_generated_ids s" "sq_state (EnsureCache s) = sq_state s"
    by (simp_all add: EnsureCache_def split: option.split)
  show "seq_ok e (Ready True) ((EnsureCache s)\<lparr>sq_state := kRunning\<rparr>)"
    using assms(1,2) c o ctor by (auto simp: seq_ok_def seq_inv_def queued_def is_terminal_def num_generated_def ready_len_def)
  show "sq_request (EnsureCache s) = sq_request s" "sq_state (EnsureCache s) = sq_state s" "sq_generated_ids (EnsureCache s) = sq_generated_ids s"
    by (rule o)+
  show "mset (seq_blocks (EnsureCache s)) = mset (seq_blocks s)"
    using assms(1,2) by (auto simp: EnsureCache_def seq_blocks_def PagedKvCache_ctor_def BlockTable_ctor_def split: option.split)
qed

lemma admit_sequence_ok:
  assumes wf: "engine_wf env ph R e" and i: "request_map e i = Some en" "i \<notin> R" and q: "queued (sq_state (en_seq en))"
  obtains e' s' where "admit_sequence i e = Inr e'" and "engine_wf env (ph(i := Ready True)) R e'" and "same_frame e e'"
    and "request_map e' = (request_map e)(i \<mapsto> en\<lparr>en_seq := s'\<rparr>)" and "sq_state s' = kRunning"
    and "eg_waiting e' = removeAll i (eg_waiting e)" and "eg_running e' = eg_running e @ [i]"
    and "todo (request_map e') = todo (request_map e)" and "eg_channels e' = eg_channels e" and "seq_len s' = seq_len (en_seq en)"
proof -
  let ?s = "en_seq en"
  let ?s' = "(EnsureCache ?s)\<lparr>sq_state := kRunning\<rparr>"
  have so: "seq_ok e (ph i) ?s" and ch: "open_channel (eg_channels e) i" and w: "i \<in> set (eg_waiting e)"
    using wfD(5) [OF wf i] q by (simp_all add: live_ok_def)
  note ec = EnsureCache_ok [OF so q pool_holds_free(3) [OF wfD(1) [OF wf]]]
  let ?e = "(put_seq e i en ?s')\<lparr>eg_waiting := removeAll i (eg_waiting e), eg_running := eg_running e @ [i]\<rparr>"
  have adm: "admit_sequence i e = Inr ?e"
    using at_request_ok [OF i(1)] q ec(4) by (auto simp: admit_sequence_def Transition_def IsLegalTransition_def queued_def)
  have m: "request_map ?e = (request_map e)(i \<mapsto> en\<lparr>en_seq := ?s'\<rparr>)" by (simp add: request_map_def)
  have "engine_wf env (ph(i := Ready True)) R ?e"
  proof (rule wf_update [OF wf i m])
    show "distinct (map fst (eg_requests ?e))" using put_seq_keys [OF wfD(2) [OF wf]] by simp
    show "seq_ok e (Ready True) ?s'" by (rule ec(1))
    have "seq_blocks ?s' = seq_blocks (EnsureCache ?s)" by (simp add: seq_blocks_def)
    then show "pool_holds (eg_pool ?e) (mset (seq_blocks ?s') + live_blocks ((request_map e)(i := None)))"
      using wf_holds_split [OF wf i(1)] ec(3) by simp
    show "distinct (eg_waiting ?e @ eg_running ?e)" using wfD(3) [OF wf] w by (auto simp: distinct_removeAll)
    show "set (eg_waiting ?e @ eg_running ?e) = set (eg_waiting e @ eg_running e)" using w by auto
    show "open_channel (eg_channels ?e) i" using ch by simp
  qed (use ec(2) in \<open>simp_all add: queued_def\<close>)
  moreover have "dom (request_map ?e) = dom (request_map e)" using m i(1) by auto
  moreover have "todo (request_map ?e) = todo (request_map e)"
    using todo_at [OF i(1) m] q ec by (auto simp: seq_todo_def is_terminal_def num_generated_def queued_def)
  moreover have "seq_len ?s' = seq_len ?s" using ec by (simp add: seq_len_def num_generated_def)
  ultimately show thesis using that [OF adm _ _ m] by (simp add: same_frame_def)
qed

end
