(* ===== verification/Engine_Pass.thy ===== *)
theory Engine_Pass
  imports Engine_Inv
begin

text \<open>
  The passes of a step keep the invariant: delivery of a sampled token, the forward of a batch, the
  fallback that runs the members of a failed batch one by one, and the whole of \<open>RunBatchPass\<close>. Every pass
  that has a member uses up some of the tokens that may still be produced.
\<close>

lemma case_unit_id [simp]: "case_unit x u = x"
  by (cases u) (simp only: unit.case)

section \<open>Delivery\<close>

lemma Observe_cases_count:
  assumes "Observe sc t n = (r, sc')"
  shows "sc_max_tokens sc' = sc_max_tokens sc \<and>
    (case r of Inl err \<Rightarrow> \<exists>c. err = Status c | Inr step \<Rightarrow> sr_finished step \<or> n < sc_max_tokens sc)"
  using assms
  by (auto simp: Observe_def observe_text_def push_def Let_def not_le split: option.splits prod.splits if_splits sum.splits)

lemma StopChecker_Finish_max: "StopChecker_Finish sc = (t, sc') \<Longrightarrow> sc_max_tokens sc' = sc_max_tokens sc"
  by (auto simp: StopChecker_Finish_def Let_def split: if_splits prod.splits option.splits)

text \<open>What a member of a pass goes through: only its entry and its channel change, it ends running with one
  token more, or terminal, and the tokens left to produce are fewer.\<close>

definition delivered :: "('f, 'm) Engine \<Rightarrow> int \<Rightarrow> Entry \<Rightarrow> ('f, 'm) Engine \<Rightarrow> bool" where
  "delivered e i en e' \<longleftrightarrow> same_frame e e' \<and> eg_waiting e' = eg_waiting e \<and> eg_running e' = eg_running e \<and>
     (\<exists>s'. request_map e' = (request_map e)(i \<mapsto> en\<lparr>en_seq := s'\<rparr>) \<and> \<not> queued (sq_state s')) \<and>
     todo (request_map e') < todo (request_map e)"

lemma deliver_frame:
  assumes wf: "engine_wf env ph R e" and i: "request_map e i = Some en" "i \<notin> R" and st: "sq_state (en_seq en) = kRunning"
    and s': "seq_ok e ph' s'" "sq_request s' = sq_request (en_seq en)" "seq_blocks s' = seq_blocks (en_seq en)"
      "sq_state s' = kRunning \<or> is_terminal s'" "seq_todo s' < seq_todo (en_seq en)"
    and ch: "\<And>j. j \<noteq> i \<Longrightarrow> ch j = eg_channels e j" "open_channel ch i"
  shows "engine_wf env (ph(i := ph')) R (put_seq (e\<lparr>eg_channels := ch\<rparr>) i en s')"
    and "delivered e i en (put_seq (e\<lparr>eg_channels := ch\<rparr>) i en s')"
proof -
  let ?e = "put_seq (e\<lparr>eg_channels := ch\<rparr>) i en s'"
  have m: "request_map ?e = (request_map e)(i \<mapsto> en\<lparr>en_seq := s'\<rparr>)" by (simp add: request_map_def)
  have q: "\<not> queued (sq_state s')" using s'(4) by (auto simp: queued_def is_terminal_def)
  have run: "i \<in> set (eg_running e)" "i \<notin> set (eg_waiting e)" using running_member [OF wf i] st by (simp_all add: queued_def)
  show "engine_wf env (ph(i := ph')) R ?e"
  proof (rule wf_update [OF wf i m])
    show "distinct (map fst (eg_requests ?e))" by (rule put_seq_keys) (use wfD(2) [OF wf] in simp)
    show "pool_holds (eg_pool ?e) (mset (seq_blocks s') + live_blocks ((request_map e)(i := None)))"
      using wf_holds_split [OF wf i(1)] s'(3) by simp
    show "distinct (eg_waiting ?e @ eg_running ?e)" using wfD(3) [OF wf] by simp
  qed (use s' ch q run in simp_all)
  have "todo (request_map ?e) < todo (request_map e)" using todo_at [OF i(1) m] s'(5) by simp
  moreover have "dom (request_map ?e) = dom (request_map e)" using m i(1) by auto
  ultimately show "delivered e i en ?e" using m q by (auto simp: delivered_def same_frame_def)
qed

lemma put_seq_channels: "put_seq e i en s = put_seq (e\<lparr>eg_channels := eg_channels e\<rparr>) i en s"
  by simp

lemma fail_entry_ok:
  assumes wf: "engine_wf env ph R e" and i: "request_map e i = Some en" "i \<notin> R" and st: "sq_state (en_seq en) = kRunning"
    and s: "sq_state s = kRunning" "sq_request s = sq_request (en_seq en)" "sq_cache s = sq_cache (en_seq en)" "sq_sampler s = sq_sampler (en_seq en)"
  obtains e' where "fail_entry e i en s err = Inr e'" and "engine_wf env (ph(i := ph')) R e'" and "delivered e i en e'"
proof -
  have so: "seq_ok e (ph i) (en_seq en)" and ch: "open_channel (eg_channels e) i" using wfD(5) [OF wf i] by (simp_all add: live_ok_def)
  let ?s = "(set_error s err)\<lparr>sq_state := kFailed\<rparr>"
  have f: "fail_entry e i en s err = Inr (put_seq (e\<lparr>eg_channels := eg_channels e\<rparr>) i en ?s)"
    using s(1) by (simp add: fail_entry_def fail_sequence_def Transition_def IsLegalTransition_def set_error_def)
  have t: "0 < seq_todo (en_seq en)" using so st by (simp add: seq_todo_def seq_ok_def seq_inv_def is_terminal_def)
  have "seq_ok e ph' ?s" using so st s by (simp add: seq_ok_def seq_inv_def is_terminal_def set_error_def)
  note d = deliver_frame [OF wf i st this, of "eg_channels e"]
  show thesis
    by (rule that [OF f]; rule d) (use s t ch in \<open>simp_all add: set_error_def seq_blocks_def is_terminal_def seq_todo_def\<close>)
qed

lemma DeliverSampled_ok:
  assumes wf: "engine_wf env ph R e" and i: "request_map e i = Some en" "i \<notin> R" and st: "sq_state (en_seq en) = kRunning"
    and ph: "ph i = Fed"
  obtains e' where "DeliverSampled e i r = Inr e'" and "engine_wf env (ph(i := Ready False)) R e'" and "delivered e i en e'"
proof -
  let ?s = "en_seq en"
  let ?s1 = "AppendGenerated ?s (smr_token r)"
  have so: "seq_ok e Fed ?s" and ch: "open_channel (eg_channels e) i" using wfD(5) [OF wf i] ph by (simp_all add: live_ok_def)
  obtain c where c: "sq_cache ?s = Some c" "idle_cache (pool_block_size (eg_pool e)) c" "Paged_length c = seq_len ?s"
    using so st by (auto simp: seq_ok_def seq_inv_def)
  have inv: "num_generated ?s < max_tokens (rq_params (sq_request ?s))" "sc_max_tokens (sq_stop ?s) = max_tokens (rq_params (sq_request ?s))"
    using so st by (simp_all add: seq_ok_def seq_inv_def is_terminal_def)
  have s1: "sq_stop ?s1 = sq_stop ?s" by (simp add: AppendGenerated_def)
  obtain res stop where ob: "Observe (sq_stop ?s1) (smr_token r) (num_generated ?s1) = (res, stop)" by (metis surj_pair)
  have oc: "sc_max_tokens stop = max_tokens (rq_params (sq_request ?s))"
    "case res of Inl err \<Rightarrow> \<exists>c. err = Status c | Inr step \<Rightarrow> sr_finished step \<or> num_generated ?s1 < max_tokens (rq_params (sq_request ?s))"
    using Observe_cases_count [OF ob] unfolding s1 inv(2) by blast+
  show thesis
  proof (cases res)
    case (Inl err)
    then obtain code where err: "err = Status code" using oc(2) by auto
    obtain e' where e': "fail_entry e i en (?s1\<lparr>sq_stop := stop\<rparr>) (Status code) = Inr e'" "engine_wf env (ph(i := Ready False)) R e'" "delivered e i en e'"
      by (rule fail_entry_ok [OF wf i st, where s = "?s1\<lparr>sq_stop := stop\<rparr>" and err = "Status code" and ph' = "Ready False"])
        (use st in \<open>simp_all add: AppendGenerated_def\<close>)
    have "DeliverSampled e i r = Inr e'" using at_request_ok [OF i(1)] ob Inl err e'(1) by (simp add: DeliverSampled_def)
    then show thesis using that e' by blast
  next
    case (Inr step)
    obtain rest stop' where fin: "(if sr_finished step then StopChecker_Finish stop else ([], stop)) = (rest, stop')" by (metis surj_pair)
    have sm: "sc_max_tokens stop' = sc_max_tokens stop" using fin by (auto dest: StopChecker_Finish_max split: if_splits)
    let ?s2 = "?s1\<lparr>sq_stop := stop'\<rparr>"
    let ?s3 = "if sr_finished step then set_finish ?s2 (sr_finish_reason step) (sr_trigger step) (sr_matched_stop step) else ?s2"
    let ?s4 = "if sr_finished step then ?s3\<lparr>sq_state := kFinished\<rparr> else ?s3"
    let ?item = "\<lparr>oi_token_id = smr_token r, oi_text_delta = sr_text_delta step @ rest, oi_logprobs = smr_logprobs r\<rparr>"
    obtain cc where cc: "eg_channels e i = Some cc" "channel_ok cc" "\<not> oc_closed cc" using ch by (auto simp: open_channel_def)
    let ?ch = "(eg_channels e)(i \<mapsto> cc\<lparr>oc_queue := oc_queue cc @ [?item]\<rparr>)"
    have tr: "(if sr_finished step then Transition ?s3 kFinished else Inr ?s3) = Inr ?s4"
      using st by (simp add: Transition_def IsLegalTransition_def set_finish_def AppendGenerated_def)
    have run: "DeliverSampled e i r = Inr (put_seq (e\<lparr>eg_channels := ?ch\<rparr>) i en ?s4)"
      using at_request_ok [OF i(1)] ob Inr fin cc tr by (simp add: DeliverSampled_def Let_def push_item_def Push_def)
    have f4: "sq_request ?s4 = sq_request ?s" "sq_cache ?s4 = sq_cache ?s" "sq_sampler ?s4 = sq_sampler ?s" "sq_stop ?s4 = stop'"
      "sq_generated_ids ?s4 = sq_generated_ids ?s @ [smr_token r]" "sq_state ?s4 = (if sr_finished step then kFinished else kRunning)"
      using st by (simp_all add: set_finish_def AppendGenerated_def)
    have ng: "num_generated ?s4 = num_generated ?s + 1" by (simp add: num_generated_def f4(5))
    have ng1: "num_generated ?s1 = num_generated ?s + 1" by (simp add: num_generated_def AppendGenerated_def)
    have len: "seq_len ?s4 = seq_len ?s + 1" by (simp add: seq_len_def ng f4(1))
    have lt: "num_generated ?s + 1 < max_tokens (rq_params (sq_request ?s))" if "\<not> sr_finished step"
      using oc(2) Inr that ng1 by simp
    have "seq_inv (pool_block_size (eg_pool e)) (ec_max_num_batched_tokens (eg_config e))
        (pool_num_blocks (eg_pool e) * pool_block_size (eg_pool e)) (Ready False) ?s4"
      unfolding seq_inv_def is_terminal_def f4 ng
      using so st c oc(1) sm lt len by (auto simp: seq_ok_def seq_inv_def ready_len_def f4(5))
    then have ok: "seq_ok e (Ready False) ?s4" by (simp only: seq_ok_def)
    have td: "seq_todo ?s4 < seq_todo ?s"
      unfolding seq_todo_def is_terminal_def f4 ng using inv st lt by (auto simp: is_terminal_def)
    note d = deliver_frame [OF wf i st ok, of ?ch]
    have bl: "seq_blocks ?s4 = seq_blocks ?s" by (simp only: seq_blocks_def f4)
    have op: "open_channel ?ch i" using cc by (simp add: open_channel_def channel_ok_def)
    have tm: "sq_state ?s4 = kRunning \<or> is_terminal ?s4" unfolding is_terminal_def f4 by simp
    show thesis by (rule that [OF run]; rule d [OF f4(1) bl tm td _ op]) simp_all
  qed
qed

section \<open>The forward\<close>

definition with_cache :: "PagedKvCache \<Rightarrow> Entry \<Rightarrow> Entry" where
  "with_cache c en = en\<lparr>en_seq := (en_seq en)\<lparr>sq_cache := Some c\<rparr>\<rparr>"

text \<open>The request map after the caches of the members \<open>ids\<close> became \<open>cs\<close>.\<close>

definition caches_stored :: "int list \<Rightarrow> PagedKvCache list \<Rightarrow> RequestMap \<Rightarrow> RequestMap" where
  "caches_stored ids cs m = (\<lambda>j. case map_of (zip ids cs) j of None \<Rightarrow> m j | Some c \<Rightarrow> map_option (with_cache c) (m j))"

lemma store_cache_fields [simp]:
  "eg_running (store_cache ic e) = eg_running e" "eg_waiting (store_cache ic e) = eg_waiting e" "eg_pool (store_cache ic e) = eg_pool e"
  "eg_channels (store_cache ic e) = eg_channels e" "eg_config (store_cache ic e) = eg_config e"
  "eg_commands (store_cache ic e) = eg_commands e" "eg_next_id (store_cache ic e) = eg_next_id e"
  by (auto simp: store_cache_def split: prod.split option.split)

lemma store_cache_keys: "distinct (map fst (eg_requests e)) \<Longrightarrow> distinct (map fst (eg_requests (store_cache ic e)))"
  by (auto simp: store_cache_def put_seq_keys split: prod.split option.split)

lemma store_cache_map:
  "request_map (store_cache (i, c) e) = (case request_map e i of None \<Rightarrow> request_map e | Some en \<Rightarrow> (request_map e)(i \<mapsto> with_cache c en))"
  by (simp add: store_cache_def with_cache_def request_map_def split: option.split)

lemma fold_store_cache:
  "eg_waiting (fold store_cache ics e) = eg_waiting e \<and> eg_pool (fold store_cache ics e) = eg_pool e \<and>
   eg_channels (fold store_cache ics e) = eg_channels e \<and> eg_config (fold store_cache ics e) = eg_config e \<and>
   eg_commands (fold store_cache ics e) = eg_commands e \<and> eg_next_id (fold store_cache ics e) = eg_next_id e \<and>
   (distinct (map fst (eg_requests e)) \<longrightarrow> distinct (map fst (eg_requests (fold store_cache ics e))))"
  by (induction ics arbitrary: e) (auto simp: store_cache_keys)

lemma fold_store_cache_map:
  assumes "distinct ids" and "length cs = length ids"
  shows "request_map (fold store_cache (zip ids cs) e) = caches_stored ids cs (request_map e)"
  using assms(2,1)
proof (induction cs ids arbitrary: e rule: list_induct2)
  case Nil
  then show ?case by (simp add: caches_stored_def)
next
  case (Cons c cs i ids)
  have ni: "map_of (zip ids cs) i = None" using Cons.hyps Cons.prems by (simp add: map_of_zip_is_None)
  have "request_map (fold store_cache (zip (i # ids) (c # cs)) e) = caches_stored ids cs (request_map (store_cache (i, c) e))"
    using Cons by simp
  also have "\<dots> = caches_stored (i # ids) (c # cs) (request_map e)"
  proof
    show "caches_stored ids cs (request_map (store_cache (i, c) e)) j = caches_stored (i # ids) (c # cs) (request_map e) j" for j
      using ni by (cases "j = i") (auto simp: caches_stored_def store_cache_map split: option.splits)
  qed
  finally show ?case .
qed

lemma caches_stored_at:
  assumes "distinct ids" and "length cs = length ids" and "b < length ids"
  shows "caches_stored ids cs m (ids ! b) = map_option (with_cache (cs ! b)) (m (ids ! b))"
  using assms by (simp add: caches_stored_def map_of_zip_nth)

lemma caches_stored_other:
  assumes "length cs = length ids" and "j \<notin> set ids"
  shows "caches_stored ids cs m j = m j"
proof -
  have "map_of (zip ids cs) j = None" using map_of_zip_is_None [of ids cs j] assms by simp
  then show ?thesis by (simp add: caches_stored_def)
qed

lemma dom_caches_stored [simp]: "dom (caches_stored ids cs m) = dom m"
  by (auto simp: caches_stored_def split: option.splits)

lemma todo_caches_stored: "todo (caches_stored ids cs m) = todo m"
  unfolding todo_def dom_caches_stored
  by (intro sum.cong) (auto simp: caches_stored_def with_cache_def seq_todo_def is_terminal_def num_generated_def split: option.splits)

lemma wf_caches:
  assumes wf: "engine_wf env ph {} e" and ids: "distinct ids" "length cs = length ids"
    and run: "\<And>b. b < length ids \<Longrightarrow> \<exists>en. request_map e (ids ! b) = Some en \<and> sq_state (en_seq en) = kRunning \<and>
      phase_ok ph' (pool_block_size (eg_pool e)) (en_seq en) (cs ! b)"
    and map: "request_map e' = caches_stored ids cs (request_map e)" "distinct (map fst (eg_requests e'))"
    and same: "eg_config e' = eg_config e" "eg_commands e' = eg_commands e" "eg_next_id e' = eg_next_id e" "eg_channels e' = eg_channels e"
      "eg_waiting e' = eg_waiting e" "eg_running e' = eg_running e"
    and pool: "same_pool (eg_pool e) (eg_pool e')" "pool_holds (eg_pool e') (live_blocks (request_map e'))"
  shows "engine_wf env (\<lambda>j. if j \<in> set ids then ph' else ph j) {} e'"
proof -
  let ?ph = "\<lambda>j. if j \<in> set ids then ph' else ph j"
  have d: "dom (request_map e') = dom (request_map e)" by (simp add: map(1))
  have so: "seq_ok e' ph s \<longleftrightarrow> seq_ok e ph s" for ph s using pool(1) same(1) by (simp add: seq_ok_def same_pool_def)
  have pend: "pending e' = pending e" by (simp add: pending_def same(2))
  have live: "live_ok ?ph e' j en'" if j: "request_map e' j = Some en'" for j en'
  proof (cases "j \<in> set ids")
    case True
    then obtain b where b: "b < length ids" "j = ids ! b" by (metis in_set_conv_nth)
    obtain en where en: "request_map e j = Some en" "sq_state (en_seq en) = kRunning"
      "phase_ok ph' (pool_block_size (eg_pool e)) (en_seq en) (cs ! b)" using run [OF b(1)] b(2) by auto
    have en': "en' = with_cache (cs ! b) en" using j en(1) caches_stored_at [OF ids b(1)] by (simp add: map(1) b(2))
    have pk: "phase_ok ph' bs (s\<lparr>sq_cache := x\<rparr>) c \<longleftrightarrow> phase_ok ph' bs s c" for bs s x c
      by (cases ph') (simp_all add: ready_len_def seq_len_def num_generated_def)
    have "live_ok ph e j en" using wfD(5) [OF wf en(1)] by simp
    then have "seq_ok e ph' (en_seq en')" "entry_id en' = j" "\<not> queued (sq_state (en_seq en'))" "j \<notin> set (eg_waiting e)" "open_channel (eg_channels e) j"
      using en by (auto simp: live_ok_def en' with_cache_def seq_ok_def seq_inv_def is_terminal_def num_generated_def pk queued_def entry_id_def)
    then show ?thesis using True by (simp add: live_ok_def so same)
  next
    case False
    then have "request_map e j = Some en'" using j caches_stored_other [OF ids(2)] by (simp add: map(1))
    from wfD(5) [OF wf this] show ?thesis using False by (simp add: live_ok_def so same)
  qed
  have pe: "pending_entry_ok e' en'" if "en' \<in> set (pending e)" for en'
    using wfD(11) [OF wf that] by (simp add: pending_entry_ok_def so same d)
  show ?thesis
    unfolding engine_wf_def same pend using wf pool map(2) d live pe wfD(3,4) [OF wf] wfD(12) [OF wf] wfD(13) [OF wf]
    by (auto simp: engine_wf_def same_pool_def same pend)
qed

text \<open>A forward over the members \<open>ids\<close>, batched or alone.\<close>

definition pass_caches :: "bool \<Rightarrow> ('f, 'm) Engine \<Rightarrow> int list \<Rightarrow> PagedKvCache list \<Rightarrow> bool" where
  "pass_caches prefill e ids cs \<longleftrightarrow> distinct ids \<and> length cs = length ids \<and>
     (\<forall>b<length ids. \<exists>en. request_map e (ids ! b) = Some en \<and> sq_state (en_seq en) = kRunning \<and>
        sq_cache (en_seq en) = Some (cs ! b) \<and> phase_ok (Ready prefill) (pool_block_size (eg_pool e)) (en_seq en) (cs ! b))"

lemma pass_caches_live:
  assumes "distinct ids" and "length cs = length ids"
    and "\<And>b. b < length ids \<Longrightarrow> \<exists>en. request_map e (ids ! b) = Some en \<and> sq_cache (en_seq en) = Some (cs ! b)"
  shows "live_blocks (request_map e) = mset (blocks_of cs) + live_blocks (request_map e |` (- set ids))"
proof -
  let ?cm = "\<lambda>i. the (map_of (zip ids cs) i)"
  have at: "?cm (ids ! b) = cs ! b" if "b < length ids" for b using that assms(1,2) by (simp add: map_of_zip_nth)
  have "map ?cm ids = cs" using assms(2) by (intro nth_equalityI) (simp_all add: at)
  moreover have "\<exists>en c. request_map e i = Some en \<and> sq_cache (en_seq en) = Some c \<and> ?cm i = c" if i: "i \<in> set ids" for i
  proof -
    obtain b where "b < length ids" "i = ids ! b" using i by (metis in_set_conv_nth)
    then show ?thesis using assms(3) [of b] at [of b] by auto
  qed
  ultimately show ?thesis using live_blocks_members [OF finite_requests assms(1), of e ?cm] by simp
qed

lemma forward_contract_apply:
  assumes env: "env_wf env" and wf: "engine_wf env ph {} e" and pc: "pass_caches prefill e ids cs" and ne: "ids \<noteq> []"
    and req: "fr_logits_mode req = kLast" "length (fr_positions req) = length (fr_token_ids req)"
      "if fr_cu_seqlens req = [] then length ids = 1 else length (fr_cu_seqlens req) = Suc (length ids)"
      "\<And>b. b < length ids \<Longrightarrow> 1 \<le> fed_tokens req b"
    and f: "mi_forward (ev_model env) (eg_model e) req (eg_pool e) cs = (r, mm, p', cs')"
  obtains others where "mset others = live_blocks (request_map e |` (- set ids))"
    and "forward_output_ok (ev_model env) req (eg_pool e) cs others r p' cs'"
proof -
  obtain others where o: "mset others = live_blocks (request_map e |` (- set ids))" by (metis ex_mset)
  have "live_blocks (request_map e) = mset (blocks_of cs) + live_blocks (request_map e |` (- set ids))"
    by (rule pass_caches_live) (use pc in \<open>auto simp: pass_caches_def\<close>)
  then have "pool_holds (eg_pool e) (mset (blocks_of cs @ others))" using wfD(1) [OF wf] o by simp
  then have own: "slabs_wf (eg_pool e)" "owned (eg_pool e) (blocks_of cs @ others)" unfolding pool_holds_owned by blast+
  have len: "length cs = length ids" using pc by (simp add: pass_caches_def)
  have "idle_cache (pool_block_size (eg_pool e)) c" if c: "c \<in> set cs" for c
  proof -
    obtain b where b: "b < length cs" "c = cs ! b" using c by (metis in_set_conv_nth)
    then show ?thesis using pc by (auto simp: pass_caches_def)
  qed
  then have "forward_input_ok (ev_model env) req (eg_pool e) cs others"
    using ne len req own wfD(6) [OF wf] by (auto simp: forward_input_ok_def)
  then have "forward_output_ok (ev_model env) req (eg_pool e) cs others r p' cs'"
    using env f by (auto simp: env_wf_def forward_contract_def)
  then show thesis by (rule that [OF o])
qed

lemma run_forward_frame:
  assumes wf: "engine_wf env ph {} e" and pc: "pass_caches prefill e ids cs"
    and fo: "forward_output_ok (ev_model env) req (eg_pool e) cs others r p' cs'" "mset others = live_blocks (request_map e |` (- set ids))"
    and e': "e' = fold store_cache (zip ids cs') (e\<lparr>eg_model := mm, eg_pool := p'\<rparr>)"
  shows "request_map e' = caches_stored ids cs' (request_map e)" and "same_frame e e'" and "eg_waiting e' = eg_waiting e"
    and "eg_running e' = eg_running e" and "eg_channels e' = eg_channels e" and "distinct (map fst (eg_requests e'))"
    and "pool_holds (eg_pool e') (live_blocks (request_map e'))"
proof -
  have dist: "distinct ids" using pc by (simp add: pass_caches_def)
  have out: "length cs' = length ids" "same_pool (eg_pool e) p'" "slabs_wf p'" "owned p' (blocks_of cs' @ others)"
    using fo(1) pc by (simp_all add: forward_output_ok_def pass_caches_def)
  show m': "request_map e' = caches_stored ids cs' (request_map e)" unfolding e'
    by (subst fold_store_cache_map [OF dist out(1)]) (simp add: request_map_def)
  have fields: "eg_pool e' = p'" "eg_config e' = eg_config e" "eg_commands e' = eg_commands e" "eg_next_id e' = eg_next_id e"
    using fold_store_cache [of "zip ids cs'" "e\<lparr>eg_model := mm, eg_pool := p'\<rparr>"] by (simp_all add: e')
  show "eg_waiting e' = eg_waiting e" "eg_running e' = eg_running e" "eg_channels e' = eg_channels e" "distinct (map fst (eg_requests e'))"
    using fold_store_cache [of "zip ids cs'" "e\<lparr>eg_model := mm, eg_pool := p'\<rparr>"] wfD(2) [OF wf] by (simp_all add: e')
  show "same_frame e e'" using out(2) by (simp add: same_frame_def fields m')
  have "live_blocks (request_map e') = mset (blocks_of cs') + live_blocks (request_map e' |` (- set ids))"
  proof (rule pass_caches_live [OF dist out(1)])
    fix b assume b: "b < length ids"
    then obtain en where "request_map e (ids ! b) = Some en" using pc by (auto simp: pass_caches_def)
    then show "\<exists>en. request_map e' (ids ! b) = Some en \<and> sq_cache (en_seq en) = Some (cs' ! b)"
      by (simp add: m' caches_stored_at [OF dist out(1) b] with_cache_def)
  qed
  moreover have "request_map e' |` (- set ids) = request_map e |` (- set ids)"
    by (auto simp: m' restrict_map_def fun_eq_iff caches_stored_other [OF out(1)])
  moreover have "pool_holds p' (mset (blocks_of cs' @ others))" using out(3,4) by (simp only: pool_holds_owned)
  ultimately show "pool_holds (eg_pool e') (live_blocks (request_map e'))" using fo(2) by (simp add: fields)
qed

text \<open>What the members are after it.\<close>

lemma forward_phases:
  assumes wf: "engine_wf env ph {} e" and pc: "pass_caches prefill e ids cs"
    and fo: "forward_output_ok (ev_model env) req (eg_pool e) cs others r p' cs'"
    and fr: "request_map e' = caches_stored ids cs' (request_map e)" "same_frame e e'" "eg_waiting e' = eg_waiting e"
      "eg_running e' = eg_running e" "eg_channels e' = eg_channels e" "distinct (map fst (eg_requests e'))"
      "pool_holds (eg_pool e') (live_blocks (request_map e'))"
    and ph: "\<And>b en. b < length ids \<Longrightarrow> request_map e (ids ! b) = Some en \<Longrightarrow> sq_cache (en_seq en) = Some (cs ! b) \<Longrightarrow>
      phase_ok (Ready prefill) (pool_block_size (eg_pool e)) (en_seq en) (cs ! b) \<Longrightarrow>
      phase_ok ph' (pool_block_size (eg_pool e)) (en_seq en) (cs' ! b)"
  shows "engine_wf env (\<lambda>j. if j \<in> set ids then ph' else ph j) {} e'"
proof (rule wf_caches [OF wf _ _ _ fr(1,6)])
  show "distinct ids" using pc by (simp add: pass_caches_def)
  show "length cs' = length ids" using fo pc by (simp add: forward_output_ok_def pass_caches_def)
  fix b assume b: "b < length ids"
  then obtain en where en: "request_map e (ids ! b) = Some en" "sq_state (en_seq en) = kRunning" "sq_cache (en_seq en) = Some (cs ! b)"
    "phase_ok (Ready prefill) (pool_block_size (eg_pool e)) (en_seq en) (cs ! b)" using pc unfolding pass_caches_def by blast
  then show "\<exists>en. request_map e (ids ! b) = Some en \<and> sq_state (en_seq en) = kRunning \<and> phase_ok ph' (pool_block_size (eg_pool e)) (en_seq en) (cs' ! b)"
    using ph [OF b] by blast
qed (use fr in \<open>simp_all add: same_frame_def\<close>)

text \<open>The outcome of a forward: the members are fed, or the batch left them dirty; a member alone is left as it was.\<close>

definition forward_result ::
  "('f, 'm) EngineEnv \<Rightarrow> (int \<Rightarrow> phase) \<Rightarrow> bool \<Rightarrow> int list \<Rightarrow> ForwardRequest \<Rightarrow> Logits status_or \<Rightarrow> ('f, 'm) Engine \<Rightarrow> bool" where
  "forward_result env ph prefill ids req r e' \<longleftrightarrow>
     (case r of
        Inr (extents, values) \<Rightarrow> engine_wf env (\<lambda>j. if j \<in> set ids then Fed else ph j) {} e' \<and>
          extents \<noteq> [] \<and> last extents = mi_vocab_size (ev_model env) \<and> int (length values) = int (length ids) * mi_vocab_size (ev_model env)
      | Inl (Status _) \<Rightarrow> engine_wf env (\<lambda>j. if j \<in> set ids then Dirty prefill else ph j) {} e' \<and>
          (fr_cu_seqlens req = [] \<longrightarrow> engine_wf env ph {} e')
      | Inl _ \<Rightarrow> False)"

lemma forward_ok:
  assumes env: "env_wf env" and wf: "engine_wf env ph {} e" and pc: "pass_caches prefill e ids cs" and ne: "ids \<noteq> []"
    and ph: "\<forall>i\<in>set ids. ph i = Ready prefill"
    and req: "fr_logits_mode req = kLast" "length (fr_positions req) = length (fr_token_ids req)"
      "if fr_cu_seqlens req = [] then length ids = 1 else length (fr_cu_seqlens req) = Suc (length ids)"
      "\<And>b. b < length ids \<Longrightarrow> 1 \<le> fed_tokens req b"
    and fed: "\<And>b en. b < length ids \<Longrightarrow> request_map e (ids ! b) = Some en \<Longrightarrow> ready_len prefill (en_seq en) + fed_tokens req b = seq_len (en_seq en)"
    and fw: "run_forward env e ids req cs = (r, e')"
  obtains cs' where "length cs' = length ids" and "request_map e' = caches_stored ids cs' (request_map e)"
    and "same_frame e e'" and "eg_waiting e' = eg_waiting e" and "eg_running e' = eg_running e" and "eg_channels e' = eg_channels e"
    and "forward_result env ph prefill ids req r e'"
proof -
  obtain mm p' cs' where f: "mi_forward (ev_model env) (eg_model e) req (eg_pool e) cs = (r, mm, p', cs')"
    and e': "e' = fold store_cache (zip ids cs') (e\<lparr>eg_model := mm, eg_pool := p'\<rparr>)"
    using fw by (auto simp: run_forward_def split: prod.splits)
  obtain others where o: "mset others = live_blocks (request_map e |` (- set ids))"
    "forward_output_ok (ev_model env) req (eg_pool e) cs others r p' cs'"
    by (rule forward_contract_apply [OF env wf pc ne req f])
  note fr = run_forward_frame [OF wf pc o(2,1) e']
  note phases = forward_phases [OF wf pc o(2) fr]
  have len: "length cs' = length ids" "length cs = length ids" and tw: "\<forall>c\<in>set cs'. table_wf (pool_block_size (eg_pool e)) (pg_table c)"
    using o(2) pc by (simp_all add: forward_output_ok_def pass_caches_def)
  have "forward_result env ph prefill ids req r e'"
  proof (cases r)
    case (Inr lg)
    obtain extents "values" where lg: "lg = (extents, values)" by (cases lg)
    have out: "extents \<noteq> []" "last extents = mi_vocab_size (ev_model env)" "int (length values) = int (length ids) * mi_vocab_size (ev_model env)"
      "\<And>b. b < length ids \<Longrightarrow> Paged_length (cs' ! b) = Paged_length (cs ! b) + fed_tokens req b \<and> pg_next_layer (cs' ! b) = 0"
      using o(2) Inr lg len(2) by (simp_all add: forward_output_ok_def)
    have "engine_wf env (\<lambda>j. if j \<in> set ids then Fed else ph j) {} e'"
    proof (rule phases)
      fix b en assume b: "b < length ids" "request_map e (ids ! b) = Some en" "phase_ok (Ready prefill) (pool_block_size (eg_pool e)) (en_seq en) (cs ! b)"
      have "cs' ! b \<in> set cs'" using b(1) len by simp
      then show "phase_ok Fed (pool_block_size (eg_pool e)) (en_seq en) (cs' ! b)"
        using out(4) [OF b(1)] b(3) fed [OF b(1,2)] tw by (simp add: idle_cache_def)
    qed
    then show ?thesis using out Inr lg by (simp add: forward_result_def)
  next
    case (Inl err)
    then obtain c where c: "err = Status c" using o(2) by (auto simp: forward_output_ok_def split: failure.splits)
    have out: "\<And>b. b < length ids \<Longrightarrow> Paged_length (cs ! b) \<le> Paged_length (cs' ! b)" "fr_cu_seqlens req = [] \<longrightarrow> cs' = cs"
      using o(2) Inl c len(2) by (simp_all add: forward_output_ok_def)
    have "engine_wf env (\<lambda>j. if j \<in> set ids then Dirty prefill else ph j) {} e'"
    proof (rule phases)
      fix b en assume b: "b < length ids" "phase_ok (Ready prefill) (pool_block_size (eg_pool e)) (en_seq en) (cs ! b)"
      have "cs' ! b \<in> set cs'" using b(1) len by simp
      then show "phase_ok (Dirty prefill) (pool_block_size (eg_pool e)) (en_seq en) (cs' ! b)"
        using out(1) [OF b(1)] b(2) tw by auto
    qed
    moreover have "engine_wf env ph {} e'" if "cs' = cs"
    proof -
      have "engine_wf env (\<lambda>j. if j \<in> set ids then Ready prefill else ph j) {} e'" by (rule phases) (simp only: that)
      moreover have "(\<lambda>j. if j \<in> set ids then Ready prefill else ph j) = ph" using ph by (auto simp: fun_eq_iff)
      ultimately show ?thesis by simp
    qed
    ultimately show ?thesis using out(2) Inl c by (simp add: forward_result_def)
  qed
  then show thesis by (rule that [OF len(1) fr(1-5)])
qed

section \<open>The fallback\<close>

text \<open>What running the member \<open>i\<close> to a delivered token or to a failure does.\<close>

definition others_kept :: "int \<Rightarrow> ('f, 'm) Engine \<Rightarrow> ('f, 'm) Engine \<Rightarrow> bool" where
  "others_kept i e e' \<longleftrightarrow> (\<forall>j. j \<noteq> i \<longrightarrow> request_map e' j = request_map e j \<or>
     (\<exists>en'. request_map e' j = Some en' \<and> queued (sq_state (en_seq en'))))"

lemma others_kept_trans: "others_kept i e e' \<Longrightarrow> others_kept i e' e'' \<Longrightarrow> others_kept i e e''"
  unfolding others_kept_def by metis

lemma others_kept_update: "request_map e' = (request_map e)(i \<mapsto> en) \<Longrightarrow> others_kept i e e'"
  by (simp add: others_kept_def)

definition member_ran :: "('f, 'm) EngineEnv \<Rightarrow> (int \<Rightarrow> phase) \<Rightarrow> int \<Rightarrow> ('f, 'm) Engine \<Rightarrow> ('f, 'm) Engine \<Rightarrow> bool" where
  "member_ran env ph i e e' \<longleftrightarrow>
     engine_wf env (ph(i := Ready False)) {} e' \<and> same_frame e e' \<and> todo (request_map e') < todo (request_map e) \<and>
     others_kept i e e'"

lemma delivered_ran:
  assumes "request_map e1 = (request_map e)(i \<mapsto> en')" and "engine_wf env (ph(i := Ready False)) {} e2" and "delivered e1 i en e2" and "same_frame e e1" and "todo (request_map e1) = todo (request_map e)"
  shows "member_ran env ph i e e2"
  using assms same_frame_trans [of e e1 e2]
  by (auto simp: member_ran_def delivered_def others_kept_def)

lemma fed_alone: "fr_cu_seqlens req = [] \<Longrightarrow> fed_tokens req b = int (length (fr_token_ids req))"
  by (simp add: fed_tokens_def)

lemma feed_tokens_ok:
  assumes "seq_ok e ph s" and "prefill \<or> sq_generated_ids s \<noteq> []"
  obtains ts where "feed_tokens prefill s = Inr ts" and "1 \<le> length ts" and "ready_len prefill s + int (length ts) = seq_len s"
    and "\<not> prefill \<longrightarrow> length ts = 1"
proof (rule that)
  let ?ts = "if prefill then rq_prompt_ids (sq_request s) @ sq_generated_ids s else [last (sq_generated_ids s)]"
  show "feed_tokens prefill s = Inr ?ts" using assms(2) by (auto simp: feed_tokens_def)
  show "1 \<le> length ?ts" using assms(1) by (cases "rq_prompt_ids (sq_request s)") (simp_all add: seq_ok_def seq_inv_def request_wf_def)
  show "ready_len prefill s + int (length ?ts) = seq_len s" by (simp add: ready_len_def seq_len_def num_generated_def)
qed simp

lemma LastRow_ok: "extents \<noteq> [] \<Longrightarrow> 0 < last extents \<Longrightarrow> \<exists>xs. LastRow (extents, vals) = Inr xs"
  by (simp add: LastRow_def Let_def)

text \<open>A member alone: it delivers a token or fails, or, in a decode, asks for a victim and is left as it was.\<close>

lemma ExecuteAndDeliver_ok:
  assumes env: "env_wf env" and wf: "engine_wf env ph {} e" and i: "request_map e i = Some en"
    and st: "sq_state (en_seq en) = kRunning" and ph: "ph i = Ready prefill"
  obtains e' ok where "ExecuteAndDeliver env prefill i e = Inr (e', ok)"
    and "if ok then member_ran env ph i e e'
      else engine_wf env ph {} e' \<and> same_frame e e' \<and> todo (request_map e') = todo (request_map e) \<and>
        (\<exists>c. request_map e' = (request_map e)(i \<mapsto> with_cache c en)) \<and> eg_running e' = eg_running e"
proof -
  let ?s = "en_seq en"
  have so: "seq_ok e (Ready prefill) ?s" using wfD(5) [OF wf i] ph by (simp add: live_ok_def)
  obtain c where c: "sq_cache ?s = Some c" "phase_ok (Ready prefill) (pool_block_size (eg_pool e)) ?s c"
    using so st by (auto simp: seq_ok_def seq_inv_def)
  obtain ts where ts: "feed_tokens prefill ?s = Inr ts" "1 \<le> length ts" "ready_len prefill ?s + int (length ts) = seq_len ?s"
    by (rule feed_tokens_ok [OF so, of prefill]) (use c(2) in auto)
  let ?pos = "if prefill then map (\<lambda>t. int32_cast (int t)) [0..<length ts] else [int32_cast (Paged_length c)]"
  let ?req = "\<lparr>fr_token_ids = ts, fr_positions = ?pos, fr_cu_seqlens = [], fr_logits_mode = kLast\<rparr>"
  obtain r e1 where fw: "run_forward env e [i] ?req [c] = (r, e1)" by (metis surj_pair)
  have pos: "length ?pos = length ts" using ts(1) by (auto simp: feed_tokens_def split: if_splits)
  have pc: "pass_caches prefill e [i] [c]" using i st c by (simp add: pass_caches_def)
  obtain cs' where cs': "length cs' = length [i]" "request_map e1 = caches_stored [i] cs' (request_map e)" "same_frame e e1"
    "eg_waiting e1 = eg_waiting e" "eg_running e1 = eg_running e" "eg_channels e1 = eg_channels e"
    "forward_result env ph prefill [i] ?req r e1"
    by (rule forward_ok [OF env wf pc _ _ _ _ _ _ _ fw]) (use i ts pos ph in \<open>simp_all add: fed_alone\<close>)
  obtain c' where c': "cs' = [c']" using cs'(1) by (cases cs') auto
  have m1: "request_map e1 = (request_map e)(i \<mapsto> with_cache c' en)"
    using cs'(2) i by (auto simp: c' caches_stored_def fun_eq_iff)
  let ?en = "with_cache c' en"
  have i1: "request_map e1 i = Some ?en" by (simp add: m1)
  have st1: "sq_state (en_seq ?en) = kRunning" using st by (simp add: with_cache_def)
  have td: "todo (request_map e1) = todo (request_map e)" by (simp add: cs'(2) todo_caches_stored)
  note run = at_request_ok [OF i] at_request_ok [OF i1] ts(1) fw c(1)
  show thesis
  proof (cases r)
    case (Inl err)
    then obtain code where err: "err = Status code" and w1: "engine_wf env ph {} e1"
      using cs'(7) by (auto simp: forward_result_def split: failure.splits)
    show thesis
    proof (cases "\<not> prefill \<and> IsResourceExhausted (Status code)")
      case True
      then have "ExecuteAndDeliver env prefill i e = Inr (e1, False)"
        using run Inl err by (simp add: ExecuteAndDeliver_def cache_of_def Let_def)
      then show thesis by (rule that) (use w1 cs'(3,5) td m1 in auto)
    next
      case False
      obtain e2 where e2: "fail_entry e1 i ?en (en_seq ?en) (Status code) = Inr e2" "engine_wf env (ph(i := Ready False)) {} e2" "delivered e1 i ?en e2"
        by (rule fail_entry_ok [OF w1 i1 _ st1, of "en_seq ?en" "Status code" "Ready False"]) (simp_all add: st1)
      have "ExecuteAndDeliver env prefill i e = Inr (e2, True)"
        using run Inl err False e2(1) by (auto simp: ExecuteAndDeliver_def cache_of_def Let_def)
      then show thesis by (rule that) (simp add: delivered_ran [OF m1 e2(2,3) cs'(3) td])
    qed
  next
    case (Inr lg)
    obtain extents vals where lg: "lg = (extents, vals)" by (cases lg)
    let ?ph = "\<lambda>j. if j \<in> set [i] then Fed else ph j"
    have w1: "engine_wf env ?ph {} e1" and sh: "extents \<noteq> []" "last extents = mi_vocab_size (ev_model env)"
      using cs'(7) by (simp_all add: forward_result_def Inr lg)
    have "0 < mi_vocab_size (ev_model env)" using env by (simp add: env_wf_def forward_contract_def)
    then obtain xs where xs: "LastRow lg = Inr xs" using LastRow_ok [OF sh(1), of vals] sh(2) lg by auto
    have phs: "?ph(i := Ready False) = ph(i := Ready False)" by (simp add: fun_eq_iff)
    have ps: "params_safe (smp_params (sq_sampler (en_seq ?en)))"
      using so by (simp add: seq_ok_def seq_inv_def request_wf_def with_cache_def)
    show thesis
    proof (cases "SampleWithLogprobs (ev_sampler env) (sq_sampler (en_seq ?en)) xs (sample_context (en_seq ?en))")
      case err: (Inl err)
      then obtain code where code: "err = Status code" using sample_safe [OF ps] by blast
      obtain e2 where e2: "fail_entry e1 i ?en (en_seq ?en) (Status code) = Inr e2" "engine_wf env (?ph(i := Ready False)) {} e2" "delivered e1 i ?en e2"
        by (rule fail_entry_ok [OF w1 i1 _ st1, of "en_seq ?en" "Status code" "Ready False"]) (simp_all add: st1)
      have "ExecuteAndDeliver env prefill i e = Inr (e2, True)"
        using run Inr xs err code e2(1) by (simp add: ExecuteAndDeliver_def cache_of_def Let_def)
      then show thesis by (rule that) (simp add: delivered_ran [OF m1 e2(2)[unfolded phs] e2(3) cs'(3) td])
    next
      case tok: (Inr t)
      obtain e2 where e2: "DeliverSampled e1 i t = Inr e2" "engine_wf env (?ph(i := Ready False)) {} e2" "delivered e1 i ?en e2"
        by (rule DeliverSampled_ok [OF w1 i1 _ st1, of t]) simp_all
      have "ExecuteAndDeliver env prefill i e = Inr (e2, True)"
        using run Inr xs tok e2(1) by (simp add: ExecuteAndDeliver_def cache_of_def Let_def)
      then show thesis by (rule that) (simp add: delivered_ran [OF m1 e2(2)[unfolded phs] e2(3) cs'(3) td])
    qed
  qed
qed

lemma pick_loop_ok:
  assumes "\<forall>j\<in>set is. \<exists>en. request_map e j = Some en" and "v = 0 \<or> (v \<noteq> x \<and> (\<exists>en. request_map e v = Some en \<and> sq_state (en_seq en) = kRunning))"
  shows "\<exists>w. pick_loop e x is v a = Inr w \<and> (w = 0 \<or> (w \<noteq> x \<and> (\<exists>en. request_map e w = Some en \<and> sq_state (en_seq en) = kRunning)))"
  using assms
proof (induction "is" arbitrary: v a)
  case (Cons i "is")
  obtain en where en: "request_map e i = Some en" using Cons.prems(1) by auto
  have m: "\<forall>j\<in>set is. \<exists>en. request_map e j = Some en" using Cons.prems(1) by simp
  show ?case
  proof (cases "i = x \<or> sq_state (en_seq en) \<noteq> kRunning \<or> \<not> (v = 0 \<or> a < rq_arrival_index (sq_request (en_seq en)))")
    case True
    then have "pick_loop e x (i # is) v a = pick_loop e x is v a" using at_request_ok [OF en] by (auto simp: Let_def)
    then show ?thesis using Cons.IH [OF m Cons.prems(2)] by simp
  next
    case False
    then have "pick_loop e x (i # is) v a = pick_loop e x is i (rq_arrival_index (sq_request (en_seq en)))"
      using at_request_ok [OF en] by (auto simp: Let_def)
    then show ?thesis using Cons.IH [OF m, of i] False en by simp
  qed
qed simp

lemma live_id:
  assumes "engine_wf env ph R e" and "request_map e i = Some en" and "i \<notin> R"
  shows "1 \<le> i"
  using wfD(5) [OF assms] wfD(13) [OF assms(1), of i] by (auto simp: live_ok_def open_channel_def)

lemma PickPreemptionVictim_ok:
  assumes "engine_wf env ph R e"
  obtains v where "PickPreemptionVictim e x = Inr v"
    and "v = 0 \<or> (v \<noteq> x \<and> (\<exists>en. request_map e v = Some en \<and> sq_state (en_seq en) = kRunning))"
proof -
  have "\<forall>j\<in>set (eg_running e). \<exists>en. request_map e j = Some en" using wfD(4) [OF assms] by auto
  then show thesis using pick_loop_ok [of "eg_running e" e 0 x 0] that by (auto simp: PickPreemptionVictim_def)
qed

lemma recover_member_ok:
  assumes env: "env_wf env" and wf: "engine_wf env ph {} e" and i: "request_map e i = Some en"
    and st: "sq_state (en_seq en) = kRunning" and ph: "ph i = Ready prefill"
  shows "\<exists>e'. recover_member env prefill i e = Inr e' \<and> member_ran env ph i e e'"
  using wf i st
proof (induction "length (eg_running e)" arbitrary: e en rule: less_induct)
  case less
  note wf = less.prems(1) and i = less.prems(2) and st = less.prems(3)
  obtain e1 ok where ex: "ExecuteAndDeliver env prefill i e = Inr (e1, ok)"
    "if ok then member_ran env ph i e e1
      else engine_wf env ph {} e1 \<and> same_frame e e1 \<and> todo (request_map e1) = todo (request_map e) \<and>
        (\<exists>c. request_map e1 = (request_map e)(i \<mapsto> with_cache c en)) \<and> eg_running e1 = eg_running e"
    by (rule ExecuteAndDeliver_ok [OF env wf i st ph])
  show ?case
  proof (cases ok)
    case True
    then show ?thesis using ex by (subst recover_member.simps) simp
  next
    case False
    then obtain c where w1: "engine_wf env ph {} e1" "same_frame e e1" "todo (request_map e1) = todo (request_map e)"
      "request_map e1 = (request_map e)(i \<mapsto> with_cache c en)" "eg_running e1 = eg_running e" using ex(2) by auto
    have i1: "request_map e1 i = Some (with_cache c en)" by (simp add: w1(4))
    have st1: "sq_state (en_seq (with_cache c en)) = kRunning" using st by (simp add: with_cache_def)
    obtain v where v: "PickPreemptionVictim e1 i = Inr v"
      "v = 0 \<or> (v \<noteq> i \<and> (\<exists>en. request_map e1 v = Some en \<and> sq_state (en_seq en) = kRunning))"
      by (rule PickPreemptionVictim_ok [OF w1(1)])
    show ?thesis
    proof (cases "v = 0")
      case True
      obtain e2 where e2: "fail_entry e1 i (with_cache c en) (en_seq (with_cache c en)) (Status kResourceExhausted) = Inr e2"
        "engine_wf env (ph(i := Ready False)) {} e2" "delivered e1 i (with_cache c en) e2"
        by (rule fail_entry_ok [OF w1(1) i1 _ st1, of "en_seq (with_cache c en)" "Status kResourceExhausted" "Ready False"]) (simp_all add: st1)
      have "recover_member env prefill i e = Inr e2"
        using ex(1) False v(1) True at_request_ok [OF i1] e2(1) by (subst recover_member.simps) simp
      then show ?thesis using delivered_ran [OF w1(4) e2(2,3) w1(2,3)] by blast
    next
      case nz: False
      then obtain env' where vn: "request_map e1 v = Some env'" "sq_state (en_seq env') = kRunning" "v \<noteq> i" using v(2) by blast
      obtain e2 s' where e2: "PreemptSequence v e1 = Inr e2" "engine_wf env ph {} e2" "same_frame e1 e2"
        "request_map e2 = (request_map e1)(v \<mapsto> env'\<lparr>en_seq := s'\<rparr>)" "sq_state s' = kPreempted"
        "eg_running e2 = removeAll v (eg_running e1)" "todo (request_map e2) = todo (request_map e1)"
        by (rule PreemptSequence_ok [OF w1(1) vn(1) _ vn(2)]) (simp, blast)
      have "v \<in> set (eg_running e1)" using running_member(1) [OF w1(1) vn(1)] vn(2) by (simp add: queued_def)
      then have sh: "length (eg_running e2) < length (eg_running e)" by (simp add: e2(6) w1(5) length_removeAll_less)
      have i2: "request_map e2 i = Some (with_cache c en)" using i1 vn(3) by (simp add: e2(4))
      obtain e3 where e3: "recover_member env prefill i e2 = Inr e3" "member_ran env ph i e2 e3"
        using less.hyps [OF sh e2(2) i2 st1] by blast
      have "others_kept i e1 e2" using e2(4,5) by (auto simp: others_kept_def queued_def)
      then have "others_kept i e e2" using others_kept_trans others_kept_update [OF w1(4)] by blast
      then have "others_kept i e e3" using e3(2) others_kept_trans unfolding member_ran_def by blast
      moreover have "same_frame e e3" using same_frame_trans [OF w1(2) same_frame_trans [OF e2(3)]] e3(2) by (simp add: member_ran_def)
      ultimately have "member_ran env ph i e e3" using e3(2) e2(7) w1(3) by (simp add: member_ran_def)
      moreover have "recover_member env prefill i e = Inr e3"
        using ex(1) False v(1) nz e2(1) e3(1) by (subst recover_member.simps) simp
      ultimately show ?thesis by blast
    qed
  qed
qed

lemma wf_phase:
  assumes "engine_wf env ph R e" and "\<And>j en. request_map e j = Some en \<Longrightarrow> sq_state (en_seq en) = kRunning \<Longrightarrow> ph' j = ph j"
  shows "engine_wf env ph' R e"
proof -
  have "live_ok ph' e j en" if j: "request_map e j = Some en" "j \<notin> R" for j en
  proof -
    have "live_ok ph e j en" by (rule wfD(5) [OF assms(1) j])
    then show ?thesis using assms(2) [OF j(1)] by (cases "sq_state (en_seq en) = kRunning") (auto simp: live_ok_def seq_ok_def seq_inv_def)
  qed
  then show ?thesis using assms(1) by (simp add: engine_wf_def)
qed

lemma rollback_cache_ok:
  assumes wf: "engine_wf env ph {} e" and i: "request_map e i = Some en" and st: "sq_state (en_seq en) = kRunning"
    and ph: "ph i = Dirty prefill" and len: "len = ready_len prefill (en_seq en)"
  obtains e' c where "rollback_cache i len e = Inr e'" and "engine_wf env (ph(i := Ready prefill)) {} e'" and "same_frame e e'"
    and "request_map e' = (request_map e)(i \<mapsto> with_cache c en)" and "todo (request_map e') = todo (request_map e)"
proof -
  let ?s = "en_seq en"
  have so: "seq_ok e (Dirty prefill) ?s" and ch: "open_channel (eg_channels e) i"
    using wfD(5) [OF wf i] ph by (simp_all add: live_ok_def)
  obtain c where c: "sq_cache ?s = Some c" "table_wf (pool_block_size (eg_pool e)) (pg_table c)" "len \<le> Paged_length c"
    "prefill \<or> sq_generated_ids ?s \<noteq> []"
    using so st len by (auto simp: seq_ok_def seq_inv_def)
  have "0 \<le> len" using c(4) by (cases "sq_generated_ids ?s") (simp_all add: len ready_len_def seq_len_def num_generated_def)
  have "pool_holds (eg_pool e) (mset (tab_blocks (pg_table c)) + live_blocks ((request_map e)(i := None)))"
    using wf_holds_split [OF wf i] c(1) by (simp add: seq_blocks_def)
  then obtain p' c' where t: "Paged_truncate (eg_pool e) c len = Inr (p', c')"
    "pool_holds p' (mset (tab_blocks (pg_table c')) + live_blocks ((request_map e)(i := None)))" "same_pool (eg_pool e) p'"
    "idle_cache (pool_block_size (eg_pool e)) c'" "Paged_length c' = len"
    using truncate_holds c(2,3) \<open>0 \<le> len\<close> by blast
  let ?s' = "?s\<lparr>sq_cache := Some c'\<rparr>"
  let ?e = "(put_seq e i en ?s')\<lparr>eg_pool := p'\<rparr>"
  have m: "request_map ?e = (request_map e)(i \<mapsto> en\<lparr>en_seq := ?s'\<rparr>)" by (simp add: request_map_def)
  have run: "i \<in> set (eg_running e)" "i \<notin> set (eg_waiting e)" using running_member [OF wf i] st by (simp_all add: queued_def)
  have "engine_wf env (ph(i := Ready prefill)) {} ?e"
  proof (rule wf_update [OF wf i _ m])
    show "distinct (map fst (eg_requests ?e))" using put_seq_keys [OF wfD(2) [OF wf]] by simp
    show "seq_ok e (Ready prefill) ?s'" using so st t(4,5) len c(4)
      by (simp add: seq_ok_def seq_inv_def is_terminal_def num_generated_def ready_len_def seq_len_def)
    show "pool_holds (eg_pool ?e) (mset (seq_blocks ?s') + live_blocks ((request_map e)(i := None)))" using t(2) by (simp add: seq_blocks_def)
    show "distinct (eg_waiting ?e @ eg_running ?e)" using wfD(3) [OF wf] by simp
  qed (use t(3) run st ch in \<open>simp_all add: queued_def\<close>)
  moreover have "rollback_cache i len e = Inr ?e"
    using at_request_ok [OF i] c(1) t(1) by (simp add: rollback_cache_def cache_of_def)
  moreover have "dom (request_map ?e) = dom (request_map e)" using m i by auto
  moreover have "todo (request_map ?e) = todo (request_map e)"
    using todo_at [OF i m] st by (simp add: seq_todo_def is_terminal_def num_generated_def)
  ultimately show thesis using that [of ?e c'] t(3) m by (simp add: same_frame_def with_cache_def)
qed

text \<open>A member of the failed pass as \<open>RecoverForwardFailure\<close> finds it: dirty, or preempted meanwhile.\<close>

definition recoverable :: "(int \<Rightarrow> phase) \<Rightarrow> bool \<Rightarrow> ('f, 'm) Engine \<Rightarrow> int \<times> int \<Rightarrow> bool" where
  "recoverable ph prefill e member \<longleftrightarrow>
     (\<exists>en. request_map e (fst member) = Some en \<and>
       (sq_state (en_seq en) = kRunning \<longrightarrow> ph (fst member) = Dirty prefill \<and> snd member = ready_len prefill (en_seq en)))"

lemma recover_one_ok:
  assumes env: "env_wf env" and wf: "engine_wf env ph {} e" and rec: "recoverable ph prefill e (i, len)"
  obtains e' where "recover_one env prefill (i, len) e = Inr e'" and "engine_wf env (ph(i := Ready False)) {} e'" and "same_frame e e'"
    and "todo (request_map e') \<le> todo (request_map e)" and "others_kept i e e'"
    and "(\<exists>en. request_map e i = Some en \<and> sq_state (en_seq en) = kRunning) \<longrightarrow> todo (request_map e') < todo (request_map e)"
proof -
  obtain en where i: "request_map e i = Some en"
    and r: "sq_state (en_seq en) = kRunning \<longrightarrow> ph i = Dirty prefill \<and> len = ready_len prefill (en_seq en)"
    using rec by (auto simp: recoverable_def)
  show thesis
  proof (cases "sq_state (en_seq en) = kRunning")
    case False
    have "recover_one env prefill (i, len) e = Inr e" using at_request_ok [OF i] False by (simp add: recover_one_def)
    moreover have "engine_wf env (ph(i := Ready False)) {} e" by (rule wf_phase [OF wf]) (use i False in auto)
    ultimately show thesis using that i False by (auto simp: others_kept_def)
  next
    case True
    obtain e1 c where e1: "rollback_cache i len e = Inr e1" "engine_wf env (ph(i := Ready prefill)) {} e1" "same_frame e e1"
      "request_map e1 = (request_map e)(i \<mapsto> with_cache c en)" "todo (request_map e1) = todo (request_map e)"
      using rollback_cache_ok [OF wf i True] r True by blast
    have i1: "request_map e1 i = Some (with_cache c en)" "sq_state (en_seq (with_cache c en)) = kRunning"
      using True by (simp_all add: e1(4) with_cache_def)
    obtain e2 where e2: "recover_member env prefill i e1 = Inr e2" "member_ran env (ph(i := Ready prefill)) i e1 e2"
      using recover_member_ok [OF env e1(2) i1, of prefill] by auto
    have "others_kept i e e2" using others_kept_trans [OF others_kept_update [OF e1(4)]] e2(2) by (simp add: member_ran_def)
    moreover have "recover_one env prefill (i, len) e = Inr e2"
      using at_request_ok [OF i] True e1(1) e2(1) by (simp add: recover_one_def)
    ultimately show thesis using that e2(2) e1(5) same_frame_trans [OF e1(3)] by (simp add: member_ran_def)
  qed
qed

lemma RecoverForwardFailure_ok:
  assumes env: "env_wf env" and "engine_wf env ph {} e" and "distinct (map fst members)" and "\<forall>m\<in>set members. recoverable ph prefill e m"
  shows "\<exists>e'. RecoverForwardFailure env prefill members e = Inr e' \<and>
    engine_wf env (\<lambda>j. if j \<in> fst ` set members then Ready False else ph j) {} e' \<and> same_frame e e' \<and>
    todo (request_map e') \<le> todo (request_map e) \<and>
    (members \<noteq> [] \<and> (\<exists>en. request_map e (fst (hd members)) = Some en \<and> sq_state (en_seq en) = kRunning) \<longrightarrow>
      todo (request_map e') < todo (request_map e))"
  using assms(2-4)
proof (induction members arbitrary: ph e)
  case Nil
  then show ?case by (simp add: RecoverForwardFailure_def)
next
  case (Cons m ms)
  obtain i len where m: "m = (i, len)" by (cases m)
  obtain e1 where e1: "recover_one env prefill (i, len) e = Inr e1" "engine_wf env (ph(i := Ready False)) {} e1" "same_frame e e1"
    "todo (request_map e1) \<le> todo (request_map e)" "others_kept i e e1"
    "(\<exists>en. request_map e i = Some en \<and> sq_state (en_seq en) = kRunning) \<longrightarrow> todo (request_map e1) < todo (request_map e)"
    by (rule recover_one_ok [OF env Cons.prems(1), of prefill i len]) (use Cons.prems(3) m in auto)
  have "recoverable (ph(i := Ready False)) prefill e1 x" if x: "x \<in> set ms" for x
  proof -
    have ne: "fst x \<noteq> i" using Cons.prems(2) x by (auto simp: m)
    have "recoverable ph prefill e x" using Cons.prems(3) x by simp
    then obtain en where en: "request_map e (fst x) = Some en"
      "sq_state (en_seq en) = kRunning \<longrightarrow> ph (fst x) = Dirty prefill \<and> snd x = ready_len prefill (en_seq en)"
      unfolding recoverable_def by blast
    have "request_map e1 (fst x) = request_map e (fst x) \<or> (\<exists>en'. request_map e1 (fst x) = Some en' \<and> queued (sq_state (en_seq en')))"
      using e1(5) ne by (simp add: others_kept_def)
    then show ?thesis using en ne by (auto simp: recoverable_def queued_def)
  qed
  then have rec: "\<forall>x\<in>set ms. recoverable (ph(i := Ready False)) prefill e1 x" by blast
  have "distinct (map fst ms)" using Cons.prems(2) by simp
  from Cons.IH [OF e1(2) this rec] obtain e2 where e2: "RecoverForwardFailure env prefill ms e1 = Inr e2"
    "engine_wf env (\<lambda>j. if j \<in> fst ` set ms then Ready False else (ph(i := Ready False)) j) {} e2" "same_frame e1 e2"
    "todo (request_map e2) \<le> todo (request_map e1)" by blast
  have "(\<lambda>j. if j \<in> fst ` set ms then Ready False else (ph(i := Ready False)) j) = (\<lambda>j. if j \<in> fst ` set (m # ms) then Ready False else ph j)"
    by (auto simp: m fun_eq_iff)
  then have "engine_wf env (\<lambda>j. if j \<in> fst ` set (m # ms) then Ready False else ph j) {} e2" using e2(2) by simp
  moreover have "RecoverForwardFailure env prefill (m # ms) e = Inr e2"
    using e1(1) e2(1) by (simp add: RecoverForwardFailure_def m)
  ultimately show ?case using e1(4,6) e2(4) same_frame_trans [OF e1(3) e2(3)] by (auto simp: m)
qed

section \<open>A batched pass\<close>

lemma map_ok_all2:
  assumes "\<And>x. x \<in> set xs \<Longrightarrow> \<exists>y. f x = Inr y \<and> P x y"
  obtains ys where "map_ok f xs = Inr ys" and "list_all2 P xs ys"
  using assms
proof (induction xs arbitrary: thesis)
  case (Cons x xs)
  obtain ys where "map_ok f xs = Inr ys" "list_all2 P xs ys" using Cons.IH Cons.prems(2) by auto
  moreover obtain y where "f x = Inr y" "P x y" using Cons.prems(2) by auto
  ultimately show ?case using Cons.prems(1) [of "y # ys"] by simp
qed simp

text \<open>The members of a pass, and the descriptor the code makes of one.\<close>

definition members_ready :: "bool \<Rightarrow> (int \<Rightarrow> phase) \<Rightarrow> ('f, 'm) Engine \<Rightarrow> int list \<Rightarrow> bool" where
  "members_ready prefill ph e ids \<longleftrightarrow> distinct ids \<and>
     (\<forall>i\<in>set ids. ph i = Ready prefill \<and> (\<exists>en. request_map e i = Some en \<and> sq_state (en_seq en) = kRunning))"

definition member_input :: "bool \<Rightarrow> ('f, 'm) Engine \<Rightarrow> int \<Rightarrow> BatchSeqInput \<Rightarrow> bool" where
  "member_input prefill e i x \<longleftrightarrow>
     (\<exists>en c. request_map e i = Some en \<and> sq_state (en_seq en) = kRunning \<and> sq_cache (en_seq en) = Some c \<and>
        phase_ok (Ready prefill) (pool_block_size (eg_pool e)) (en_seq en) c \<and> params_safe (smp_params (sq_sampler (en_seq en))) \<and>
        bs_cache x = Some c \<and> bs_sampler x = Some (sq_sampler (en_seq en)) \<and>
        ready_len prefill (en_seq en) + int (length (bs_token_ids x)) = seq_len (en_seq en) \<and>
        seq_input_ok (\<not> prefill) x \<and> seq_input_fits x)"

lemma BuildPassInputs_ok:
  assumes wf: "engine_wf env ph {} e" and mem: "members_ready prefill ph e ids"
  obtains xs where "BuildPassInputs prefill e ids = Inr xs" and "list_all2 (member_input prefill e) ids xs"
proof -
  have "\<exists>x. pass_input prefill e i = Inr x \<and> member_input prefill e i x" if i: "i \<in> set ids" for i
  proof -
    obtain en where en: "request_map e i = Some en" "sq_state (en_seq en) = kRunning" "ph i = Ready prefill"
      using mem i by (auto simp: members_ready_def)
    let ?s = "en_seq en"
    have so: "seq_ok e (Ready prefill) ?s" using wfD(5) [OF wf en(1)] en(3) by (simp add: live_ok_def)
    obtain c where c: "sq_cache ?s = Some c" "phase_ok (Ready prefill) (pool_block_size (eg_pool e)) ?s c"
      using so en(2) by (auto simp: seq_ok_def seq_inv_def)
    obtain ts where ts: "feed_tokens prefill ?s = Inr ts" "1 \<le> length ts" "ready_len prefill ?s + int (length ts) = seq_len ?s"
      "\<not> prefill \<longrightarrow> length ts = 1"
      by (rule feed_tokens_ok [OF so, of prefill]) (use c(2) in auto)
    let ?x = "\<lparr>bs_token_ids = ts, bs_cache = sq_cache ?s, bs_sampler = Some (sq_sampler ?s), bs_context = sample_context ?s\<rparr>"
    have rq: "request_wf (ec_max_num_batched_tokens (eg_config e)) (pool_num_blocks (eg_pool e) * pool_block_size (eg_pool e)) (sq_request ?s)"
      "num_generated ?s < max_tokens (rq_params (sq_request ?s))" "smp_params (sq_sampler ?s) = rq_params (sq_request ?s)"
      using so en(2) by (simp_all add: seq_ok_def seq_inv_def is_terminal_def)
    have "seq_len ?s \<le> INT32_MAX" using rq(1,2) wfD(9) [OF wf] by (simp add: request_wf_def seq_len_def)
    moreover have "0 \<le> ready_len prefill ?s" using rq(1)
      by (cases "rq_prompt_ids (sq_request ?s)") (simp_all add: ready_len_def seq_len_def num_generated_def request_wf_def)
    ultimately have "seq_input_fits ?x" using c ts(3) by (simp add: seq_input_fits_def)
    moreover have "seq_input_ok (\<not> prefill) ?x" using c(1) ts(2,4) by (auto simp: seq_input_ok_def)
    moreover have "params_safe (smp_params (sq_sampler ?s))" using rq(1,3) by (simp add: request_wf_def)
    ultimately show ?thesis using en(1,2) c ts(1,3) at_request_ok [OF en(1)] by (simp add: pass_input_def member_input_def)
  qed
  then show thesis using map_ok_all2 [of ids "pass_input prefill e" "member_input prefill e"] that by (auto simp: BuildPassInputs_def)
qed

lemma deliver_row_ok:
  assumes wf: "engine_wf env ph {} e" and i: "request_map e i = Some en" and st: "sq_state (en_seq en) = kRunning" and ph: "ph i = Fed"
  obtains e' where "deliver_row (i, out) e = Inr e'" and "engine_wf env (ph(i := Ready False)) {} e'" and "delivered e i en e'"
proof (cases out)
  case (Pair r status)
  show thesis
  proof (cases status)
    case (Inr u)
    obtain e' where e': "DeliverSampled e i r = Inr e'" "engine_wf env (ph(i := Ready False)) {} e'" "delivered e i en e'"
      by (rule DeliverSampled_ok [OF wf i _ st ph, of r]) simp_all
    have "out = (r, Inr ())" using Pair Inr by simp
    then show thesis by (intro that [OF _ e'(2,3)]) (simp add: deliver_row_def e'(1))
  next
    case (Inl err)
    obtain e' where e': "fail_entry e i en (en_seq en) err = Inr e'" "engine_wf env (ph(i := Ready False)) {} e'" "delivered e i en e'"
      by (rule fail_entry_ok [OF wf i _ st, of "en_seq en" err "Ready False"]) (simp_all add: st)
    show thesis by (rule that [OF _ e'(2,3)]) (simp add: deliver_row_def Pair Inl at_request_ok [OF i] e'(1))
  qed
qed

lemma deliver_rows_ok:
  assumes "engine_wf env ph {} e" and "distinct ids" and "length outs = length ids"
    and "\<forall>i\<in>set ids. ph i = Fed \<and> (\<exists>en. request_map e i = Some en \<and> sq_state (en_seq en) = kRunning)"
  shows "\<exists>e'. fold_ok deliver_row (zip ids outs) e = Inr e' \<and>
    engine_wf env (\<lambda>j. if j \<in> set ids then Ready False else ph j) {} e' \<and> same_frame e e' \<and>
    todo (request_map e') + length ids \<le> todo (request_map e)"
  using assms(3,1,2,4)
proof (induction outs ids arbitrary: ph e rule: list_induct2)
  case (Cons out outs i ids)
  obtain en where en: "request_map e i = Some en" "sq_state (en_seq en) = kRunning" "ph i = Fed" using Cons.prems(3) by auto
  obtain e1 where e1: "deliver_row (i, out) e = Inr e1" "engine_wf env (ph(i := Ready False)) {} e1" "delivered e i en e1"
    by (rule deliver_row_ok [OF Cons.prems(1) en, of out])
  obtain s' where s': "request_map e1 = (request_map e)(i \<mapsto> en\<lparr>en_seq := s'\<rparr>)" using e1(3) by (auto simp: delivered_def)
  have "\<forall>j\<in>set ids. (ph(i := Ready False)) j = Fed \<and> (\<exists>en. request_map e1 j = Some en \<and> sq_state (en_seq en) = kRunning)"
    using Cons.prems(2,3) by (auto simp: s')
  from Cons.IH [OF e1(2) _ this] Cons.prems(2)
  obtain e2 where e2: "fold_ok deliver_row (zip ids outs) e1 = Inr e2"
    "engine_wf env (\<lambda>j. if j \<in> set ids then Ready False else (ph(i := Ready False)) j) {} e2" "same_frame e1 e2"
    "todo (request_map e2) + length ids \<le> todo (request_map e1)" by auto
  have "(\<lambda>j. if j \<in> set ids then Ready False else (ph(i := Ready False)) j) = (\<lambda>j. if j \<in> set (i # ids) then Ready False else ph j)"
    by (auto simp: fun_eq_iff)
  moreover have "same_frame e e2" using e1(3) e2(3) same_frame_trans by (auto simp: delivered_def)
  moreover have "todo (request_map e1) < todo (request_map e)" using e1(3) by (simp add: delivered_def)
  ultimately show ?case using e1(1) e2 by simp
qed simp

text \<open>The forward's request and rows, read off the members.\<close>

lemma fed_batch:
  assumes "\<And>k. k \<le> length xs \<Longrightarrow> bi_cu_seqlens b ! k = int (length (concat (take k (map bs_token_ids xs))))"
    and "length (bi_cu_seqlens b) = Suc (length xs)" and "k < length xs"
  shows "fed_tokens (MakeForwardRequest b kLast) k = int (length (bs_token_ids (xs ! k)))"
proof -
  have "bi_cu_seqlens b \<noteq> []" using assms(2) by auto
  moreover have "concat (take (Suc k) (map bs_token_ids xs)) = concat (take k (map bs_token_ids xs)) @ bs_token_ids (xs ! k)"
    using assms(3) by (simp add: take_Suc_conv_app_nth)
  ultimately show ?thesis using assms(1) [of k] assms(1) [of "Suc k"] assms(3) by (simp add: fed_tokens_def MakeForwardRequest_def)
qed

lemma members_rows_ok:
  assumes "list_all2 (member_input prefill e) ids xs"
  shows "rows_ok env logits vocab (map (\<lambda>s. \<lparr>br_sampler = bs_sampler s, br_context = bs_context s\<rparr>) xs)"
proof -
  have "br_sampler (map (\<lambda>s. \<lparr>br_sampler = bs_sampler s, br_context = bs_context s\<rparr>) xs ! b) \<noteq> None \<and>
     (case row_outcome env logits vocab (map (\<lambda>s. \<lparr>br_sampler = bs_sampler s, br_context = bs_context s\<rparr>) xs) (int b) of
        Inl (Status c) \<Rightarrow> True | Inl _ \<Rightarrow> False | Inr _ \<Rightarrow> True)" if b: "b < length xs" for b
  proof -
    have "member_input prefill e (ids ! b) (xs ! b)" using assms b by (simp add: list_all2_conv_all_nth)
    then obtain smp where smp: "bs_sampler (xs ! b) = Some smp" "params_safe (smp_params smp)" by (auto simp: member_input_def)
    then show ?thesis using b sample_safe [OF smp(2)]
      by (cases "SampleWithLogprobs env smp (take (nat vocab) (drop (nat (int b * vocab)) logits)) (bs_context (xs ! b))")
        (auto simp: row_outcome_def split: failure.split)
  qed
  then show ?thesis by (simp add: rows_ok_def)
qed

text \<open>Staging a pass never fails, and gives the forward what it expects.\<close>

definition staged :: "bool \<Rightarrow> ('f, 'm) Engine \<Rightarrow> int list \<Rightarrow> BatchInputs \<Rightarrow> bool" where
  "staged prefill e ids b \<longleftrightarrow>
     pass_caches prefill e ids (bi_caches b) \<and> length (bi_positions b) = length (bi_token_ids b) \<and>
     length (bi_cu_seqlens b) = Suc (length ids) \<and> length (bi_sample_rows b) = length ids \<and>
     (\<forall>env logits vocab. rows_ok env logits vocab (bi_sample_rows b)) \<and>
     (\<forall>k<length ids. 1 \<le> fed_tokens (MakeForwardRequest b kLast) k \<and>
        (\<forall>en. request_map e (ids ! k) = Some en \<longrightarrow>
           ready_len prefill (en_seq en) + fed_tokens (MakeForwardRequest b kLast) k = seq_len (en_seq en) \<and>
           Paged_length (bi_caches b ! k) = ready_len prefill (en_seq en)))"

text \<open>The tokens a pass feeds; the scheduler's budget and the batch width bound them.\<close>

definition pass_tokens :: "bool \<Rightarrow> ('f, 'm) Engine \<Rightarrow> int list \<Rightarrow> int" where
  "pass_tokens prefill e ids =
     sum_list (map (\<lambda>i. let s = en_seq (the (request_map e i)) in seq_len s - ready_len prefill s) ids)"

lemma pass_tokens_decode [simp]: "pass_tokens False e ids = int (length ids)"
  by (simp add: pass_tokens_def ready_len_def Let_def sum_list_triv)

lemma pass_tokens_inputs:
  "list_all2 (member_input prefill e) ids xs \<Longrightarrow> int (length (concat (map bs_token_ids xs))) = pass_tokens prefill e ids"
proof (induction rule: list_all2_induct)
  case (Cons i ids x xs)
  obtain en where "request_map e i = Some en" "ready_len prefill (en_seq en) + int (length (bs_token_ids x)) = seq_len (en_seq en)"
    using Cons.hyps(1) by (auto simp: member_input_def)
  then show ?case using Cons.IH by (simp add: pass_tokens_def Let_def)
qed (simp add: pass_tokens_def)

lemma staging_ok:
  assumes wf: "engine_wf env ph {} e" and mem: "members_ready prefill ph e ids" and fits: "pass_tokens prefill e ids \<le> INT32_MAX"
  obtains xs b where "BuildPassInputs prefill e ids = Inr xs"
    and "(if prefill then AssemblePrefill xs else AssembleDecode xs) = (b, Inr ())" and "staged prefill e ids b"
proof -
  obtain xs where xs: "BuildPassInputs prefill e ids = Inr xs" "list_all2 (member_input prefill e) ids xs"
    by (rule BuildPassInputs_ok [OF wf mem])
  have len: "length xs = length ids" using xs(2) list_all2_lengthD by fastforce
  have at: "member_input prefill e (ids ! k) (xs ! k)" if "k < length ids" for k
    using xs(2) that by (simp add: list_all2_conv_all_nth)
  have "seq_input_ok (\<not> prefill) x \<and> seq_input_fits x" if x: "x \<in> set xs" for x
  proof -
    obtain k where "k < length xs" "x = xs ! k" using x by (metis in_set_conv_nth)
    then show ?thesis using at [of k] len by (auto simp: member_input_def)
  qed
  then have oks: "\<forall>x\<in>set xs. seq_input_ok (\<not> prefill) x" "\<forall>x\<in>set xs. seq_input_fits x" by blast+
  have bf: "batch_fits xs" using fits pass_tokens_inputs [OF xs(2)] by (simp add: batch_fits_def)
  obtain b where b: "Flatten xs (\<not> prefill) = (b, Inr ())" "bi_token_ids b = concat (map bs_token_ids xs)"
    "bi_positions b = concat (map seq_positions xs)" "bi_caches b = map (the \<circ> bs_cache) xs"
    "bi_sample_rows b = map (\<lambda>s. \<lparr>br_sampler = bs_sampler s, br_context = bs_context s\<rparr>) xs"
    "length (bi_cu_seqlens b) = Suc (length xs)"
    "\<And>k. k \<le> length xs \<Longrightarrow> bi_cu_seqlens b ! k = int (length (concat (take k (map bs_token_ids xs))))"
    by (rule Flatten_inputs [OF oks bf]) blast
  have "pass_caches prefill e ids (bi_caches b)"
  proof -
    have "\<exists>en. request_map e (ids ! k) = Some en \<and> sq_state (en_seq en) = kRunning \<and> sq_cache (en_seq en) = Some (bi_caches b ! k) \<and>
        phase_ok (Ready prefill) (pool_block_size (eg_pool e)) (en_seq en) (bi_caches b ! k)" if "k < length ids" for k
      using at [OF that] that len b(4) by (auto simp: member_input_def)
    then show ?thesis using mem len b(4) by (simp add: pass_caches_def members_ready_def)
  qed
  moreover have "length (bi_positions b) = length (bi_token_ids b)" by (simp add: b(2,3) length_concat comp_def)
  moreover have "1 \<le> fed_tokens (MakeForwardRequest b kLast) k \<and>
        (\<forall>en. request_map e (ids ! k) = Some en \<longrightarrow>
           ready_len prefill (en_seq en) + fed_tokens (MakeForwardRequest b kLast) k = seq_len (en_seq en) \<and>
           Paged_length (bi_caches b ! k) = ready_len prefill (en_seq en))" if k: "k < length ids" for k
  proof -
    have "fed_tokens (MakeForwardRequest b kLast) k = int (length (bs_token_ids (xs ! k)))"
      by (rule fed_batch) (use b(6,7) k len in simp_all)
    moreover have "bs_token_ids (xs ! k) \<noteq> []" using at [OF k] by (auto simp: member_input_def seq_input_ok_def)
    ultimately show ?thesis using at [OF k] k len b(4) by (auto simp: member_input_def Suc_le_eq)
  qed
  ultimately have st: "staged prefill e ids b"
    using len b(5,6) members_rows_ok [OF xs(2)] by (simp add: staged_def)
  show thesis by (rule that [OF xs(1) _ st]) (use b(1) in \<open>cases prefill; simp add: AssemblePrefill_def AssembleDecode_def\<close>)
qed

text \<open>The pass, once its inputs are staged and the forward has run.\<close>

definition sampled_pass :: "('f, 'm) EngineEnv \<Rightarrow> int list \<Rightarrow> BatchInputs \<Rightarrow> Float list \<Rightarrow> ('f, 'm) Engine \<Rightarrow> ('f, 'm) Engine status_or" where
  "sampled_pass env ids b vals e1 =
     (case BatchedSampler_Sample (ev_sampler env) (ev_chunk_order env (length ids)) vals (mi_vocab_size (ev_model env)) (bi_sample_rows b)
             (replicate (length ids) \<lparr>smr_token = 0, smr_logprobs = None\<rparr>, replicate (length ids) (Inr ())) of
        Inl (Status _) \<Rightarrow> Inl CheckFailed
      | Inl err \<Rightarrow> Inl err
      | Inr (results, row_status) \<Rightarrow> fold_ok deliver_row (zip ids (zip results row_status)) e1)"

lemma RunBatchPass_staged:
  assumes "ids \<noteq> []" and "BuildPassInputs prefill e ids = Inr xs"
    and "(if prefill then AssemblePrefill xs else AssembleDecode xs) = (b, Inr ())"
    and "run_forward env e ids (MakeForwardRequest b kLast) (bi_caches b) = (r, e1)"
  shows "r = Inl (Status code) \<Longrightarrow>
      RunBatchPass env prefill ids e = RecoverForwardFailure env prefill (zip ids (map Paged_length (bi_caches b))) e1"
    and "r = Inr (extents, vals) \<Longrightarrow> int (length vals) = int (length ids) * mi_vocab_size (ev_model env) \<Longrightarrow>
      RunBatchPass env prefill ids e = sampled_pass env ids b vals e1"
  unfolding RunBatchPass_def sampled_pass_def assms(2) bind_ok_simps assms(3) using assms(1,4) by (simp_all add: Let_def)

lemma recovered_pass_ok:
  assumes env: "env_wf env" and dist: "distinct ids" and ne: "ids \<noteq> []" and lens: "length lens = length ids"
    and w1: "engine_wf env (\<lambda>j. if j \<in> set ids then Dirty prefill else ph j) {} e1"
    and run1: "\<And>k. k < length ids \<Longrightarrow> \<exists>en'. request_map e1 (ids ! k) = Some en' \<and> sq_state (en_seq en') = kRunning \<and>
      lens ! k = ready_len prefill (en_seq en')"
  obtains e2 where "RecoverForwardFailure env prefill (zip ids lens) e1 = Inr e2"
    and "engine_wf env (\<lambda>j. if j \<in> set ids then Ready False else ph j) {} e2" and "same_frame e1 e2"
    and "todo (request_map e2) < todo (request_map e1)"
proof -
  let ?ms = "zip ids lens"
  have fst_ms: "map fst ?ms = ids" using lens by simp
  have rec: "recoverable (\<lambda>j. if j \<in> set ids then Dirty prefill else ph j) prefill e1 m" if m: "m \<in> set ?ms" for m
  proof -
    obtain k where k: "k < length ids" "m = (ids ! k, lens ! k)" using m lens by (auto simp: set_zip)
    then show ?thesis using run1 [OF k(1)] by (auto simp: recoverable_def)
  qed
  have "distinct (map fst ?ms)" using dist by (simp only: fst_ms)
  from RecoverForwardFailure_ok [OF env w1 this, of prefill] rec
  obtain e2 where e2: "RecoverForwardFailure env prefill ?ms e1 = Inr e2"
    "engine_wf env (\<lambda>j. if j \<in> fst ` set ?ms then Ready False else if j \<in> set ids then Dirty prefill else ph j) {} e2" "same_frame e1 e2"
    "?ms \<noteq> [] \<and> (\<exists>en. request_map e1 (fst (hd ?ms)) = Some en \<and> sq_state (en_seq en) = kRunning) \<longrightarrow> todo (request_map e2) < todo (request_map e1)"
    by blast
  have sm: "fst ` set ?ms = set ids" by (metis fst_ms set_map)
  have "(\<lambda>j. if j \<in> fst ` set ?ms then Ready False else if j \<in> set ids then Dirty prefill else ph j) = (\<lambda>j. if j \<in> set ids then Ready False else ph j)"
    by (auto simp: sm fun_eq_iff)
  then have w2: "engine_wf env (\<lambda>j. if j \<in> set ids then Ready False else ph j) {} e2" using e2(2) by simp
  have "fst (hd ?ms) = ids ! 0" "?ms \<noteq> []" using ne lens by (cases ids; cases lens; simp)+
  then have "todo (request_map e2) < todo (request_map e1)" using e2(4) run1 [of 0] ne by auto
  then show thesis by (rule that [OF e2(1) w2 e2(3)])
qed

lemma sampled_pass_ok:
  assumes env: "env_wf env" and dist: "distinct ids"
    and w1: "engine_wf env (\<lambda>j. if j \<in> set ids then Fed else ph j) {} e1"
    and run1: "\<And>k. k < length ids \<Longrightarrow> \<exists>en'. request_map e1 (ids ! k) = Some en' \<and> sq_state (en_seq en') = kRunning"
    and sz: "int (length vals) = int (length ids) * mi_vocab_size (ev_model env)"
    and rows: "length (bi_sample_rows b) = length ids" "rows_ok (ev_sampler env) vals (mi_vocab_size (ev_model env)) (bi_sample_rows b)"
  obtains e2 where "sampled_pass env ids b vals e1 = Inr e2"
    and "engine_wf env (\<lambda>j. if j \<in> set ids then Ready False else ph j) {} e2" and "same_frame e1 e2"
    and "todo (request_map e2) + length ids \<le> todo (request_map e1)"
proof -
  let ?v = "mi_vocab_size (ev_model env)" and ?n = "length ids"
  have v: "0 < ?v" using env by (simp add: env_wf_def forward_contract_def)
  obtain T where T: "0 < T" "region_order T ?n (ev_chunk_order env ?n)" using env by (auto simp: env_wf_def)
  define slots where "slots = (replicate ?n \<lparr>smr_token = 0, smr_logprobs = None\<rparr>, replicate ?n (Inr ()) :: unit status_or list)"
  define fin where "fin = fold (store_outcome (ev_sampler env) vals ?v (bi_sample_rows b)) [0..int (length (bi_sample_rows b)) - 1] slots"
  have sl: "length (fst slots) = ?n" "length (snd slots) = ?n" by (simp_all add: slots_def)
  have sam: "BatchedSampler_Sample (ev_sampler env) (ev_chunk_order env ?n) vals ?v (bi_sample_rows b) slots = Inr fin"
    unfolding fin_def by (rule BatchedSampler_sequential [OF v _ rows(2) _ _ T(1)]) (use sz rows(1) T(2) sl in simp_all)
  have "length (fst fin) = ?n" "length (snd fin) = ?n" by (simp_all add: fin_def length_fold_store_outcome sl)
  then have lo: "length (zip (fst fin) (snd fin)) = length ids" by simp
  have "\<forall>i\<in>set ids. (if i \<in> set ids then Fed else ph i) = Fed \<and> (\<exists>en. request_map e1 i = Some en \<and> sq_state (en_seq en) = kRunning)"
    using run1 by (auto simp: in_set_conv_nth)
  from deliver_rows_ok [OF w1 dist lo this]
  obtain e2 where e2: "fold_ok deliver_row (zip ids (zip (fst fin) (snd fin))) e1 = Inr e2"
    "engine_wf env (\<lambda>j. if j \<in> set ids then Ready False else if j \<in> set ids then Fed else ph j) {} e2" "same_frame e1 e2"
    "todo (request_map e2) + length ids \<le> todo (request_map e1)" by blast
  have "(\<lambda>j. if j \<in> set ids then Ready False else if j \<in> set ids then Fed else ph j) = (\<lambda>j. if j \<in> set ids then Ready False else ph j)"
    by (auto simp: fun_eq_iff)
  then have w2: "engine_wf env (\<lambda>j. if j \<in> set ids then Ready False else ph j) {} e2" using e2(2) by simp
  have "sampled_pass env ids b vals e1 = Inr e2"
    unfolding sampled_pass_def using sam e2(1) by (cases fin) (simp add: slots_def)
  then show thesis by (rule that [OF _ w2 e2(3,4)])
qed

text \<open>The whole pass. It never aborts; afterwards every member is ready for the next decode, or has ended, or was
  preempted, and a pass with members leaves strictly fewer tokens to produce.\<close>

lemma RunBatchPass_ok:
  assumes env: "env_wf env" and wf: "engine_wf env ph {} e" and mem: "members_ready prefill ph e ids"
    and fits: "pass_tokens prefill e ids \<le> INT32_MAX"
  obtains e' where "RunBatchPass env prefill ids e = Inr e'"
    and "engine_wf env (\<lambda>j. if j \<in> set ids then Ready False else ph j) {} e'" and "same_frame e e'"
    and "if ids = [] then e' = e else todo (request_map e') < todo (request_map e)"
proof (cases "ids = []")
  case True
  then show thesis by (intro that [of e]) (use wf in \<open>simp_all add: RunBatchPass_def\<close>)
next
  case ne: False
  obtain xs b where st: "BuildPassInputs prefill e ids = Inr xs"
    "(if prefill then AssemblePrefill xs else AssembleDecode xs) = (b, Inr ())" "staged prefill e ids b"
    by (rule staging_ok [OF wf mem fits])
  let ?req = "MakeForwardRequest b kLast"
  obtain r e1 where fw: "run_forward env e ids ?req (bi_caches b) = (r, e1)" by (metis surj_pair)
  note runs = RunBatchPass_staged [OF ne st(1,2) fw]
  have pc: "pass_caches prefill e ids (bi_caches b)" and cu: "fr_cu_seqlens ?req \<noteq> []"
    using st(3) by (auto simp: staged_def MakeForwardRequest_def)
  have phm: "\<forall>i\<in>set ids. ph i = Ready prefill" and dist: "distinct ids" using mem by (simp_all add: members_ready_def)
  obtain cs' where f: "length cs' = length ids" "request_map e1 = caches_stored ids cs' (request_map e)" "same_frame e e1"
    "forward_result env ph prefill ids ?req r e1"
    by (rule forward_ok [OF env wf pc ne phm _ _ _ _ _ fw]) (use st(3) cu in \<open>simp_all add: staged_def MakeForwardRequest_def\<close>)
  have td: "todo (request_map e1) = todo (request_map e)" by (simp add: f(2) todo_caches_stored)
  have run1: "\<exists>en'. request_map e1 (ids ! k) = Some en' \<and> sq_state (en_seq en') = kRunning \<and>
      map Paged_length (bi_caches b) ! k = ready_len prefill (en_seq en')" if k: "k < length ids" for k
  proof -
    obtain en where en: "request_map e (ids ! k) = Some en" "sq_state (en_seq en) = kRunning" using pc k by (auto simp: pass_caches_def)
    have "map Paged_length (bi_caches b) ! k = ready_len prefill (en_seq en)" using st(3) k en(1) pc by (simp add: staged_def pass_caches_def)
    then show ?thesis using en caches_stored_at [OF dist f(1) k] by (simp add: f(2) with_cache_def ready_len_def seq_len_def num_generated_def)
  qed
  show thesis
  proof (cases r)
    case (Inl err)
    then obtain code where err: "err = Status code" and w1: "engine_wf env (\<lambda>j. if j \<in> set ids then Dirty prefill else ph j) {} e1"
      using f(4) by (auto simp: forward_result_def split: failure.splits)
    have lc: "length (map Paged_length (bi_caches b)) = length ids" using pc by (simp add: pass_caches_def)
    obtain e2 where e2: "RecoverForwardFailure env prefill (zip ids (map Paged_length (bi_caches b))) e1 = Inr e2"
      "engine_wf env (\<lambda>j. if j \<in> set ids then Ready False else ph j) {} e2" "same_frame e1 e2" "todo (request_map e2) < todo (request_map e1)"
      by (rule recovered_pass_ok [OF env dist ne lc w1 run1])
    show thesis by (rule that [OF _ e2(2) same_frame_trans [OF f(3) e2(3)]]) (use runs(1) e2(1,4) Inl err ne td in simp_all)
  next
    case (Inr lg)
    obtain extents vals where lg: "lg = (extents, vals)" by (cases lg)
    have w1: "engine_wf env (\<lambda>j. if j \<in> set ids then Fed else ph j) {} e1"
      and sz: "int (length vals) = int (length ids) * mi_vocab_size (ev_model env)"
      using f(4) by (simp_all add: forward_result_def Inr lg)
    have rows: "length (bi_sample_rows b) = length ids" "rows_ok (ev_sampler env) vals (mi_vocab_size (ev_model env)) (bi_sample_rows b)"
      using st(3) by (simp_all add: staged_def)
    obtain e2 where e2: "sampled_pass env ids b vals e1 = Inr e2"
      "engine_wf env (\<lambda>j. if j \<in> set ids then Ready False else ph j) {} e2" "same_frame e1 e2"
      "todo (request_map e2) + length ids \<le> todo (request_map e1)"
      by (rule sampled_pass_ok [OF env dist w1 _ sz rows]) (use run1 in blast)
    have "0 < length ids" using ne by simp
    then have "todo (request_map e2) < todo (request_map e)" using e2(4) td by linarith
    then show thesis by (intro that [OF _ e2(2) same_frame_trans [OF f(3) e2(3)]]) (use runs(2) e2(1) Inr lg sz ne in simp_all)
  qed
qed

end
