(* ===== verification/Engine_Step.thy ===== *)
theory Engine_Step
  imports Engine_Pass
begin

text \<open>
  The rest of the step keeps the invariant: draining the commands, retiring the cancelled and the ended
  requests, applying a schedule. Then whole steps, client calls and teardown, and what follows for a
  running engine: no check of it ever fires, it always finishes its requests, and it returns every block.
\<close>

section \<open>Retiring\<close>

text \<open>The sequence's channel is closed and its request about to be erased.\<close>

lemma wf_close:
  assumes wf: "engine_wf env ph R e" and i: "request_map e i = Some en" "i \<notin> R"
    and map: "request_map e' = (request_map e)(i \<mapsto> en')" "distinct (map fst (eg_requests e'))" "seq_blocks (en_seq en') = seq_blocks (en_seq en)"
    and ch: "eg_channels e' = (eg_channels e)(i \<mapsto> c)" "channel_ok c" "oc_closed c"
    and same: "eg_config e' = eg_config e" "eg_commands e' = eg_commands e" "eg_next_id e' = eg_next_id e"
      "eg_pool e' = eg_pool e" "eg_waiting e' = eg_waiting e" "eg_running e' = eg_running e"
  shows "engine_wf env ph (insert i R) e'"
proof -
  have d: "dom (request_map e') = dom (request_map e)" using i map by auto
  have so: "seq_ok e' ph s \<longleftrightarrow> seq_ok e ph s" for ph s using same by (simp add: seq_ok_def)
  have pend: "pending e' = pending e" by (simp add: pending_def same(2))
  have oc: "open_channel (eg_channels e') j \<longleftrightarrow> open_channel (eg_channels e) j" if "j \<noteq> i" for j
    using that by (simp add: open_channel_def ch(1))
  have live: "live_ok ph e' j en''" if j: "request_map e' j = Some en''" "j \<notin> insert i R" for j en''
  proof -
    have "request_map e j = Some en''" using j map(1) by simp
    from wfD(5) [OF wf this] j(2) show ?thesis using oc so same by (simp add: live_ok_def)
  qed
  have pe: "pending_entry_ok e' en''" if "en'' \<in> set (pending e)" for en''
  proof -
    have p: "pending_entry_ok e en''" using wfD(11) [OF wf that] .
    then have "entry_id en'' \<noteq> i" using i(1) by (auto simp: pending_entry_ok_def)
    then show ?thesis using p oc so d by (simp add: pending_entry_ok_def)
  qed
  have chs: "channel_ok x \<and> (oc_closed x \<or> j \<in> dom (request_map e') - insert i R \<or> j \<in> entry_id ` set (pending e'))"
    if "eg_channels e' j = Some x" for j x
  proof (cases "j = i")
    case True
    then show ?thesis using that ch by simp
  next
    case False
    then show ?thesis using that ch(1) wfD(12) [OF wf] d pend by auto
  qed
  have some: "eg_channels e' j \<noteq> None \<longleftrightarrow> 1 \<le> j \<and> j < eg_next_id e'" for j
  proof (cases "j = i")
    case True
    have "open_channel (eg_channels e) i" using wfD(5) [OF wf i] by (simp add: live_ok_def)
    then show ?thesis using True wfD(13) [OF wf, of i] same(3) by (auto simp: open_channel_def ch(1))
  next
    case False
    then show ?thesis using wfD(13) [OF wf, of j] same(3) by (simp add: ch(1))
  qed
  have "live_blocks (request_map e') = live_blocks (request_map e)"
    using live_blocks_update [OF finite_requests, of e i] live_blocks_split [OF finite_requests i(1)] by (simp add: map)
  then show ?thesis
    unfolding engine_wf_def same pend using wf map(2) d live pe chs some by (auto simp: engine_wf_def same pend)
qed

lemma erase_ok:
  assumes wf: "engine_wf env ph R e" and i: "request_map e i = Some en" "i \<in> R"
  obtains e' where "erase_request i (e\<lparr>eg_waiting := removeAll i (eg_waiting e), eg_running := removeAll i (eg_running e)\<rparr>) = Inr e'"
    and "engine_wf env ph (R - {i}) e'" and "request_map e' = (request_map e)(i := None)" and "eg_commands e' = eg_commands e"
    and "eg_waiting e' = removeAll i (eg_waiting e)" and "eg_running e' = removeAll i (eg_running e)"
    and "eg_channels e' = eg_channels e" and "same_pool (eg_pool e) (eg_pool e')"
proof -
  let ?base = "e\<lparr>eg_waiting := removeAll i (eg_waiting e), eg_running := removeAll i (eg_running e)\<rparr>"
  obtain p where p: "ReleaseCache (eg_pool e) (en_seq en) = Inr (p, (en_seq en)\<lparr>sq_cache := None, sq_num_computed_tokens := 0\<rparr>)"
    "pool_holds p (live_blocks ((request_map e)(i := None)))" "same_pool (eg_pool e) p"
    using ReleaseCache_ok [OF wf_holds_split [OF wf i(1)]] .
  let ?e = "?base\<lparr>eg_pool := p, eg_requests := AList.delete i (eg_requests e)\<rparr>"
  have er: "erase_request i ?base = Inr ?e"
    using i(1) p(1) by (simp add: erase_request_def request_map_def)
  have m: "request_map ?e = (request_map e)(i := None)" by (simp add: request_map_def delete_conv')
  have so: "seq_ok ?e ph s \<longleftrightarrow> seq_ok e ph s" for ph s using p(3) by (simp add: seq_ok_def same_pool_def)
  have pend: "pending ?e = pending e" by (simp add: pending_def)
  have live: "live_ok ph ?e j en''" if j: "request_map ?e j = Some en''" "j \<notin> R - {i}" for j en''
  proof -
    have ne: "j \<noteq> i" "request_map e j = Some en''" using j(1) m by (auto split: if_splits)
    then have "live_ok ph e j en''" using wfD(5) [OF wf ne(2)] j(2) by simp
    then show ?thesis using so ne(1) by (simp add: live_ok_def)
  qed
  have pe: "pending_entry_ok ?e en''" if "en'' \<in> set (pending e)" for en''
    using wfD(11) [OF wf that] so m by (simp add: pending_entry_ok_def)
  have chs: "channel_ok x \<and> (oc_closed x \<or> j \<in> dom (request_map ?e) - (R - {i}) \<or> j \<in> entry_id ` set (pending ?e))"
    if "eg_channels ?e j = Some x" for j x
  proof -
    have "dom (request_map e) - R \<subseteq> dom (request_map ?e) - (R - {i})" using m i(2) by auto
    then show ?thesis using that wfD(12) [OF wf, of j x] pend by auto
  qed
  have keys: "distinct (map fst (eg_requests ?e))" using wfD(2) [OF wf] by (simp add: distinct_delete)
  have lists: "distinct (eg_waiting ?e @ eg_running ?e)" "set (eg_waiting ?e @ eg_running ?e) = dom (request_map ?e)"
    using wfD(3,4) [OF wf] m by (auto simp: distinct_removeAll)
  have "engine_wf env ph (R - {i}) ?e"
    unfolding engine_wf_def pend using wf keys lists live pe chs p(2,3) m wfD(4) [OF wf] wfD(13) [OF wf]
    by (auto simp: engine_wf_def same_pool_def pend)
  then show thesis by (rule that [OF er]) (use m p(3) in simp_all)
qed

text \<open>What a loop that closes channels leaves alone.\<close>

definition closing_frame :: "('f, 'm) Engine \<Rightarrow> ('f, 'm) Engine \<Rightarrow> bool" where
  "closing_frame e e' \<longleftrightarrow> eg_config e' = eg_config e \<and> eg_commands e' = eg_commands e \<and> eg_next_id e' = eg_next_id e \<and>
     eg_pool e' = eg_pool e \<and> eg_waiting e' = eg_waiting e \<and> eg_running e' = eg_running e \<and>
     dom (request_map e') = dom (request_map e)"

lemma closing_frame_refl [simp]: "closing_frame e e"
  by (simp add: closing_frame_def)

lemma closing_frame_trans: "closing_frame e f \<Longrightarrow> closing_frame f g \<Longrightarrow> closing_frame e g"
  by (simp add: closing_frame_def)

definition closed_as :: "('f, 'm) Engine \<Rightarrow> int \<Rightarrow> FinishInfo \<Rightarrow> bool" where
  "closed_as e i info \<longleftrightarrow> (\<exists>c. eg_channels e i = Some c \<and> oc_closed c \<and> oc_finish c = Some info)"

definition cancels :: "('f, 'm) Engine \<Rightarrow> int \<Rightarrow> bool" where
  "cancels e i \<longleftrightarrow> (\<exists>en. request_map e i = Some en \<and> en_cancel_requested en)"

definition all_live :: "int set \<Rightarrow> ('f, 'm) Engine \<Rightarrow> bool" where
  "all_live R e \<longleftrightarrow> (\<forall>i en. request_map e i = Some en \<longrightarrow> i \<notin> R \<longrightarrow> \<not> is_terminal (en_seq en))"

lemma CloseCancelled_ok:
  assumes "channel_ok c" and "eg_channels e (entry_id en) = Some c" and "\<not> oc_closed c" and "\<not> is_terminal (en_seq en)"
  shows "CloseCancelled e en = Inr (e\<lparr>eg_channels := (eg_channels e)(entry_id en \<mapsto>
      c\<lparr>oc_closed := True, oc_finish := Some (default_finish_info\<lparr>fi_terminal := kCancelled\<rparr>)\<rparr>)\<rparr>,
    en\<lparr>en_seq := (en_seq en)\<lparr>sq_state := kCancelled\<rparr>\<rparr>)"
  using assms by (cases "sq_state (en_seq en)")
    (simp_all add: CloseCancelled_def Transition_def IsLegalTransition_def is_terminal_def close_channel_def Close_def)

lemma cancel_one_ok:
  assumes wf: "engine_wf env ph R e" and i: "request_map e i = Some en" "i \<notin> R" and live: "all_live R e"
  obtains e' where "cancel_one i (e, retired) = Inr (e', if cancels e i then retired @ [i] else retired)"
    and "engine_wf env ph (if cancels e i then insert i R else R) e'" and "all_live (if cancels e i then insert i R else R) e'"
    and "closing_frame e e'" and "\<forall>j. j \<noteq> i \<longrightarrow> request_map e' j = request_map e j \<and> eg_channels e' j = eg_channels e j"
    and "if cancels e i then closed_as e' i (default_finish_info\<lparr>fi_terminal := kCancelled\<rparr>) else e' = e"
proof (cases "cancels e i")
  case False
  then have "cancel_one i (e, retired) = Inr (e, retired)" using at_request_ok [OF i(1)] i(1) by (simp add: cancel_one_def cancels_def)
  then show thesis by (intro that [of e]) (use False wf live in simp_all)
next
  case True
  have nt: "\<not> is_terminal (en_seq en)" using live i by (simp add: all_live_def)
  have lo: "entry_id en = i" "open_channel (eg_channels e) i" using wfD(5) [OF wf i] by (simp_all add: live_ok_def)
  obtain c where c: "eg_channels e i = Some c" "channel_ok c" "\<not> oc_closed c" using lo(2) by (auto simp: open_channel_def)
  let ?c = "c\<lparr>oc_closed := True, oc_finish := Some (default_finish_info\<lparr>fi_terminal := kCancelled\<rparr>)\<rparr>"
  let ?en = "en\<lparr>en_seq := (en_seq en)\<lparr>sq_state := kCancelled\<rparr>\<rparr>"
  let ?e = "put_request (e\<lparr>eg_channels := (eg_channels e)(i \<mapsto> ?c)\<rparr>) i ?en"
  have f: "cancel_one i (e, retired) = Inr (?e, retired @ [i])"
    using at_request_ok [OF i(1)] True i(1) nt CloseCancelled_ok [OF c(2) _ c(3) nt, of e] lo(1) c(1)
    by (auto simp: cancel_one_def cancels_def)
  have fld: "eg_channels ?e = (eg_channels e)(i \<mapsto> ?c)" "eg_config ?e = eg_config e" "eg_commands ?e = eg_commands e"
    "eg_next_id ?e = eg_next_id e" "eg_pool ?e = eg_pool e" "eg_waiting ?e = eg_waiting e" "eg_running ?e = eg_running e"
    "request_map ?e = (request_map e)(i \<mapsto> ?en)" "distinct (map fst (eg_requests ?e))"
    using wfD(2) [OF wf] by (simp_all add: put_request_def request_map_def update_conv' distinct_update)
  have "engine_wf env ph (insert i R) ?e"
    by (rule wf_close [OF wf i fld(8,9) _ fld(1) _ _ fld(2-7)]) (use c in \<open>simp_all add: seq_blocks_def channel_ok_def\<close>)
  moreover have "all_live (insert i R) ?e" using live by (auto simp: all_live_def fld(8))
  moreover have "closing_frame e ?e" using i(1) by (auto simp: closing_frame_def fld)
  ultimately show thesis by (intro that [of ?e]) (use f True in \<open>simp_all add: fld closed_as_def\<close>)
qed

lemma cancel_loop_ok:
  assumes "engine_wf env ph R e" and "all_live R e" and "distinct ids" and "set ids \<subseteq> dom (request_map e) - R"
  shows "\<exists>e'. fold_ok cancel_one ids (e, retired) = Inr (e', retired @ filter (cancels e) ids) \<and>
    engine_wf env ph (R \<union> set (filter (cancels e) ids)) e' \<and> all_live (R \<union> set (filter (cancels e) ids)) e' \<and> closing_frame e e' \<and>
    (\<forall>j. j \<notin> set (filter (cancels e) ids) \<longrightarrow> request_map e' j = request_map e j \<and> eg_channels e' j = eg_channels e j) \<and>
    (\<forall>i\<in>set (filter (cancels e) ids). closed_as e' i (default_finish_info\<lparr>fi_terminal := kCancelled\<rparr>))"
  using assms
proof (induction ids arbitrary: R e retired)
  case (Cons i ids)
  obtain en where i: "request_map e i = Some en" "i \<notin> R" using Cons.prems(4) by auto
  let ?R = "if cancels e i then insert i R else R" and ?r = "if cancels e i then retired @ [i] else retired"
  obtain e1 where e1: "cancel_one i (e, retired) = Inr (e1, ?r)" "engine_wf env ph ?R e1" "all_live ?R e1" "closing_frame e e1"
    "\<forall>j. j \<noteq> i \<longrightarrow> request_map e1 j = request_map e j \<and> eg_channels e1 j = eg_channels e j"
    "if cancels e i then closed_as e1 i (default_finish_info\<lparr>fi_terminal := kCancelled\<rparr>) else e1 = e"
    by (rule cancel_one_ok [OF Cons.prems(1) i Cons.prems(2), of retired])
  have "set ids \<subseteq> dom (request_map e1) - ?R" "distinct ids" using Cons.prems(3,4) e1(4) by (auto simp: closing_frame_def)
  from Cons.IH [OF e1(2,3) this(2,1), of ?r]
  obtain e2 where e2: "fold_ok cancel_one ids (e1, ?r) = Inr (e2, ?r @ filter (cancels e1) ids)"
    "engine_wf env ph (?R \<union> set (filter (cancels e1) ids)) e2" "all_live (?R \<union> set (filter (cancels e1) ids)) e2" "closing_frame e1 e2"
    "\<forall>j. j \<notin> set (filter (cancels e1) ids) \<longrightarrow> request_map e2 j = request_map e1 j \<and> eg_channels e2 j = eg_channels e1 j"
    "\<forall>i\<in>set (filter (cancels e1) ids). closed_as e2 i (default_finish_info\<lparr>fi_terminal := kCancelled\<rparr>)" by blast
  have ni: "i \<notin> set ids" using Cons.prems(3) by simp
  have same: "filter (cancels e1) ids = filter (cancels e) ids"
    by (rule filter_cong) (use e1(5) ni in \<open>auto simp: cancels_def\<close>)
  have R: "?R \<union> set (filter (cancels e1) ids) = R \<union> set (filter (cancels e) (i # ids))" by (auto simp: same)
  have r: "?r @ filter (cancels e1) ids = retired @ filter (cancels e) (i # ids)" by (simp add: same)
  have "closed_as e2 i (default_finish_info\<lparr>fi_terminal := kCancelled\<rparr>)" if "cancels e i"
    using e1(6) e2(5) ni that by (simp add: closed_as_def)
  moreover have "request_map e2 j = request_map e j \<and> eg_channels e2 j = eg_channels e j" if "j \<notin> set (filter (cancels e) (i # ids))" for j
    using that e1(5,6) e2(5) by (cases "j = i") (auto simp: same split: if_splits)
  ultimately show ?case
    using e1(1) e2(1-3,6) closing_frame_trans [OF e1(4) e2(4)] unfolding R r by (intro exI [of _ e2]) (auto simp: same)
qed simp

lemma retire_loop_ok:
  assumes "engine_wf env ph R e" and "distinct ids" and "set ids \<subseteq> R \<inter> dom (request_map e)"
  shows "\<exists>e'. fold_ok retire_one ids e = Inr e' \<and> engine_wf env ph (R - set ids) e' \<and>
    request_map e' = request_map e |` (- set ids) \<and> eg_commands e' = eg_commands e \<and> eg_channels e' = eg_channels e"
  using assms
proof (induction ids arbitrary: R e)
  case Nil
  then show ?case by (simp add: restrict_map_def fun_eq_iff)
next
  case (Cons i ids)
  obtain en where i: "request_map e i = Some en" "i \<in> R" using Cons.prems(3) by auto
  obtain e1 where e1: "retire_one i e = Inr e1" "engine_wf env ph (R - {i}) e1" "request_map e1 = (request_map e)(i := None)"
    "eg_commands e1 = eg_commands e" "eg_channels e1 = eg_channels e"
    by (rule erase_ok [OF Cons.prems(1) i]) (use retire_one_def [of i e] in simp)
  have "distinct ids" "set ids \<subseteq> (R - {i}) \<inter> dom (request_map e1)" using Cons.prems(2,3) e1(3) by auto
  from Cons.IH [OF e1(2) this]
  obtain e2 where e2: "fold_ok retire_one ids e1 = Inr e2" "engine_wf env ph (R - {i} - set ids) e2"
    "request_map e2 = request_map e1 |` (- set ids)" "eg_commands e2 = eg_commands e1" "eg_channels e2 = eg_channels e1" by blast
  have "request_map e1 |` (- set ids) = request_map e |` (- set (i # ids))" by (auto simp: e1(3) restrict_map_def fun_eq_iff)
  moreover have "R - {i} - set ids = R - set (i # ids)" by auto
  ultimately show ?case using e1(1,4,5) e2 by auto
qed

lemma request_keys: "set (map fst (eg_requests e)) = dom (request_map e)"
  by (simp add: request_map_def dom_map_of_conv_image_fst)

lemma RetireCancelled_ok:
  assumes env: "env_wf env" and wf: "engine_wf env ph {} e" and live: "all_live {} e"
  obtains e' where "RetireCancelled env e = Inr e'" and "engine_wf env ph {} e'" and "all_live {} e'"
    and "request_map e' = request_map e |` {i. \<not> cancels e i}" and "eg_commands e' = eg_commands e"
    and "\<forall>i. if cancels e i then closed_as e' i (default_finish_info\<lparr>fi_terminal := kCancelled\<rparr>) else eg_channels e' i = eg_channels e i"
proof -
  let ?ids = "ev_request_order env (map fst (eg_requests e))"
  have m: "mset ?ids = mset (map fst (eg_requests e))" using env unfolding env_wf_def by blast
  have "set ?ids = dom (request_map e)" using mset_eq_setD [OF m] request_keys by (simp only:)
  moreover have "distinct ?ids" using wfD(2) [OF wf] mset_eq_imp_distinct_iff [OF m] by simp
  ultimately have ids: "distinct ?ids" "set ?ids = dom (request_map e)" by blast+
  let ?C = "filter (cancels e) ?ids"
  have C: "set ?C = {i. cancels e i}" using ids(2) by (auto simp: cancels_def)
  obtain e1 where e1: "fold_ok cancel_one ?ids (e, []) = Inr (e1, ?C)" "engine_wf env ph (set ?C) e1" "all_live (set ?C) e1" "closing_frame e e1"
    "\<forall>j. j \<notin> set ?C \<longrightarrow> request_map e1 j = request_map e j \<and> eg_channels e1 j = eg_channels e j"
    "\<forall>i\<in>set ?C. closed_as e1 i (default_finish_info\<lparr>fi_terminal := kCancelled\<rparr>)"
    using cancel_loop_ok [OF wf live ids(1), of "[]"] ids(2) by auto
  have "distinct ?C" "set ?C \<subseteq> set ?C \<inter> dom (request_map e1)" using ids e1(4) by (auto simp: closing_frame_def)
  from retire_loop_ok [OF e1(2) this]
  obtain e2 where e2: "fold_ok retire_one ?C e1 = Inr e2" "engine_wf env ph {} e2" "request_map e2 = request_map e1 |` (- set ?C)"
    "eg_commands e2 = eg_commands e1" "eg_channels e2 = eg_channels e1" by auto
  have m2: "request_map e2 = request_map e |` {i. \<not> cancels e i}"
    using e1(5) unfolding e2(3) C by (auto simp: restrict_map_def fun_eq_iff)
  have "all_live {} e2" using live by (auto simp: all_live_def m2 restrict_map_def split: if_splits)
  moreover have "RetireCancelled env e = Inr e2" using e1(1) e2(1) by (simp add: RetireCancelled_def)
  moreover have "if cancels e i then closed_as e2 i (default_finish_info\<lparr>fi_terminal := kCancelled\<rparr>) else eg_channels e2 i = eg_channels e i" for i
    using e1(5,6) e2(5) unfolding C by (auto simp: closed_as_def)
  ultimately show thesis using that e2(2,4) m2 e1(4) by (simp add: closing_frame_def)
qed

text \<open>The sequences that ended in the step.\<close>

definition ended :: "('f, 'm) Engine \<Rightarrow> int \<Rightarrow> bool" where
  "ended e i \<longleftrightarrow> (\<exists>en. request_map e i = Some en \<and> is_terminal (en_seq en))"

lemma retire_terminal_loop_ok:
  assumes "engine_wf env ph R e" and "distinct ids" and "set ids \<subseteq> dom (request_map e) - R"
  shows "\<exists>e'. fold_ok retire_terminal ids (e, retired) = Inr (e', retired @ filter (ended e) ids) \<and>
    engine_wf env ph (R \<union> set (filter (ended e) ids)) e' \<and> closing_frame e e' \<and> request_map e' = request_map e"
  using assms
proof (induction ids arbitrary: R e retired)
  case (Cons i ids)
  obtain en where i: "request_map e i = Some en" "i \<notin> R" using Cons.prems(3) by auto
  have ids: "distinct ids" "set ids \<subseteq> dom (request_map e) - R" "i \<notin> set ids" using Cons.prems(2,3) by auto
  show ?case
  proof (cases "is_terminal (en_seq en)")
    case False
    then have "retire_terminal i (e, retired) = Inr (e, retired)" "\<not> ended e i"
      using at_request_ok [OF i(1)] i(1) by (simp_all add: retire_terminal_def ended_def)
    then show ?thesis using Cons.IH [OF Cons.prems(1) ids(1,2), of retired] by auto
  next
    case True
    obtain info where info: "MakeFinishInfo (en_seq en) = Inr info" using True by (simp add: MakeFinishInfo_def)
    obtain c where c: "eg_channels e i = Some c" "channel_ok c" "\<not> oc_closed c"
      using wfD(5) [OF Cons.prems(1) i] by (auto simp: live_ok_def open_channel_def)
    let ?c = "c\<lparr>oc_closed := True, oc_finish := Some info\<rparr>"
    let ?e = "e\<lparr>eg_channels := (eg_channels e)(i \<mapsto> ?c)\<rparr>"
    have f: "retire_terminal i (e, retired) = Inr (?e, retired @ [i])" and en: "ended e i"
      using at_request_ok [OF i(1)] i(1) True info c by (simp_all add: retire_terminal_def ended_def close_channel_def Close_def)
    have m: "request_map ?e = request_map e" by (simp add: request_map_def)
    have upd: "request_map ?e = (request_map e)(i \<mapsto> en)" using m i(1) by auto
    have "engine_wf env ph (insert i R) ?e"
      by (rule wf_close [OF Cons.prems(1) i upd, where c = ?c]) (use c wfD(2) [OF Cons.prems(1)] in \<open>simp_all add: channel_ok_def\<close>)
    from Cons.IH [OF this ids(1), of "retired @ [i]"] ids
    obtain e2 where e2: "fold_ok retire_terminal ids (?e, retired @ [i]) = Inr (e2, (retired @ [i]) @ filter (ended ?e) ids)"
      "engine_wf env ph (insert i R \<union> set (filter (ended ?e) ids)) e2" "closing_frame ?e e2" "request_map e2 = request_map ?e" by (auto simp: m)
    have same: "ended ?e = ended e" by (simp add: ended_def m fun_eq_iff)
    have R: "insert i R \<union> set (filter (ended ?e) ids) = R \<union> set (filter (ended e) (i # ids))" using en by (auto simp: same)
    have cf: "closing_frame e e2" using e2(3) by (simp add: closing_frame_def m)
    show ?thesis using f e2(1,2,4) en cf unfolding R m by (intro exI [of _ e2]) (simp add: same)
  qed
qed simp

lemma retire_running_eq: "i \<notin> set (eg_waiting e) \<Longrightarrow> retire_running i e = retire_one i e"
  by (simp add: retire_running_def retire_one_def)

lemma erase_request_waiting: "erase_request i e = Inr e' \<Longrightarrow> eg_waiting e' = eg_waiting e"
  by (auto simp: erase_request_def split: option.splits elim!: bind_okE)

lemma retire_one_waiting: "retire_one i e = Inr e' \<Longrightarrow> eg_waiting e' = removeAll i (eg_waiting e)"
  unfolding retire_one_def by (drule erase_request_waiting) simp

lemma retire_running_loop: "\<forall>i\<in>set ids. i \<notin> set (eg_waiting e) \<Longrightarrow> fold_ok retire_running ids e = fold_ok retire_one ids e"
proof (induction ids arbitrary: e)
  case (Cons i ids)
  then show ?case by (cases "retire_one i e") (simp_all add: retire_running_eq retire_one_waiting)
qed simp

lemma RetireTerminal_ok:
  assumes wf: "engine_wf env ph {} e"
  obtains e' where "RetireTerminal e = Inr e'" and "engine_wf env ph {} e'" and "all_live {} e'"
    and "request_map e' = request_map e |` {i. \<not> ended e i}" and "eg_commands e' = eg_commands e"
proof -
  have run: "distinct (eg_running e)" "set (eg_running e) \<subseteq> dom (request_map e) - {}" "set (eg_waiting e) \<inter> set (eg_running e) = {}"
    using wfD(3,4) [OF wf] by auto
  let ?T = "filter (ended e) (eg_running e)"
  obtain e1 where e1: "fold_ok retire_terminal (eg_running e) (e, []) = Inr (e1, ?T)" "engine_wf env ph (set ?T) e1" "closing_frame e e1"
    "request_map e1 = request_map e" using retire_terminal_loop_ok [OF wf run(1,2), of "[]"] by auto
  have T: "set ?T = {i. ended e i}"
  proof -
    have "i \<in> set (eg_running e)" if "ended e i" for i
    proof -
      obtain en where "request_map e i = Some en" "is_terminal (en_seq en)" using \<open>ended e i\<close> by (auto simp: ended_def)
      then show ?thesis using running_member(1) [OF wf] by (auto simp: is_terminal_def queued_def)
    qed
    then show ?thesis by auto
  qed
  have "distinct ?T" "set ?T \<subseteq> set ?T \<inter> dom (request_map e1)" using run e1(4) by auto
  from retire_loop_ok [OF e1(2) this]
  obtain e2 where e2: "fold_ok retire_one ?T e1 = Inr e2" "engine_wf env ph {} e2" "request_map e2 = request_map e1 |` (- set ?T)"
    "eg_commands e2 = eg_commands e1" by auto
  have "fold_ok retire_running ?T e1 = fold_ok retire_one ?T e1"
    by (rule retire_running_loop) (use run(3) e1(3) in \<open>auto simp: closing_frame_def\<close>)
  then have "RetireTerminal e = Inr e2" using e1(1) e2(1) by (simp add: RetireTerminal_def)
  moreover have m2: "request_map e2 = request_map e |` {i. \<not> ended e i}"
    unfolding e2(3) e1(4) T by (auto simp: restrict_map_def fun_eq_iff)
  moreover have "all_live {} e2" by (auto simp: all_live_def m2 restrict_map_def ended_def split: if_splits)
  ultimately show thesis using that e2(2,4) e1(3) by (simp add: closing_frame_def)
qed

section \<open>Draining the commands\<close>

text \<open>The tokens still to produce, over live and submitted requests.\<close>

definition engine_todo :: "('f, 'm) Engine \<Rightarrow> nat" where
  "engine_todo e = todo (request_map e) + sum_list (map (\<lambda>en. seq_todo (en_seq en)) (pending e))"

lemma pending_Cons [simp]:
  "pending (e\<lparr>eg_commands := SubmitCmd en # cs\<rparr>) = en # pending (e\<lparr>eg_commands := cs\<rparr>)"
  "pending (e\<lparr>eg_commands := CancelCmd i # cs\<rparr>) = pending (e\<lparr>eg_commands := cs\<rparr>)"
  "pending (e\<lparr>eg_commands := []\<rparr>) = []"
  by (simp_all add: pending_def List.map_filter_def)

text \<open>A cancellation only marks its entry.\<close>

lemma wf_mark:
  assumes wf: "engine_wf env ph {} e" and i: "request_map e i = Some en"
  shows "engine_wf env ph {} (put_request e i (en\<lparr>en_cancel_requested := b\<rparr>))"
    and "request_map (put_request e i (en\<lparr>en_cancel_requested := b\<rparr>)) = (request_map e)(i \<mapsto> en\<lparr>en_cancel_requested := b\<rparr>)"
proof -
  let ?en = "en\<lparr>en_cancel_requested := b\<rparr>"
  let ?e = "put_request e i ?en"
  show m: "request_map ?e = (request_map e)(i \<mapsto> ?en)" by (simp add: put_request_def request_map_def update_conv')
  have d: "dom (request_map ?e) = dom (request_map e)" using i m by auto
  have fld: "eg_config ?e = eg_config e" "eg_commands ?e = eg_commands e" "eg_next_id ?e = eg_next_id e" "eg_pool ?e = eg_pool e"
    "eg_waiting ?e = eg_waiting e" "eg_running ?e = eg_running e" "eg_channels ?e = eg_channels e" by (simp_all add: put_request_def)
  have so: "seq_ok ?e ph s \<longleftrightarrow> seq_ok e ph s" for ph s by (simp add: seq_ok_def fld)
  have pend: "pending ?e = pending e" by (simp add: pending_def fld)
  have keys: "distinct (map fst (eg_requests ?e))" using wfD(2) [OF wf] by (simp add: put_request_def distinct_update)
  have live: "live_ok ph ?e j en'" if j: "request_map ?e j = Some en'" for j en'
  proof (cases "j = i")
    case True
    then have en': "en' = ?en" using j m by simp
    show ?thesis unfolding True en' using wfD(5) [OF wf i] so by (simp add: live_ok_def fld entry_id_def)
  next
    case False
    then have "live_ok ph e j en'" using j m wfD(5) [OF wf, of j en'] by simp
    then show ?thesis using so by (simp add: live_ok_def fld)
  qed
  have pe: "pending_entry_ok ?e en'" if "en' \<in> set (pending e)" for en'
    using wfD(11) [OF wf that] so d by (simp add: pending_entry_ok_def fld)
  have "live_blocks (request_map ?e) = live_blocks (request_map e)"
    using live_blocks_update [OF finite_requests, of e i] live_blocks_split [OF finite_requests i] by (simp add: m)
  then show "engine_wf env ph {} ?e"
    unfolding engine_wf_def pend fld using wf keys live pe d by (auto simp: engine_wf_def)
qed

text \<open>A submitted entry joins the waiting queue and the request map.\<close>

lemma wf_admit_pending:
  assumes wf: "engine_wf env ph {} (e\<lparr>eg_commands := SubmitCmd en # cs\<rparr>)"
  shows "engine_wf env ph {} (e\<lparr>eg_commands := cs, eg_waiting := eg_waiting e @ [entry_id en], eg_requests := eg_requests e @ [(entry_id en, en)]\<rparr>)"
    and "entry_id en \<notin> dom (request_map e)"
    and "request_map (e\<lparr>eg_commands := cs, eg_waiting := eg_waiting e @ [entry_id en], eg_requests := eg_requests e @ [(entry_id en, en)]\<rparr>) =
      (request_map e)(entry_id en \<mapsto> en)"
    and "\<not> is_terminal (en_seq en)"
proof -
  let ?i = "entry_id en" and ?b = "e\<lparr>eg_commands := SubmitCmd en # cs\<rparr>"
  let ?e = "e\<lparr>eg_commands := cs, eg_waiting := eg_waiting e @ [entry_id en], eg_requests := eg_requests e @ [(entry_id en, en)]\<rparr>"
  have mb: "request_map ?b = request_map e" by (simp add: request_map_def)
  have pb: "pending ?b = en # pending ?e" by (simp add: pending_def List.map_filter_def)
  have p: "pending_entry_ok ?b en" using wfD(11) [OF wf, of en] by (simp add: pb)
  then have st: "sq_state (en_seq en) = kWaiting" "seq_ok e (Ready True) (en_seq en)" "open_channel (eg_channels e) ?i"
    by (simp_all add: pending_entry_ok_def seq_ok_def)
  show new: "?i \<notin> dom (request_map e)" using p by (simp add: pending_entry_ok_def mb)
  show m: "request_map ?e = (request_map e)(?i \<mapsto> en)"
  proof
    show "request_map ?e j = ((request_map e)(?i \<mapsto> en)) j" for j
      using new by (cases "request_map e j") (auto simp: request_map_def map_add_def split: option.split)
  qed
  show "\<not> is_terminal (en_seq en)" using st(1) by (simp add: is_terminal_def)
  have wa: "set (eg_waiting e @ eg_running e) = dom (request_map e)" "distinct (eg_waiting e @ eg_running e)"
    using wfD(3,4) [OF wf] by (simp_all add: mb)
  have so: "seq_ok ?e ph s \<longleftrightarrow> seq_ok ?b ph s" "seq_ok ?b ph s \<longleftrightarrow> seq_ok e ph s" for ph s by (simp_all add: seq_ok_def)
  have live: "live_ok ph ?e j en'" if j: "request_map ?e j = Some en'" for j en'
  proof (cases "j = ?i")
    case True
    then have "en' = en" using j m by simp
    then show ?thesis using True st so by (simp add: live_ok_def seq_ok_def seq_inv_def queued_def)
  next
    case False
    then have "live_ok ph ?b j en'" using j m wfD(5) [OF wf, of j en'] by (simp add: mb)
    then show ?thesis using so False by (simp add: live_ok_def)
  qed
  have dist: "distinct (map entry_id (en # pending ?e))" using wfD(10) [OF wf] by (simp only: pb)
  have pe: "pending_entry_ok ?e en'" if e': "en' \<in> set (pending ?e)" for en'
  proof -
    have "en' \<in> set (pending ?b)" unfolding pb using e' by simp
    then have "pending_entry_ok ?b en'" by (rule wfD(11) [OF wf])
    moreover have "entry_id en' \<noteq> ?i" using dist e' by (auto simp: image_iff)
    ultimately show ?thesis using so by (simp add: pending_entry_ok_def m mb)
  qed
  have chs: "channel_ok x \<and> (oc_closed x \<or> j \<in> dom (request_map ?e) - {} \<or> j \<in> entry_id ` set (pending ?e))"
    if "eg_channels ?e j = Some x" for j x
    using wfD(12) [OF wf, of j x, unfolded pb mb] that by (auto simp: m)
  have lb: "live_blocks (request_map ?e) = live_blocks (request_map e)"
  proof -
    have "(request_map e)(?i := None) = request_map e" using new by (auto simp: fun_eq_iff)
    moreover have "seq_blocks (en_seq en) = []"
      using st by (simp add: seq_ok_def seq_inv_def seq_blocks_def PagedKvCache_ctor_def BlockTable_ctor_def)
    ultimately show ?thesis using live_blocks_update [OF finite_requests, of e ?i en] by (simp add: m)
  qed
  have keys: "distinct (map fst (eg_requests ?e))" using wfD(2) [OF wf] new request_keys [of e] by auto
  have lists: "distinct (eg_waiting ?e @ eg_running ?e)" "set (eg_waiting ?e @ eg_running ?e) = dom (request_map ?e)"
    using wa new by (auto simp: m)
  have ph: "pool_holds (eg_pool ?e) (live_blocks (request_map ?e))" using wfD(1) [OF wf] lb mb by simp
  have dp: "distinct (map entry_id (pending ?e))" using dist by simp
  show "engine_wf env ph {} ?e"
    unfolding engine_wf_def using keys lists live pe dp chs ph wfD(6-9) [OF wf] wfD(13,14) [OF wf] by auto
qed

lemma apply_command_commands [simp]:
  "apply_command cmd (e\<lparr>eg_commands := cs\<rparr>) = (apply_command cmd e)\<lparr>eg_commands := cs\<rparr>"
  by (simp add: apply_command_def put_request_def Let_def split: Command.split option.split)

text \<open>One command, with the ones behind it still queued.\<close>

lemma apply_command_ok:
  fixes e :: "('f, 'm) Engine"
  assumes wf: "engine_wf env ph {} (e\<lparr>eg_commands := cmd # cs\<rparr>)" and live: "all_live {} e"
  shows "engine_wf env ph {} ((apply_command cmd e)\<lparr>eg_commands := cs\<rparr>)" and "all_live {} (apply_command cmd e)"
    and "engine_todo ((apply_command cmd e)\<lparr>eg_commands := cs\<rparr>) = engine_todo (e\<lparr>eg_commands := cmd # cs\<rparr>)"
proof -
  let ?b = "e\<lparr>eg_commands := cmd # cs\<rparr>" and ?e = "(apply_command cmd e)\<lparr>eg_commands := cs\<rparr>"
  have rm: "request_map (d\<lparr>eg_commands := x\<rparr>) = request_map d" for d :: "('f, 'm) Engine" and x by (simp add: request_map_def)
  have "engine_wf env ph {} ?e \<and> all_live {} (apply_command cmd e) \<and> engine_todo ?e = engine_todo ?b"
  proof (cases cmd)
    case (SubmitCmd en)
    note a = wf_admit_pending [OF wf [unfolded SubmitCmd]]
    have none: "map_of (eg_requests e) (entry_id en) = None" using a(2) by (simp add: request_map_def domIff)
    have eq: "?e = e\<lparr>eg_commands := cs, eg_waiting := eg_waiting e @ [entry_id en], eg_requests := eg_requests e @ [(entry_id en, en)]\<rparr>"
      by (simp add: apply_command_def SubmitCmd Let_def none)
    have m: "request_map ?e = (request_map e)(entry_id en \<mapsto> en)" unfolding eq by (rule a(3))
    have "all_live {} (apply_command cmd e)" using live a(4) m by (simp add: all_live_def rm)
    moreover have "todo (request_map ?e) = seq_todo (en_seq en) + todo (request_map e)"
    proof -
      have "(request_map e)(entry_id en := None) = request_map e" using a(2) by (auto simp: fun_eq_iff)
      then show ?thesis using todo_update [OF finite_requests, of e "entry_id en" en] by (simp add: m)
    qed
    moreover have "pending ?b = en # pending ?e" unfolding eq SubmitCmd by (simp add: pending_def List.map_filter_def)
    ultimately show ?thesis using a(1) unfolding eq [symmetric] engine_todo_def by (simp add: rm)
  next
    case (CancelCmd i)
    have "pending ?b = pending (e\<lparr>eg_commands := cs\<rparr>)" by (simp add: CancelCmd)
    have wf1: "engine_wf env ph {} (e\<lparr>eg_commands := cs\<rparr>)"
      using wf unfolding CancelCmd engine_wf_def by (simp add: rm live_ok_def seq_ok_def pending_entry_ok_def)
    show ?thesis
    proof (cases "map_of (eg_requests e) i")
      case None
      then have "apply_command cmd e = e" by (simp add: apply_command_def CancelCmd)
      then show ?thesis using wf1 live by (simp add: engine_todo_def rm CancelCmd)
    next
      case (Some en)
      let ?en = "en\<lparr>en_cancel_requested := True\<rparr>"
      have i: "request_map (e\<lparr>eg_commands := cs\<rparr>) i = Some en" using Some by (simp add: request_map_def)
      have eq: "?e = put_request (e\<lparr>eg_commands := cs\<rparr>) i ?en" by (simp add: apply_command_def CancelCmd Some put_request_def)
      note w = wf_mark [OF wf1 i, of True]
      have m: "request_map ?e = (request_map e)(i \<mapsto> ?en)" unfolding eq w(2) by (simp add: rm)
      have "all_live {} (apply_command cmd e)" using live m i by (auto simp: all_live_def rm)
      moreover have "todo (request_map ?e) = todo (request_map e)"
        using todo_at [of e i en ?e ?en] i m by (simp add: rm)
      moreover have "pending ?e = pending ?b" by (simp add: CancelCmd) (simp add: pending_def)
      ultimately show ?thesis using w(1) unfolding eq [symmetric] engine_todo_def by (simp add: rm)
    qed
  qed
  then show "engine_wf env ph {} ?e" "all_live {} (apply_command cmd e)" "engine_todo ?e = engine_todo ?b" by blast+
qed

lemma DrainCommands_ok:
  fixes e :: "('f, 'm) Engine"
  assumes "engine_wf env ph {} e" and "all_live {} e"
  shows "engine_wf env ph {} (DrainCommands e)" and "all_live {} (DrainCommands e)" and "eg_commands (DrainCommands e) = []"
    and "engine_todo (DrainCommands e) = engine_todo e"
proof -
  have "engine_wf env ph {} (fold apply_command cs (d\<lparr>eg_commands := []\<rparr>)) \<and> all_live {} (fold apply_command cs (d\<lparr>eg_commands := []\<rparr>)) \<and>
      eg_commands (fold apply_command cs (d\<lparr>eg_commands := []\<rparr>)) = [] \<and>
      engine_todo (fold apply_command cs (d\<lparr>eg_commands := []\<rparr>)) = engine_todo (d\<lparr>eg_commands := cs\<rparr>)"
    if "engine_wf env ph {} (d\<lparr>eg_commands := cs\<rparr>)" "all_live {} d" for cs and d :: "('f, 'm) Engine"
    using that
  proof (induction cs arbitrary: d)
    case Nil
    then show ?case by (simp add: all_live_def request_map_def)
  next
    case (Cons cmd cs)
    note a = apply_command_ok [OF Cons.prems]
    show ?case using Cons.IH [OF a(1,2)] a(3) by simp
  qed
  from this [of "eg_commands e" e] assms
  show "engine_wf env ph {} (DrainCommands e)" "all_live {} (DrainCommands e)" "eg_commands (DrainCommands e) = []"
    "engine_todo (DrainCommands e) = engine_todo e" by (simp_all add: DrainCommands_def)
qed

section \<open>Scheduling\<close>

text \<open>Between steps: every running sequence is ready for a decode, and none has ended.\<close>

text \<open>The batch never grows wider than the configuration's bound, a C \<open>int\<close>.\<close>

definition batch_width :: "('f, 'm) Engine \<Rightarrow> bool" where
  "batch_width e \<longleftrightarrow> int (length (eg_running e)) \<le> ec_max_num_seqs (eg_config e) \<and> ec_max_num_seqs (eg_config e) \<le> INT32_MAX"

definition engine_idle_wf :: "('f, 'm) EngineEnv \<Rightarrow> ('f, 'm) Engine \<Rightarrow> bool" where
  "engine_idle_wf env e \<longleftrightarrow> engine_wf env (\<lambda>_. Ready False) {} e \<and> all_live {} e \<and> batch_width e"

definition waiting_of :: "('f, 'm) Engine \<Rightarrow> int \<Rightarrow> SeqDesc \<Rightarrow> bool" where
  "waiting_of e i d \<longleftrightarrow> sd_id d = i \<and> desc_ok d \<and> sd_num_prompt_tokens d \<le> ec_max_num_batched_tokens (eg_config e) \<and>
     sd_num_prompt_tokens d \<le> pool_num_blocks (eg_pool e) * pool_block_size (eg_pool e) \<and>
     sd_num_prompt_tokens d = seq_len (en_seq (the (request_map e i)))"

definition held_of :: "('f, 'm) Engine \<Rightarrow> int \<Rightarrow> int" where
  "held_of e i = (case request_map e i of None \<Rightarrow> 0 | Some en \<Rightarrow> int (length (seq_blocks (en_seq en))))"

definition running_of :: "('f, 'm) Engine \<Rightarrow> int \<Rightarrow> SeqDesc \<Rightarrow> bool" where
  "running_of e i d \<longleftrightarrow> sd_id d = i \<and> desc_ok d \<and> sd_blocks_held d = held_of e i \<and>
     sd_blocks_held d + dneed (pool_block_size (eg_pool e)) d \<le> pool_num_blocks (eg_pool e)"

lemma idle_entry:
  assumes "engine_idle_wf env e" and "request_map e i = Some en"
  shows "seq_ok e (Ready False) (en_seq en)" and "\<not> is_terminal (en_seq en)"
    and "seq_len (en_seq en) \<le> ec_max_num_batched_tokens (eg_config e)"
    and "seq_len (en_seq en) \<le> pool_num_blocks (eg_pool e) * pool_block_size (eg_pool e)"
    and "1 \<le> seq_len (en_seq en)" and "i \<in> set (eg_waiting e) \<longleftrightarrow> queued (sq_state (en_seq en))"
proof -
  have wf: "engine_wf env (\<lambda>_. Ready False) {} e" and al: "all_live {} e" using assms(1) by (simp_all add: engine_idle_wf_def)
  have lo: "live_ok (\<lambda>_. Ready False) e i en" using wfD(5) [OF wf assms(2)] by simp
  show so: "seq_ok e (Ready False) (en_seq en)" and "i \<in> set (eg_waiting e) \<longleftrightarrow> queued (sq_state (en_seq en))"
    using lo by (simp_all add: live_ok_def)
  show nt: "\<not> is_terminal (en_seq en)" using al assms(2) by (simp add: all_live_def)
  have rq: "request_wf (ec_max_num_batched_tokens (eg_config e)) (pool_num_blocks (eg_pool e) * pool_block_size (eg_pool e)) (sq_request (en_seq en))"
    "num_generated (en_seq en) < max_tokens (rq_params (sq_request (en_seq en)))"
    using so nt by (simp_all add: seq_ok_def seq_inv_def)
  then show "seq_len (en_seq en) \<le> ec_max_num_batched_tokens (eg_config e)"
    "seq_len (en_seq en) \<le> pool_num_blocks (eg_pool e) * pool_block_size (eg_pool e)" by (simp_all add: request_wf_def seq_len_def)
  have "rq_prompt_ids (sq_request (en_seq en)) \<noteq> []" using rq(1) by (simp add: request_wf_def)
  then show "1 \<le> seq_len (en_seq en)" by (cases "rq_prompt_ids (sq_request (en_seq en))") (simp_all add: seq_len_def num_generated_def)
qed

lemma waiting_desc_ok:
  assumes "engine_idle_wf env e" and "i \<in> set (eg_waiting e)"
  shows "\<exists>d. waiting_desc e i = Inr d \<and> waiting_of e i d" and "held_of e i = 0"
proof -
  have wf: "engine_wf env (\<lambda>_. Ready False) {} e" using assms(1) by (simp add: engine_idle_wf_def)
  obtain en where i: "request_map e i = Some en" using wfD(4) [OF wf] assms(2) by auto
  note en = idle_entry [OF assms(1) i]
  show "\<exists>d. waiting_desc e i = Inr d \<and> waiting_of e i d"
    using at_request_ok [OF i] en(3-5) i by (simp add: waiting_desc_def Let_def waiting_of_def desc_ok_def seq_len_def)
  have "queued (sq_state (en_seq en))" using en(6) assms(2) by simp
  then show "held_of e i = 0" using en(1) i
    by (auto simp: held_of_def queued_def seq_ok_def seq_inv_def seq_blocks_def PagedKvCache_ctor_def BlockTable_ctor_def split: option.split)
qed

lemma idle_running:
  assumes "engine_idle_wf env e" and "i \<in> set (eg_running e)"
  obtains en where "request_map e i = Some en" and "sq_state (en_seq en) = kRunning"
proof -
  have wf: "engine_wf env (\<lambda>_. Ready False) {} e" using assms(1) by (simp add: engine_idle_wf_def)
  obtain en where i: "request_map e i = Some en" using wfD(4) [OF wf] assms(2) by auto
  have "i \<notin> set (eg_waiting e)" using wfD(3) [OF wf] assms(2) by auto
  then have "sq_state (en_seq en) = kRunning"
    using idle_entry(2,6) [OF assms(1) i] by (cases "sq_state (en_seq en)") (auto simp: queued_def is_terminal_def)
  then show thesis by (rule that [OF i])
qed

lemma running_desc_ok:
  assumes "engine_idle_wf env e" and "i \<in> set (eg_running e)"
  shows "\<exists>d. running_desc e i = Inr d \<and> running_of e i d"
proof -
  have wf: "engine_wf env (\<lambda>_. Ready False) {} e" using assms(1) by (simp add: engine_idle_wf_def)
  let ?bs = "pool_block_size (eg_pool e)" and ?nb = "pool_num_blocks (eg_pool e)"
  have bs: "0 < ?bs" by (rule pool_holds_free(3) [OF wfD(1) [OF wf]])
  obtain en where i: "request_map e i = Some en" "sq_state (en_seq en) = kRunning" by (rule idle_running [OF assms])
  note en = idle_entry [OF assms(1) i(1)]
  obtain c where c: "sq_cache (en_seq en) = Some c" "idle_cache ?bs c" "Paged_length c = seq_len (en_seq en) - 1"
    using en(1) i(2) by (auto simp: seq_ok_def seq_inv_def ready_len_def)
  let ?d = "\<lparr>sd_id = i, sd_arrival_index = rq_arrival_index (sq_request (en_seq en)), sd_num_computed_tokens = Paged_length c,
          sd_num_prompt_tokens = 0, sd_blocks_held = int (length (tab_blocks (pg_table c)))\<rparr>"
  have d: "running_desc e i = Inr ?d" using at_request_ok [OF i(1)] c(1) by (simp add: running_desc_def Let_def cache_of_def)
  have held: "int (length (tab_blocks (pg_table c))) = ceil_div (Paged_length c) ?bs" "0 \<le> Paged_length c"
    using c(2) by (simp_all add: idle_cache_def table_wf_def Paged_length_def)
  have "ceil_div (seq_len (en_seq en)) ?bs \<le> ?nb" using ceil_div_le_iff [OF bs] en(4) by simp
  moreover have "dneed ?bs ?d = ceil_div (seq_len (en_seq en)) ?bs - ceil_div (Paged_length c) ?bs"
    using BlocksNeeded_eq [OF bs held(2), of 1] c(3) by (simp add: dneed_def)
  ultimately have "running_of e i ?d"
    using held i(1) c(1) by (simp add: running_of_def desc_ok_def held_of_def seq_blocks_def)
  then show ?thesis using d by blast
qed

text \<open>The blocks in use are the ones the running sequences report.\<close>

lemma free_blocks_held:
  assumes "engine_idle_wf env e"
  shows "free_blocks (eg_pool e) = pool_num_blocks (eg_pool e) - sum_list (map (held_of e) (eg_running e))"
proof -
  have wf: "engine_wf env (\<lambda>_. Ready False) {} e" using assms by (simp add: engine_idle_wf_def)
  have "int (size (live_blocks (request_map e))) = (\<Sum>i\<in>dom (request_map e). held_of e i)"
    unfolding live_blocks_def by simp (rule sum.cong; auto simp: held_of_def)
  also have "\<dots> = (\<Sum>i\<in>set (eg_running e). held_of e i)"
  proof (rule sum.mono_neutral_right)
    show "set (eg_running e) \<subseteq> dom (request_map e)" using wfD(4) [OF wf] by auto
    show "\<forall>i\<in>dom (request_map e) - set (eg_running e). held_of e i = 0"
      using wfD(4) [OF wf] waiting_desc_ok(2) [OF assms] by auto
  qed simp
  also have "\<dots> = sum_list (map (held_of e) (eg_running e))"
    using wfD(3) [OF wf] by (simp add: sum_list_distinct_conv_sum_set)
  finally show ?thesis using pool_holds_free(1) [OF wfD(1) [OF wf]] by simp
qed

text \<open>The schedule of a step: which sequences it names, and that it makes progress when there are any.\<close>

lemma ScheduleStep_ok:
  assumes idle: "engine_idle_wf env e" and some: "eg_waiting e \<noteq> [] \<or> eg_running e \<noteq> []"
  obtains out k where "ScheduleStep e = Inr out" and "map pf_id (so_prefill out) = take k (eg_waiting e)"
    and "mset (eg_running e) = mset (so_decode out) + mset (so_preempt out)"
    and "map pf_id (so_prefill out) \<noteq> [] \<or> so_decode out \<noteq> []"
    and "pass_tokens True e (map pf_id (so_prefill out)) \<le> INT32_MAX"
    and "so_prefill out \<noteq> [] \<longrightarrow> int (length (so_decode out)) + int (length (so_prefill out)) \<le> ec_max_num_seqs (eg_config e)"
proof -
  have wf: "engine_wf env (\<lambda>_. Ready False) {} e" using idle by (simp add: engine_idle_wf_def)
  let ?bs = "pool_block_size (eg_pool e)" and ?nb = "pool_num_blocks (eg_pool e)" and ?free = "free_blocks (eg_pool e)"
  let ?cfg = "\<lparr>max_num_seqs = ec_max_num_seqs (eg_config e), max_num_batched_tokens = ec_max_num_batched_tokens (eg_config e)\<rparr>"
  note pool = pool_holds_free [OF wfD(1) [OF wf]]
  obtain wd where wd: "map_ok (waiting_desc e) (eg_waiting e) = Inr wd" "list_all2 (waiting_of e) (eg_waiting e) wd"
    using map_ok_all2 [of "eg_waiting e" "waiting_desc e" "waiting_of e"] waiting_desc_ok(1) [OF idle] by auto
  obtain rd where rd: "map_ok (running_desc e) (eg_running e) = Inr rd" "list_all2 (running_of e) (eg_running e) rd"
    using map_ok_all2 [of "eg_running e" "running_desc e" "running_of e"] running_desc_ok [OF idle] by auto
  let ?i = "\<lparr>si_waiting = wd, si_running = rd,
       si_pool = \<lparr>snap_free_blocks = ?free, snap_total_blocks = ?nb, snap_block_size = ?bs\<rparr>, si_config = ?cfg\<rparr>"
  have run: "ScheduleStep e = Schedule ?i" using wd(1) rd(1) by (simp add: ScheduleStep_def)
  have rdD: "running_of e (eg_running e ! k) (rd ! k)" if "k < length rd" for k
    using rd(2) that by (simp add: list_all2_conv_all_nth)
  have wdD: "waiting_of e (eg_waiting e ! k) (wd ! k)" if "k < length wd" for k
    using wd(2) that by (simp add: list_all2_conv_all_nth)
  have lens: "length wd = length (eg_waiting e)" "length rd = length (eg_running e)" using wd(2) rd(2) by (auto dest: list_all2_lengthD)
  have ids: "map sd_id wd = eg_waiting e" "map sd_id rd = eg_running e"
    by (rule nth_equalityI; use lens wdD rdD in \<open>auto simp: waiting_of_def running_of_def\<close>)+
  have rset: "desc_ok d \<and> sd_blocks_held d + dneed ?bs d \<le> ?nb" if d: "d \<in> set rd" for d
    using rdD d by (auto simp: in_set_conv_nth running_of_def)
  have wset: "desc_ok d \<and> sd_num_prompt_tokens d \<le> ec_max_num_batched_tokens (eg_config e) \<and> sd_num_prompt_tokens d \<le> ?nb * ?bs" if d: "d \<in> set wd" for d
    using wdD d by (auto simp: in_set_conv_nth waiting_of_def)
  have iok: "inputs_ok ?i" using pool wfD(7,8) [OF wf] rset wset by (auto simp: inputs_ok_def)
  have "map sd_blocks_held rd = map (held_of e) (eg_running e)"
    by (rule nth_equalityI; use lens rdD in \<open>auto simp: running_of_def\<close>)
  then have "?free = ?nb - sum_list (map sd_blocks_held rd)" using free_blocks_held [OF idle] by simp
  then have acc: "accounted ?i" using rset wset by (simp add: accounted_def)
  obtain ds vs k where s: "Schedule ?i = Inr \<lparr>so_prefill = map to_prefill (take k wd), so_decode = map sd_id ds, so_preempt = map sd_id vs\<rparr>"
    and ms: "mset rd = mset ds + mset vs" and ds: "rd \<noteq> [] \<Longrightarrow> ds \<noteq> []" and k: "rd = [] \<Longrightarrow> wd \<noteq> [] \<Longrightarrow> k \<noteq> 0"
    and kl: "k \<le> length wd" and ad: "0 < k \<longrightarrow> int (length ds) + int k \<le> ec_max_num_seqs (eg_config e) \<and>
      sum_list (map sd_num_prompt_tokens (take k wd)) \<le> ec_max_num_batched_tokens (eg_config e)"
    by (rule Schedule_progress [OF iok acc]) (rule that, simp_all)
  let ?out = "\<lparr>so_prefill = map to_prefill (take k wd), so_decode = map sd_id ds, so_preempt = map sd_id vs\<rparr>"
  have pf: "map pf_id (map to_prefill (take k wd)) = take k (eg_waiting e)"
    using ids(1) by (simp add: to_prefill_def comp_def take_map [symmetric])
  have "mset (map sd_id rd) = mset (map sd_id ds) + mset (map sd_id vs)" by (simp only: mset_map ms image_mset_union)
  then have mr: "mset (eg_running e) = mset (map sd_id ds) + mset (map sd_id vs)" by (simp only: ids(2))
  have pr: "take k (eg_waiting e) \<noteq> [] \<or> map sd_id ds \<noteq> []"
  proof (cases "rd = []")
    case True
    then have "wd \<noteq> []" using some lens by auto
    then show ?thesis using k [OF True] lens by auto
  next
    case False
    then show ?thesis using ds by simp
  qed
  have pt: "pass_tokens True e (take k (eg_waiting e)) = sum_list (map sd_num_prompt_tokens (take k wd))"
  proof -
    have "map (\<lambda>i. let s = en_seq (the (request_map e i)) in seq_len s - ready_len True s) (eg_waiting e) = map sd_num_prompt_tokens wd"
      by (rule nth_equalityI; use lens wdD in \<open>auto simp: waiting_of_def ready_len_def Let_def\<close>)
    then show ?thesis by (simp only: pass_tokens_def take_map [symmetric])
  qed
  have fits: "pass_tokens True e (map pf_id (map to_prefill (take k wd))) \<le> INT32_MAX"
    unfolding pf pt using ad wfD(9) [OF wf] by (cases "k = 0") (simp_all add: INT32_MAX_def)
  have width: "map to_prefill (take k wd) \<noteq> [] \<longrightarrow>
      int (length (map sd_id ds)) + int (length (map to_prefill (take k wd))) \<le> ec_max_num_seqs (eg_config e)"
    using ad kl by (cases "k = 0") simp_all
  have "ScheduleStep e = Inr ?out" by (simp only: run s)
  then show thesis by (rule that [where k = k]) (use fits width in \<open>simp_all only: SchedulerOutput.simps pf mr pr simp_thms\<close>)
qed

section \<open>The width of the batch\<close>

text \<open>Only admission adds to \<open>running_\<close>.\<close>

definition narrows :: "('f, 'm) Engine \<Rightarrow> ('f, 'm) Engine \<Rightarrow> bool" where
  "narrows e e' \<longleftrightarrow> eg_config e' = eg_config e \<and> length (eg_running e') \<le> length (eg_running e)"

lemma narrows_refl [simp]: "narrows e e"
  by (simp add: narrows_def)

lemma narrows_trans: "narrows e f \<Longrightarrow> narrows f g \<Longrightarrow> narrows e g"
  by (simp add: narrows_def)

lemma fold_ok_narrows:
  assumes "\<And>x s s'. f x s = Inr s' \<Longrightarrow> narrows (g s) (g s')"
  shows "fold_ok f xs s = Inr s' \<Longrightarrow> narrows (g s) (g s')"
  by (induction xs arbitrary: s) (auto split: sum.splits intro: narrows_trans [OF assms])

lemma length_removeAll_le: "length (removeAll x xs) \<le> length xs"
  by (induction xs) (auto intro: le_SucI)

lemma PreemptSequence_narrows: "PreemptSequence i e = Inr e' \<Longrightarrow> narrows e e'"
  by (auto simp: PreemptSequence_def narrows_def length_removeAll_le elim!: bind_okE)

lemma store_caches_config [simp]: "eg_config (fold store_cache ics e) = eg_config e"
  by (induction ics arbitrary: e) (auto simp: store_cache_def split: option.splits)

lemma run_forward_narrows: "run_forward env e ids req cs = (r, e') \<Longrightarrow> narrows e e'"
  by (auto simp: run_forward_def narrows_def split: prod.splits)

lemma fail_entry_narrows: "fail_entry e i en s err = Inr e' \<Longrightarrow> narrows e e'"
  by (auto simp: fail_entry_def narrows_def elim!: bind_okE)

lemma DeliverSampled_narrows: "DeliverSampled e i r = Inr e' \<Longrightarrow> narrows e e'"
proof -
  have p: "push_item e i item = Inr f \<Longrightarrow> eg_config f = eg_config e" for item f
    by (auto simp: push_item_def split: option.splits elim!: bind_okE)
  assume d: "DeliverSampled e i r = Inr e'"
  have "eg_config e' = eg_config e"
    using d by (auto simp: DeliverSampled_def Let_def fail_entry_def split: prod.splits sum.splits failure.splits if_splits
        elim!: bind_okE dest!: p)
  then show ?thesis using DeliverSampled_running [OF d] by (simp add: narrows_def)
qed

lemma ExecuteAndDeliver_narrows: "ExecuteAndDeliver env prefill i e = Inr (e', b) \<Longrightarrow> narrows e e'"
  by (auto simp: ExecuteAndDeliver_def Let_def split: prod.splits sum.splits failure.splits if_splits
      elim!: bind_okE dest!: run_forward_narrows DeliverSampled_narrows fail_entry_narrows)
     (blast intro: narrows_trans)+

lemma recover_member_narrows: "recover_member env prefill i e = Inr e' \<Longrightarrow> narrows e e'"
proof (induction env prefill i e arbitrary: e' rule: recover_member.induct)
  case (1 env prefill i e)
  obtain e1 b where x: "ExecuteAndDeliver env prefill i e = Inr (e1, b)"
    using 1(2) by (auto simp: recover_member.simps [of env prefill i e] split: sum.splits prod.splits)
  note n1 = ExecuteAndDeliver_narrows [OF x]
  show ?case
  proof (cases b)
    case True
    then show ?thesis using 1(2) x n1 by (simp add: recover_member.simps [of env prefill i e])
  next
    case False
    obtain v where v: "PickPreemptionVictim e1 i = Inr v"
      using 1(2) x False by (auto simp: recover_member.simps [of env prefill i e] split: sum.splits)
    show ?thesis
    proof (cases "v = 0")
      case True
      then show ?thesis using 1(2) x v False n1
        by (auto simp: recover_member.simps [of env prefill i e] elim!: bind_okE dest!: fail_entry_narrows elim: narrows_trans)
    next
      case nz: False
      obtain e2 where e2: "PreemptSequence v e1 = Inr e2" "recover_member env prefill i e2 = Inr e'"
        using 1(2) x v False nz by (auto simp: recover_member.simps [of env prefill i e] split: sum.splits)
      have "narrows e2 e'" by (rule 1(1) [OF x refl _ v nz e2]) (simp add: False)
      then show ?thesis using n1 PreemptSequence_narrows [OF e2(1)] narrows_trans by blast
    qed
  qed
qed

lemma recover_one_narrows: "recover_one env prefill m e = Inr e' \<Longrightarrow> narrows e e'"
proof -
  have r: "rollback_cache i len e = Inr f \<Longrightarrow> narrows e f" for i len f
    by (auto simp: rollback_cache_def narrows_def split: sum.splits prod.splits failure.splits elim!: bind_okE)
  assume "recover_one env prefill m e = Inr e'"
  then show ?thesis
    by (auto simp: recover_one_def split: prod.splits if_splits elim!: bind_okE dest!: r recover_member_narrows elim: narrows_trans)
qed

lemma deliver_row_narrows: "deliver_row x e = Inr e' \<Longrightarrow> narrows e e'"
  by (auto simp: deliver_row_def split: prod.splits sum.splits elim!: bind_okE dest!: fail_entry_narrows DeliverSampled_narrows)

lemma RunBatchPass_narrows:
  assumes "RunBatchPass env prefill ids e = Inr e'"
  shows "narrows e e'"
proof -
  have rec: "RecoverForwardFailure env pf ms f = Inr f' \<Longrightarrow> narrows f f'" for pf ms f f'
    unfolding RecoverForwardFailure_def by (rule fold_ok_narrows [where g = "\<lambda>s. s"]) (rule recover_one_narrows)
  have del: "fold_ok deliver_row rs f = Inr f' \<Longrightarrow> narrows f f'" for rs f f'
    by (rule fold_ok_narrows [where g = "\<lambda>s. s"]) (rule deliver_row_narrows)
  show ?thesis using assms unfolding RunBatchPass_def
    by (auto simp: Let_def split: if_splits prod.splits sum.splits failure.splits elim!: bind_okE
        dest!: rec del run_forward_narrows elim: narrows_trans)
qed

lemma erase_request_narrows: "erase_request i e = Inr e' \<Longrightarrow> narrows e e'"
  by (auto simp: erase_request_def narrows_def split: option.splits elim!: bind_okE)

lemma close_channel_narrows: "close_channel e i info = Inr e' \<Longrightarrow> narrows e e'"
  by (auto simp: close_channel_def narrows_def split: option.splits)

lemma removed_narrows:
  "narrows (e\<lparr>eg_running := removeAll i (eg_running e)\<rparr>) e' \<Longrightarrow> narrows e e'"
  "narrows (e\<lparr>eg_waiting := w, eg_running := removeAll i (eg_running e)\<rparr>) e' \<Longrightarrow> narrows e e'"
  by (auto simp: narrows_def intro: order_trans [OF _ length_removeAll_le])

lemma RetireCancelled_narrows:
  assumes "RetireCancelled env e = Inr e'"
  shows "narrows e e'"
proof -
  have c: "cancel_one i st = Inr st' \<Longrightarrow> narrows (fst st) (fst st')" for i and st st' :: "('a, 'b) Engine \<times> int list"
    by (auto simp: cancel_one_def CloseCancelled_def put_request_def split: prod.splits if_splits elim!: bind_okE dest!: close_channel_narrows)
       (simp add: narrows_def)
  have r: "retire_one i f = Inr f' \<Longrightarrow> narrows f f'" for i and f f' :: "('a, 'b) Engine"
    unfolding retire_one_def by (drule erase_request_narrows) (rule removed_narrows(2))
  obtain e1 retired where st: "fold_ok cancel_one (ev_request_order env (map fst (eg_requests e))) (e, []) = Inr (e1, retired)"
    "fold_ok retire_one retired e1 = Inr e'" using assms by (auto simp: RetireCancelled_def elim!: bind_okE)
  have "narrows e e1" using fold_ok_narrows [where g = fst, OF c st(1)] by simp
  moreover have "narrows e1 e'" using fold_ok_narrows [where g = "\<lambda>s. s", OF r st(2)] .
  ultimately show ?thesis by (rule narrows_trans)
qed

lemma RetireTerminal_narrows:
  assumes "RetireTerminal e = Inr e'"
  shows "narrows e e'"
proof -
  have c: "retire_terminal i st = Inr st' \<Longrightarrow> narrows (fst st) (fst st')" for i and st st' :: "('a, 'b) Engine \<times> int list"
    by (auto simp: retire_terminal_def split: prod.splits if_splits elim!: bind_okE dest!: close_channel_narrows)
  have r: "retire_running i f = Inr f' \<Longrightarrow> narrows f f'" for i and f f' :: "('a, 'b) Engine"
    unfolding retire_running_def by (drule erase_request_narrows) (rule removed_narrows(1))
  obtain e1 retired where st: "fold_ok retire_terminal (eg_running e) (e, []) = Inr (e1, retired)"
    "fold_ok retire_running retired e1 = Inr e'" using assms by (auto simp: RetireTerminal_def elim!: bind_okE)
  have "narrows e e1" using fold_ok_narrows [where g = fst, OF c st(1)] by simp
  moreover have "narrows e1 e'" using fold_ok_narrows [where g = "\<lambda>s. s", OF r st(2)] .
  ultimately show ?thesis by (rule narrows_trans)
qed

lemma DrainCommands_narrows: "narrows e (DrainCommands e)"
proof -
  have "narrows f (fold apply_command cs f)" for cs and f :: "('a, 'b) Engine"
  proof (induction cs arbitrary: f)
    case (Cons c cs)
    have "narrows f (apply_command c f)"
      by (auto simp: apply_command_def narrows_def put_request_def Let_def split: Command.splits option.splits)
    then show ?case using Cons.IH narrows_trans by fastforce
  qed simp
  from this [of "e\<lparr>eg_commands := []\<rparr>"] show ?thesis by (simp add: DrainCommands_def narrows_def)
qed

lemma admit_widens: "fold_ok admit_sequence ids e = Inr e' \<Longrightarrow> length (eg_running e') = length (eg_running e) + length ids"
  by (induction ids arbitrary: e) (auto simp: admit_sequence_def split: sum.splits elim!: bind_okE)

lemma preempted_width:
  assumes "fold_ok PreemptSequence ids e = Inr e'" and "mset (eg_running e) = mset ds + mset ids" and "distinct (eg_running e)"
  shows "length (eg_running e') = length ds"
  using assms
proof (induction ids arbitrary: e)
  case (Cons i ids)
  obtain e1 where e1: "PreemptSequence i e = Inr e1" "fold_ok PreemptSequence ids e1 = Inr e'"
    using Cons.prems(1) by (auto split: sum.splits)
  have run: "eg_running e1 = remove1 i (eg_running e)"
    using PreemptSequence_running [OF e1(1)] Cons.prems(3) by (simp add: distinct_remove1_removeAll)
  then have "mset (eg_running e1) = mset ds + mset ids" using Cons.prems(2) by simp
  then show ?case using Cons.IH [OF e1(2)] Cons.prems(3) run by simp
next
  case Nil
  then show ?case by (metis add.right_neutral fold_ok.simps(1) mset.simps(1) size_mset sum.inject(2))
qed

section \<open>The step\<close>

lemma preempt_all_ok:
  assumes "engine_wf env ph {} e" and "distinct ids"
    and "\<forall>i\<in>set ids. \<exists>en. request_map e i = Some en \<and> sq_state (en_seq en) = kRunning"
  shows "\<exists>e'. fold_ok PreemptSequence ids e = Inr e' \<and> engine_wf env ph {} e' \<and> same_frame e e' \<and>
    todo (request_map e') = todo (request_map e) \<and> (\<forall>j. j \<notin> set ids \<longrightarrow> request_map e' j = request_map e j)"
  using assms
proof (induction ids arbitrary: e)
  case (Cons i ids)
  obtain en where en: "request_map e i = Some en" "sq_state (en_seq en) = kRunning" using Cons.prems(3) by auto
  obtain e1 s' where e1: "PreemptSequence i e = Inr e1" "engine_wf env ph {} e1" "same_frame e e1"
    "request_map e1 = (request_map e)(i \<mapsto> en\<lparr>en_seq := s'\<rparr>)" "todo (request_map e1) = todo (request_map e)"
    by (rule PreemptSequence_ok [OF Cons.prems(1) en(1) _ en(2)]) (simp, blast)
  have "\<forall>j\<in>set ids. \<exists>en. request_map e1 j = Some en \<and> sq_state (en_seq en) = kRunning"
    using Cons.prems(2,3) by (auto simp: e1(4))
  from Cons.IH [OF e1(2) _ this] Cons.prems(2)
  obtain e2 where e2: "fold_ok PreemptSequence ids e1 = Inr e2" "engine_wf env ph {} e2" "same_frame e1 e2"
    "todo (request_map e2) = todo (request_map e1)" "\<forall>j. j \<notin> set ids \<longrightarrow> request_map e2 j = request_map e1 j" by auto
  then show ?case using e1 same_frame_trans [OF e1(3) e2(3)] by (intro exI [of _ e2]) auto
qed simp

lemma admit_all_ok:
  assumes "engine_wf env ph {} e" and "distinct ids"
    and "\<forall>i\<in>set ids. \<exists>en. request_map e i = Some en \<and> queued (sq_state (en_seq en))"
  shows "\<exists>e'. fold_ok admit_sequence ids e = Inr e' \<and> engine_wf env (\<lambda>j. if j \<in> set ids then Ready True else ph j) {} e' \<and> same_frame e e' \<and>
    todo (request_map e') = todo (request_map e) \<and> (\<forall>j. j \<notin> set ids \<longrightarrow> request_map e' j = request_map e j) \<and>
    (\<forall>i\<in>set ids. \<exists>en. request_map e' i = Some en \<and> sq_state (en_seq en) = kRunning \<and>
       seq_len (en_seq en) = seq_len (en_seq (the (request_map e i))))"
  using assms
proof (induction ids arbitrary: ph e)
  case (Cons i ids)
  obtain en where en: "request_map e i = Some en" "queued (sq_state (en_seq en))" using Cons.prems(3) by auto
  obtain e1 s' where e1: "admit_sequence i e = Inr e1" "engine_wf env (ph(i := Ready True)) {} e1" "same_frame e e1"
    "request_map e1 = (request_map e)(i \<mapsto> en\<lparr>en_seq := s'\<rparr>)" "sq_state s' = kRunning" "todo (request_map e1) = todo (request_map e)"
    "seq_len s' = seq_len (en_seq en)"
    by (rule admit_sequence_ok [OF Cons.prems(1) en(1) _ en(2)]) (simp, blast)
  have "\<forall>j\<in>set ids. \<exists>en. request_map e1 j = Some en \<and> queued (sq_state (en_seq en))"
    using Cons.prems(2,3) by (auto simp: e1(4))
  from Cons.IH [OF e1(2) _ this] Cons.prems(2)
  obtain e2 where e2: "fold_ok admit_sequence ids e1 = Inr e2"
    "engine_wf env (\<lambda>j. if j \<in> set ids then Ready True else (ph(i := Ready True)) j) {} e2" "same_frame e1 e2"
    "todo (request_map e2) = todo (request_map e1)" "\<forall>j. j \<notin> set ids \<longrightarrow> request_map e2 j = request_map e1 j"
    "\<forall>i\<in>set ids. \<exists>en. request_map e2 i = Some en \<and> sq_state (en_seq en) = kRunning \<and>
       seq_len (en_seq en) = seq_len (en_seq (the (request_map e1 i)))" by auto
  have "(\<lambda>j. if j \<in> set ids then Ready True else (ph(i := Ready True)) j) = (\<lambda>j. if j \<in> set (i # ids) then Ready True else ph j)"
    by (auto simp: fun_eq_iff)
  then have w: "engine_wf env (\<lambda>j. if j \<in> set (i # ids) then Ready True else ph j) {} e2" using e2(2) by simp
  have at: "request_map e2 i = Some (en\<lparr>en_seq := s'\<rparr>)" using e2(5) Cons.prems(2) by (simp add: e1(4))
  have "\<exists>en. request_map e2 j = Some en \<and> sq_state (en_seq en) = kRunning \<and>
      seq_len (en_seq en) = seq_len (en_seq (the (request_map e j)))" if j: "j \<in> set (i # ids)" for j
  proof (cases "j = i")
    case True
    then show ?thesis using at e1(5,7) en(1) by simp
  next
    case False
    then show ?thesis using e2(6) j by (auto simp: e1(4))
  qed
  then show ?case using e1(1,6) e2 w same_frame_trans [OF e1(3) e2(3)] by (intro exI [of _ e2]) (auto simp: e1(4))
qed simp

lemma decode_members_ok:
  assumes "\<forall>i\<in>set ids. i \<in> dom (request_map e)"
  shows "decode_members e ids = Inr (filter (\<lambda>i. sq_state (en_seq (the (request_map e i))) = kRunning) ids)"
proof -
  have "map_ok (still_running e) ids = Inr (map (\<lambda>i. sq_state (en_seq (the (request_map e i))) = kRunning) ids)"
    using assms
  proof (induction ids)
    case (Cons i ids)
    then obtain en where "request_map e i = Some en" by auto
    then show ?case using Cons by (simp add: still_running_def at_request_ok)
  qed simp
  moreover have "map fst (filter snd (zip ids (map P ids))) = filter P ids" for P :: "int \<Rightarrow> bool"
    by (induction ids) simp_all
  ultimately show ?thesis by (simp add: decode_members_def)
qed

lemma todo_restrict: "finite (dom m) \<Longrightarrow> todo (m |` S) \<le> todo m"
proof -
  assume f: "finite (dom m)"
  have "todo (m |` S) = (\<Sum>i\<in>dom m \<inter> S. seq_todo (en_seq (the (m i))))"
    unfolding todo_def by (rule sum.cong) auto
  also have "\<dots> \<le> todo m" unfolding todo_def by (rule sum_mono2) (use f in auto)
  finally show ?thesis .
qed

text \<open>The passes of a step over a schedule.\<close>

lemma passes_ok:
  assumes env: "env_wf env" and idle: "engine_idle_wf env e"
    and out: "map pf_id (so_prefill out) = take k (eg_waiting e)" "mset (eg_running e) = mset (so_decode out) + mset (so_preempt out)"
      "map pf_id (so_prefill out) \<noteq> [] \<or> so_decode out \<noteq> []" "pass_tokens True e (map pf_id (so_prefill out)) \<le> INT32_MAX"
      "so_prefill out \<noteq> [] \<longrightarrow> int (length (so_decode out)) + int (length (so_prefill out)) \<le> ec_max_num_seqs (eg_config e)"
  obtains e2 e3 e4 ids e5 where "fold_ok PreemptSequence (so_preempt out) e = Inr e2"
    and "fold_ok admit_sequence (map pf_id (so_prefill out)) e2 = Inr e3"
    and "RunBatchPass env True (map pf_id (so_prefill out)) e3 = Inr e4"
    and "decode_members e4 (so_decode out) = Inr ids" and "RunBatchPass env False ids e4 = Inr e5"
    and "engine_wf env (\<lambda>_. Ready False) {} e5" and "same_frame e e5" and "todo (request_map e5) < todo (request_map e)"
    and "batch_width e5"
proof -
  have wf: "engine_wf env (\<lambda>_. Ready False) {} e" using idle by (simp add: engine_idle_wf_def)
  let ?pre = "map pf_id (so_prefill out)"
  have lists: "distinct (eg_waiting e)" "distinct (eg_running e)" "set (eg_waiting e) \<inter> set (eg_running e) = {}"
    "set (eg_waiting e @ eg_running e) = dom (request_map e)" using wfD(3,4) [OF wf] by auto
  have "mset (so_decode out @ so_preempt out) = mset (eg_running e)" using out(2) by simp
  from mset_eq_imp_distinct_iff [OF this] mset_eq_setD [OF this] lists(2)
  have dist: "distinct (so_decode out @ so_preempt out)" "set (so_decode out @ so_preempt out) = set (eg_running e)" by (simp_all only:)
  have pre: "distinct ?pre" "set ?pre \<subseteq> set (eg_waiting e)"
    unfolding out(1) using lists(1) by (simp_all add: set_take_subset)
  have running: "\<exists>en. request_map e i = Some en \<and> sq_state (en_seq en) = kRunning" if "i \<in> set (eg_running e)" for i
    using idle_running [OF idle that] by blast
  obtain e2 where e2: "fold_ok PreemptSequence (so_preempt out) e = Inr e2" "engine_wf env (\<lambda>_. Ready False) {} e2" "same_frame e e2"
    "todo (request_map e2) = todo (request_map e)" "\<forall>j. j \<notin> set (so_preempt out) \<longrightarrow> request_map e2 j = request_map e j"
    using preempt_all_ok [OF wf, of "so_preempt out"] dist running by auto
  have "\<exists>en. request_map e2 i = Some en \<and> queued (sq_state (en_seq en))" if i: "i \<in> set ?pre" for i
  proof -
    have w: "i \<in> set (eg_waiting e)" "i \<notin> set (so_preempt out)" using i pre(2) lists(3) dist(2) by auto
    then obtain en where en: "request_map e i = Some en" using lists(4) by auto
    then show ?thesis using w e2(5) idle_entry(6) [OF idle en] by simp
  qed
  then obtain e3 where e3: "fold_ok admit_sequence ?pre e2 = Inr e3"
    "engine_wf env (\<lambda>j. if j \<in> set ?pre then Ready True else Ready False) {} e3" "same_frame e2 e3"
    "todo (request_map e3) = todo (request_map e2)" "\<forall>i\<in>set ?pre. \<exists>en. request_map e3 i = Some en \<and> sq_state (en_seq en) = kRunning \<and>
       seq_len (en_seq en) = seq_len (en_seq (the (request_map e2 i)))"
    using admit_all_ok [OF e2(2) pre(1)] by blast
  have "seq_len (en_seq (the (request_map e3 i))) = seq_len (en_seq (the (request_map e i)))" if i: "i \<in> set ?pre" for i
  proof -
    have "i \<notin> set (so_preempt out)" using i pre(2) lists(3) dist(2) by auto
    then show ?thesis using e2(5) e3(5) i by auto
  qed
  then have "pass_tokens True e3 ?pre = pass_tokens True e ?pre"
    unfolding pass_tokens_def by (intro arg_cong [where f = sum_list] map_cong) (simp_all add: ready_len_def)
  then have fits: "pass_tokens True e3 ?pre \<le> INT32_MAX" using out(4) by simp
  have bw: "int (length (eg_running e)) \<le> ec_max_num_seqs (eg_config e)" "ec_max_num_seqs (eg_config e) \<le> INT32_MAX"
    using idle by (simp_all add: engine_idle_wf_def batch_width_def)
  have dl: "length (so_decode out) \<le> length (eg_running e)" using arg_cong [OF out(2), of size] by simp
  have w3: "int (length (eg_running e3)) \<le> ec_max_num_seqs (eg_config e)"
    using admit_widens [OF e3(1)] preempted_width [OF e2(1) out(2) lists(2)] out(5) dl bw(1) by (cases "so_prefill out = []") simp_all
  have m3: "members_ready True (\<lambda>j. if j \<in> set ?pre then Ready True else Ready False) e3 ?pre"
    unfolding members_ready_def by (intro conjI ballI pre(1)) (use e3(5) in auto)
  obtain e4 where e4: "RunBatchPass env True ?pre e3 = Inr e4"
    "engine_wf env (\<lambda>j. if j \<in> set ?pre then Ready False else if j \<in> set ?pre then Ready True else Ready False) {} e4" "same_frame e3 e4"
    "if ?pre = [] then e4 = e3 else todo (request_map e4) < todo (request_map e3)"
    by (rule RunBatchPass_ok [OF env e3(2) m3 fits])
  have "(\<lambda>j. if j \<in> set ?pre then Ready False else if j \<in> set ?pre then Ready True else Ready False) = (\<lambda>_. Ready False)"
    by (simp add: fun_eq_iff)
  then have w4: "engine_wf env (\<lambda>_. Ready False) {} e4" using e4(2) by simp
  have f4: "same_frame e e4" using same_frame_trans [OF e2(3) same_frame_trans [OF e3(3) e4(3)]] .
  let ?ids = "filter (\<lambda>i. sq_state (en_seq (the (request_map e4 i))) = kRunning) (so_decode out)"
  have dd: "\<forall>i\<in>set (so_decode out). i \<in> dom (request_map e4)" using dist(2) lists(4) f4 by (auto simp: same_frame_def)
  have dm: "decode_members e4 (so_decode out) = Inr ?ids" by (rule decode_members_ok [OF dd])
  have "length ?ids \<le> length (so_decode out)" by (rule length_filter_le)
  then have dfits: "pass_tokens False e4 ?ids \<le> INT32_MAX" unfolding pass_tokens_decode using dl bw by linarith
  have m4: "members_ready False (\<lambda>_. Ready False) e4 ?ids" using dist(1) dd by (auto simp: members_ready_def)
  obtain e5 where e5: "RunBatchPass env False ?ids e4 = Inr e5"
    "engine_wf env (\<lambda>j. if j \<in> set ?ids then Ready False else Ready False) {} e5" "same_frame e4 e5"
    "if ?ids = [] then e5 = e4 else todo (request_map e5) < todo (request_map e4)"
    by (rule RunBatchPass_ok [OF env w4 m4 dfits])
  have w5: "engine_wf env (\<lambda>_. Ready False) {} e5" using e5(2) by simp
  have "todo (request_map e5) < todo (request_map e)"
  proof (cases "?pre = []")
    case False
    then have "todo (request_map e4) < todo (request_map e)" using e4(4) e3(4) e2(4) by simp
    then show ?thesis using e5(4) by (auto split: if_splits)
  next
    case True
    then have e43: "e4 = e2" using e4(4) e3(1) by simp
    have "sq_state (en_seq (the (request_map e4 i))) = kRunning" if i: "i \<in> set (so_decode out)" for i
    proof -
      have "i \<notin> set (so_preempt out)" "i \<in> set (eg_running e)" using i dist by auto
      then show ?thesis using e2(5) running [of i] by (auto simp: e43)
    qed
    then have "?ids = so_decode out" by (simp add: filter_id_conv)
    then show ?thesis using e5(4) out(3) True e2(4) by (simp add: e43)
  qed
  moreover have "batch_width e5"
    using w3 bw(2) narrows_trans [OF RunBatchPass_narrows [OF e4(1)] RunBatchPass_narrows [OF e5(1)]]
      same_frame_trans [OF e2(3) e3(3)] by (simp add: batch_width_def narrows_def same_frame_def)
  ultimately show thesis by (rule that [OF e2(1) e3(1) e4(1) dm e5(1) w5 same_frame_trans [OF f4 e5(3)]])
qed

text \<open>A step from any state between steps: it never aborts, and unless there is nothing live it leaves strictly
  fewer tokens to produce.\<close>

lemma Step_ok:
  fixes e :: "('f, 'm) Engine"
  assumes env: "env_wf env" and idle: "engine_idle_wf env e"
  obtains more e' where "Step env e = Inr (more, e')" and "engine_idle_wf env e'" and "eg_commands e' = []"
    and "if more then engine_todo e' < engine_todo e else eg_waiting e' = [] \<and> eg_running e' = []"
    and "\<forall>i. cancels (DrainCommands e) i \<longrightarrow> i \<notin> dom (request_map e')"
proof -
  have wf: "engine_wf env (\<lambda>_. Ready False) {} e" "all_live {} e" using idle by (simp_all add: engine_idle_wf_def)
  note d = DrainCommands_ok [OF wf]
  obtain e1 where e1: "RetireCancelled env (DrainCommands e) = Inr e1" "engine_wf env (\<lambda>_. Ready False) {} e1" "all_live {} e1"
    "request_map e1 = request_map (DrainCommands e) |` {i. \<not> cancels (DrainCommands e) i}" "eg_commands e1 = eg_commands (DrainCommands e)"
    by (rule RetireCancelled_ok [OF env d(1,2)])
  have "narrows e e1" by (rule narrows_trans [OF DrainCommands_narrows RetireCancelled_narrows [OF e1(1)]])
  then have "batch_width e1" using idle by (simp add: narrows_def engine_idle_wf_def batch_width_def)
  then have i1: "engine_idle_wf env e1" using e1(2,3) by (simp add: engine_idle_wf_def)
  have c1: "eg_commands e1 = []" using e1(5) d(3) by simp
  have pend: "engine_todo x = todo (request_map x)" if "eg_commands x = []" for x :: "('f, 'm) Engine"
    using that by (simp add: engine_todo_def pending_def List.map_filter_def)
  have t1: "todo (request_map e1) \<le> engine_todo e"
    using todo_restrict [OF finite_requests, of "DrainCommands e"] pend [OF d(3)] d(4) by (simp add: e1(4))
  have gone: "\<forall>i. cancels (DrainCommands e) i \<longrightarrow> i \<notin> dom (request_map e1)" using e1(4) by auto
  show thesis
  proof (cases "eg_waiting e1 = [] \<and> eg_running e1 = []")
    case True
    then have "Step env e = Inr (False, e1)" using e1(1) by (simp add: Step_def)
    then show thesis by (rule that [OF _ i1 c1 _ gone]) (use True in simp)
  next
    case False
    then have some: "eg_waiting e1 \<noteq> [] \<or> eg_running e1 \<noteq> []" by blast
    obtain out k where out: "ScheduleStep e1 = Inr out" "map pf_id (so_prefill out) = take k (eg_waiting e1)"
      "mset (eg_running e1) = mset (so_decode out) + mset (so_preempt out)" "map pf_id (so_prefill out) \<noteq> [] \<or> so_decode out \<noteq> []"
      "pass_tokens True e1 (map pf_id (so_prefill out)) \<le> INT32_MAX"
      "so_prefill out \<noteq> [] \<longrightarrow> int (length (so_decode out)) + int (length (so_prefill out)) \<le> ec_max_num_seqs (eg_config e1)"
      by (rule ScheduleStep_ok [OF i1 some])
    obtain e2 e3 e4 ids e5 where p: "fold_ok PreemptSequence (so_preempt out) e1 = Inr e2"
      "fold_ok admit_sequence (map pf_id (so_prefill out)) e2 = Inr e3"
      "RunBatchPass env True (map pf_id (so_prefill out)) e3 = Inr e4" "decode_members e4 (so_decode out) = Inr ids"
      "RunBatchPass env False ids e4 = Inr e5" "engine_wf env (\<lambda>_. Ready False) {} e5" "same_frame e1 e5"
      "todo (request_map e5) < todo (request_map e1)" "batch_width e5"
      by (rule passes_ok [OF env i1 out(2-6)])
    obtain e6 where e6: "RetireTerminal e5 = Inr e6" "engine_wf env (\<lambda>_. Ready False) {} e6" "all_live {} e6"
      "request_map e6 = request_map e5 |` {i. \<not> ended e5 i}" "eg_commands e6 = eg_commands e5"
      by (rule RetireTerminal_ok [OF p(6)])
    have c6: "eg_commands e6 = []" using e6(5) p(7) c1 by (simp add: same_frame_def)
    have "todo (request_map e6) \<le> todo (request_map e5)" using todo_restrict [OF finite_requests, of e5] by (simp add: e6(4))
    then have dec: "engine_todo e6 < engine_todo e" using pend [OF c6] p(8) t1 by simp
    have "Step env e = Inr (True, e6)" using e1(1) False out(1) p(1-5) e6(1) by (simp add: Step_def)
    moreover have "engine_idle_wf env e6" using e6(2,3) RetireTerminal_narrows [OF e6(1)] p(9)
      by (simp add: engine_idle_wf_def batch_width_def narrows_def)
    moreover have "\<forall>i. cancels (DrainCommands e) i \<longrightarrow> i \<notin> dom (request_map e6)"
      using gone p(7) by (auto simp: e6(4) same_frame_def)
    ultimately show thesis using c6 dec that by simp
  qed
qed

end
