(* ===== verification/Engine_Correctness.thy ===== *)
theory Engine_Correctness
  imports Engine_Step
begin

text \<open>
  A running engine: construction, client calls and steps in any order, and what holds of every state it can
  reach. Then teardown, cancellation, admission control and the choice of a preemption victim. The
  properties that depend on the model are shown to be satisfiable with a model that really grows the
  caches, block by block.
\<close>

section \<open>Client calls keep the invariant\<close>

definition request_safe :: "Request \<Rightarrow> bool" where
  "request_safe request \<longleftrightarrow> params_safe (rq_params request) \<and>
     int (length (rq_prompt_ids request)) + max_tokens (rq_params request) \<le> 9223372036854775808"

lemma int64_wrap_id: "- 9223372036854775808 \<le> x \<Longrightarrow> x < 9223372036854775808 \<Longrightarrow> int64_wrap x = x"
  by (simp add: int64_wrap_def)

lemma Engine_Create_ok:
  assumes "slabs_wf p" and "owned p []" and "ec_max_num_batched_tokens config \<le> INT32_MAX"
    and "ec_max_num_seqs config \<le> INT32_MAX" and "Engine_Create env m p config = Inr e"
  shows "engine_idle_wf env e"
proof -
  let ?mg = "mi_cache_geometry (ev_model env)"
  have e: "eg_pool e = p" "eg_config e = config" "eg_commands e = []" "eg_next_id e = 1" "eg_requests e = []"
    "eg_waiting e = []" "eg_running e = []" "eg_channels e = (\<lambda>_. None)"
    and cfg: "0 < ec_max_num_seqs config" "0 < ec_max_num_batched_tokens config"
    and g: "num_layers (pool_geom p) = num_layers ?mg" "num_kv_heads (pool_geom p) = num_kv_heads ?mg"
      "head_dim (pool_geom p) = head_dim ?mg" "dtype (pool_geom p) = dtype ?mg"
    using assms(5) by (auto simp: Engine_Create_def Let_def split: if_splits)
  have geom: "pool_geom p = ?mg" using g by simp
  have m: "request_map e = Map.empty" by (simp add: request_map_def e)
  have pend: "pending e = []" by (simp add: pending_def e List.map_filter_def)
  have "pool_holds p (live_blocks (request_map e))" using assms(1,2) by (auto simp: pool_holds_def live_blocks_def m)
  then have "engine_wf env (\<lambda>_. Ready False) {} e"
    unfolding engine_wf_def pend m e using cfg assms(3) geom by (simp add: m)
  then show ?thesis using cfg(1) assms(4) by (simp add: engine_idle_wf_def all_live_def m batch_width_def e)
qed

text \<open>An accepted request is well formed, and enters with an open channel of its own.\<close>

lemma Submit_accepted:
  assumes "request_safe request" and "Submit e entropy request = Inr (e', i)"
  obtains s c where "Sequence_Create entropy request = Inr (s, c)" and "i = eg_next_id e"
    and "e' = e\<lparr>eg_next_id := i + 1, eg_next_arrival := eg_next_arrival e + 1,
           eg_commands := eg_commands e @ [SubmitCmd \<lparr>en_seq = s\<lparr>sq_request := request\<lparr>rq_id := i, rq_arrival_index := eg_next_arrival e\<rparr>\<rparr>,
             en_cancel_requested = False\<rparr>],
           eg_channels := (eg_channels e)(i \<mapsto> c)\<rparr>"
    and "request_wf (ec_max_num_batched_tokens (eg_config e)) (pool_num_blocks (eg_pool e) * pool_block_size (eg_pool e)) request"
proof -
  obtain s c where sc: "Sequence_Create entropy request = Inr (s, c)"
    using assms(2) by (auto simp: Submit_def Let_def split: if_splits elim!: bind_okE)
  have v: "ValidateSamplingParams (rq_params request) = Inr ()"
    using sc by (auto simp: Sequence_Create_def Sampler_Create_def elim!: bind_okE)
  have mt: "0 < max_tokens (rq_params request)" by (rule valid_params(1) [OF v])
  have peak: "peak_length request = int (length (rq_prompt_ids request)) + max_tokens (rq_params request) - 1"
  proof -
    have "int64_wrap (int (length (rq_prompt_ids request)) + (max_tokens (rq_params request) - 1)) =
        int (length (rq_prompt_ids request)) + (max_tokens (rq_params request) - 1)"
      by (rule int64_wrap_id) (use assms(1) mt in \<open>auto simp: request_safe_def\<close>)
    then show ?thesis using mt by (simp add: peak_length_def)
  qed
  show thesis
    by (rule that [OF sc])
      (use assms sc v peak in \<open>auto simp: Submit_def Let_def request_wf_def request_safe_def split: if_splits elim!: bind_okE\<close>)
qed

lemma pending_snoc: "pending (e\<lparr>eg_commands := eg_commands e @ [SubmitCmd en]\<rparr>) = pending e @ [en]"
  "pending (e\<lparr>eg_commands := eg_commands e @ [CancelCmd i]\<rparr>) = pending e"
  by (simp_all add: pending_def List.map_filter_def)

lemma fresh_id:
  assumes "engine_wf env ph {} e"
  shows "eg_next_id e \<notin> dom (request_map e)" and "eg_next_id e \<notin> entry_id ` set (pending e)" and "eg_channels e (eg_next_id e) = None"
proof -
  show none: "eg_channels e (eg_next_id e) = None" using wfD(13) [OF assms, of "eg_next_id e"] by simp
  show "eg_next_id e \<notin> dom (request_map e)"
    using wfD(5) [OF assms, where i = "eg_next_id e"] none by (auto simp: live_ok_def open_channel_def)
  show "eg_next_id e \<notin> entry_id ` set (pending e)"
    using wfD(11) [OF assms] none by (force simp: pending_entry_ok_def open_channel_def)
qed

lemma Submit_ok:
  assumes idle: "engine_idle_wf env e" and safe: "request_safe request" and sub: "Submit e entropy request = Inr (e', i)"
  shows "engine_idle_wf env e'" and "open_channel (eg_channels e') i" and "i = eg_next_id e"
proof -
  have wf: "engine_wf env (\<lambda>_. Ready False) {} e" and al: "all_live {} e" using idle by (simp_all add: engine_idle_wf_def)
  obtain s c where sc: "Sequence_Create entropy request = Inr (s, c)" and i: "i = eg_next_id e"
    and e': "e' = e\<lparr>eg_next_id := i + 1, eg_next_arrival := eg_next_arrival e + 1,
           eg_commands := eg_commands e @ [SubmitCmd \<lparr>en_seq = s\<lparr>sq_request := request\<lparr>rq_id := i, rq_arrival_index := eg_next_arrival e\<rparr>\<rparr>,
             en_cancel_requested = False\<rparr>],
           eg_channels := (eg_channels e)(i \<mapsto> c)\<rparr>"
    and rq: "request_wf (ec_max_num_batched_tokens (eg_config e)) (pool_num_blocks (eg_pool e) * pool_block_size (eg_pool e)) request"
    by (rule Submit_accepted [OF safe sub])
  let ?s = "s\<lparr>sq_request := request\<lparr>rq_id := i, rq_arrival_index := eg_next_arrival e\<rparr>\<rparr>"
  let ?en = "\<lparr>en_seq = ?s, en_cancel_requested = False\<rparr>"
  have s: "sq_state s = kWaiting" "sq_generated_ids s = []" "sq_cache s = Some PagedKvCache_ctor" "smp_params (sq_sampler s) = rq_params request"
    "sc_max_tokens (sq_stop s) = max_tokens (rq_params request)" "c = OutputChannel_ctor"
    using sc by (auto simp: Sequence_Create_def Sampler_Create_def StopChecker_Create_def elim!: bind_okE split: if_splits)
  note fresh = fresh_id [OF wf]
  have m: "request_map e' = request_map e" by (simp add: e' request_map_def)
  have pend: "pending e' = pending e @ [?en]" by (simp add: e' pending_def List.map_filter_def)
  have fld: "eg_config e' = eg_config e" "eg_pool e' = eg_pool e" "eg_waiting e' = eg_waiting e" "eg_running e' = eg_running e"
    "eg_next_id e' = i + 1" "eg_channels e' = (eg_channels e)(i \<mapsto> c)" "eg_requests e' = eg_requests e" by (simp_all add: e')
  have so: "seq_ok e' ph x \<longleftrightarrow> seq_ok e ph x" for ph x by (simp add: seq_ok_def fld)
  have c: "channel_ok c" "\<not> oc_closed c" by (simp_all add: s(6) OutputChannel_ctor_def channel_ok_def)
  show op: "open_channel (eg_channels e') i" by (simp add: open_channel_def fld c)
  show "i = eg_next_id e" by (rule i)
  have oc: "open_channel (eg_channels e') j \<longleftrightarrow> open_channel (eg_channels e) j" if "j \<noteq> i" for j
    using that by (simp add: open_channel_def fld)
  have id: "entry_id ?en = i" by (simp add: entry_id_def)
  have sq: "seq_ok e (Ready True) ?s"
    using rq valid_params(1) [of "rq_params request"] s
    by (auto simp: seq_ok_def seq_inv_def request_wf_def is_terminal_def num_generated_def)
  have live: "live_ok (\<lambda>_. Ready False) e' j en" if j: "request_map e j = Some en" for j en
  proof -
    have "j \<noteq> i" using j fresh(1) i by auto
    then show ?thesis using wfD(5) [OF wf j] so oc by (simp add: live_ok_def fld)
  qed
  have pe: "pending_entry_ok e' en" if "en \<in> set (pending e @ [?en])" for en
  proof (cases "en = ?en")
    case True
    then show ?thesis using sq s(1) op fresh(1) so id i by (simp add: pending_entry_ok_def m)
  next
    case False
    then have en: "en \<in> set (pending e)" using that by simp
    then have "entry_id en \<noteq> i" using fresh(2) i by (metis image_eqI)
    then show ?thesis using wfD(11) [OF wf en] so oc by (simp add: pending_entry_ok_def m)
  qed
  have dist: "distinct (map entry_id (pending e @ [?en]))" using wfD(10) [OF wf] fresh(2) i id by simp
  have some: "eg_channels e' j \<noteq> None \<longleftrightarrow> 1 \<le> j \<and> j < eg_next_id e'" for j
    using wfD(13) [OF wf, of j] wfD(14) [OF wf] i by (auto simp: fld)
  have chs: "channel_ok x \<and> (oc_closed x \<or> j \<in> dom (request_map e) - {} \<or> j \<in> entry_id ` set (pending e @ [?en]))"
    if x: "eg_channels e' j = Some x" for j x
  proof (cases "j = i")
    case True
    then show ?thesis using x c(1) id by (auto simp: fld)
  next
    case False
    then show ?thesis using x wfD(12) [OF wf, of j x] by (auto simp: fld)
  qed
  have "engine_wf env (\<lambda>_. Ready False) {} e'"
    unfolding engine_wf_def m pend fld
    using wfD(1-4) [OF wf] wfD(6-9) [OF wf] wfD(14) [OF wf] live pe dist some [unfolded fld] chs [unfolded fld] i by simp
  then show "engine_idle_wf env e'" using al idle by (simp add: engine_idle_wf_def all_live_def m batch_width_def fld)
qed

lemma Cancel_ok:
  assumes "engine_idle_wf env e"
  shows "engine_idle_wf env (Cancel e i)"
proof -
  have rm: "request_map (Cancel e i) = request_map e" and p: "pending (Cancel e i) = pending e"
    by (simp_all add: Cancel_def request_map_def pending_def List.map_filter_def)
  have "live_ok ph (Cancel e i) j en = live_ok ph e j en" "pending_entry_ok (Cancel e i) en = pending_entry_ok e en" for ph j en
    by (simp_all add: live_ok_def seq_ok_def pending_entry_ok_def rm) (simp_all add: Cancel_def)
  then show ?thesis using assms
    unfolding engine_idle_wf_def engine_wf_def all_live_def batch_width_def rm p by (simp add: Cancel_def)
qed

text \<open>A client's poll takes an item of its channel and nothing else.\<close>

lemma try_next_token_ok:
  assumes "engine_idle_wf env e" and "try_next_token e i = Inr (item, e')"
  shows "engine_idle_wf env e'"
proof -
  have wf: "engine_wf env (\<lambda>_. Ready False) {} e" "all_live {} e" using assms(1) by (simp_all add: engine_idle_wf_def)
  obtain c c' where c: "eg_channels e i = Some c" "TryNext c = (item, c')" "e' = e\<lparr>eg_channels := (eg_channels e)(i \<mapsto> c')\<rparr>"
    using assms(2) by (auto simp: try_next_token_def split: option.splits prod.splits)
  have c': "oc_closed c' = oc_closed c" "channel_ok c' = channel_ok c" using c(2) by (auto simp: TryNext_def channel_ok_def split: if_splits)
  have oc: "open_channel ((eg_channels e)(i \<mapsto> c')) j \<longleftrightarrow> open_channel (eg_channels e) j" for j using c(1) c' by (auto simp: open_channel_def)
  have rm: "request_map e' = request_map e" and p: "pending e' = pending e" by (simp_all add: c(3) request_map_def pending_def)
  have l: "live_ok ph e' j en = live_ok ph e j en" "pending_entry_ok e' en = pending_entry_ok e en" for ph j en
    by (simp_all add: live_ok_def seq_ok_def pending_entry_ok_def rm oc) (simp_all add: c(3) oc)
  have fld: "eg_config e' = eg_config e" "eg_pool e' = eg_pool e" "eg_waiting e' = eg_waiting e" "eg_running e' = eg_running e"
    "eg_next_id e' = eg_next_id e" "eg_channels e' = (eg_channels e)(i \<mapsto> c')" "eg_requests e' = eg_requests e" by (simp_all add: c(3))
  have some: "((eg_channels e)(i \<mapsto> c')) j \<noteq> None \<longleftrightarrow> 1 \<le> j \<and> j < eg_next_id e" for j
    using wfD(13) [OF wf(1), of j] c(1) by (cases "j = i") auto
  have chs: "channel_ok x \<and> (oc_closed x \<or> j \<in> dom (request_map e) - {} \<or> j \<in> entry_id ` set (pending e))"
    if x: "((eg_channels e)(i \<mapsto> c')) j = Some x" for j x
    using x wfD(12) [OF wf(1), of j] c(1) c' by (cases "j = i") auto
  have "engine_wf env (\<lambda>_. Ready False) {} e'"
    unfolding engine_wf_def rm p l fld
    using wfD(1-4) [OF wf(1)] wfD(6-9) [OF wf(1)] wfD(14) [OF wf(1)] wfD(5,10,11) [OF wf(1)] some chs by simp
  then show ?thesis using wf(2) assms(1) by (simp add: engine_idle_wf_def all_live_def rm batch_width_def fld)
qed

section \<open>Reachable engines\<close>

text \<open>Client calls and steps, in any order. A safe request is greedy or asks for no logprobs, and its length does
  not overflow the peak computed by \<open>Submit\<close>. \<open>max_num_seqs\<close> is a C \<open>int\<close>.\<close>

inductive engine_run :: "('f, 'm) EngineEnv \<Rightarrow> ('f, 'm) Engine \<Rightarrow> bool" for env where
  created: "slabs_wf p \<Longrightarrow> owned p [] \<Longrightarrow> ec_max_num_batched_tokens config \<le> INT32_MAX \<Longrightarrow> ec_max_num_seqs config \<le> INT32_MAX \<Longrightarrow>
      Engine_Create env m p config = Inr e \<Longrightarrow> engine_run env e"
| submitted: "engine_run env e \<Longrightarrow> request_safe request \<Longrightarrow> Submit e entropy request = Inr (e', i) \<Longrightarrow> engine_run env e'"
| cancelled: "engine_run env e \<Longrightarrow> engine_run env (Cancel e i)"
| polled: "engine_run env e \<Longrightarrow> try_next_token e i = Inr (item, e') \<Longrightarrow> engine_run env e'"
| stepped: "engine_run env e \<Longrightarrow> Step env e = Inr (busy, e') \<Longrightarrow> engine_run env e'"

lemma engine_run_ok:
  assumes "env_wf env" and "engine_run env e"
  shows "engine_idle_wf env e"
  using assms(2)
proof (induction rule: engine_run.induct)
  case (created p config m e)
  show ?case by (rule Engine_Create_ok [OF created])
next
  case (submitted e request entropy e' i)
  show ?case by (rule Submit_ok(1) [OF submitted.IH submitted.hyps(2,3)])
next
  case (cancelled e i)
  show ?case by (rule Cancel_ok [OF cancelled.IH])
next
  case (polled e i item e')
  show ?case by (rule try_next_token_ok [OF polled.IH polled.hyps(2)])
next
  case (stepped e busy e')
  obtain b x where "Step env e = Inr (b, x)" "engine_idle_wf env x" by (rule Step_ok [OF assms(1) stepped.IH])
  then show ?case using stepped.hyps(2) by simp
qed

text \<open>An engine with no live or submitted request holds no block and no open channel.\<close>

definition drained :: "('f, 'm) Engine \<Rightarrow> bool" where
  "drained e \<longleftrightarrow> eg_requests e = [] \<and> free_blocks (eg_pool e) = pool_num_blocks (eg_pool e) \<and>
     (\<forall>i. 1 \<le> i \<longrightarrow> i < eg_next_id e \<longrightarrow> (\<exists>info. closed_as e i info))"

lemma drainedI:
  assumes wf: "engine_wf env ph {} e" and "eg_commands e = []" and "eg_waiting e = []" and "eg_running e = []"
  shows "drained e"
proof -
  have m: "request_map e = Map.empty" using wfD(4) [OF wf] assms(3,4) by (metis append_Nil dom_eq_empty_conv list.set(1))
  have "pending e = []" using assms(2) by (simp add: pending_def List.map_filter_def)
  then have ch: "channel_ok c \<and> oc_closed c" if "eg_channels e i = Some c" for i c
    using wfD(12) [OF wf that] m by simp
  have "\<exists>info. closed_as e i info" if "1 \<le> i" "i < eg_next_id e" for i
  proof -
    have "eg_channels e i \<noteq> None" using wfD(13) [OF wf, of i] that by blast
    then obtain c where "eg_channels e i = Some c" by blast
    then show ?thesis using ch by (auto simp: closed_as_def channel_ok_def)
  qed
  moreover have "eg_requests e = []" using m request_keys [of e] by simp
  moreover have "free_blocks (eg_pool e) = pool_num_blocks (eg_pool e)"
    using pool_holds_free(1) [OF wfD(1) [OF wf]] by (simp add: m live_blocks_def)
  ultimately show ?thesis by (simp add: drained_def)
qed

text \<open>The engine thread's loop without client calls: \<open>Step\<close> until it reports nothing to do. The fuel bounds the
  number of steps.\<close>

fun run_until_idle :: "('f, 'm) EngineEnv \<Rightarrow> nat \<Rightarrow> ('f, 'm) Engine \<Rightarrow> ('f, 'm) Engine status_or option" where
  "run_until_idle env 0 e = None"
| "run_until_idle env (Suc n) e =
     (case Step env e of
        Inl err \<Rightarrow> Some (Inl err)
      | Inr (False, e') \<Rightarrow> Some (Inr e')
      | Inr (True, e') \<Rightarrow> run_until_idle env n e')"

lemma run_until_idle_ok:
  assumes "env_wf env" and "engine_idle_wf env e" and "engine_todo e < n"
  shows "\<exists>e'. run_until_idle env n e = Some (Inr e') \<and> engine_idle_wf env e' \<and> drained e'"
  using assms(2,3)
proof (induction n arbitrary: e)
  case (Suc n)
  obtain busy e' where s: "Step env e = Inr (busy, e')" "engine_idle_wf env e'" "eg_commands e' = []"
    "if busy then engine_todo e' < engine_todo e else eg_waiting e' = [] \<and> eg_running e' = []"
    by (rule Step_ok [OF assms(1) Suc.prems(1)])
  show ?case
  proof (cases busy)
    case True
    then show ?thesis using Suc.IH [OF s(2)] s(1,4) Suc.prems(2) by simp
  next
    case False
    then have "drained e'" using s(2-4) by (intro drainedI [of env "\<lambda>_. Ready False"]) (simp_all add: engine_idle_wf_def)
    then show ?thesis using s(1,2) False by simp
  qed
qed simp

section \<open>Teardown\<close>

lemma shutdown_command_ok:
  fixes e :: "('f, 'm) Engine"
  assumes wf: "engine_wf env ph {} (e\<lparr>eg_commands := cmd # cs\<rparr>)" and live: "all_live {} e"
  shows "\<exists>e'. shutdown_command cmd e = Inr e' \<and> engine_wf env ph {} (e'\<lparr>eg_commands := cs\<rparr>) \<and> all_live {} e' \<and>
    (eg_commands e = [] \<longrightarrow> eg_commands e' = [])"
proof -
  have rm: "request_map (d\<lparr>eg_commands := x\<rparr>) = request_map d" for d :: "('f, 'm) Engine" and x by (simp add: request_map_def)
  show ?thesis
  proof (cases cmd)
    case (CancelCmd i)
    have "engine_wf env ph {} (e\<lparr>eg_commands := cs\<rparr>)"
      using wf unfolding CancelCmd engine_wf_def by (simp add: rm live_ok_def seq_ok_def pending_entry_ok_def)
    then show ?thesis using live by (simp add: shutdown_command_def CancelCmd)
  next
    case (SubmitCmd en)
    let ?b = "e\<lparr>eg_commands := SubmitCmd en # cs\<rparr>" and ?i = "entry_id en"
    note w = wf [unfolded SubmitCmd]
    have pb: "pending ?b = en # pending (e\<lparr>eg_commands := cs\<rparr>)" by simp
    have p: "pending_entry_ok ?b en" by (rule wfD(11) [OF w]) (simp add: pb)
    obtain c where c: "eg_channels e ?i = Some c" "channel_ok c" "\<not> oc_closed c"
      using p by (auto simp: pending_entry_ok_def open_channel_def)
    have new: "?i \<notin> dom (request_map e)" and st: "sq_state (en_seq en) = kWaiting" and ca: "sq_cache (en_seq en) = Some PagedKvCache_ctor"
      using p by (auto simp: pending_entry_ok_def rm seq_ok_def seq_inv_def)
    let ?c = "c\<lparr>oc_closed := True, oc_finish := Some (default_finish_info\<lparr>fi_terminal := kCancelled\<rparr>)\<rparr>"
    let ?m = "e\<lparr>eg_channels := (eg_channels e)(?i \<mapsto> ?c)\<rparr>"
    have nt: "\<not> is_terminal (en_seq en)" using st by (simp add: is_terminal_def)
    have rel: "ReleaseCache (eg_pool e) ((en_seq en)\<lparr>sq_state := kCancelled\<rparr>) = Inr (eg_pool e, (en_seq en)\<lparr>sq_state := kCancelled, sq_cache := None, sq_num_computed_tokens := 0\<rparr>)"
      using ca by (simp add: ReleaseCache_def Paged_destroy_def PagedKvCache_ctor_def BlockTable_ctor_def FreeAll_def)
    have run: "shutdown_command cmd e = Inr ?m"
      using CloseCancelled_ok [OF c(2) _ c(3) nt, of e] c(1) rel by (simp add: shutdown_command_def SubmitCmd)
    let ?e = "?m\<lparr>eg_commands := cs\<rparr>"
    have mm: "request_map ?m = request_map e" and me: "request_map ?e = request_map e" by (simp_all add: request_map_def)
    have pe: "pending ?e = pending (e\<lparr>eg_commands := cs\<rparr>)" by (simp add: pending_def)
    have dist: "distinct (map entry_id (en # pending (e\<lparr>eg_commands := cs\<rparr>)))" using wfD(10) [OF w] by (simp only: pb)
    have so: "seq_ok ?e ph s \<longleftrightarrow> seq_ok ?b ph s" for ph s by (simp add: seq_ok_def)
    have oc: "open_channel (eg_channels ?e) j \<longleftrightarrow> open_channel (eg_channels e) j" if "j \<noteq> ?i" for j
      using that by (simp add: open_channel_def)
    have lv: "live_ok ph ?e j x" if x: "request_map e j = Some x" for j x
    proof -
      have "j \<noteq> ?i" using x new by auto
      moreover have "live_ok ph ?b j x" using wfD(5) [OF w, of j x] x by (simp add: rm)
      ultimately show ?thesis using oc so by (simp add: live_ok_def)
    qed
    have pok: "pending_entry_ok ?e x" if x: "x \<in> set (pending (e\<lparr>eg_commands := cs\<rparr>))" for x
    proof -
      have "entry_id x \<noteq> ?i" using dist x by (auto simp: image_iff)
      moreover have "pending_entry_ok ?b x" by (rule wfD(11) [OF w]) (use x pb in simp)
      ultimately show ?thesis using oc so by (simp add: pending_entry_ok_def rm mm)
    qed
    have chs: "channel_ok x \<and> (oc_closed x \<or> j \<in> dom (request_map e) - {} \<or> j \<in> entry_id ` set (pending (e\<lparr>eg_commands := cs\<rparr>)))"
      if x: "eg_channels ?e j = Some x" for j x
    proof (cases "j = ?i")
      case True
      then show ?thesis using x by (auto simp: channel_ok_def)
    next
      case False
      then show ?thesis using x wfD(12) [OF w, of j x, unfolded pb rm] by auto
    qed
    have some: "eg_channels ?e j \<noteq> None \<longleftrightarrow> 1 \<le> j \<and> j < eg_next_id e" for j
      using wfD(13) [OF w, of j] c(1) by (cases "j = ?i") auto
    have "engine_wf env ph {} ?e"
      unfolding engine_wf_def me pe
      using wfD(1-4) [OF w] wfD(6-9) [OF w] wfD(14) [OF w] lv pok chs some dist by (simp add: rm)
    then show ?thesis using run live by (simp add: all_live_def request_map_def)
  qed
qed

lemma shutdown_commands_ok:
  assumes "engine_wf env ph {} (e\<lparr>eg_commands := cs\<rparr>)" and "all_live {} e" and "eg_commands e = []"
  shows "\<exists>e'. fold_ok shutdown_command cs e = Inr e' \<and> engine_wf env ph {} e' \<and> all_live {} e' \<and> eg_commands e' = []"
  using assms
proof (induction cs arbitrary: e)
  case Nil
  have eq: "e\<lparr>eg_commands := []\<rparr> = e" using Nil.prems(3) by simp
  have "engine_wf env ph {} e" using Nil.prems(1) unfolding eq .
  then show ?case using Nil.prems(2,3) by simp
next
  case (Cons cmd cs)
  obtain e1 where e1: "shutdown_command cmd e = Inr e1" "engine_wf env ph {} (e1\<lparr>eg_commands := cs\<rparr>)" "all_live {} e1" "eg_commands e1 = []"
    using shutdown_command_ok [OF Cons.prems(1,2)] Cons.prems(3) by blast
  from Cons.IH [OF e1(2-4)] e1(1) show ?case by auto
qed

text \<open>Closing every live request.\<close>

lemma shutdown_request_ok:
  assumes wf: "engine_wf env ph R e" and i: "request_map e i = Some en" "i \<notin> R" and live: "all_live R e"
  obtains e' where "shutdown_request i e = Inr e'" and "engine_wf env ph (insert i R) e'" and "all_live (insert i R) e'"
    and "closing_frame e e'"
proof -
  have nt: "\<not> is_terminal (en_seq en)" using live i by (simp add: all_live_def)
  have lo: "entry_id en = i" "open_channel (eg_channels e) i" using wfD(5) [OF wf i] by (simp_all add: live_ok_def)
  obtain c where c: "eg_channels e i = Some c" "channel_ok c" "\<not> oc_closed c" using lo(2) by (auto simp: open_channel_def)
  let ?c = "c\<lparr>oc_closed := True, oc_finish := Some (default_finish_info\<lparr>fi_terminal := kCancelled\<rparr>)\<rparr>"
  let ?en = "en\<lparr>en_seq := (en_seq en)\<lparr>sq_state := kCancelled\<rparr>\<rparr>"
  let ?e = "put_request (e\<lparr>eg_channels := (eg_channels e)(i \<mapsto> ?c)\<rparr>) i ?en"
  have f: "shutdown_request i e = Inr ?e"
    using at_request_ok [OF i(1)] nt CloseCancelled_ok [OF c(2) _ c(3) nt, of e] lo(1) c(1) by (simp add: shutdown_request_def)
  have fld: "eg_channels ?e = (eg_channels e)(i \<mapsto> ?c)" "eg_config ?e = eg_config e" "eg_commands ?e = eg_commands e"
    "eg_next_id ?e = eg_next_id e" "eg_pool ?e = eg_pool e" "eg_waiting ?e = eg_waiting e" "eg_running ?e = eg_running e"
    "request_map ?e = (request_map e)(i \<mapsto> ?en)" "distinct (map fst (eg_requests ?e))"
    using wfD(2) [OF wf] by (simp_all add: put_request_def request_map_def update_conv' distinct_update)
  have "engine_wf env ph (insert i R) ?e"
    by (rule wf_close [OF wf i fld(8,9) _ fld(1) _ _ fld(2-7)]) (use c in \<open>simp_all add: seq_blocks_def channel_ok_def\<close>)
  moreover have "all_live (insert i R) ?e" using live by (auto simp: all_live_def fld(8))
  moreover have "closing_frame e ?e" using i(1) by (auto simp: closing_frame_def fld)
  ultimately show thesis by (rule that [OF f])
qed

lemma shutdown_requests_ok:
  assumes "engine_wf env ph R e" and "all_live R e" and "distinct ids" and "set ids \<subseteq> dom (request_map e) - R"
  shows "\<exists>e'. fold_ok shutdown_request ids e = Inr e' \<and> engine_wf env ph (R \<union> set ids) e' \<and> closing_frame e e'"
  using assms
proof (induction ids arbitrary: R e)
  case (Cons i ids)
  obtain en where i: "request_map e i = Some en" "i \<notin> R" using Cons.prems(4) by auto
  obtain e1 where e1: "shutdown_request i e = Inr e1" "engine_wf env ph (insert i R) e1" "all_live (insert i R) e1" "closing_frame e e1"
    by (rule shutdown_request_ok [OF Cons.prems(1) i Cons.prems(2)])
  have "distinct ids" "set ids \<subseteq> dom (request_map e1) - insert i R" using Cons.prems(3,4) e1(4) by (auto simp: closing_frame_def)
  from Cons.IH [OF e1(2,3) this]
  obtain e2 where "fold_ok shutdown_request ids e1 = Inr e2" "engine_wf env ph (insert i R \<union> set ids) e2" "closing_frame e1 e2" by blast
  then show ?case using e1(1) closing_frame_trans [OF e1(4)] by auto
qed simp

text \<open>Teardown erases without touching the queues, which it clears at the end.\<close>

lemma erase_request_lists:
  "erase_request i (e\<lparr>eg_waiting := w, eg_running := r\<rparr>) =
   bind_ok (erase_request i e) (\<lambda>e'. Inr (e'\<lparr>eg_waiting := w, eg_running := r\<rparr>))"
  by (auto simp: erase_request_def bind_ok_def split: option.split sum.split)

lemma erase_loop_lists:
  "fold_ok retire_one ids e = Inr e' \<Longrightarrow> fold_ok erase_request ids (e\<lparr>eg_waiting := w, eg_running := r\<rparr>) = Inr (e'\<lparr>eg_waiting := w, eg_running := r\<rparr>)"
proof (induction ids arbitrary: e)
  case (Cons i ids)
  let ?d = "e\<lparr>eg_waiting := removeAll i (eg_waiting e), eg_running := removeAll i (eg_running e)\<rparr>"
  obtain e1 where e1: "retire_one i e = Inr e1" "fold_ok retire_one ids e1 = Inr e'" using Cons.prems by (cases "retire_one i e") auto
  have "erase_request i ?d = Inr e1" using e1(1) by (simp add: retire_one_def)
  then have "erase_request i (?d\<lparr>eg_waiting := w, eg_running := r\<rparr>) = Inr (e1\<lparr>eg_waiting := w, eg_running := r\<rparr>)"
    by (simp only: erase_request_lists bind_ok_simps)
  then show ?case using Cons.IH [OF e1(2)] by simp
qed simp

lemma Shutdown_ok:
  assumes env: "env_wf env" and idle: "engine_idle_wf env e"
  obtains e' where "Shutdown env e = Inr e'" and "drained e'"
proof -
  have wf: "engine_wf env (\<lambda>_. Ready False) {} e" and al: "all_live {} e" using idle by (simp_all add: engine_idle_wf_def)
  have "engine_wf env (\<lambda>_. Ready False) {} (e\<lparr>eg_commands := []\<rparr>\<lparr>eg_commands := eg_commands e\<rparr>)" using wf by simp
  moreover have "all_live {} (e\<lparr>eg_commands := []\<rparr>)" using al by (simp add: all_live_def request_map_def)
  moreover have "eg_commands (e\<lparr>eg_commands := []\<rparr>) = []" by simp
  ultimately obtain e1 where e1: "fold_ok shutdown_command (eg_commands e) (e\<lparr>eg_commands := []\<rparr>) = Inr e1"
    "engine_wf env (\<lambda>_. Ready False) {} e1" "all_live {} e1" "eg_commands e1 = []"
    using shutdown_commands_ok by blast
  let ?ids = "ev_request_order env (map fst (eg_requests e1))"
  have m: "mset ?ids = mset (map fst (eg_requests e1))" using env unfolding env_wf_def by blast
  have "set ?ids = dom (request_map e1)" using mset_eq_setD [OF m] request_keys by (simp only:)
  moreover have "distinct ?ids" using wfD(2) [OF e1(2)] mset_eq_imp_distinct_iff [OF m] by simp
  ultimately have ids: "distinct ?ids" "set ?ids = dom (request_map e1)" by blast+
  obtain e2 where e2: "fold_ok shutdown_request ?ids e1 = Inr e2" "engine_wf env (\<lambda>_. Ready False) (set ?ids) e2" "closing_frame e1 e2"
    using shutdown_requests_ok [OF e1(2,3) ids(1)] ids(2) by auto
  have "set ?ids \<subseteq> set ?ids \<inter> dom (request_map e2)" using e2(3) ids(2) by (simp add: closing_frame_def)
  from retire_loop_ok [OF e2(2) ids(1) this]
  obtain e3 where e3: "fold_ok retire_one ?ids e2 = Inr e3" "engine_wf env (\<lambda>_. Ready False) {} e3"
    "request_map e3 = request_map e2 |` (- set ?ids)" "eg_commands e3 = eg_commands e2" by auto
  have none: "request_map e3 = Map.empty" using e2(3) ids(2) unfolding e3(3) by (auto simp: closing_frame_def restrict_map_def fun_eq_iff)
  then have nil: "eg_waiting e3 = []" "eg_running e3 = []" using wfD(4) [OF e3(2)] by auto
  have "fold_ok erase_request ?ids (e2\<lparr>eg_waiting := eg_waiting e2, eg_running := eg_running e2\<rparr>) =
      Inr (e3\<lparr>eg_waiting := eg_waiting e2, eg_running := eg_running e2\<rparr>)"
    by (rule erase_loop_lists [OF e3(1)])
  then have er: "fold_ok erase_request ?ids e2 = Inr (e3\<lparr>eg_waiting := eg_waiting e2, eg_running := eg_running e2\<rparr>)" by simp
  have "e3\<lparr>eg_waiting := [], eg_running := []\<rparr> = e3" using nil by simp
  then have "Shutdown env e = Inr e3" using e1(1) e2(1) er by (simp add: Shutdown_def Let_def)
  moreover have "drained e3" by (rule drainedI [OF e3(2)]) (use nil e3(4) e2(3) e1(4) in \<open>simp_all add: closing_frame_def\<close>)
  ultimately show thesis by (rule that)
qed

lemma stop_flag_ok: "engine_idle_wf env (e\<lparr>eg_stop_requested := b\<rparr>) = engine_idle_wf env e"
proof -
  have rm: "request_map (e\<lparr>eg_stop_requested := b\<rparr>) = request_map e" and p: "pending (e\<lparr>eg_stop_requested := b\<rparr>) = pending e"
    by (simp_all add: request_map_def pending_def)
  have "live_ok ph (e\<lparr>eg_stop_requested := b\<rparr>) j en = live_ok ph e j en" "pending_entry_ok (e\<lparr>eg_stop_requested := b\<rparr>) en = pending_entry_ok e en" for ph j en
    by (simp_all add: live_ok_def seq_ok_def pending_entry_ok_def rm)
  then show ?thesis unfolding engine_idle_wf_def engine_wf_def all_live_def batch_width_def rm p by simp
qed

section \<open>A model that grows the caches\<close>

text \<open>For concrete runs: a forward that appends the tokens it is fed to every member's block table, stops at the
  first that does not fit, and answers rows of zeros.\<close>

fun grow_caches :: "'f BlockPool \<Rightarrow> int list \<Rightarrow> PagedKvCache list \<Rightarrow> unit status_or \<times> 'f BlockPool \<times> PagedKvCache list" where
  "grow_caches p (n # ns) (c # cs) =
     (case AppendTokens p (pg_table c) n of
        ((p', t), Inr _) \<Rightarrow> (case grow_caches p' ns cs of (r, p'', cs') \<Rightarrow> (r, p'', c\<lparr>pg_table := t\<rparr> # cs'))
      | ((p', t), Inl err) \<Rightarrow> (Inl err, p', c # cs))"
| "grow_caches p ns cs = (Inr (), p, cs)"

definition grow_forward ::
  "nat \<Rightarrow> unit \<Rightarrow> ForwardRequest \<Rightarrow> 'f BlockPool \<Rightarrow> PagedKvCache list \<Rightarrow> Logits status_or \<times> unit \<times> 'f BlockPool \<times> PagedKvCache list" where
  "grow_forward vocab m req p cs =
     (case grow_caches p (map (fed_tokens req) [0..<length cs]) cs of
        (Inr _, p', cs') \<Rightarrow> (Inr ([int (length cs), int vocab], replicate (length cs * vocab) (Finite 0)), m, p', cs')
      | (Inl err, p', cs') \<Rightarrow> (Inl err, m, p', cs'))"

definition grow_env :: "CacheGeometry \<Rightarrow> nat \<Rightarrow> ('f, unit) EngineEnv" where
  "grow_env g vocab = \<lparr>ev_model = \<lparr>mi_forward = grow_forward vocab, mi_vocab_size = int vocab, mi_max_position_embeddings = 16, mi_cache_geometry = g\<rparr>,
     ev_sampler = step_exp_env, ev_chunk_order = (\<lambda>n. worker_chunks 1 n 0), ev_request_order = rev\<rparr>"

lemma grow_caches_ok:
  assumes "owned p (blocks_of cs @ others)" and "\<forall>c\<in>set cs. table_wf (pool_block_size p) (pg_table c)"
    and "length ns = length cs" and "\<forall>n\<in>set ns. 1 \<le> n" and "grow_caches p ns cs = (r, p', cs')"
  shows "owned p' (blocks_of cs' @ others) \<and> pool_data p' = pool_data p \<and> length cs' = length cs \<and>
    (\<forall>c\<in>set cs'. table_wf (pool_block_size p) (pg_table c)) \<and>
    (\<forall>b<length cs. Paged_length (cs ! b) \<le> Paged_length (cs' ! b) \<and> pg_next_layer (cs' ! b) = pg_next_layer (cs ! b)) \<and>
    (case r of Inr _ \<Rightarrow> \<forall>b<length cs. Paged_length (cs' ! b) = Paged_length (cs ! b) + ns ! b
     | Inl err \<Rightarrow> err = Status kResourceExhausted \<and> (length cs = 1 \<longrightarrow> cs' = cs))"
  using assms(3,1,2,4,5)
proof (induction ns cs arbitrary: p others r p' cs' rule: list_induct2)
  case (Cons n ns c cs)
  have own: "owned p (tab_blocks (pg_table c) @ (blocks_of cs @ others))" using Cons.prems(1) by (simp add: blocks_of_def)
  have wf: "table_wf (pool_block_size p) (pg_table c)" and n: "0 < n" using Cons.prems(2,3) by auto
  show ?case
  proof (cases "ceil_div (tab_num_tokens (pg_table c) + n) (pool_block_size p) - ceil_div (tab_num_tokens (pg_table c)) (pool_block_size p) \<le> free_blocks p")
    case False
    obtain q where q: "AppendTokens p (pg_table c) n = ((q, pg_table c), ResourceExhaustedError)"
      "owned q (tab_blocks (pg_table c) @ (blocks_of cs @ others))" "pool_data q = pool_data p"
      by (rule AppendTokens_exhausted [OF own wf n]) (use False in simp, blast)
    have "r = ResourceExhaustedError" "p' = q" "cs' = c # cs" using Cons.prems(4) q(1) by auto
    then show ?thesis using q(2,3) Cons.prems(2) by (simp add: blocks_of_def)
  next
    case True
    obtain q fresh where q: "AppendTokens p (pg_table c) n = ((q, \<lparr>tab_blocks = tab_blocks (pg_table c) @ fresh, tab_num_tokens = tab_num_tokens (pg_table c) + n\<rparr>),
       Inr (map (slot_of (pool_block_size p) (tab_blocks (pg_table c) @ fresh)) [tab_num_tokens (pg_table c)..tab_num_tokens (pg_table c) + n - 1]))"
      "owned q ((tab_blocks (pg_table c) @ fresh) @ (blocks_of cs @ others))"
      "table_wf (pool_block_size p) \<lparr>tab_blocks = tab_blocks (pg_table c) @ fresh, tab_num_tokens = tab_num_tokens (pg_table c) + n\<rparr>"
      "pool_data q = pool_data p"
      by (rule AppendTokens_ok [OF own wf n True])
    let ?t = "\<lparr>tab_blocks = tab_blocks (pg_table c) @ fresh, tab_num_tokens = tab_num_tokens (pg_table c) + n\<rparr>"
    obtain r1 q1 cs1 where g: "grow_caches q ns cs = (r1, q1, cs1)" by (metis prod_cases3)
    have res: "r = r1" "p' = q1" "cs' = c\<lparr>pg_table := ?t\<rparr> # cs1" using Cons.prems(4) q(1) g by auto
    have bs: "pool_block_size q = pool_block_size p" using q(4) by (simp add: pool_data_def)
    have "owned q (blocks_of cs @ (tab_blocks ?t @ others))" by (rule owned_perm [OF q(2)]) simp
    then have IH: "owned q1 (blocks_of cs1 @ (tab_blocks ?t @ others)) \<and> pool_data q1 = pool_data q \<and> length cs1 = length cs \<and>
      (\<forall>c\<in>set cs1. table_wf (pool_block_size q) (pg_table c)) \<and>
      (\<forall>b<length cs. Paged_length (cs ! b) \<le> Paged_length (cs1 ! b) \<and> pg_next_layer (cs1 ! b) = pg_next_layer (cs ! b)) \<and>
      (case r1 of Inr _ \<Rightarrow> \<forall>b<length cs. Paged_length (cs1 ! b) = Paged_length (cs ! b) + ns ! b
       | Inl err \<Rightarrow> err = Status kResourceExhausted \<and> (length cs = 1 \<longrightarrow> cs1 = cs))"
      by (rule Cons.IH) (use Cons.prems(2,3) g bs in auto)
    have ow: "owned q1 (blocks_of cs' @ others)"
      by (rule owned_perm [of q1 "blocks_of cs1 @ (tab_blocks ?t @ others)"]) (use IH in \<open>simp_all add: res blocks_of_def\<close>)
    have at: "P (cs' ! b) ((c # cs) ! b) b" if "P (c\<lparr>pg_table := ?t\<rparr>) c 0" "\<And>j. j < length cs \<Longrightarrow> P (cs1 ! j) (cs ! j) (Suc j)" "b < Suc (length cs)" for P b
      using that by (cases b) (simp_all add: res(3))
    have one: "r1 = Inr ()" "cs1 = []" if "length (c # cs) = 1" using that g Cons.hyps by (cases ns; cases cs; simp)+
    have le: "\<forall>b<length (c # cs). Paged_length ((c # cs) ! b) \<le> Paged_length (cs' ! b) \<and> pg_next_layer (cs' ! b) = pg_next_layer ((c # cs) ! b)"
      using at [of "\<lambda>x y b. Paged_length y \<le> Paged_length x \<and> pg_next_layer x = pg_next_layer y"] IH n by (simp add: Paged_length_def)
    have eq: "\<forall>b<length (c # cs). Paged_length (cs' ! b) = Paged_length ((c # cs) ! b) + (n # ns) ! b" if "r1 = Inr u" for u
      using at [of "\<lambda>x y b. Paged_length x = Paged_length y + (n # ns) ! b"] IH that by (simp add: Paged_length_def)
    show ?thesis
      using ow le eq one IH q(3,4) bs unfolding res(1,2) by (auto simp: res(3) split: sum.split)
  qed
qed auto

lemma grow_forward_contract:
  assumes "0 < vocab"
  shows "forward_contract \<lparr>mi_forward = grow_forward vocab, mi_vocab_size = int vocab, mi_max_position_embeddings = k, mi_cache_geometry = g\<rparr>"
proof -
  let ?mi = "\<lparr>mi_forward = grow_forward vocab, mi_vocab_size = int vocab, mi_max_position_embeddings = k, mi_cache_geometry = g\<rparr>"
  have "forward_output_ok ?mi req p cs others r p' cs'"
    if f: "grow_forward vocab m req p cs = (r, m', p', cs')" and i: "forward_input_ok ?mi req p cs others" for m req p cs others r m' p' cs'
  proof -
    obtain r1 q ds where g: "grow_caches p (map (fed_tokens req) [0..<length cs]) cs = (r1, q, ds)" by (metis prod_cases3)
    have pre: "owned p (blocks_of cs @ others)" "\<forall>c\<in>set cs. table_wf (pool_block_size p) (pg_table c)" "\<forall>c\<in>set cs. pg_next_layer c = 0"
      "slabs_wf p" "\<forall>b<length cs. 1 \<le> fed_tokens req b" "fr_cu_seqlens req = [] \<longrightarrow> length cs = 1"
      using i by (auto simp: forward_input_ok_def idle_cache_def)
    note o = grow_caches_ok [OF pre(1,2) _ _ g]
    have o': "owned q (blocks_of ds @ others)" "pool_data q = pool_data p" "length ds = length cs"
      "\<forall>c\<in>set ds. table_wf (pool_block_size p) (pg_table c)"
      "\<forall>b<length cs. Paged_length (cs ! b) \<le> Paged_length (ds ! b) \<and> pg_next_layer (ds ! b) = pg_next_layer (cs ! b)"
      "case r1 of Inr _ \<Rightarrow> \<forall>b<length cs. Paged_length (ds ! b) = Paged_length (cs ! b) + map (fed_tokens req) [0..<length cs] ! b
        | Inl err \<Rightarrow> err = Status kResourceExhausted \<and> (length cs = 1 \<longrightarrow> ds = cs)"
      using o pre(5) by auto
    have sw: "slabs_wf q" using slabs_wf_data [OF o'(2)] pre(4) by simp
    show ?thesis
    proof (cases r1)
      case (Inr u)
      then have "r = Inr ([int (length cs), int vocab], replicate (length cs * vocab) (Finite 0))" "p' = q" "cs' = ds"
        using f g by (auto simp: grow_forward_def)
      then show ?thesis using o' Inr sw pre(3) data_same_pool [OF o'(2)] by (auto simp: forward_output_ok_def)
    next
      case (Inl err)
      then have "r = Inl (Status kResourceExhausted)" "p' = q" "cs' = ds" using f g o'(6) by (auto simp: grow_forward_def)
      then show ?thesis using o' Inl sw pre(6) data_same_pool [OF o'(2)] by (auto simp: forward_output_ok_def)
    qed
  qed
  then show ?thesis using assms unfolding forward_contract_def by auto
qed

lemma grow_env_wf: "0 < vocab \<Longrightarrow> env_wf (grow_env g vocab)"
proof -
  assume v: "0 < vocab"
  have "region_order 1 n (worker_chunks 1 n 0)" for n
    by (auto simp: region_order_def set_worker_chunks)
  then have "region_order 1 n (ev_chunk_order (grow_env g vocab) n)" for n by (simp add: grow_env_def)
  then show ?thesis using grow_forward_contract [OF v] unfolding env_wf_def by (auto simp: grow_env_def)
qed

section \<open>A concrete engine\<close>

definition small_config :: EngineConfig where
  "small_config = \<lparr>ec_max_num_seqs = 2, ec_max_num_batched_tokens = 16, ec_max_model_len = 0\<rparr>"

definition small_env :: "(int, unit) EngineEnv" where
  "small_env = grow_env unit_geometry 2"

definition small_engine :: "(int, unit) Engine" where
  "small_engine = \<lparr>eg_model = (), eg_pool = small_pool, eg_config = small_config, eg_max_model_len = 16,
     eg_commands = [], eg_next_id = 1, eg_next_arrival = 0, eg_stop_requested = False, eg_requests = [],
     eg_waiting = [], eg_running = [], eg_preemption_count = 0, eg_channels = (\<lambda>_. None)\<rparr>"

lemma small_pool_slabs: "slabs_wf small_pool"
  by (simp add: slabs_wf_def small_pool_def BlockPool_ctor_def unit_geometry_def IsValidBlockSize_def ValidateGeometry_def
      slab_elems_def IsReservedDataType_def numeral_2_eq_2 INT64_MAX_def)

lemma small_env_wf: "env_wf small_env"
  unfolding small_env_def by (rule grow_env_wf) simp

lemma small_engine_run: "engine_run small_env small_engine"
proof (rule engine_run.created [OF small_pool_slabs small_pool_owned])
  show "ec_max_num_batched_tokens small_config \<le> INT32_MAX" "ec_max_num_seqs small_config \<le> INT32_MAX"
    by (simp_all add: small_config_def INT32_MAX_def)
  show "Engine_Create small_env () small_pool small_config = Inr small_engine"
    by (simp add: Engine_Create_def small_config_def small_env_def grow_env_def small_engine_def small_pool_def BlockPool_ctor_def Let_def)
qed

lemma Greedy_valid: "0 < n \<Longrightarrow> ValidateSamplingParams (Greedy n) = Inr ()"
  by (simp add: ValidateSamplingParams_def Greedy_def default_params_def isfinite_def float_le_def kMaxLogprobs_def)

lemma sample_request_safe: "request_safe sample_request"
  by (simp add: request_safe_def sample_request_def params_safe_def Greedy_def default_params_def float_eq_def)

text \<open>One request of one token and up to four new ones, submitted.\<close>

definition busy_engine :: "(int, unit) Engine" where
  "busy_engine = (case Submit small_engine 7 sample_request of Inr (e, _) \<Rightarrow> e | Inl _ \<Rightarrow> small_engine)"

lemma small_Submit: "\<exists>e. Submit small_engine 7 sample_request = Inr (e, 1) \<and> length (pending e) = 1"
  by (simp add: Submit_def sample_request_def peak_length_def int64_wrap_def small_engine_def small_config_def small_pool_def BlockPool_ctor_def
      Sequence_Create_def Sampler_Create_def Greedy_valid StopChecker_Create_def Let_def pending_def List.map_filter_def)
    (simp add: Greedy_def default_params_def)

lemma busy_engine_run: "engine_run small_env busy_engine" and busy_engine_pending: "length (pending busy_engine) = 1"
proof -
  obtain e where e: "Submit small_engine 7 sample_request = Inr (e, 1)" "length (pending e) = 1" using small_Submit by blast
  then have "busy_engine = e" by (simp add: busy_engine_def)
  then show "engine_run small_env busy_engine" "length (pending busy_engine) = 1"
    using engine_run.submitted [OF small_engine_run sample_request_safe e(1)] e(2) by simp_all
qed

section \<open>Helpers\<close>

lemma live_blocks_list:
  "distinct (map fst xs) \<Longrightarrow> mset (concat (map (\<lambda>x. seq_blocks (en_seq (snd x))) xs)) = live_blocks (map_of xs)"
proof (induction xs)
  case Nil
  then show ?case by (simp add: live_blocks_def)
next
  case (Cons x xs)
  obtain i en where x: "x = (i, en)" by (cases x)
  have "map_of xs i = None" using Cons.prems by (simp add: x map_of_eq_None_iff)
  then have "(map_of xs)(i := None) = map_of xs" by (auto simp: fun_eq_iff)
  then have "live_blocks (map_of (x # xs)) = mset (seq_blocks (en_seq en)) + live_blocks (map_of xs)"
    using live_blocks_update [OF finite_dom_map_of, of xs i en] by (simp only: x map_of.simps fst_conv snd_conv)
  then show ?case using Cons by (simp only: x list.map concat.simps mset_append snd_conv fst_conv distinct.simps simp_thms)
qed

lemma cancels_sticky: "cancels e i \<Longrightarrow> cancels (apply_command cmd e) i"
  by (auto simp: cancels_def apply_command_def request_map_def put_request_def update_conv' Let_def map_add_def split: Command.split option.split)

lemma apply_command_keeps: "i \<in> dom (request_map e) \<Longrightarrow> i \<in> dom (request_map (apply_command cmd e))"
  by (auto simp: apply_command_def request_map_def put_request_def update_conv' Let_def map_add_def split: Command.split option.split)

lemma cancels_drained:
  "cancels e i \<or> (i \<in> dom (request_map e) \<and> CancelCmd i \<in> set cs) \<Longrightarrow> cancels (fold apply_command cs e) i"
proof (induction cs arbitrary: e)
  case (Cons cmd cs)
  have "cancels (apply_command cmd e) i" if "i \<in> dom (request_map e)" "cmd = CancelCmd i"
    using that by (auto simp: cancels_def apply_command_def request_map_def put_request_def update_conv')
  then show ?case using Cons.IH [of "apply_command cmd e"] Cons.prems cancels_sticky [of e i cmd] apply_command_keeps [of i e cmd] by auto
qed simp

text \<open>Which sequences the recovery may preempt: the other running ones.\<close>

definition eligible :: "('f, 'm) Engine \<Rightarrow> int \<Rightarrow> int \<Rightarrow> bool" where
  "eligible e x j \<longleftrightarrow> j \<noteq> x \<and> (\<exists>en. request_map e j = Some en \<and> sq_state (en_seq en) = kRunning)"

definition arrival_of :: "('f, 'm) Engine \<Rightarrow> int \<Rightarrow> int" where
  "arrival_of e j = rq_arrival_index (sq_request (en_seq (the (request_map e j))))"

lemma pick_loop_latest:
  assumes "\<forall>j\<in>set is. j \<noteq> 0 \<and> j \<in> dom (request_map e)" and "v \<noteq> 0 \<longrightarrow> eligible e x v \<and> a = arrival_of e v"
  shows "\<exists>w. pick_loop e x is v a = Inr w \<and> (w = 0 \<longrightarrow> v = 0 \<and> (\<forall>j\<in>set is. \<not> eligible e x j)) \<and>
    (w \<noteq> 0 \<longrightarrow> eligible e x w \<and> (w = v \<or> w \<in> set is) \<and> (v \<noteq> 0 \<longrightarrow> arrival_of e v \<le> arrival_of e w) \<and>
      (\<forall>j\<in>set is. eligible e x j \<longrightarrow> arrival_of e j \<le> arrival_of e w))"
  using assms
proof (induction "is" arbitrary: v a)
  case (Cons i "is")
  obtain en where en: "request_map e i = Some en" using Cons.prems(1) by auto
  have ar: "arrival_of e i = rq_arrival_index (sq_request (en_seq en))" by (simp add: arrival_of_def en)
  have el: "eligible e x i \<longleftrightarrow> i \<noteq> x \<and> sq_state (en_seq en) = kRunning" by (simp add: eligible_def en)
  have m: "\<forall>j\<in>set is. j \<noteq> 0 \<and> j \<in> dom (request_map e)" and i0: "i \<noteq> 0" using Cons.prems(1) by simp_all
  show ?case
  proof (cases "eligible e x i \<and> (v = 0 \<or> a < arrival_of e i)")
    case True
    then have "pick_loop e x (i # is) v a = pick_loop e x is i (arrival_of e i)"
      using at_request_ok [OF en] by (auto simp: Let_def el ar)
    then show ?thesis using Cons.IH [OF m, of i "arrival_of e i"] True i0 Cons.prems(2) by force
  next
    case False
    then have "pick_loop e x (i # is) v a = pick_loop e x is v a" using at_request_ok [OF en] by (auto simp: Let_def el ar)
    then show ?thesis using Cons.IH [OF m Cons.prems(2)] False Cons.prems(2) by force
  qed
qed simp

section \<open>Properties\<close>

text \<open>C1. 
  The engine never aborts. In every state that submissions of safe requests, cancellations, polls and steps can
  reach, with any model that keeps its documented contract, any thread schedule of the sampler and any traversal
  of the request map, a step returns: no check fires, no entry is missing, no cache is null. Stopping returns too,
  and leaves every channel closed, every block free and no request.
\<close>

theorem engine_never_aborts:
  assumes "env_wf env" and "engine_run env e"
  shows "(\<exists>busy e'. Step env e = Inr (busy, e') \<and> (busy \<or> drained e')) \<and> (\<exists>e'. Stop env e = Inr e' \<and> drained e')"
proof -
  have idle: "engine_idle_wf env e" by (rule engine_run_ok [OF assms])
  obtain busy e1 where s: "Step env e = Inr (busy, e1)" "engine_idle_wf env e1" "eg_commands e1 = []"
    "if busy then engine_todo e1 < engine_todo e else eg_waiting e1 = [] \<and> eg_running e1 = []"
    by (rule Step_ok [OF assms(1) idle])
  have "busy \<or> drained e1" using s(2-4) by (auto simp: engine_idle_wf_def intro: drainedI)
  moreover obtain e2 where "Shutdown env (e\<lparr>eg_stop_requested := True\<rparr>) = Inr e2" "drained e2"
    by (rule Shutdown_ok [OF assms(1), of "e\<lparr>eg_stop_requested := True\<rparr>"]) (simp_all add: stop_flag_ok idle)
  ultimately show ?thesis using s(1) by (auto simp: Stop_def)
qed

theorem engine_never_aborts_witness:
  "\<exists>busy e' e''. Step small_env busy_engine = Inr (busy, e') \<and> Stop small_env busy_engine = Inr e'' \<and> drained e''"
  using engine_never_aborts [OF small_env_wf busy_engine_run] by blast

text \<open>C2. 
  Block accounting of a reachable engine. Every block in use is referenced once and belongs to exactly one live
  sequence, and the rest is free; the two queues partition the requests; a running sequence's cache holds every
  token but the last sampled one, a queued one holds no block, and no live sequence has used up its tokens.
\<close>

theorem engine_block_accounting:
  assumes "env_wf env" and "engine_run env e"
  shows "let held = concat (map (\<lambda>x. seq_blocks (en_seq (snd x))) (eg_requests e)) in
    distinct held \<and> free_blocks (eg_pool e) + int (length held) = pool_num_blocks (eg_pool e) \<and>
    (\<forall>b. rc_of (eg_pool e) b = (if b \<in> set held then 1 else 0)) \<and>
    distinct (eg_waiting e @ eg_running e) \<and> set (eg_waiting e @ eg_running e) = fst ` set (eg_requests e) \<and>
    (\<forall>x\<in>set (eg_requests e). case x of (i, en) \<Rightarrow>
       num_generated (en_seq en) < max_tokens (rq_params (sq_request (en_seq en))) \<and>
       (if i \<in> set (eg_running e)
        then sq_state (en_seq en) = kRunning \<and> (\<exists>c. sq_cache (en_seq en) = Some c \<and> Paged_length c = seq_len (en_seq en) - 1)
        else queued (sq_state (en_seq en)) \<and> seq_blocks (en_seq en) = []))"
proof -
  have idle: "engine_idle_wf env e" by (rule engine_run_ok [OF assms])
  have wf: "engine_wf env (\<lambda>_. Ready False) {} e" using idle by (simp add: engine_idle_wf_def)
  let ?held = "concat (map (\<lambda>x. seq_blocks (en_seq (snd x))) (eg_requests e))"
  have held: "mset ?held = live_blocks (request_map e)" using live_blocks_list [OF wfD(2) [OF wf]] by (simp only: request_map_def)
  have own: "owned (eg_pool e) ?held"
    using wfD(1) [OF wf] unfolding held [symmetric] pool_holds_owned by (rule conjunct2)
  have sz: "size (live_blocks (request_map e)) = length ?held" by (simp only: held [symmetric] size_mset)
  have free: "free_blocks (eg_pool e) + int (length ?held) = pool_num_blocks (eg_pool e)"
    using pool_holds_free(1) [OF wfD(1) [OF wf]] unfolding sz by simp
  have lists: "distinct (eg_waiting e @ eg_running e)" "set (eg_waiting e @ eg_running e) = fst ` set (eg_requests e)"
    using wfD(3,4) [OF wf] request_keys [of e] by (simp_all only: set_map)
  have each: "num_generated (en_seq en) < max_tokens (rq_params (sq_request (en_seq en))) \<and>
       (if i \<in> set (eg_running e)
        then sq_state (en_seq en) = kRunning \<and> (\<exists>c. sq_cache (en_seq en) = Some c \<and> Paged_length c = seq_len (en_seq en) - 1)
        else queued (sq_state (en_seq en)) \<and> seq_blocks (en_seq en) = [])" if x: "(i, en) \<in> set (eg_requests e)" for i en
  proof -
    have i: "request_map e i = Some en" using x wfD(2) [OF wf] by (simp add: request_map_def)
    note en = idle_entry [OF idle i]
    have "i \<in> set (eg_waiting e @ eg_running e)" unfolding lists(2) using x by force
    then have q: "i \<notin> set (eg_running e) \<Longrightarrow> i \<in> set (eg_waiting e)" by simp
    have run: "sq_state (en_seq en) = kRunning" if "i \<in> set (eg_running e)" using idle_running [OF idle that] i by auto
    show ?thesis using en(1,2,6) q run waiting_desc_ok(2) [OF idle, of i] i
      by (auto simp: seq_ok_def seq_inv_def ready_len_def held_of_def)
  qed
  show ?thesis unfolding Let_def using ownedD(2,3) [OF own] free lists each by (intro conjI allI ballI) auto
qed

theorem engine_block_accounting_witness:
  "free_blocks (eg_pool busy_engine) + int (length (concat (map (\<lambda>x. seq_blocks (en_seq (snd x))) (eg_requests busy_engine)))) =
     pool_num_blocks (eg_pool busy_engine)"
  using engine_block_accounting [OF small_env_wf busy_engine_run] unfolding Let_def by blast

text \<open>C3. 
  The engine finishes its work. Left alone, the loop of steps ends from any reachable state, within one step more
  than there are tokens still to produce: every step that finds something live delivers or fails at least one
  sequence, however often it preempts others. It ends with no request, every channel closed and every block free.
\<close>

theorem engine_drains:
  assumes "env_wf env" and "engine_run env e"
  shows "\<exists>e'. run_until_idle env (Suc (engine_todo e)) e = Some (Inr e') \<and> drained e'"
  using run_until_idle_ok [OF assms(1) engine_run_ok [OF assms], of "Suc (engine_todo e)"] by blast

theorem engine_drains_witness:
  "\<exists>e'. run_until_idle small_env (Suc (engine_todo busy_engine)) busy_engine = Some (Inr e') \<and> drained e'"
  by (rule engine_drains [OF small_env_wf busy_engine_run])

text \<open>C30. 
  Cancellation. The step that drains a cancellation of a live request, or of one submitted before it, retires the
  request at once: its channel is closed with \<open>kCancelled\<close>, it leaves the engine and its blocks return to the
  pool. Every other request keeps its entry and its channel.
\<close>

theorem cancel_takes_effect:
  assumes "env_wf env" and "engine_run env e"
  shows "\<exists>e'. RetireCancelled env (DrainCommands e) = Inr e' \<and>
    (\<forall>i. if cancels (DrainCommands e) i
       then closed_as e' i (default_finish_info\<lparr>fi_terminal := kCancelled\<rparr>) \<and> map_of (eg_requests e') i = None
       else map_of (eg_requests e') i = map_of (eg_requests (DrainCommands e)) i \<and> eg_channels e' i = eg_channels (DrainCommands e) i) \<and>
    (\<forall>i. i \<in> fst ` set (eg_requests e) \<and> CancelCmd i \<in> set (eg_commands e) \<longrightarrow> cancels (DrainCommands e) i) \<and>
    free_blocks (eg_pool e') + int (length (concat (map (\<lambda>x. seq_blocks (en_seq (snd x))) (eg_requests e')))) = pool_num_blocks (eg_pool e')"
proof -
  have wf: "engine_wf env (\<lambda>_. Ready False) {} e" "all_live {} e" using engine_run_ok [OF assms] by (simp_all add: engine_idle_wf_def)
  note d = DrainCommands_ok [OF wf]
  obtain e' where e': "RetireCancelled env (DrainCommands e) = Inr e'" "engine_wf env (\<lambda>_. Ready False) {} e'"
    "request_map e' = request_map (DrainCommands e) |` {i. \<not> cancels (DrainCommands e) i}"
    "\<forall>i. if cancels (DrainCommands e) i then closed_as e' i (default_finish_info\<lparr>fi_terminal := kCancelled\<rparr>)
      else eg_channels e' i = eg_channels (DrainCommands e) i"
    by (rule RetireCancelled_ok [OF assms(1) d(1,2)])
  have at: "map_of (eg_requests e') i = (if cancels (DrainCommands e) i then None else map_of (eg_requests (DrainCommands e)) i)" for i
    using fun_cong [OF e'(3), of i] by (simp add: request_map_def restrict_map_def)
  have "cancels (DrainCommands e) i" if "i \<in> fst ` set (eg_requests e)" "CancelCmd i \<in> set (eg_commands e)" for i
    unfolding DrainCommands_def by (rule cancels_drained) (use that request_keys [of e] in \<open>auto simp: request_map_def\<close>)
  moreover have "free_blocks (eg_pool e') + int (length (concat (map (\<lambda>x. seq_blocks (en_seq (snd x))) (eg_requests e')))) = pool_num_blocks (eg_pool e')"
  proof -
    let ?held = "concat (map (\<lambda>x. seq_blocks (en_seq (snd x))) (eg_requests e'))"
    have "mset ?held = live_blocks (request_map e')" using live_blocks_list [OF wfD(2) [OF e'(2)]] by (simp only: request_map_def)
    then have "size (live_blocks (request_map e')) = length ?held" by (metis size_mset)
    then show ?thesis using pool_holds_free(1) [OF wfD(1) [OF e'(2)]] by simp
  qed
  ultimately show ?thesis using e'(1,4) at by (intro exI [of _ e']) auto
qed

theorem cancel_takes_effect_witness:
  "\<exists>e'. RetireCancelled small_env (DrainCommands (Cancel busy_engine 1)) = Inr e' \<and>
     free_blocks (eg_pool e') + int (length (concat (map (\<lambda>x. seq_blocks (en_seq (snd x))) (eg_requests e')))) = pool_num_blocks (eg_pool e')"
  using cancel_takes_effect [OF small_env_wf engine_run.cancelled [OF busy_engine_run, of 1]] by blast

text \<open>C31. 
  Admission control. Over the requests whose peak length does not overflow, \<open>Submit\<close> accepts exactly those with a
  prompt, valid parameters and a peak that fits the step budget, the length limit and the whole pool, and a tokenizer
  where stop strings ask for one, unless the engine was stopped; every refusal is a status. An accepted request gets
  a fresh id and an empty open channel, and joins the end of the command queue.
\<close>

theorem submit_admission:
  assumes "0 < max_tokens (rq_params request) \<longrightarrow>
    int (length (rq_prompt_ids request)) + max_tokens (rq_params request) \<le> 9223372036854775808"
    and "int (length (rq_prompt_ids request)) < 9223372036854775808"
  defines "peak \<equiv> int (length (rq_prompt_ids request)) + max_tokens (rq_params request) - 1"
  shows "(case Submit e entropy request of
      Inr (e', i) \<Rightarrow> i = eg_next_id e \<and> eg_next_id e' = i + 1 \<and> eg_channels e' = (eg_channels e)(i \<mapsto> OutputChannel_ctor) \<and>
        (\<exists>en. eg_commands e' = eg_commands e @ [SubmitCmd en] \<and> entry_id en = i \<and> sq_state (en_seq en) = kWaiting) \<and>
        eg_requests e' = eg_requests e \<and> eg_pool e' = eg_pool e
    | Inl err \<Rightarrow> (\<exists>code. err = Status code)) \<and>
    ((\<exists>r. Submit e entropy request = Inr r) \<longleftrightarrow>
      rq_prompt_ids request \<noteq> [] \<and> ValidateSamplingParams (rq_params request) = Inr () \<and> \<not> eg_stop_requested e \<and>
      (stop_strings (rq_params request) = [] \<or> rq_tokenizer request \<noteq> None) \<and>
      peak \<le> ec_max_num_batched_tokens (eg_config e) \<and> (0 < eg_max_model_len e \<longrightarrow> peak \<le> eg_max_model_len e) \<and>
      peak \<le> pool_num_blocks (eg_pool e) * pool_block_size (eg_pool e))" (is "?shape \<and> ?iff")
proof -
  have pk: "peak_length request = (if 0 < max_tokens (rq_params request) then peak else int (length (rq_prompt_ids request)))"
    using assms(1,2) int64_wrap_id [of peak] int64_wrap_id [of "int (length (rq_prompt_ids request))"]
    by (auto simp: peak_length_def peak_def algebra_simps)
  have v: "\<exists>code. err = Status code" if "ValidateSamplingParams ps = Inl err" for ps err
    using that by (auto simp: ValidateSamplingParams_def split: if_splits)
  have cerr: "\<exists>code. err = Status code" if "Sequence_Create entropy request = Inl err" for err
    using that v by (auto simp: Sequence_Create_def Sampler_Create_def StopChecker_Create_def bind_ok_def split: sum.splits if_splits)
  have cok: "(\<exists>s c. Sequence_Create entropy request = Inr (s, c)) \<longleftrightarrow> ValidateSamplingParams (rq_params request) = Inr () \<and>
      (stop_strings (rq_params request) = [] \<or> rq_tokenizer request \<noteq> None)"
    by (auto simp: Sequence_Create_def Sampler_Create_def StopChecker_Create_def bind_ok_def split: sum.splits)
  have cw: "sq_state s = kWaiting \<and> c = OutputChannel_ctor" if "Sequence_Create entropy request = Inr (s, c)" for s c
    using that by (auto simp: Sequence_Create_def elim!: bind_okE)
  have ?shape
    using cerr cw by (auto simp: Submit_def Let_def bind_ok_def entry_id_def split: sum.split prod.split)
  moreover have ?iff
  proof (cases "ValidateSamplingParams (rq_params request) = Inr ()")
    case True
    then have "peak_length request = peak" using valid_params(1) [OF True] by (simp add: pk)
    then show ?thesis using True cok by (cases "Sequence_Create entropy request") (auto simp: Submit_def Let_def bind_ok_def split: prod.split)
  next
    case False
    then have "\<nexists>s c. Sequence_Create entropy request = Inr (s, c)" using cok by blast
    then show ?thesis using False by (cases "Sequence_Create entropy request") (auto simp: Submit_def Let_def bind_ok_def)
  qed
  ultimately show ?thesis ..
qed

theorem submit_admission_witness:
  "\<exists>e'. Submit small_engine 7 sample_request = Inr (e', 1) \<and> eg_channels e' 1 = Some OutputChannel_ctor"
proof -
  obtain e' where e': "Submit small_engine 7 sample_request = Inr (e', 1)" using small_Submit by blast
  have "int (length (rq_prompt_ids sample_request)) < 9223372036854775808"
    "0 < max_tokens (rq_params sample_request) \<longrightarrow>
      int (length (rq_prompt_ids sample_request)) + max_tokens (rq_params sample_request) \<le> 9223372036854775808"
    by (simp_all add: sample_request_def Greedy_def)
  from submit_admission [OF this(2,1), of small_engine 7] e' show ?thesis by simp
qed

definition huge_request :: Request where
  "huge_request = sample_request\<lparr>rq_prompt_ids := [0, 0], rq_params := Greedy 9223372036854775807\<rparr>"

text \<open>C32. 
  Admission control can be passed by an absurd request. The peak is a 64-bit sum of two numbers the client controls:
  with a prompt of two tokens and the largest \<open>max_tokens\<close> it wraps to a negative number, so every comparison lets
  the request in, whatever the budget and the pool.
\<close>

theorem submit_peak_overflow:
  assumes "\<not> eg_stop_requested e" and "0 \<le> ec_max_num_batched_tokens (eg_config e)" and "0 \<le> pool_num_blocks (eg_pool e) * pool_block_size (eg_pool e)"
  shows "(\<exists>e'. Submit e entropy huge_request = Inr (e', eg_next_id e)) \<and> peak_length huge_request = - 9223372036854775808 \<and>
    9223372036854775808 \<le> int (length (rq_prompt_ids huge_request)) + max_tokens (rq_params huge_request) - 1"
proof -
  have pk: "peak_length huge_request = - 9223372036854775808"
    by (simp add: huge_request_def peak_length_def int64_wrap_def Greedy_def)
  have rq: "rq_prompt_ids huge_request = [0, 0]" "rq_params huge_request = Greedy 9223372036854775807"
    by (simp_all add: huge_request_def)
  have sc: "\<exists>s c. Sequence_Create entropy huge_request = Inr (s, c)"
    by (simp add: Sequence_Create_def Sampler_Create_def Greedy_valid StopChecker_Create_def rq) (simp add: Greedy_def default_params_def)
  then obtain s c where "Sequence_Create entropy huge_request = Inr (s, c)" by blast
  then have "\<exists>e'. Submit e entropy huge_request = Inr (e', eg_next_id e)"
    using assms by (simp add: Submit_def pk Let_def rq(1))
  then show ?thesis using pk by (simp add: rq Greedy_def)
qed

theorem submit_peak_overflow_witness:
  "\<exists>e'. Submit small_engine 7 huge_request = Inr (e', 1) \<and> ec_max_num_batched_tokens (eg_config small_engine) = 16"
  using submit_peak_overflow [of small_engine 7]
  by (simp add: small_engine_def small_config_def small_pool_def BlockPool_ctor_def)

text \<open>
  The victim of the recovery. When a member of a failed decode pass needs a block, the engine preempts, among the
  other running sequences, the one that arrived last; it answers 0, which is no sequence, exactly when there is none.
  The victim may have arrived before the member it makes room for.
\<close>

theorem victim_is_latest_other:
  assumes "\<forall>j\<in>set (eg_running e). j \<noteq> 0 \<and> j \<in> fst ` set (eg_requests e)"
  shows "\<exists>w. PickPreemptionVictim e x = Inr w \<and>
    (if w = 0 then \<forall>j\<in>set (eg_running e). \<not> eligible e x j
     else w \<in> set (eg_running e) \<and> eligible e x w \<and> (\<forall>j\<in>set (eg_running e). eligible e x j \<longrightarrow> arrival_of e j \<le> arrival_of e w))"
proof -
  have m: "\<forall>j\<in>set (eg_running e). j \<noteq> 0 \<and> j \<in> dom (request_map e)" using assms request_keys [of e] by auto
  obtain w where w: "pick_loop e x (eg_running e) 0 0 = Inr w" "w = 0 \<longrightarrow> (\<forall>j\<in>set (eg_running e). \<not> eligible e x j)"
    "w \<noteq> 0 \<longrightarrow> eligible e x w \<and> (w = 0 \<or> w \<in> set (eg_running e)) \<and>
      (\<forall>j\<in>set (eg_running e). eligible e x j \<longrightarrow> arrival_of e j \<le> arrival_of e w)"
    using pick_loop_latest [OF m, of 0 x 0] by blast
  show ?thesis
  proof (cases "w = 0")
    case True
    then show ?thesis using w(1,2) by (simp add: PickPreemptionVictim_def)
  next
    case False
    then have "w \<in> set (eg_running e) \<and> eligible e x w \<and> (\<forall>j\<in>set (eg_running e). eligible e x j \<longrightarrow> arrival_of e j \<le> arrival_of e w)"
      using w(3) by blast
    then show ?thesis using w(1) False by (simp add: PickPreemptionVictim_def)
  qed
qed

definition running_entry :: "int \<Rightarrow> Entry" where
  "running_entry i = \<lparr>en_seq = \<lparr>sq_state = kRunning, sq_request = sample_request\<lparr>rq_id := i, rq_arrival_index := i\<rparr>, sq_generated_ids = [0],
     sq_cache = Some PagedKvCache_ctor, sq_sampler = \<lparr>smp_params = Greedy 4, smp_seed = 0\<rparr>,
     sq_stop = \<lparr>sc_eos_ids = [], sc_stop_token_ids = [], sc_max_tokens = 4, sc_detok = None, sc_matcher = StopStringMatcher_ctor [], sc_trigger = StopTrigger.kNone\<rparr>,
     sq_num_computed_tokens = 0, sq_finish_reason = FinishReason_kLength, sq_stop_trigger = StopTrigger.kNone, sq_matched_stop = [], sq_error = None\<rparr>,
     en_cancel_requested = False\<rparr>"

definition three_running :: "(int, unit) Engine" where
  "three_running = small_engine\<lparr>eg_requests := [(1, running_entry 1), (2, running_entry 2), (3, running_entry 3)], eg_running := [1, 2, 3]\<rparr>"

theorem victim_is_latest_other_witness:
  "PickPreemptionVictim three_running 3 = Inr 2 \<and> arrival_of three_running 2 < arrival_of three_running 3"
proof -
  have run: "eg_running three_running = [1, 2, 3]" "eg_requests three_running = [(1, running_entry 1), (2, running_entry 2), (3, running_entry 3)]"
    by (simp_all add: three_running_def)
  have ar: "arrival_of three_running 1 = 1" "arrival_of three_running 2 = 2" "arrival_of three_running 3 = 3"
    by (simp_all add: arrival_of_def request_map_def run running_entry_def)
  have el: "eligible three_running 3 1" "eligible three_running 3 2" "\<not> eligible three_running 3 3"
    by (simp_all add: eligible_def request_map_def run running_entry_def)
  have "\<forall>j\<in>set (eg_running three_running). j \<noteq> 0 \<and> j \<in> fst ` set (eg_requests three_running)" by (simp add: run)
  from victim_is_latest_other [OF this, of 3]
  obtain w where w: "PickPreemptionVictim three_running 3 = Inr w"
    "if w = 0 then \<forall>j\<in>set (eg_running three_running). \<not> eligible three_running 3 j
     else w \<in> set (eg_running three_running) \<and> eligible three_running 3 w \<and>
       (\<forall>j\<in>set (eg_running three_running). eligible three_running 3 j \<longrightarrow> arrival_of three_running j \<le> arrival_of three_running w)" by blast
  have nz: "w \<noteq> 0" using w(2) el(1) by (auto simp: run)
  then have "w = 1 \<or> w = 2 \<or> w = 3" "eligible three_running 3 w" "arrival_of three_running 2 \<le> arrival_of three_running w"
    using w(2) el(2) by (simp_all add: run)
  then have "w = 2" using el(3) ar by auto
  then show ?thesis using w(1) ar by simp
qed

end
