(* ===== verification/Memory_Allocator.thy ===== *)
theory Memory_Allocator
  imports Device "HOL-Library.AList"
begin

unbundle bit_operations_syntax

text \<open>
  The memory primitives, \<open>src/src/memory/allocator.{h,cpp}\<close>: the owning \<open>Buffer\<close> with its move semantics, the
  \<open>Allocator\<close> interface and the CPU allocator. An address is an integer, the null pointer is 0, and sizes are
  the values of \<open>size_t\<close>, between 0 and \<open>SIZE_MAX\<close>. The deleter of a buffer is a value that names the closure
  the code stores; \<open>al_delete\<close> runs it. The system allocator (\<open>std::aligned_alloc\<close>, \<open>std::free\<close>) is a parameter.

  The locale \<open>allocator\<close> is the contract of the interface, stated over the map \<open>owns\<close> from the addresses an
  allocator has handed out to their capacities; \<open>system_allocator\<close> is the contract of the C library, and the
  sublocale at the end shows that the CPU allocator keeps the first when the library keeps the second.
\<close>

section \<open>Buffers\<close>

definition SIZE_MAX :: int where
  "SIZE_MAX = 18446744073709551615"

definition IsPowerOfTwo :: "int \<Rightarrow> bool" where
  "IsPowerOfTwo x \<longleftrightarrow> x \<noteq> 0 \<and> x AND (x - 1) = 0"

record 'd Buffer =
  buf_data :: int
  buf_size :: int
  buf_device :: Device
  buf_deleter :: "'d option"

definition Buffer_default :: "'d Buffer" where
  "Buffer_default = \<lparr>buf_data = 0, buf_size = 0, buf_device = Cpu, buf_deleter = None\<rparr>"

definition Buffer_ctor :: "int \<Rightarrow> int \<Rightarrow> Device \<Rightarrow> 'd option \<Rightarrow> 'd Buffer status_or" where
  "Buffer_ctor data size_bytes device deleter =
     (if deleter = None then Inl CheckFailed
      else if (data = 0) \<noteq> (size_bytes = 0) then Inl CheckFailed
      else Inr \<lparr>buf_data = data, buf_size = size_bytes, buf_device = device, buf_deleter = deleter\<rparr>)"

text \<open>The move constructor: the new buffer, and what is left of the other.\<close>

definition Buffer_move :: "'d Buffer \<Rightarrow> 'd Buffer \<times> 'd Buffer" where
  "Buffer_move other = (other, Buffer_default)"

section \<open>The interface\<close>

record ('u, 'd) Allocator =
  al_allocate :: "'u \<Rightarrow> int \<Rightarrow> int \<Rightarrow> 'd Buffer status_or \<times> 'u"
  al_delete :: "'d \<Rightarrow> int \<Rightarrow> 'u \<Rightarrow> 'u"
  al_device :: Device

definition Buffer_destroy :: "('u, 'd) Allocator \<Rightarrow> 'd Buffer \<Rightarrow> 'u \<Rightarrow> 'u" where
  "Buffer_destroy al b u = (case buf_deleter b of None \<Rightarrow> u | Some d \<Rightarrow> al_delete al d (buf_data b) u)"

text \<open>Move assignment to another buffer: what the target held is destroyed first.\<close>

definition Buffer_assign :: "('u, 'd) Allocator \<Rightarrow> 'd Buffer \<Rightarrow> 'd Buffer \<Rightarrow> 'u \<Rightarrow> 'd Buffer \<times> 'd Buffer \<times> 'u" where
  "Buffer_assign al this other u = (other, Buffer_default, Buffer_destroy al this u)"

section \<open>The CPU allocator\<close>

record 'h System =
  sys_aligned_alloc :: "'h \<Rightarrow> int \<Rightarrow> int \<Rightarrow> int \<times> 'h"
  sys_free :: "int \<Rightarrow> 'h \<Rightarrow> 'h"

datatype CpuDeleter = StdFree

definition alignof_max_align_t :: int where
  "alignof_max_align_t = 16"

definition CpuAllocator_ctor :: "int \<Rightarrow> int status_or" where
  "CpuAllocator_ctor default_alignment =
     (if \<not> IsPowerOfTwo default_alignment then Inl CheckFailed else Inr default_alignment)"

definition CpuAllocator_Allocate :: "'h System \<Rightarrow> 'h \<Rightarrow> int \<Rightarrow> int \<Rightarrow> CpuDeleter Buffer status_or \<times> 'h" where
  "CpuAllocator_Allocate sys h bytes alignment =
     (if \<not> IsPowerOfTwo alignment then (Inl CheckFailed, h)
      else if bytes = 0 then (Buffer_ctor 0 0 Cpu (Some StdFree), h)
      else
        let effective_alignment = max alignment alignof_max_align_t in
        if SIZE_MAX - (effective_alignment - 1) < bytes then (Inl (Status kOutOfMemory), h)
        else
          let rounded_bytes = (bytes + effective_alignment - 1) AND NOT (effective_alignment - 1) in
          (case sys_aligned_alloc sys h effective_alignment rounded_bytes of
             (data, h') \<Rightarrow>
               if data = 0 then (Inl (Status kOutOfMemory), h')
               else (Buffer_ctor data bytes Cpu (Some StdFree), h')))"

definition Cpu_delete :: "'h System \<Rightarrow> CpuDeleter \<Rightarrow> int \<Rightarrow> 'h \<Rightarrow> 'h" where
  "Cpu_delete sys d ptr h = (case d of StdFree \<Rightarrow> sys_free sys ptr h)"

definition cpu_allocator :: "'h System \<Rightarrow> ('h, CpuDeleter) Allocator" where
  "cpu_allocator sys =
     \<lparr>al_allocate = CpuAllocator_Allocate sys, al_delete = Cpu_delete sys, al_device = Cpu\<rparr>"

section \<open>Powers of two\<close>

lemma and_minus_one_double:
  fixes x :: int
  shows "(2 * x) AND (2 * x - 1) = 2 * (x AND (x - 1))"
proof -
  have "2 * x - 1 = 1 + 2 * (x - 1)" by simp
  moreover have "(2 * x - 1) div 2 = x - 1" by simp
  ultimately show ?thesis by (simp add: and_int_rec [of "2 * x"])
qed

lemma and_minus_one_odd:
  fixes x :: int
  shows "(2 * x + 1) AND (2 * x + 1 - 1) = 2 * x"
  by (simp add: and_int_rec [of "2 * x + 1"])

lemma IsPowerOfTwo_exp: "IsPowerOfTwo (2 ^ n)"
proof (induction n)
  case 0
  show ?case by (simp add: IsPowerOfTwo_def)
next
  case (Suc n)
  then show ?case by (simp add: IsPowerOfTwo_def and_minus_one_double)
qed

lemma IsPowerOfTwoE:
  assumes "IsPowerOfTwo x" and "0 \<le> x"
  shows "\<exists>n. x = 2 ^ n"
  using assms
proof (induction "nat x" arbitrary: x rule: less_induct)
  case less
  show ?case
  proof (cases "even x")
    case True
    then obtain y where y: "x = 2 * y" by blast
    then have "IsPowerOfTwo y" "0 \<le> y" "y < x"
      using less.prems by (auto simp: IsPowerOfTwo_def and_minus_one_double)
    then obtain n where "y = 2 ^ n" using less.hyps [of y] by (auto simp: y)
    then have "x = 2 ^ Suc n" by (simp add: y)
    then show ?thesis ..
  next
    case False
    then obtain y where y: "x = 2 * y + 1" by (blast elim: oddE)
    then have "y = 0" using less.prems and_minus_one_odd [of y] by (simp add: IsPowerOfTwo_def)
    then have "x = 2 ^ 0" by (simp add: y)
    then show ?thesis ..
  qed
qed

lemma IsPowerOfTwo_pos: "IsPowerOfTwo x \<Longrightarrow> 0 \<le> x \<Longrightarrow> 1 \<le> x"
  by (auto simp: IsPowerOfTwo_def)

lemma IsPowerOfTwo_max:
  assumes "IsPowerOfTwo a" and "IsPowerOfTwo b"
  shows "IsPowerOfTwo (max a b)"
  using assms by (simp add: max_def)

lemma and_not_low_bits:
  fixes x :: int
  shows "x AND NOT (2 ^ k - 1) = x div 2 ^ k * 2 ^ k"
proof -
  have "x AND NOT (mask k) = push_bit k (drop_bit k x)"
    by (rule bit_eqI) (auto simp: bit_simps)
  then show ?thesis by (simp add: mask_eq_exp_minus_1 push_bit_eq_mult drop_bit_eq_div)
qed

text \<open>The rounding of the CPU allocator: up to the next multiple, by less than one alignment.\<close>

lemma round_up_bits:
  assumes "IsPowerOfTwo a" and "0 \<le> a"
  defines "r \<equiv> \<lambda>x. (x + a - 1) AND NOT (a - 1)"
  shows "x \<le> r x \<and> r x < x + a \<and> a dvd r x"
proof -
  obtain k where k: "a = 2 ^ k" using IsPowerOfTwoE assms by blast
  have r: "r x = (x + a - 1) div a * a" by (simp add: r_def k and_not_low_bits)
  have "(x + a - 1) div a * a = x + a - 1 - (x + a - 1) mod a" by (simp add: minus_mod_eq_div_mult)
  moreover have "0 \<le> (x + a - 1) mod a \<and> (x + a - 1) mod a < a" using k by simp
  ultimately show ?thesis by (auto simp: r)
qed

section \<open>The contracts\<close>

text \<open>\<open>separate\<close>: no two of the blocks handed out overlap. \<open>fresh_block\<close>: what a successful allocation adds.\<close>

definition separate :: "(int \<Rightarrow> int option) \<Rightarrow> bool" where
  "separate blocks \<longleftrightarrow>
     (\<forall>p q c d. blocks p = Some c \<longrightarrow> blocks q = Some d \<longrightarrow> p \<noteq> q \<longrightarrow> p + c \<le> q \<or> q + d \<le> p)"

definition fresh_block :: "(int \<Rightarrow> int option) \<Rightarrow> (int \<Rightarrow> int option) \<Rightarrow> int \<Rightarrow> int \<Rightarrow> int \<Rightarrow> bool" where
  "fresh_block blocks blocks' p n a \<longleftrightarrow>
     p \<noteq> 0 \<and> a dvd p \<and> blocks p = None \<and> (\<exists>cap. n \<le> cap \<and> blocks' = blocks(p \<mapsto> cap)) \<and> separate blocks'"

definition valid_request :: "int \<Rightarrow> int \<Rightarrow> bool" where
  "valid_request n a \<longleftrightarrow> 0 < n \<and> n \<le> SIZE_MAX \<and> 0 \<le> a \<and> IsPowerOfTwo a"

definition aligned_alloc_contract :: "'h System \<Rightarrow> ('h \<Rightarrow> int \<Rightarrow> int option) \<Rightarrow> bool" where
  "aligned_alloc_contract sys owns \<longleftrightarrow>
     (\<forall>h n a. separate (owns h) \<longrightarrow> valid_request n a \<longrightarrow> a dvd n \<longrightarrow>
        (case sys_aligned_alloc sys h a n of
           (p, h') \<Rightarrow> if p = 0 then owns h' = owns h else fresh_block (owns h) (owns h') p n a)) \<and>
     (\<forall>h p. owns h p \<noteq> None \<longrightarrow> owns (sys_free sys p h) = (owns h)(p := None))"

definition allocator_contract :: "('u, 'd) Allocator \<Rightarrow> ('u \<Rightarrow> int \<Rightarrow> int option) \<Rightarrow> bool" where
  "allocator_contract al owns \<longleftrightarrow>
     (\<forall>u n a. separate (owns u) \<longrightarrow> valid_request n a \<longrightarrow>
        (case al_allocate al u n a of
           (Inr b, u') \<Rightarrow> buf_size b = n \<and> buf_deleter b \<noteq> None \<and> buf_device b = al_device al
             \<and> fresh_block (owns u) (owns u') (buf_data b) n a
         | (Inl e, u') \<Rightarrow> (\<exists>code. e = Status code) \<and> owns u' = owns u)) \<and>
     (\<forall>u d p. owns u p \<noteq> None \<longrightarrow> owns (al_delete al d p u) = (owns u)(p := None))"

lemma separate_delete: "separate m \<Longrightarrow> separate (m(p := None))"
  by (simp add: separate_def)

lemma fresh_block_mono:
  assumes "fresh_block m m' p n a" and "n' \<le> n" and "a' dvd a"
  shows "fresh_block m m' p n' a'"
proof -
  obtain cap where "n \<le> cap" "m' = m(p \<mapsto> cap)" using assms(1) unfolding fresh_block_def by blast
  then have "\<exists>cap. n' \<le> cap \<and> m' = m(p \<mapsto> cap)" using assms(2) by (intro exI [of _ cap]) simp
  moreover have "a' dvd p" using assms(1,3) unfolding fresh_block_def by (blast intro: dvd_trans)
  ultimately show ?thesis using assms(1) by (simp add: fresh_block_def)
qed

locale allocator =
  fixes al :: "('u, 'd) Allocator"
    and owns :: "'u \<Rightarrow> int \<Rightarrow> int option"
  assumes contract: "allocator_contract al owns"
begin

lemma allocate_ok:
  assumes "separate (owns u)" and "valid_request n a" and "al_allocate al u n a = (Inr b, u')"
  shows "buf_size b = n" "buf_deleter b \<noteq> None" "fresh_block (owns u) (owns u') (buf_data b) n a"
  using contract assms unfolding allocator_contract_def by (fastforce split: prod.splits sum.splits)+

lemma allocate_err:
  assumes "separate (owns u)" and "valid_request n a" and "al_allocate al u n a = (Inl e, u')"
  shows "\<exists>code. e = Status code" "owns u' = owns u"
  using contract assms unfolding allocator_contract_def by (fastforce split: prod.splits sum.splits)+

lemma destroy_owned:
  assumes "owns u (buf_data b) \<noteq> None" and "buf_deleter b \<noteq> None"
  shows "owns (Buffer_destroy al b u) = (owns u)(buf_data b := None)"
  using contract assms by (auto simp: allocator_contract_def Buffer_destroy_def)

end

locale system_allocator =
  fixes sys :: "'h System"
    and owns :: "'h \<Rightarrow> int \<Rightarrow> int option"
  assumes sys_contract: "aligned_alloc_contract sys owns"
begin

lemma cpu_allocate:
  assumes "separate (owns h)" and "valid_request n a"
  shows "case CpuAllocator_Allocate sys h n a of
      (Inr b, h') \<Rightarrow> buf_size b = n \<and> buf_deleter b \<noteq> None \<and> buf_device b = Cpu
        \<and> fresh_block (owns h) (owns h') (buf_data b) n a
    | (Inl e, h') \<Rightarrow> e = Status kOutOfMemory \<and> owns h' = owns h"
proof -
  let ?e = "max a alignof_max_align_t"
  let ?r = "(n + ?e - 1) AND NOT (?e - 1)"
  have a: "0 < n" "n \<le> SIZE_MAX" "0 \<le> a" "IsPowerOfTwo a" using assms(2) by (auto simp: valid_request_def)
  have e: "IsPowerOfTwo ?e" "0 \<le> ?e"
    using a IsPowerOfTwo_exp [of 4] by (auto intro!: IsPowerOfTwo_max simp: alignof_max_align_t_def)
  have "a dvd ?e"
  proof -
    obtain k where k: "a = 2 ^ k" using IsPowerOfTwoE a by blast
    show ?thesis
    proof (cases "a \<le> 16")
      case True
      then have "(2::int) ^ k \<le> 2 ^ 4" by (simp add: k)
      then have "k \<le> 4" by (meson power_le_imp_le_exp one_less_numeral_iff semiring_norm(76))
      then have "(2::int) ^ k dvd 2 ^ 4" by (rule le_imp_power_dvd)
      then show ?thesis using True by (simp add: k alignof_max_align_t_def max_def)
    next
      case False
      then show ?thesis by (simp add: alignof_max_align_t_def max_def)
    qed
  qed
  have r: "n \<le> ?r" "?r < n + ?e" "?e dvd ?r" using round_up_bits [OF e, of n] by auto
  show ?thesis
  proof (cases "SIZE_MAX - (?e - 1) < n")
    case True
    then show ?thesis using a by (simp add: CpuAllocator_Allocate_def Let_def)
  next
    case False
    obtain p h' where alloc: "sys_aligned_alloc sys h ?e ?r = (p, h')" by force
    have "valid_request ?r ?e" using False a e r by (simp add: valid_request_def)
    then have "if p = 0 then owns h' = owns h else fresh_block (owns h) (owns h') p ?r ?e"
      using sys_contract assms(1) r(3) alloc unfolding aligned_alloc_contract_def by fastforce
    then show ?thesis
      using False a alloc fresh_block_mono [OF _ r(1) \<open>a dvd ?e\<close>]
      by (auto simp: CpuAllocator_Allocate_def Let_def Buffer_ctor_def)
  qed
qed

lemma cpu_contract: "allocator_contract (cpu_allocator sys) owns"
proof -
  have alloc: "case al_allocate (cpu_allocator sys) u n a of
      (Inr b, u') \<Rightarrow> buf_size b = n \<and> buf_deleter b \<noteq> None \<and> buf_device b = al_device (cpu_allocator sys)
        \<and> fresh_block (owns u) (owns u') (buf_data b) n a
    | (Inl e, u') \<Rightarrow> (\<exists>code. e = Status code) \<and> owns u' = owns u"
    if "separate (owns u)" "valid_request n a" for u n a
    using cpu_allocate [OF that] by (auto simp: cpu_allocator_def split: prod.splits sum.splits)
  have del: "owns (al_delete (cpu_allocator sys) d p u) = (owns u)(p := None)" if "owns u p \<noteq> None" for u d p
    using sys_contract that by (cases d) (simp add: aligned_alloc_contract_def cpu_allocator_def Cpu_delete_def)
  show ?thesis unfolding allocator_contract_def using alloc del by blast
qed

end

sublocale system_allocator \<subseteq> cpu: allocator "cpu_allocator sys" owns
  by unfold_locales (rule cpu_contract)

section \<open>A concrete system allocator\<close>

text \<open>An arena of bounded size that places a block above all others; it satisfies the contract.\<close>

record Arena =
  arena_limit :: int
  arena_blocks :: "(int \<times> int) list"

fun arena_top :: "(int \<times> int) list \<Rightarrow> int" where
  "arena_top [] = 1"
| "arena_top ((p, c) # bs) = max (max (p + c) (p + 1)) (arena_top bs)"

definition arena_alloc :: "Arena \<Rightarrow> int \<Rightarrow> int \<Rightarrow> int \<times> Arena" where
  "arena_alloc h a n =
     (let p = (arena_top (arena_blocks h) + a - 1) div a * a in
      if arena_limit h < p + n then (0, h) else (p, h\<lparr>arena_blocks := (p, n) # arena_blocks h\<rparr>))"

definition arena_system :: "Arena System" where
  "arena_system = \<lparr>sys_aligned_alloc = arena_alloc,
     sys_free = (\<lambda>p h. h\<lparr>arena_blocks := AList.delete p (arena_blocks h)\<rparr>)\<rparr>"

definition arena_owns :: "Arena \<Rightarrow> int \<Rightarrow> int option" where
  "arena_owns h = map_of (arena_blocks h)"

lemma arena_top_above: "(p, c) \<in> set bs \<Longrightarrow> p + c \<le> arena_top bs \<and> p < arena_top bs"
  by (induction bs rule: arena_top.induct) (auto simp: max_def)

lemma arena_top_pos: "1 \<le> arena_top bs"
  by (induction bs rule: arena_top.induct) auto

lemma round_up_div: "0 < a \<Longrightarrow> (x::int) \<le> (x + a - 1) div a * a"
  using pos_mod_bound [of a "x + a - 1"] minus_mod_eq_div_mult [of "x + a - 1" a] by linarith

lemma separate_insert:
  assumes "separate m" and "\<And>q d. m q = Some d \<Longrightarrow> q + d \<le> p"
  shows "separate (m(p \<mapsto> c))"
  using assms unfolding separate_def by (metis fun_upd_apply option.inject)

lemma arena_alloc_fresh:
  assumes "separate (arena_owns h)" and "0 < a" and "arena_alloc h a n = (p, h')" and "p \<noteq> 0"
  shows "fresh_block (arena_owns h) (arena_owns h') p n a"
proof -
  have p: "p = (arena_top (arena_blocks h) + a - 1) div a * a"
    and h': "h' = h\<lparr>arena_blocks := (p, n) # arena_blocks h\<rparr>"
    using assms(3,4) by (auto simp: arena_alloc_def Let_def split: if_splits)
  have top: "arena_top (arena_blocks h) \<le> p" using round_up_div [OF assms(2)] by (simp add: p)
  have above: "q + d \<le> p \<and> q < p" if "arena_owns h q = Some d" for q d
    using arena_top_above [OF map_of_SomeD] that top by (fastforce simp: arena_owns_def)
  have "arena_owns h p = None" using above [of p] by (cases "arena_owns h p") auto
  moreover have "separate ((arena_owns h)(p \<mapsto> n))" using separate_insert assms(1) above by blast
  moreover have "arena_owns h' = (arena_owns h)(p \<mapsto> n)" by (simp add: h' arena_owns_def)
  moreover have "a dvd p" by (simp add: p)
  ultimately show ?thesis using assms(4) unfolding fresh_block_def by (metis order_refl)
qed

lemma arena_contract: "aligned_alloc_contract arena_system arena_owns"
proof -
  have alloc: "case sys_aligned_alloc arena_system h a n of
      (p, h') \<Rightarrow> if p = 0 then arena_owns h' = arena_owns h else fresh_block (arena_owns h) (arena_owns h') p n a"
    if "separate (arena_owns h)" "valid_request n a" for h n a
  proof -
    have a: "0 < a" using that(2) IsPowerOfTwo_pos [of a] by (auto simp: valid_request_def)
    have "h' = h" if "arena_alloc h a n = (0, h')" for h'
    proof -
      have "1 \<le> (arena_top (arena_blocks h) + a - 1) div a * a"
        using round_up_div [OF a] arena_top_pos order_trans by blast
      then show ?thesis using that by (auto simp: arena_alloc_def Let_def split: if_splits)
    qed
    then show ?thesis using arena_alloc_fresh [OF that(1) a] by (auto simp: arena_system_def split: prod.splits)
  qed
  have "arena_owns (sys_free arena_system p h) = (arena_owns h)(p := None)" for h p
    by (simp add: arena_system_def arena_owns_def delete_conv')
  with alloc show ?thesis by (simp add: aligned_alloc_contract_def)
qed

interpretation arena: system_allocator arena_system arena_owns
  by unfold_locales (rule arena_contract)

section \<open>Theorems\<close>

text \<open>C38. \<open>CpuAllocator::Allocate\<close> aborts exactly on an alignment that is no power of two. Otherwise it returns a
  buffer of the requested size on fresh, aligned memory at least as long, separate from every block in use,
  or an out-of-memory status that takes nothing; a zero-size request takes nothing either. Destroying the
  buffer gives back exactly what was taken.\<close>

theorem cpu_allocate_functional:
  assumes "aligned_alloc_contract sys owns" and "separate (owns h)"
    and "0 \<le> bytes" and "bytes \<le> SIZE_MAX" and "0 \<le> alignment"
  shows "case CpuAllocator_Allocate sys h bytes alignment of
      (Inr b, h') \<Rightarrow> IsPowerOfTwo alignment \<and> buf_size b = bytes \<and> buf_device b = Cpu
        \<and> (if bytes = 0 then buf_data b = 0 \<and> h' = h
           else fresh_block (owns h) (owns h') (buf_data b) bytes alignment
             \<and> owns (Buffer_destroy (cpu_allocator sys) b h') = owns h)
    | (Inl e, h') \<Rightarrow> owns h' = owns h \<and> e = (if IsPowerOfTwo alignment then Status kOutOfMemory else CheckFailed)"
proof (cases "IsPowerOfTwo alignment \<and> bytes \<noteq> 0")
  case True
  then have "valid_request bytes alignment" using assms by (simp add: valid_request_def)
  note alloc = system_allocator.cpu_allocate [OF system_allocator.intro [OF assms(1)] assms(2) this]
  have "owns (Buffer_destroy (cpu_allocator sys) b h') = owns h"
    if "buf_deleter b \<noteq> None" "fresh_block (owns h) (owns h') (buf_data b) bytes alignment" for b h'
    using that assms(1)
    by (auto simp: fresh_block_def Buffer_destroy_def cpu_allocator_def Cpu_delete_def aligned_alloc_contract_def
        split: CpuDeleter.splits)
  then show ?thesis using alloc True by (auto split: prod.splits sum.splits)
next
  case False
  then show ?thesis by (auto simp: CpuAllocator_Allocate_def Buffer_ctor_def)
qed

definition fresh_arena :: Arena where
  "fresh_arena = \<lparr>arena_limit = 4096, arena_blocks = []\<rparr>"

lemma separate_fresh_arena: "separate (arena_owns fresh_arena)"
  by (simp add: separate_def arena_owns_def fresh_arena_def)

theorem cpu_allocate_functional_witness:
  "\<exists>b h. CpuAllocator_Allocate arena_system fresh_arena 100 64 = (Inr b, h) \<and> buf_size b = 100
     \<and> fresh_block (arena_owns fresh_arena) (arena_owns h) (buf_data b) 100 64"
proof -
  obtain b h where run: "CpuAllocator_Allocate arena_system fresh_arena 100 64 = (Inr b, h)"
    and size: "buf_size b = 100"
  proof
    show "CpuAllocator_Allocate arena_system fresh_arena 100 64 =
        (Inr \<lparr>buf_data = 64, buf_size = 100, buf_device = Cpu, buf_deleter = Some StdFree\<rparr>,
         \<lparr>arena_limit = 4096, arena_blocks = [(64, 128)]\<rparr>)"
      by code_simp
  qed simp
  have "fresh_block (arena_owns fresh_arena) (arena_owns h) (buf_data b) 100 64"
    using cpu_allocate_functional [OF arena_contract separate_fresh_arena, of 100 64] run
    by (simp add: SIZE_MAX_def)
  with run size show ?thesis by blast
qed

text \<open>The CPU allocator keeps the contract of the \<open>Allocator\<close> interface on any C library that keeps its own.\<close>

theorem cpu_allocator_implements:
  assumes "aligned_alloc_contract sys owns"
  shows "allocator_contract (cpu_allocator sys) owns"
  by (rule system_allocator.cpu_contract [OF system_allocator.intro [OF assms]])

theorem cpu_allocator_implements_witness:
  "allocator_contract (cpu_allocator arena_system) arena_owns"
  by (rule cpu_allocator_implements [OF arena_contract])

end
