(* ===== verification/Caching_Allocator.thy ===== *)
theory Caching_Allocator
  imports Memory_Allocator "HOL-Library.Multiset"
begin

text \<open>
  The caching allocator, \<open>src/src/memory/caching_allocator.{h,cpp}\<close>: requests rounded up to size classes,
  a free list per class, a table of the blocks handed out, and the release-and-retry courtesy when the
  upstream allocator is exhausted. The upstream is any \<open>Allocator\<close> record \<open>al\<close>, and the traversal order of the
  hash map of free lists is a parameter \<open>order\<close>. The mutex makes every operation one step. The counters are
  sums of sizes of disjoint blocks, so they do not wrap around. The invariant is proved in the locale
  \<open>pooled\<close>, which extends the \<open>Allocator\<close> contract, and \<open>pool_run\<close> generates the reachable pools, with steps of
  other users of the same upstream in between.
\<close>

section \<open>Size classes\<close>

definition kMinClassBytes :: int where
  "kMinClassBytes = 512"

definition kLargeStepBytes :: int where
  "kLargeStepBytes = 1048576"

definition kMaxAlignment :: int where
  "kMaxAlignment = 256"

text \<open>\<open>std::bit_ceil\<close>: the smallest power of two that is not below the argument.\<close>

function bit_ceil_from :: "int \<Rightarrow> int \<Rightarrow> int" where
  "bit_ceil_from p x = (if x \<le> p \<or> p \<le> 0 then p else bit_ceil_from (2 * p) x)"
  by pat_completeness auto

termination
  by (relation "measure (\<lambda>(p, x). nat (x - p))") auto

declare bit_ceil_from.simps [simp del]

definition bit_ceil :: "int \<Rightarrow> int" where
  "bit_ceil x = bit_ceil_from 1 x"

definition SizeClass :: "int \<Rightarrow> int" where
  "SizeClass bytes =
     (if bytes \<le> kMinClassBytes then kMinClassBytes
      else if bytes \<le> kLargeStepBytes then bit_ceil bytes
      else if SIZE_MAX - (kLargeStepBytes - 1) < bytes then bytes
      else (bytes + kLargeStepBytes - 1) div kLargeStepBytes * kLargeStepBytes)"

definition IsExhausted :: "failure \<Rightarrow> bool" where
  "IsExhausted status \<longleftrightarrow> IsResourceExhausted status \<or> status = Status kOutOfMemory"

section \<open>State\<close>

record Stats =
  st_bytes_allocated :: int
  st_bytes_reserved :: int
  st_hit_count :: int
  st_miss_count :: int

record 'd LiveBlock =
  lb_storage :: "'d Buffer"
  lb_class_bytes :: int

record ('u, 'd) CachingAllocator =
  ca_upstream :: 'u
  ca_live :: "(int \<times> 'd LiveBlock) list"
  ca_free_lists :: "(int \<times> 'd Buffer list) list"
  ca_stats :: Stats

text \<open>The two closures the pool gives to its buffers.\<close>

datatype PoolDeleter = DoNothing | ReturnToPool

definition CachingAllocator_ctor :: "'u option \<Rightarrow> ('u, 'd) CachingAllocator status_or" where
  "CachingAllocator_ctor upstream =
     (case upstream of None \<Rightarrow> Inl CheckFailed
      | Some u \<Rightarrow> Inr \<lparr>ca_upstream = u, ca_live = [], ca_free_lists = [],
          ca_stats = \<lparr>st_bytes_allocated = 0, st_bytes_reserved = 0, st_hit_count = 0, st_miss_count = 0\<rparr>\<rparr>)"

section \<open>Operations\<close>

text \<open>The victims are the cached buffers in the order of the traversal.\<close>

definition ReleaseCachedLocked ::
  "((int \<times> 'd Buffer list) list \<Rightarrow> (int \<times> 'd Buffer list) list) \<Rightarrow> ('u, 'd) CachingAllocator
    \<Rightarrow> int \<times> 'd Buffer list \<times> ('u, 'd) CachingAllocator" where
  "ReleaseCachedLocked order a =
     (let lists = order (ca_free_lists a);
          released = sum_list (map (\<lambda>(class_bytes, blocks). class_bytes * int (length blocks)) lists) in
      (released, concat (map snd lists),
       a\<lparr>ca_free_lists := [], ca_stats := (ca_stats a)\<lparr>st_bytes_reserved := st_bytes_reserved (ca_stats a) - released\<rparr>\<rparr>))"

definition clear_victims :: "('u, 'd) Allocator \<Rightarrow> 'd Buffer list \<Rightarrow> ('u, 'd) CachingAllocator \<Rightarrow> ('u, 'd) CachingAllocator" where
  "clear_victims al victims a = a\<lparr>ca_upstream := fold (Buffer_destroy al) victims (ca_upstream a)\<rparr>"

definition release_cached ::
  "('u, 'd) Allocator \<Rightarrow> ((int \<times> 'd Buffer list) list \<Rightarrow> (int \<times> 'd Buffer list) list) \<Rightarrow> ('u, 'd) CachingAllocator
    \<Rightarrow> int \<times> ('u, 'd) CachingAllocator" where
  "release_cached al order a =
     (case ReleaseCachedLocked order a of (released, victims, a1) \<Rightarrow> (released, clear_victims al victims a1))"

definition upstream_allocate ::
  "('u, 'd) Allocator \<Rightarrow> int \<Rightarrow> ('u, 'd) CachingAllocator \<Rightarrow> 'd Buffer status_or \<times> ('u, 'd) CachingAllocator" where
  "upstream_allocate al class_bytes a =
     (case al_allocate al (ca_upstream a) class_bytes kMaxAlignment of (r, u) \<Rightarrow> (r, a\<lparr>ca_upstream := u\<rparr>))"

text \<open>A miss: the upstream is asked, and asked once more after an exhaustion that freed the cache.\<close>

definition allocate_miss ::
  "('u, 'd) Allocator \<Rightarrow> ((int \<times> 'd Buffer list) list \<Rightarrow> (int \<times> 'd Buffer list) list) \<Rightarrow> int \<Rightarrow> ('u, 'd) CachingAllocator
    \<Rightarrow> 'd Buffer status_or \<times> ('u, 'd) CachingAllocator" where
  "allocate_miss al order class_bytes a =
     (let a0 = a\<lparr>ca_stats := (ca_stats a)\<lparr>st_miss_count := st_miss_count (ca_stats a) + 1\<rparr>\<rparr>;
          first = upstream_allocate al class_bytes a0;
          allocated = (case first of
              (Inl status, a1) \<Rightarrow>
                if IsExhausted status then upstream_allocate al class_bytes (snd (release_cached al order a1)) else first
            | _ \<Rightarrow> first) in
      case allocated of
        (Inl status, a2) \<Rightarrow> (Inl status, a2)
      | (Inr storage, a2) \<Rightarrow>
          (Inr storage, a2\<lparr>ca_stats := (ca_stats a2)\<lparr>st_bytes_reserved := st_bytes_reserved (ca_stats a2) + class_bytes\<rparr>\<rparr>))"

text \<open>A hit: the last block of the class's free list, if there is one.\<close>

definition take_cached :: "int \<Rightarrow> ('u, 'd) CachingAllocator \<Rightarrow> ('d Buffer \<times> ('u, 'd) CachingAllocator) option" where
  "take_cached class_bytes a =
     (case map_of (ca_free_lists a) class_bytes of
        None \<Rightarrow> None
      | Some blocks \<Rightarrow>
          if blocks = [] then None
          else Some (last blocks, a\<lparr>ca_free_lists := AList.update class_bytes (butlast blocks) (ca_free_lists a),
                 ca_stats := (ca_stats a)\<lparr>st_hit_count := st_hit_count (ca_stats a) + 1\<rparr>\<rparr>))"

text \<open>The hand-out. \<open>emplace\<close> keeps an entry that is already there, and then the new storage is destroyed.\<close>

definition hand_out ::
  "('u, 'd) Allocator \<Rightarrow> int \<Rightarrow> int \<Rightarrow> 'd Buffer \<Rightarrow> ('u, 'd) CachingAllocator
    \<Rightarrow> PoolDeleter Buffer status_or \<times> ('u, 'd) CachingAllocator" where
  "hand_out al bytes class_bytes storage a =
     (let data = buf_data storage;
          a1 = a\<lparr>ca_stats := (ca_stats a)\<lparr>st_bytes_allocated := st_bytes_allocated (ca_stats a) + class_bytes\<rparr>\<rparr>;
          a2 = (case map_of (ca_live a1) data of
                  None \<Rightarrow> a1\<lparr>ca_live := ca_live a1 @ [(data, \<lparr>lb_storage = storage, lb_class_bytes = class_bytes\<rparr>)]\<rparr>
                | Some _ \<Rightarrow> a1\<lparr>ca_upstream := Buffer_destroy al storage (ca_upstream a1)\<rparr>) in
      (Buffer_ctor data bytes (al_device al) (Some ReturnToPool), a2))"

definition Caching_Allocate ::
  "('u, 'd) Allocator \<Rightarrow> ((int \<times> 'd Buffer list) list \<Rightarrow> (int \<times> 'd Buffer list) list) \<Rightarrow> int \<Rightarrow> int \<Rightarrow> ('u, 'd) CachingAllocator
    \<Rightarrow> PoolDeleter Buffer status_or \<times> ('u, 'd) CachingAllocator" where
  "Caching_Allocate al order bytes alignment a =
     (if \<not> IsPowerOfTwo alignment then (Inl CheckFailed, a)
      else if \<not> alignment \<le> kMaxAlignment then (Inl CheckFailed, a)
      else if bytes = 0 then (Buffer_ctor 0 0 (al_device al) (Some DoNothing), a)
      else
        let class_bytes = SizeClass bytes in
        case take_cached class_bytes a of
          Some (storage, a1) \<Rightarrow> hand_out al bytes class_bytes storage a1
        | None \<Rightarrow>
            (case allocate_miss al order class_bytes a of
               (Inl status, a1) \<Rightarrow> (Inl status, a1)
             | (Inr storage, a1) \<Rightarrow> hand_out al bytes class_bytes storage a1))"

text \<open>\<open>free_lists_[class_bytes]\<close> creates an empty list for a class that has none.\<close>

definition free_list :: "(int \<times> 'd Buffer list) list \<Rightarrow> int \<Rightarrow> 'd Buffer list" where
  "free_list fls class_bytes = (case map_of fls class_bytes of None \<Rightarrow> [] | Some blocks \<Rightarrow> blocks)"

definition Caching_Return :: "int \<Rightarrow> ('u, 'd) CachingAllocator \<Rightarrow> ('u, 'd) CachingAllocator status_or" where
  "Caching_Return ptr a =
     (case map_of (ca_live a) ptr of
        None \<Rightarrow> Inl CheckFailed
      | Some block \<Rightarrow>
          let class_bytes = lb_class_bytes block in
          Inr (a\<lparr>ca_stats := (ca_stats a)\<lparr>st_bytes_allocated := st_bytes_allocated (ca_stats a) - class_bytes\<rparr>,
                 ca_free_lists := AList.update class_bytes (free_list (ca_free_lists a) class_bytes @ [lb_storage block])
                   (ca_free_lists a),
                 ca_live := AList.delete ptr (ca_live a)\<rparr>))"

definition pool_delete :: "PoolDeleter \<Rightarrow> int \<Rightarrow> ('u, 'd) CachingAllocator \<Rightarrow> ('u, 'd) CachingAllocator status_or" where
  "pool_delete d ptr a = (case d of DoNothing \<Rightarrow> Inr a | ReturnToPool \<Rightarrow> Caching_Return ptr a)"

text \<open>The destructor: the members are destroyed, the free lists with what they hold.\<close>

definition CachingAllocator_destroy ::
  "('u, 'd) Allocator \<Rightarrow> ((int \<times> 'd Buffer list) list \<Rightarrow> (int \<times> 'd Buffer list) list) \<Rightarrow> ('u, 'd) CachingAllocator \<Rightarrow> 'u status_or" where
  "CachingAllocator_destroy al order a =
     (if ca_live a \<noteq> [] then Inl CheckFailed
      else Inr (fold (Buffer_destroy al) (concat (map snd (order (ca_free_lists a)))) (ca_upstream a)))"

section \<open>Size classes: facts\<close>

lemma bit_ceil_from_spec:
  assumes "0 < p" and "p < 2 * x"
  shows "x \<le> bit_ceil_from p x \<and> bit_ceil_from p x < 2 * x \<and> (\<exists>n. bit_ceil_from p x = p * 2 ^ n)"
  using assms
proof (induction p x rule: bit_ceil_from.induct)
  case (1 p x)
  show ?case
  proof (cases "x \<le> p")
    case True
    then have "bit_ceil_from p x = p * 2 ^ 0" by (simp add: bit_ceil_from.simps)
    then show ?thesis using True 1(3) by (metis mult_1_right power_0)
  next
    case False
    then have eq: "bit_ceil_from p x = bit_ceil_from (2 * p) x" using 1(2) by (subst bit_ceil_from.simps) simp
    obtain n where n: "x \<le> bit_ceil_from (2 * p) x" "bit_ceil_from (2 * p) x < 2 * x" "bit_ceil_from (2 * p) x = 2 * p * 2 ^ n"
      using 1 False by auto
    then show ?thesis unfolding eq by (intro conjI exI [of _ "Suc n"]) simp_all
  qed
qed

text \<open>A power of two that is not below \<open>x\<close> is not below \<open>bit_ceil x\<close>.\<close>

lemma bit_ceil_least:
  assumes "0 < x" and "x \<le> 2 ^ n"
  shows "bit_ceil x \<le> 2 ^ n"
proof -
  obtain m where m: "bit_ceil x = 2 ^ m" "bit_ceil x < 2 * x"
    using bit_ceil_from_spec [of 1 x] assms(1) by (auto simp: bit_ceil_def)
  then have "(2::int) ^ m < 2 ^ Suc n" using assms(2) by simp
  then have "m < Suc n" by (rule power_less_imp_less_exp [rotated]) simp
  then show ?thesis by (simp add: m)
qed

lemma SizeClass_spec:
  assumes "0 < bytes" and "bytes \<le> SIZE_MAX"
  shows "bytes \<le> SizeClass bytes \<and> kMinClassBytes \<le> SizeClass bytes \<and> SizeClass bytes \<le> SIZE_MAX
    \<and> SizeClass bytes < bytes + max kMinClassBytes (min bytes kLargeStepBytes)"
proof -
  consider "bytes \<le> 512" | "512 < bytes" "bytes \<le> 1048576"
    | "1048576 < bytes" "SIZE_MAX - 1048575 < bytes" | "1048576 < bytes" "bytes \<le> SIZE_MAX - 1048575"
    by linarith
  then show ?thesis
  proof cases
    case 2
    then have "bytes \<le> bit_ceil bytes \<and> bit_ceil bytes < 2 * bytes"
      using bit_ceil_from_spec [of 1 bytes] by (simp add: bit_ceil_def)
    moreover have "bit_ceil bytes \<le> 2 ^ 20" using 2 by (intro bit_ceil_least) simp_all
    ultimately show ?thesis
      using 2 by (simp add: SizeClass_def kMinClassBytes_def kLargeStepBytes_def SIZE_MAX_def max_def min_def)
  next
    case 4
    have "(bytes + 1048575) div 1048576 * 1048576 = bytes + 1048575 - (bytes + 1048575) mod 1048576"
      by (simp add: minus_mod_eq_div_mult)
    moreover have "0 \<le> (bytes + 1048575) mod 1048576" "(bytes + 1048575) mod 1048576 < 1048576" by simp_all
    ultimately have "bytes \<le> (bytes + 1048575) div 1048576 * 1048576"
      "(bytes + 1048575) div 1048576 * 1048576 \<le> bytes + 1048575" by linarith+
    moreover have "SizeClass bytes = (bytes + 1048575) div 1048576 * 1048576"
      using 4 by (simp add: SizeClass_def kMinClassBytes_def kLargeStepBytes_def SIZE_MAX_def)
    ultimately obtain r where "SizeClass bytes = r" "bytes \<le> r" "r \<le> bytes + 1048575" by simp
    then show ?thesis using 4 by (simp add: kMinClassBytes_def kLargeStepBytes_def SIZE_MAX_def max_def min_def)
  qed (use assms in \<open>simp_all add: SizeClass_def kMinClassBytes_def kLargeStepBytes_def SIZE_MAX_def max_def min_def\<close>)
qed

lemma SizeClass_cases:
  assumes "0 < x" and "x \<le> SIZE_MAX"
  obtains (small) "x \<le> 512" "SizeClass x = 512"
    | (medium) m where "512 < x" "x \<le> 2 ^ m" "SizeClass x = 2 ^ m" "SizeClass x = bit_ceil x" "x \<le> 1048576" "(2::int) ^ m \<le> 2 ^ 20"
    | (large) k where "1048576 < x" "x \<le> SIZE_MAX - 1048575" "SizeClass x = k * 1048576" "k = (x + 1048575) div 1048576"
    | (top) "SIZE_MAX - 1048575 < x" "SizeClass x = x"
proof -
  have ceil: "\<exists>m. bit_ceil x = 2 ^ m \<and> x \<le> 2 ^ m \<and> (2::int) ^ m \<le> 2 ^ 20" if "x \<le> 1048576"
  proof -
    obtain m where m: "bit_ceil x = 2 ^ m" "x \<le> bit_ceil x"
      using bit_ceil_from_spec [of 1 x] assms(1) by (auto simp: bit_ceil_def)
    then show ?thesis using bit_ceil_least [of x 20] that assms(1) by auto
  qed
  consider "x \<le> 512" | "512 < x" "x \<le> 1048576" | "1048576 < x" "x \<le> SIZE_MAX - 1048575"
    | "SIZE_MAX - 1048575 < x" "1048576 < x" using assms unfolding SIZE_MAX_def by linarith
  then show thesis
  proof cases
    case 2
    then have "SizeClass x = bit_ceil x" by (simp add: SizeClass_def kMinClassBytes_def kLargeStepBytes_def)
    then show thesis using ceil 2 medium by auto
  qed (use small large top in \<open>simp_all add: SizeClass_def kMinClassBytes_def kLargeStepBytes_def SIZE_MAX_def\<close>)
qed

lemma SizeClass_idem:
  assumes "0 < x" and "x \<le> SIZE_MAX"
  shows "SizeClass (SizeClass x) = SizeClass x"
  using assms
proof (cases rule: SizeClass_cases)
  case (medium m)
  have "bit_ceil (2 ^ m) \<le> 2 ^ m" by (rule bit_ceil_least) simp_all
  moreover have "(1::int) \<le> 2 ^ m" by simp
  then have "2 ^ m \<le> bit_ceil (2 ^ m)"
    using bit_ceil_from_spec [of 1 "2 ^ m"] unfolding bit_ceil_def by linarith
  ultimately show ?thesis using medium by (simp add: SizeClass_def kMinClassBytes_def kLargeStepBytes_def)
next
  case (large k)
  have "k * 1048576 \<le> SIZE_MAX - 1048575" "2 \<le> k" using large by (auto simp: SIZE_MAX_def)
  moreover have "(k * 1048576 + 1048575) div 1048576 = k" by simp
  ultimately show ?thesis using large(3) by (simp add: SizeClass_def kMinClassBytes_def kLargeStepBytes_def)
qed (simp_all add: SizeClass_def kMinClassBytes_def)

lemma SizeClass_mono:
  assumes "x \<le> y" and "0 < x" and "y \<le> SIZE_MAX"
  shows "SizeClass x \<le> SizeClass y"
proof -
  have y: "0 < y" "y \<le> SizeClass y" "512 \<le> SizeClass y"
    using SizeClass_spec [of y] assms by (auto simp: kMinClassBytes_def)
  have "x \<le> SIZE_MAX" using assms by simp
  with assms(2) show ?thesis
  proof (cases rule: SizeClass_cases)
    case (medium m)
    from y(1) assms(3) show ?thesis
    proof (cases rule: SizeClass_cases)
      case (medium n)
      then have "bit_ceil x \<le> 2 ^ n" using assms by (intro bit_ceil_least) simp_all
      then show ?thesis using \<open>SizeClass x = bit_ceil x\<close> medium by simp
    qed (use medium assms y in \<open>simp_all add: SIZE_MAX_def\<close>)
  next
    case (large k)
    then have "k * 1048576 \<le> SIZE_MAX - 1048575" by (auto simp: SIZE_MAX_def)
    from y(1) assms(3) show ?thesis
    proof (cases rule: SizeClass_cases)
      case (large l)
      then show ?thesis using \<open>SizeClass x = k * 1048576\<close> \<open>k = (x + 1048575) div 1048576\<close> assms(1)
        by (simp add: zdiv_mono1)
    qed (use large \<open>k * 1048576 \<le> SIZE_MAX - 1048575\<close> assms y in \<open>simp_all add: SIZE_MAX_def\<close>)
  qed (use y assms in simp_all)
qed

section \<open>The invariant\<close>

definition live_blocks :: "('u, 'd) CachingAllocator \<Rightarrow> (int \<times> int) multiset" where
  "live_blocks a = mset (map (\<lambda>(p, block). (p, lb_class_bytes block)) (ca_live a))"

definition class_blocks :: "int \<Rightarrow> 'd Buffer list \<Rightarrow> (int \<times> int) list" where
  "class_blocks class_bytes blocks = map (\<lambda>b. (buf_data b, class_bytes)) blocks"

definition cached_blocks :: "(int \<times> 'd Buffer list) list \<Rightarrow> (int \<times> int) multiset" where
  "cached_blocks fls = mset (concat (map (\<lambda>(c, bs). class_blocks c bs) fls))"

definition block_bytes :: "(int \<times> int) multiset \<Rightarrow> int" where
  "block_bytes M = sum_mset (image_mset snd M)"

text \<open>\<open>X\<close> are the blocks in flight between the upstream or a free list and the table of live blocks.\<close>

definition all_blocks :: "(int \<times> int) multiset \<Rightarrow> ('u, 'd) CachingAllocator \<Rightarrow> (int \<times> int) multiset" where
  "all_blocks X a = X + live_blocks a + cached_blocks (ca_free_lists a)"

definition held :: "(int \<Rightarrow> int option) \<Rightarrow> (int \<times> int) \<Rightarrow> bool" where
  "held blocks x \<longleftrightarrow> fst x \<noteq> 0 \<and> 0 < snd x \<and> kMaxAlignment dvd fst x \<and> (\<exists>cap. snd x \<le> cap \<and> blocks (fst x) = Some cap)"

definition blocks_ok :: "(int \<Rightarrow> int option) \<Rightarrow> (int \<times> int) multiset \<Rightarrow> bool" where
  "blocks_ok blocks M \<longleftrightarrow> (\<forall>p. count (image_mset fst M) p \<le> 1) \<and> (\<forall>x. x \<in># M \<longrightarrow> held blocks x)"

definition live_ok :: "(int \<times> 'd LiveBlock) list \<Rightarrow> bool" where
  "live_ok live \<longleftrightarrow>
     (\<forall>x \<in> set live. buf_data (lb_storage (snd x)) = fst x \<and> buf_deleter (lb_storage (snd x)) \<noteq> None)"

definition free_ok :: "(int \<times> 'd Buffer list) list \<Rightarrow> bool" where
  "free_ok fls \<longleftrightarrow> (\<forall>x \<in> set fls. \<forall>b \<in> set (snd x). buf_deleter b \<noteq> None)"

definition pool_inv :: "('u \<Rightarrow> int \<Rightarrow> int option) \<Rightarrow> (int \<times> int) multiset \<Rightarrow> ('u, 'd) CachingAllocator \<Rightarrow> bool" where
  "pool_inv owns X a \<longleftrightarrow>
     separate (owns (ca_upstream a)) \<and> blocks_ok (owns (ca_upstream a)) (all_blocks X a) \<and> live_ok (ca_live a) \<and> free_ok (ca_free_lists a) \<and>
     st_bytes_allocated (ca_stats a) = block_bytes (live_blocks a) \<and>
     st_bytes_reserved (ca_stats a) = block_bytes (all_blocks X a)"

lemma block_bytes_simps [simp]:
  "block_bytes {#} = 0" "block_bytes (add_mset x M) = snd x + block_bytes M"
  "block_bytes (M + N) = block_bytes M + block_bytes N"
  by (simp_all add: block_bytes_def)

lemma class_blocks_simps [simp]:
  "class_blocks c [] = []" "class_blocks c (b # bs) = (buf_data b, c) # class_blocks c bs"
  "class_blocks c (bs @ bs') = class_blocks c bs @ class_blocks c bs'"
  by (simp_all add: class_blocks_def)

lemma cached_blocks_simps [simp]:
  "cached_blocks [] = {#}"
  "cached_blocks ((c, bs) # fls) = mset (class_blocks c bs) + cached_blocks fls"
  by (simp_all add: cached_blocks_def)

lemma cached_blocks_update:
  "cached_blocks (AList.update c bs fls) + mset (class_blocks c (free_list fls c))
   = cached_blocks fls + mset (class_blocks c bs)"
  by (induction fls) (auto simp: free_list_def)

lemma set_update_subset: "set (AList.update k v al) \<subseteq> insert (k, v) (set al)"
  by (induction al) auto

lemma set_delete_subset: "set (AList.delete k al) \<subseteq> set al"
  by (auto simp: AList.delete_eq)

lemma delete_mset:
  "distinct (map fst al) \<Longrightarrow> map_of al k = Some v \<Longrightarrow> add_mset (k, v) (mset (AList.delete k al)) = mset al"
  by (induction al) (auto split: if_splits)

lemma free_list_in: "b \<in> set (free_list fls c) \<Longrightarrow> \<exists>bs. (c, bs) \<in> set fls \<and> b \<in> set bs"
  by (cases "map_of fls c") (auto simp: free_list_def dest: map_of_SomeD)

lemma blocks_ok_mono: "blocks_ok m M \<Longrightarrow> N \<subseteq># M \<Longrightarrow> blocks_ok m N"
  unfolding blocks_ok_def by (meson image_mset_subseteq_mono le_trans mset_subset_eqD subseteq_mset_def)

lemma blocks_ok_apart:
  assumes "blocks_ok m (add_mset (p, c) M)"
  shows "p \<notin># image_mset fst M"
proof -
  have "count (image_mset fst (add_mset (p, c) M)) p \<le> 1" using assms unfolding blocks_ok_def by blast
  then have "count (image_mset fst M) p = 0" by simp
  then show ?thesis by (simp only: not_in_iff)
qed

lemma distinct_live:
  assumes "blocks_ok m (live_blocks a + M)"
  shows "distinct (map fst (ca_live a))"
proof -
  have "image_mset fst (live_blocks a) = mset (map fst (ca_live a))"
    by (simp add: live_blocks_def image_mset.compositionality comp_def case_prod_beta flip: mset_map)
  then have "count (mset (map fst (ca_live a))) p \<le> 1" for p
    using blocks_ok_mono [OF assms, of "live_blocks a"] unfolding blocks_ok_def by simp
  then show ?thesis
    by (auto simp: distinct_count_atmost_1 le_Suc_eq count_eq_zero_iff dest!: spec)
qed

section \<open>The operations keep the invariant\<close>

lemma blocks_ok_agree:
  assumes "blocks_ok m M" and "\<And>p. p \<in># image_mset fst M \<Longrightarrow> m' p = m p"
  shows "blocks_ok m' M"
  using assms unfolding blocks_ok_def held_def by (metis image_eqI in_image_mset)

lemma blocks_ok_add:
  assumes "blocks_ok m M" and "held m x" and "fst x \<notin># image_mset fst M"
  shows "blocks_ok m (add_mset x M)"
proof -
  have "count (image_mset fst M) (fst x) = 0" using assms(3) by (simp only: not_in_iff)
  then show ?thesis using assms(1,2) by (auto simp: blocks_ok_def)
qed

lemma free_list_take:
  assumes "map_of fls c = Some bs" and "bs \<noteq> []"
  shows "add_mset (buf_data (last bs), c) (cached_blocks (AList.update c (butlast bs) fls)) = cached_blocks fls"
proof -
  have "class_blocks c bs = class_blocks c (butlast bs) @ [(buf_data (last bs), c)]"
    by (metis append_butlast_last_id assms(2) class_blocks_simps)
  moreover have "free_list fls c = bs" using assms(1) by (simp add: free_list_def)
  ultimately show ?thesis using cached_blocks_update [of c "butlast bs" fls] by simp
qed

lemma free_ok_update:
  assumes "free_ok fls" and "\<forall>b \<in> set bs. buf_deleter b \<noteq> None"
  shows "free_ok (AList.update c bs fls)"
  unfolding free_ok_def
proof
  fix x assume "x \<in> set (AList.update c bs fls)"
  then have "x = (c, bs) \<or> x \<in> set fls" using set_update_subset by fast
  then show "\<forall>b \<in> set (snd x). buf_deleter b \<noteq> None" using assms by (auto simp: free_ok_def)
qed

lemma free_ok_list: "free_ok fls \<Longrightarrow> b \<in> set (free_list fls c) \<Longrightarrow> buf_deleter b \<noteq> None"
  using free_list_in [of b fls c] by (fastforce simp: free_ok_def)

lemma live_ok_delete: "live_ok live \<Longrightarrow> live_ok (AList.delete p live)"
  using set_delete_subset [of p live] by (auto simp: live_ok_def)

lemma take_cached_ok:
  assumes "pool_inv owns {#} a" and "take_cached c a = Some (b, a1)"
  shows "pool_inv owns {#(buf_data b, c)#} a1 \<and> buf_deleter b \<noteq> None \<and> ca_live a1 = ca_live a \<and> ca_upstream a1 = ca_upstream a"
proof -
  obtain bs where bs: "map_of (ca_free_lists a) c = Some bs" "bs \<noteq> []" "b = last bs"
    and a1: "a1 = a\<lparr>ca_free_lists := AList.update c (butlast bs) (ca_free_lists a),
                 ca_stats := (ca_stats a)\<lparr>st_hit_count := st_hit_count (ca_stats a) + 1\<rparr>\<rparr>"
    using assms(2) by (auto simp: take_cached_def split: option.splits if_splits)
  have del: "\<forall>b \<in> set bs. buf_deleter b \<noteq> None"
    using assms(1) free_ok_list [of "ca_free_lists a" _ c] bs(1) by (auto simp: pool_inv_def free_list_def)
  have "all_blocks {#(buf_data b, c)#} a1 = all_blocks {#} a"
    using free_list_take [OF bs(1,2)] by (simp add: all_blocks_def live_blocks_def a1 bs(3))
  moreover have "free_ok (ca_free_lists a1)"
    using free_ok_update [of "ca_free_lists a" "butlast bs" c] assms(1) del
    by (auto simp: a1 pool_inv_def dest: in_set_butlastD)
  ultimately show ?thesis
    using assms(1) del bs by (simp add: pool_inv_def a1 live_blocks_def)
qed

lemma hand_out_ok:
  assumes inv: "pool_inv owns {#(buf_data b, c)#} a" and "buf_deleter b \<noteq> None" and "bytes \<noteq> 0"
  shows "\<exists>a'. hand_out al bytes c b a =
        (Inr \<lparr>buf_data = buf_data b, buf_size = bytes, buf_device = al_device al, buf_deleter = Some ReturnToPool\<rparr>, a')
      \<and> pool_inv owns {#} a' \<and> map_of (ca_live a) (buf_data b) = None
      \<and> ca_live a' = ca_live a @ [(buf_data b, \<lparr>lb_storage = b, lb_class_bytes = c\<rparr>)]
      \<and> ca_upstream a' = ca_upstream a \<and> ca_free_lists a' = ca_free_lists a
      \<and> held (owns (ca_upstream a)) (buf_data b, c)"
proof -
  have ok: "blocks_ok (owns (ca_upstream a)) (add_mset (buf_data b, c) (live_blocks a + cached_blocks (ca_free_lists a)))"
    using inv by (simp add: pool_inv_def all_blocks_def)
  then have held: "held (owns (ca_upstream a)) (buf_data b, c)" unfolding blocks_ok_def by simp
  have "buf_data b \<notin> fst ` set (ca_live a)"
    using blocks_ok_apart [OF ok] by (force simp: live_blocks_def)
  then have new: "map_of (ca_live a) (buf_data b) = None" by (simp add: map_of_eq_None_iff)
  show ?thesis
    using inv held new assms(2,3)
    by (auto simp: hand_out_def Let_def Buffer_ctor_def held_def pool_inv_def all_blocks_def live_blocks_def
        live_ok_def add_ac)
qed

lemma Return_ok:
  assumes inv: "pool_inv owns {#} a" and live: "map_of (ca_live a) p = Some block"
  shows "\<exists>a'. Caching_Return p a = Inr a' \<and> pool_inv owns {#} a' \<and> ca_upstream a' = ca_upstream a
      \<and> ca_live a' = AList.delete p (ca_live a)
      \<and> map_of (ca_free_lists a') (lb_class_bytes block)
        = Some (free_list (ca_free_lists a) (lb_class_bytes block) @ [lb_storage block])
      \<and> all_blocks {#} a' = all_blocks {#} a"
proof -
  define a' where "a' = (let class_bytes = lb_class_bytes block in
      a\<lparr>ca_stats := (ca_stats a)\<lparr>st_bytes_allocated := st_bytes_allocated (ca_stats a) - class_bytes\<rparr>,
        ca_free_lists := AList.update class_bytes (free_list (ca_free_lists a) class_bytes @ [lb_storage block]) (ca_free_lists a),
        ca_live := AList.delete p (ca_live a)\<rparr>)"
  have stor: "buf_data (lb_storage block) = p" "buf_deleter (lb_storage block) \<noteq> None"
    using inv map_of_SomeD [OF live] by (auto simp: pool_inv_def live_ok_def)
  have "distinct (map fst (ca_live a))"
    by (rule distinct_live [where m = "owns (ca_upstream a)" and M = "cached_blocks (ca_free_lists a)"])
      (use inv in \<open>simp add: pool_inv_def all_blocks_def\<close>)
  from delete_mset [OF this live] have mset_live: "mset (ca_live a) = add_mset (p, block) (mset (AList.delete p (ca_live a)))"
    by simp
  have lb: "live_blocks a = add_mset (p, lb_class_bytes block) (live_blocks a')"
    by (simp add: live_blocks_def mset_live a'_def Let_def)
  have cb: "cached_blocks (ca_free_lists a') = add_mset (p, lb_class_bytes block) (cached_blocks (ca_free_lists a))"
    using cached_blocks_update [of "lb_class_bytes block"
        "free_list (ca_free_lists a) (lb_class_bytes block) @ [lb_storage block]" "ca_free_lists a"]
    by (simp add: a'_def Let_def stor(1))
  have all: "all_blocks {#} a' = all_blocks {#} a" by (simp add: all_blocks_def lb cb)
  have "\<forall>b \<in> set (free_list (ca_free_lists a) (lb_class_bytes block) @ [lb_storage block]). buf_deleter b \<noteq> None"
    using inv stor(2) free_ok_list [of "ca_free_lists a"] by (auto simp: pool_inv_def)
  then have "free_ok (ca_free_lists a')"
    using inv by (simp only: a'_def Let_def) (simp add: pool_inv_def free_ok_update)
  moreover have "live_ok (ca_live a')" using inv by (simp add: pool_inv_def a'_def Let_def live_ok_delete)
  moreover have "st_bytes_allocated (ca_stats a') = block_bytes (live_blocks a')"
    using inv lb by (simp add: pool_inv_def a'_def Let_def)
  ultimately have "pool_inv owns {#} a'"
    using inv all by (simp add: pool_inv_def) (simp add: a'_def Let_def)
  moreover have "Caching_Return p a = Inr a'" by (simp add: Caching_Return_def live a'_def Let_def)
  ultimately show ?thesis using all by (simp add: a'_def Let_def update_conv')
qed

lemma mset_le_1_distinct:
  assumes "\<And>x. count (mset xs) x \<le> 1"
  shows "distinct xs"
  using assms by (auto simp: distinct_count_atmost_1 le_Suc_eq count_eq_zero_iff dest!: spec)

lemma victims_data: "mset (map buf_data (concat (map snd fls))) = image_mset fst (cached_blocks fls)"
  by (induction fls) (auto simp: class_blocks_def image_mset.compositionality comp_def)

lemma cached_blocks_sum:
  "cached_blocks fls = sum_mset (image_mset (\<lambda>x. mset (class_blocks (fst x) (snd x))) (mset fls))"
  by (induction fls) auto

lemma cached_blocks_perm: "mset fls = mset fls' \<Longrightarrow> cached_blocks fls = cached_blocks fls'"
  by (simp add: cached_blocks_sum)

lemma class_blocks_bytes: "block_bytes (mset (class_blocks c bs)) = c * int (length bs)"
  by (induction bs) (auto simp: algebra_simps)

lemma released_bytes:
  "sum_list (map (\<lambda>(class_bytes, blocks). class_bytes * int (length blocks)) fls) = block_bytes (cached_blocks fls)"
  by (induction fls) (auto simp: class_blocks_bytes)

lemma separate_restrict: "separate m \<Longrightarrow> separate (\<lambda>p. if p \<in> S then None else m p)"
  unfolding separate_def by (metis option.distinct(1))

text \<open>What the upstream holds after the cache has been given back.\<close>

definition freed_owns :: "('u \<Rightarrow> int \<Rightarrow> int option) \<Rightarrow> ('u, 'd) CachingAllocator \<Rightarrow> int \<Rightarrow> int option" where
  "freed_owns owns a =
     (\<lambda>p. if p \<in># image_mset fst (cached_blocks (ca_free_lists a)) then None else owns (ca_upstream a) p)"

locale pooled = allocator al owns
  for al :: "('u, 'd) Allocator" and owns :: "'u \<Rightarrow> int \<Rightarrow> int option" +
  fixes order :: "(int \<times> 'd Buffer list) list \<Rightarrow> (int \<times> 'd Buffer list) list"
  assumes order_perm: "mset (order fls) = mset fls"
begin

lemma fold_destroy:
  assumes "distinct (map buf_data vs)"
    and "\<forall>b \<in> set vs. owns u (buf_data b) \<noteq> None \<and> buf_deleter b \<noteq> None"
  shows "owns (fold (Buffer_destroy al) vs u) = (\<lambda>p. if p \<in> buf_data ` set vs then None else owns u p)"
  using assms
proof (induction vs arbitrary: u)
  case (Cons b vs)
  have u': "owns (Buffer_destroy al b u) = (owns u)(buf_data b := None)"
    using Cons.prems destroy_owned by simp
  have "\<forall>b' \<in> set vs. owns (Buffer_destroy al b u) (buf_data b') \<noteq> None \<and> buf_deleter b' \<noteq> None"
  proof
    fix b' assume b': "b' \<in> set vs"
    then have "buf_data b' \<noteq> buf_data b" using Cons.prems(1) by (metis distinct.simps(2) imageI list.simps(9) set_map)
    then show "owns (Buffer_destroy al b u) (buf_data b') \<noteq> None \<and> buf_deleter b' \<noteq> None"
      using Cons.prems(2) b' by (simp add: u')
  qed
  then have "owns (fold (Buffer_destroy al) vs (Buffer_destroy al b u))
      = (\<lambda>p. if p \<in> buf_data ` set vs then None else ((owns u)(buf_data b := None)) p)"
    using Cons.IH [of "Buffer_destroy al b u"] Cons.prems(1) unfolding u' by simp
  then show ?case by (auto simp: fun_eq_iff)
qed simp

lemma destroy_cached:
  assumes "pool_inv owns {#} a"
  shows "owns (fold (Buffer_destroy al) (concat (map snd (order (ca_free_lists a)))) (ca_upstream a)) = freed_owns owns a"
proof -
  let ?vs = "concat (map snd (order (ca_free_lists a)))"
  have data: "mset (map buf_data ?vs) = image_mset fst (cached_blocks (ca_free_lists a))"
    using victims_data cached_blocks_perm [OF order_perm] by metis
  have ok: "blocks_ok (owns (ca_upstream a)) (cached_blocks (ca_free_lists a))"
    by (rule blocks_ok_mono [where M = "all_blocks {#} a"]) (use assms in \<open>simp_all add: pool_inv_def all_blocks_def\<close>)
  have "distinct (map buf_data ?vs)"
    by (rule mset_le_1_distinct) (use ok in \<open>simp only: data blocks_ok_def\<close>)
  moreover have "owns (ca_upstream a) (buf_data b) \<noteq> None \<and> buf_deleter b \<noteq> None" if "b \<in> set ?vs" for b
  proof -
    have "buf_data b \<in># mset (map buf_data ?vs)" using that by force
    then have "\<exists>x. x \<in># cached_blocks (ca_free_lists a) \<and> fst x = buf_data b" unfolding data by auto
    moreover have "set (order (ca_free_lists a)) = set (ca_free_lists a)" by (rule mset_eq_setD [OF order_perm])
    ultimately show ?thesis using ok that assms by (fastforce simp: blocks_ok_def held_def pool_inv_def free_ok_def)
  qed
  moreover have "buf_data ` set ?vs = set_mset (image_mset fst (cached_blocks (ca_free_lists a)))"
    by (metis data set_map set_mset_mset)
  ultimately show ?thesis by (simp add: fold_destroy freed_owns_def)
qed

lemma release_ok:
  assumes inv: "pool_inv owns {#} a"
  shows "\<exists>a'. release_cached al order a = (block_bytes (cached_blocks (ca_free_lists a)), a') \<and> pool_inv owns {#} a'
      \<and> ca_live a' = ca_live a \<and> ca_free_lists a' = [] \<and> owns (ca_upstream a') = freed_owns owns a
      \<and> ca_stats a' = (ca_stats a)\<lparr>st_bytes_reserved := st_bytes_allocated (ca_stats a)\<rparr>"
proof -
  define u where "u = fold (Buffer_destroy al) (concat (map snd (order (ca_free_lists a)))) (ca_upstream a)"
  define a' where "a' = a\<lparr>ca_upstream := u, ca_free_lists := [],
      ca_stats := (ca_stats a)\<lparr>st_bytes_reserved := st_bytes_allocated (ca_stats a)\<rparr>\<rparr>"
  have u: "owns u = freed_owns owns a" using destroy_cached [OF inv] by (simp add: u_def)
  have reserved: "st_bytes_reserved (ca_stats a) = st_bytes_allocated (ca_stats a) + block_bytes (cached_blocks (ca_free_lists a))"
    using inv by (simp add: pool_inv_def all_blocks_def)
  have run: "release_cached al order a = (block_bytes (cached_blocks (ca_free_lists a)), a')"
    by (simp add: release_cached_def ReleaseCachedLocked_def Let_def released_bytes cached_blocks_perm [OF order_perm]
        clear_victims_def a'_def u_def reserved)
  have ok: "blocks_ok (owns (ca_upstream a)) (live_blocks a + cached_blocks (ca_free_lists a))"
    using inv by (simp add: pool_inv_def all_blocks_def)
  have "blocks_ok (owns u) (live_blocks a)"
  proof (rule blocks_ok_agree)
    show "blocks_ok (owns (ca_upstream a)) (live_blocks a)" by (rule blocks_ok_mono [OF ok]) simp
    fix p assume p: "p \<in># image_mset fst (live_blocks a)"
    have "count (image_mset fst (live_blocks a + cached_blocks (ca_free_lists a))) p \<le> 1"
      using ok unfolding blocks_ok_def by blast
    then have "count (image_mset fst (live_blocks a)) p + count (image_mset fst (cached_blocks (ca_free_lists a))) p \<le> 1"
      by simp
    moreover have "0 < count (image_mset fst (live_blocks a)) p" using p by (simp only: count_greater_zero_iff)
    ultimately have "count (image_mset fst (cached_blocks (ca_free_lists a))) p = 0" by linarith
    then have "p \<notin># image_mset fst (cached_blocks (ca_free_lists a))" by (simp only: not_in_iff)
    then show "owns u p = owns (ca_upstream a) p" by (simp only: u freed_owns_def if_False)
  qed
  moreover have "separate (owns u)"
    using separate_restrict [of "owns (ca_upstream a)"] inv unfolding u freed_owns_def pool_inv_def by blast
  ultimately have "pool_inv owns {#} a'"
    using inv by (simp add: pool_inv_def a'_def all_blocks_def live_blocks_def free_ok_def)
  then show ?thesis using run u by (simp add: a'_def)
qed

lemma upstream_ok:
  assumes inv: "pool_inv owns {#} a" and c: "0 < c" "c \<le> SIZE_MAX" and alloc: "upstream_allocate al c a = (Inr b, a1)"
  defines "a' \<equiv> a1\<lparr>ca_stats := (ca_stats a1)\<lparr>st_bytes_reserved := st_bytes_reserved (ca_stats a1) + c\<rparr>\<rparr>"
  shows "pool_inv owns {#(buf_data b, c)#} a' \<and> buf_deleter b \<noteq> None \<and> a1 = a\<lparr>ca_upstream := ca_upstream a1\<rparr>
    \<and> fresh_block (owns (ca_upstream a)) (owns (ca_upstream a1)) (buf_data b) c kMaxAlignment"
proof -
  have up: "al_allocate al (ca_upstream a) c kMaxAlignment = (Inr b, ca_upstream a1)"
    and a1: "a1 = a\<lparr>ca_upstream := ca_upstream a1\<rparr>"
    using alloc by (auto simp: upstream_allocate_def split: prod.splits)
  have "valid_request c kMaxAlignment"
    using c IsPowerOfTwo_exp [of 8] by (simp add: valid_request_def kMaxAlignment_def)
  moreover have sep: "separate (owns (ca_upstream a))" using inv by (simp add: pool_inv_def)
  ultimately have del: "buf_deleter b \<noteq> None"
    and fresh: "fresh_block (owns (ca_upstream a)) (owns (ca_upstream a1)) (buf_data b) c kMaxAlignment"
    using allocate_ok(2,3) up by blast+
  have ok: "blocks_ok (owns (ca_upstream a)) (all_blocks {#} a)" using inv by (simp add: pool_inv_def)
  have new: "buf_data b \<notin># image_mset fst (all_blocks {#} a)"
    using ok fresh by (force simp: blocks_ok_def held_def fresh_block_def)
  obtain cap where cap: "c \<le> cap" "owns (ca_upstream a1) = (owns (ca_upstream a))(buf_data b \<mapsto> cap)"
    using fresh unfolding fresh_block_def by blast
  have "blocks_ok (owns (ca_upstream a1)) (all_blocks {#} a)"
  proof (rule blocks_ok_agree [OF ok])
    fix p assume "p \<in># image_mset fst (all_blocks {#} a)"
    then have "p \<noteq> buf_data b" using new by blast
    then show "owns (ca_upstream a1) p = owns (ca_upstream a) p" by (simp add: cap(2))
  qed
  then have "blocks_ok (owns (ca_upstream a1)) (add_mset (buf_data b, c) (all_blocks {#} a))"
    by (rule blocks_ok_add) (use new cap c fresh in \<open>auto simp: held_def fresh_block_def\<close>)
  moreover have "all_blocks {#(buf_data b, c)#} a' = add_mset (buf_data b, c) (all_blocks {#} a)"
    by (subst (1) a'_def, subst a1) (simp add: all_blocks_def live_blocks_def)
  moreover have "ca_stats a1 = ca_stats a" "ca_live a1 = ca_live a" "ca_free_lists a1 = ca_free_lists a"
    by (subst a1, simp)+
  ultimately have "pool_inv owns {#(buf_data b, c)#} a'"
    using inv fresh by (simp add: pool_inv_def a'_def fresh_block_def live_blocks_def)
  then show ?thesis using del a1 fresh by blast
qed

lemma upstream_err:
  assumes inv: "pool_inv owns {#} a" and c: "0 < c" "c \<le> SIZE_MAX" and alloc: "upstream_allocate al c a = (Inl e, a1)"
  shows "pool_inv owns {#} a1 \<and> (\<exists>code. e = Status code) \<and> a1 = a\<lparr>ca_upstream := ca_upstream a1\<rparr>
    \<and> owns (ca_upstream a1) = owns (ca_upstream a)"
proof -
  have up: "al_allocate al (ca_upstream a) c kMaxAlignment = (Inl e, ca_upstream a1)"
    and a1: "a1 = a\<lparr>ca_upstream := ca_upstream a1\<rparr>"
    using alloc by (auto simp: upstream_allocate_def split: prod.splits)
  have "valid_request c kMaxAlignment"
    using c IsPowerOfTwo_exp [of 8] by (simp add: valid_request_def kMaxAlignment_def)
  then have same: "\<exists>code. e = Status code" "owns (ca_upstream a1) = owns (ca_upstream a)"
    using allocate_err up inv by (auto simp: pool_inv_def)
  have "ca_stats a1 = ca_stats a" "ca_live a1 = ca_live a" "ca_free_lists a1 = ca_free_lists a"
    by (subst a1, simp)+
  then have "pool_inv owns {#} a1" using inv same(2) by (simp add: pool_inv_def all_blocks_def live_blocks_def)
  then show ?thesis using same a1 by blast
qed

lemma pool_inv_stats:
  "pool_inv owns X (a\<lparr>ca_stats := (ca_stats a)\<lparr>st_miss_count := n\<rparr>\<rparr>) = pool_inv owns X a"
  by (simp add: pool_inv_def all_blocks_def live_blocks_def)

lemma miss_ok:
  assumes inv: "pool_inv owns {#} a" and c: "0 < c" "c \<le> SIZE_MAX"
  shows "case allocate_miss al order c a of
      (Inr b, a') \<Rightarrow> pool_inv owns {#(buf_data b, c)#} a' \<and> buf_deleter b \<noteq> None \<and> ca_live a' = ca_live a
    | (Inl e, a') \<Rightarrow> pool_inv owns {#} a' \<and> (\<exists>code. e = Status code) \<and> ca_live a' = ca_live a
        \<and> (if ca_free_lists a' = [] then True else \<not> IsExhausted e \<and> ca_free_lists a' = ca_free_lists a)"
proof -
  define a0 where "a0 = a\<lparr>ca_stats := (ca_stats a)\<lparr>st_miss_count := st_miss_count (ca_stats a) + 1\<rparr>\<rparr>"
  have a0: "pool_inv owns {#} a0" "ca_live a0 = ca_live a" "ca_free_lists a0 = ca_free_lists a"
    using inv by (simp_all add: a0_def pool_inv_stats)
  obtain r a1 where first: "upstream_allocate al c a0 = (r, a1)" by force
  show ?thesis
  proof (cases r)
    case (Inr b)
    with first have "upstream_allocate al c a0 = (Inr b, a1)" by simp
    from upstream_ok [OF a0(1) c this] have "a1 = a0\<lparr>ca_upstream := ca_upstream a1\<rparr>" by blast
    then have "ca_live a1 = ca_live a" by (metis CachingAllocator.select_convs(2) CachingAllocator.surjective CachingAllocator.update_convs(1) a0(2))
    then show ?thesis
      using upstream_ok [OF a0(1) c] first Inr by (simp add: allocate_miss_def Let_def a0_def [symmetric])
  next
    case (Inl e)
    with first have run1: "upstream_allocate al c a0 = (Inl e, a1)" by simp
    from upstream_err [OF a0(1) c this] have a1: "pool_inv owns {#} a1" "\<exists>code. e = Status code"
      and eq: "a1 = a0\<lparr>ca_upstream := ca_upstream a1\<rparr>" by auto
    have same: "ca_live a1 = ca_live a" "ca_free_lists a1 = ca_free_lists a"
      by (subst eq, simp add: a0)+
    show ?thesis
    proof (cases "IsExhausted e")
      case False
      then show ?thesis using run1 a1 same by (auto simp: allocate_miss_def Let_def a0_def [symmetric])
    next
      case True
      obtain a2 where rel: "snd (release_cached al order a1) = a2" "pool_inv owns {#} a2"
        "ca_live a2 = ca_live a" "ca_free_lists a2 = []"
        using release_ok [OF a1(1)] same by force
      obtain r3 a3 where retry: "upstream_allocate al c a2 = (r3, a3)" by force
      have miss: "allocate_miss al order c a =
          (case (r3, a3) of (Inl status, a2) \<Rightarrow> (Inl status, a2)
           | (Inr storage, a2) \<Rightarrow>
              (Inr storage, a2\<lparr>ca_stats := (ca_stats a2)\<lparr>st_bytes_reserved := st_bytes_reserved (ca_stats a2) + c\<rparr>\<rparr>))"
        using True run1 rel(1) retry by (simp add: allocate_miss_def Let_def a0_def [symmetric])
      show ?thesis
      proof (cases r3)
        case (Inr b)
        then have run3: "upstream_allocate al c a2 = (Inr b, a3)" using retry by simp
        from upstream_ok [OF rel(2) c run3] have eq: "a3 = a2\<lparr>ca_upstream := ca_upstream a3\<rparr>" by blast
        have "ca_live a3 = ca_live a" by (subst eq, simp add: rel)
        then show ?thesis using upstream_ok [OF rel(2) c run3] by (simp add: miss Inr)
      next
        case (Inl e3)
        then have run3: "upstream_allocate al c a2 = (Inl e3, a3)" using retry by simp
        from upstream_err [OF rel(2) c run3] have err: "pool_inv owns {#} a3" "\<exists>code. e3 = Status code"
          and eq: "a3 = a2\<lparr>ca_upstream := ca_upstream a3\<rparr>" by auto
        have "ca_live a3 = ca_live a" "ca_free_lists a3 = []" by (subst eq, simp add: rel)+
        then show ?thesis using err by (simp add: miss Inl)
      qed
    qed
  qed
qed

lemma alignment_dvd:
  assumes "IsPowerOfTwo alignment" and "0 \<le> alignment" and "alignment \<le> kMaxAlignment"
  shows "alignment dvd kMaxAlignment"
proof -
  obtain k where k: "alignment = 2 ^ k" using IsPowerOfTwoE assms by blast
  then have "(2::int) ^ k \<le> 2 ^ 8" using assms(3) by (simp add: kMaxAlignment_def)
  then have "k \<le> 8" by (meson power_le_imp_le_exp one_less_numeral_iff semiring_norm(76))
  then have "(2::int) ^ k dvd 2 ^ 8" by (rule le_imp_power_dvd)
  then show ?thesis by (simp add: k kMaxAlignment_def)
qed

lemma pool_request_ok:
  assumes inv: "pool_inv owns {#} a" and bytes: "0 < bytes" "bytes \<le> SIZE_MAX"
    and al: "IsPowerOfTwo alignment" "0 \<le> alignment" "alignment \<le> kMaxAlignment"
  shows "case Caching_Allocate al order bytes alignment a of
      (Inr b, a') \<Rightarrow> pool_inv owns {#} a' \<and> buf_size b = bytes \<and> buf_device b = al_device al
        \<and> buf_deleter b = Some ReturnToPool \<and> alignment dvd buf_data b
        \<and> map_of (ca_live a) (buf_data b) = None
        \<and> (\<exists>storage. ca_live a' = ca_live a @ [(buf_data b, \<lparr>lb_storage = storage, lb_class_bytes = SizeClass bytes\<rparr>)])
        \<and> held (owns (ca_upstream a')) (buf_data b, SizeClass bytes)
    | (Inl e, a') \<Rightarrow> pool_inv owns {#} a' \<and> (\<exists>code. e = Status code) \<and> ca_live a' = ca_live a
        \<and> (if ca_free_lists a' = [] then True else \<not> IsExhausted e \<and> ca_free_lists a' = ca_free_lists a)"
proof -
  let ?c = "SizeClass bytes"
  have c: "0 < ?c" "?c \<le> SIZE_MAX" using SizeClass_spec [OF bytes] bytes by auto
  have dvd: "alignment dvd buf_data b" if "held m (buf_data b, ?c)" for m and b :: "'d Buffer"
    using that alignment_dvd [OF al] by (auto simp: held_def intro: dvd_trans)
  have finish: "case hand_out al bytes ?c b a1 of (Inl e, a') \<Rightarrow> False
      | (Inr b', a') \<Rightarrow> pool_inv owns {#} a' \<and> buf_size b' = bytes \<and> buf_device b' = al_device al
        \<and> buf_deleter b' = Some ReturnToPool \<and> alignment dvd buf_data b'
        \<and> map_of (ca_live a) (buf_data b') = None
        \<and> (\<exists>storage. ca_live a' = ca_live a @ [(buf_data b', \<lparr>lb_storage = storage, lb_class_bytes = ?c\<rparr>)])
        \<and> held (owns (ca_upstream a')) (buf_data b', ?c)"
    if "pool_inv owns {#(buf_data b, ?c)#} a1" "buf_deleter b \<noteq> None" "ca_live a1 = ca_live a" for b a1
  proof -
    have "bytes \<noteq> 0" using bytes by simp
    from hand_out_ok [OF that(1,2) this, of al] obtain a' where
      run: "hand_out al bytes ?c b a1 = (Inr \<lparr>buf_data = buf_data b, buf_size = bytes,
          buf_device = al_device al, buf_deleter = Some ReturnToPool\<rparr>, a')"
      and facts: "pool_inv owns {#} a'" "map_of (ca_live a1) (buf_data b) = None"
        "ca_live a' = ca_live a1 @ [(buf_data b, \<lparr>lb_storage = b, lb_class_bytes = ?c\<rparr>)]"
        "ca_upstream a' = ca_upstream a1" "held (owns (ca_upstream a1)) (buf_data b, ?c)"
      by blast
    then show ?thesis using dvd [OF facts(5)] that(3) by simp
  qed
  show ?thesis
  proof (cases "take_cached ?c a")
    case (Some x)
    obtain b a1 where x: "x = (b, a1)" by force
    have "pool_inv owns {#(buf_data b, ?c)#} a1 \<and> buf_deleter b \<noteq> None \<and> ca_live a1 = ca_live a"
      using take_cached_ok [OF inv, of ?c b a1] Some x by simp
    then show ?thesis using finish [of b a1] Some x bytes al
      by (auto simp: Caching_Allocate_def Let_def split: prod.splits sum.splits)
  next
    case None
    obtain r a1 where r: "allocate_miss al order ?c a = (r, a1)" by force
    show ?thesis
    proof (cases r)
      case (Inl e)
      then show ?thesis using miss_ok [OF inv c] r None bytes al by (simp add: Caching_Allocate_def Let_def)
    next
      case (Inr b)
      then have "pool_inv owns {#(buf_data b, ?c)#} a1 \<and> buf_deleter b \<noteq> None \<and> ca_live a1 = ca_live a"
        using miss_ok [OF inv c] r by simp
      then show ?thesis using finish [of b a1] r Inr None bytes al
        by (auto simp: Caching_Allocate_def Let_def split: prod.splits sum.splits)
    qed
  qed
qed

end

text \<open>The pool over the CPU allocator, with the free lists traversed as they are stored.\<close>

interpretation cpu_pool: pooled "cpu_allocator arena_system" arena_owns "\<lambda>fls. fls"
  by unfold_locales (simp_all add: system_allocator.cpu_contract [OF system_allocator.intro [OF arena_contract]])

section \<open>Reachable pools\<close>

text \<open>Between two operations other users of the upstream may take and give back blocks of their own.\<close>

inductive pool_run ::
  "('u, 'd) Allocator \<Rightarrow> ((int \<times> 'd Buffer list) list \<Rightarrow> (int \<times> 'd Buffer list) list) \<Rightarrow> ('u \<Rightarrow> int \<Rightarrow> int option)
    \<Rightarrow> ('u, 'd) CachingAllocator \<Rightarrow> bool"
  for al order owns where
  start: "CachingAllocator_ctor (Some u) = Inr a \<Longrightarrow> separate (owns u) \<Longrightarrow> pool_run al order owns a"
| allocate: "pool_run al order owns a \<Longrightarrow> 0 \<le> bytes \<Longrightarrow> bytes \<le> SIZE_MAX \<Longrightarrow> 0 \<le> alignment
    \<Longrightarrow> pool_run al order owns (snd (Caching_Allocate al order bytes alignment a))"
| free: "pool_run al order owns a \<Longrightarrow> pool_delete d p a = Inr a' \<Longrightarrow> pool_run al order owns a'"
| release: "pool_run al order owns a \<Longrightarrow> pool_run al order owns (snd (release_cached al order a))"
| others: "pool_run al order owns a \<Longrightarrow> separate (owns u)
    \<Longrightarrow> \<forall>p. p \<in># image_mset fst (all_blocks {#} a) \<longrightarrow> owns u p = owns (ca_upstream a) p
    \<Longrightarrow> pool_run al order owns (a\<lparr>ca_upstream := u\<rparr>)"

context pooled begin

lemma pool_run_inv: "pool_run al order owns a \<Longrightarrow> pool_inv owns {#} a"
proof (induction rule: pool_run.induct)
  case (start u a)
  then show ?case
    by (auto simp: CachingAllocator_ctor_def pool_inv_def all_blocks_def live_blocks_def blocks_ok_def live_ok_def free_ok_def)
next
  case (allocate a bytes alignment)
  show ?case
  proof (cases "IsPowerOfTwo alignment \<and> alignment \<le> kMaxAlignment \<and> bytes \<noteq> 0")
    case True
    then show ?thesis using pool_request_ok [OF allocate.IH, of bytes alignment] allocate.hyps
      by (auto split: prod.splits sum.splits)
  next
    case False
    then show ?thesis using allocate.IH by (auto simp: Caching_Allocate_def)
  qed
next
  case (free a d p a')
  show ?case
  proof (cases "d = ReturnToPool \<and> map_of (ca_live a) p \<noteq> None")
    case True
    then show ?thesis using Return_ok [OF free.IH, of p] free.hyps by (auto simp: pool_delete_def)
  next
    case False
    then show ?thesis using free by (cases d) (auto simp: pool_delete_def Caching_Return_def)
  qed
next
  case (release a)
  then show ?case using release_ok [OF release.IH] by auto
next
  case (others a u)
  have "blocks_ok (owns u) (all_blocks {#} a)"
    by (rule blocks_ok_agree [where m = "owns (ca_upstream a)"]) (use others in \<open>simp_all add: pool_inv_def\<close>)
  then show ?case using others by (simp add: pool_inv_def all_blocks_def live_blocks_def)
qed

lemma destroy_ok:
  assumes "pool_inv owns {#} a" and "ca_live a = []"
  shows "\<exists>u. CachingAllocator_destroy al order a = Inr u \<and> owns u = freed_owns owns a"
  using destroy_cached [OF assms(1)] assms(2) by (simp add: CachingAllocator_destroy_def)

end

lemma inv_disjoint:
  assumes inv: "pool_inv owns {#} a" and x: "(p, c) \<in># all_blocks {#} a"
    and y: "(q, d) \<in># all_blocks {#} a - {#(p, c)#}"
  shows "p + c \<le> q \<or> q + d \<le> p"
proof -
  have split: "all_blocks {#} a = add_mset (p, c) (all_blocks {#} a - {#(p, c)#})" using x by simp
  have ok: "blocks_ok (owns (ca_upstream a)) (all_blocks {#} a)" using inv by (simp add: pool_inv_def)
  have "p \<notin># image_mset fst (all_blocks {#} a - {#(p, c)#})" using ok split blocks_ok_apart by metis
  then have ne: "p \<noteq> q" using y by force
  have "held (owns (ca_upstream a)) (p, c)" "held (owns (ca_upstream a)) (q, d)"
    using ok x in_diffD [OF y] by (auto simp: blocks_ok_def)
  then obtain cp cq where "c \<le> cp" "d \<le> cq" "owns (ca_upstream a) p = Some cp" "owns (ca_upstream a) q = Some cq"
    by (auto simp: held_def)
  moreover have "separate (owns (ca_upstream a))" using inv by (simp add: pool_inv_def)
  ultimately show ?thesis using ne unfolding separate_def by force
qed

lemma live_in_blocks: "map_of (ca_live a) p = Some block \<Longrightarrow> (p, lb_class_bytes block) \<in># all_blocks X a"
  using map_of_SomeD [of "ca_live a" p block] by (force simp: all_blocks_def live_blocks_def)

section \<open>Theorems\<close>

text \<open>C34. In every reachable pool the counters are exact: the bytes allocated are the live blocks' size classes, the
  bytes reserved are those plus the cached blocks'. The upstream holds a block of at least its class for
  each of them, and no two of them, live or cached, share a byte.\<close>

theorem pool_accounting:
  assumes "allocator_contract al owns" and "\<And>fls. mset (order fls) = mset fls" and "pool_run al order owns a"
  shows "st_bytes_allocated (ca_stats a) = block_bytes (live_blocks a)
    \<and> st_bytes_reserved (ca_stats a) = block_bytes (live_blocks a) + block_bytes (cached_blocks (ca_free_lists a))
    \<and> (\<forall>p c. (p, c) \<in># all_blocks {#} a \<longrightarrow>
         (\<exists>cap. c \<le> cap \<and> owns (ca_upstream a) p = Some cap)
         \<and> (\<forall>q d. (q, d) \<in># all_blocks {#} a - {#(p, c)#} \<longrightarrow> p + c \<le> q \<or> q + d \<le> p))"
proof -
  have "pooled al owns order" by unfold_locales (rule assms(1), rule assms(2))
  then have inv: "pool_inv owns {#} a" using pooled.pool_run_inv assms(3) by blast
  then have "\<forall>x. x \<in># all_blocks {#} a \<longrightarrow> held (owns (ca_upstream a)) x" by (simp add: pool_inv_def blocks_ok_def)
  then show ?thesis using inv inv_disjoint [OF inv] by (auto simp: pool_inv_def all_blocks_def held_def)
qed

text \<open>C35. From every reachable pool a request of at least one byte, at an alignment the pool admits, either gets a
  buffer of the requested size, aligned, on a block that no live buffer has and that the upstream holds
  with at least the request's size class; the other live blocks stay. Or it gets a status, the live blocks
  stay, and an exhaustion is reported only when nothing is cached any more. It never aborts.\<close>

theorem pool_allocate:
  assumes "allocator_contract al owns" and "\<And>fls. mset (order fls) = mset fls" and "pool_run al order owns a"
    and "0 < bytes" and "bytes \<le> SIZE_MAX"
    and "IsPowerOfTwo alignment" and "0 \<le> alignment" and "alignment \<le> kMaxAlignment"
  shows "case Caching_Allocate al order bytes alignment a of
      (Inr b, a') \<Rightarrow> buf_size b = bytes \<and> buf_data b \<noteq> 0 \<and> alignment dvd buf_data b \<and> buf_device b = al_device al
        \<and> map_of (ca_live a) (buf_data b) = None
        \<and> (\<exists>storage. ca_live a' = ca_live a @ [(buf_data b, \<lparr>lb_storage = storage, lb_class_bytes = SizeClass bytes\<rparr>)])
        \<and> (\<exists>cap. bytes \<le> SizeClass bytes \<and> SizeClass bytes \<le> cap \<and> owns (ca_upstream a') (buf_data b) = Some cap)
    | (Inl e, a') \<Rightarrow> (\<exists>code. e = Status code) \<and> ca_live a' = ca_live a \<and> (IsExhausted e \<longrightarrow> ca_free_lists a' = [])"
proof -
  have pool: "pooled al owns order" by unfold_locales (rule assms(1), rule assms(2))
  then have inv: "pool_inv owns {#} a" using pooled.pool_run_inv assms(3) by blast
  show ?thesis using pooled.pool_request_ok [OF pool inv assms(4-8)] SizeClass_spec [OF assms(4,5)]
    by (auto simp: held_def split: prod.splits sum.splits if_splits)
qed

text \<open>C36. A freed block serves the next request of its size class, whatever that request's size and alignment: the
  same address comes back as a cache hit, the upstream is not called, and the table of live blocks and
  both byte counters are what they were before the block was freed.\<close>

theorem pool_free_then_hit:
  assumes "allocator_contract al owns" and "\<And>fls. mset (order fls) = mset fls" and "pool_run al order owns a"
    and "map_of (ca_live a) p = Some block" and "pool_delete ReturnToPool p a = Inr a'"
    and "0 < bytes" and "bytes \<le> SIZE_MAX" and "SizeClass bytes = lb_class_bytes block"
    and "IsPowerOfTwo alignment" and "0 \<le> alignment" and "alignment \<le> kMaxAlignment"
  shows "\<exists>a''. Caching_Allocate al order bytes alignment a' =
        (Inr \<lparr>buf_data = p, buf_size = bytes, buf_device = al_device al, buf_deleter = Some ReturnToPool\<rparr>, a'')
      \<and> ca_upstream a'' = ca_upstream a \<and> map_of (ca_live a'') = map_of (ca_live a)
      \<and> ca_stats a'' = (ca_stats a)\<lparr>st_hit_count := st_hit_count (ca_stats a) + 1\<rparr>"
proof -
  have pool: "pooled al owns order" by unfold_locales (rule assms(1), rule assms(2))
  then have inv: "pool_inv owns {#} a" using pooled.pool_run_inv assms(3) by blast
  let ?c = "lb_class_bytes block"
  let ?b = "lb_storage block"
  have ret: "Caching_Return p a = Inr a'" using assms(5) by (simp add: pool_delete_def)
  from Return_ok [OF inv assms(4)] ret have inv': "pool_inv owns {#} a'"
    and up: "ca_upstream a' = ca_upstream a" and live': "ca_live a' = AList.delete p (ca_live a)"
    and fl: "map_of (ca_free_lists a') ?c = Some (free_list (ca_free_lists a) ?c @ [?b])"
    by auto
  have st: "ca_stats a' = (ca_stats a)\<lparr>st_bytes_allocated := st_bytes_allocated (ca_stats a) - ?c\<rparr>"
    using ret assms(4) by (auto simp: Caching_Return_def Let_def)
  have data: "buf_data ?b = p" using inv map_of_SomeD [OF assms(4)] by (auto simp: pool_inv_def live_ok_def)
  obtain a1 where take: "take_cached ?c a' = Some (?b, a1)"
    and st1: "ca_stats a1 = (ca_stats a')\<lparr>st_hit_count := st_hit_count (ca_stats a') + 1\<rparr>"
    using fl by (simp add: take_cached_def)
  from take_cached_ok [OF inv' take] have inv1: "pool_inv owns {#(buf_data ?b, ?c)#} a1" and del: "buf_deleter ?b \<noteq> None"
    and live1: "ca_live a1 = ca_live a'" and up1: "ca_upstream a1 = ca_upstream a'"
    by auto
  have "bytes \<noteq> 0" using assms(6) by simp
  from hand_out_ok [OF inv1 del this, of al] obtain a'' where
    run: "hand_out al bytes ?c ?b a1 = (Inr \<lparr>buf_data = buf_data ?b, buf_size = bytes,
        buf_device = al_device al, buf_deleter = Some ReturnToPool\<rparr>, a'')"
    and new: "map_of (ca_live a1) (buf_data ?b) = None"
    and live2: "ca_live a'' = ca_live a1 @ [(buf_data ?b, \<lparr>lb_storage = ?b, lb_class_bytes = ?c\<rparr>)]"
    and up2: "ca_upstream a'' = ca_upstream a1"
    by blast
  have "ca_stats a'' = (ca_stats a1)\<lparr>st_bytes_allocated := st_bytes_allocated (ca_stats a1) + ?c\<rparr>"
    using run new by (auto simp: hand_out_def Let_def)
  then have stats: "ca_stats a'' = (ca_stats a)\<lparr>st_hit_count := st_hit_count (ca_stats a) + 1\<rparr>" by (simp add: st1 st)
  have "map_of (ca_live a'') = map_of (ca_live a)"
    using assms(4) by (auto simp: live2 live1 live' data fun_eq_iff delete_conv' map_add_def split: option.splits)
  moreover have "Caching_Allocate al order bytes alignment a' =
      (Inr \<lparr>buf_data = p, buf_size = bytes, buf_device = al_device al, buf_deleter = Some ReturnToPool\<rparr>, a'')"
    using assms(6,8,9,11) take run by (simp add: Caching_Allocate_def Let_def data)
  ultimately show ?thesis using stats up2 up1 up by auto
qed

text \<open>C37. \<open>release_cached\<close> gives the upstream back exactly the cached blocks and reports their bytes, the drop in the
  bytes reserved; the live blocks stay. Destroying the pool aborts exactly when a buffer is live, and
  otherwise leaves nothing of the pool in the upstream.\<close>

theorem pool_release:
  assumes "allocator_contract al owns" and "\<And>fls. mset (order fls) = mset fls" and "pool_run al order owns a"
  shows "(\<exists>a'. release_cached al order a = (st_bytes_reserved (ca_stats a) - st_bytes_reserved (ca_stats a'), a')
        \<and> st_bytes_reserved (ca_stats a') = st_bytes_allocated (ca_stats a)
        \<and> ca_live a' = ca_live a \<and> ca_free_lists a' = []
        \<and> (\<forall>p. owns (ca_upstream a') p =
              (if p \<in># image_mset fst (cached_blocks (ca_free_lists a)) then None else owns (ca_upstream a) p)))
    \<and> (case CachingAllocator_destroy al order a of
        Inr u \<Rightarrow> ca_live a = [] \<and>
          (\<forall>p. owns u p = (if p \<in># image_mset fst (all_blocks {#} a) then None else owns (ca_upstream a) p))
      | Inl e \<Rightarrow> ca_live a \<noteq> [] \<and> e = CheckFailed)"
proof -
  have pool: "pooled al owns order" by unfold_locales (rule assms(1), rule assms(2))
  then have inv: "pool_inv owns {#} a" using pooled.pool_run_inv assms(3) by blast
  have reserved: "st_bytes_reserved (ca_stats a) - st_bytes_allocated (ca_stats a) = block_bytes (cached_blocks (ca_free_lists a))"
    using inv by (simp add: pool_inv_def all_blocks_def)
  obtain a' where "release_cached al order a = (block_bytes (cached_blocks (ca_free_lists a)), a')"
    "ca_live a' = ca_live a" "ca_free_lists a' = []" "owns (ca_upstream a') = freed_owns owns a"
    "ca_stats a' = (ca_stats a)\<lparr>st_bytes_reserved := st_bytes_allocated (ca_stats a)\<rparr>"
    using pooled.release_ok [OF pool inv] by blast
  then have "release_cached al order a = (st_bytes_reserved (ca_stats a) - st_bytes_reserved (ca_stats a'), a')
        \<and> st_bytes_reserved (ca_stats a') = st_bytes_allocated (ca_stats a)
        \<and> ca_live a' = ca_live a \<and> ca_free_lists a' = []
        \<and> (\<forall>p. owns (ca_upstream a') p =
              (if p \<in># image_mset fst (cached_blocks (ca_free_lists a)) then None else owns (ca_upstream a) p))"
    by (simp add: reserved freed_owns_def)
  moreover have "case CachingAllocator_destroy al order a of
        Inr u \<Rightarrow> ca_live a = [] \<and>
          (\<forall>p. owns u p = (if p \<in># image_mset fst (all_blocks {#} a) then None else owns (ca_upstream a) p))
      | Inl e \<Rightarrow> ca_live a \<noteq> [] \<and> e = CheckFailed"
  proof (cases "ca_live a = []")
    case True
    then obtain u where "CachingAllocator_destroy al order a = Inr u" "owns u = freed_owns owns a"
      using pooled.destroy_ok [OF pool inv] by blast
    then show ?thesis using True by (simp add: freed_owns_def all_blocks_def live_blocks_def)
  next
    case False
    then show ?thesis by (simp add: CachingAllocator_destroy_def)
  qed
  ultimately show ?thesis by blast
qed

text \<open>A size class is at least the request and at least 512 bytes, exceeds it by less than 512 bytes, than the
  request itself or than one mebibyte, whichever applies, never leaves \<open>size_t\<close>, is its own class, and is
  monotone in the request.\<close>

theorem size_class_bounds:
  assumes "0 < x" and "x \<le> y" and "y \<le> SIZE_MAX"
  shows "x \<le> SizeClass x \<and> kMinClassBytes \<le> SizeClass x \<and> SizeClass x \<le> SIZE_MAX
    \<and> SizeClass x < x + max kMinClassBytes (min x kLargeStepBytes)
    \<and> SizeClass (SizeClass x) = SizeClass x \<and> SizeClass x \<le> SizeClass y"
proof -
  have "x \<le> SIZE_MAX" using assms by simp
  then show ?thesis using SizeClass_spec SizeClass_idem SizeClass_mono assms by blast
qed

section \<open>Concrete pools\<close>

definition arena_pool :: "(Arena, CpuDeleter) CachingAllocator" where
  "arena_pool = \<lparr>ca_upstream = fresh_arena, ca_live = [], ca_free_lists = [],
     ca_stats = \<lparr>st_bytes_allocated = 0, st_bytes_reserved = 0, st_hit_count = 0, st_miss_count = 0\<rparr>\<rparr>"

definition one_block_pool :: "(Arena, CpuDeleter) CachingAllocator" where
  "one_block_pool =
     \<lparr>ca_upstream = \<lparr>arena_limit = 4096, arena_blocks = [(256, 1024)]\<rparr>,
      ca_live = [(256, \<lparr>lb_storage = \<lparr>buf_data = 256, buf_size = 1024, buf_device = Cpu, buf_deleter = Some StdFree\<rparr>,
                        lb_class_bytes = 1024\<rparr>)],
      ca_free_lists = [],
      ca_stats = \<lparr>st_bytes_allocated = 1024, st_bytes_reserved = 1024, st_hit_count = 0, st_miss_count = 1\<rparr>\<rparr>"

abbreviation arena_run :: "(Arena, CpuDeleter) CachingAllocator \<Rightarrow> bool" where
  "arena_run \<equiv> pool_run (cpu_allocator arena_system) (\<lambda>fls. fls) arena_owns"

lemma arena_pool_contract: "allocator_contract (cpu_allocator arena_system) arena_owns"
  by (rule system_allocator.cpu_contract [OF system_allocator.intro [OF arena_contract]])

lemma arena_pool_run: "arena_run arena_pool"
  by (rule pool_run.start [of fresh_arena]) (simp_all add: CachingAllocator_ctor_def arena_pool_def separate_fresh_arena)

lemma one_block_pool_step:
  "Caching_Allocate (cpu_allocator arena_system) (\<lambda>fls. fls) 600 64 arena_pool =
     (Inr \<lparr>buf_data = 256, buf_size = 600, buf_device = Cpu, buf_deleter = Some ReturnToPool\<rparr>, one_block_pool)"
  by code_simp

lemma one_block_pool_run: "arena_run one_block_pool"
  using pool_run.allocate [OF arena_pool_run, of 600 64] by (simp add: one_block_pool_step SIZE_MAX_def)

lemma IsPowerOfTwo_64: "IsPowerOfTwo 64"
  using IsPowerOfTwo_exp [of 6] by simp

theorem pool_accounting_witness:
  "st_bytes_reserved (ca_stats one_block_pool) = 1024 \<and> st_bytes_allocated (ca_stats one_block_pool) = 1024
   \<and> (\<exists>cap. 1024 \<le> cap \<and> arena_owns (ca_upstream one_block_pool) 256 = Some cap)"
  using pool_accounting [OF arena_pool_contract refl one_block_pool_run]
  by (auto simp: one_block_pool_def live_blocks_def all_blocks_def)

theorem pool_allocate_witness:
  "\<exists>b a. Caching_Allocate (cpu_allocator arena_system) (\<lambda>fls. fls) 600 64 one_block_pool = (Inr b, a)
     \<and> buf_size b = 600 \<and> 64 dvd buf_data b \<and> map_of (ca_live one_block_pool) (buf_data b) = None"
proof -
  have bound: "(600::int) \<le> SIZE_MAX" "(64::int) \<le> kMaxAlignment" by (simp_all add: SIZE_MAX_def kMaxAlignment_def)
  have "isl (fst (Caching_Allocate (cpu_allocator arena_system) (\<lambda>fls. fls) 600 64 one_block_pool)) = False" by code_simp
  then show ?thesis
    using pool_allocate [OF arena_pool_contract refl one_block_pool_run _ bound(1) IsPowerOfTwo_64 _ bound(2)]
    by (auto split: prod.splits sum.splits)
qed

theorem pool_free_then_hit_witness:
  "\<exists>a b. pool_delete ReturnToPool 256 one_block_pool = Inr a
     \<and> fst (Caching_Allocate (cpu_allocator arena_system) (\<lambda>fls. fls) 900 64 a) = Inr b \<and> buf_data b = 256"
proof -
  have bound: "(900::int) \<le> SIZE_MAX" "(64::int) \<le> kMaxAlignment" by (simp_all add: SIZE_MAX_def kMaxAlignment_def)
  obtain block where live: "map_of (ca_live one_block_pool) 256 = Some block" and size: "lb_class_bytes block = 1024"
    by (simp add: one_block_pool_def)
  obtain a where ret: "pool_delete ReturnToPool 256 one_block_pool = Inr a"
    by (simp add: pool_delete_def Caching_Return_def one_block_pool_def)
  have "SizeClass 900 = 1024" by code_simp
  then have "SizeClass 900 = lb_class_bytes block" by (simp only: size)
  from pool_free_then_hit [OF arena_pool_contract refl one_block_pool_run live ret _ bound(1) this IsPowerOfTwo_64 _ bound(2)]
  show ?thesis using ret by auto
qed

theorem pool_release_witness:
  "CachingAllocator_destroy (cpu_allocator arena_system) (\<lambda>fls. fls) one_block_pool = Inl CheckFailed"
  using pool_release [OF arena_pool_contract refl one_block_pool_run]
  by (auto simp: one_block_pool_def CachingAllocator_destroy_def)

theorem size_class_bounds_witness: "(600::int) \<le> SizeClass 600 \<and> SizeClass 600 \<le> SizeClass 5000"
  using size_class_bounds [of 600 5000] by (simp add: SIZE_MAX_def)

end
