(* ===== verification/Generator.thy ===== *)
theory Generator
  imports Engine_Pass
begin

text \<open>
  The single-sequence generation loop, \<open>src/src/engine/generator.{h,cpp}\<close>: checks up front, one prefill, then one
  forward per produced token, with the sampler, the stop checker and the callback in between. The model
  and the cache (abstract classes in the code) are parameters; \<open>'m\<close> is the model's state, \<open>'c\<close> the cache's.
  The calls of the callback are recorded in order. The vectors' \<open>reserve\<close> throws, and so aborts, beyond
  \<open>max_size()\<close> of libstdc++.
\<close>

section \<open>Data\<close>

record ('m, 'c) GenEnv =
  gm_forward :: "'m \<Rightarrow> ForwardRequest \<Rightarrow> 'c \<Rightarrow> Logits status_or \<times> 'm \<times> 'c"
  gm_length :: "'c \<Rightarrow> int"
  gm_capacity :: "'c \<Rightarrow> int"
  gm_sampler :: SamplerEnv
  gm_entropy :: "64 word"

record GenerateOptions =
  go_sampling :: SamplingParams
  go_eos_ids :: "int list"
  go_tokenizer :: "Tokenizer option"
  go_skip_special_tokens :: bool

record TokenEvent =
  te_id :: int
  te_text :: string
  te_logprobs :: "StepLogprobs option"

record GenerateResult =
  gr_tokens :: "int list"
  gr_finish_reason :: FinishReason
  gr_stop_trigger :: StopTrigger
  gr_matched_stop :: string
  gr_text :: string
  gr_logprobs :: "StepLogprobs list"

text \<open>The locals of the call, with the objects it was given.\<close>

record ('m, 'c) GenState =
  gs_model :: 'm
  gs_cache :: 'c
  gs_checker :: StopChecker
  gs_result :: GenerateResult
  gs_finished :: bool
  gs_events :: "TokenEvent list"

definition tokens_max_size :: int where
  "tokens_max_size = 2305843009213693951"

definition logprobs_max_size :: int where
  "logprobs_max_size = 288230376151711743"

text \<open>\<open>engine/backend.h\<close>: the names of the model's execution backends.\<close>

datatype Backend = kReference | kOptimized

definition BackendName :: "Backend \<Rightarrow> string" where
  "BackendName backend = (case backend of kReference \<Rightarrow> ''reference'' | kOptimized \<Rightarrow> ''optimized'')"

definition ParseBackend :: "string \<Rightarrow> Backend status_or" where
  "ParseBackend name =
     (if name = ''reference'' then Inr kReference else if name = ''optimized'' then Inr kOptimized else InvalidArgumentError)"

lemma ParseBackend_name: "ParseBackend name = Inr backend \<longleftrightarrow> name = BackendName backend"
  by (cases backend) (auto simp: ParseBackend_def BackendName_def)

section \<open>The loop\<close>

text \<open>The lambda \<open>consume\<close>: one row of logits becomes one produced token.\<close>

definition gen_consume ::
  "SamplerEnv \<Rightarrow> Sampler \<Rightarrow> int list \<Rightarrow> Float list \<Rightarrow> ('m, 'c) GenState \<Rightarrow> unit status_or \<times> ('m, 'c) GenState" where
  "gen_consume senv sampler prompt_ids logits g =
     (let res = gs_result g in
      case SampleWithLogprobs senv sampler logits \<lparr>sx_prompt_ids = prompt_ids, sx_generated_ids = gr_tokens res\<rparr> of
        Inl e \<Rightarrow> (Inl e, g)
      | Inr sampled \<Rightarrow>
          let res1 = res\<lparr>gr_tokens := gr_tokens res @ [smr_token sampled],
                         gr_logprobs := gr_logprobs res @ (case smr_logprobs sampled of None \<Rightarrow> [] | Some l \<Rightarrow> [l])\<rparr> in
          (case Observe (gs_checker g) (smr_token sampled) (int (length (gr_tokens res1))) of
             (Inl e, checker) \<Rightarrow> (Inl e, g\<lparr>gs_result := res1, gs_checker := checker\<rparr>)
           | (Inr step, checker) \<Rightarrow>
               let (residue, checker') = (if sr_finished step then StopChecker_Finish checker else ([], checker));
                   res2 = (if sr_finished step
                     then res1\<lparr>gr_finish_reason := sr_finish_reason step, gr_stop_trigger := sr_trigger step,
                               gr_matched_stop := sr_matched_stop step\<rparr>
                     else res1);
                   delta = sr_text_delta step @ residue in
               (Inr (), g\<lparr>gs_result := res2\<lparr>gr_text := gr_text res2 @ delta\<rparr>, gs_checker := checker',
                         gs_finished := gs_finished g \<or> sr_finished step,
                         gs_events := gs_events g @ [\<lparr>te_id = smr_token sampled, te_text = delta, te_logprobs = smr_logprobs sampled\<rparr>]\<rparr>)))"

text \<open>One forward over \<open>ids\<close> at \<open>positions\<close> and what is made of its last row.\<close>

definition gen_forward ::
  "('m, 'c) GenEnv \<Rightarrow> Sampler \<Rightarrow> int list \<Rightarrow> int list \<Rightarrow> int list \<Rightarrow> ('m, 'c) GenState \<Rightarrow> unit status_or \<times> ('m, 'c) GenState" where
  "gen_forward env sampler prompt_ids ids positions g =
     (case gm_forward env (gs_model g)
             \<lparr>fr_token_ids = ids, fr_positions = positions, fr_cu_seqlens = [], fr_logits_mode = kLast\<rparr> (gs_cache g) of
        (r, m, c) \<Rightarrow>
          let g1 = g\<lparr>gs_model := m, gs_cache := c\<rparr> in
          case r of
            Inl e \<Rightarrow> (Inl e, g1)
          | Inr logits \<Rightarrow>
              (case LastRow logits of
                 Inl e \<Rightarrow> (Inl e, g1)
               | Inr xs \<Rightarrow> gen_consume (gm_sampler env) sampler prompt_ids xs g1))"

text \<open>The body of the decode loop.\<close>

definition gen_decode_step ::
  "('m, 'c) GenEnv \<Rightarrow> Sampler \<Rightarrow> int list \<Rightarrow> ('m, 'c) GenState \<Rightarrow> unit status_or \<times> ('m, 'c) GenState" where
  "gen_decode_step env sampler prompt_ids g =
     (if gr_tokens (gs_result g) = [] then (Inl OutOfBounds, g)
      else gen_forward env sampler prompt_ids [last (gr_tokens (gs_result g))] [int32_cast (gm_length env (gs_cache g))] g)"

text \<open>What the checker may still let through: it finishes the stream at its bound.\<close>

definition gen_left :: "('m, 'c) GenState \<Rightarrow> nat" where
  "gen_left g = nat (sc_max_tokens (gs_checker g) - int (length (gr_tokens (gs_result g))))"

lemma gen_consume_cases:
  assumes "gen_consume senv sampler prompt_ids xs g = (r, g')"
  obtains (sampling) e where "r = Inl e" "g' = g"
      "SampleWithLogprobs senv sampler xs \<lparr>sx_prompt_ids = prompt_ids, sx_generated_ids = gr_tokens (gs_result g)\<rparr> = Inl e"
    | (observing) sampled e checker where "r = Inl e" "gs_cache g' = gs_cache g" "gs_model g' = gs_model g" "gs_events g' = gs_events g"
      "SampleWithLogprobs senv sampler xs \<lparr>sx_prompt_ids = prompt_ids, sx_generated_ids = gr_tokens (gs_result g)\<rparr> = Inr sampled"
      "Observe (gs_checker g) (smr_token sampled) (int (length (gr_tokens (gs_result g))) + 1) = (Inl e, checker)"
    | (token) sampled step checker residue checker' where
      "SampleWithLogprobs senv sampler xs \<lparr>sx_prompt_ids = prompt_ids, sx_generated_ids = gr_tokens (gs_result g)\<rparr> = Inr sampled"
      "Observe (gs_checker g) (smr_token sampled) (int (length (gr_tokens (gs_result g))) + 1) = (Inr step, checker)"
      "(if sr_finished step then StopChecker_Finish checker else ([], checker)) = (residue, checker')"
      "r = Inr ()" "gs_checker g' = checker'" "gs_finished g' \<longleftrightarrow> gs_finished g \<or> sr_finished step"
      "gs_cache g' = gs_cache g" "gs_model g' = gs_model g"
      "gr_tokens (gs_result g') = gr_tokens (gs_result g) @ [smr_token sampled]"
      "gr_text (gs_result g') = gr_text (gs_result g) @ sr_text_delta step @ residue"
      "gr_logprobs (gs_result g') = gr_logprobs (gs_result g) @ (case smr_logprobs sampled of None \<Rightarrow> [] | Some l \<Rightarrow> [l])"
      "gs_events g' = gs_events g @ [\<lparr>te_id = smr_token sampled, te_text = sr_text_delta step @ residue, te_logprobs = smr_logprobs sampled\<rparr>]"
      "sr_finished step \<Longrightarrow> gr_stop_trigger (gs_result g') = sr_trigger step"
      "sr_finished step \<Longrightarrow> gr_finish_reason (gs_result g') = sr_finish_reason step"
proof (cases "SampleWithLogprobs senv sampler xs \<lparr>sx_prompt_ids = prompt_ids, sx_generated_ids = gr_tokens (gs_result g)\<rparr>")
  case (Inl e)
  then show thesis using sampling [of e] assms by (auto simp: gen_consume_def)
next
  case (Inr sampled)
  obtain x checker where ob: "Observe (gs_checker g) (smr_token sampled) (int (length (gr_tokens (gs_result g))) + 1) = (x, checker)"
    by force
  show thesis
  proof (cases x)
    case (Inl e)
    then show thesis using observing [of e sampled checker] assms Inr ob by (auto simp: gen_consume_def Let_def add.commute)
  next
    case step: (Inr step)
    obtain residue checker' where fin: "(if sr_finished step then StopChecker_Finish checker else ([], checker)) = (residue, checker')"
      by force
    show thesis
      by (rule token [OF Inr ob [unfolded step] fin])
        (use assms Inr ob step fin in \<open>auto simp: gen_consume_def Let_def add.commute split: if_splits\<close>)
  qed
qed

text \<open>The checker's bound stays, and a token that does not finish the stream is below it.\<close>

lemma gen_consume_left:
  assumes "gen_consume senv sampler prompt_ids xs g = (Inr u, g')"
  shows "sc_max_tokens (gs_checker g') = sc_max_tokens (gs_checker g)
    \<and> (gs_finished g' \<or> int (length (gr_tokens (gs_result g'))) < sc_max_tokens (gs_checker g))
    \<and> length (gr_tokens (gs_result g')) = Suc (length (gr_tokens (gs_result g)))"
  using assms
proof (cases rule: gen_consume_cases)
  case (token sampled step checker residue checker')
  have c: "sc_max_tokens checker = sc_max_tokens (gs_checker g)"
    "sr_finished step \<or> int (length (gr_tokens (gs_result g))) + 1 < sc_max_tokens (gs_checker g)"
    using Observe_cases_count [OF token(2)] by auto
  have "sc_max_tokens checker' = sc_max_tokens checker"
    using token(3) by (auto dest: StopChecker_Finish_max split: if_splits)
  then show ?thesis using c token by auto
qed auto

lemma gen_forward_Inr:
  assumes "gen_forward env sampler prompt_ids ids ps g = (Inr u, g')"
  obtains m c logits xs where
    "gm_forward env (gs_model g) \<lparr>fr_token_ids = ids, fr_positions = ps, fr_cu_seqlens = [], fr_logits_mode = kLast\<rparr> (gs_cache g)
      = (Inr logits, m, c)"
    "LastRow logits = Inr xs"
    "gen_consume (gm_sampler env) sampler prompt_ids xs (g\<lparr>gs_model := m, gs_cache := c\<rparr>) = (Inr u, g')"
  using assms by (auto simp: gen_forward_def Let_def split: prod.splits sum.splits)

lemma gen_forward_left:
  assumes "gen_forward env sampler prompt_ids ids ps g = (Inr u, g')"
  shows "sc_max_tokens (gs_checker g') = sc_max_tokens (gs_checker g)
    \<and> (gs_finished g' \<or> int (length (gr_tokens (gs_result g'))) < sc_max_tokens (gs_checker g))
    \<and> length (gr_tokens (gs_result g')) = Suc (length (gr_tokens (gs_result g)))"
  using assms by (rule gen_forward_Inr) (use gen_consume_left in force)

lemma gen_decode_step_left:
  assumes "gen_decode_step env sampler prompt_ids g = (Inr u, g')" and "\<not> gs_finished g'"
  shows "gen_left g' < gen_left g"
proof -
  have "gen_forward env sampler prompt_ids [last (gr_tokens (gs_result g))] [int32_cast (gm_length env (gs_cache g))] g = (Inr u, g')"
    using assms(1) by (simp add: gen_decode_step_def split: if_splits)
  from gen_forward_left [OF this] show ?thesis using assms(2) by (auto simp: gen_left_def)
qed

text \<open>The decode loop ends: every round that does not finish the stream leaves less to produce.\<close>

function gen_decode ::
  "('m, 'c) GenEnv \<Rightarrow> Sampler \<Rightarrow> int list \<Rightarrow> ('m, 'c) GenState \<Rightarrow> unit status_or \<times> ('m, 'c) GenState" where
  "gen_decode env sampler prompt_ids g =
     (if gs_finished g then (Inr (), g)
      else case gen_decode_step env sampler prompt_ids g of
          (Inl e, g') \<Rightarrow> (Inl e, g')
        | (Inr u, g') \<Rightarrow> gen_decode env sampler prompt_ids g')"
  by pat_completeness auto

termination
proof (relation "measure (\<lambda>(env, sampler, prompt_ids, g). if gs_finished g then 0 else Suc (gen_left g))", goal_cases)
  case (2 env sampler prompt_ids g x y u)
  then show ?case using gen_decode_step_left [of env sampler prompt_ids g u y] by auto
qed simp

declare gen_decode.simps [simp del]

section \<open>The call\<close>

definition generate_peak :: "int \<Rightarrow> int list \<Rightarrow> SamplingParams \<Rightarrow> int" where
  "generate_peak start prompt_ids params = int64_wrap (start + int (length prompt_ids) + (max_tokens params - 1))"

definition start_positions :: "int \<Rightarrow> int list \<Rightarrow> int list" where
  "start_positions start prompt_ids = map (\<lambda>t. int32_cast (start + int t)) [0..<length prompt_ids]"

definition gen_init :: "'m \<Rightarrow> 'c \<Rightarrow> StopChecker \<Rightarrow> ('m, 'c) GenState" where
  "gen_init m c checker =
     \<lparr>gs_model = m, gs_cache = c, gs_checker = checker,
      gs_result = \<lparr>gr_tokens = [], gr_finish_reason = FinishReason_kLength, gr_stop_trigger = StopTrigger.kNone,
                   gr_matched_stop = [], gr_text = [], gr_logprobs = []\<rparr>,
      gs_finished = False, gs_events = []\<rparr>"

text \<open>The prefill and the decode loop.\<close>

definition gen_run ::
  "('m, 'c) GenEnv \<Rightarrow> Sampler \<Rightarrow> int list \<Rightarrow> ('m, 'c) GenState \<Rightarrow> unit status_or \<times> ('m, 'c) GenState" where
  "gen_run env sampler prompt_ids g =
     (case gen_forward env sampler prompt_ids prompt_ids (start_positions (gm_length env (gs_cache g)) prompt_ids) g of
        (Inl e, g') \<Rightarrow> (Inl e, g')
      | (Inr u, g') \<Rightarrow> gen_decode env sampler prompt_ids g')"

definition Generate ::
  "('m, 'c) GenEnv \<Rightarrow> GenerateOptions \<Rightarrow> int list \<Rightarrow> 'm \<Rightarrow> 'c \<Rightarrow> GenerateResult status_or \<times> 'm \<times> 'c \<times> TokenEvent list" where
  "Generate env options prompt_ids m c =
     (if prompt_ids = [] then (InvalidArgumentError, m, c, [])
      else case Sampler_Create (gm_entropy env) (go_sampling options) of
        Inl e \<Rightarrow> (Inl e, m, c, [])
      | Inr sampler \<Rightarrow>
      (case StopChecker_Create (go_sampling options) (go_eos_ids options) (go_tokenizer options) (go_skip_special_tokens options) of
        Inl e \<Rightarrow> (Inl e, m, c, [])
      | Inr checker \<Rightarrow>
          if gm_capacity env c < generate_peak (gm_length env c) prompt_ids (smp_params sampler)
          then (ResourceExhaustedError, m, c, [])
          else if tokens_max_size < max_tokens (smp_params sampler)
            \<or> (0 < logprobs (smp_params sampler) \<and> logprobs_max_size < max_tokens (smp_params sampler))
          then (Inl CheckFailed, m, c, [])
          else
            (case gen_run env sampler prompt_ids (gen_init m c checker) of
               (Inl e, g) \<Rightarrow> (Inl e, gs_model g, gs_cache g, gs_events g)
             | (Inr u, g) \<Rightarrow> (Inr (gs_result g), gs_model g, gs_cache g, gs_events g))))"

section \<open>What the loop keeps\<close>

definition event_logprobs :: "TokenEvent list \<Rightarrow> StepLogprobs list" where
  "event_logprobs events = concat (map (\<lambda>ev. case te_logprobs ev of None \<Rightarrow> [] | Some l \<Rightarrow> [l]) events)"

text \<open>The stream so far, against the checker \<open>sc\<close> run over the tokens produced.\<close>

definition streamed :: "StopChecker \<Rightarrow> ('m, 'c) GenState \<Rightarrow> bool" where
  "streamed sc g \<longleftrightarrow>
     map te_id (gs_events g) = gr_tokens (gs_result g) \<and>
     concat (map te_text (gs_events g)) = gr_text (gs_result g) \<and>
     gr_logprobs (gs_result g) = event_logprobs (gs_events g) \<and>
     sc_max_tokens (gs_checker g) = sc_max_tokens sc \<and>
     (if gs_finished g then
        int (length (gr_tokens (gs_result g))) \<le> sc_max_tokens sc \<and>
        (gr_finish_reason (gs_result g) = FinishReason_kLength \<longleftrightarrow> gr_stop_trigger (gs_result g) = kMaxTokens) \<and>
        (\<exists>e sc'. observe_all sc (gr_tokens (gs_result g)) 0
             = (Inr (e, length (gr_tokens (gs_result g)), gr_stop_trigger (gs_result g)), sc')
           \<and> gr_text (gs_result g) = e @ fst (StopChecker_Finish sc') \<and> gr_stop_trigger (gs_result g) \<noteq> StopTrigger.kNone)
      else
        int (length (gr_tokens (gs_result g))) < sc_max_tokens sc \<and>
        observe_all sc (gr_tokens (gs_result g)) 0
          = (Inr (gr_text (gs_result g), length (gr_tokens (gs_result g)), StopTrigger.kNone), gs_checker g))"

lemma Observe_trigger:
  assumes "Observe sc tid k = (Inr r, sc')"
  shows "(sr_finished r \<longleftrightarrow> sr_trigger r \<noteq> StopTrigger.kNone)
    \<and> (sr_finished r \<longrightarrow> (sr_finish_reason r = FinishReason_kLength \<longleftrightarrow> sr_trigger r = kMaxTokens))"
  using assms by (auto simp: Observe_def Let_def split: prod.splits sum.splits option.splits if_splits)

lemma observe_all_snoc:
  assumes "observe_all sc tids n = (Inr (e, m, StopTrigger.kNone), sc1)"
    and "Observe sc1 tid (int (n + length tids) + 1) = (Inr r, sc2)"
  shows "observe_all sc (tids @ [tid]) n = (Inr (e @ sr_text_delta r, Suc (n + length tids), sr_trigger r), sc2)"
  using assms
proof (induction tids arbitrary: sc n e)
  case Nil
  then show ?case using Observe_trigger [OF Nil(2)] by auto
next
  case (Cons t tids)
  obtain x sc0 where x: "Observe sc t (int n + 1) = (x, sc0)" by force
  show ?case
  proof (cases x)
    case (Inl err)
    then show ?thesis using Cons.prems(1) x by simp
  next
    case (Inr r0)
    have "\<not> sr_finished r0" using Cons.prems(1) x Inr Observe_trigger [of sc t "int n + 1" r0 sc0] by auto
    obtain y sc3 where y: "observe_all sc0 tids (Suc n) = (y, sc3)" by force
    obtain e' where e': "y = Inr (e', m, StopTrigger.kNone)" "e = sr_text_delta r0 @ e'" "sc3 = sc1"
      using Cons.prems(1) x Inr \<open>\<not> sr_finished r0\<close> y by (cases y) auto
    have "observe_all sc0 (tids @ [tid]) (Suc n) = (Inr (e' @ sr_text_delta r, Suc (Suc n + length tids), sr_trigger r), sc2)"
      using Cons.IH [of sc0 "Suc n" e'] y e' Cons.prems(2) by (simp add: algebra_simps)
    then show ?thesis using x Inr \<open>\<not> sr_finished r0\<close> e'(2) by simp
  qed
qed

lemma consume_streamed:
  assumes st: "streamed sc g" and run: "\<not> gs_finished g" and c: "gen_consume senv sampler prompt_ids xs g = (Inr u, g')"
  shows "streamed sc g'"
  using c
proof (cases rule: gen_consume_cases)
  case (token sampled step checker residue checker')
  let ?ts = "gr_tokens (gs_result g)"
  have ob: "observe_all sc ?ts 0 = (Inr (gr_text (gs_result g), length ?ts, StopTrigger.kNone), gs_checker g)"
    using st run by (simp add: streamed_def)
  have "observe_all sc (?ts @ [smr_token sampled]) 0
      = (Inr (gr_text (gs_result g) @ sr_text_delta step, Suc (length ?ts), sr_trigger step), checker)"
    using observe_all_snoc [OF ob] token(2) by (simp add: add.commute)
  moreover note Observe_trigger [OF token(2)] Observe_cases_count [OF token(2)] gen_consume_left [OF c]
  ultimately show ?thesis
    using st run token by (auto simp: streamed_def event_logprobs_def split: if_splits)
qed auto

text \<open>The contract of the model and the cache: a forward at the cache's end, with room for its tokens, appends them
  and answers with logits, or fails with a status and writes nothing.\<close>

definition gen_contract :: "('m, 'c) GenEnv \<Rightarrow> ('c \<Rightarrow> bool) \<Rightarrow> bool" where
  "gen_contract env cache_ok \<longleftrightarrow>
     (\<forall>m ids c. cache_ok c \<longrightarrow> ids \<noteq> [] \<longrightarrow> gm_length env c + int (length ids) \<le> gm_capacity env c \<longrightarrow>
        (case gm_forward env m \<lparr>fr_token_ids = ids, fr_positions = start_positions (gm_length env c) ids,
               fr_cu_seqlens = [], fr_logits_mode = kLast\<rparr> c of
           (Inr (extents, vals), m', c') \<Rightarrow> extents \<noteq> [] \<and> 0 < last extents \<and> cache_ok c'
             \<and> gm_length env c' = gm_length env c + int (length ids) \<and> gm_capacity env c' = gm_capacity env c
         | (Inl e, m', c') \<Rightarrow> (\<exists>code. e = Status code) \<and> cache_ok c'
             \<and> gm_length env c' = gm_length env c \<and> gm_capacity env c' = gm_capacity env c))"

text \<open>A forward and its token, from a state whose stream is running.\<close>

lemma gen_forward_ok:
  assumes con: "gen_contract env cache_ok" and c: "cache_ok (gs_cache g)" and ids: "ids \<noteq> []"
    and fits: "gm_length env (gs_cache g) + int (length ids) \<le> gm_capacity env (gs_cache g)"
    and safe: "params_safe (smp_params sampler)" and st: "streamed sc g" "\<not> gs_finished g"
  shows "case gen_forward env sampler prompt_ids ids (start_positions (gm_length env (gs_cache g)) ids) g of
      (Inr u, g') \<Rightarrow> streamed sc g' \<and> cache_ok (gs_cache g')
        \<and> length (gr_tokens (gs_result g')) = Suc (length (gr_tokens (gs_result g)))
        \<and> gm_length env (gs_cache g') = gm_length env (gs_cache g) + int (length ids)
        \<and> gm_capacity env (gs_cache g') = gm_capacity env (gs_cache g)
    | (Inl e, g') \<Rightarrow> (\<exists>code. e = Status code) \<and> cache_ok (gs_cache g') \<and> gs_events g' = gs_events g
        \<and> gm_length env (gs_cache g') \<in> {gm_length env (gs_cache g), gm_length env (gs_cache g) + int (length ids)}
        \<and> gm_capacity env (gs_cache g') = gm_capacity env (gs_cache g)"
proof -
  let ?req = "\<lparr>fr_token_ids = ids, fr_positions = start_positions (gm_length env (gs_cache g)) ids,
               fr_cu_seqlens = [], fr_logits_mode = kLast\<rparr>"
  obtain r m c' where f: "gm_forward env (gs_model g) ?req (gs_cache g) = (r, m, c')" by (metis prod_cases3)
  have spec: "case r of Inr (extents, vals) \<Rightarrow> extents \<noteq> [] \<and> 0 < last extents \<and> cache_ok c'
             \<and> gm_length env c' = gm_length env (gs_cache g) + int (length ids) \<and> gm_capacity env c' = gm_capacity env (gs_cache g)
         | Inl e \<Rightarrow> (\<exists>code. e = Status code) \<and> cache_ok c'
             \<and> gm_length env c' = gm_length env (gs_cache g) \<and> gm_capacity env c' = gm_capacity env (gs_cache g)"
    using con [unfolded gen_contract_def, rule_format, OF c ids fits, of "gs_model g"] f by (cases r) simp_all
  show ?thesis
  proof (cases r)
    case (Inl e)
    then show ?thesis using spec f by (simp add: gen_forward_def Let_def)
  next
    case (Inr logits)
    obtain extents vals where lg: "logits = (extents, vals)" by force
    obtain xs where xs: "LastRow logits = Inr xs" using LastRow_ok [of extents vals] spec Inr lg by auto
    let ?g = "g\<lparr>gs_model := m, gs_cache := c'\<rparr>"
    obtain r2 g2 where con2: "gen_consume (gm_sampler env) sampler prompt_ids xs ?g = (r2, g2)" by force
    have run: "gen_forward env sampler prompt_ids ids (start_positions (gm_length env (gs_cache g)) ids) g = (r2, g2)"
      using f Inr xs con2 by (simp add: gen_forward_def Let_def)
    have st': "streamed sc ?g" "\<not> gs_finished ?g" using st by (simp_all add: streamed_def)
    have spec': "cache_ok c'" "gm_length env c' = gm_length env (gs_cache g) + int (length ids)"
      "gm_capacity env c' = gm_capacity env (gs_cache g)" using spec Inr lg by simp_all
    from con2 show ?thesis
    proof (cases rule: gen_consume_cases)
      case (sampling e)
      then show ?thesis using sample_safe [OF safe sampling(3)] spec' run by simp
    next
      case (observing sampled e checker)
      then show ?thesis using Observe_cases_count [OF observing(6)] spec' run by simp
    next
      case (token sampled step checker residue checker')
      then show ?thesis using consume_streamed [OF st'] con2 spec' run gen_consume_left [of _ _ _ _ ?g "()" g2] by simp
    qed
  qed
qed

lemma gen_decode_ok:
  assumes "gen_contract env cache_ok" and "params_safe (smp_params sampler)" and "cache_ok (gs_cache g)" and "streamed sc g"
    and "gr_tokens (gs_result g) \<noteq> []"
    and "gm_length env (gs_cache g) = base + int (length (gr_tokens (gs_result g))) - 1"
    and "gm_capacity env (gs_cache g) = cap" and "base + sc_max_tokens sc - 1 \<le> cap"
  shows "case gen_decode env sampler prompt_ids g of
      (Inr u, g') \<Rightarrow> gs_finished g' \<and> streamed sc g' \<and> cache_ok (gs_cache g') \<and> gr_tokens (gs_result g') \<noteq> []
        \<and> gm_length env (gs_cache g') = base + int (length (gr_tokens (gs_result g'))) - 1
        \<and> gm_capacity env (gs_cache g') = cap
    | (Inl e, g') \<Rightarrow> (\<exists>code. e = Status code) \<and> cache_ok (gs_cache g') \<and> gs_events g' \<noteq> []
        \<and> gm_length env (gs_cache g') \<in> {base + int (length (gs_events g')) - 1, base + int (length (gs_events g'))}
        \<and> gm_capacity env (gs_cache g') = cap"
  using assms
proof (induction env sampler prompt_ids g rule: gen_decode.induct)
  case (1 env sampler prompt_ids g)
  show ?case
  proof (cases "gs_finished g")
    case True
    then show ?thesis using 1 by (simp add: gen_decode.simps)
  next
    case False
    let ?ts = "gr_tokens (gs_result g)"
    have lt: "int (length ?ts) < sc_max_tokens sc" and ev: "length (gs_events g) = length ?ts"
      using 1(5) False by (auto simp: streamed_def dest: arg_cong [where f = length])
    have step: "gen_decode_step env sampler prompt_ids g
        = gen_forward env sampler prompt_ids [last ?ts] (start_positions (gm_length env (gs_cache g)) [last ?ts]) g"
      using 1(6) by (simp add: gen_decode_step_def start_positions_def)
    have fits: "gm_length env (gs_cache g) + int (length [last ?ts]) \<le> gm_capacity env (gs_cache g)"
      using lt 1(7,8,9) by simp
    obtain r g1 where r: "gen_decode_step env sampler prompt_ids g = (r, g1)" by force
    have ok: "case r of
        Inr u \<Rightarrow> streamed sc g1 \<and> cache_ok (gs_cache g1) \<and> length (gr_tokens (gs_result g1)) = Suc (length ?ts)
          \<and> gm_length env (gs_cache g1) = gm_length env (gs_cache g) + 1
          \<and> gm_capacity env (gs_cache g1) = gm_capacity env (gs_cache g)
      | Inl e \<Rightarrow> (\<exists>code. e = Status code) \<and> cache_ok (gs_cache g1) \<and> gs_events g1 = gs_events g
          \<and> gm_length env (gs_cache g1) \<in> {gm_length env (gs_cache g), gm_length env (gs_cache g) + 1}
          \<and> gm_capacity env (gs_cache g1) = gm_capacity env (gs_cache g)"
      using gen_forward_ok [OF 1(2) 1(4) _ fits 1(3) 1(5) False, of prompt_ids] r step by (simp split: sum.splits)
    show ?thesis
    proof (cases r)
      case (Inl e)
      then show ?thesis using ok r False ev 1(6-8) by (auto simp: gen_decode.simps)
    next
      case (Inr u)
      then have "gr_tokens (gs_result g1) \<noteq> []" using ok by auto
      then show ?thesis using 1(1) [OF False r [symmetric] Inr] 1(2-) ok r False Inr by (simp add: gen_decode.simps)
    qed
  qed
qed

text \<open>\<open>Generate\<close> once the checks up front have passed.\<close>

lemma generate_admitted:
  assumes con: "gen_contract env cache_ok" and c: "cache_ok c" and start: "0 \<le> gm_length env c"
    and safe: "params_safe (go_sampling options)" and prompt: "prompt_ids \<noteq> []"
    and sampler: "Sampler_Create (gm_entropy env) (go_sampling options) = Inr sampler"
    and checker: "StopChecker_Create (go_sampling options) (go_eos_ids options) (go_tokenizer options)
        (go_skip_special_tokens options) = Inr sc"
    and peak: "generate_peak (gm_length env c) prompt_ids (go_sampling options)
        = gm_length env c + int (length prompt_ids) + (max_tokens (go_sampling options) - 1)"
    and cap: "gm_length env c + int (length prompt_ids) + max_tokens (go_sampling options) - 1 \<le> gm_capacity env c"
    and size: "max_tokens (go_sampling options) \<le> logprobs_max_size"
  shows "case Generate env options prompt_ids m c of
      (Inr res, m', c', events) \<Rightarrow>
        gr_tokens res \<noteq> [] \<and> int (length (gr_tokens res)) \<le> max_tokens (go_sampling options)
        \<and> map te_id events = gr_tokens res \<and> concat (map te_text events) = gr_text res
        \<and> gr_logprobs res = event_logprobs events
        \<and> (\<exists>sc e sc'. StopChecker_Create (go_sampling options) (go_eos_ids options) (go_tokenizer options)
              (go_skip_special_tokens options) = Inr sc
            \<and> observe_all sc (gr_tokens res) 0 = (Inr (e, length (gr_tokens res), gr_stop_trigger res), sc')
            \<and> gr_text res = e @ fst (StopChecker_Finish sc'))
        \<and> gr_stop_trigger res \<noteq> StopTrigger.kNone
        \<and> (gr_finish_reason res = FinishReason_kLength \<longleftrightarrow> gr_stop_trigger res = kMaxTokens)
        \<and> gm_length env c' = gm_length env c + int (length prompt_ids) + int (length (gr_tokens res)) - 1
        \<and> gm_length env c' \<le> gm_capacity env c' \<and> gm_capacity env c' = gm_capacity env c \<and> cache_ok c'
    | (Inl err, m', c', events) \<Rightarrow>
        (\<exists>code. err = Status code) \<and> cache_ok c' \<and> gm_capacity env c' = gm_capacity env c
        \<and> (events \<noteq> [] \<longrightarrow> gm_length env c' \<in>
              {gm_length env c + int (length prompt_ids) + int (length events) - 1,
               gm_length env c + int (length prompt_ids) + int (length events)})"
proof -
  let ?base = "gm_length env c + int (length prompt_ids)"
  have v: "ValidateSamplingParams (go_sampling options) = Inr ()" and sp: "smp_params sampler = go_sampling options"
    using sampler by (auto simp: Sampler_Create_def elim!: bind_okE)
  note mt = valid_params(1) [OF v]
  have mx: "sc_max_tokens sc = max_tokens (go_sampling options)"
    using checker by (auto simp: StopChecker_Create_def split: if_splits)
  let ?g0 = "gen_init m c sc"
  have st: "streamed sc ?g0" "\<not> gs_finished ?g0" using mt mx by (simp_all add: streamed_def gen_init_def event_logprobs_def)
  have fits: "gm_length env (gs_cache ?g0) + int (length prompt_ids) \<le> gm_capacity env (gs_cache ?g0)"
    using cap mt by (simp add: gen_init_def)
  obtain r g where r: "gen_forward env sampler prompt_ids prompt_ids (start_positions (gm_length env c) prompt_ids) ?g0 = (r, g)"
    by force
  have ok: "case r of
      Inr u \<Rightarrow> streamed sc g \<and> cache_ok (gs_cache g) \<and> length (gr_tokens (gs_result g)) = 1
        \<and> gm_length env (gs_cache g) = ?base \<and> gm_capacity env (gs_cache g) = gm_capacity env c
    | Inl e \<Rightarrow> (\<exists>code. e = Status code) \<and> cache_ok (gs_cache g) \<and> gs_events g = []
        \<and> gm_capacity env (gs_cache g) = gm_capacity env c"
    using gen_forward_ok [OF con _ prompt fits _ st, of sampler prompt_ids] c safe r sp
    by (simp add: gen_init_def split: sum.splits)
  have run: "Generate env options prompt_ids m c =
      (case r of Inl e \<Rightarrow> (Inl e, gs_model g, gs_cache g, gs_events g)
       | Inr u \<Rightarrow> (case gen_decode env sampler prompt_ids g of
              (Inl e, g') \<Rightarrow> (Inl e, gs_model g', gs_cache g', gs_events g')
            | (Inr u, g') \<Rightarrow> (Inr (gs_result g'), gs_model g', gs_cache g', gs_events g')))"
    using prompt sampler checker cap peak size sp r
    by (simp add: Generate_def gen_run_def gen_init_def tokens_max_size_def logprobs_max_size_def split: sum.splits prod.splits)
  show ?thesis
  proof (cases r)
    case (Inl e)
    then show ?thesis using ok by (simp add: run)
  next
    case (Inr u)
    obtain r2 g2 where r2: "gen_decode env sampler prompt_ids g = (r2, g2)" by force
    have "gr_tokens (gs_result g) \<noteq> []" "gm_length env (gs_cache g) = ?base + int (length (gr_tokens (gs_result g))) - 1"
      "params_safe (smp_params sampler)" "?base + sc_max_tokens sc - 1 \<le> gm_capacity env c"
      using ok Inr safe sp cap mx by auto
    from gen_decode_ok [OF con this(3) _ _ this(1,2) _ this(4), of prompt_ids] ok Inr r2
    have dec: "case r2 of
        Inr u \<Rightarrow> gs_finished g2 \<and> streamed sc g2 \<and> cache_ok (gs_cache g2) \<and> gr_tokens (gs_result g2) \<noteq> []
          \<and> gm_length env (gs_cache g2) = ?base + int (length (gr_tokens (gs_result g2))) - 1
          \<and> gm_capacity env (gs_cache g2) = gm_capacity env c
      | Inl e \<Rightarrow> (\<exists>code. e = Status code) \<and> cache_ok (gs_cache g2) \<and> gs_events g2 \<noteq> []
          \<and> gm_length env (gs_cache g2) \<in> {?base + int (length (gs_events g2)) - 1, ?base + int (length (gs_events g2))}
          \<and> gm_capacity env (gs_cache g2) = gm_capacity env c"
      by (simp split: sum.splits)
    show ?thesis
    proof (cases r2)
      case (Inl e)
      then show ?thesis using dec Inr r2 by (simp add: run)
    next
      case u2: (Inr u2)
      then have fin: "gs_finished g2" "streamed sc g2" and len: "gm_length env (gs_cache g2) = ?base + int (length (gr_tokens (gs_result g2))) - 1"
        and rest: "cache_ok (gs_cache g2)" "gr_tokens (gs_result g2) \<noteq> []" "gm_capacity env (gs_cache g2) = gm_capacity env c"
        using dec by simp_all
      have bound: "int (length (gr_tokens (gs_result g2))) \<le> max_tokens (go_sampling options)"
        using fin by (simp add: streamed_def mx)
      have eq: "Generate env options prompt_ids m c = (Inr (gs_result g2), gs_model g2, gs_cache g2, gs_events g2)"
        using Inr r2 u2 by (simp add: run)
      show ?thesis unfolding eq using fin len rest bound checker cap by (auto simp: streamed_def)
    qed
  qed
qed

section \<open>Stopping and going on\<close>

text \<open>Without a tokenizer the checker only compares ids and counts.\<close>

definition plain_checker :: "StopChecker \<Rightarrow> bool" where
  "plain_checker sc \<longleftrightarrow> sc_detok sc = None \<and> sm_stops (sc_matcher sc) = [] \<and> sm_held (sc_matcher sc) = []"

definition same_ids :: "StopChecker \<Rightarrow> StopChecker \<Rightarrow> bool" where
  "same_ids sc sc' \<longleftrightarrow> sc_eos_ids sc' = sc_eos_ids sc \<and> sc_stop_token_ids sc' = sc_stop_token_ids sc"

definition plain_trigger :: "StopChecker \<Rightarrow> int \<Rightarrow> int \<Rightarrow> StopTrigger" where
  "plain_trigger sc tid k =
     (if IsEos sc tid then kEosId else if IsStopTokenId sc tid then kStopTokenId
      else if sc_max_tokens sc \<le> k then kMaxTokens else StopTrigger.kNone)"

lemma plain_Observe:
  assumes "plain_checker sc"
  obtains r sc' where "Observe sc tid k = (Inr r, sc')" "plain_checker sc'" "same_ids sc sc'" "sc_max_tokens sc' = sc_max_tokens sc"
    "sr_text_delta r = []" "sr_matched_stop r = []" "sr_trigger r = plain_trigger sc tid k"
    "sr_finished r \<longleftrightarrow> plain_trigger sc tid k \<noteq> StopTrigger.kNone"
    "sr_finish_reason r = (if IsEos sc tid \<or> IsStopTokenId sc tid then FinishReason_kStop else FinishReason_kLength)"
proof -
  have ot: "observe_text sc tid = (Inr [], sc)" using assms by (simp add: observe_text_def plain_checker_def)
  have fl: "Flush (sc_matcher sc) = ([], (sc_matcher sc)\<lparr>sm_held := []\<rparr>)" using assms by (simp add: Flush_def plain_checker_def)
  have hs: "\<not> has_stops (sc_matcher sc)" using assms by (simp add: has_stops_def plain_checker_def)
  show thesis
  proof (cases "IsEos sc tid \<or> IsStopTokenId sc tid")
    case True
    let ?t = "if IsEos sc tid then kEosId else kStopTokenId"
    let ?r = "\<lparr>sr_text_delta = [], sr_finished = True, sr_finish_reason = FinishReason_kStop, sr_trigger = ?t, sr_matched_stop = []\<rparr>"
    have "Observe sc tid k = (Inr ?r, sc\<lparr>sc_matcher := (sc_matcher sc)\<lparr>sm_held := []\<rparr>, sc_trigger := ?t\<rparr>)"
      using True by (elim disjE) (simp_all add: Observe_def ot fl Let_def)
    then show thesis by (rule that) (use True assms in \<open>auto simp: plain_checker_def same_ids_def plain_trigger_def\<close>)
  next
    case False
    let ?t = "if sc_max_tokens sc \<le> k then kMaxTokens else StopTrigger.kNone"
    let ?r = "\<lparr>sr_text_delta = [], sr_finished = (sc_max_tokens sc \<le> k), sr_finish_reason = FinishReason_kLength,
        sr_trigger = ?t, sr_matched_stop = []\<rparr>"
    have "Observe sc tid k = (Inr ?r, if sc_max_tokens sc \<le> k then sc\<lparr>sc_trigger := kMaxTokens\<rparr> else sc)"
      using False by (simp add: Observe_def ot hs Let_def)
    then show thesis by (rule that) (use False assms in \<open>auto simp: plain_checker_def same_ids_def plain_trigger_def\<close>)
  qed
qed

lemma plain_Finish: "plain_checker sc \<Longrightarrow> \<exists>sc'. StopChecker_Finish sc = ([], sc') \<and> plain_checker sc' \<and> same_ids sc sc' \<and> sc_max_tokens sc' = sc_max_tokens sc"
  by (auto simp: StopChecker_Finish_def plain_checker_def Flush_def same_ids_def)

text \<open>One token on the plain path.\<close>

definition plain_next :: "('m, 'c) GenState \<Rightarrow> SampleResult \<Rightarrow> ('m, 'c) GenState \<Rightarrow> bool" where
  "plain_next g sampled g' \<longleftrightarrow>
     (let trigger = plain_trigger (gs_checker g) (smr_token sampled) (int (length (gr_tokens (gs_result g))) + 1) in
      gs_model g' = gs_model g \<and> gs_cache g' = gs_cache g \<and>
      plain_checker (gs_checker g') \<and> same_ids (gs_checker g) (gs_checker g') \<and>
      sc_max_tokens (gs_checker g') = sc_max_tokens (gs_checker g) \<and>
      gr_tokens (gs_result g') = gr_tokens (gs_result g) @ [smr_token sampled] \<and>
      gr_text (gs_result g') = gr_text (gs_result g) \<and>
      gr_logprobs (gs_result g') = gr_logprobs (gs_result g) @ (case smr_logprobs sampled of None \<Rightarrow> [] | Some l \<Rightarrow> [l]) \<and>
      gs_events g' = gs_events g @ [\<lparr>te_id = smr_token sampled, te_text = [], te_logprobs = smr_logprobs sampled\<rparr>] \<and>
      (gs_finished g' \<longleftrightarrow> gs_finished g \<or> trigger \<noteq> StopTrigger.kNone) \<and>
      (if trigger = StopTrigger.kNone
       then gr_stop_trigger (gs_result g') = gr_stop_trigger (gs_result g) \<and> gr_finish_reason (gs_result g') = gr_finish_reason (gs_result g)
         \<and> gr_matched_stop (gs_result g') = gr_matched_stop (gs_result g)
       else gr_stop_trigger (gs_result g') = trigger
         \<and> gr_finish_reason (gs_result g') = (if trigger = kMaxTokens then FinishReason_kLength else FinishReason_kStop)
         \<and> gr_matched_stop (gs_result g') = []))"

lemma plain_consume:
  assumes plain: "plain_checker (gs_checker g)"
    and s: "SampleWithLogprobs senv sampler xs \<lparr>sx_prompt_ids = prompt_ids, sx_generated_ids = gr_tokens (gs_result g)\<rparr> = Inr sampled"
  shows "\<exists>g'. gen_consume senv sampler prompt_ids xs g = (Inr (), g') \<and> plain_next g sampled g'"
proof -
  let ?k = "int (length (gr_tokens (gs_result g))) + 1"
  let ?t = "plain_trigger (gs_checker g) (smr_token sampled) ?k"
  obtain r sc where ob: "Observe (gs_checker g) (smr_token sampled) ?k = (Inr r, sc)" "plain_checker sc" "same_ids (gs_checker g) sc"
    "sc_max_tokens sc = sc_max_tokens (gs_checker g)" "sr_text_delta r = []" "sr_matched_stop r = []" "sr_trigger r = ?t"
    "sr_finished r \<longleftrightarrow> ?t \<noteq> StopTrigger.kNone"
    "sr_finish_reason r = (if IsEos (gs_checker g) (smr_token sampled) \<or> IsStopTokenId (gs_checker g) (smr_token sampled)
       then FinishReason_kStop else FinishReason_kLength)"
    by (rule plain_Observe [OF plain])
  obtain sc2 where fin: "(if sr_finished r then StopChecker_Finish sc else ([], sc)) = ([], sc2)" "plain_checker sc2"
    "same_ids sc sc2" "sc_max_tokens sc2 = sc_max_tokens sc"
  proof (cases "sr_finished r")
    case True
    then show thesis using that plain_Finish [OF ob(2)] by auto
  next
    case False
    then show thesis using that [of sc] ob(2) by (simp add: same_ids_def)
  qed
  have reason: "sr_finish_reason r = (if ?t = kMaxTokens then FinishReason_kLength else FinishReason_kStop)" if "?t \<noteq> StopTrigger.kNone"
    using that ob(9) by (auto simp: plain_trigger_def split: if_splits)
  show ?thesis
    using s ob fin reason
    by (simp add: gen_consume_def Let_def add.commute plain_next_def same_ids_def)
qed

text \<open>Greedy sampling without penalties looks at the row only.\<close>

definition same_sampling :: "SamplerEnv \<Rightarrow> Sampler \<Rightarrow> Sampler \<Rightarrow> bool" where
  "same_sampling senv s1 s2 \<longleftrightarrow> (\<forall>xs cx cx'. SampleWithLogprobs senv s1 xs cx = SampleWithLogprobs senv s2 xs cx')"

lemma greedy_same_sampling:
  assumes "smp_params s1 = params\<lparr>max_tokens := n1\<rparr>" and "smp_params s2 = params\<lparr>max_tokens := n2\<rparr>"
    and "float_eq (temperature params) (Finite 0)" and "\<not> PenaltiesActive params"
  shows "same_sampling senv s1 s2"
  using assms
  by (simp add: same_sampling_def SampleWithLogprobs_def SampleWithLogprobsImpl_def SampleRow_def SampleGreedy_def
      PenaltiesActive_def Let_def)

text \<open>A run \<open>gC\<close> that has produced \<open>ts\<close> before, and since then the same as \<open>gB\<close>; its bound is \<open>d\<close> higher.\<close>

definition resumes ::
  "int list \<Rightarrow> TokenEvent list \<Rightarrow> StepLogprobs list \<Rightarrow> int \<Rightarrow> ('m, 'c) GenState \<Rightarrow> ('m, 'c) GenState \<Rightarrow> bool" where
  "resumes ts evs lps d gB gC \<longleftrightarrow>
     gs_model gC = gs_model gB \<and> gs_cache gC = gs_cache gB \<and> gs_finished gC = gs_finished gB \<and>
     plain_checker (gs_checker gB) \<and> plain_checker (gs_checker gC) \<and> same_ids (gs_checker gB) (gs_checker gC) \<and>
     sc_max_tokens (gs_checker gC) = sc_max_tokens (gs_checker gB) + d \<and>
     gr_tokens (gs_result gC) = ts @ gr_tokens (gs_result gB) \<and> gs_events gC = evs @ gs_events gB \<and>
     gr_logprobs (gs_result gC) = lps @ gr_logprobs (gs_result gB) \<and>
     gr_text (gs_result gB) = [] \<and> gr_text (gs_result gC) = [] \<and>
     gr_stop_trigger (gs_result gC) = gr_stop_trigger (gs_result gB) \<and>
     gr_finish_reason (gs_result gC) = gr_finish_reason (gs_result gB) \<and>
     gr_matched_stop (gs_result gC) = gr_matched_stop (gs_result gB) \<and>
     (\<not> gs_finished gB \<longrightarrow> int (length (gr_tokens (gs_result gB))) < sc_max_tokens (gs_checker gB) \<and>
        gr_stop_trigger (gs_result gB) = StopTrigger.kNone \<and> gr_finish_reason (gs_result gB) = FinishReason_kLength \<and>
        gr_matched_stop (gs_result gB) = [])"

lemma resumes_forward:
  assumes res: "resumes ts evs lps (int (length ts)) gB gC" and same: "same_sampling (gm_sampler env) smpB smpC"
    and run: "gen_forward env smpB pB ids ps gB = (Inr u, gB')"
  shows "\<exists>gC'. gen_forward env smpC pC ids ps gC = (Inr u, gC') \<and> resumes ts evs lps (int (length ts)) gB' gC'"
proof -
  obtain m c logits xs where f: "gm_forward env (gs_model gB)
      \<lparr>fr_token_ids = ids, fr_positions = ps, fr_cu_seqlens = [], fr_logits_mode = kLast\<rparr> (gs_cache gB) = (Inr logits, m, c)"
    and xs: "LastRow logits = Inr xs"
    and con: "gen_consume (gm_sampler env) smpB pB xs (gB\<lparr>gs_model := m, gs_cache := c\<rparr>) = (Inr u, gB')"
    by (rule gen_forward_Inr [OF run])
  let ?gB = "gB\<lparr>gs_model := m, gs_cache := c\<rparr>"
  let ?gC = "gC\<lparr>gs_model := m, gs_cache := c\<rparr>"
  obtain sampled where s: "SampleWithLogprobs (gm_sampler env) smpB xs
      \<lparr>sx_prompt_ids = pB, sx_generated_ids = gr_tokens (gs_result ?gB)\<rparr> = Inr sampled"
    using con by (auto elim!: gen_consume_cases)
  then have sC: "SampleWithLogprobs (gm_sampler env) smpC xs
      \<lparr>sx_prompt_ids = pC, sx_generated_ids = gr_tokens (gs_result ?gC)\<rparr> = Inr sampled"
    using same unfolding same_sampling_def by metis
  have plain: "plain_checker (gs_checker ?gB)" "plain_checker (gs_checker ?gC)" using res by (simp_all add: resumes_def)
  have nB: "plain_next ?gB sampled gB'" using plain_consume [OF plain(1) s] con by auto
  obtain gC' where cC: "gen_consume (gm_sampler env) smpC pC xs ?gC = (Inr (), gC')" and nC: "plain_next ?gC sampled gC'"
    using plain_consume [OF plain(2) sC] by blast
  have "gen_forward env smpC pC ids ps gC = (Inr u, gC')"
    using res f xs cC by (simp add: gen_forward_def Let_def resumes_def)
  moreover have trig: "plain_trigger (gs_checker gC) (smr_token sampled) (int (length (gr_tokens (gs_result gC))) + 1)
      = plain_trigger (gs_checker gB) (smr_token sampled) (int (length (gr_tokens (gs_result gB))) + 1)"
    using res by (simp add: plain_trigger_def resumes_def same_ids_def IsEos_def IsStopTokenId_def)
  have "resumes ts evs lps (int (length ts)) gB' gC'"
    using res nB nC trig gen_consume_left [OF con]
    by (auto simp: resumes_def plain_next_def Let_def same_ids_def split: if_splits)
  ultimately show ?thesis by blast
qed

lemma resumes_decode:
  assumes "gen_decode env smpB pB gB = (Inr u, gB')" and "resumes ts evs lps (int (length ts)) gB gC"
    and "same_sampling (gm_sampler env) smpB smpC" and "gr_tokens (gs_result gB) \<noteq> []"
  shows "\<exists>gC'. gen_decode env smpC pC gC = (Inr u, gC') \<and> resumes ts evs lps (int (length ts)) gB' gC'"
  using assms
proof (induction env smpB pB gB arbitrary: gC rule: gen_decode.induct)
  case (1 env smpB pB gB)
  have eqs: "gs_finished gC = gs_finished gB" "gs_cache gC = gs_cache gB"
    "gr_tokens (gs_result gC) = ts @ gr_tokens (gs_result gB)" using 1(3) by (simp_all add: resumes_def)
  show ?case
  proof (cases "gs_finished gB")
    case True
    then have "gB' = gB" using 1(2) by (simp add: gen_decode.simps)
    moreover have "gen_decode env smpC pC gC = (Inr u, gC)" using True eqs by (simp add: gen_decode.simps)
    ultimately show ?thesis using 1(3) by blast
  next
    case False
    obtain gB1 where step: "gen_decode_step env smpB pB gB = (Inr u, gB1)" and rest: "gen_decode env smpB pB gB1 = (Inr u, gB')"
      using 1(2) False by (subst (asm) gen_decode.simps) (auto split: prod.splits sum.splits)
    have runB: "gen_forward env smpB pB [last (gr_tokens (gs_result gB))] [int32_cast (gm_length env (gs_cache gB))] gB = (Inr u, gB1)"
      using step 1(5) by (simp add: gen_decode_step_def)
    obtain gC1 where runC: "gen_forward env smpC pC [last (gr_tokens (gs_result gB))] [int32_cast (gm_length env (gs_cache gB))] gC = (Inr u, gC1)"
      and res: "resumes ts evs lps (int (length ts)) gB1 gC1"
      using resumes_forward [OF 1(3,4) runB] by blast
    have stepC: "gen_decode_step env smpC pC gC = (Inr u, gC1)" using runC 1(5) eqs by (simp add: gen_decode_step_def)
    have "gr_tokens (gs_result gB1) \<noteq> []" using gen_forward_left [OF runB] by auto
    from 1(1) [OF False step [symmetric] refl rest res 1(4) this] obtain gC' where
      "gen_decode env smpC pC gC1 = (Inr u, gC')" "resumes ts evs lps (int (length ts)) gB' gC'" by blast
    then show ?thesis using False eqs stepC by (subst gen_decode.simps) auto
  qed
qed

text \<open>Where \<open>gA\<close> ends at its bound, a run \<open>gC\<close> with a higher bound is at the same point and goes on.\<close>

definition handover :: "int \<Rightarrow> ('m, 'c) GenState \<Rightarrow> ('m, 'c) GenState \<Rightarrow> bool" where
  "handover d gA gC \<longleftrightarrow>
     gs_model gC = gs_model gA \<and> gs_cache gC = gs_cache gA \<and> \<not> gs_finished gC \<and>
     plain_checker (gs_checker gC) \<and> same_ids (gs_checker gA) (gs_checker gC) \<and>
     sc_max_tokens (gs_checker gC) = sc_max_tokens (gs_checker gA) + d \<and>
     int (length (gr_tokens (gs_result gA))) = sc_max_tokens (gs_checker gA) \<and>
     gr_tokens (gs_result gC) = gr_tokens (gs_result gA) \<and> gs_events gC = gs_events gA \<and>
     gr_logprobs (gs_result gC) = gr_logprobs (gs_result gA) \<and> gr_text (gs_result gC) = [] \<and>
     gr_stop_trigger (gs_result gC) = StopTrigger.kNone \<and> gr_finish_reason (gs_result gC) = FinishReason_kLength \<and>
     gr_matched_stop (gs_result gC) = []"

lemma extends_forward:
  assumes res: "resumes [] [] [] d gA gC" and d: "0 < d" and going: "\<not> gs_finished gA"
    and same: "same_sampling (gm_sampler env) smpA smpC" and run: "gen_forward env smpA pA ids ps gA = (Inr u, gA')"
  shows "\<exists>gC'. gen_forward env smpC pC ids ps gC = (Inr u, gC') \<and>
    (if gs_finished gA' \<and> gr_stop_trigger (gs_result gA') = kMaxTokens then handover d gA' gC' else resumes [] [] [] d gA' gC')"
proof -
  obtain m c logits xs where f: "gm_forward env (gs_model gA)
      \<lparr>fr_token_ids = ids, fr_positions = ps, fr_cu_seqlens = [], fr_logits_mode = kLast\<rparr> (gs_cache gA) = (Inr logits, m, c)"
    and xs: "LastRow logits = Inr xs"
    and con: "gen_consume (gm_sampler env) smpA pA xs (gA\<lparr>gs_model := m, gs_cache := c\<rparr>) = (Inr u, gA')"
    by (rule gen_forward_Inr [OF run])
  let ?gA = "gA\<lparr>gs_model := m, gs_cache := c\<rparr>"
  let ?gC = "gC\<lparr>gs_model := m, gs_cache := c\<rparr>"
  obtain sampled where s: "SampleWithLogprobs (gm_sampler env) smpA xs
      \<lparr>sx_prompt_ids = pA, sx_generated_ids = gr_tokens (gs_result ?gA)\<rparr> = Inr sampled"
    using con by (auto elim!: gen_consume_cases)
  then have sC: "SampleWithLogprobs (gm_sampler env) smpC xs
      \<lparr>sx_prompt_ids = pC, sx_generated_ids = gr_tokens (gs_result ?gC)\<rparr> = Inr sampled"
    using same unfolding same_sampling_def by metis
  have plain: "plain_checker (gs_checker ?gA)" "plain_checker (gs_checker ?gC)" using res by (simp_all add: resumes_def)
  have nA: "plain_next ?gA sampled gA'" using plain_consume [OF plain(1) s] con by auto
  obtain gC' where cC: "gen_consume (gm_sampler env) smpC pC xs ?gC = (Inr (), gC')" and nC: "plain_next ?gC sampled gC'"
    using plain_consume [OF plain(2) sC] by blast
  have runC: "gen_forward env smpC pC ids ps gC = (Inr u, gC')"
    using res f xs cC by (simp add: gen_forward_def Let_def resumes_def)
  let ?n = "int (length (gr_tokens (gs_result gA)))"
  let ?tA = "plain_trigger (gs_checker gA) (smr_token sampled) (?n + 1)"
  let ?tC = "plain_trigger (gs_checker gC) (smr_token sampled) (?n + 1)"
  have lt: "?n < sc_max_tokens (gs_checker gA)" using res going by (simp add: resumes_def)
  have mx: "sc_max_tokens (gs_checker gC) = sc_max_tokens (gs_checker gA) + d" using res by (simp add: resumes_def)
  have trig: "?tC = (if ?tA = kMaxTokens then StopTrigger.kNone else ?tA)"
    using res lt mx d by (auto simp: plain_trigger_def resumes_def same_ids_def IsEos_def IsStopTokenId_def)
  have at_bound: "?n + 1 = sc_max_tokens (gs_checker gA)" if "?tA = kMaxTokens"
    using that lt by (auto simp: plain_trigger_def split: if_splits)
  have fin: "gs_finished gA' \<and> gr_stop_trigger (gs_result gA') = kMaxTokens \<longleftrightarrow> ?tA = kMaxTokens"
    using nA going res by (auto simp: plain_next_def Let_def resumes_def split: if_splits)
  have len: "length (gr_tokens (gs_result gC)) = length (gr_tokens (gs_result gA))" using res by (simp add: resumes_def)
  have "if ?tA = kMaxTokens then handover d gA' gC' else resumes [] [] [] d gA' gC'"
  proof (cases "?tA = kMaxTokens")
    case True
    then have "?tC = StopTrigger.kNone" using trig by simp
    then show ?thesis using True res nA nC len going at_bound [OF True]
      by (simp add: handover_def resumes_def plain_next_def Let_def same_ids_def)
  next
    case False
    then have "?tC = ?tA" using trig by simp
    then show ?thesis using False res nA nC len going gen_consume_left [OF con]
      by (auto simp: resumes_def plain_next_def Let_def same_ids_def split: if_splits)
  qed
  then show ?thesis using runC fin by auto
qed

lemma extends_decode:
  assumes "gen_decode env smpA pA gA = (Inr u, gA')" and "resumes [] [] [] d gA gC" and "0 < d"
    and "\<not> gs_finished gA" and "same_sampling (gm_sampler env) smpA smpC" and "gr_tokens (gs_result gA) \<noteq> []"
    and "gr_stop_trigger (gs_result gA') = kMaxTokens"
  shows "\<exists>gC'. handover d gA' gC' \<and> gen_decode env smpC pC gC = gen_decode env smpC pC gC'"
  using assms
proof (induction env smpA pA gA arbitrary: gC rule: gen_decode.induct)
  case (1 env smpA pA gA)
  have eqs: "gs_finished gC = gs_finished gA" "gs_cache gC = gs_cache gA"
    "gr_tokens (gs_result gC) = gr_tokens (gs_result gA)" using 1(3) by (simp_all add: resumes_def)
  obtain gA1 where step: "gen_decode_step env smpA pA gA = (Inr u, gA1)" and rest: "gen_decode env smpA pA gA1 = (Inr u, gA')"
    using 1(2,5) by (subst (asm) gen_decode.simps) (auto split: prod.splits sum.splits)
  have runA: "gen_forward env smpA pA [last (gr_tokens (gs_result gA))] [int32_cast (gm_length env (gs_cache gA))] gA = (Inr u, gA1)"
    using step 1(7) by (simp add: gen_decode_step_def)
  obtain gC1 where runC: "gen_forward env smpC pC [last (gr_tokens (gs_result gA))] [int32_cast (gm_length env (gs_cache gA))] gC = (Inr u, gC1)"
    and out: "if gs_finished gA1 \<and> gr_stop_trigger (gs_result gA1) = kMaxTokens then handover d gA1 gC1 else resumes [] [] [] d gA1 gC1"
    using extends_forward [OF 1(3,4,5,6) runA] by blast
  have go: "gen_decode env smpC pC gC = gen_decode env smpC pC gC1"
    using runC 1(5,7) eqs by (subst gen_decode.simps) (simp add: gen_decode_step_def)
  show ?case
  proof (cases "gs_finished gA1")
    case True
    then have "gA1 = gA'" using rest by (simp add: gen_decode.simps)
    then show ?thesis using go out True 1(8) by auto
  next
    case False
    then have res1: "resumes [] [] [] d gA1 gC1" using out by simp
    have "gr_tokens (gs_result gA1) \<noteq> []" using gen_forward_left [OF runA] by auto
    from 1(1) [OF 1(5) step [symmetric] refl rest res1 1(4) False 1(6) this 1(8)] go show ?thesis by auto
  qed
qed

lemma Generate_Inr:
  assumes "Generate env options prompt_ids m c = (Inr res, m', c', events)"
  obtains sampler sc g where "prompt_ids \<noteq> []" and "Sampler_Create (gm_entropy env) (go_sampling options) = Inr sampler"
    and "StopChecker_Create (go_sampling options) (go_eos_ids options) (go_tokenizer options) (go_skip_special_tokens options) = Inr sc"
    and "\<not> gm_capacity env c < generate_peak (gm_length env c) prompt_ids (smp_params sampler)"
    and "gen_run env sampler prompt_ids (gen_init m c sc) = (Inr (), g)"
    and "res = gs_result g" "m' = gs_model g" "c' = gs_cache g" "events = gs_events g"
  using assms by (auto simp: Generate_def split: if_splits sum.splits prod.splits)

lemma Generate_run:
  assumes "prompt_ids \<noteq> []" and "Sampler_Create (gm_entropy env) (go_sampling options) = Inr sampler"
    and "StopChecker_Create (go_sampling options) (go_eos_ids options) (go_tokenizer options) (go_skip_special_tokens options) = Inr sc"
    and "\<not> gm_capacity env c < generate_peak (gm_length env c) prompt_ids (smp_params sampler)"
    and "max_tokens (smp_params sampler) \<le> logprobs_max_size"
    and "gen_run env sampler prompt_ids (gen_init m c sc) = (Inr u, g)"
  shows "Generate env options prompt_ids m c = (Inr (gs_result g), gs_model g, gs_cache g, gs_events g)"
  using assms by (simp add: Generate_def tokens_max_size_def logprobs_max_size_def)

text \<open>A prefill and its decode loop that end at the bound, against the same with a higher bound.\<close>

lemma extends_run:
  assumes run: "gen_run env smpA prompt_ids gA = (Inr u, gA')" and res: "resumes [] [] [] d gA gC" and d: "0 < d"
    and going: "\<not> gs_finished gA" and same: "same_sampling (gm_sampler env) smpA smpC"
    and trig: "gr_stop_trigger (gs_result gA') = kMaxTokens"
  shows "\<exists>gC'. handover d gA' gC' \<and> gen_run env smpC prompt_ids gC = gen_decode env smpC prompt_ids gC'"
proof -
  let ?ps = "start_positions (gm_length env (gs_cache gA)) prompt_ids"
  obtain gA1 where f: "gen_forward env smpA prompt_ids prompt_ids ?ps gA = (Inr u, gA1)"
    and dec: "gen_decode env smpA prompt_ids gA1 = (Inr u, gA')"
    using run by (auto simp: gen_run_def split: prod.splits sum.splits)
  obtain gC1 where fC: "gen_forward env smpC prompt_ids prompt_ids ?ps gC = (Inr u, gC1)"
    and out: "if gs_finished gA1 \<and> gr_stop_trigger (gs_result gA1) = kMaxTokens then handover d gA1 gC1 else resumes [] [] [] d gA1 gC1"
    using extends_forward [OF res d going same f] by blast
  have cache: "gs_cache gC = gs_cache gA" using res by (simp add: resumes_def)
  have go: "gen_run env smpC prompt_ids gC = gen_decode env smpC prompt_ids gC1" using fC cache by (simp add: gen_run_def)
  show ?thesis
  proof (cases "gs_finished gA1")
    case True
    then have "gA1 = gA'" using dec by (simp add: gen_decode.simps)
    then show ?thesis using True out trig go by auto
  next
    case False
    have "gr_tokens (gs_result gA1) \<noteq> []" using gen_forward_left [OF f] by auto
    then show ?thesis using extends_decode [OF dec _ d False same _ trig] out False go by auto
  qed
qed

text \<open>A run that starts from the last token of \<open>gC\<close>, against \<open>gC\<close> going on.\<close>

lemma resumes_run:
  assumes run: "gen_run env smpB [last ts] gB = (Inr u, gB')" and res: "resumes ts evs lps (int (length ts)) gB gC"
    and going: "\<not> gs_finished gB" and start: "gr_tokens (gs_result gB) = []" and ts: "ts \<noteq> []"
    and same: "same_sampling (gm_sampler env) smpB smpC"
  shows "\<exists>gC'. gen_decode env smpC prompt_ids gC = (Inr u, gC') \<and> resumes ts evs lps (int (length ts)) gB' gC'"
proof -
  let ?ps = "[int32_cast (gm_length env (gs_cache gB))]"
  obtain gB1 where f: "gen_forward env smpB [last ts] [last ts] ?ps gB = (Inr u, gB1)"
    and dec: "gen_decode env smpB [last ts] gB1 = (Inr u, gB')"
    using run by (auto simp: gen_run_def start_positions_def split: prod.splits sum.splits)
  obtain gC1 where fC: "gen_forward env smpC prompt_ids [last ts] ?ps gC = (Inr u, gC1)"
    and res1: "resumes ts evs lps (int (length ts)) gB1 gC1"
    using resumes_forward [OF res same f] by blast
  have eqs: "gs_finished gC = gs_finished gB" "gs_cache gC = gs_cache gB" "gr_tokens (gs_result gC) = ts"
    using res start by (simp_all add: resumes_def)
  have "gen_decode_step env smpC prompt_ids gC = (Inr u, gC1)" using fC eqs ts by (simp add: gen_decode_step_def)
  then have go: "gen_decode env smpC prompt_ids gC = gen_decode env smpC prompt_ids gC1"
    using going eqs by (subst gen_decode.simps) simp
  have "gr_tokens (gs_result gB1) \<noteq> []" using gen_forward_left [OF f] by auto
  then show ?thesis using resumes_decode [OF dec res1 same] go by auto
qed

text \<open>What no run changes in its checker.\<close>

lemma Observe_ids: "Observe sc tid k = (r, sc') \<Longrightarrow> same_ids sc sc'"
  by (auto simp: Observe_def observe_text_def same_ids_def Let_def split: option.splits prod.splits sum.splits if_splits)

lemma StopChecker_Finish_ids: "StopChecker_Finish sc = (r, sc') \<Longrightarrow> same_ids sc sc'"
  by (auto simp: StopChecker_Finish_def same_ids_def Let_def split: option.splits prod.splits if_splits)

lemma gen_forward_ids:
  assumes "gen_forward env sampler prompt_ids ids ps g = (Inr u, g')"
  shows "same_ids (gs_checker g) (gs_checker g')"
  using assms
proof (rule gen_forward_Inr)
  fix m c logits xs
  assume "gen_consume (gm_sampler env) sampler prompt_ids xs (g\<lparr>gs_model := m, gs_cache := c\<rparr>) = (Inr u, g')"
  then show ?thesis
  proof (cases rule: gen_consume_cases)
    case (token sampled step checker residue checker')
    have "same_ids (gs_checker g) checker" using Observe_ids [OF token(2)] by simp
    moreover have "same_ids checker checker'"
      using token(3) by (auto simp: same_ids_def dest: StopChecker_Finish_ids split: if_splits)
    ultimately show ?thesis using token(5) by (simp add: same_ids_def)
  qed simp_all
qed

lemma gen_decode_ids:
  assumes "gen_decode env sampler prompt_ids g = (Inr u, g')" and "gr_tokens (gs_result g) \<noteq> []"
  shows "same_ids (gs_checker g) (gs_checker g') \<and> sc_max_tokens (gs_checker g') = sc_max_tokens (gs_checker g)
    \<and> gr_tokens (gs_result g') \<noteq> []"
  using assms
proof (induction env sampler prompt_ids g rule: gen_decode.induct)
  case (1 env sampler prompt_ids g)
  show ?case
  proof (cases "gs_finished g")
    case True
    then show ?thesis using 1 by (simp add: gen_decode.simps same_ids_def)
  next
    case False
    obtain g1 where step: "gen_decode_step env sampler prompt_ids g = (Inr u, g1)" and rest: "gen_decode env sampler prompt_ids g1 = (Inr u, g')"
      using 1(2) False by (subst (asm) gen_decode.simps) (auto split: prod.splits sum.splits)
    have f: "gen_forward env sampler prompt_ids [last (gr_tokens (gs_result g))] [int32_cast (gm_length env (gs_cache g))] g = (Inr u, g1)"
      using step 1(3) by (simp add: gen_decode_step_def)
    have "gr_tokens (gs_result g1) \<noteq> []" using gen_forward_left [OF f] by auto
    from 1(1) [OF False step [symmetric] refl rest this] gen_forward_ids [OF f] gen_forward_left [OF f]
    show ?thesis by (simp add: same_ids_def)
  qed
qed

lemma gen_run_ids:
  assumes "gen_run env sampler prompt_ids g = (Inr u, g')"
  shows "same_ids (gs_checker g) (gs_checker g') \<and> sc_max_tokens (gs_checker g') = sc_max_tokens (gs_checker g)
    \<and> gr_tokens (gs_result g') \<noteq> []"
proof -
  obtain g1 where f: "gen_forward env sampler prompt_ids prompt_ids (start_positions (gm_length env (gs_cache g)) prompt_ids) g = (Inr u, g1)"
    and dec: "gen_decode env sampler prompt_ids g1 = (Inr u, g')"
    using assms by (auto simp: gen_run_def split: prod.splits sum.splits)
  have "gr_tokens (gs_result g1) \<noteq> []" using gen_forward_left [OF f] by auto
  from gen_decode_ids [OF dec this] gen_forward_ids [OF f] gen_forward_left [OF f] show ?thesis by (simp add: same_ids_def)
qed

lemma int64_small: "0 \<le> x \<Longrightarrow> x \<le> INT64_MAX \<Longrightarrow> int64_wrap x = x"
  by (simp add: int64_wrap_def INT64_MAX_def)

section \<open>Theorems\<close>

text \<open>C39. With a model and a cache that keep their contract, \<open>Generate\<close> returns. On success it produced between one
  and \<open>max_tokens\<close> tokens; the callback got exactly these tokens, its text pieces make up the text and its
  logprobs the logprobs; the tokens, the trigger and the text are those of the stop checker run over them,
  the reason is the length exactly at \<open>max_tokens\<close>; and the cache holds the prompt and all tokens but the
  last, within its capacity. Otherwise it returns a status, the tokens so far were delivered to the
  callback, and the cache ends with the last of them or with the one before. No check fails.\<close>

theorem generate_streams:
  assumes "gen_contract env cache_ok" and "cache_ok c" and "0 \<le> gm_length env c" and "params_safe (go_sampling options)"
    and "gm_length env c + int (length prompt_ids) + max_tokens (go_sampling options) \<le> INT64_MAX"
    and "gm_capacity env c \<le> logprobs_max_size"
  shows "case Generate env options prompt_ids m c of
      (Inr res, m', c', events) \<Rightarrow>
        gr_tokens res \<noteq> [] \<and> int (length (gr_tokens res)) \<le> max_tokens (go_sampling options)
        \<and> map te_id events = gr_tokens res \<and> concat (map te_text events) = gr_text res
        \<and> gr_logprobs res = event_logprobs events
        \<and> (\<exists>sc e sc'. StopChecker_Create (go_sampling options) (go_eos_ids options) (go_tokenizer options)
              (go_skip_special_tokens options) = Inr sc
            \<and> observe_all sc (gr_tokens res) 0 = (Inr (e, length (gr_tokens res), gr_stop_trigger res), sc')
            \<and> gr_text res = e @ fst (StopChecker_Finish sc'))
        \<and> gr_stop_trigger res \<noteq> StopTrigger.kNone
        \<and> (gr_finish_reason res = FinishReason_kLength \<longleftrightarrow> gr_stop_trigger res = kMaxTokens)
        \<and> gm_length env c' = gm_length env c + int (length prompt_ids) + int (length (gr_tokens res)) - 1
        \<and> gm_length env c' \<le> gm_capacity env c' \<and> gm_capacity env c' = gm_capacity env c \<and> cache_ok c'
    | (Inl err, m', c', events) \<Rightarrow>
        (\<exists>code. err = Status code) \<and> cache_ok c' \<and> gm_capacity env c' = gm_capacity env c
        \<and> (events \<noteq> [] \<longrightarrow> gm_length env c' \<in>
              {gm_length env c + int (length prompt_ids) + int (length events) - 1,
               gm_length env c + int (length prompt_ids) + int (length events)})"
proof (cases "prompt_ids = []")
  case True
  then show ?thesis using assms(2) by (simp add: Generate_def)
next
  case prompt: False
  show ?thesis
  proof (cases "Sampler_Create (gm_entropy env) (go_sampling options)")
    case (Inl e)
    then have "\<exists>code. e = Status code"
      by (auto simp: Sampler_Create_def ValidateSamplingParams_def bind_ok_def split: sum.splits if_splits)
    then show ?thesis using Inl prompt assms(2) by (simp add: Generate_def)
  next
    case sampler: (Inr sampler)
    have v: "ValidateSamplingParams (go_sampling options) = Inr ()" and sp: "smp_params sampler = go_sampling options"
      using sampler by (auto simp: Sampler_Create_def elim!: bind_okE)
    note mt = valid_params(1) [OF v]
    show ?thesis
    proof (cases "StopChecker_Create (go_sampling options) (go_eos_ids options) (go_tokenizer options) (go_skip_special_tokens options)")
      case (Inl e)
      then have "\<exists>code. e = Status code" by (auto simp: StopChecker_Create_def split: if_splits)
      then show ?thesis using Inl sampler prompt assms(2) by (simp add: Generate_def)
    next
      case checker: (Inr sc)
      let ?base = "gm_length env c + int (length prompt_ids)"
      have mx: "sc_max_tokens sc = max_tokens (go_sampling options)"
        using checker by (auto simp: StopChecker_Create_def split: if_splits)
      have peak: "generate_peak (gm_length env c) prompt_ids (go_sampling options) = ?base + (max_tokens (go_sampling options) - 1)"
        using assms(3,5) mt by (simp add: generate_peak_def int64_wrap_def INT64_MAX_def)
      show ?thesis
      proof (cases "gm_capacity env c < generate_peak (gm_length env c) prompt_ids (go_sampling options)")
        case True
        then show ?thesis using checker sampler prompt assms(2) sp by (simp add: Generate_def)
      next
        case False
        then have cap: "?base + max_tokens (go_sampling options) - 1 \<le> gm_capacity env c" by (simp add: peak)
        moreover have "1 \<le> int (length prompt_ids)" using prompt by (cases prompt_ids) simp_all
        ultimately have size: "max_tokens (go_sampling options) \<le> logprobs_max_size"
          using assms(3,6) by linarith
        show ?thesis
          by (rule generate_admitted [OF assms(1-4) prompt sampler checker peak cap size])
      qed
    qed
  qed
qed

text \<open>C40. Generation is resumable. With greedy sampling and no penalties or tokenizer, a call that ends at
  \<open>max_tokens\<close> and a later call on the same cache that is fed its last token produce together exactly
  what one call with the sum of the two bounds produces: the tokens, the events, the logprobs, the reason,
  the model's state and the cache.\<close>

theorem generate_resumes:
  fixes options :: GenerateOptions
  defines "opts \<equiv> \<lambda>n. options\<lparr>go_sampling := (go_sampling options)\<lparr>max_tokens := n\<rparr>\<rparr>"
  assumes "gen_contract env cache_ok" and "cache_ok c" and "0 \<le> gm_length env c"
    and "float_eq (temperature (go_sampling options)) (Finite 0)" and "\<not> PenaltiesActive (go_sampling options)"
    and "go_tokenizer options = None"
    and "gm_length env c + int (length prompt_ids) + k + j \<le> INT64_MAX" and "gm_capacity env c \<le> logprobs_max_size"
    and "Generate env (opts k) prompt_ids m c = (Inr res1, m1, c1, events1)" and "gr_stop_trigger res1 = kMaxTokens"
    and "Generate env (opts j) [last (gr_tokens res1)] m1 c1 = (Inr res2, m2, c2, events2)"
  shows "Generate env (opts (k + j)) prompt_ids m c =
    (Inr (res2\<lparr>gr_tokens := gr_tokens res1 @ gr_tokens res2, gr_logprobs := gr_logprobs res1 @ gr_logprobs res2\<rparr>),
     m2, c2, events1 @ events2)"
proof -
  let ?P = "go_sampling options"
  have samp: "go_sampling (opts n) = ?P\<lparr>max_tokens := n\<rparr>" "go_tokenizer (opts n) = None" for n by (simp_all add: opts_def assms(7))
  from assms(10) obtain smpA scA gA where A: "prompt_ids \<noteq> []" "Sampler_Create (gm_entropy env) (go_sampling (opts k)) = Inr smpA"
    "StopChecker_Create (go_sampling (opts k)) (go_eos_ids (opts k)) (go_tokenizer (opts k)) (go_skip_special_tokens (opts k)) = Inr scA"
    "\<not> gm_capacity env c < generate_peak (gm_length env c) prompt_ids (smp_params smpA)"
    "gen_run env smpA prompt_ids (gen_init m c scA) = (Inr (), gA)"
    "res1 = gs_result gA" "m1 = gs_model gA" "c1 = gs_cache gA" "events1 = gs_events gA"
    by (rule Generate_Inr)
  from assms(12) obtain smpB scB gB where B: "Sampler_Create (gm_entropy env) (go_sampling (opts j)) = Inr smpB"
    "StopChecker_Create (go_sampling (opts j)) (go_eos_ids (opts j)) (go_tokenizer (opts j)) (go_skip_special_tokens (opts j)) = Inr scB"
    "\<not> gm_capacity env c1 < generate_peak (gm_length env c1) [last (gr_tokens res1)] (smp_params smpB)"
    "gen_run env smpB [last (gr_tokens res1)] (gen_init m1 c1 scB) = (Inr (), gB)"
    "res2 = gs_result gB" "m2 = gs_model gB" "c2 = gs_cache gB" "events2 = gs_events gB"
    by (rule Generate_Inr)
  note P = samp(1)
  have A2: "smp_params smpA = ?P\<lparr>max_tokens := k\<rparr>" "ValidateSamplingParams (?P\<lparr>max_tokens := k\<rparr>) = Inr ()"
    using A(2) P by (auto simp: Sampler_Create_def elim!: bind_okE)
  have B1: "smp_params smpB = ?P\<lparr>max_tokens := j\<rparr>" "ValidateSamplingParams (?P\<lparr>max_tokens := j\<rparr>) = Inr ()"
    using B(1) P by (auto simp: Sampler_Create_def elim!: bind_okE)
  have kj: "0 < k" "0 < j" using valid_params(1) [OF A2(2)] valid_params(1) [OF B1(2)] by simp_all
  have safe: "params_safe (go_sampling (opts n))" for n using assms(5) by (simp add: params_safe_def P)
  have len1: "1 \<le> int (length prompt_ids)" using A(1) by (cases prompt_ids) simp_all
  define smpC where "smpC = \<lparr>smp_params = ?P\<lparr>max_tokens := k + j\<rparr>, smp_seed = smp_seed smpA\<rparr>"
  have C1: "Sampler_Create (gm_entropy env) (go_sampling (opts (k + j))) = Inr smpC"
    using A(2) A2(2) kj by (auto simp: Sampler_Create_def P ValidateSamplingParams_def ResolveSeed_def smpC_def split: if_splits)
  define scC where "scC = scA\<lparr>sc_max_tokens := k + j\<rparr>"
  have sc: "scA = \<lparr>sc_eos_ids = go_eos_ids options, sc_stop_token_ids = stop_token_ids ?P, sc_max_tokens = k, sc_detok = None,
      sc_matcher = StopStringMatcher_ctor [], sc_trigger = StopTrigger.kNone\<rparr>" "scB = scA\<lparr>sc_max_tokens := j\<rparr>"
    "stop_strings ?P = []"
    using A(3) B(2) assms(7) by (auto simp: StopChecker_Create_def opts_def split: if_splits)
  have C2: "StopChecker_Create (go_sampling (opts (k + j))) (go_eos_ids (opts (k + j))) (go_tokenizer (opts (k + j)))
      (go_skip_special_tokens (opts (k + j))) = Inr scC"
    by (simp add: StopChecker_Create_def samp sc scC_def) (simp add: opts_def)
  have same: "same_sampling (gm_sampler env) smpA smpC" "same_sampling (gm_sampler env) smpB smpC"
    by (rule greedy_same_sampling [OF _ _ assms(5,6)]; simp add: A2 B1 smpC_def)+
  have "resumes [] [] [] j (gen_init m c scA) (gen_init m c scC)"
    using kj by (simp add: resumes_def gen_init_def scC_def sc(1) plain_checker_def same_ids_def StopStringMatcher_ctor_def)
  from extends_run [OF A(5) this kj(2) _ same(1)] obtain gC where
    hand: "handover j gA gC" and go: "gen_run env smpC prompt_ids (gen_init m c scC) = gen_decode env smpC prompt_ids gC"
    using assms(11) A(6) by (auto simp: gen_init_def)
  have ids: "same_ids scA (gs_checker gA)" "sc_max_tokens (gs_checker gA) = k" "gr_tokens (gs_result gA) \<noteq> []"
    using gen_run_ids [OF A(5)] by (simp_all add: gen_init_def sc(1))
  let ?ts = "gr_tokens (gs_result gA)"
  have lts: "int (length ?ts) = k" using hand ids by (simp add: handover_def)
  have "resumes ?ts (gs_events gA) (gr_logprobs (gs_result gA)) (int (length ?ts)) (gen_init m1 c1 scB) gC"
    using hand ids kj A(7,8) by (simp add: resumes_def handover_def gen_init_def sc plain_checker_def same_ids_def
      StopStringMatcher_ctor_def)
  from resumes_run [OF _ this _ _ ids(3) same(2)] B(4) A(6) obtain gC' where
    fin: "gen_decode env smpC prompt_ids gC = (Inr (), gC')"
    and res: "resumes ?ts (gs_events gA) (gr_logprobs (gs_result gA)) (int (length ?ts)) gB gC'"
    by (auto simp: gen_init_def)
  have peakA: "generate_peak (gm_length env c) prompt_ids (go_sampling (opts k))
      = gm_length env c + int (length prompt_ids) + (max_tokens (go_sampling (opts k)) - 1)"
    using assms(4,8) kj by (simp add: generate_peak_def P int64_small)
  then have capA: "gm_length env c + int (length prompt_ids) + max_tokens (go_sampling (opts k)) - 1 \<le> gm_capacity env c"
    using A(4) by (simp add: A2(1) P)
  have "max_tokens (go_sampling (opts k)) \<le> logprobs_max_size" using capA assms(4,9) len1 by linarith
  from generate_admitted [OF assms(2-4) safe A(1-3) peakA capA this, of m] assms(10) A(6)
  have c1: "gm_length env c1 = gm_length env c + int (length prompt_ids) + k - 1" "gm_capacity env c1 = gm_capacity env c"
    using lts by simp_all
  have "generate_peak (gm_length env c1) [last (gr_tokens res1)] (smp_params smpB) = gm_length env c + int (length prompt_ids) + k + j - 1"
    using c1(1) assms(4,8) kj by (simp add: generate_peak_def B1 int64_small)
  then have cap: "gm_length env c + int (length prompt_ids) + k + j - 1 \<le> gm_capacity env c" using B(3) c1(2) by simp
  moreover have peakC: "generate_peak (gm_length env c) prompt_ids (smp_params smpC) = gm_length env c + int (length prompt_ids) + k + j - 1"
    using assms(4,8) kj by (simp add: generate_peak_def smpC_def int64_small)
  moreover have "max_tokens (smp_params smpC) \<le> logprobs_max_size" using cap assms(4,9) len1 by (simp add: smpC_def)
  ultimately have "Generate env (opts (k + j)) prompt_ids m c = (Inr (gs_result gC'), gs_model gC', gs_cache gC', gs_events gC')"
    by (intro Generate_run [OF A(1) C1 C2 _ _ go [unfolded fin]]) simp_all
  moreover have "gs_result gC' = res2\<lparr>gr_tokens := gr_tokens res1 @ gr_tokens res2, gr_logprobs := gr_logprobs res1 @ gr_logprobs res2\<rparr>"
    using res by (intro GenerateResult.equality) (simp_all add: resumes_def A(6) B(5))
  ultimately show ?thesis using res by (simp add: resumes_def A(9) B)
qed

section \<open>A concrete model\<close>

text \<open>A model that always answers the next of four ids, over a cache that is its length, of capacity 8.\<close>

definition count_forward :: "unit \<Rightarrow> ForwardRequest \<Rightarrow> int \<Rightarrow> Logits status_or \<times> unit \<times> int" where
  "count_forward m req c =
     (if 8 < c + int (length (fr_token_ids req)) then (Inl (Status kResourceExhausted), (), c)
      else (Inr ([1, 4], map (\<lambda>i. if i = (last (fr_token_ids req) + 1) mod 4 then Finite 1 else Finite 0) [0, 1, 2, 3]),
            (), c + int (length (fr_token_ids req))))"

definition count_env :: "(unit, int) GenEnv" where
  "count_env = \<lparr>gm_forward = count_forward, gm_length = (\<lambda>c. c), gm_capacity = (\<lambda>c. 8),
     gm_sampler = \<lparr>exp32 = (\<lambda>x. x), log64 = (\<lambda>x. x), hash_order = (\<lambda>is. is)\<rparr>, gm_entropy = 0\<rparr>"

definition count_options :: "int \<Rightarrow> GenerateOptions" where
  "count_options n = \<lparr>go_sampling = Greedy n, go_eos_ids = [], go_tokenizer = None, go_skip_special_tokens = True\<rparr>"

lemma count_contract: "gen_contract count_env (\<lambda>c. 0 \<le> c)"
  by (auto simp: gen_contract_def count_env_def count_forward_def)

lemma count_params: "params_safe (go_sampling (count_options n))" "float_eq (temperature (go_sampling (count_options n))) (Finite 0)"
  "\<not> PenaltiesActive (go_sampling (count_options n))" "go_tokenizer (count_options n) = None"
  by (simp_all add: params_safe_def count_options_def Greedy_def default_params_def float_eq_def PenaltiesActive_def)

lemma count_params_set: "(count_options n)\<lparr>go_sampling := (go_sampling (count_options n))\<lparr>max_tokens := k\<rparr>\<rparr> = count_options k"
  by (simp add: count_options_def Greedy_def default_params_def)

definition count_result :: "int list \<Rightarrow> GenerateResult" where
  "count_result ts = \<lparr>gr_tokens = ts, gr_finish_reason = FinishReason_kLength, gr_stop_trigger = kMaxTokens,
     gr_matched_stop = [], gr_text = [], gr_logprobs = []\<rparr>"

definition count_events :: "int list \<Rightarrow> TokenEvent list" where
  "count_events ts = map (\<lambda>t. \<lparr>te_id = t, te_text = [], te_logprobs = None\<rparr>) ts"

lemma count_runs:
  "Generate count_env (count_options 2) [0] () 0 = (Inr (count_result [1, 2]), (), 2, count_events [1, 2])"
  "Generate count_env (count_options 1) [2] () 2 = (Inr (count_result [3]), (), 3, count_events [3])"
  by code_simp+

theorem generate_streams_witness:
  "\<exists>res events. Generate count_env (count_options 2) [0] () 0 = (Inr res, (), 2, events) \<and> map te_id events = gr_tokens res
     \<and> int (length (gr_tokens res)) \<le> 2 \<and> gr_text res = concat (map te_text events)"
proof -
  have hyps: "0 \<le> gm_length count_env 0" "gm_capacity count_env 0 \<le> logprobs_max_size"
    "gm_length count_env 0 + int (length [0::int]) + max_tokens (go_sampling (count_options 2)) \<le> INT64_MAX"
    by (simp_all add: count_env_def INT64_MAX_def logprobs_max_size_def count_options_def Greedy_def)
  have "max_tokens (go_sampling (count_options 2)) = 2" by (simp add: count_options_def Greedy_def)
  with generate_streams [OF count_contract _ hyps(1) count_params(1) hyps(3,2), of "()"] count_runs(1)
  show ?thesis by simp
qed

theorem generate_resumes_witness:
  "Generate count_env (count_options 3) [0] () 0 = (Inr (count_result [1, 2, 3]), (), 3, count_events [1, 2, 3])"
proof -
  have bounds: "gm_length count_env 0 + int (length [0::int]) + 2 + 1 \<le> INT64_MAX" "gm_capacity count_env 0 \<le> logprobs_max_size"
    "0 \<le> gm_length count_env 0"
    by (simp_all add: count_env_def INT64_MAX_def logprobs_max_size_def)
  have trigger: "gr_stop_trigger (count_result [1, 2]) = kMaxTokens" "last (gr_tokens (count_result [1, 2])) = 2"
    by (simp_all add: count_result_def)
  from generate_resumes [of count_env "\<lambda>c. 0 \<le> c" 0 "count_options 9" "[0]" 2 1 "()" "count_result [1, 2]" "()" 2
      "count_events [1, 2]" "count_result [3]" "()" 3 "count_events [3]",
      OF count_contract _ bounds(3) count_params(2-4) bounds(1,2), unfolded count_params_set trigger, OF _ count_runs(1) refl count_runs(2)]
  show ?thesis by (simp add: count_result_def count_events_def)
qed

end
