(* ===== verification/Spec2Isabelle.thy ===== *)
theory Spec2Isabelle
  imports Kv_Correctness Tokenizer_Correctness Engine_Correctness Caching_Allocator Generator
begin

text \<open>
  Verification of an LLM inference engine in C++ (\<open>src/src/\<close>). This header says which parts of the program
  are modelled, where, what is proved of them, and what is left out.

  The program. A client submits requests to the runtime (\<open>runtime/engine.cpp\<close>). Each step of its loop drains
  the client commands, retires cancelled requests, asks the scheduler (\<open>scheduler/scheduler.cpp\<close>) what to
  prefill, decode and preempt, assembles ragged batches (\<open>engine/batch.cpp\<close>), runs the model's forward over
  them, samples one token per sequence (\<open>sampling/\<close>), feeds it to the stop conditions (\<open>engine/stop.cpp\<close>)
  and the detokenizer (\<open>tokenizer/detokenize.cpp\<close>), pushes the text into the request's channel
  (\<open>runtime/channel.cpp\<close>), and retires what ended. The key-value cache of a sequence is paged: a block table
  (\<open>kvcache/block_table.cpp\<close>) maps its positions to blocks of one shared pool (\<open>kvcache/block_pool.cpp\<close>).
  Text enters and leaves through a byte-level BPE tokenizer (\<open>tokenizer/\<close>). Beside the runtime there is a
  single-sequence generation loop (\<open>engine/generator.cpp\<close>), and memory comes from the allocators of \<open>memory/\<close>.

  Conventions. A C++ function that can fail returns \<open>failure + 'a\<close> (\<open>status_or\<close> of \<open>Prelude\<close>): a \<open>Status\<close>
  is an error the code returns, \<open>CheckFailed\<close> is an \<open>LLM_CHECK\<close> that aborts the process, and \<open>OutOfBounds\<close> is
  an access the code does not check (a vector index, a null pointer, \<open>unordered_map::at\<close>). A proof that the
  result is never one of the last two is a proof that the process does not crash. Structs are records,
  enums datatypes, objects passed by reference are arguments returned updated. Integers are unbounded
  where the values are token and block counts that the code bounds beforehand; overflow is written out
  where it is checked (\<open>mul_overflow\<close>), where it is a cast or a 32-bit sum of unbounded operands (\<open>int32_cast\<close>, also the
  running offset of \<open>flatten_loop\<close>), where it is bitwise (\<open>32 word\<close>,
  \<open>64 word\<close> in \<open>Sampling_Params\<close>), and where the client controls the operands (\<open>int64_wrap\<close> in \<open>Engine\<close>).
\<close>

section \<open>The theories\<close>

text \<open>
  \<^item> \<open>Prelude\<close>: the error taxonomy of \<open>core/status.h\<close>, fallible sequencing, integer division and widths, rounding up to blocks.
  \<^item> \<open>Tensor_Types\<close>, \<open>Shape\<close>, \<open>Device\<close>, \<open>Tensor\<close>: \<open>tensor/\<close> apart from the operators: element types, shapes with their
    strides, device names, tensors as views onto shared storage.
  \<^item> \<open>Parallel\<close>: \<open>parallel/parallel_for.{h,cpp}\<close>, with the interleaving of the workers' chunks as a parameter; the locale
    \<open>commuting_items\<close> proves that items which commute run as one loop, and is interpreted on the KV kernels and the batched sampler.
  \<^item> \<open>Row_Memory\<close>, \<open>Kv_Kernels\<close>: float memory as rows, and the scatter and gather kernels.
  \<^item> \<open>Block_Pool\<close>, \<open>Block_Table\<close>: the reference-counted pool (locale \<open>block_allocator\<close>, interpreted on it) and the tables on it.
    \<open>owned p bl\<close> says that the pool's references are exactly the blocks \<open>bl\<close>, once each; \<open>tables_run\<close> generates the histories of
    several tables over a created pool.
  \<^item> \<open>Kv_Cache\<close>, \<open>Simple_Cache\<close>, \<open>Paged_Cache\<close>, \<open>Kv_Correctness\<close>: the interface of \<open>kvcache/kv_cache.h\<close> as the locale \<open>kv_cache\<close>,
    its two implementations with an interpretation each, and what they promise together.
  \<^item> \<open>Scheduler\<close>: the three passes of \<open>Schedule\<close>, the policy and feasibility of what it returns, and the progress it makes on a
    snapshot that accounts for every block.
  \<^item> \<open>Unicode\<close>, \<open>Bpe\<close>, \<open>Pretokenize\<close>, \<open>Tokenizer_Json\<close>, \<open>Tokenizer\<close>, \<open>Tokenizer_Correctness\<close>, \<open>Detokenize\<close>: \<open>tokenizer/\<close>; the JSON text
    parser, the file system and the generated Unicode property tables are parameters. \<open>normalized\<close> is what a tokenizer makes of a
    text before it looks for pieces, which is what decoding gives back.
  \<^item> \<open>Float_Arith\<close>, \<open>Sampling_Params\<close>, \<open>Sampler\<close>, \<open>Sampler_Correctness\<close>: IEEE 754 arithmetic with its rounding, the request's
    parameters, the Philox generator, the sampling stages and the samplers; \<open>exp\<close>, \<open>log\<close> and hash traversal orders are parameters.
  \<^item> \<open>Stop\<close>, \<open>Sequence\<close>: stop-string matching and the stop checker; the sequence's states and the output channel (locale \<open>output_stream\<close>).
  \<^item> \<open>Batch\<close>, \<open>Engine\<close>: batch assembly and the runtime: the record \<open>Engine\<close> has the fields of the class, and each member function is a
    definition of the same name.
  \<^item> \<open>Memory_Allocator\<close>, \<open>Caching_Allocator\<close>: buffers, the CPU allocator and the caching pool. The locale \<open>allocator\<close> is the contract of
    the \<open>Allocator\<close> interface, \<open>system_allocator\<close> that of the C library; a sublocale derives the first from the second for the CPU
    allocator, and \<open>pooled\<close> extends the first for the pool. \<open>pool_run\<close> generates the reachable pools.
  \<^item> \<open>Generator\<close>: the loop of \<open>Generate\<close>, total because the stop checker ends the stream at its bound, with the events it streams, and
    what two calls on one cache produce together.
  \<^item> \<open>Engine_Inv\<close>, \<open>Engine_Pass\<close>, \<open>Engine_Step\<close>, \<open>Engine_Correctness\<close>: the invariant \<open>engine_wf\<close> of the runtime, its preservation by a
    pass, by a step and by client calls, and the theorems about every state \<open>engine_run\<close> reaches.
\<close>

section \<open>How the runtime's proof is built\<close>

text \<open>
  \<open>engine_wf env ph R e\<close> relates the request map, the two queues, the channels and the pool: the queues
  partition the requests, the pool's blocks in use are the live sequences' blocks, an open channel belongs
  to exactly one live or submitted request, and a live sequence is \<open>seq_ok\<close>. \<open>ph\<close> gives the phase of each
  running sequence within a step (\<open>Ready\<close>, \<open>Fed\<close>, \<open>Dirty\<close>) and thereby the length of its cache; \<open>R\<close> is the set
  of requests whose channel is closed and which are about to be erased. Every operation has one lemma
  \<open><operation>_ok\<close>: under the invariant it returns, and it restores the invariant with the next phase.

  The model's forward is the field \<open>mi_forward\<close> of the environment. \<open>forward_contract\<close> states what \<open>model.h\<close>
  documents: it extends only the caches it is given, by the tokens it is fed, leaves the other sequences'
  blocks alone, answers one row of logits per sequence, and may fail at any point with a status, after
  which a cache passed alone is unchanged. \<open>grow_env\<close> is a concrete environment that satisfies it, with a
  forward that appends to the block tables until the pool is exhausted.

  Termination. \<open>engine_todo\<close> counts the tokens that live and submitted requests may still produce. A pass with
  members always lowers it, also when the forward fails and the fallback runs the members one by one,
  because a member that has nobody left to preempt is failed. \<open>ScheduleStep_ok\<close> shows that a step with a
  live request has a pass with members. The fuel of \<open>run_until_idle\<close> is one more than \<open>engine_todo\<close>.

  Bounds. A safe request (\<open>request_safe\<close>) is greedy or asks for no logprobs, and its peak length does not
  overflow: the two ways found to crash or overcommit the code, shown by \<open>temperature_overflow_no_token\<close>
  and \<open>submit_peak_overflow\<close>. The offsets of a batch are 32-bit (\<open>batch_fits\<close>, \<open>flatten_offset_overflow\<close>): a
  prefill batch is bounded by the step budget, which the runtime's theorems take to be at most \<open>INT32_MAX\<close>, and
  a decode batch by \<open>max_num_seqs\<close>, a C \<open>int\<close>, which is no larger by its type.

  What the model abstracts from. The reference counts of the pool are unbounded under \<open>Share\<close>, which has no
  caller in the engine, where every count is 0 or 1. Sizes of vectors are unbounded, so \<open>length_error\<close> and
  \<open>bad_alloc\<close> of a \<open>reserve\<close> that fits \<open>max_size\<close> do not occur, nor does the wrap of \<open>num_tokens + count\<close> in
  \<open>AppendTokens\<close> or of \<open>batch * vocab\<close> in the size check of \<open>BatchedSampler_Sample\<close>; the theorems about the
  latter bound the product. \<open>release_cached\<close> is one step, although the code destroys the victims after it
  has left the lock. In \<open>stream_run\<close> a push on a closed channel is a step without effect, in the code a failed check; the runtime
  never does it, as \<open>engine_never_aborts\<close> shows.
\<close>

section \<open>Not modelled\<close>

text \<open>
  The numerics of the transformer (\<open>model/\<close>, \<open>cpu/\<close>, \<open>kernels/\<close> other than the KV copies): their tests
  compare with fixtures under a tolerance, and the runtime sees them only through the forward's contract.
  Model loading (\<open>model/config.cpp\<close>, \<open>safetensors.cpp\<close>, \<open>checkpoint.cpp\<close>, \<open>loader.cpp\<close>): JSON and memory-mapped
  files. Thread creation and waiting (\<open>parallel/thread_pool.cpp\<close>, \<open>Engine::Run\<close>): a run is the sequence of the
  critical sections, in any order. The C library's allocator (a parameter), logging, \<open>main.cpp\<close> and the empty placeholders
  \<open>server/\<close>, \<open>spec/\<close>, \<open>quant/\<close>, \<open>metrics/\<close>. Message texts of errors, and diagnostics such as byte counts of
  staging buffers, are left out everywhere.
\<close>

end
